(* ===== verification/Prelude.thy ===== *)
theory Prelude
  imports Main "HOL-Library.Word"
begin

text \<open>
  Shared vocabulary of the development. Guest addresses and sizes are Rust \<open>u64\<close> values. The
  components treat them with checked, saturating or wrapping arithmetic, so they are natural
  numbers here and each of those operations is written out with the bound \<open>U64_MAX\<close>; where the
  parsers add without a check, a sum that does not fit is a panic, as a checked build has it (the
  host is 64-bit, so \<open>usize\<close> has the same bound). Values that the code takes apart bit by bit (error codes, event flags, kevent flags) are machine words.

  The theory holds the operations of Rust's integer types the components use, byte strings in
  little-endian order, slices with Rust's bounds checks, and the result type of code that may
  return, fail with an error value, or panic.
\<close>

unbundle bit_operations_syntax

named_theorems u64_defs "Rust integer operations on u64, as definitions over nat"

type_synonym u64 = nat
type_synonym byte = "8 word"

subsection \<open>Rust's u64 arithmetic\<close>

definition U64_MAX :: u64 where
  "U64_MAX = 2 ^ 64 - 1"

definition saturating_add :: "u64 \<Rightarrow> u64 \<Rightarrow> u64" where
  [u64_defs]: "saturating_add a b = min U64_MAX (a + b)"

definition saturating_sub :: "u64 \<Rightarrow> u64 \<Rightarrow> u64" where
  [u64_defs]: "saturating_sub a b = a - b"

definition saturating_mul :: "u64 \<Rightarrow> u64 \<Rightarrow> u64" where
  [u64_defs]: "saturating_mul a b = min U64_MAX (a * b)"

definition checked_add :: "u64 \<Rightarrow> u64 \<Rightarrow> u64 option" where
  [u64_defs]: "checked_add a b = (if a + b \<le> U64_MAX then Some (a + b) else None)"

definition checked_sub :: "u64 \<Rightarrow> u64 \<Rightarrow> u64 option" where
  [u64_defs]: "checked_sub a b = (if b \<le> a then Some (a - b) else None)"

definition checked_mul :: "u64 \<Rightarrow> u64 \<Rightarrow> u64 option" where
  [u64_defs]: "checked_mul a b = (if a * b \<le> U64_MAX then Some (a * b) else None)"

definition wrapping_add :: "u64 \<Rightarrow> u64 \<Rightarrow> u64" where
  [u64_defs]: "wrapping_add a b = (a + b) mod (U64_MAX + 1)"

definition wrapping_sub :: "u64 \<Rightarrow> u64 \<Rightarrow> u64" where
  [u64_defs]: "wrapping_sub a b = (a + (U64_MAX + 1 - b mod (U64_MAX + 1))) mod (U64_MAX + 1)"

definition div_ceil :: "u64 \<Rightarrow> u64 \<Rightarrow> u64" where
  "div_ceil a b = (if a mod b = 0 then a div b else a div b + 1)"

definition checked_next_multiple_of :: "u64 \<Rightarrow> u64 \<Rightarrow> u64 option" where
  "checked_next_multiple_of a b =
     (if b = 0 then None
      else if a mod b = 0 then Some a else checked_add a (b - a mod b))"

fun is_power_of_two :: "u64 \<Rightarrow> bool" where
  "is_power_of_two n =
     (if n = 0 then False else if n = 1 then True else even n \<and> is_power_of_two (n div 2))"

declare is_power_of_two.simps [simp del]

lemma U64_MAX_eq [simp]: "U64_MAX = 18446744073709551615"
  by (simp add: U64_MAX_def)

lemma checked_add_Some [simp]: "checked_add a b = Some c \<longleftrightarrow> c = a + b \<and> a + b \<le> U64_MAX"
  by (auto simp: checked_add_def)

lemma checked_add_None [simp]: "checked_add a b = None \<longleftrightarrow> U64_MAX < a + b"
  by (auto simp: checked_add_def)

lemma checked_sub_Some [simp]: "checked_sub a b = Some c \<longleftrightarrow> c = a - b \<and> b \<le> a"
  by (auto simp: checked_sub_def)

lemma saturating_add_exact: "a + b \<le> U64_MAX \<Longrightarrow> saturating_add a b = a + b"
  by (simp add: saturating_add_def)

lemma saturating_add_le: "saturating_add a b \<le> U64_MAX"
  by (simp add: saturating_add_def)

lemma saturating_add_le_sum: "saturating_add a b \<le> a + b"
  by (simp add: saturating_add_def)

lemma less_saturating_add: "x < U64_MAX \<Longrightarrow> x < saturating_add a b \<longleftrightarrow> x < a + b"
  by (simp add: saturating_add_def)

lemma is_power_of_two_iff: "is_power_of_two n \<longleftrightarrow> (\<exists>k. n = 2 ^ k)"
proof (induction n rule: is_power_of_two.induct)
  case (1 n)
  show ?case
  proof (cases "n = 0 \<or> n = 1")
    case True
    then show ?thesis
      by (auto simp: is_power_of_two.simps [of n] intro: exI [of _ 0])
  next
    case False
    then have IH: "is_power_of_two (n div 2) \<longleftrightarrow> (\<exists>k. n div 2 = 2 ^ k)"
      using "1.IH" by simp
    have "(\<exists>k. n = 2 ^ k) \<longleftrightarrow> even n \<and> (\<exists>k. n div 2 = 2 ^ k)"
    proof
      assume "\<exists>k. n = 2 ^ k"
      then obtain k where k: "n = 2 ^ k" ..
      with False obtain j where "k = Suc j" by (cases k) auto
      with k show "even n \<and> (\<exists>k. n div 2 = 2 ^ k)" by auto
    next
      assume "even n \<and> (\<exists>k. n div 2 = 2 ^ k)"
      then obtain k where "n = 2 * 2 ^ k" by (metis dvd_mult_div_cancel)
      then show "\<exists>k. n = 2 ^ k" by (metis power_Suc)
    qed
    with False IH show ?thesis by (simp add: is_power_of_two.simps [of n])
  qed
qed

lemma power_of_two_dvd:
  "is_power_of_two a \<Longrightarrow> is_power_of_two b \<Longrightarrow> a \<le> b \<Longrightarrow> a dvd b"
  by (auto simp: is_power_of_two_iff intro: le_imp_power_dvd)

lemma power_of_two_pos: "is_power_of_two a \<Longrightarrow> 0 < a"
  by (auto simp: is_power_of_two_iff)

subsection \<open>Rounding up to a multiple\<close>

lemma next_multiple_Some:
  assumes "checked_next_multiple_of a b = Some c"
  shows "a \<le> c" "b dvd c" "0 < b" "c < a + b" "c \<le> U64_MAX \<or> c = a"
proof -
  have b: "0 < b" using assms by (simp add: checked_next_multiple_of_def split: if_splits)
  have c: "c = (if a mod b = 0 then a else a + (b - a mod b))"
    using assms by (auto simp: checked_next_multiple_of_def split: if_splits)
  have m: "a mod b < b" using b by simp
  show "0 < b" by (fact b)
  show "a \<le> c" using c by auto
  show "c < a + b" using c b m by (auto simp: mod_greater_zero_iff_not_dvd)
  have "b dvd a + (b - a mod b)"
  proof -
    have "a + (b - a mod b) = a div b * b + b"
      using m div_mult_mod_eq [of a b] by linarith
    then show ?thesis by simp
  qed
  then show "b dvd c" using c by auto
  show "c \<le> U64_MAX \<or> c = a"
    using assms by (auto simp: checked_next_multiple_of_def split: if_splits)
qed

lemma next_multiple_least:
  assumes "checked_next_multiple_of a b = Some c" "a \<le> x" "b dvd x"
  shows "c \<le> x"
proof (rule ccontr)
  assume "\<not> c \<le> x"
  have "b dvd c - x"
    using next_multiple_Some(2) [OF assms(1)] assms(3) by (rule dvd_diff_nat)
  moreover have "c - x < b" "0 < c - x"
    using next_multiple_Some(4) [OF assms(1)] assms(2) \<open>\<not> c \<le> x\<close> by auto
  ultimately show False by (auto dest: dvd_imp_le)
qed

lemma next_multiple_None:
  assumes "checked_next_multiple_of a b = None" "0 < b" "a \<le> x" "b dvd x"
  shows "U64_MAX < x"
proof -
  have m: "a mod b \<noteq> 0" and big: "U64_MAX < a + (b - a mod b)"
    using assms(1,2) by (auto simp: checked_next_multiple_of_def split: if_splits)
  have "a div b * b < x"
    using assms(3,4) m div_mult_mod_eq [of a b] by (metis le_neq_implies_less less_le_trans
      mod_mult_self2_is_0 div_times_less_eq_dividend mod_eq_0_iff_dvd le_trans)
  moreover obtain q where q: "x = q * b" using assms(4) by (metis dvd_def mult.commute)
  ultimately have "a div b < q" using assms(2) by simp
  then have "(a div b + 1) * b \<le> q * b" by (intro mult_le_mono) auto
  then have "a div b * b + b \<le> x" using q by simp
  moreover have "a + (b - a mod b) = a div b * b + b"
    using assms(2) div_mult_mod_eq [of a b] mod_less_divisor [of b a] by linarith
  ultimately show ?thesis using big by linarith
qed

lemma next_multiple_self [simp]: "0 < b \<Longrightarrow> b dvd a \<Longrightarrow> checked_next_multiple_of a b = Some a"
  by (simp add: checked_next_multiple_of_def)

lemma div_ceil_bounds:
  assumes "0 < b"
  shows "a \<le> div_ceil a b * b" "div_ceil a b * b < a + b" "b dvd div_ceil a b * b"
proof -
  have m: "a mod b < b" using assms by simp
  have e: "a div b * b + a mod b = a" by simp
  have s: "(a div b + 1) * b = a div b * b + b" by simp
  show "a \<le> div_ceil a b * b"
    using m e s by (simp only: div_ceil_def split: if_splits) linarith
  show "div_ceil a b * b < a + b"
    using assms e s by (simp only: div_ceil_def split: if_splits) linarith
  show "b dvd div_ceil a b * b" by simp
qed

subsection \<open>Byte strings and slices\<close>

text \<open>\<open>le_nat\<close> is \<open>from_le_bytes\<close> of any width and \<open>to_le n\<close> is \<open>to_le_bytes\<close> of an
  \<open>n\<close>-byte integer.\<close>

primrec le_nat :: "byte list \<Rightarrow> nat" where
  "le_nat [] = 0"
| "le_nat (b # bs) = unat b + 256 * le_nat bs"

primrec to_le :: "nat \<Rightarrow> nat \<Rightarrow> byte list" where
  "to_le 0 v = []"
| "to_le (Suc n) v = of_nat (v mod 256) # to_le n (v div 256)"

text \<open>Rust's \<open>slice.get(a..b)\<close>, \<open>slice.get(a..)\<close> and \<open>chunks_exact\<close>.\<close>

definition get_range :: "'a list \<Rightarrow> nat \<Rightarrow> nat \<Rightarrow> 'a list option" where
  "get_range xs a b = (if a \<le> b \<and> b \<le> length xs then Some (take (b - a) (drop a xs)) else None)"

definition get_from :: "'a list \<Rightarrow> nat \<Rightarrow> 'a list option" where
  "get_from xs a = (if a \<le> length xs then Some (drop a xs) else None)"

function chunks_exact :: "nat \<Rightarrow> 'a list \<Rightarrow> 'a list list" where
  "chunks_exact n xs =
     (if n = 0 \<or> length xs < n then [] else take n xs # chunks_exact n (drop n xs))"
  by pat_completeness auto
termination
  by (relation "measure (\<lambda>(n, xs). length xs)") auto

declare chunks_exact.simps [simp del]

lemma length_to_le [simp]: "length (to_le n v) = n"
  by (induction n arbitrary: v) auto

lemma unat_byte_less: "unat (b :: byte) < 256"
  using unsigned_less [of b, where 'a = nat] by simp

lemma le_nat_less: "le_nat bs < 256 ^ length bs"
proof (induction bs)
  case Nil
  then show ?case by simp
next
  case (Cons b bs)
  with unat_byte_less [of b] show ?case by simp
qed

lemma le_nat_to_le: "le_nat (to_le n v) = v mod 256 ^ n"
proof (induction n arbitrary: v)
  case 0
  then show ?case by simp
next
  case (Suc n)
  have u: "unat (of_nat (v mod 256) :: byte) = v mod 256"
    by (simp add: unat_of_nat)
  have "v mod (256 * 256 ^ n) = 256 * (v div 256 mod 256 ^ n) + v mod 256"
    by (rule mod_mult2_eq)
  with u Suc show ?case by simp
qed

lemma to_le_le_nat: "to_le (length bs) (le_nat bs) = bs"
proof (induction bs)
  case Nil
  then show ?case by simp
next
  case (Cons b bs)
  have lt: "unat b < 256" by (rule unat_byte_less)
  then have "(unat b + 256 * le_nat bs) mod 256 = unat b"
    and "(unat b + 256 * le_nat bs) div 256 = le_nat bs" by simp_all
  with Cons show ?case by simp
qed

lemma get_range_Some:
  "get_range xs a b = Some ys \<longleftrightarrow> a \<le> b \<and> b \<le> length xs \<and> ys = take (b - a) (drop a xs)"
  by (auto simp: get_range_def)

lemma get_range_length: "get_range xs a b = Some ys \<Longrightarrow> length ys = b - a"
  by (auto simp: get_range_def split: if_splits)

lemma chunks_exact_length: "c \<in> set (chunks_exact n xs) \<Longrightarrow> length c = n"
proof (induction n xs rule: chunks_exact.induct)
  case (1 n xs)
  then show ?case
    by (auto simp: chunks_exact.simps [of n xs] split: if_splits)
qed

lemma length_chunks_exact: "0 < n \<Longrightarrow> length (chunks_exact n xs) = length xs div n"
proof (induction n xs rule: chunks_exact.induct)
  case (1 n xs)
  then show ?case
    by (auto simp: chunks_exact.simps [of n xs] le_div_geq)
qed

lemma chunks_exact_append:
  "length c = n \<Longrightarrow> 0 < n \<Longrightarrow> chunks_exact n (c @ xs) = c # chunks_exact n xs"
  by (subst chunks_exact.simps) simp

lemma chunks_exact_Nil [simp]: "chunks_exact n [] = []"
  by (cases n) (simp_all add: chunks_exact.simps)

lemma upt_Suc_Cons: "[0..<Suc n] = 0 # map Suc [0..<n]"
  by (simp add: map_Suc_upt upt_conv_Cons del: upt_Suc)

text \<open>Joining disjoint bit ranges is addition.\<close>

lemma push_and_take: "push_bit n a AND take_bit n b = (0 :: nat)"
  by (rule bit_eqI) (auto simp: bit_simps)

lemma push_or_small: "b < 2 ^ n \<Longrightarrow> a * 2 ^ n OR b = a * 2 ^ n + (b :: nat)"
  using disjunctive_add_eq_or [OF push_and_take [of n a b]]
  by (simp add: push_bit_eq_mult take_bit_nat_eq_self)

subsection \<open>Searching\<close>

text \<open>\<open>iter().position\<close>: the index of the first element a predicate holds of.\<close>

fun position :: "('a \<Rightarrow> bool) \<Rightarrow> 'a list \<Rightarrow> nat option" where
  "position p [] = None"
| "position p (x # xs) = (if p x then Some 0 else map_option Suc (position p xs))"

lemma position_Some: "position p xs = Some i \<Longrightarrow> i < length xs \<and> p (xs ! i)"
  by (induction xs arbitrary: i) (auto split: if_splits)

lemma position_None: "position p xs = None \<longleftrightarrow> (\<forall>x \<in> set xs. \<not> p x)"
  by (induction xs) auto

lemma position_split:
  assumes "position p xs = Some i"
  shows "\<exists>ys x zs. xs = ys @ x # zs \<and> i = length ys \<and> p x \<and> (\<forall>y \<in> set ys. \<not> p y)"
  using assms
proof (induction xs arbitrary: i)
  case Nil
  then show ?case by simp
next
  case (Cons a xs)
  show ?case
  proof (cases "p a")
    case True
    then show ?thesis using Cons.prems by (intro exI [of _ "[]"]) auto
  next
    case False
    then obtain j where j: "position p xs = Some j" "i = Suc j" using Cons.prems by auto
    obtain ys x zs where "xs = ys @ x # zs" "j = length ys" "p x" "\<forall>y \<in> set ys. \<not> p y"
      using Cons.IH [OF j(1)] by blast
    then show ?thesis using False j by (intro exI [of _ "a # ys"] exI [of _ x] exI [of _ zs]) auto
  qed
qed

lemma find_split:
  assumes "find p xs = Some x"
  shows "\<exists>ys zs. xs = ys @ x # zs \<and> p x \<and> (\<forall>y \<in> set ys. \<not> p y)"
  using assms
proof (induction xs)
  case Nil
  then show ?case by simp
next
  case (Cons a xs)
  show ?case
  proof (cases "p a")
    case True
    then show ?thesis using Cons.prems by (intro exI [of _ "[]"] exI [of _ xs]) auto
  next
    case False
    then obtain ys zs where "xs = ys @ x # zs" "p x" "\<forall>y \<in> set ys. \<not> p y" using Cons by auto
    then show ?thesis using False by (intro exI [of _ "a # ys"] exI [of _ zs]) auto
  qed
qed

text \<open>The answer of a search upward from a start: the least place that will do, or none when nothing
  will.\<close>

definition least_from :: "(nat \<Rightarrow> bool) \<Rightarrow> nat \<Rightarrow> nat option \<Rightarrow> bool" where
  "least_from P start res \<longleftrightarrow>
     (case res of
        Some s \<Rightarrow> start \<le> s \<and> P s \<and> (\<forall>x. start \<le> x \<longrightarrow> P x \<longrightarrow> s \<le> x)
      | None \<Rightarrow> (\<forall>x. start \<le> x \<longrightarrow> \<not> P x))"

lemma least_from_mono:
  assumes "least_from P start' res" "start \<le> start'" "\<And>x. start' \<le> x \<Longrightarrow> P x \<Longrightarrow> Q x"
    "\<And>x. start \<le> x \<Longrightarrow> Q x \<Longrightarrow> start' \<le> x \<and> P x"
  shows "least_from Q start res"
proof (cases res)
  case None
  then show ?thesis using assms(1,4) by (auto simp: least_from_def)
next
  case (Some y)
  then have y: "start' \<le> y" "P y" "\<And>x. start' \<le> x \<Longrightarrow> P x \<Longrightarrow> y \<le> x"
    using assms(1) by (auto simp: least_from_def)
  have "y \<le> x" if "start \<le> x" "Q x" for x
    using assms(4) [OF that] y(3) by blast
  then show ?thesis using Some y(1,2) assms(2,3) by (auto simp: least_from_def)
qed

subsection \<open>Code that may panic\<close>

text \<open>
  A Rust call that returns a \<open>Result\<close> ends in one of three ways: it returns a value, it returns an
  error, or it panics (an index out of bounds, an arithmetic overflow of a checked build).
  \<open>out_bind\<close> is the \<open>?\<close> operator: it passes errors and panics on.
\<close>

datatype ('e, 'a) outcome = Ok 'a | Err 'e | Panic

fun out_bind :: "('e, 'a) outcome \<Rightarrow> ('a \<Rightarrow> ('e, 'b) outcome) \<Rightarrow> ('e, 'b) outcome" where
  "out_bind (Ok x) f = f x"
| "out_bind (Err e) f = Err e"
| "out_bind Panic f = Panic"

primrec no_panic :: "('e, 'a) outcome \<Rightarrow> bool" where
  "no_panic (Ok x) = True"
| "no_panic (Err e) = True"
| "no_panic Panic = False"

lemma no_panic_bind [intro]:
  "no_panic m \<Longrightarrow> (\<And>x. m = Ok x \<Longrightarrow> no_panic (f x)) \<Longrightarrow> no_panic (out_bind m f)"
  by (cases m) auto

lemma out_bind_Ok: "out_bind m f = Ok y \<longleftrightarrow> (\<exists>x. m = Ok x \<and> f x = Ok y)"
  by (cases m) auto

text \<open>
  The pieces of such code: \<open>ok_or\<close>, a slice taken by a range that must be in bounds, a sum and a
  product the checked build tests, and a loop that stops at the first failure.
\<close>

named_theorems ok_iff "when a call that may fail answers, and with what"

definition ok_or :: "'e \<Rightarrow> 'a option \<Rightarrow> ('e, 'a) outcome" where
  "ok_or e m = (case m of Some x \<Rightarrow> Ok x | None \<Rightarrow> Err e)"

definition index_from :: "'a list \<Rightarrow> nat \<Rightarrow> ('e, 'a list) outcome" where
  "index_from xs a = (if a \<le> length xs then Ok (drop a xs) else Panic)"

definition plain_add :: "u64 \<Rightarrow> u64 \<Rightarrow> ('e, u64) outcome" where
  "plain_add a b = (if a + b \<le> U64_MAX then Ok (a + b) else Panic)"

fun out_map :: "('a \<Rightarrow> ('e, 'b) outcome) \<Rightarrow> 'a list \<Rightarrow> ('e, 'b list) outcome" where
  "out_map f [] = Ok []"
| "out_map f (x # xs) = out_bind (f x) (\<lambda>y. out_bind (out_map f xs) (\<lambda>ys. Ok (y # ys)))"

lemma ok_or_Ok [ok_iff]: "ok_or e m = Ok x \<longleftrightarrow> m = Some x"
  by (auto simp: ok_or_def split: option.splits)

lemma index_from_Ok [ok_iff]: "index_from xs a = Ok ys \<longleftrightarrow> a \<le> length xs \<and> ys = drop a xs"
  by (auto simp: index_from_def)

lemma plain_add_Ok [ok_iff]: "plain_add a b = Ok c \<longleftrightarrow> a + b \<le> U64_MAX \<and> c = a + b"
  by (auto simp: plain_add_def)

lemmas [ok_iff] = out_bind_Ok

lemma no_panic_iff: "no_panic m \<longleftrightarrow> m \<noteq> Panic"
  by (cases m) auto

lemma no_panic_ok_or [simp]: "no_panic (ok_or e m)"
  by (simp add: ok_or_def split: option.splits)

lemma no_panic_index_from [simp]: "no_panic (index_from xs a) \<longleftrightarrow> a \<le> length xs"
  by (simp add: index_from_def)

lemma no_panic_plain_add [simp]: "no_panic (plain_add a b) \<longleftrightarrow> a + b \<le> U64_MAX"
  by (simp add: plain_add_def)

lemma no_panic_out_map: "(\<And>x. x \<in> set xs \<Longrightarrow> no_panic (f x)) \<Longrightarrow> no_panic (out_map f xs)"
  by (induction xs) (auto intro!: no_panic_bind)

lemma out_map_Ok: "out_map f xs = Ok ys \<longleftrightarrow> list_all2 (\<lambda>x y. f x = Ok y) xs ys"
  by (induction xs arbitrary: ys) (auto simp: out_bind_Ok list_all2_Cons1)

lemma out_map_nth: "out_map f xs = Ok ys \<Longrightarrow> length ys = length xs \<and> (\<forall>i < length xs. f (xs ! i) = Ok (ys ! i))"
  by (auto simp: out_map_Ok list_all2_conv_all_nth)

text \<open>An integer of \<open>n\<close> bytes at an offset of a record laid out in memory.\<close>

definition field :: "byte list \<Rightarrow> nat \<Rightarrow> nat \<Rightarrow> nat" where
  "field bs at n = le_nat (take n (drop at bs))"

lemma field_less: "field bs at n < 256 ^ n"
proof -
  have "field bs at n < 256 ^ length (take n (drop at bs))"
    unfolding field_def by (rule le_nat_less)
  also have "\<dots> \<le> 256 ^ n" by (rule power_increasing) auto
  finally show ?thesis .
qed

lemma field_append_right: "length as \<le> at \<Longrightarrow> field (as @ bs) at n = field bs (at - length as) n"
  by (simp add: field_def)

lemma field_append_left: "at + n \<le> length as \<Longrightarrow> field (as @ bs) at n = field as at n"
  by (simp add: field_def)

lemma field_to_le: "field (to_le n v @ bs) 0 n = v mod 256 ^ n"
  by (simp add: field_def le_nat_to_le)

end
