(* ===== verification/Guest_Core.thy ===== *)
theory Guest_Core
  imports Prelude
begin

text \<open>
  The bottom of the dependency graph: the codes a guest sees when a call fails
  (\<^verbatim>\<open>orbistoun-core/src/error.rs\<close>), opaque handles and their allocator
  (\<^verbatim>\<open>orbistoun-core/src/handle.rs\<close>), and the bump-allocated blocks whose addresses are handed to
  the guest as handles (\<^verbatim>\<open>orbistoun-mem/src/blocks.rs\<close>).

  The lemmas show that a placeholder code is recognised exactly, at its own value and sign-extended,
  and that no measured vendor code is taken for one; that a handle allocator issues every handle
  once, in order, and then refuses for good; and that blocks are aligned and never overlap.
\<close>

section \<open>Guest-visible error codes\<close>

datatype GuestError =
    Unimplemented
  | InvalidArgument
  | InvalidHandle
  | NoMemory
  | HostFailed
  | Raw "32 word"

definition VENDOR_ERROR_BASE :: "32 word" where
  "VENDOR_ERROR_BASE = 0x80020000"

definition PLACEHOLDER_BASE :: "32 word" where
  "PLACEHOLDER_BASE = 0xF7FF0000"

text \<open>The \<open>errno\<close> values the modelled calls answer with.\<close>

abbreviation ERRNO_NO_MEMORY :: "32 word" where "ERRNO_NO_MEMORY \<equiv> 12"
abbreviation ERRNO_FAULT :: "32 word" where "ERRNO_FAULT \<equiv> 14"
abbreviation ERRNO_INVALID :: "32 word" where "ERRNO_INVALID \<equiv> 22"

definition vendor :: "32 word \<Rightarrow> GuestError" where
  "vendor errno = Raw (VENDOR_ERROR_BASE OR errno)"

definition vendor_in :: "32 word \<Rightarrow> 32 word \<Rightarrow> GuestError" where
  "vendor_in base errno = Raw (base OR errno)"

fun error_as_raw :: "GuestError \<Rightarrow> 32 word" where
  "error_as_raw Unimplemented = PLACEHOLDER_BASE OR 1"
| "error_as_raw InvalidArgument = PLACEHOLDER_BASE OR 2"
| "error_as_raw InvalidHandle = PLACEHOLDER_BASE OR 3"
| "error_as_raw NoMemory = PLACEHOLDER_BASE OR 4"
| "error_as_raw HostFailed = PLACEHOLDER_BASE OR 5"
| "error_as_raw (Raw v) = v"

definition placeholder_named :: "u64 \<Rightarrow> (string \<times> bool) option" where
  "placeholder_named address0 =
     (let address = (if address0 div 2 ^ 32 = 0xFFFFFFFF then address0 mod 2 ^ 32 else address0)
      in if address > 0xFFFFFFFF then None
      else let value = (of_nat address :: 32 word)
      in if value = PLACEHOLDER_BASE OR 1 then Some (''unimplemented'', True)
      else if value = PLACEHOLDER_BASE OR 2 then Some (''invalid argument'', True)
      else if value = PLACEHOLDER_BASE OR 3 then Some (''invalid handle'', True)
      else if value = PLACEHOLDER_BASE OR 4 then Some (''out of memory'', True)
      else if value = PLACEHOLDER_BASE OR 5 then Some (''host failed'', True)
      else if value \<ge> PLACEHOLDER_BASE \<and> value \<le> PLACEHOLDER_BASE OR 0xFFFF
        then Some (''a placeholder answer'', False)
      else None)"

text \<open>The words a report prints for an error without a raw code of its own.\<close>

fun error_words :: "GuestError \<Rightarrow> string option" where
  "error_words Unimplemented = Some ''unimplemented''"
| "error_words InvalidArgument = Some ''invalid argument''"
| "error_words InvalidHandle = Some ''invalid handle''"
| "error_words NoMemory = Some ''out of memory''"
| "error_words HostFailed = Some ''host failed''"
| "error_words (Raw v) = None"

section \<open>Handles\<close>

datatype handle = Handle "32 word"

definition handle_from_raw :: "32 word \<Rightarrow> handle option" where
  "handle_from_raw raw = (if raw = 0 then None else Some (Handle raw))"

fun handle_as_raw :: "handle \<Rightarrow> 32 word" where
  "handle_as_raw (Handle raw) = raw"

record handle_allocator =
  next_handle :: "32 word"

definition handle_allocator_new :: handle_allocator where
  "handle_allocator_new = \<lparr>next_handle = 1\<rparr>"

definition checked_add32 :: "32 word \<Rightarrow> 32 word \<Rightarrow> 32 word option" where
  "checked_add32 a b = (if unat a + unat b < 2 ^ 32 then Some (a + b) else None)"

definition handle_alloc :: "handle_allocator \<Rightarrow> handle option \<times> handle_allocator" where
  "handle_alloc a =
     (case checked_add32 (next_handle a) 1 of
        Some n \<Rightarrow> (Some (Handle (next_handle a)), a\<lparr>next_handle := n\<rparr>)
      | None \<Rightarrow> (None, a))"

text \<open>A run of allocations, with what each of them answered.\<close>

fun handle_allocs :: "nat \<Rightarrow> handle_allocator \<Rightarrow> handle option list \<times> handle_allocator" where
  "handle_allocs 0 a = ([], a)"
| "handle_allocs (Suc n) a =
     (let (h, a') = handle_alloc a; (hs, a'') = handle_allocs n a' in (h # hs, a''))"

section \<open>Blocks handed out as handles\<close>

definition GUEST_BLOCK_BASE :: u64 where
  "GUEST_BLOCK_BASE = 0x5E2D00000000"

definition BLOCK_SPAN :: u64 where
  "BLOCK_SPAN = 64 * 1024 * 1024"

text \<open>
  The region is reserved once, on the first request; \<open>blocks_next\<close> is the \<open>NEXT\<close> counter, zero
  before that, and \<open>blocks_ready\<close> the answer \<open>READY\<close> holds once asked. The host's answer to the one
  reservation and the address a heap fallback gets are parameters.
\<close>

record guest_blocks =
  blocks_ready :: "bool option"
  blocks_next :: u64

definition guest_blocks_init :: guest_blocks where
  "guest_blocks_init = \<lparr>blocks_ready = None, blocks_next = 0\<rparr>"

definition blocks_ready_step :: "bool \<Rightarrow> guest_blocks \<Rightarrow> bool \<times> guest_blocks" where
  "blocks_ready_step placed s =
     (case blocks_ready s of
        Some r \<Rightarrow> (r, s)
      | None \<Rightarrow>
          (placed, s\<lparr>blocks_ready := Some placed,
                     blocks_next := (if placed then GUEST_BLOCK_BASE else blocks_next s)\<rparr>))"

definition block :: "bool \<Rightarrow> u64 \<Rightarrow> nat \<Rightarrow> guest_blocks \<Rightarrow> u64 \<times> guest_blocks" where
  "block placed heap words s =
     (let bytes = saturating_mul words 8; (ready, s1) = blocks_ready_step placed s
      in if ready then
           (let at = blocks_next s1; s2 = s1\<lparr>blocks_next := wrapping_add at bytes\<rparr>
            in if saturating_add at bytes \<le> saturating_add GUEST_BLOCK_BASE BLOCK_SPAN
               then (at, s2) else (heap, s2))
         else (heap, s1))"

definition blocks_taken :: "guest_blocks \<Rightarrow> u64" where
  "blocks_taken s = saturating_sub (blocks_next s) GUEST_BLOCK_BASE"

text \<open>A run of requests, each for so many words, and the addresses they were given.\<close>

fun block_run :: "bool \<Rightarrow> u64 \<Rightarrow> nat list \<Rightarrow> guest_blocks \<Rightarrow> u64 list \<times> guest_blocks" where
  "block_run placed heap [] s = ([], s)"
| "block_run placed heap (w # ws) s =
     (let (a, s') = block placed heap w s; (as, s'') = block_run placed heap ws s'
      in (a # as, s''))"

section \<open>What holds of them\<close>

subsection \<open>Error codes\<close>

lemma of_nat_word32_eq:
  "a < 2 ^ 32 \<Longrightarrow> (of_nat a :: 32 word) = w \<longleftrightarrow> a = unat w"
  by (simp add: word_unat_eq_iff unat_of_nat)

lemma placeholder_values:
  "unat (PLACEHOLDER_BASE OR 1) = 0xF7FF0001" "unat (PLACEHOLDER_BASE OR 2) = 0xF7FF0002"
  "unat (PLACEHOLDER_BASE OR 3) = 0xF7FF0003" "unat (PLACEHOLDER_BASE OR 4) = 0xF7FF0004"
  "unat (PLACEHOLDER_BASE OR 5) = 0xF7FF0005" "unat PLACEHOLDER_BASE = 0xF7FF0000"
  "unat (PLACEHOLDER_BASE OR 0xFFFF) = 0xF7FFFFFF"
  by (simp_all add: PLACEHOLDER_BASE_def)

text \<open>The fold a sign-extended code goes through.\<close>

definition unextend :: "u64 \<Rightarrow> u64" where
  "unextend a = (if a div 2 ^ 32 = 0xFFFFFFFF then a mod 2 ^ 32 else a)"

lemma placeholder_named_nat:
  "placeholder_named a =
     (if unextend a = 0xF7FF0001 then Some (''unimplemented'', True)
      else if unextend a = 0xF7FF0002 then Some (''invalid argument'', True)
      else if unextend a = 0xF7FF0003 then Some (''invalid handle'', True)
      else if unextend a = 0xF7FF0004 then Some (''out of memory'', True)
      else if unextend a = 0xF7FF0005 then Some (''host failed'', True)
      else if 0xF7FF0000 \<le> unextend a \<and> unextend a \<le> 0xF7FFFFFF
        then Some (''a placeholder answer'', False)
      else None)"
proof -
  have unfold: "placeholder_named a =
     (if unextend a > 0xFFFFFFFF then None
      else if (of_nat (unextend a) :: 32 word) = PLACEHOLDER_BASE OR 1 then Some (''unimplemented'', True)
      else if (of_nat (unextend a) :: 32 word) = PLACEHOLDER_BASE OR 2 then Some (''invalid argument'', True)
      else if (of_nat (unextend a) :: 32 word) = PLACEHOLDER_BASE OR 3 then Some (''invalid handle'', True)
      else if (of_nat (unextend a) :: 32 word) = PLACEHOLDER_BASE OR 4 then Some (''out of memory'', True)
      else if (of_nat (unextend a) :: 32 word) = PLACEHOLDER_BASE OR 5 then Some (''host failed'', True)
      else if (of_nat (unextend a) :: 32 word) \<ge> PLACEHOLDER_BASE \<and>
              (of_nat (unextend a) :: 32 word) \<le> PLACEHOLDER_BASE OR 0xFFFF
        then Some (''a placeholder answer'', False)
      else None)"
    by (simp only: placeholder_named_def unextend_def Let_def)
  show ?thesis
  proof (cases "unextend a > 0xFFFFFFFF")
    case True
    then show ?thesis unfolding unfold by simp
  next
    case False
    then have lt: "unextend a < 2 ^ 32" by simp
    have le: "(of_nat (unextend a) :: 32 word) \<ge> w \<longleftrightarrow> unextend a \<ge> unat w"
      "(of_nat (unextend a) :: 32 word) \<le> w \<longleftrightarrow> unextend a \<le> unat w" for w
      using lt by (simp_all add: word_le_nat_alt unat_of_nat)
    have nf: "(unextend a > 0xFFFFFFFF) = False" using False by simp
    show ?thesis
      unfolding unfold nf if_False of_nat_word32_eq [OF lt] le placeholder_values ..
  qed
qed

lemma unextend_eq:
  "c < 2 ^ 32 \<Longrightarrow> a < 2 ^ 64 \<Longrightarrow>
     unextend a = c \<longleftrightarrow> a = c \<or> a = c + 0xFFFFFFFF * 2 ^ 32"
proof -
  assume c: "c < 2 ^ 32" and a: "a < 2 ^ 64"
  define m :: nat where "m = 2 ^ 32"
  have m: "m = 4294967296" by (simp add: m_def)
  have e: "a = a div m * m + a mod m" by simp
  show ?thesis
  proof (cases "a div m = 0xFFFFFFFF")
    case True
    then have u: "unextend a = a mod m" by (simp add: unextend_def m)
    have e': "a = 0xFFFFFFFF * m + a mod m" using e unfolding True .
    moreover have "c < 4294967296" using c by simp
    ultimately have "a \<noteq> c" using m by linarith
    then show ?thesis using e' u m by auto
  next
    case False
    then have "a \<noteq> c + 0xFFFFFFFF * m" using c by (simp add: m)
    then show ?thesis using False by (simp add: unextend_def m)
  qed
qed

subsection \<open>Handles\<close>

lemma handle_alloc_next:
  "handle_alloc a =
     (if next_handle a = 0xFFFFFFFF then (None, a)
      else (Some (Handle (next_handle a)), a\<lparr>next_handle := next_handle a + 1\<rparr>))"
proof -
  have "unat (next_handle a) + 1 < 2 ^ 32 \<longleftrightarrow> next_handle a \<noteq> 0xFFFFFFFF"
  proof -
    have "unat (next_handle a) < 2 ^ 32" using unsigned_less [of "next_handle a"] by simp
    moreover have "next_handle a = 0xFFFFFFFF \<longleftrightarrow> unat (next_handle a) = 0xFFFFFFFF"
      by (simp add: word_unat_eq_iff)
    ultimately show ?thesis by auto
  qed
  then show ?thesis by (simp add: handle_alloc_def checked_add32_def)
qed

lemma handle_allocs_from:
  assumes "0 < k" "k < 2 ^ 32" "next_handle a = of_nat k"
  shows "fst (handle_allocs n a) =
     map (\<lambda>i. if k + i < 2 ^ 32 - 1 then Some (Handle (of_nat (k + i))) else None) [0..<n]"
  using assms
proof (induction n arbitrary: k a)
  case 0
  then show ?case by simp
next
  case (Suc n)
  have top: "(of_nat k :: 32 word) = 0xFFFFFFFF \<longleftrightarrow> k = 2 ^ 32 - 1"
    using Suc.prems(2) by (simp add: of_nat_word32_eq)
  have split: "[0..<Suc n] = 0 # map Suc [0..<n]" by (rule upt_Suc_Cons)
  show ?case
  proof (cases "k = 2 ^ 32 - 1")
    case True
    then have "handle_alloc a = (None, a)" using Suc.prems top by (simp add: handle_alloc_next)
    then show ?thesis
      using Suc.IH [OF Suc.prems] True unfolding split
      by (simp add: case_prod_unfold o_def)
  next
    case False
    then have a: "handle_alloc a = (Some (Handle (of_nat k)), a\<lparr>next_handle := of_nat (Suc k)\<rparr>)"
      using Suc.prems top by (simp add: handle_alloc_next add.commute)
    have "fst (handle_allocs n (a\<lparr>next_handle := of_nat (Suc k)\<rparr>)) =
       map (\<lambda>i. if Suc k + i < 2 ^ 32 - 1 then Some (Handle (of_nat (Suc k + i))) else None) [0..<n]"
      using False Suc.prems by (intro Suc.IH) auto
    then show ?thesis
      using False Suc.prems(2) unfolding split a handle_allocs.simps
      by (simp add: case_prod_unfold a o_def)
  qed
qed

subsection \<open>Blocks\<close>

text \<open>The counter and the requests still to come stay below the end of the address space.\<close>

definition blocks_room :: "guest_blocks \<Rightarrow> nat list \<Rightarrow> bool" where
  "blocks_room s ws \<longleftrightarrow>
     blocks_ready s = Some True \<and> GUEST_BLOCK_BASE \<le> blocks_next s \<and> 8 dvd blocks_next s \<and>
     blocks_next s + 8 * sum_list ws \<le> U64_MAX"

lemma block_step:
  assumes "blocks_room s (w # ws)" "block placed heap w s = (a, s')"
  shows "blocks_room s' ws" "blocks_next s' = blocks_next s + 8 * w"
    "a = (if blocks_next s + 8 * w \<le> GUEST_BLOCK_BASE + BLOCK_SPAN then blocks_next s else heap)"
proof -
  have r: "blocks_ready s = Some True" and b: "blocks_next s + 8 * w \<le> U64_MAX"
    using assms(1) by (simp_all add: blocks_room_def)
  have bytes: "saturating_mul w 8 = 8 * w" using b by (simp add: u64_defs)
  have wr: "wrapping_add (blocks_next s) (8 * w) = blocks_next s + 8 * w"
    using b by (simp add: wrapping_add_def)
  have sp: "saturating_add GUEST_BLOCK_BASE BLOCK_SPAN = GUEST_BLOCK_BASE + BLOCK_SPAN"
    by (simp add: saturating_add_def GUEST_BLOCK_BASE_def BLOCK_SPAN_def)
  note step = assms(2) [unfolded block_def Let_def blocks_ready_step_def r option.case bytes wr sp]
  show "blocks_next s' = blocks_next s + 8 * w"
    using step b by (auto simp: wr split: if_splits)
  then show "blocks_room s' ws"
    using assms(1) step by (auto simp: blocks_room_def split: if_splits)
  show "a = (if blocks_next s + 8 * w \<le> GUEST_BLOCK_BASE + BLOCK_SPAN then blocks_next s else heap)"
    using step b by (auto simp: saturating_add_exact split: if_splits)
qed

lemma block_run_from:
  assumes "blocks_room s ws"
  shows "fst (block_run placed heap ws s) =
     map (\<lambda>i. if blocks_next s + 8 * sum_list (take (Suc i) ws) \<le> GUEST_BLOCK_BASE + BLOCK_SPAN
              then blocks_next s + 8 * sum_list (take i ws) else heap) [0..<length ws]"
  using assms
proof (induction ws arbitrary: s)
  case Nil
  then show ?case by simp
next
  case (Cons w ws)
  obtain a s' where st: "block placed heap w s = (a, s')" by fastforce
  note step = block_step [OF Cons.prems st]
  have split: "[0..<length (w # ws)] = 0 # map Suc [0..<length ws]"
    by (simp add: upt_Suc_Cons del: upt_Suc)
  show ?case
    unfolding split list.map map_map block_run.simps st Let_def prod.case case_prod_unfold fst_conv
    using Cons.IH [OF step(1)] step(2,3) by (simp add: o_def algebra_simps)
qed

lemma sum_list_take_mono: "i \<le> j \<Longrightarrow> sum_list (take i ws) \<le> sum_list (take j (ws :: nat list))"
  by (metis le_add1 min.absorb2 sum_list_append take_add take_take le_iff_add)

section \<open>Properties\<close>

lemma ex_GuestError:
  "(\<exists>e. P e) \<longleftrightarrow> P Unimplemented \<or> P InvalidArgument \<or> P InvalidHandle \<or> P NoMemory \<or>
     P HostFailed \<or> (\<exists>v. P (Raw v))"
  by (metis GuestError.exhaust)

lemma placeholder_exact_values:
  "placeholder_named a = Some (n, True) \<longleftrightarrow>
     n = ''unimplemented'' \<and> unextend a = 0xF7FF0001 \<or> n = ''invalid argument'' \<and> unextend a = 0xF7FF0002 \<or>
     n = ''invalid handle'' \<and> unextend a = 0xF7FF0003 \<or> n = ''out of memory'' \<and> unextend a = 0xF7FF0004 \<or>
     n = ''host failed'' \<and> unextend a = 0xF7FF0005"
  by (auto simp: placeholder_named_nat)

lemma placeholder_exact_error:
  "placeholder_named a = Some (n, True) \<longleftrightarrow>
     (\<exists>e. error_words e = Some n \<and> unextend a = unat (error_as_raw e))"
  unfolding placeholder_exact_values ex_GuestError error_words.simps error_as_raw.simps
    placeholder_values
  by (simp only: option.inject eq_commute [of _ n] option.distinct simp_thms)

text \<open>An address is named as one of the emulator's own placeholder codes, exactly, when and only
  when it is the raw value of a non-vendor \<open>GuestError\<close> or that value sign-extended to 64 bits, and
  the name it is given is that error's own.\<close>

theorem placeholder_named_exact:
  assumes "a < 2 ^ 64"
  shows "placeholder_named a = Some (n, True) \<longleftrightarrow>
    (\<exists>e. error_words e = Some n \<and>
       (a = unat (error_as_raw e) \<or> a = unat (error_as_raw e) + 0xFFFFFFFF * 2 ^ 32))"
proof -
  have lt: "unat (error_as_raw e) < 2 ^ 32" for e
    using unsigned_less [of "error_as_raw e", where 'a = nat] by simp
  show ?thesis unfolding placeholder_exact_error unextend_eq [OF lt assms] ..
qed

theorem placeholder_named_exact_witness:
  "(0xFFFFFFFFF7FF0003 :: nat) < 2 ^ 64 \<and>
   placeholder_named 0xFFFFFFFFF7FF0003 = Some (''invalid handle'', True)"
proof -
  have h: "(0xFFFFFFFFF7FF0003 :: nat) < 2 ^ 64" by simp
  have "error_words InvalidHandle = Some ''invalid handle'' \<and>
      (0xFFFFFFFFF7FF0003 :: nat) = unat (error_as_raw InvalidHandle) + 0xFFFFFFFF * 2 ^ 32"
    by (simp add: placeholder_values)
  then show ?thesis using h placeholder_named_exact [OF h] by blast
qed

text \<open>No code of the measured vendor encoding \<open>0x8002_0000 | errno\<close> is ever named as a
  placeholder, exactly or weakly, whether or not a call sign-extends it.\<close>

theorem vendor_code_not_placeholder:
  assumes "unat errno < 2 ^ 16"
  shows "placeholder_named (unat (error_as_raw (vendor errno))) = None \<and>
    placeholder_named (unat (error_as_raw (vendor errno)) + 0xFFFFFFFF * 2 ^ 32) = None"
proof -
  have "unat (VENDOR_ERROR_BASE OR errno) = 0x8002 * 2 ^ 16 OR unat errno"
    by (simp add: unsigned_or_eq VENDOR_ERROR_BASE_def)
  then have v: "unat (error_as_raw (vendor errno)) = 0x80020000 + unat errno"
    unfolding push_or_small [OF assms] by (simp add: vendor_def)
  have "unextend (0x80020000 + unat errno) = 0x80020000 + unat errno"
    "unextend (0x80020000 + unat errno + 0xFFFFFFFF * 2 ^ 32) = 0x80020000 + unat errno"
    using assms by (auto simp: unextend_eq)
  then show ?thesis
    unfolding v using assms by (simp add: placeholder_named_nat)
qed

theorem vendor_code_not_placeholder_witness:
  "unat (22 :: 32 word) < 2 ^ 16 \<and> placeholder_named (unat (error_as_raw (vendor 22))) = None"
  using vendor_code_not_placeholder [of 22] by simp

text \<open>A fresh handle allocator answers the handles 1, 2, 3, ... in order up to
  \<open>2 ^ 32 - 2\<close> and refuses every request after that: no handle is zero, none is issued twice, and
  every one of them is accepted when the guest passes it back.\<close>

theorem handle_allocs_sequence:
  "fst (handle_allocs n handle_allocator_new) =
     map (\<lambda>i. if 1 + i < 2 ^ 32 - 1 then Some (Handle (of_nat (1 + i))) else None) [0..<n] \<and>
   distinct (filter (\<lambda>h. h \<noteq> None) (fst (handle_allocs n handle_allocator_new))) \<and>
   (\<forall>h \<in> set (fst (handle_allocs n handle_allocator_new)).
      h \<noteq> None \<longrightarrow> Option.bind h (handle_from_raw \<circ> handle_as_raw) = h)"
proof -
  define g where "g = (\<lambda>i. if 1 + i < 2 ^ 32 - 1 then Some (Handle (of_nat (1 + i))) else None)"
  have seq: "fst (handle_allocs n handle_allocator_new) = map g [0..<n]"
    unfolding g_def by (rule handle_allocs_from) (simp_all add: handle_allocator_new_def)
  have inj: "i = j" if "g i = g j" "g i \<noteq> None" for i j
    using that by (auto simp: g_def of_nat_word32_eq unat_of_nat split: if_splits)
  have "distinct (filter (\<lambda>h. h \<noteq> None) (map g [0..<n]))"
    unfolding filter_map distinct_map by (auto simp: inj_on_def intro: inj)
  moreover have "Option.bind h (handle_from_raw \<circ> handle_as_raw) = h"
    if h: "h \<in> set (map g [0..<n])" and ne: "h \<noteq> None" for h
  proof -
    obtain i where i: "h = g i" using h by auto
    have "1 + i < 2 ^ 32 - 1" using ne unfolding i g_def by (rule contrapos_np) simp
    then show ?thesis
      unfolding i g_def by (simp add: handle_from_raw_def of_nat_word32_eq del: of_nat_Suc of_nat_add)
  qed
  ultimately show ?thesis unfolding seq by (simp add: g_def)
qed

theorem handle_allocs_sequence_witness:
  "fst (handle_allocs 3 handle_allocator_new) = [Some (Handle 1), Some (Handle 2), Some (Handle 3)]"
  using handle_allocs_sequence [of 3] by (simp add: numeral_3_eq_3 upt_Suc_Cons del: upt_Suc)

text \<open>While the requests stay within the 64-bit address space, every block served from the
  reserved region is eight-byte aligned and lies inside the region, a later one starts at or after
  the end of an earlier one, and the addresses depend on the sizes requested alone.\<close>

theorem blocks_disjoint:
  fixes placed :: bool and heap :: u64
  assumes "blocks_room s ws" "i < j" "j < length ws"
    and "blocks_next s + 8 * sum_list (take (Suc j) ws) \<le> GUEST_BLOCK_BASE + BLOCK_SPAN"
  defines "as \<equiv> fst (block_run placed heap ws s)"
  shows "as ! i + 8 * ws ! i \<le> as ! j \<and> 8 dvd as ! j \<and> GUEST_BLOCK_BASE \<le> as ! i \<and>
    as ! j + 8 * ws ! j \<le> GUEST_BLOCK_BASE + BLOCK_SPAN \<and>
    as ! j = blocks_next s + 8 * sum_list (take j ws)"
proof -
  have le: "sum_list (take (Suc i) ws) \<le> sum_list (take j ws)"
    "sum_list (take (Suc i) ws) \<le> sum_list (take (Suc j) ws)"
    using assms(2) by (auto intro: sum_list_take_mono)
  have ti: "sum_list (take (Suc i) ws) = sum_list (take i ws) + ws ! i"
    and tj: "sum_list (take (Suc j) ws) = sum_list (take j ws) + ws ! j"
    using assms(2,3) by (simp_all add: take_Suc_conv_app_nth)
  have ai: "as ! i = blocks_next s + 8 * sum_list (take i ws)"
    and aj: "as ! j = blocks_next s + 8 * sum_list (take j ws)"
    unfolding as_def block_run_from [OF assms(1)] using assms(2,3,4) le by auto
  have "as ! i + 8 * ws ! i \<le> as ! j" using ai aj le ti by simp
  moreover have "8 dvd as ! j" "GUEST_BLOCK_BASE \<le> as ! i"
    using assms(1) ai aj by (auto simp: blocks_room_def)
  moreover have "as ! j + 8 * ws ! j \<le> GUEST_BLOCK_BASE + BLOCK_SPAN" using aj tj assms(4) by simp
  ultimately show ?thesis using aj by blast
qed

theorem blocks_disjoint_witness:
  "fst (block_run True 0 [4, 2, 4] \<lparr>blocks_ready = Some True, blocks_next = GUEST_BLOCK_BASE\<rparr>) ! 2 =
     GUEST_BLOCK_BASE + 48"
  using blocks_disjoint [of "\<lparr>blocks_ready = Some True, blocks_next = GUEST_BLOCK_BASE\<rparr>"
      "[4, 2, 4]" 0 2 True 0]
  by (simp add: blocks_room_def GUEST_BLOCK_BASE_def BLOCK_SPAN_def)

end
