(* ===== verification/Ordered_Map.thy ===== *)
theory Ordered_Map
  imports Prelude
begin

text \<open>
  Rust's \<open>BTreeMap\<close>: an association list in strictly increasing key order, with the operations
  the components call. \<open>bt_last_lt\<close> is \<open>range(..k).next_back()\<close>, \<open>bt_last_le\<close> is
  \<open>range(..=k).next_back()\<close> and \<open>bt_range_ge\<close> is \<open>range(k..)\<close>.

  Two interfaces are stated over such a map. \<open>finite_index\<close> is the map contract a table of objects
  needs. \<open>interval_index\<close> is what the address space, the memory pool and the device-mapping record
  need of a map that keeps intervals by their start: one look at the last entry that starts before
  a bound decides whether any interval reaches into a range.
\<close>

type_synonym ('k, 'v) btree = "('k \<times> 'v) list"

definition bt_wf :: "('k::linorder, 'v) btree \<Rightarrow> bool" where
  "bt_wf m = sorted_wrt (<) (map fst m)"

definition bt_get :: "('k::linorder, 'v) btree \<Rightarrow> 'k \<Rightarrow> 'v option" where
  "bt_get m k = map_of m k"

fun bt_insert :: "'k::linorder \<Rightarrow> 'v \<Rightarrow> ('k, 'v) btree \<Rightarrow> ('k, 'v) btree" where
  "bt_insert k v [] = [(k, v)]"
| "bt_insert k v ((a, b) # m) =
     (if k < a then (k, v) # (a, b) # m
      else if k = a then (k, v) # m
      else (a, b) # bt_insert k v m)"

definition bt_remove :: "'k::linorder \<Rightarrow> ('k, 'v) btree \<Rightarrow> ('k, 'v) btree" where
  "bt_remove k m = filter (\<lambda>e. fst e \<noteq> k) m"

definition last_of :: "'a list \<Rightarrow> 'a option" where
  "last_of xs = (if xs = [] then None else Some (last xs))"

definition bt_last_lt :: "'k::linorder \<Rightarrow> ('k, 'v) btree \<Rightarrow> ('k \<times> 'v) option" where
  "bt_last_lt k m = last_of (filter (\<lambda>e. fst e < k) m)"

definition bt_last_le :: "'k::linorder \<Rightarrow> ('k, 'v) btree \<Rightarrow> ('k \<times> 'v) option" where
  "bt_last_le k m = last_of (filter (\<lambda>e. fst e \<le> k) m)"

definition bt_range_ge :: "'k::linorder \<Rightarrow> ('k, 'v) btree \<Rightarrow> ('k \<times> 'v) list" where
  "bt_range_ge k m = filter (\<lambda>e. k \<le> fst e) m"

subsection \<open>The map laws\<close>

lemma bt_wf_Nil [simp]: "bt_wf []"
  by (simp add: bt_wf_def)

lemma bt_wf_Cons [simp]: "bt_wf ((k, v) # m) \<longleftrightarrow> bt_wf m \<and> (\<forall>e \<in> set m. k < fst e)"
  by (auto simp: bt_wf_def)

lemma bt_wf_distinct: "bt_wf m \<Longrightarrow> distinct (map fst m)"
  by (simp add: bt_wf_def strict_sorted_iff)

lemma bt_get_Nil [simp]: "bt_get [] k = None"
  by (simp add: bt_get_def)

lemma bt_get_mem: "bt_wf m \<Longrightarrow> bt_get m k = Some v \<longleftrightarrow> (k, v) \<in> set m"
  by (simp add: bt_get_def bt_wf_distinct)

lemma set_bt_insert: "bt_wf m \<Longrightarrow> set (bt_insert k v m) = insert (k, v) {e \<in> set m. fst e \<noteq> k}"
  by (induction k v m rule: bt_insert.induct) auto

lemma bt_wf_insert [simp]: "bt_wf m \<Longrightarrow> bt_wf (bt_insert k v m)"
  by (induction k v m rule: bt_insert.induct) (auto simp: set_bt_insert)

lemma bt_get_insert: "bt_get (bt_insert k v m) = (bt_get m)(k \<mapsto> v)"
  by (induction k v m rule: bt_insert.induct) (auto simp: bt_get_def fun_eq_iff)

lemma bt_wf_remove [simp]: "bt_wf m \<Longrightarrow> bt_wf (bt_remove k m)"
  by (simp add: bt_wf_def bt_remove_def sorted_wrt_map sorted_wrt_filter)

lemma set_bt_remove [simp]: "set (bt_remove k m) = {e \<in> set m. fst e \<noteq> k}"
  by (auto simp: bt_remove_def)

lemma bt_get_remove: "bt_get (bt_remove k m) = (bt_get m)(k := None)"
  by (induction m) (auto simp: bt_remove_def bt_get_def fun_eq_iff)

lemma finite_bt_dom: "finite {k. bt_get m k \<noteq> None}"
  by (rule finite_subset [OF _ finite_imageI [of "set m" fst]])
     (auto simp: bt_get_def dest!: map_of_SomeD intro: rev_image_eqI)

text \<open>Two maps that answer every key alike are the same map.\<close>

lemma bt_ext:
  assumes "bt_wf m" "bt_wf n" "\<And>k. bt_get m k = bt_get n k"
  shows "m = n"
proof -
  have rebuild: "map (\<lambda>k. (k, the (bt_get x k))) (map fst x) = x" if "bt_wf x" for x :: "('a, 'b) btree"
    using that by (auto simp: bt_get_mem [symmetric] intro!: map_idI)
  have "fst ` set x = {k. bt_get x k \<noteq> None}" for x :: "('a, 'b) btree"
    by (auto simp: bt_get_def dest: map_of_SomeD weak_map_of_SomeI intro: rev_image_eqI)
  then have "set (map fst m) = set (map fst n)" using assms(3) by simp
  moreover have "sorted (map fst m)" "distinct (map fst m)" "sorted (map fst n)" "distinct (map fst n)"
    using assms(1,2) by (simp_all add: bt_wf_def strict_sorted_iff)
  ultimately have "map fst m = map fst n" by (intro sorted_distinct_set_unique)
  then show ?thesis using rebuild [OF assms(1)] rebuild [OF assms(2)] assms(3) by simp
qed

lemma bt_get_Cons: "bt_get ((a, v) # m) k = (if k = a then Some v else bt_get m k)"
  by (simp add: bt_get_def)

lemma bt_get_append: "bt_get (m @ n) k = (case bt_get m k of Some v \<Rightarrow> Some v | None \<Rightarrow> bt_get n k)"
  by (simp add: bt_get_def map_add_def split: option.split)

locale finite_index =
  fixes get :: "'m \<Rightarrow> 'k \<Rightarrow> 'v option"
    and put :: "'k \<Rightarrow> 'v \<Rightarrow> 'm \<Rightarrow> 'm"
    and del :: "'k \<Rightarrow> 'm \<Rightarrow> 'm"
    and empty :: 'm
    and ok :: "'m \<Rightarrow> bool"
  assumes ok_empty: "ok empty"
    and ok_put: "ok m \<Longrightarrow> ok (put k v m)"
    and ok_del: "ok m \<Longrightarrow> ok (del k m)"
    and get_empty: "get empty k = None"
    and get_put: "ok m \<Longrightarrow> get (put k v m) = (get m)(k \<mapsto> v)"
    and get_del: "ok m \<Longrightarrow> get (del k m) = (get m)(k := None)"
begin

lemma get_after_del_put:
  assumes "ok m" "get m k = None"
  shows "get (del k (put k v m)) = get m"
  using assms by (simp add: get_del get_put ok_put fun_upd_idem)

lemma put_keeps_others:
  assumes "ok m" "k \<noteq> k'"
  shows "get (put k v m) k' = get m k'" "get (del k m) k' = get m k'"
  using assms by (simp_all add: get_put get_del)

end

interpretation bt: finite_index bt_get bt_insert bt_remove "[]" bt_wf
  by unfold_locales (simp_all add: bt_get_insert bt_get_remove)

subsection \<open>The last entry before a bound\<close>

lemma last_of_filter:
  assumes "bt_wf m"
  shows "last_of (filter (\<lambda>e. P (fst e)) m) = Some (k, v) \<longleftrightarrow>
     (k, v) \<in> set m \<and> P k \<and> (\<forall>e \<in> set m. P (fst e) \<longrightarrow> fst e \<le> k)"
  using assms
proof (induction m)
  case Nil
  then show ?case by (simp add: last_of_def)
next
  case (Cons e m)
  obtain a b where e: "e = (a, b)" by (cases e)
  have wf: "bt_wf m" and lt: "\<And>x. x \<in> set m \<Longrightarrow> a < fst x" using Cons.prems e by auto
  show ?case
  proof (cases "filter (\<lambda>e. P (fst e)) m = []")
    case True
    then have none: "\<And>x. x \<in> set m \<Longrightarrow> \<not> P (fst x)" by (auto simp: filter_empty_conv)
    show ?thesis using True none e by (auto simp: last_of_def)
  next
    case False
    then obtain x where x: "x \<in> set m" "P (fst x)" by (auto simp: filter_empty_conv)
    have eq: "last_of (filter (\<lambda>e. P (fst e)) (e # m)) = last_of (filter (\<lambda>e. P (fst e)) m)"
      using False by (simp add: last_of_def)
    have "(k, v) \<in> set m" if "(k, v) \<in> set (e # m)" "\<forall>e \<in> set m. P (fst e) \<longrightarrow> fst e \<le> k"
      using that x lt [of x] e by auto
    moreover have "fst e \<le> k" if "(k, v) \<in> set m"
      using lt [OF that] e by simp
    ultimately show ?thesis unfolding eq Cons.IH [OF wf] by auto
  qed
qed

lemma bt_last_lt_Some:
  "bt_wf m \<Longrightarrow> bt_last_lt k m = Some (b, v) \<longleftrightarrow>
     bt_get m b = Some v \<and> b < k \<and> (\<forall>b' v'. bt_get m b' = Some v' \<longrightarrow> b' < k \<longrightarrow> b' \<le> b)"
  by (auto simp: bt_last_lt_def last_of_filter [where P = "\<lambda>x. x < k"] bt_get_mem)

lemma bt_last_lt_get: "bt_wf m \<Longrightarrow> bt_last_lt k m = Some (b, v) \<Longrightarrow> bt_get m b = Some v \<and> b < k"
  by (simp add: bt_last_lt_Some)

lemma bt_last_lt_None:
  "bt_wf m \<Longrightarrow> bt_last_lt k m = None \<longleftrightarrow> (\<forall>b v. bt_get m b = Some v \<longrightarrow> k \<le> b)"
  by (auto simp: bt_last_lt_def last_of_def filter_empty_conv bt_get_mem not_less)

lemma bt_last_le_Suc: "bt_last_le k m = bt_last_lt (Suc k) m"
  by (simp add: bt_last_le_def bt_last_lt_def less_Suc_eq_le)

lemma bt_range_ge_wf: "bt_wf m \<Longrightarrow> bt_wf (bt_range_ge k m)"
  by (simp add: bt_wf_def bt_range_ge_def sorted_wrt_map sorted_wrt_filter)

subsection \<open>Intervals kept by their start\<close>

locale interval_index =
  fixes get :: "'m \<Rightarrow> nat \<Rightarrow> 'v option"
    and last_lt :: "nat \<Rightarrow> 'm \<Rightarrow> (nat \<times> 'v) option"
    and wf :: "'m \<Rightarrow> bool"
    and extent :: "'v \<Rightarrow> nat"
  assumes last_lt_Some: "wf m \<Longrightarrow> last_lt k m = Some (b, v) \<longleftrightarrow>
       get m b = Some v \<and> b < k \<and> (\<forall>b' v'. get m b' = Some v' \<longrightarrow> b' < k \<longrightarrow> b' \<le> b)"
    and last_lt_None: "wf m \<Longrightarrow> last_lt k m = None \<longleftrightarrow> (\<forall>b v. get m b = Some v \<longrightarrow> k \<le> b)"
begin

definition apart :: "'m \<Rightarrow> bool" where
  "apart m \<longleftrightarrow> (\<forall>b v b' v'. get m b = Some v \<longrightarrow> get m b' = Some v' \<longrightarrow> b < b' \<longrightarrow> b + extent v \<le> b')"

lemma apartD: "apart m \<Longrightarrow> get m b = Some v \<Longrightarrow> get m b' = Some v' \<Longrightarrow> b < b' \<Longrightarrow> b + extent v \<le> b'"
  by (auto simp: apart_def)

lemma apart_sub: "apart m \<Longrightarrow> (\<And>b v. get m' b = Some v \<Longrightarrow> get m b = Some v) \<Longrightarrow> apart m'"
  unfolding apart_def by blast

lemma apart_put:
  assumes "apart m" "get m' = (get m)(k \<mapsto> w)"
    "\<And>b v. get m b = Some v \<Longrightarrow> b < k \<Longrightarrow> b + extent v \<le> k"
    "\<And>b v. get m b = Some v \<Longrightarrow> k < b \<Longrightarrow> k + extent w \<le> b"
  shows "apart m'"
  unfolding apart_def
proof (intro allI impI)
  fix b v b' v'
  assume h: "get m' b = Some v" "get m' b' = Some v'" "b < b'"
  consider "b = k" | "b' = k" "b \<noteq> k" | "b \<noteq> k" "b' \<noteq> k" by blast
  then show "b + extent v \<le> b'"
  proof cases
    case 1
    then show ?thesis using h assms(2) assms(4) [of b' v'] by simp
  next
    case 2
    then show ?thesis using h assms(2) assms(3) [of b v] by simp
  next
    case 3
    then show ?thesis using h assms(2) apartD [OF assms(1), of b v b' v'] by simp
  qed
qed

text \<open>The interval that holds a point is the last one to start at or before it.\<close>

lemma last_lt_holds:
  assumes "wf m" "apart m" "get m b = Some v" "b < hi" "hi \<le> b + extent v"
  shows "last_lt hi m = Some (b, v)"
  unfolding last_lt_Some [OF assms(1)]
proof (intro conjI allI impI)
  show "get m b = Some v" "b < hi" by fact+
  fix b' v' assume "get m b' = Some v'" "b' < hi"
  then show "b' \<le> b" using apartD [OF assms(2,3)] assms(5) by fastforce
qed

text \<open>Whether any interval reaches into \<open>[lo, hi)\<close> is decided by that one entry.\<close>

lemma reaches_iff:
  assumes "wf m" "apart m"
  shows "(\<exists>b v. get m b = Some v \<and> b < hi \<and> lo < b + extent v) \<longleftrightarrow>
         (\<exists>b v. last_lt hi m = Some (b, v) \<and> lo < b + extent v)"
proof
  assume "\<exists>b v. get m b = Some v \<and> b < hi \<and> lo < b + extent v"
  then obtain b v where b: "get m b = Some v" "b < hi" "lo < b + extent v" by blast
  obtain c w where c: "last_lt hi m = Some (c, w)"
    using b last_lt_None [OF assms(1)] by (cases "last_lt hi m") fastforce+
  then have cw: "get m c = Some w" "c < hi" "b \<le> c"
    using b last_lt_Some [OF assms(1)] by auto
  have "lo < c + extent w"
  proof (cases "b = c")
    case True
    then show ?thesis using b cw by simp
  next
    case False
    then have "b + extent v \<le> c" using apartD [OF assms(2) b(1) cw(1)] cw(3) by simp
    then show ?thesis using b(3) by simp
  qed
  with c show "\<exists>b v. last_lt hi m = Some (b, v) \<and> lo < b + extent v" by blast
next
  assume "\<exists>b v. last_lt hi m = Some (b, v) \<and> lo < b + extent v"
  then show "\<exists>b v. get m b = Some v \<and> b < hi \<and> lo < b + extent v"
    using last_lt_Some [OF assms(1)] by blast
qed

end

lemmas bt_interval_laws = bt_last_lt_Some bt_last_lt_None

end
