(* ===== verification/Device_Mappings.thy ===== *)
theory Device_Mappings
  imports Ordered_Map
begin

text \<open>
  The record of what a device may map of guest memory (\<^verbatim>\<open>orbistoun-mem/src/mappings.rs\<close>): each
  reservation's pages cut into stretches the guest left readable or not, and a generation that moves
  when the readable runs change.

  The lemmas show that the stretches of a reservation always tile it, that a change of protection
  changes readability in exactly its range, that the readable runs are the readable bytes as maximal
  runs, and that the generation moves exactly when they change.
\<close>

text \<open>A stretch's start, to its end and whether the guest left it readable.\<close>

type_synonym stretches = "(u64, u64 \<times> bool) btree"

definition stretch_cut :: "u64 \<Rightarrow> u64 \<Rightarrow> stretches \<Rightarrow> stretches" where
  "stretch_cut base end m = filter (\<lambda>(start, (stretch_end, _)). start < end \<and> stretch_end > base) m"

fun stretch_split :: "u64 \<Rightarrow> u64 \<Rightarrow> u64 \<times> u64 \<times> bool \<Rightarrow> stretches \<Rightarrow> stretches" where
  "stretch_split base end (start, (stretch_end, was)) m =
     (let m1 = bt_remove start m;
          m2 = (if start < base then bt_insert start (base, was) m1 else m1)
      in if stretch_end > end then bt_insert end (stretch_end, was) m2 else m2)"

definition stretches_set :: "u64 \<times> u64 \<Rightarrow> bool \<Rightarrow> stretches \<Rightarrow> stretches" where
  "stretches_set r readable m =
     (let (base, end) = r
      in bt_insert base (end, readable)
           (fold (stretch_split base end) (stretch_cut base end m) m))"

text \<open>The loop of \<open>readable_runs\<close>, with the runs so far in reverse.\<close>

fun add_run :: "u64 \<times> u64 \<times> bool \<Rightarrow> (u64 \<times> u64) list \<Rightarrow> (u64 \<times> u64) list" where
  "add_run (start, (end, readable)) runs =
     (if \<not> readable then runs
      else case runs of
        (first, len) # rest \<Rightarrow>
          (if first + len = start then (first, end - first) # rest
           else (start, end - start) # runs)
      | [] \<Rightarrow> [(start, end - start)])"

definition stretch_runs :: "stretches \<Rightarrow> (u64 \<times> u64) list" where
  "stretch_runs m = rev (fold add_run m [])"

record registry =
  generation :: nat
  reservations :: "(u64, u64 \<times> stretches) btree"

definition registry_empty :: registry where
  "registry_empty = \<lparr>generation = 0, reservations = []\<rparr>"

definition registry_reserved :: "u64 \<Rightarrow> u64 \<Rightarrow> bool \<Rightarrow> registry \<Rightarrow> registry" where
  "registry_reserved base len readable r =
     r\<lparr>reservations := bt_insert base (len, stretches_set (base, saturating_add base len) readable [])
                         (reservations r),
       generation := generation r + 1\<rparr>"

text \<open>What \<open>protected\<close> makes of one reservation: unchanged when the range does not reach it.\<close>

definition protect_one :: "u64 \<Rightarrow> u64 \<Rightarrow> bool \<Rightarrow> u64 \<Rightarrow> u64 \<times> stretches \<Rightarrow> u64 \<times> stretches" where
  "protect_one base end readable start hs =
     (let (held, stretches) = hs; held_end = saturating_add start held
      in if end \<le> start \<or> held_end \<le> base then hs
         else (held, stretches_set (max base start, min end held_end) readable stretches))"

definition registry_protected :: "u64 \<Rightarrow> u64 \<Rightarrow> bool \<Rightarrow> registry \<Rightarrow> registry" where
  "registry_protected base len readable r =
     (let end = saturating_add base len;
          after = map (\<lambda>(start, hs). (start, protect_one base end readable start hs)) (reservations r);
          changed = list_ex (\<lambda>((_, (_, before)), (_, (_, stretches))).
             stretch_runs stretches \<noteq> stretch_runs before) (zip (reservations r) after)
      in r\<lparr>reservations := after,
           generation := (if changed then generation r + 1 else generation r)\<rparr>)"

definition registry_released :: "u64 \<Rightarrow> registry \<Rightarrow> registry" where
  "registry_released base r =
     (case bt_get (reservations r) base of
        None \<Rightarrow> r
      | Some _ \<Rightarrow> r\<lparr>reservations := bt_remove base (reservations r), generation := generation r + 1\<rparr>)"

definition registry_runs :: "registry \<Rightarrow> (u64 \<times> u64) list" where
  "registry_runs r = concat (map (\<lambda>(_, (_, stretches)). stretch_runs stretches) (reservations r))"

definition reservation_of :: "u64 \<Rightarrow> registry \<Rightarrow> (u64 \<times> u64) option" where
  "reservation_of at r =
     (case bt_last_le at (reservations r) of
        None \<Rightarrow> None
      | Some (base, (len, _)) \<Rightarrow> if at < saturating_add base len then Some (base, len) else None)"

section \<open>Stretches tile their reservation\<close>

fun tiles :: "u64 \<Rightarrow> u64 \<Rightarrow> stretches \<Rightarrow> bool" where
  "tiles lo hi [] = (lo = hi)"
| "tiles lo hi ((s, (e, r)) # m) = (s = lo \<and> s < e \<and> tiles e hi m)"

text \<open>Whether a stretch list says an address is readable.\<close>

definition readable_at :: "stretches \<Rightarrow> u64 \<Rightarrow> bool" where
  "readable_at m a = (\<exists>(s, (e, r)) \<in> set m. s \<le> a \<and> a < e \<and> r)"

lemma readable_at_Nil [simp]: "\<not> readable_at [] a"
  by (simp add: readable_at_def)

lemma readable_at_Cons [simp]:
  "readable_at ((s, (e, r)) # m) a \<longleftrightarrow> s \<le> a \<and> a < e \<and> r \<or> readable_at m a"
  by (auto simp: readable_at_def)

lemma tiles_le: "tiles lo hi m \<Longrightarrow> lo \<le> hi"
  by (induction lo hi m rule: tiles.induct) auto

lemma tiles_mem: "tiles lo hi m \<Longrightarrow> (s, (e, r)) \<in> set m \<Longrightarrow> lo \<le> s \<and> s < e \<and> e \<le> hi"
  by (induction lo hi m rule: tiles.induct) (auto dest: tiles_le)

lemma tiles_readable: "tiles lo hi m \<Longrightarrow> readable_at m a \<Longrightarrow> lo \<le> a \<and> a < hi"
  by (auto simp: readable_at_def dest!: tiles_mem)

lemma tiles_wf: "tiles lo hi m \<Longrightarrow> bt_wf m"
  by (induction lo hi m rule: tiles.induct) (auto dest: tiles_mem)

lemma tiles_append: "tiles lo hi (m @ n) \<longleftrightarrow> (\<exists>mid. tiles lo mid m \<and> tiles mid hi n)"
  by (induction m arbitrary: lo) auto

lemma readable_at_append: "readable_at (m @ n) a \<longleftrightarrow> readable_at m a \<or> readable_at n a"
  by (auto simp: readable_at_def)

text \<open>
  Setting a range in a tiling: what lies before it, the piece it leaves of the first stretch it
  cuts, the range itself, the piece it leaves of the last, and what lies after.
\<close>

fun head_piece :: "u64 \<Rightarrow> stretches \<Rightarrow> stretches" where
  "head_piece b [] = []"
| "head_piece b ((s, (e, r)) # m) =
     (if e \<le> b then (s, (e, r)) # head_piece b m
      else if s < b then [(s, (b, r))] else [])"

fun tail_piece :: "u64 \<Rightarrow> stretches \<Rightarrow> stretches" where
  "tail_piece c [] = []"
| "tail_piece c ((s, (e, r)) # m) =
     (if e \<le> c then tail_piece c m
      else if s < c then (c, (e, r)) # m else (s, (e, r)) # m)"

lemma head_piece_tiles: "tiles lo hi m \<Longrightarrow> lo \<le> b \<Longrightarrow> b \<le> hi \<Longrightarrow> tiles lo b (head_piece b m)"
proof (induction lo hi m rule: tiles.induct)
  case (1 lo hi)
  then show ?case by simp
next
  case (2 lo hi s e r m)
  then show ?case by (cases "e \<le> b") (auto simp: le_less)
qed

lemma tail_piece_tiles: "tiles lo hi m \<Longrightarrow> lo \<le> c \<Longrightarrow> c \<le> hi \<Longrightarrow> tiles c hi (tail_piece c m)"
proof (induction lo hi m rule: tiles.induct)
  case (1 lo hi)
  then show ?case by simp
next
  case (2 lo hi s e r m)
  then show ?case by (cases "e \<le> c") (auto simp: le_less)
qed

lemma head_piece_readable:
  "tiles lo hi m \<Longrightarrow> readable_at (head_piece b m) a \<longleftrightarrow> readable_at m a \<and> a < b"
proof (induction lo hi m rule: tiles.induct)
  case (1 lo hi)
  then show ?case by simp
next
  case (2 lo hi s e r m)
  then show ?case by (cases "e \<le> b") (auto dest: tiles_readable)
qed

lemma tail_piece_readable:
  "tiles lo hi m \<Longrightarrow> readable_at (tail_piece c m) a \<longleftrightarrow> readable_at m a \<and> c \<le> a"
proof (induction lo hi m rule: tiles.induct)
  case (1 lo hi)
  then show ?case by simp
next
  case (2 lo hi s e r m)
  then show ?case by (cases "e \<le> c") (auto dest: tiles_readable)
qed

text \<open>The stretch that reaches past \<open>c\<close>, if one does.\<close>

fun hang :: "u64 \<Rightarrow> stretches \<Rightarrow> (u64 \<times> bool) option" where
  "hang c [] = None"
| "hang c ((s, (e, w)) # m) =
     (case hang c m of Some x \<Rightarrow> Some x | None \<Rightarrow> if e > c then Some (e, w) else None)"

lemma bt_get_split:
  assumes "s \<noteq> c"
  shows "bt_get (stretch_split b c (s, (e, w)) m) k =
     (if k = c \<and> e > c then Some (e, w)
      else if k = s then (if s < b then Some (b, w) else None)
      else bt_get m k)"
  using assms by (auto simp: Let_def bt_get_insert bt_get_remove)

lemma bt_get_fold_split:
  assumes "\<forall>(s, x) \<in> set cs. s < c" "distinct (map fst cs)"
  shows "bt_get (fold (stretch_split b c) cs m) k =
     (if k = c \<and> hang c cs \<noteq> None then hang c cs
      else case bt_get cs k of
        Some (e, w) \<Rightarrow> if k < b then Some (b, w) else None
      | None \<Rightarrow> bt_get m k)"
  using assms
proof (induction cs arbitrary: m)
  case Nil
  then show ?case by simp
next
  case (Cons x cs)
  obtain s e w where x: "x = (s, (e, w))" by (metis prod.collapse)
  have s: "s < c" "s \<notin> fst ` set cs" and IH: "\<And>m. bt_get (fold (stretch_split b c) cs m) k =
     (if k = c \<and> hang c cs \<noteq> None then hang c cs
      else case bt_get cs k of Some (e, w) \<Rightarrow> if k < b then Some (b, w) else None
      | None \<Rightarrow> bt_get m k)"
    using Cons x by auto
  have none: "k = s \<Longrightarrow> bt_get cs k = None"
    using s(2) by (auto simp: bt_get_def map_of_eq_None_iff)
  have nokey: "k = c \<Longrightarrow> bt_get cs k = None"
    using Cons.prems(1) by (auto simp: bt_get_def map_of_eq_None_iff x)
  show ?case
    unfolding x fold_simps o_apply IH bt_get_split [OF less_imp_neq [OF s(1)]] hang.simps bt_get_Cons
    using s(1) none nokey by (auto split: option.splits)
qed

lemma stretch_cut_get:
  assumes "bt_wf m"
  shows "bt_get (stretch_cut b c m) k =
     (case bt_get m k of Some (e, w) \<Rightarrow> if k < c \<and> e > b then Some (e, w) else None | None \<Rightarrow> None)"
  using assms
proof (induction m)
  case Nil
  then show ?case by (simp add: stretch_cut_def)
next
  case (Cons x m)
  obtain s e w where x: "x = (s, (e, w))" by (metis prod.collapse)
  have "bt_get m s = None"
    using Cons.prems x by (auto simp: bt_get_def map_of_eq_None_iff)
  then show ?case
    using Cons x by (auto simp: stretch_cut_def bt_get_Cons split: option.splits)
qed

lemma head_piece_get:
  assumes "tiles lo hi m"
  shows "bt_get (head_piece b m) k =
     (case bt_get m k of Some (e, w) \<Rightarrow> if k < b then Some (min e b, w) else None | None \<Rightarrow> None)"
  using assms
proof (induction lo hi m rule: tiles.induct)
  case (1 lo hi)
  then show ?case by simp
next
  case (2 lo hi s e r m)
  have ge: "bt_get m k = Some v \<Longrightarrow> e \<le> k" for v
    using 2 by (cases v) (auto simp: bt_get_mem [OF tiles_wf] dest: tiles_mem)
  show ?case
    using 2 ge by (cases "e \<le> b") (auto simp: bt_get_Cons split: option.splits)
qed

lemma tail_piece_get:
  assumes "tiles lo hi m" "lo < c" "b < c"
  shows "bt_get (tail_piece c m) k =
     (if k < c then None else if k = c \<and> hang c (stretch_cut b c m) \<noteq> None
        then hang c (stretch_cut b c m) else bt_get m k)"
  using assms
proof (induction lo hi m rule: tiles.induct)
  case (1 lo hi)
  then show ?case by (simp add: stretch_cut_def)
next
  case (2 lo hi s e r m)
  have ge: "bt_get m j = Some v \<Longrightarrow> e \<le> j" for v j
    using 2 by (cases v) (auto simp: bt_get_mem [OF tiles_wf] dest: tiles_mem)
  have nocut: "stretch_cut b c m = []" if "c \<le> e"
    using 2 that by (auto simp: stretch_cut_def filter_empty_conv dest!: tiles_mem)
  show ?case
  proof (cases "e \<le> c")
    case True
    show ?thesis
    proof (cases "e = c")
      case True
      then have "tail_piece c m = m" using 2 by (cases m) auto
      moreover have "bt_get m k = None" if "k < c"
        using ge [of k] that True by (cases "bt_get m k") auto
      ultimately show ?thesis using 2 True nocut
        by (auto simp: bt_get_Cons stretch_cut_def)
    next
      case False
      then have "e < c" using True by simp
      then show ?thesis using 2 by (auto simp: bt_get_Cons stretch_cut_def split: option.splits)
    qed
  next
    case False
    have "bt_get m k = None" if "k \<le> c"
      using ge [of k] that False by (cases "bt_get m k") auto
    then show ?thesis using 2 False nocut by (auto simp: bt_get_Cons stretch_cut_def)
  qed
qed

lemma bt_wf_fold_split: "bt_wf m \<Longrightarrow> bt_wf (fold (stretch_split b c) cs m)"
proof (induction cs arbitrary: m)
  case Nil
  then show ?case by simp
next
  case (Cons x cs)
  obtain s e w where x: "x = (s, (e, w))" by (metis prod.collapse)
  then have "bt_wf (stretch_split b c x m)" using Cons.prems by (simp add: Let_def)
  then show ?case using Cons.IH by simp
qed

lemma stretches_set_pieces:
  assumes t: "tiles lo hi m" and b: "lo \<le> b" "b < c" "c \<le> hi"
  shows "stretches_set (b, c) r m = head_piece b m @ (b, (c, r)) # tail_piece c m"
proof (rule bt_ext)
  have t': "tiles lo hi (head_piece b m @ (b, (c, r)) # tail_piece c m)"
    using head_piece_tiles [OF t, of b] tail_piece_tiles [OF t, of c] b by (auto simp: tiles_append)
  then show "bt_wf (head_piece b m @ (b, (c, r)) # tail_piece c m)" by (rule tiles_wf)
  have wf: "bt_wf m" using t by (rule tiles_wf)
  then show "bt_wf (stretches_set (b, c) r m)"
    by (simp add: stretches_set_def bt_wf_fold_split)
  fix k
  have cut: "\<forall>(s, x) \<in> set (stretch_cut b c m). s < c" "distinct (map fst (stretch_cut b c m))"
    using bt_wf_distinct [OF wf] by (auto simp: stretch_cut_def distinct_map_filter)
  have none: "bt_get m k = Some (e, w) \<Longrightarrow> k < e" for e w
    using tiles_mem [OF t] by (simp add: bt_get_mem [OF wf])
  have ge: "bt_get (head_piece b m) k = Some v \<Longrightarrow> k < b" for v
    by (auto simp: head_piece_get [OF t] split: option.splits if_splits)
  show "bt_get (stretches_set (b, c) r m) k = bt_get (head_piece b m @ (b, (c, r)) # tail_piece c m) k"
    unfolding stretches_set_def Let_def prod.case bt_get_insert bt_get_append bt_get_Cons
      tail_piece_get [OF t le_less_trans [OF b(1,2)] b(2)]
    using b none
    by (auto simp: bt_get_fold_split [OF cut] head_piece_get [OF t] stretch_cut_get [OF wf] min_def
        split: option.splits)
qed

lemma stretches_set_tiles:
  assumes "tiles lo hi m" "lo \<le> b" "b < c" "c \<le> hi"
  shows "tiles lo hi (stretches_set (b, c) r m)"
  unfolding stretches_set_pieces [OF assms]
  using head_piece_tiles [OF assms(1), of b] tail_piece_tiles [OF assms(1), of c] assms(2-4)
  by (auto simp: tiles_append)

lemma stretches_set_readable:
  assumes "tiles lo hi m" "lo \<le> b" "b < c" "c \<le> hi"
  shows "readable_at (stretches_set (b, c) r m) a \<longleftrightarrow> (if b \<le> a \<and> a < c then r else readable_at m a)"
  unfolding stretches_set_pieces [OF assms]
  using head_piece_readable [OF assms(1)] tail_piece_readable [OF assms(1)] assms(3)
  by (auto simp: readable_at_append)

lemma stretches_set_empty: "b < c \<Longrightarrow> stretches_set (b, c) r [] = [(b, (c, r))]"
  by (simp add: stretches_set_def stretch_cut_def)

section \<open>The readable runs\<close>

definition runs_cover :: "(u64 \<times> u64) list \<Rightarrow> u64 \<Rightarrow> bool" where
  "runs_cover runs a = (\<exists>(f, l) \<in> set runs. f \<le> a \<and> a < f + l)"

text \<open>Runs in reverse order, each ending strictly before the next begins, all ending by \<open>b\<close>.\<close>

fun runs_ok :: "u64 \<Rightarrow> (u64 \<times> u64) list \<Rightarrow> bool" where
  "runs_ok b [] = True"
| "runs_ok b ((f, l) # rs) = (0 < l \<and> f + l \<le> b \<and> (\<forall>(g, n) \<in> set rs. g + n < f) \<and> runs_ok f rs)"

lemma runs_ok_mono: "runs_ok b rs \<Longrightarrow> b \<le> c \<Longrightarrow> runs_ok c rs"
  by (cases rs) auto

lemma runs_ok_sorted:
  "runs_ok b rs \<Longrightarrow> sorted_wrt (\<lambda>x y. fst x + snd x < fst y) (rev rs) \<and>
     (\<forall>x \<in> set rs. 0 < snd x \<and> fst x + snd x \<le> b)"
proof (induction b rs rule: runs_ok.induct)
  case (1 b)
  then show ?case by simp
next
  case (2 b f l rs)
  then show ?case by (fastforce simp: sorted_wrt_append)
qed

lemma runs_cover_Nil [simp]: "\<not> runs_cover [] a"
  by (simp add: runs_cover_def)

lemma runs_cover_Cons [simp]: "runs_cover ((f, l) # rs) a \<longleftrightarrow> f \<le> a \<and> a < f + l \<or> runs_cover rs a"
  by (auto simp: runs_cover_def)

lemma add_run_ok:
  assumes "runs_ok s rs" "s < e"
  shows "runs_ok e (add_run (s, (e, r)) rs)"
    "runs_cover (add_run (s, (e, r)) rs) a \<longleftrightarrow> runs_cover rs a \<or> s \<le> a \<and> a < e \<and> r"
proof -
  show "runs_ok e (add_run (s, (e, r)) rs)"
  proof (cases rs)
    case Nil
    then show ?thesis using assms by auto
  next
    case (Cons x rest)
    obtain f l where x: "x = (f, l)" by (cases x)
    have "\<forall>(g, n) \<in> set rs. g + n < s" if "f + l \<noteq> s"
      using assms that Cons x by fastforce
    then show ?thesis using assms Cons x by (auto intro: runs_ok_mono)
  qed
  show "runs_cover (add_run (s, (e, r)) rs) a \<longleftrightarrow> runs_cover rs a \<or> s \<le> a \<and> a < e \<and> r"
  proof (cases rs)
    case Nil
    then show ?thesis using assms by auto
  next
    case (Cons x rest)
    obtain f l where x: "x = (f, l)" by (cases x)
    then show ?thesis using assms Cons by (cases r; cases "f + l = s") auto
  qed
qed

lemma fold_add_run:
  assumes "tiles lo hi m" "runs_ok lo rs"
  shows "runs_ok hi (fold add_run m rs) \<and>
    (runs_cover (fold add_run m rs) a \<longleftrightarrow> runs_cover rs a \<or> readable_at m a)"
  using assms
proof (induction lo hi m arbitrary: rs rule: tiles.induct)
  case (1 lo hi)
  then show ?case by simp
next
  case (2 lo hi s e r m)
  have se: "s < e" "s = lo" using 2 by auto
  have ok: "runs_ok e (add_run (s, (e, r)) rs)"
    using 2 se by (intro add_run_ok) auto
  have "runs_ok hi (fold add_run m (add_run (s, (e, r)) rs)) \<and>
    (runs_cover (fold add_run m (add_run (s, (e, r)) rs)) a \<longleftrightarrow>
       runs_cover (add_run (s, (e, r)) rs) a \<or> readable_at m a)"
    using 2 ok by auto
  then show ?case using add_run_ok(2) [of s rs e r a] 2 se by auto
qed

lemma stretch_runs_correct:
  assumes "tiles lo hi m"
  shows "runs_cover (stretch_runs m) a \<longleftrightarrow> readable_at m a"
    "sorted_wrt (\<lambda>x y. fst x + snd x < fst y) (stretch_runs m)"
    "\<forall>x \<in> set (stretch_runs m). 0 < snd x"
proof -
  have ok: "runs_ok hi (fold add_run m [])"
    and cov: "runs_cover (fold add_run m []) a \<longleftrightarrow> readable_at m a"
    using fold_add_run [OF assms, of "[]" a] by (auto simp: runs_cover_def)
  show "runs_cover (stretch_runs m) a \<longleftrightarrow> readable_at m a"
    using cov by (simp add: stretch_runs_def runs_cover_def)
  show "sorted_wrt (\<lambda>x y. fst x + snd x < fst y) (stretch_runs m)" "\<forall>x \<in> set (stretch_runs m). 0 < snd x"
    using runs_ok_sorted [OF ok] by (auto simp: stretch_runs_def)
qed

section \<open>The registry\<close>

text \<open>
  What holds of the record between calls: reservations in address order and apart, none empty or
  reaching past the address space, each tiled by its stretches.
\<close>

definition reg_entry_ok :: "u64 \<Rightarrow> u64 \<times> stretches \<Rightarrow> bool" where
  "reg_entry_ok base hs \<longleftrightarrow>
     0 < fst hs \<and> base + fst hs \<le> U64_MAX \<and> tiles base (base + fst hs) (snd hs)"

definition reg_ok :: "registry \<Rightarrow> bool" where
  "reg_ok r \<longleftrightarrow> bt_wf (reservations r) \<and> (\<forall>(b, hs) \<in> set (reservations r). reg_entry_ok b hs) \<and>
     sorted_wrt (\<lambda>x y. fst x + fst (snd x) \<le> fst y) (reservations r)"

definition registry_readable :: "registry \<Rightarrow> u64 \<Rightarrow> bool" where
  "registry_readable r a \<longleftrightarrow> (\<exists>(b, (n, st)) \<in> set (reservations r). readable_at st a)"

definition registry_holds :: "registry \<Rightarrow> u64 \<Rightarrow> bool" where
  "registry_holds r a \<longleftrightarrow> (\<exists>(b, (n, st)) \<in> set (reservations r). b \<le> a \<and> a < b + n)"

lemma reg_ok_empty: "reg_ok registry_empty"
  by (simp add: reg_ok_def registry_empty_def)

lemma protect_one_fst [simp]: "fst (protect_one base end readable start hs) = fst hs"
  by (auto simp: protect_one_def case_prod_unfold Let_def)

lemma protect_one_ok:
  assumes "reg_entry_ok start hs" "base < end"
  shows "reg_entry_ok start (protect_one base end readable start hs)"
    "readable_at (snd (protect_one base end readable start hs)) a \<longleftrightarrow>
       (if base \<le> a \<and> a < end \<and> start \<le> a \<and> a < start + fst hs then readable
        else readable_at (snd hs) a)"
proof -
  obtain n st where hs: "hs = (n, st)" by (cases hs)
  have t: "tiles start (start + n) st" and n: "0 < n" and e: "saturating_add start n = start + n"
    using assms(1) hs by (auto simp: reg_entry_ok_def saturating_add_def)
  have "reg_entry_ok start (protect_one base end readable start hs) \<and>
    (readable_at (snd (protect_one base end readable start hs)) a \<longleftrightarrow>
       (if base \<le> a \<and> a < end \<and> start \<le> a \<and> a < start + fst hs then readable
        else readable_at (snd hs) a))"
  proof (cases "end \<le> start \<or> start + n \<le> base")
    case True
    then show ?thesis using assms(1) hs e by (auto simp: protect_one_def)
  next
    case False
    have r: "start \<le> max base start" "max base start < min end (start + n)" "min end (start + n) \<le> start + n"
      using False assms(2) n by auto
    show ?thesis
      using False assms(1) hs e stretches_set_tiles [OF t r] stretches_set_readable [OF t r]
      by (auto simp: protect_one_def reg_entry_ok_def)
  qed
  then show "reg_entry_ok start (protect_one base end readable start hs)"
    "readable_at (snd (protect_one base end readable start hs)) a \<longleftrightarrow>
       (if base \<le> a \<and> a < end \<and> start \<le> a \<and> a < start + fst hs then readable
        else readable_at (snd hs) a)" by blast+
qed

lemma sorted_wrt_update:
  "(\<And>x. f (g x) = f x) \<Longrightarrow> (\<And>x. h (g x) = h x) \<Longrightarrow>
     sorted_wrt (\<lambda>x y. f x \<le> h y) (map g xs) \<longleftrightarrow> sorted_wrt (\<lambda>x y. f x \<le> (h y :: nat)) xs"
  by (simp add: sorted_wrt_map)

lemma registry_protected_entries:
  "reservations (registry_protected base len readable r) =
     map (\<lambda>(start, hs). (start, protect_one base (saturating_add base len) readable start hs)) (reservations r)"
  by (simp add: registry_protected_def Let_def)

lemma set_map_entry:
  "(b, y) \<in> set (map (\<lambda>(start, hs). (start, f start hs)) m) \<longleftrightarrow> (\<exists>x. (b, x) \<in> set m \<and> y = f b x)"
  by (auto simp: image_iff split: prod.splits)

lemma reg_ok_protected:
  assumes "reg_ok r" "base < saturating_add base len"
  shows "reg_ok (registry_protected base len readable r)"
proof -
  have "sorted_wrt (\<lambda>x y. fst x + fst (snd x) \<le> fst y)
     (reservations (registry_protected base len readable r))"
    using assms(1) by (simp add: registry_protected_entries reg_ok_def sorted_wrt_map case_prod_unfold)
  moreover have "bt_wf (reservations (registry_protected base len readable r))"
    using assms(1) by (simp add: registry_protected_entries reg_ok_def bt_wf_def sorted_wrt_map case_prod_unfold)
  ultimately show ?thesis
    using assms protect_one_ok(1) by (fastforce simp: reg_ok_def registry_protected_entries)
qed

lemma reg_ok_apart:
  assumes "reg_ok r" "(b, hs) \<in> set (reservations r)" "(b', hs') \<in> set (reservations r)" "b < b'"
  shows "b + fst hs \<le> b'"
proof -
  obtain i j where ij: "i < length (reservations r)" "j < length (reservations r)"
    "reservations r ! i = (b, hs)" "reservations r ! j = (b', hs')"
    using assms(2,3) by (metis in_set_conv_nth)
  have wf: "sorted_wrt (\<lambda>x y. fst x < fst y) (reservations r)"
    using assms(1) by (simp add: reg_ok_def bt_wf_def sorted_wrt_map)
  have "i < j"
  proof (rule ccontr)
    assume "\<not> i < j"
    then have "i = j \<or> j < i" by auto
    then show False using sorted_wrt_nth_less [OF wf, of j i] ij assms(4) by auto
  qed
  then show ?thesis
    using sorted_wrt_nth_less [of "\<lambda>x y. fst x + fst (snd x) \<le> fst y" "reservations r" i j] assms(1) ij
    by (auto simp: reg_ok_def)
qed

lemma insert_sorted_wrt:
  assumes "sorted_wrt P m" "\<And>e. e \<in> set m \<Longrightarrow> fst e < k \<Longrightarrow> P e (k, v)" "\<And>e. e \<in> set m \<Longrightarrow> k < fst e \<Longrightarrow> P (k, v) e"
    "bt_wf m" "\<And>e. e \<in> set m \<Longrightarrow> fst e \<noteq> k"
  shows "sorted_wrt P (bt_insert k v m)"
  using assms
proof (induction k v m rule: bt_insert.induct)
  case (1 k v)
  then show ?case by simp
next
  case (2 k v a b m)
  then show ?case by (auto simp: set_bt_insert)
qed

lemma reg_ok_reserved:
  assumes "reg_ok r" "0 < len" "base + len \<le> U64_MAX"
    "\<And>b hs. (b, hs) \<in> set (reservations r) \<Longrightarrow> b + fst hs \<le> base \<or> base + len \<le> b"
  shows "reg_ok (registry_reserved base len readable r)"
proof -
  have fresh: "b \<noteq> base" if "(b, hs) \<in> set (reservations r)" for b hs
    using assms(1,2) assms(4) [OF that] that by (fastforce simp: reg_ok_def reg_entry_ok_def)
  have gap: "b + fst hs \<le> base" if "(b, hs) \<in> set (reservations r)" "b < base" for b hs
    using assms(2) assms(4) [OF that(1)] that(2) by auto
  have gap': "base + len \<le> b" if "(b, hs) \<in> set (reservations r)" "base < b" for b hs
    using assms(1) assms(4) [OF that(1)] that by (fastforce simp: reg_ok_def reg_entry_ok_def)
  let ?v = "(len, [(base, (base + len, readable))])"
  have res: "reservations (registry_reserved base len readable r) = bt_insert base ?v (reservations r)"
    using assms(2,3) by (simp add: registry_reserved_def saturating_add_def stretches_set_empty)
  have wf: "bt_wf (reservations r)" using assms(1) by (simp add: reg_ok_def)
  have "sorted_wrt (\<lambda>x y. fst x + fst (snd x) \<le> fst y) (bt_insert base ?v (reservations r))"
    using assms(1) gap gap' by (intro insert_sorted_wrt) (auto simp: reg_ok_def dest: fresh)
  then show ?thesis
    using assms(1-3) wf by (auto simp: reg_ok_def res set_bt_insert reg_entry_ok_def)
qed

lemma reg_ok_released: "reg_ok r \<Longrightarrow> reg_ok (registry_released base r)"
  by (auto simp: reg_ok_def registry_released_def bt_remove_def sorted_wrt_filter bt_wf_def
      sorted_wrt_map split: option.splits)

lemma registry_protected_readable:
  assumes "reg_ok r" "base < saturating_add base len"
  shows "registry_readable (registry_protected base len readable r) a \<longleftrightarrow>
     (if base \<le> a \<and> a < saturating_add base len \<and> registry_holds r a then readable
      else registry_readable r a)"
proof -
  let ?e = "saturating_add base len"
  have one: "readable_at (snd (protect_one base ?e readable b hs)) a \<longleftrightarrow>
       (if base \<le> a \<and> a < ?e \<and> b \<le> a \<and> a < b + fst hs then readable else readable_at (snd hs) a)"
    if "(b, hs) \<in> set (reservations r)" for b hs
    using assms(1) that by (intro protect_one_ok(2) assms(2)) (auto simp: reg_ok_def)
  have out: "b \<le> a \<and> a < b + fst hs" if "(b, hs) \<in> set (reservations r)" "readable_at (snd hs) a" for b hs
    using assms(1) that tiles_readable by (fastforce simp: reg_ok_def reg_entry_ok_def)
  have eq: "registry_readable x a \<longleftrightarrow> (\<exists>b hs. (b, hs) \<in> set (reservations x) \<and> readable_at (snd hs) a)" for x
    by (fastforce simp: registry_readable_def)
  have holds: "registry_holds r a \<longleftrightarrow> (\<exists>b hs. (b, hs) \<in> set (reservations r) \<and> b \<le> a \<and> a < b + fst hs)"
    by (fastforce simp: registry_holds_def)
  have "registry_readable (registry_protected base len readable r) a \<longleftrightarrow>
     (\<exists>b hs. (b, hs) \<in> set (reservations r) \<and> readable_at (snd (protect_one base ?e readable b hs)) a)"
    unfolding eq registry_protected_entries set_map_entry by blast
  also have "\<dots> \<longleftrightarrow> (if base \<le> a \<and> a < ?e \<and> registry_holds r a then readable else registry_readable r a)"
  proof (cases "base \<le> a \<and> a < ?e \<and> registry_holds r a")
    case True
    then obtain b hs where b: "(b, hs) \<in> set (reservations r)" "b \<le> a" "a < b + fst hs"
      unfolding holds by blast
    have "readable_at (snd (protect_one base ?e readable b' hs')) a \<longrightarrow> readable"
      if "(b', hs') \<in> set (reservations r)" for b' hs'
    proof (cases "b' \<le> a \<and> a < b' + fst hs'")
      case inside: True
      then show ?thesis unfolding one [OF that] using True by simp
    next
      case False
      then have "\<not> readable_at (snd hs') a" using out [OF that] by argo
      then show ?thesis unfolding one [OF that] by simp
    qed
    moreover have "readable_at (snd (protect_one base ?e readable b hs)) a \<longleftrightarrow> readable"
      using one [OF b(1)] b True by simp
    ultimately show ?thesis using True b(1) by (simp only: if_True simp_thms) blast
  next
    case False
    have "readable_at (snd (protect_one base ?e readable b' hs')) a \<longleftrightarrow> readable_at (snd hs') a"
      if "(b', hs') \<in> set (reservations r)" for b' hs'
    proof -
      have "\<not> (base \<le> a \<and> a < ?e \<and> b' \<le> a \<and> a < b' + fst hs')"
        using False that unfolding holds by blast
      then show ?thesis using one [OF that] by (simp only: if_False)
    qed
    then show ?thesis unfolding if_not_P [OF False] eq by blast
  qed
  finally show ?thesis .
qed

lemma registry_runs_cover:
  assumes "reg_ok r"
  shows "runs_cover (registry_runs r) a \<longleftrightarrow> registry_readable r a"
proof -
  have "runs_cover (stretch_runs st) a \<longleftrightarrow> readable_at st a" if "(b, (n, st)) \<in> set (reservations r)" for b n st
    using assms that by (intro stretch_runs_correct(1)) (auto simp: reg_ok_def reg_entry_ok_def)
  moreover have "runs_cover (registry_runs r) a \<longleftrightarrow>
      (\<exists>(b, (n, st)) \<in> set (reservations r). runs_cover (stretch_runs st) a)"
    by (fastforce simp: registry_runs_def runs_cover_def)
  ultimately show ?thesis by (fastforce simp: registry_readable_def)
qed

text \<open>The generation stands still only while every reservation's runs do.\<close>

lemma registry_runs_generation:
  assumes "generation (registry_protected base len readable r) = generation r"
  shows "registry_runs (registry_protected base len readable r) = registry_runs r"
proof -
  let ?r' = "registry_protected base len readable r"
  have len: "length (reservations ?r') = length (reservations r)"
    by (simp add: registry_protected_entries)
  have "stretch_runs (snd (snd (reservations ?r' ! i))) = stretch_runs (snd (snd (reservations r ! i)))"
    if "i < length (reservations r)" for i
  proof -
    let ?p = "(reservations r ! i, reservations ?r' ! i)"
    have "?p \<in> set (zip (reservations r) (reservations ?r'))"
      using that len by (auto simp: set_zip)
    moreover have "\<not> list_ex (\<lambda>((_, (_, before)), (_, (_, stretches))).
             stretch_runs stretches \<noteq> stretch_runs before) (zip (reservations r) (reservations ?r'))"
      using assms by (auto simp: registry_protected_def Let_def split: if_splits)
    ultimately show ?thesis by (fastforce simp: list_ex_iff case_prod_unfold)
  qed
  then have "map (\<lambda>e. stretch_runs (snd (snd e))) (reservations ?r') =
      map (\<lambda>e. stretch_runs (snd (snd e))) (reservations r)"
    using len by (intro nth_equalityI) auto
  then show ?thesis by (simp add: registry_runs_def case_prod_unfold)
qed

interpretation reg: interval_index bt_get bt_last_lt bt_wf "fst :: u64 \<times> stretches \<Rightarrow> u64"
  by unfold_locales (simp_all add: bt_interval_laws)

lemma reg_apart: "reg_ok r \<Longrightarrow> reg.apart (reservations r)"
  using reg_ok_apart [of r] by (fastforce simp: reg.apart_def bt_get_mem reg_ok_def)

lemma reservation_of_iff:
  assumes "reg_ok r"
  shows "reservation_of at r = Some (b, n) \<longleftrightarrow>
     (\<exists>st. bt_get (reservations r) b = Some (n, st)) \<and> b \<le> at \<and> at < b + n"
proof -
  have wf: "bt_wf (reservations r)" using assms by (simp add: reg_ok_def)
  have sat: "saturating_add b (fst hs) = b + fst hs" if "bt_get (reservations r) b = Some hs" for b hs
    using assms that by (auto simp: reg_ok_def reg_entry_ok_def bt_get_mem saturating_add_def)
  show ?thesis
  proof
    assume "reservation_of at r = Some (b, n)"
    then obtain st where "bt_last_lt (Suc at) (reservations r) = Some (b, (n, st))"
      and "at < saturating_add b n"
      by (auto simp: reservation_of_def bt_last_le_Suc split: option.splits if_splits)
    then show "(\<exists>st. bt_get (reservations r) b = Some (n, st)) \<and> b \<le> at \<and> at < b + n"
      using sat by (fastforce simp: bt_last_lt_Some [OF wf])
  next
    assume h: "(\<exists>st. bt_get (reservations r) b = Some (n, st)) \<and> b \<le> at \<and> at < b + n"
    then obtain st where st: "bt_get (reservations r) b = Some (n, st)" by blast
    have "bt_last_lt (Suc at) (reservations r) = Some (b, (n, st))"
      using h by (intro reg.last_lt_holds [OF wf reg_apart [OF assms] st]) auto
    then show "reservation_of at r = Some (b, n)"
      using h sat [OF st] by (simp add: reservation_of_def bt_last_le_Suc)
  qed
qed

section \<open>Properties\<close>

text \<open>A change of protection over a nonempty range keeps the record's invariant (reservations
  apart, each tiled by its stretches), makes the bytes of the range that lie in a reservation
  readable or not as asked and leaves every other byte's readability alone; the runs the device is
  then given cover exactly the readable bytes.\<close>

theorem protected_exact:
  assumes "reg_ok r" "0 < len" "base < U64_MAX"
  shows "reg_ok (registry_protected base len readable r) \<and>
    (\<forall>a. runs_cover (registry_runs (registry_protected base len readable r)) a \<longleftrightarrow>
      (if base \<le> a \<and> a < saturating_add base len \<and> registry_holds r a then readable
       else runs_cover (registry_runs r) a))"
proof -
  have lt: "base < saturating_add base len" using assms(2,3) by (auto simp: saturating_add_def)
  show ?thesis
    using reg_ok_protected [OF assms(1) lt] registry_protected_readable [OF assms(1) lt]
    by (simp add: registry_runs_cover assms(1))
qed

definition demo_registry :: registry where
  "demo_registry = registry_reserved 0x100000 0x40000 True registry_empty"

lemma demo_registry_eval:
  "demo_registry = \<lparr>generation = 1, reservations = [(0x100000, (0x40000, [(0x100000, (0x140000, True))]))]\<rparr>"
  by (simp add: demo_registry_def registry_reserved_def registry_empty_def saturating_add_def
      stretches_set_empty)

lemmas demo_eval = saturating_add_def stretches_set_def stretch_cut_def stretch_runs_def
  registry_runs_def bt_remove_def

lemma demo_registry_ok: "reg_ok demo_registry"
  unfolding demo_registry_def
  by (rule reg_ok_reserved [OF reg_ok_empty]) (simp_all add: registry_empty_def)

theorem protected_exact_witness:
  "\<not> runs_cover (registry_runs (registry_protected 0x110000 0x10000 False demo_registry)) 0x118000 \<and>
   registry_runs (registry_protected 0x110000 0x10000 False demo_registry) =
     [(0x100000, 0x10000), (0x120000, 0x20000)]"
proof -
  have holds: "registry_holds demo_registry 0x118000"
    by (simp add: registry_holds_def demo_registry_def registry_reserved_def registry_empty_def)
  have "registry_runs (registry_protected 0x110000 0x10000 False demo_registry) =
     [(0x100000, 0x10000), (0x120000, 0x20000)]"
    by (simp add: demo_registry_eval registry_protected_def protect_one_def demo_eval)
  then show ?thesis
    using protected_exact [of demo_registry "0x10000" "0x110000" False] demo_registry_ok holds
    by (simp add: saturating_add_def)
qed

text \<open>The generation tells whoever maps the runs when to map again: it never goes back, and as
  long as a change of protection or a release leaves it where it was, the readable runs are the ones
  it stood for.\<close>

theorem generation_tracks_runs:
  "(generation r \<le> generation (registry_protected base len readable r) \<and>
    (generation (registry_protected base len readable r) = generation r \<longrightarrow>
       registry_runs (registry_protected base len readable r) = registry_runs r)) \<and>
   generation r < generation (registry_reserved base len readable r) \<and>
   (generation r \<le> generation (registry_released base r) \<and>
    (generation (registry_released base r) = generation r \<longrightarrow> registry_released base r = r))"
  using registry_runs_generation [of base len readable r]
  by (auto simp: registry_protected_def registry_reserved_def registry_released_def Let_def
      split: option.splits)

theorem generation_tracks_runs_witness:
  "generation (registry_protected 0x100000 0x4000 True demo_registry) = generation demo_registry \<and>
   registry_runs (registry_protected 0x100000 0x4000 True demo_registry) = registry_runs demo_registry"
proof -
  have "generation (registry_protected 0x100000 0x4000 True demo_registry) = generation demo_registry"
    by (simp add: demo_registry_eval registry_protected_def protect_one_def demo_eval)
  then show ?thesis
    using generation_tracks_runs [of demo_registry "0x100000" "0x4000" True] by simp
qed

end
