(* ===== verification/Address_Space.thy ===== *)
theory Address_Space
  imports Guest_Core Device_Mappings "HOL-Library.Multiset"
begin

text \<open>
  The guest's address space (\<^verbatim>\<open>orbistoun-mem/src/lib.rs\<close>): reservations by base, the rules a
  request has to obey, the record of failed reservations a report reads, and the record of what a
  device may map, which every reservation, release and change of protection keeps up to date.

  The host's memory calls are parameters: \<open>host_reserve base len protection\<close> answers \<open>None\<close> when
  the host placed the range and the error otherwise, \<open>host_protect\<close> likewise, and \<open>memory\<close> is what
  the host's bytes hold. The one fact used of the host is that it never places a range that runs
  past the end of the address space.

  The lemmas show that reservations stay page-aligned, nonempty and apart through every operation;
  that one lookup decides a conflict exactly; that the upward search finds the least free aligned
  start; and that a release undoes a reservation.
\<close>

definition GUEST_PAGE_SIZE :: u64 where
  "GUEST_PAGE_SIZE = 4096"

definition DIRECT_MEMORY_ALIGN :: u64 where
  "DIRECT_MEMORY_ALIGN = 16 * 1024"

section \<open>Protections, regions and errors\<close>

record protection =
  prot_read :: bool
  prot_write :: bool
  prot_execute :: bool

definition READ_WRITE :: protection where
  "READ_WRITE = \<lparr>prot_read = True, prot_write = True, prot_execute = False\<rparr>"

definition READ_EXECUTE :: protection where
  "READ_EXECUTE = \<lparr>prot_read = True, prot_write = False, prot_execute = True\<rparr>"

definition READ_ONLY :: protection where
  "READ_ONLY = \<lparr>prot_read = True, prot_write = False, prot_execute = False\<rparr>"

definition PROT_NONE :: protection where
  "PROT_NONE = \<lparr>prot_read = False, prot_write = False, prot_execute = False\<rparr>"

definition from_elf_flags :: "32 word \<Rightarrow> protection" where
  "from_elf_flags flags =
     \<lparr>prot_read = (flags AND 4 \<noteq> 0), prot_write = (flags AND 2 \<noteq> 0), prot_execute = (flags AND 1 \<noteq> 0)\<rparr>"

definition is_writable_and_executable :: "protection \<Rightarrow> bool" where
  "is_writable_and_executable p = (prot_write p \<and> prot_execute p)"

definition prot_union :: "protection \<Rightarrow> protection \<Rightarrow> protection" where
  "prot_union p q =
     \<lparr>prot_read = (prot_read p \<or> prot_read q),
      prot_write = (prot_write p \<or> prot_write q),
      prot_execute = (prot_execute p \<or> prot_execute q)\<rparr>"

record region =
  region_base :: u64
  region_len :: u64
  region_protection :: protection

datatype MemError =
    Conflict (conflict_base: u64) (conflict_len: u64)
  | Misaligned (misaligned_what: string) (misaligned_align: u64) (misaligned_value: u64)
  | HostRefused string

text \<open>Rust's \<open>{:#x}\<close>.\<close>

fun hex_digits :: "u64 \<Rightarrow> string" where
  "hex_digits n =
     (if n < 16 then [''0123456789abcdef'' ! n] else hex_digits (n div 16) @ [''0123456789abcdef'' ! (n mod 16)])"

declare hex_digits.simps [simp del]

definition hex :: "u64 \<Rightarrow> string" where
  "hex n = ''0x'' @ hex_digits n"

section \<open>Failed reservations, for the run report\<close>

record failures =
  FAIL_BASE :: u64
  FAIL_LEN :: u64
  FAIL_KIND :: nat
  FAIL_COUNT :: nat
  HOLDER_BASE :: u64
  HOLDER_LEN :: u64
  FIRST_FAIL_BASE :: u64

definition failures_init :: failures where
  "failures_init =
     \<lparr>FAIL_BASE = 0, FAIL_LEN = 0, FAIL_KIND = 0, FAIL_COUNT = 0,
      HOLDER_BASE = 0, HOLDER_LEN = 0, FIRST_FAIL_BASE = 0\<rparr>"

fun fail_kind :: "MemError \<Rightarrow> nat" where
  "fail_kind (Conflict _ _) = 1"
| "fail_kind (Misaligned _ _ _) = 2"
| "fail_kind (HostRefused _) = 3"

definition note_reserve_failure :: "u64 \<Rightarrow> u64 \<Rightarrow> MemError \<Rightarrow> region option \<Rightarrow> failures \<Rightarrow> failures" where
  "note_reserve_failure base len e holder f =
     f\<lparr>HOLDER_BASE := (case holder of None \<Rightarrow> 0 | Some r \<Rightarrow> region_base r),
       HOLDER_LEN := (case holder of None \<Rightarrow> 0 | Some r \<Rightarrow> region_len r),
       FAIL_BASE := base,
       FAIL_LEN := len,
       FAIL_COUNT := FAIL_COUNT f + 1,
       FIRST_FAIL_BASE := (if FAIL_COUNT f = 0 then base else FIRST_FAIL_BASE f),
       FAIL_KIND := fail_kind e\<rparr>"

record ReserveFailure =
  rf_base :: u64
  rf_len :: u64
  rf_reason :: string
  rf_holder :: "(u64 \<times> u64) option"

definition reserve_failures :: "failures \<Rightarrow> nat" where
  "reserve_failures f = FAIL_COUNT f"

definition first_reserve_failure_base :: "failures \<Rightarrow> u64 option" where
  "first_reserve_failure_base f = (if FAIL_COUNT f > 0 then Some (FIRST_FAIL_BASE f) else None)"

definition failure_reason :: "nat \<Rightarrow> string option" where
  "failure_reason kind =
     (if kind = 1 then Some ''conflict - the address was already reserved (something else holds it)''
      else if kind = 2 then Some ''misaligned - the base or length broke an ABI alignment rule''
      else if kind = 3 then Some ''host refused - out of memory, or an address the host would not give''
      else None)"

definition last_reserve_failure :: "failures \<Rightarrow> ReserveFailure option" where
  "last_reserve_failure f =
     (case failure_reason (FAIL_KIND f) of
        None \<Rightarrow> None
      | Some reason \<Rightarrow>
          Some \<lparr>rf_base = FAIL_BASE f, rf_len = FAIL_LEN f, rf_reason = reason,
                rf_holder = (if HOLDER_LEN f \<noteq> 0 then Some (HOLDER_BASE f, HOLDER_LEN f) else None)\<rparr>)"

section \<open>The address space\<close>

text \<open>
  \<open>held\<close> are the host reservations, base and length. \<open>failed\<close>, \<open>device\<close> and \<open>pages\<close> are the process-wide
  records the operations write: the failure log, the device-mapping registry and the host pages'
  generation.
\<close>

record AddressSpace =
  regions :: "(u64, region) btree"
  held :: "(u64 \<times> u64) list"
  failed :: failures
  device :: registry
  pages :: nat

definition address_space_new :: AddressSpace where
  "address_space_new =
     \<lparr>regions = [], held = [], failed = failures_init, device = registry_empty, pages = 0\<rparr>"

definition region_at :: "u64 \<Rightarrow> AddressSpace \<Rightarrow> region option" where
  "region_at address s =
     (case bt_last_le address (regions s) of
        None \<Rightarrow> None
      | Some (_, r) \<Rightarrow> if address < saturating_add (region_base r) (region_len r) then Some r else None)"

definition holder_of :: "u64 \<Rightarrow> u64 \<Rightarrow> AddressSpace \<Rightarrow> region option" where
  "holder_of base len s =
     (let end = saturating_add base len
      in case bt_last_lt end (regions s) of
           None \<Rightarrow> None
         | Some (_, r) \<Rightarrow> if base < saturating_add (region_base r) (region_len r) then Some r else None)"

definition validate :: "u64 \<Rightarrow> u64 \<Rightarrow> bool \<Rightarrow> AddressSpace \<Rightarrow> MemError + unit" where
  "validate base len direct s =
     (if len = 0 \<or> len mod GUEST_PAGE_SIZE \<noteq> 0 then Inl (Misaligned ''length'' GUEST_PAGE_SIZE len)
      else let align = (if direct then DIRECT_MEMORY_ALIGN else GUEST_PAGE_SIZE)
      in if base mod align \<noteq> 0 then Inl (Misaligned ''base address'' align base)
      else if holder_of base len s \<noteq> None then Inl (Conflict base len)
      else Inr ())"

type_synonym host_call = "u64 \<Rightarrow> u64 \<Rightarrow> protection \<Rightarrow> MemError option"

definition reserve ::
  "host_call \<Rightarrow> u64 \<Rightarrow> u64 \<Rightarrow> protection \<Rightarrow> AddressSpace \<Rightarrow> (MemError + region) \<times> AddressSpace" where
  "reserve host_reserve base len protection s =
     (case validate base len False s of
        Inl e \<Rightarrow> (Inl e, s\<lparr>failed := note_reserve_failure base len e (holder_of base len s) (failed s)\<rparr>)
      | Inr _ \<Rightarrow>
          (case host_reserve base len protection of
             Some e \<Rightarrow> (Inl e, s\<lparr>failed := note_reserve_failure base len e None (failed s)\<rparr>)
           | None \<Rightarrow>
               (let region = \<lparr>region_base = base, region_len = len, region_protection = protection\<rparr>
                in (Inr region,
                    s\<lparr>regions := bt_insert base region (regions s),
                      held := held s @ [(base, len)],
                      device := registry_reserved base len (prot_read protection) (device s)\<rparr>))))"

text \<open>\<open>Vec::swap_remove\<close>.\<close>

definition swap_remove :: "nat \<Rightarrow> 'a list \<Rightarrow> 'a list" where
  "swap_remove i xs =
     (if i = length xs - 1 then butlast xs else (butlast xs)[i := last xs])"

definition release :: "u64 \<Rightarrow> u64 \<Rightarrow> AddressSpace \<Rightarrow> bool \<times> AddressSpace" where
  "release base len s =
     (if (case bt_get (regions s) base of None \<Rightarrow> True | Some r \<Rightarrow> region_len r \<noteq> len) then (False, s)
      else (True,
        s\<lparr>regions := bt_remove base (regions s),
          device := registry_released base (device s),
          held := (case position (\<lambda>h. fst h = base) (held s) of
                     None \<Rightarrow> held s | Some index \<Rightarrow> swap_remove index (held s))\<rparr>))"

definition owns :: "u64 \<Rightarrow> u64 \<Rightarrow> AddressSpace \<Rightarrow> bool" where
  "owns base len s =
     (let end = saturating_add base len
      in case bt_last_le base (regions s) of
           None \<Rightarrow> False
         | Some (_, r) \<Rightarrow> end \<le> saturating_add (region_base r) (region_len r))"

definition read :: "(u64 \<Rightarrow> byte) \<Rightarrow> u64 \<Rightarrow> u64 \<Rightarrow> AddressSpace \<Rightarrow> byte list option" where
  "read memory base len s =
     (case region_at base s of
        None \<Rightarrow> None
      | Some region \<Rightarrow>
          if \<not> prot_read (region_protection region) \<or> \<not> owns base len s then None
          else Some (map memory [base ..< base + len]))"

text \<open>The loop of \<open>first_free_at_or_above\<close> over the regions from the one holding \<open>start\<close>.\<close>

fun free_walk :: "u64 \<Rightarrow> u64 \<Rightarrow> region list \<Rightarrow> u64 \<Rightarrow> u64 option" where
  "free_walk len align [] start =
     (case checked_add start len of None \<Rightarrow> None | Some _ \<Rightarrow> Some start)"
| "free_walk len align (r # rs) start =
     (case checked_add start len of
        None \<Rightarrow> None
      | Some end \<Rightarrow>
          (let region_end = saturating_add (region_base r) (region_len r)
           in if region_base r \<ge> end then Some start
              else if region_end > start then
                (case checked_next_multiple_of region_end align of
                   None \<Rightarrow> None
                 | Some start' \<Rightarrow> free_walk len align rs start')
              else free_walk len align rs start))"

definition first_free_at_or_above :: "u64 \<Rightarrow> u64 \<Rightarrow> u64 \<Rightarrow> AddressSpace \<Rightarrow> u64 option" where
  "first_free_at_or_above hint len align0 s =
     (let align = max align0 1
      in case checked_next_multiple_of hint align of
           None \<Rightarrow> None
         | Some start \<Rightarrow>
             (let first = (case bt_last_le start (regions s) of None \<Rightarrow> start | Some (base, _) \<Rightarrow> base)
              in free_walk len align (map snd (bt_range_ge first (regions s))) start))"

text \<open>\<open>platform::protect\<close>: what the device may map follows what the guest may read.\<close>

definition platform_protect ::
  "host_call \<Rightarrow> u64 \<Rightarrow> u64 \<Rightarrow> protection \<Rightarrow> AddressSpace \<Rightarrow> MemError option \<times> AddressSpace" where
  "platform_protect host_protect base len protection s =
     (case host_protect base len protection of
        Some e \<Rightarrow> (Some e, s)
      | None \<Rightarrow>
          (None, s\<lparr>device := registry_protected base len (prot_read protection) (device s),
                   pages := pages s + 1\<rparr>))"

definition protect ::
  "host_call \<Rightarrow> u64 \<Rightarrow> u64 \<Rightarrow> protection \<Rightarrow> AddressSpace \<Rightarrow> (MemError + unit) \<times> AddressSpace" where
  "protect host_protect base len protection s =
     (if \<not> owns base len s then
        (let error = HostRefused (hex base @ ''..'' @ hex (saturating_add base len) @
               '' is not inside any region this address space owns'')
         in (Inl error, s\<lparr>failed := note_reserve_failure base len error (holder_of base len s) (failed s)\<rparr>))
      else case platform_protect host_protect base len protection s of
        (Some e, s') \<Rightarrow> (Inl e, s'\<lparr>failed := note_reserve_failure base len e None (failed s')\<rparr>)
      | (None, s') \<Rightarrow> (Inr (), s'))"

section \<open>The invariant\<close>

definition region_ok :: "u64 \<Rightarrow> region \<Rightarrow> bool" where
  "region_ok b r \<longleftrightarrow> region_base r = b \<and> 0 < region_len r \<and> GUEST_PAGE_SIZE dvd b \<and>
     GUEST_PAGE_SIZE dvd region_len r \<and> b + region_len r \<le> U64_MAX"

interpretation spc: interval_index bt_get bt_last_lt bt_wf region_len
  by unfold_locales (simp_all add: bt_interval_laws)

definition space_ok :: "AddressSpace \<Rightarrow> bool" where
  "space_ok s \<longleftrightarrow> bt_wf (regions s) \<and> (\<forall>b r. bt_get (regions s) b = Some r \<longrightarrow> region_ok b r) \<and>
     spc.apart (regions s)"

text \<open>The host reservations and the device record keep the same ranges.\<close>

definition space_agrees :: "AddressSpace \<Rightarrow> bool" where
  "space_agrees s \<longleftrightarrow> reg_ok (device s) \<and> distinct (map fst (held s)) \<and>
     (\<forall>b n. (b, n) \<in> set (held s) \<longleftrightarrow> (\<exists>r. bt_get (regions s) b = Some r \<and> region_len r = n)) \<and>
     (\<forall>b. map_option fst (bt_get (reservations (device s)) b) = map_option region_len (bt_get (regions s) b))"

definition overlaps :: "u64 \<Rightarrow> u64 \<Rightarrow> region \<Rightarrow> bool" where
  "overlaps base len r \<longleftrightarrow> region_base r < base + len \<and> base < region_base r + region_len r"

lemma space_okD:
  assumes "space_ok s" "bt_get (regions s) b = Some r"
  shows "region_base r = b" "0 < region_len r" "b + region_len r \<le> U64_MAX"
    "GUEST_PAGE_SIZE dvd b" "GUEST_PAGE_SIZE dvd region_len r"
  using assms by (auto simp: space_ok_def region_ok_def)

lemma region_end_exact:
  "space_ok s \<Longrightarrow> bt_get (regions s) b = Some r \<Longrightarrow>
     saturating_add (region_base r) (region_len r) = b + region_len r"
  using space_okD by (simp add: saturating_add_def)

lemma holder_of_reaches:
  assumes "space_ok s"
  shows "holder_of base len s = Some r \<longleftrightarrow>
     (\<exists>b. bt_last_lt (saturating_add base len) (regions s) = Some (b, r) \<and> base < b + region_len r)"
proof -
  have wf: "bt_wf (regions s)" using assms by (simp add: space_ok_def)
  show ?thesis
  proof (cases "bt_last_lt (saturating_add base len) (regions s)")
    case None
    then show ?thesis by (simp add: holder_of_def)
  next
    case (Some x)
    obtain b q where x: "x = (b, q)" by (cases x)
    have "saturating_add (region_base q) (region_len q) = b + region_len q"
      using bt_last_lt_get [OF wf] Some x region_end_exact [OF assms] by blast
    then show ?thesis using Some x by (auto simp: holder_of_def)
  qed
qed

lemma holder_of_None_iff:
  assumes "space_ok s"
  shows "holder_of base len s = None \<longleftrightarrow>
    (\<forall>b r. bt_get (regions s) b = Some r \<longrightarrow> \<not> overlaps base len r)"
proof -
  have wf: "bt_wf (regions s)" and ap: "spc.apart (regions s)" using assms by (simp_all add: space_ok_def)
  have lt: "b < saturating_add base len \<longleftrightarrow> b < base + len" if "bt_get (regions s) b = Some r" for b r
    using space_okD [OF assms that] by (intro less_saturating_add) simp
  have "holder_of base len s = None \<longleftrightarrow>
     \<not> (\<exists>b r. bt_last_lt (saturating_add base len) (regions s) = Some (b, r) \<and> base < b + region_len r)"
    using holder_of_reaches [OF assms, of base len] by (metis not_Some_eq)
  also have "\<dots> \<longleftrightarrow>
     \<not> (\<exists>b r. bt_get (regions s) b = Some r \<and> b < saturating_add base len \<and> base < b + region_len r)"
    using spc.reaches_iff [OF wf ap] by simp
  also have "\<dots> \<longleftrightarrow> (\<forall>b r. bt_get (regions s) b = Some r \<longrightarrow> \<not> overlaps base len r)"
    using lt space_okD(1) [OF assms] by (auto simp: overlaps_def)
  finally show ?thesis .
qed

lemma holder_of_SomeD:
  assumes "space_ok s" "holder_of base len s = Some r"
  shows "bt_get (regions s) (region_base r) = Some r" "overlaps base len r"
proof -
  have wf: "bt_wf (regions s)" using assms(1) by (simp add: space_ok_def)
  obtain b where b: "bt_get (regions s) b = Some r" "b < saturating_add base len" "base < b + region_len r"
    using assms by (auto simp: holder_of_reaches bt_last_lt_Some [OF wf])
  with space_okD(1) [OF assms(1) b(1)] show "bt_get (regions s) (region_base r) = Some r" by simp
  show "overlaps base len r"
    using b space_okD(1) [OF assms(1) b(1)] saturating_add_le_sum [of base len] by (simp add: overlaps_def)
qed

lemma region_at_iff:
  assumes "space_ok s"
  shows "region_at a s = Some r \<longleftrightarrow>
    bt_get (regions s) (region_base r) = Some r \<and> region_base r \<le> a \<and> a < region_base r + region_len r"
proof -
  have wf: "bt_wf (regions s)" and ap: "spc.apart (regions s)" using assms by (simp_all add: space_ok_def)
  show ?thesis
  proof
    assume "region_at a s = Some r"
    then obtain b where "bt_last_lt (Suc a) (regions s) = Some (b, r)"
      and "a < saturating_add (region_base r) (region_len r)"
      by (auto simp: region_at_def bt_last_le_Suc split: option.splits if_splits)
    then show "bt_get (regions s) (region_base r) = Some r \<and> region_base r \<le> a \<and> a < region_base r + region_len r"
      using region_end_exact [OF assms] space_okD(1) [OF assms] by (auto simp: bt_last_lt_Some [OF wf])
  next
    assume h: "bt_get (regions s) (region_base r) = Some r \<and> region_base r \<le> a \<and> a < region_base r + region_len r"
    then have "bt_last_lt (Suc a) (regions s) = Some (region_base r, r)"
      by (intro spc.last_lt_holds [OF wf ap]) auto
    then show "region_at a s = Some r"
      using h region_end_exact [OF assms, of "region_base r" r] by (simp add: region_at_def bt_last_le_Suc)
  qed
qed

lemma region_end_below_top:
  assumes "space_ok s" "bt_get (regions s) b = Some r"
  shows "b + region_len r < U64_MAX"
proof -
  have "GUEST_PAGE_SIZE dvd b + region_len r" using space_okD(4,5) [OF assms] by simp
  moreover have "\<not> GUEST_PAGE_SIZE dvd U64_MAX" by (simp add: GUEST_PAGE_SIZE_def)
  ultimately have "b + region_len r \<noteq> U64_MAX" by metis
  then show ?thesis using space_okD(3) [OF assms] by simp
qed

lemma owns_below_top:
  assumes "space_ok s" "owns base len s"
  shows "base + len < U64_MAX"
proof -
  have wf: "bt_wf (regions s)" using assms(1) by (simp add: space_ok_def)
  obtain b r where br: "bt_last_lt (Suc base) (regions s) = Some (b, r)"
    using assms(2) by (auto simp: owns_def bt_last_le_Suc split: option.splits)
  then have g: "bt_get (regions s) b = Some r" using bt_last_lt_get [OF wf] by blast
  have "saturating_add base len \<le> b + region_len r"
    using assms(2) br region_end_exact [OF assms(1) g] by (auto simp: owns_def bt_last_le_Suc Let_def)
  then have "saturating_add base len < U64_MAX" using region_end_below_top [OF assms(1) g] by simp
  then show ?thesis by (simp add: saturating_add_def split: if_splits)
qed

lemma owns_iff:
  assumes "space_ok s" "0 < len"
  shows "owns base len s \<longleftrightarrow>
    (\<exists>b r. bt_get (regions s) b = Some r \<and> b \<le> base \<and> base + len \<le> b + region_len r)"
proof -
  have wf: "bt_wf (regions s)" and ap: "spc.apart (regions s)" using assms(1) by (simp_all add: space_ok_def)
  show ?thesis
  proof
    assume "owns base len s"
    moreover have e: "saturating_add base len = base + len"
      using owns_below_top [OF assms(1) \<open>owns base len s\<close>] by (simp add: saturating_add_def)
    ultimately obtain b r where "bt_last_lt (Suc base) (regions s) = Some (b, r)"
      and "base + len \<le> saturating_add (region_base r) (region_len r)"
      by (auto simp: owns_def bt_last_le_Suc Let_def e split: option.splits)
    then show "\<exists>b r. bt_get (regions s) b = Some r \<and> b \<le> base \<and> base + len \<le> b + region_len r"
      using region_end_exact [OF assms(1)] bt_last_lt_get [OF wf] by (metis less_Suc_eq_le)
  next
    assume "\<exists>b r. bt_get (regions s) b = Some r \<and> b \<le> base \<and> base + len \<le> b + region_len r"
    then obtain b r where h: "bt_get (regions s) b = Some r" "b \<le> base" "base + len \<le> b + region_len r" by blast
    then have "bt_last_lt (Suc base) (regions s) = Some (b, r)"
      using assms(2) by (intro spc.last_lt_holds [OF wf ap]) auto
    then show "owns base len s"
      using h region_end_exact [OF assms(1) h(1)]
      by (simp add: owns_def bt_last_le_Suc Let_def le_trans [OF saturating_add_le_sum])
  qed
qed

subsection \<open>Every operation keeps it\<close>

lemma space_ok_cong: "regions s = regions s' \<Longrightarrow> space_ok s = space_ok s'"
  by (simp add: space_ok_def)

lemma space_agrees_cong:
  "regions s = regions s' \<Longrightarrow> held s = held s' \<Longrightarrow> device s = device s' \<Longrightarrow> space_agrees s = space_agrees s'"
  by (simp add: space_agrees_def)

text \<open>The documented behaviour of the host's reservation call.\<close>

definition host_in_range :: "host_call \<Rightarrow> bool" where
  "host_in_range host_reserve \<longleftrightarrow>
     (\<forall>base len p. host_reserve base len p = None \<longrightarrow> base + len \<le> U64_MAX)"

lemma validate_Inr:
  assumes "validate base len direct s = Inr u"
  shows "0 < len" "GUEST_PAGE_SIZE dvd len" "GUEST_PAGE_SIZE dvd base" "holder_of base len s = None"
    "direct \<Longrightarrow> DIRECT_MEMORY_ALIGN dvd base"
proof -
  have d: "GUEST_PAGE_SIZE dvd DIRECT_MEMORY_ALIGN"
    by (simp add: GUEST_PAGE_SIZE_def DIRECT_MEMORY_ALIGN_def)
  show "0 < len" "GUEST_PAGE_SIZE dvd len" "holder_of base len s = None"
    using assms by (auto simp: validate_def Let_def mod_eq_0_iff_dvd split: if_splits)
  show "DIRECT_MEMORY_ALIGN dvd base" if "direct"
    using assms that by (auto simp: validate_def Let_def mod_eq_0_iff_dvd split: if_splits)
  then show "GUEST_PAGE_SIZE dvd base"
    using assms d by (cases direct) (auto simp: validate_def Let_def mod_eq_0_iff_dvd split: if_splits)
qed

lemma validate_fresh:
  assumes "space_ok s" "validate base len direct s = Inr u"
  shows "bt_get (regions s) base = None"
proof (rule ccontr)
  assume "bt_get (regions s) base \<noteq> None"
  then obtain q where q: "bt_get (regions s) base = Some q" by blast
  have "\<not> overlaps base len q"
    using validate_Inr(4) [OF assms(2)] q holder_of_None_iff [OF assms(1), of base len] by blast
  then show False
    using space_okD [OF assms(1) q] validate_Inr(1) [OF assms(2)] by (simp add: overlaps_def)
qed

lemma reserve_cases:
  assumes "reserve hr base len p s = (res, s')"
  shows "(\<exists>e f. res = Inl e \<and> s' = s\<lparr>failed := f\<rparr>) \<or>
    (validate base len False s = Inr () \<and> hr base len p = None \<and>
     res = Inr \<lparr>region_base = base, region_len = len, region_protection = p\<rparr> \<and>
     s' = s\<lparr>regions := bt_insert base \<lparr>region_base = base, region_len = len, region_protection = p\<rparr> (regions s),
            held := held s @ [(base, len)],
            device := registry_reserved base len (prot_read p) (device s)\<rparr>)"
  using assms by (auto simp: reserve_def Let_def split: sum.splits option.splits)

lemma space_ok_insert:
  assumes "space_ok s" "region_ok base r" "holder_of base (region_len r) s = None"
  shows "space_ok (s\<lparr>regions := bt_insert base r (regions s)\<rparr>)"
proof -
  have base: "region_base r = base" using assms(2) by (simp add: region_ok_def)
  have no: "\<not> overlaps base (region_len r) q" if "bt_get (regions s) b = Some q" for b q
    using assms(3) that by (simp add: holder_of_None_iff [OF assms(1)])
  have lo: "b + region_len q \<le> base" if "bt_get (regions s) b = Some q" "b < base" for b q
    using no [OF that(1)] space_okD [OF assms(1) that(1)] that(2) by (simp add: overlaps_def)
  have hi: "base + region_len r \<le> b" if "bt_get (regions s) b = Some q" "base < b" for b q
    using no [OF that(1)] space_okD [OF assms(1) that(1)] that(2) by (simp add: overlaps_def)
  have ap: "spc.apart (regions s)" using assms(1) by (simp add: space_ok_def)
  have "spc.apart (bt_insert base r (regions s))"
    by (rule spc.apart_put [OF ap bt_get_insert lo hi])
  then show ?thesis using assms(1,2) by (auto simp: space_ok_def bt_get_insert)
qed

lemma reserve_space_ok:
  assumes "space_ok s" "host_in_range hr" "reserve hr base len p s = (res, s')"
  shows "space_ok s'"
proof (cases res)
  case (Inl e)
  then show ?thesis using reserve_cases [OF assms(3)] assms(1) by (auto simp: space_ok_def)
next
  case (Inr r)
  note h = reserve_cases [OF assms(3), unfolded Inr, simplified]
  have v: "validate base len False s = Inr ()" "hr base len p = None" "region_len r = len"
    "regions s' = bt_insert base r (regions s)"
    using h by auto
  have "region_ok base r"
    using validate_Inr [OF v(1)] v(2) assms(2) h by (auto simp: region_ok_def host_in_range_def)
  then have "space_ok (s\<lparr>regions := bt_insert base r (regions s)\<rparr>)"
    using validate_Inr(4) [OF v(1)] v(3) by (intro space_ok_insert assms(1)) auto
  then show ?thesis using space_ok_cong [of s' "s\<lparr>regions := bt_insert base r (regions s)\<rparr>"] v(4) by simp
qed

lemma reserve_agrees:
  assumes "space_ok s" "space_agrees s" "host_in_range hr" "reserve hr base len p s = (res, s')"
  shows "space_agrees s'"
proof (cases res)
  case (Inl e)
  then show ?thesis using reserve_cases [OF assms(4)] assms(2) by (auto simp: space_agrees_def)
next
  case (Inr r)
  note h = reserve_cases [OF assms(4), unfolded Inr, simplified]
  have v: "validate base len False s = Inr ()" "hr base len p = None" "region_len r = len"
    "regions s' = bt_insert base r (regions s)" "held s' = held s @ [(base, len)]"
    "device s' = registry_reserved base len (prot_read p) (device s)"
    using h by auto
  have top: "base + len \<le> U64_MAX" using v(2) assms(3) by (auto simp: host_in_range_def)
  have no: "\<not> overlaps base len q" if "bt_get (regions s) b = Some q" for b q
    using validate_Inr(4) [OF v(1)] that by (simp add: holder_of_None_iff [OF assms(1)])
  have fresh: "bt_get (regions s) base = None" using validate_fresh [OF assms(1) v(1)] .
  have wf: "bt_wf (reservations (device s))" using assms(2) by (simp add: space_agrees_def reg_ok_def)
  have same: "map_option fst (bt_get (reservations (device s)) b) = map_option region_len (bt_get (regions s) b)" for b
    using assms(2) by (simp add: space_agrees_def)
  have "reg_ok (device s')"
    unfolding v(6)
  proof (rule reg_ok_reserved)
    show "reg_ok (device s)" using assms(2) by (simp add: space_agrees_def)
    show "0 < len" using validate_Inr(1) [OF v(1)] .
    show "base + len \<le> U64_MAX" by fact
    fix b hs assume "(b, hs) \<in> set (reservations (device s))"
    then have "bt_get (reservations (device s)) b = Some hs" using bt_get_mem [OF wf] by simp
    then obtain q where q: "bt_get (regions s) b = Some q" "region_len q = fst hs"
      using same [of b] by (cases "bt_get (regions s) b") auto
    show "b + fst hs \<le> base \<or> base + len \<le> b"
      using no [OF q(1)] space_okD(1) [OF assms(1) q(1)] q(2) by (auto simp: overlaps_def)
  qed
  moreover have "distinct (map fst (held s'))"
    using assms(2) fresh v(5) by (auto simp: space_agrees_def)
  moreover have "(b, n) \<in> set (held s') \<longleftrightarrow> (\<exists>r. bt_get (regions s') b = Some r \<and> region_len r = n)" for b n
    using assms(2) fresh v(3-5) by (auto simp: space_agrees_def bt_get_insert)
  moreover have "map_option fst (bt_get (reservations (device s')) b) = map_option region_len (bt_get (regions s') b)" for b
    using same v(3,4,6) by (simp add: registry_reserved_def bt_get_insert)
  ultimately show ?thesis unfolding space_agrees_def by blast
qed

lemma release_cases:
  assumes "release base len s = (ok, s')"
  shows "(\<not> ok \<and> s' = s) \<or>
    (ok \<and> (\<exists>r. bt_get (regions s) base = Some r \<and> region_len r = len) \<and>
     regions s' = bt_remove base (regions s) \<and> device s' = registry_released base (device s) \<and>
     failed s' = failed s \<and>
     held s' = (case position (\<lambda>h. fst h = base) (held s) of
                  None \<Rightarrow> held s | Some index \<Rightarrow> swap_remove index (held s)))"
  using assms by (auto simp: release_def split: if_splits option.splits)

lemma space_ok_remove: "space_ok s \<Longrightarrow> regions s' = bt_remove b (regions s) \<Longrightarrow> space_ok s'"
  by (auto simp: space_ok_def bt_get_remove split: if_splits intro: spc.apart_sub [of "regions s"])

lemma release_space_ok: "space_ok s \<Longrightarrow> release base len s = (ok, s') \<Longrightarrow> space_ok s'"
  using release_cases [of base len s ok s'] space_ok_remove by blast

lemma mset_swap_remove:
  assumes "i < length xs"
  shows "mset (swap_remove i xs) = mset xs - {#xs ! i#}"
proof -
  have ne: "xs \<noteq> []" using assms by auto
  have split: "xs = butlast xs @ [last xs]" using ne by simp
  have m: "mset xs = add_mset (last xs) (mset (butlast xs))"
    using arg_cong [OF split, of mset] by simp
  show ?thesis
  proof (cases "i = length xs - 1")
    case True
    then show ?thesis using ne m by (simp add: swap_remove_def last_conv_nth)
  next
    case False
    then have i: "i < length (butlast xs)" using assms by simp
    then have "xs ! i = butlast xs ! i" by (simp add: nth_butlast)
    then show ?thesis using False i m by (simp add: swap_remove_def mset_update)
  qed
qed

lemma swap_remove_keyed:
  assumes "distinct (map fst xs)" "position (\<lambda>h. fst h = b) xs = Some i"
  shows "set (swap_remove i xs) = {h \<in> set xs. fst h \<noteq> b}" "distinct (map fst (swap_remove i xs))"
proof -
  have i: "i < length xs" "fst (xs ! i) = b" using position_Some [OF assms(2)] by auto
  have m: "mset (swap_remove i xs) = mset xs - {#xs ! i#}" using mset_swap_remove [OF i(1)] .
  have d: "distinct xs" using assms(1) by (simp add: distinct_map)
  have only: "h = xs ! i" if "h \<in> set xs" "fst h = b" for h
    using assms(1) that i by (metis nth_mem distinct_map inj_onD)
  have "count (mset xs) (xs ! i) = 1"
    using d i(1) by (metis distinct_count_atmost_1 nth_mem)
  then have s: "set (swap_remove i xs) = set xs - {xs ! i}"
    using m i(1) by (metis at_most_one_mset_mset_diff count_eq_zero_iff count_diff count_single
        diff_self_eq_0 set_mset_mset)
  then show "set (swap_remove i xs) = {h \<in> set xs. fst h \<noteq> b}" using only i by auto
  have "add_mset (xs ! i) (mset (swap_remove i xs)) = mset xs" using m i(1) by simp
  then have "mset (map fst (xs ! i # swap_remove i xs)) = mset (map fst xs)" 
    by (metis image_mset_add_mset list.simps(9) mset.simps(2) mset_map)
  then show "distinct (map fst (swap_remove i xs))"
    using assms(1) by (metis mset_eq_imp_distinct_iff distinct.simps(2) list.simps(9))
qed

lemma release_agrees:
  assumes "space_agrees s" "release base len s = (ok, s')"
  shows "space_agrees s'"
proof (cases ok)
  case False
  then show ?thesis using release_cases [OF assms(2)] assms(1) by auto
next
  case True
  then obtain r where r: "bt_get (regions s) base = Some r" "region_len r = len"
    and reg: "regions s' = bt_remove base (regions s)" and dev: "device s' = registry_released base (device s)"
    and hd: "held s' = (case position (\<lambda>h. fst h = base) (held s) of
                  None \<Rightarrow> held s | Some index \<Rightarrow> swap_remove index (held s))"
    using release_cases [OF assms(2)] by auto
  have a: "distinct (map fst (held s))"
    "\<And>b n. (b, n) \<in> set (held s) \<longleftrightarrow> (\<exists>r. bt_get (regions s) b = Some r \<and> region_len r = n)"
    "\<And>b. map_option fst (bt_get (reservations (device s)) b) = map_option region_len (bt_get (regions s) b)"
    using assms(1) by (simp_all add: space_agrees_def)
  obtain i where i: "position (\<lambda>h. fst h = base) (held s) = Some i"
    using a(2) [of base len] r by (cases "position (\<lambda>h. fst h = base) (held s)") (auto simp: position_None)
  note sw = swap_remove_keyed [OF a(1) i]
  have h: "held s' = swap_remove i (held s)" using hd i by simp
  obtain hs where dr: "bt_get (reservations (device s)) base = Some hs"
    using a(3) [of base] r(1) by (cases "bt_get (reservations (device s)) base") auto
  have "reservations (device s') = bt_remove base (reservations (device s))"
    using dev dr by (simp add: registry_released_def)
  then have "map_option fst (bt_get (reservations (device s')) b) = map_option region_len (bt_get (regions s') b)" for b
    using a(3) reg by (simp add: bt_get_remove)
  moreover have "(b, n) \<in> set (held s') \<longleftrightarrow> (\<exists>r. bt_get (regions s') b = Some r \<and> region_len r = n)" for b n
    unfolding h sw(1) using a(2) reg by (auto simp: bt_get_remove)
  moreover have "reg_ok (device s')"
    using dev assms(1) by (simp add: space_agrees_def reg_ok_released)
  ultimately show ?thesis using sw(2) h by (simp add: space_agrees_def)
qed

lemma protect_cases:
  assumes "protect hp base len p s = (res, s')"
  shows "(\<exists>e f. res = Inl e \<and> s' = s\<lparr>failed := f\<rparr>) \<or>
    (owns base len s \<and> hp base len p = None \<and> res = Inr () \<and>
     s' = s\<lparr>device := registry_protected base len (prot_read p) (device s), pages := pages s + 1\<rparr>)"
  using assms by (auto simp: protect_def platform_protect_def Let_def split: if_splits option.splits)

lemma protect_space_ok: "space_ok s \<Longrightarrow> protect hp base len p s = (res, s') \<Longrightarrow> space_ok s'"
  using protect_cases [of hp base len p s res s'] by (auto simp: space_ok_def)

lemma bt_get_protected:
  "map_option fst (bt_get (reservations (registry_protected base len rd r)) b) =
     map_option fst (bt_get (reservations r) b)"
proof -
  have "map_option fst (bt_get (map (\<lambda>(start, hs). (start, protect_one base e rd start hs)) m) b) =
     map_option fst (bt_get m b)" for e m
  proof (induction m)
    case Nil
    then show ?case by simp
  next
    case (Cons x m)
    then show ?case by (cases x) (simp add: bt_get_Cons)
  qed
  then show ?thesis by (simp add: registry_protected_entries)
qed

lemma protect_agrees:
  assumes "space_ok s" "space_agrees s" "0 < len" "protect hp base len p s = (res, s')"
  shows "space_agrees s'"
proof (cases res)
  case (Inl e)
  then show ?thesis using protect_cases [OF assms(4)] assms(2) by (auto simp: space_agrees_def)
next
  case (Inr u)
  then have o: "owns base len s"
    and s': "s' = s\<lparr>device := registry_protected base len (prot_read p) (device s), pages := pages s + 1\<rparr>"
    using protect_cases [OF assms(4)] by auto
  have "base < saturating_add base len"
    using owns_below_top [OF assms(1) o] assms(3) by (simp add: saturating_add_def)
  then show ?thesis
    using assms(2) unfolding s' space_agrees_def by (simp add: reg_ok_protected bt_get_protected)
qed

text \<open>Every state an address space can come to: the host may answer each call as it likes.\<close>

inductive space_reachable :: "host_call \<Rightarrow> host_call \<Rightarrow> AddressSpace \<Rightarrow> bool"
  for hr :: host_call and hp :: host_call where
  start: "space_reachable hr hp address_space_new"
| reserve: "space_reachable hr hp s \<Longrightarrow> reserve hr base len p s = (res, s') \<Longrightarrow> space_reachable hr hp s'"
| release: "space_reachable hr hp s \<Longrightarrow> release base len s = (ok, s') \<Longrightarrow> space_reachable hr hp s'"
| protect: "space_reachable hr hp s \<Longrightarrow> 0 < len \<Longrightarrow> protect hp base len p s = (out, s') \<Longrightarrow>
     space_reachable hr hp s'"

lemma space_ok_new: "space_ok address_space_new" "space_agrees address_space_new"
  by (simp_all add: space_ok_def space_agrees_def address_space_new_def spc.apart_def reg_ok_empty)
     (simp add: registry_empty_def)

lemma space_reachable_ok:
  assumes "host_in_range hr" "space_reachable hr hp s"
  shows "space_ok s \<and> space_agrees s"
  using assms(2)
proof induction
  case start
  then show ?case by (simp add: space_ok_new)
next
  case (reserve s base len p res s')
  then show ?case using reserve_space_ok reserve_agrees assms(1) by blast
next
  case (release s base len ok s')
  then show ?case using release_space_ok release_agrees by blast
next
  case (protect s len base p out s')
  then show ?case using protect_space_ok protect_agrees by blast
qed

section \<open>Searching upward for room\<close>

definition free_start :: "u64 \<Rightarrow> u64 \<Rightarrow> region list \<Rightarrow> u64 \<Rightarrow> bool" where
  "free_start len align rs x \<longleftrightarrow>
     align dvd x \<and> x + len \<le> U64_MAX \<and> (\<forall>r \<in> set rs. \<not> overlaps x len r)"

lemma free_startD: "free_start len align rs x \<Longrightarrow> align dvd x" "free_start len align rs x \<Longrightarrow> x + len \<le> U64_MAX"
  "free_start len align rs x \<Longrightarrow> r \<in> set rs \<Longrightarrow> \<not> overlaps x len r"
  by (auto simp: free_start_def)

lemma free_start_Cons:
  "free_start len align (r # rs) x \<longleftrightarrow> \<not> overlaps x len r \<and> free_start len align rs x"
  by (auto simp: free_start_def)

lemma free_walk_least:
  assumes "0 < len" "0 < align" "align dvd start"
    "sorted_wrt (\<lambda>q r. region_base q + region_len q \<le> region_base r) rs"
    "\<forall>r \<in> set rs. region_base r + region_len r \<le> U64_MAX"
  shows "least_from (free_start len align rs) start (free_walk len align rs start)"
  using assms
proof (induction rs arbitrary: start)
  case Nil
  then show ?case
    by (auto simp: least_from_def free_start_def split: option.splits)
next
  case (Cons r rs)
  have re: "saturating_add (region_base r) (region_len r) = region_base r + region_len r"
    using Cons.prems(5) by (simp add: saturating_add_def)
  have IH: "least_from (free_start len align rs) x (free_walk len align rs x)" if "align dvd x" for x
    using Cons that by simp
  show ?case
  proof (cases "start + len \<le> U64_MAX")
    case False
    then show ?thesis by (auto simp: least_from_def checked_add_def dest: free_startD)
  next
    case fits: True
    then have e: "checked_add start len = Some (start + len)" by (simp add: checked_add_def)
    consider "start + len \<le> region_base r" | "region_base r < start + len" "start < region_base r + region_len r"
      | "region_base r < start + len" "region_base r + region_len r \<le> start" by linarith
    then show ?thesis
    proof cases
      case 1
      have "\<not> overlaps start len q" if "q \<in> set (r # rs)" for q
        using 1 Cons.prems(4) that by (fastforce simp: overlaps_def)
      then have "free_start len align (r # rs) start"
        using fits Cons.prems(3) by (simp add: free_start_def)
      then show ?thesis using 1 by (simp add: least_from_def e)
    next
      case 2
      let ?stop = "region_base r + region_len r"
      have past: "?stop \<le> x" if "start \<le> x" "\<not> overlaps x len r" for x
        using that 2 by (auto simp: overlaps_def)
      show ?thesis
      proof (cases "checked_next_multiple_of ?stop align")
        case None
        have "\<not> free_start len align (r # rs) x" if "start \<le> x" for x
          using next_multiple_None [OF None Cons.prems(2), of x] past [OF that]
          by (auto simp: free_start_def)
        then show ?thesis using None 2 by (simp add: least_from_def e re)
      next
        case (Some y)
        note y = next_multiple_Some [OF Some]
        have "least_from (free_start len align (r # rs)) start (free_walk len align rs y)"
        proof (rule least_from_mono [OF IH [OF y(2)]])
          show "start \<le> y" using y(1) 2 by simp
          show "free_start len align (r # rs) x" if "y \<le> x" "free_start len align rs x" for x
            using that y(1) by (simp add: free_start_Cons overlaps_def)
          show "y \<le> x \<and> free_start len align rs x" if "start \<le> x" "free_start len align (r # rs) x" for x
            using that past [of x] next_multiple_least [OF Some, of x]
            by (auto simp: free_start_Cons dest: free_startD(1))
        qed
        then show ?thesis using Some 2 by (simp add: e re)
      qed
    next
      case 3
      have "least_from (free_start len align (r # rs)) start (free_walk len align rs start)"
        using 3 by (intro least_from_mono [OF IH [OF Cons.prems(3)]]) (auto simp: free_start_Cons overlaps_def)
      then show ?thesis using 3 by (simp add: e re)
    qed
  qed
qed

lemma bt_sorted_regions:
  assumes "space_ok s"
  shows "sorted_wrt (\<lambda>q r. region_base q + region_len q \<le> region_base r) (map snd (bt_range_ge first (regions s)))"
proof -
  have wf: "bt_wf (regions s)" using assms by (simp add: space_ok_def)
  have "sorted_wrt (\<lambda>x y. fst x < fst y) (bt_range_ge first (regions s))"
    using bt_range_ge_wf [OF wf, of first] by (simp add: bt_wf_def sorted_wrt_map)
  then show ?thesis
    unfolding sorted_wrt_map
  proof (rule sorted_wrt_mono_rel [rotated])
    fix x y assume h: "x \<in> set (bt_range_ge first (regions s))" "y \<in> set (bt_range_ge first (regions s))" "fst x < fst y"
    obtain b q b' q' where xy: "x = (b, q)" "y = (b', q')" by (metis surj_pair)
    have g: "bt_get (regions s) b = Some q" "bt_get (regions s) b' = Some q'"
      using h xy by (auto simp: bt_range_ge_def bt_get_mem [OF wf])
    show "region_base (snd x) + region_len (snd x) \<le> region_base (snd y)"
      using spc.apartD [of "regions s", OF _ g] assms h xy g space_okD(1) [OF assms] by (simp add: space_ok_def)
  qed
qed

lemma first_free_least:
  assumes "space_ok s" "0 < len"
  shows "least_from (\<lambda>x. max align 1 dvd x \<and> x + len \<le> U64_MAX \<and> holder_of x len s = None) hint
    (first_free_at_or_above hint len align s)"
proof -
  let ?a = "max align 1"
  let ?P = "\<lambda>x. ?a dvd x \<and> x + len \<le> U64_MAX \<and> holder_of x len s = None"
  have wf: "bt_wf (regions s)" using assms(1) by (simp add: space_ok_def)
  show ?thesis
  proof (cases "checked_next_multiple_of hint ?a")
    case None
    have "\<not> ?P x" if "hint \<le> x" for x
      using next_multiple_None [OF None _ that] by (auto simp: less_max_iff_disj)
    then show ?thesis using None by (simp add: least_from_def first_free_at_or_above_def Let_def)
  next
    case (Some start)
    note st = next_multiple_Some [OF Some]
    define first where "first = (case bt_last_le start (regions s) of None \<Rightarrow> start | Some (base, _) \<Rightarrow> base)"
    let ?rs = "map snd (bt_range_ge first (regions s))"
    have least: "least_from (free_start len ?a ?rs) start (free_walk len ?a ?rs start)"
    proof (rule free_walk_least [OF assms(2) _ st(2) bt_sorted_regions [OF assms(1)]])
      show "0 < ?a" by simp
      show "\<forall>r\<in>set ?rs. region_base r + region_len r \<le> U64_MAX"
        using space_okD(1,3) [OF assms(1)] by (fastforce simp: bt_range_ge_def bt_get_mem [OF wf])
    qed
    have skip: "b + region_len r \<le> start" if g: "bt_get (regions s) b = Some r" and b: "b < first" for b r
    proof (cases "bt_last_lt (Suc start) (regions s)")
      case None
      then have "first = start" by (simp add: first_def bt_last_le_Suc)
      then show ?thesis using None g b by (fastforce simp: bt_last_lt_None [OF wf])
    next
      case (Some x)
      obtain c q where x: "x = (c, q)" by (cases x)
      then have c: "first = c" "bt_get (regions s) c = Some q" "c \<le> start"
        using Some bt_last_lt_get [OF wf, of "Suc start" c q] by (simp_all add: first_def bt_last_le_Suc)
      then show ?thesis using spc.apartD [of "regions s", OF _ g c(2)] b assms(1) by (simp add: space_ok_def)
    qed
    have mem: "r \<in> set ?rs \<longleftrightarrow> (\<exists>b. bt_get (regions s) b = Some r \<and> first \<le> b)" for r
      by (force simp: bt_range_ge_def bt_get_mem [OF wf])
    have same: "free_start len ?a ?rs x \<longleftrightarrow> ?P x" if "start \<le> x" for x
    proof -
      have "\<not> overlaps x len r" if "bt_get (regions s) b = Some r" "b < first" for b r
        using skip [OF that] space_okD(1) [OF assms(1) that(1)] \<open>start \<le> x\<close> by (simp add: overlaps_def)
      then have "(\<forall>r \<in> set ?rs. \<not> overlaps x len r) \<longleftrightarrow> holder_of x len s = None"
        unfolding holder_of_None_iff [OF assms(1)] using mem by (metis not_le)
      then show ?thesis by (simp add: free_start_def)
    qed
    have "least_from ?P hint (free_walk len ?a ?rs start)"
      using st(1) same next_multiple_least [OF Some] by (intro least_from_mono [OF least]) auto
    then show ?thesis using Some by (simp add: first_free_at_or_above_def first_def Let_def)
  qed
qed

section \<open>Properties\<close>


text \<open>A host that places everything below the top, and a space with one region.\<close>

definition willing_host :: host_call where
  "willing_host base len p = (if base + len \<le> U64_MAX then None else Some (HostRefused ''out of range''))"

definition demo_space :: AddressSpace where
  "demo_space = snd (reserve willing_host 0x10000 0x4000 READ_WRITE address_space_new)"

lemma willing_host_in_range: "host_in_range willing_host"
  by (simp add: host_in_range_def willing_host_def)

lemma demo_space_reachable: "space_reachable willing_host willing_host demo_space"
  unfolding demo_space_def
  by (rule space_reachable.reserve [OF space_reachable.start]) (rule prod.collapse [symmetric])

lemma demo_space_eval:
  "regions demo_space = [(0x10000, \<lparr>region_base = 0x10000, region_len = 0x4000, region_protection = READ_WRITE\<rparr>)]"
  by (simp add: demo_space_def reserve_def validate_def holder_of_def address_space_new_def bt_last_lt_def
      last_of_def GUEST_PAGE_SIZE_def willing_host_def Let_def)

lemma demo_space_ok: "space_ok demo_space"
  using space_reachable_ok [OF willing_host_in_range demo_space_reachable] ..


text \<open>The one-lookup conflict test is exact: it answers nothing precisely when no region shares
  a byte with the range, also where the range would run past the end of the address space, and
  what it answers is a region of the space that does share one.\<close>

theorem holder_of_exact:
  assumes "space_ok s"
  shows "(holder_of base len s = None \<longleftrightarrow>
      (\<forall>b r. bt_get (regions s) b = Some r \<longrightarrow> \<not> overlaps base len r)) \<and>
    (\<forall>r. holder_of base len s = Some r \<longrightarrow>
      bt_get (regions s) (region_base r) = Some r \<and> overlaps base len r)"
  using holder_of_None_iff [OF assms] holder_of_SomeD [OF assms] by blast

theorem holder_of_exact_witness:
  "holder_of 0x12000 0x8000 demo_space \<noteq> None \<and>
   \<not> (\<exists>b r. bt_get (regions demo_space) b = Some r \<and> overlaps 0x14000 0x1000 r)"
proof -
  have "holder_of 0x12000 0x8000 demo_space \<noteq> None" "holder_of 0x14000 0x1000 demo_space = None"
    by (simp_all add: holder_of_def demo_space_eval bt_last_lt_def last_of_def saturating_add_def)
  then show ?thesis using holder_of_exact [OF demo_space_ok, of "0x14000" "0x1000"] by blast
qed

text \<open>C3. A reservation succeeds exactly when the length is a nonzero number of pages, the base lies
  on a page, no region shares a byte with the range and the host places it; on success the new
  region is exactly the range asked for and every other region stays, and on failure no region
  changes and the failure is the one a report reads.\<close>

theorem reserve_exact:
  assumes "space_ok s"
  shows "case reserve hr base len p s of
      (Inr r, s') \<Rightarrow> 0 < len \<and> GUEST_PAGE_SIZE dvd len \<and> GUEST_PAGE_SIZE dvd base \<and>
        (\<forall>b q. bt_get (regions s) b = Some q \<longrightarrow> \<not> overlaps base len q) \<and> hr base len p = None \<and>
        bt_get (regions s') = (bt_get (regions s))(base \<mapsto> \<lparr>region_base = base, region_len = len, region_protection = p\<rparr>)
    | (Inl e, s') \<Rightarrow>
        (len = 0 \<or> \<not> GUEST_PAGE_SIZE dvd len \<or> \<not> GUEST_PAGE_SIZE dvd base \<or>
         (\<exists>b q. bt_get (regions s) b = Some q \<and> overlaps base len q) \<or> hr base len p = Some e) \<and>
        regions s' = regions s \<and> reserve_failures (failed s') = reserve_failures (failed s) + 1 \<and>
        (\<exists>f. last_reserve_failure (failed s') = Some f \<and> rf_base f = base \<and> rf_len f = len)"
proof -
  have logged: "\<exists>g. last_reserve_failure (note_reserve_failure base len e h f) = Some g \<and> rf_base g = base \<and> rf_len g = len"
    "reserve_failures (note_reserve_failure base len e h f) = reserve_failures f + 1" for e h f
    by (cases e; simp add: last_reserve_failure_def note_reserve_failure_def failure_reason_def reserve_failures_def)+
  have why: "len = 0 \<or> \<not> GUEST_PAGE_SIZE dvd len \<or> \<not> GUEST_PAGE_SIZE dvd base \<or>
         (\<exists>b q. bt_get (regions s) b = Some q \<and> overlaps base len q)" if "validate base len False s = Inl e" for e
    using that holder_of_None_iff [OF assms, of base len]
    by (auto simp: validate_def Let_def mod_eq_0_iff_dvd split: if_splits)
  show ?thesis
  proof (cases "validate base len False s")
    case (Inl e)
    then show ?thesis using why [OF Inl] logged by (simp add: reserve_def) blast
  next
    case (Inr u)
    then show ?thesis
      using validate_Inr(1-4) [OF Inr] holder_of_None_iff [OF assms, of base len] logged
      by (cases "hr base len p") (simp_all add: reserve_def Let_def bt_get_insert)
  qed
qed

theorem reserve_exact_witness:
  "fst (reserve willing_host 0x12000 0x1000 READ_ONLY demo_space) = Inl (Conflict 0x12000 0x1000) \<and>
   (\<exists>b q. bt_get (regions demo_space) b = Some q \<and> overlaps 0x12000 0x1000 q)"
proof -
  have r: "fst (reserve willing_host 0x12000 0x1000 READ_ONLY demo_space) = Inl (Conflict 0x12000 0x1000)"
    by (simp add: reserve_def validate_def holder_of_def demo_space_eval bt_last_lt_def last_of_def
        saturating_add_def GUEST_PAGE_SIZE_def)
  then show ?thesis
    using reserve_exact [OF demo_space_ok, where hr = willing_host and base = "0x12000" and len = "0x1000" and p = READ_ONLY]
    by (auto simp: case_prod_unfold GUEST_PAGE_SIZE_def willing_host_def)
qed

text \<open>The upward search for room is complete and minimal: what it answers is at or above the
  hint, aligned, fits below the end of the address space and shares no byte with a region, nothing
  smaller does, and it answers nothing only where nothing does.\<close>

theorem first_free_at_or_above_least:
  assumes "space_ok s" "0 < len"
  shows "case first_free_at_or_above hint len align s of
      Some x \<Rightarrow> hint \<le> x \<and> (max align 1 dvd x \<and> x + len \<le> U64_MAX \<and> holder_of x len s = None) \<and>
        (\<forall>y. hint \<le> y \<and> max align 1 dvd y \<and> y + len \<le> U64_MAX \<and> holder_of y len s = None \<longrightarrow> x \<le> y)
    | None \<Rightarrow> (\<forall>y. hint \<le> y \<longrightarrow> \<not> (max align 1 dvd y \<and> y + len \<le> U64_MAX \<and> holder_of y len s = None))"
  using first_free_least [OF assms, of align hint] by (auto simp: least_from_def split: option.splits)

theorem first_free_at_or_above_least_witness:
  "first_free_at_or_above 0x12345 0x1000 0x4000 demo_space = Some 0x14000 \<and>
   holder_of 0x14000 0x1000 demo_space = None"
proof -
  have "first_free_at_or_above 0x12345 0x1000 0x4000 demo_space = Some 0x14000"
    by (simp add: first_free_at_or_above_def demo_space_eval checked_next_multiple_of_def checked_add_def
        bt_last_le_def bt_range_ge_def last_of_def saturating_add_def)
  then show ?thesis
    using first_free_at_or_above_least [OF demo_space_ok, of "0x1000" "0x12345" "0x4000"] by simp
qed

text \<open>Releasing what was just reserved puts the regions back as they were, and a release of
  anything but a whole region does nothing.\<close>

theorem release_undoes_reserve:
  assumes "space_ok s" "reserve hr base len p s = (Inr r, s')"
  shows "fst (release base len s') \<and> regions (snd (release base len s')) = regions s \<and>
    (\<forall>n. n \<noteq> len \<longrightarrow> release base n s' = (False, s'))"
proof -
  have h: "validate base len False s = Inr ()" "regions s' = bt_insert base r (regions s)" "region_len r = len"
    using reserve_cases [OF assms(2)] by auto
  have wf: "bt_wf (regions s)" using assms(1) by (simp add: space_ok_def)
  have "bt_get (regions s) base = None" using validate_fresh [OF assms(1) h(1)] .
  then have "bt_get (bt_remove base (regions s')) = bt_get (regions s)"
    unfolding h(2) using bt.get_after_del_put [OF wf] by blast
  then have "bt_remove base (regions s') = regions s"
    using h(2) wf by (intro bt_ext) simp_all
  then show ?thesis using h(2,3) by (simp add: release_def bt_get_insert)
qed

theorem release_undoes_reserve_witness:
  "regions (snd (release 0x20000 0x1000 (snd (reserve willing_host 0x20000 0x1000 READ_ONLY demo_space)))) =
     regions demo_space"
proof -
  obtain r s' where r: "reserve willing_host 0x20000 0x1000 READ_ONLY demo_space = (Inr r, s')"
    by (simp add: reserve_def validate_def holder_of_def demo_space_eval bt_last_lt_def last_of_def
        saturating_add_def GUEST_PAGE_SIZE_def willing_host_def Let_def)
  then show ?thesis using release_undoes_reserve [OF demo_space_ok r] by simp
qed

end
