(* ===== verification/Direct_Memory.thy ===== *)
theory Direct_Memory
  imports Address_Space
begin

text \<open>
  The physical range a guest allocates from (\<^verbatim>\<open>orbistoun-kernel/src/direct.rs\<close>): a list of spans
  in address order, each free or taken, the layouts a guest may be started with, and the flexible
  memory budget beside it.

  The abstract view of the range is \<open>byte_at\<close>, what each byte belongs to. The lemmas show that an
  allocation is the least aligned start whose bytes are all free and changes exactly its own bytes;
  that a release gives exactly them back and leaves the list as it was; that the free total is
  conserved; and that a guest's walk over the map meets every span once and ends.
\<close>

definition DIRECT_MEMORY_SIZE :: u64 where
  "DIRECT_MEMORY_SIZE = 0x300000000"

definition FLEXIBLE_MEMORY_SIZE :: u64 where
  "FLEXIBLE_MEMORY_SIZE = 0x1b400000"

definition FLEXIBLE_CONFIGURED :: u64 where
  "FLEXIBLE_CONFIGURED = 0x1c000000"

definition FLEXIBLE_SYSTEM_SHARE :: u64 where
  "FLEXIBLE_SYSTEM_SHARE = FLEXIBLE_CONFIGURED - FLEXIBLE_MEMORY_SIZE"

definition DIRECT_ALIGN :: u64 where
  "DIRECT_ALIGN = DIRECT_MEMORY_ALIGN"

definition RESERVED_LOW :: u64 where
  "RESERVED_LOW = 0x10000"

section \<open>Spans and the map\<close>

record span =
  span_start :: u64
  span_end :: u64
  allocated :: bool
  memory_type :: "32 word"

definition span_len :: "span \<Rightarrow> u64" where
  "span_len r = saturating_sub (span_end r) (span_start r)"

definition span_is_empty :: "span \<Rightarrow> bool" where
  "span_is_empty r = (span_end r \<le> span_start r)"

definition span_taken :: "u64 \<Rightarrow> u64 \<Rightarrow> span" where
  "span_taken s e = \<lparr>span_start = s, span_end = e, allocated = True, memory_type = 0\<rparr>"

definition span_free :: "u64 \<Rightarrow> u64 \<Rightarrow> span" where
  "span_free s e = \<lparr>span_start = s, span_end = e, allocated = False, memory_type = 0\<rparr>"

record DirectMemory =
  spans :: "span list"

datatype MapShape = Whole | ReservedLow | Fragmented | Gapped

definition shape_named :: "string \<Rightarrow> MapShape option" where
  "shape_named text =
     (if text = ''whole'' then Some Whole
      else if text = ''reserved-low'' then Some ReservedLow
      else if text = ''fragmented'' then Some Fragmented
      else if text = ''gapped'' then Some Gapped
      else None)"

fun shape_regions :: "MapShape \<Rightarrow> u64 \<Rightarrow> span list" where
  "shape_regions Whole bytes = [span_free 0 bytes]"
| "shape_regions ReservedLow bytes =
     (let low = min RESERVED_LOW bytes
      in if low = 0 \<or> low \<ge> bytes then [span_free 0 bytes]
         else [span_taken 0 low, span_free low bytes])"
| "shape_regions Gapped bytes =
     (let block = bytes div 8
      in if block = 0 \<or> block * 6 \<ge> bytes then [span_free 0 bytes]
         else [span_free 0 (block * 2), span_free (block * 4) bytes])"
| "shape_regions Fragmented bytes =
     (let low = min RESERVED_LOW bytes; block = bytes div 8
      in if low = 0 \<or> block = 0 \<or> low + block * 4 \<ge> bytes then [span_free 0 bytes]
         else [span_taken 0 low, span_free low (low + block * 2),
               span_taken (low + block * 2) (low + block * 3), span_free (low + block * 3) bytes])"

definition with_shape :: "u64 \<Rightarrow> MapShape \<Rightarrow> DirectMemory" where
  "with_shape bytes shape = \<lparr>spans = shape_regions shape bytes\<rparr>"

definition direct_memory_new :: "u64 \<Rightarrow> DirectMemory" where
  "direct_memory_new bytes = with_shape bytes Whole"

definition query :: "u64 \<Rightarrow> DirectMemory \<Rightarrow> span option" where
  "query offset d = find (\<lambda>r. span_end r > offset \<and> \<not> span_is_empty r) (spans d)"

text \<open>The up to three spans that take a free one's place.\<close>

definition split_span :: "span \<Rightarrow> u64 \<Rightarrow> u64 \<Rightarrow> 32 word \<Rightarrow> span list" where
  "split_span r s e ty = filter (\<lambda>x. \<not> span_is_empty x)
     [\<lparr>span_start = span_start r, span_end = s, allocated = False, memory_type = 0\<rparr>,
      \<lparr>span_start = s, span_end = e, allocated = True, memory_type = ty\<rparr>,
      \<lparr>span_start = e, span_end = span_end r, allocated = False, memory_type = 0\<rparr>]"

definition allocate :: "u64 \<Rightarrow> u64 \<Rightarrow> 32 word \<Rightarrow> DirectMemory \<Rightarrow> u64 option \<times> DirectMemory" where
  "allocate search_start len0 ty d =
     (case checked_next_multiple_of len0 DIRECT_ALIGN of
        None \<Rightarrow> (None, d)
      | Some len \<Rightarrow>
          if len = 0 then (None, d)
          else (case position (\<lambda>r. \<not> allocated r \<and>
                  saturating_sub (span_end r) (max (span_start r) search_start) \<ge> len) (spans d) of
                  None \<Rightarrow> (None, d)
                | Some index \<Rightarrow>
                    (let region = spans d ! index
                     in case checked_next_multiple_of (max (span_start region) search_start) DIRECT_ALIGN of
                          None \<Rightarrow> (None, d)
                        | Some start \<Rightarrow>
                            (case checked_add start len of
                               None \<Rightarrow> (None, d)
                             | Some end \<Rightarrow>
                                 if end > span_end region then (None, d)
                                 else (Some start,
                                   d\<lparr>spans := take index (spans d) @ split_span region start end ty @
                                              drop (Suc index) (spans d)\<rparr>)))))"

text \<open>The loop of \<open>allocate_aligned_from\<close>: it goes on past a span that cannot hold the request, so
  the spans that end past the search start become fewer each time round.\<close>

definition next_free :: "u64 \<Rightarrow> span list \<Rightarrow> span option" where
  "next_free search rs = find (\<lambda>r. \<not> allocated r \<and> span_end r > search \<and> \<not> span_is_empty r) rs"

lemma next_free_Some:
  "next_free search rs = Some r \<Longrightarrow>
     r \<in> set rs \<and> \<not> allocated r \<and> search < span_end r \<and> span_start r < span_end r"
  by (auto simp: next_free_def find_Some_iff span_is_empty_def)

function aligned_search ::
  "u64 \<Rightarrow> u64 \<Rightarrow> u64 \<Rightarrow> 32 word \<Rightarrow> DirectMemory \<Rightarrow> u64 option \<times> DirectMemory" where
  "aligned_search search len align ty d =
     (case next_free search (spans d) of
        None \<Rightarrow> (None, d)
      | Some region \<Rightarrow>
          (case checked_next_multiple_of (max (span_start region) search) align of
             None \<Rightarrow> (None, d)
           | Some start \<Rightarrow>
               (case checked_next_multiple_of len DIRECT_ALIGN of
                  None \<Rightarrow> (None, d)
                | Some len' \<Rightarrow>
                    (case checked_add start len' of
                       None \<Rightarrow> (None, d)
                     | Some end \<Rightarrow>
                         if end \<le> span_end region then allocate start len ty d
                         else aligned_search (span_end region) len align ty d))))"
  by pat_completeness auto
termination
proof (relation "measure (\<lambda>(search, len, align, ty, d). length (filter (\<lambda>r. span_end r > search) (spans d)))")
  fix search len align ty d region
  assume "next_free search (spans (d :: DirectMemory)) = Some region"
  then have r: "region \<in> set (spans d)" "search < span_end region" by (auto dest: next_free_Some)
  have "filter (\<lambda>r. span_end r > span_end region) (spans d) =
      filter (\<lambda>r. span_end r > span_end region) (filter (\<lambda>r. span_end r > search) (spans d))"
    using r(2) by (induction "spans d") (auto simp: filter_filter intro!: filter_cong)
  also have "length \<dots> < length (filter (\<lambda>r. span_end r > search) (spans d))"
    using r by (intro length_filter_less [of region]) auto
  finally show "((span_end region, len, align, ty, d), search, len, align, ty, d)
      \<in> measure (\<lambda>(search, len, align, ty, d). length (filter (\<lambda>r. span_end r > search) (spans d)))"
    by simp
qed simp_all

declare aligned_search.simps [simp del]

definition allocate_aligned_from ::
  "u64 \<Rightarrow> u64 \<Rightarrow> u64 \<Rightarrow> 32 word \<Rightarrow> DirectMemory \<Rightarrow> u64 option \<times> DirectMemory" where
  "allocate_aligned_from search_start len align0 ty d =
     (let align = max align0 DIRECT_ALIGN
      in if \<not> is_power_of_two align then (None, d)
         else aligned_search search_start len align ty d)"

definition allocate_aligned :: "u64 \<Rightarrow> u64 \<Rightarrow> 32 word \<Rightarrow> DirectMemory \<Rightarrow> u64 option \<times> DirectMemory" where
  "allocate_aligned len align ty d = allocate_aligned_from 0 len align ty d"

text \<open>The loop of \<open>merge_free\<close>, with what is merged so far in reverse.\<close>

fun merge_step :: "span \<Rightarrow> span list \<Rightarrow> span list" where
  "merge_step region [] = [region]"
| "merge_step region (previous # merged) =
     (if \<not> allocated previous \<and> \<not> allocated region \<and> span_end previous = span_start region
      then previous\<lparr>span_end := span_end region\<rparr> # merged
      else region # previous # merged)"

definition merge_free :: "span list \<Rightarrow> span list" where
  "merge_free rs = rev (fold merge_step rs [])"

definition release_direct :: "u64 \<Rightarrow> u64 \<Rightarrow> DirectMemory \<Rightarrow> bool \<times> DirectMemory" where
  "release_direct start len d =
     (let end = saturating_add start len
      in case position (\<lambda>r. allocated r \<and> span_start r = start \<and> span_end r = end) (spans d) of
           None \<Rightarrow> (False, d)
         | Some index \<Rightarrow>
             (True, d\<lparr>spans := merge_free
               ((spans d)[index := (spans d ! index)\<lparr>allocated := False, memory_type := 0\<rparr>])\<rparr>))"

definition available :: "DirectMemory \<Rightarrow> u64" where
  "available d = sum_list (map span_len (filter (\<lambda>r. \<not> allocated r) (spans d)))"

definition largest_free_at :: "u64 \<Rightarrow> DirectMemory \<Rightarrow> u64" where
  "largest_free_at align d =
     (if \<not> is_power_of_two align then 0
      else fold max (List.map_filter (\<lambda>r. case checked_next_multiple_of (span_start r) align of
              None \<Rightarrow> None | Some s \<Rightarrow> checked_sub (span_end r) s)
            (filter (\<lambda>r. \<not> allocated r) (spans d))) 0)"

section \<open>Settings and the flexible budget\<close>

record Settings =
  map_direct_memory :: bool
  map_shape :: MapShape
  pool_bytes :: u64
  flexible_bytes :: u64

definition settings_default :: Settings where
  "settings_default =
     \<lparr>map_direct_memory = True, map_shape = ReservedLow, pool_bytes = DIRECT_MEMORY_SIZE,
      flexible_bytes = FLEXIBLE_CONFIGURED\<rparr>"

definition fitted :: "Settings \<Rightarrow> u64 \<Rightarrow> Settings" where
  "fitted s flexible =
     (let total = saturating_add (pool_bytes s) (flexible_bytes s)
      in case checked_sub total flexible of
           None \<Rightarrow> s
         | Some p \<Rightarrow> s\<lparr>pool_bytes := p, flexible_bytes := flexible\<rparr>)"

text \<open>The process-wide settings, the map once a guest call has built it, and the flexible bytes
  mapped.\<close>

record direct_state =
  ds_settings :: Settings
  ds_map :: "DirectMemory option"
  flexible_mapped :: u64

definition configure :: "Settings \<Rightarrow> direct_state \<Rightarrow> direct_state" where
  "configure new g = g\<lparr>ds_settings := new\<rparr>"

definition fit_title :: "u64 \<Rightarrow> direct_state \<Rightarrow> bool \<times> direct_state" where
  "fit_title flexible g =
     (if ds_map g \<noteq> None then (False, g)
      else (True, configure (fitted (ds_settings g) flexible) g))"

definition direct_map :: "direct_state \<Rightarrow> DirectMemory \<times> direct_state" where
  "direct_map g =
     (case ds_map g of
        Some d \<Rightarrow> (d, g)
      | None \<Rightarrow>
          (let d = with_shape (pool_bytes (ds_settings g)) (map_shape (ds_settings g))
           in (d, g\<lparr>ds_map := Some d\<rparr>)))"

definition flexible_configured :: "direct_state \<Rightarrow> u64" where
  "flexible_configured g = flexible_bytes (ds_settings g)"

definition flexible_available :: "direct_state \<Rightarrow> u64" where
  "flexible_available g =
     saturating_sub (saturating_sub (flexible_configured g) FLEXIBLE_SYSTEM_SHARE) (flexible_mapped g)"

definition record_flexible_map :: "u64 \<Rightarrow> direct_state \<Rightarrow> direct_state" where
  "record_flexible_map len g = g\<lparr>flexible_mapped := wrapping_add (flexible_mapped g) len\<rparr>"

definition record_flexible_release :: "u64 \<Rightarrow> direct_state \<Rightarrow> direct_state" where
  "record_flexible_release len g = g\<lparr>flexible_mapped := saturating_sub (flexible_mapped g) len\<rparr>"

section \<open>What each byte belongs to\<close>

fun byte_at :: "span list \<Rightarrow> u64 \<Rightarrow> (bool \<times> 32 word) option" where
  "byte_at [] a = None"
| "byte_at (r # rs) a =
     (if span_start r \<le> a \<and> a < span_end r then Some (allocated r, memory_type r) else byte_at rs a)"

definition free_at :: "DirectMemory \<Rightarrow> u64 \<Rightarrow> bool" where
  "free_at d a \<longleftrightarrow> (\<exists>ty. byte_at (spans d) a = Some (False, ty))"

text \<open>Spans from \<open>lo\<close> on: in order, none empty, on 16 KiB boundaries.\<close>

fun chain :: "u64 \<Rightarrow> span list \<Rightarrow> bool" where
  "chain lo [] = True"
| "chain lo (r # rs) \<longleftrightarrow> lo \<le> span_start r \<and> span_start r < span_end r \<and>
     DIRECT_ALIGN dvd span_start r \<and> DIRECT_ALIGN dvd span_end r \<and> span_end r \<le> U64_MAX \<and>
     chain (span_end r) rs"

fun chain_end :: "u64 \<Rightarrow> span list \<Rightarrow> u64" where
  "chain_end lo [] = lo"
| "chain_end lo (r # rs) = chain_end (span_end r) rs"

definition unmerged :: "span \<Rightarrow> span \<Rightarrow> bool" where
  "unmerged r q \<longleftrightarrow> \<not> allocated r \<and> \<not> allocated q \<and> span_end r = span_start q"

text \<open>Free neighbours are always one span, and a free span has no memory type.\<close>

definition dm_ok :: "DirectMemory \<Rightarrow> bool" where
  "dm_ok d \<longleftrightarrow> chain 0 (spans d) \<and> successively (\<lambda>r q. \<not> unmerged r q) (spans d) \<and>
     (\<forall>r \<in> set (spans d). \<not> allocated r \<longrightarrow> memory_type r = 0)"

lemma chain_append: "chain lo (xs @ ys) \<longleftrightarrow> chain lo xs \<and> chain (chain_end lo xs) ys"
  by (induction xs arbitrary: lo) auto

lemma chain_mono: "chain lo xs \<Longrightarrow> lo' \<le> lo \<Longrightarrow> chain lo' xs"
  by (cases xs) auto

lemma chain_end_ge: "chain lo xs \<Longrightarrow> lo \<le> chain_end lo xs"
proof (induction xs arbitrary: lo)
  case Nil
  then show ?case by simp
next
  case (Cons r xs)
  then have "span_end r \<le> chain_end (span_end r) xs" by auto
  then show ?case using Cons.prems by simp
qed

lemma chain_mem:
  assumes "chain lo xs" "r \<in> set xs"
  shows "lo \<le> span_start r" "span_start r < span_end r" "span_end r \<le> chain_end lo xs"
    "DIRECT_ALIGN dvd span_start r" "DIRECT_ALIGN dvd span_end r" "span_end r \<le> U64_MAX"
proof -
  obtain ys zs where xs: "xs = ys @ r # zs" using assms(2) by (meson split_list)
  have c: "chain lo ys" "chain (chain_end lo ys) (r # zs)" using assms(1) xs by (simp_all add: chain_append)
  show "lo \<le> span_start r" using chain_end_ge [OF c(1)] c(2) by simp
  show "span_start r < span_end r" "DIRECT_ALIGN dvd span_start r" "DIRECT_ALIGN dvd span_end r" "span_end r \<le> U64_MAX"
    using c(2) by simp_all
  have "chain_end lo xs = chain_end (span_end r) zs"
    unfolding xs by (induction ys arbitrary: lo) auto
  then show "span_end r \<le> chain_end lo xs" using c(2) chain_end_ge [of "span_end r" zs] by simp
qed

lemma byte_at_append:
  "byte_at (xs @ ys) a = (case byte_at xs a of Some v \<Rightarrow> Some v | None \<Rightarrow> byte_at ys a)"
  by (induction xs) auto

lemma byte_at_range: "chain lo xs \<Longrightarrow> byte_at xs a = Some v \<Longrightarrow> lo \<le> a \<and> a < chain_end lo xs"
proof (induction xs arbitrary: lo)
  case Nil
  then show ?case by simp
next
  case (Cons r xs)
  show ?case
  proof (cases "span_start r \<le> a \<and> a < span_end r")
    case True
    then show ?thesis using Cons.prems chain_end_ge [of "span_end r" xs] by auto
  next
    case False
    then show ?thesis using Cons.prems Cons.IH [of "span_end r"] by auto
  qed
qed

lemma byte_at_member:
  assumes "chain lo xs" "r \<in> set xs" "span_start r \<le> a" "a < span_end r"
  shows "byte_at xs a = Some (allocated r, memory_type r)"
  using assms
proof (induction xs arbitrary: lo)
  case Nil
  then show ?case by simp
next
  case (Cons q xs)
  show ?case
  proof (cases "r = q")
    case True
    then show ?thesis using Cons.prems by simp
  next
    case False
    then have "r \<in> set xs" "chain (span_end q) xs" using Cons.prems by auto
    moreover have "span_end q \<le> a" using chain_mem(1) [OF calculation(2,1)] Cons.prems(3) by simp
    ultimately show ?thesis using Cons.IH Cons.prems(3,4) by auto
  qed
qed

text \<open>A stretch of free bytes lies in one span.\<close>

lemma free_stretch:
  assumes "chain lo xs" "successively (\<lambda>r q. \<not> unmerged r q) xs" "0 < len"
    "\<And>a. x \<le> a \<Longrightarrow> a < x + len \<Longrightarrow> \<exists>ty. byte_at xs a = Some (False, ty)"
  shows "\<exists>r \<in> set xs. \<not> allocated r \<and> span_start r \<le> x \<and> x + len \<le> span_end r"
  using assms
proof (induction xs arbitrary: lo)
  case Nil
  then show ?case using Nil.prems(4) [of x] by simp
next
  case (Cons r xs)
  have c: "chain (span_end r) xs" using Cons.prems(1) by simp
  have low: "span_end r \<le> a" if "byte_at xs a = Some v" for a v using byte_at_range [OF c that] by simp
  show ?case
  proof (cases "x < span_end r")
    case True
    then obtain ty where "byte_at (r # xs) x = Some (False, ty)" using Cons.prems(3) Cons.prems(4) [of x] by auto
    then have r: "\<not> allocated r" "span_start r \<le> x"
      using True low by (fastforce split: if_splits)+
    have "x + len \<le> span_end r"
    proof (rule ccontr)
      assume "\<not> x + len \<le> span_end r"
      then obtain ty where b: "byte_at xs (span_end r) = Some (False, ty)"
        using Cons.prems(4) [of "span_end r"] True by auto
      then obtain q ys where q: "xs = q # ys" by (cases xs) auto
      have "span_start q = span_end r \<and> \<not> allocated q"
      proof (cases "span_start q \<le> span_end r \<and> span_end r < span_end q")
        case True
        then show ?thesis using b q c by auto
      next
        case False
        then have "byte_at ys (span_end r) = Some (False, ty)" using b q by auto
        then show ?thesis using byte_at_range [of "span_end q" ys] c q by fastforce
      qed
      then show False using Cons.prems(2) q r by (simp add: unmerged_def)
    qed
    then show ?thesis using r by auto
  next
    case False
    have "\<exists>q \<in> set xs. \<not> allocated q \<and> span_start q \<le> x \<and> x + len \<le> span_end q"
    proof (rule Cons.IH [OF c _ Cons.prems(3)])
      show "successively (\<lambda>r q. \<not> unmerged r q) xs" using Cons.prems(2) by (cases xs) auto
      fix a assume "x \<le> a" "a < x + len"
      then show "\<exists>ty. byte_at xs a = Some (False, ty)" using Cons.prems(4) [of a] False by auto
    qed
    then show ?thesis by auto
  qed
qed

definition place :: "DirectMemory \<Rightarrow> u64 \<Rightarrow> u64 \<Rightarrow> bool" where
  "place d len x \<longleftrightarrow> (\<exists>r \<in> set (spans d). \<not> allocated r \<and> span_start r \<le> x \<and> x + len \<le> span_end r)"

lemma place_iff:
  assumes "dm_ok d" "0 < len"
  shows "place d len x \<longleftrightarrow> (\<forall>a. x \<le> a \<and> a < x + len \<longrightarrow> free_at d a)"
proof
  assume "place d len x"
  then obtain r where r: "r \<in> set (spans d)" "\<not> allocated r" "span_start r \<le> x" "x + len \<le> span_end r"
    by (auto simp: place_def)
  have c: "chain 0 (spans d)" using assms(1) by (simp add: dm_ok_def)
  show "\<forall>a. x \<le> a \<and> a < x + len \<longrightarrow> free_at d a"
    using byte_at_member [OF c r(1)] r(2-4) by (auto simp: free_at_def)
next
  assume "\<forall>a. x \<le> a \<and> a < x + len \<longrightarrow> free_at d a"
  then show "place d len x"
    using assms free_stretch [of 0 "spans d" len x] by (auto simp: place_def dm_ok_def free_at_def)
qed

section \<open>Taking a piece of a free span\<close>

lemma split_span_eq:
  assumes "span_start r \<le> s" "s < e" "e \<le> span_end r"
  shows "split_span r s e ty =
     (if span_start r < s then [span_free (span_start r) s] else []) @
     \<lparr>span_start = s, span_end = e, allocated = True, memory_type = ty\<rparr> #
     (if e < span_end r then [span_free e (span_end r)] else [])"
  using assms by (auto simp: split_span_def span_is_empty_def span_free_def)

lemma dm_ok_split:
  assumes "dm_ok d" "spans d = xs @ r # ys" "\<not> allocated r" "span_start r \<le> s" "s < e" "e \<le> span_end r"
    "DIRECT_ALIGN dvd s" "DIRECT_ALIGN dvd e"
  shows "dm_ok (d\<lparr>spans := xs @ split_span r s e ty @ ys\<rparr>)"
proof -
  have c: "chain 0 xs" "chain (chain_end 0 xs) (r # ys)"
    and su: "successively (\<lambda>r q. \<not> unmerged r q) (xs @ r # ys)"
    and ty: "\<forall>r \<in> set (xs @ r # ys). \<not> allocated r \<longrightarrow> memory_type r = 0"
    using assms(1,2) by (simp_all add: dm_ok_def chain_append)
  have "chain (chain_end 0 xs) (split_span r s e ty @ ys)"
    unfolding split_span_eq [OF assms(4-6)] using c(2) assms(4-8)
    by (auto simp: span_free_def intro: chain_mono)
  moreover have "successively (\<lambda>r q. \<not> unmerged r q) (xs @ split_span r s e ty @ ys)"
    unfolding split_span_eq [OF assms(4-6)] using su assms(3-6)
    by (auto simp: successively_append_iff successively_Cons span_free_def unmerged_def)
  moreover have "\<forall>r \<in> set (split_span r s e ty). \<not> allocated r \<longrightarrow> memory_type r = 0"
    unfolding split_span_eq [OF assms(4-6)] by (auto simp: span_free_def)
  ultimately show ?thesis using c ty by (auto simp: dm_ok_def chain_append)
qed

lemma byte_at_split:
  assumes "dm_ok d" "spans d = xs @ r # ys" "\<not> allocated r" "span_start r \<le> s" "s < e" "e \<le> span_end r"
  shows "byte_at (xs @ split_span r s e ty @ ys) a =
    (if s \<le> a \<and> a < e then Some (True, ty) else byte_at (spans d) a)"
proof -
  have c: "chain 0 xs" "chain (chain_end 0 xs) (r # ys)" and ty: "memory_type r = 0"
    using assms(1-3) by (simp_all add: dm_ok_def chain_append)
  have lo: "byte_at xs a = Some v \<Longrightarrow> a < span_start r" for v
    using byte_at_range [OF c(1)] c(2) by fastforce
  have hi: "byte_at ys a = Some v \<Longrightarrow> span_end r \<le> a" for v
    using byte_at_range [of "span_end r" ys a v] c(2) by simp
  show ?thesis
    unfolding split_span_eq [OF assms(4-6)] assms(2) using lo hi assms(3-6) ty
    by (auto simp: byte_at_append span_free_def split: option.splits)
qed

lemma available_split:
  assumes "spans d = xs @ r # ys" "\<not> allocated r" "span_start r \<le> s" "s < e" "e \<le> span_end r"
  shows "available (d\<lparr>spans := xs @ split_span r s e ty @ ys\<rparr>) + (e - s) = available d"
  unfolding available_def assms(1) split_span_eq [OF assms(3-5)] using assms(2-5)
  by (auto simp: span_len_def saturating_sub_def span_free_def)

section \<open>Allocation finds the least place\<close>

lemma DIRECT_ALIGN_pos [simp]: "0 < DIRECT_ALIGN"
  by (simp add: DIRECT_ALIGN_def DIRECT_MEMORY_ALIGN_def)

text \<open>What a successful allocation of \<open>len\<close> rounded bytes at \<open>s\<close> did.\<close>

definition took :: "DirectMemory \<Rightarrow> u64 \<Rightarrow> u64 \<Rightarrow> 32 word \<Rightarrow> DirectMemory \<Rightarrow> bool" where
  "took d s len ty d' \<longleftrightarrow> DIRECT_ALIGN dvd s \<and>
     (\<exists>xs r ys. spans d = xs @ r # ys \<and> \<not> allocated r \<and> span_start r \<le> s \<and> s + len \<le> span_end r \<and>
       d' = d\<lparr>spans := xs @ split_span r s (s + len) ty @ ys\<rparr>)"

lemma chain_before:
  assumes "chain 0 (xs @ r # ys)"
  shows "q \<in> set xs \<Longrightarrow> span_end q \<le> span_start r" "q \<in> set ys \<Longrightarrow> span_end r \<le> span_start q"
    "span_start r < span_end r" "DIRECT_ALIGN dvd span_start r" "DIRECT_ALIGN dvd span_end r" "span_end r \<le> U64_MAX"
proof -
  have c: "chain 0 xs" "chain (chain_end 0 xs) (r # ys)" using assms by (simp_all add: chain_append)
  show "span_end q \<le> span_start r" if "q \<in> set xs" using chain_mem(3) [OF c(1) that] c(2) by simp
  show "span_end r \<le> span_start q" if "q \<in> set ys" using chain_mem(1) [OF _ that] c(2) by simp
qed (use assms in \<open>simp_all add: chain_append\<close>)

lemma allocate_least:
  assumes "dm_ok d" "checked_next_multiple_of len0 DIRECT_ALIGN = Some len" "0 < len"
  shows "least_from (\<lambda>x. DIRECT_ALIGN dvd x \<and> place d len x) search (fst (allocate search len0 ty d))"
    "allocate search len0 ty d = (Some s, d') \<Longrightarrow> took d s len ty d'"
    "fst (allocate search len0 ty d) = None \<Longrightarrow> snd (allocate search len0 ty d) = d"
proof -
  let ?cap = "\<lambda>r. \<not> allocated r \<and> saturating_sub (span_end r) (max (span_start r) search) \<ge> len"
  let ?P = "\<lambda>x. DIRECT_ALIGN dvd x \<and> place d len x"
  have c: "chain 0 (spans d)" using assms(1) by (simp add: dm_ok_def)
  have cap: "?cap q" if "\<not> allocated q" "span_start q \<le> x" "x + len \<le> span_end q" "search \<le> x" for q x
    using that by (auto simp: saturating_sub_def)
  have "least_from ?P search (fst (allocate search len0 ty d)) \<and>
    (\<forall>s d'. allocate search len0 ty d = (Some s, d') \<longrightarrow> took d s len ty d') \<and>
    (fst (allocate search len0 ty d) = None \<longrightarrow> snd (allocate search len0 ty d) = d)"
  proof (cases "position ?cap (spans d)")
    case None
    then have "\<not> ?P x" if "search \<le> x" for x
      using cap that by (auto simp: position_None place_def)
    then show ?thesis using None assms(2,3) by (simp add: allocate_def least_from_def)
  next
    case (Some i)
    obtain xs r ys where xs: "spans d = xs @ r # ys" "i = length xs" "?cap r" "\<forall>y \<in> set xs. \<not> ?cap y"
      using position_split [OF Some] by blast
    note b = chain_before [OF c [unfolded xs(1)]]
    have top: "max (span_start r) search \<le> span_end r - len" "len \<le> span_end r"
      using xs(3) assms(3) by (auto simp: saturating_sub_def)
    have al: "DIRECT_ALIGN dvd span_end r - len"
      using b(5) next_multiple_Some(2) [OF assms(2)] by (rule dvd_diff_nat)
    obtain s where s: "checked_next_multiple_of (max (span_start r) search) DIRECT_ALIGN = Some s"
      using next_multiple_None [OF _ DIRECT_ALIGN_pos top(1) al] b(6)
      by (cases "checked_next_multiple_of (max (span_start r) search) DIRECT_ALIGN") auto
    have s_le: "s \<le> span_end r - len" using next_multiple_least [OF s top(1) al] .
    then have fits: "s + len \<le> span_end r" using top(2) by simp
    note sp = next_multiple_Some [OF s]
    have res: "allocate search len0 ty d = (Some s, d\<lparr>spans := xs @ split_span r s (s + len) ty @ ys\<rparr>)"
    proof -
      have "checked_add s len = Some (s + len)" using fits b(6) by (simp add: checked_add_def)
      then show ?thesis
        using Some xs(1,2) s fits assms(2,3) by (simp add: allocate_def del: checked_add_Some)
    qed
    have "s \<le> x" if x: "search \<le> x" "?P x" for x
    proof -
      obtain q where q: "q \<in> set (spans d)" "\<not> allocated q" "span_start q \<le> x" "x + len \<le> span_end q"
        using x(2) by (auto simp: place_def)
      then have "q \<notin> set xs" using xs(4) cap [OF q(2-4) x(1)] by blast
      then consider "q = r" | "q \<in> set ys" using q(1) xs(1) by auto
      then show ?thesis
      proof cases
        case 1
        then show ?thesis using next_multiple_least [OF s, of x] q(3) x by simp
      next
        case 2
        then show ?thesis using b(2) [of q] q(3) fits by simp
      qed
    qed
    moreover have "?P s" using sp(1,2) fits xs(1,3) by (auto simp: place_def)
    moreover have "search \<le> s" using sp(1) by simp
    ultimately show ?thesis
      using res sp(1,2) fits xs(1,3) by (auto simp: least_from_def took_def)
  qed
  then show "least_from ?P search (fst (allocate search len0 ty d))"
    "allocate search len0 ty d = (Some s, d') \<Longrightarrow> took d s len ty d'"
    "fst (allocate search len0 ty d) = None \<Longrightarrow> snd (allocate search len0 ty d) = d" by blast+
qed

lemma aligned_search_least:
  assumes "dm_ok d" "checked_next_multiple_of len0 DIRECT_ALIGN = Some len" "0 < len"
    "DIRECT_ALIGN dvd align" "0 < align"
  shows "least_from (\<lambda>x. align dvd x \<and> place d len x) search (fst (aligned_search search len0 align ty d)) \<and>
    (\<forall>s d'. aligned_search search len0 align ty d = (Some s, d') \<longrightarrow> took d s len ty d') \<and>
    (fst (aligned_search search len0 align ty d) = None \<longrightarrow> snd (aligned_search search len0 align ty d) = d)"
  using assms
proof (induction search len0 align ty d rule: aligned_search.induct)
  case (1 search len0 align ty d)
  let ?P = "\<lambda>x. align dvd x \<and> place d len x"
  note unf = aligned_search.simps [of search len0 align ty d]
  have c: "chain 0 (spans d)" using 1 by (simp add: dm_ok_def)
  show ?case
  proof (cases "next_free search (spans d)")
    case None
    have "\<not> ?P x" if "search \<le> x" for x
    proof
      assume "?P x"
      then obtain q where q: "q \<in> set (spans d)" "\<not> allocated q" "x + len \<le> span_end q"
        by (auto simp: place_def)
      have "span_start q < span_end q" using chain_mem(2) [OF c q(1)] by simp
      moreover have "search < span_end q" using q(3) that 1(4) by linarith
      ultimately show False using None q(1,2) by (auto simp: next_free_def find_None_iff span_is_empty_def)
    qed
    then show ?thesis unfolding unf using None by (simp add: least_from_def)
  next
    case (Some r)
    obtain xs ys where xs: "spans d = xs @ r # ys" "\<not> allocated r" "search < span_end r"
      "\<forall>y \<in> set xs. allocated y \<or> span_end y \<le> search \<or> span_is_empty y"
      using find_split [OF Some [unfolded next_free_def]] by fastforce
    note b = chain_before [OF c [unfolded xs(1)]]
    have where_x: "max (span_start r) search \<le> x \<and> x + len \<le> U64_MAX \<and> (x + len \<le> span_end r \<or> span_end r \<le> x)"
      if x: "search \<le> x" "?P x" for x
    proof -
      obtain q where q: "q \<in> set (spans d)" "\<not> allocated q" "span_start q \<le> x" "x + len \<le> span_end q"
        using x(2) by (auto simp: place_def)
      have top: "span_end q \<le> U64_MAX" "span_start q < span_end q" using chain_mem [OF c q(1)] by simp_all
      have "q \<notin> set xs" using xs(4) q x(1) 1(4) top(2) by (fastforce simp: span_is_empty_def)
      then have "q = r \<or> span_end r \<le> span_start q" using q(1) xs(1) b(2) [of q] by auto
      then show ?thesis using q x(1) top b(3) by auto
    qed
    show ?thesis
    proof (cases "checked_next_multiple_of (max (span_start r) search) align")
      case None
      have "\<not> ?P x" if "search \<le> x" for x
        using where_x [OF that] next_multiple_None [OF None 1(6), of x] by auto
      then show ?thesis unfolding unf using Some None by (simp add: least_from_def)
    next
      case (Some s)
      note st = Some
      note sp = next_multiple_Some [OF st]
      have ge: "s \<le> x" if "search \<le> x" "?P x" for x
        using where_x [OF that] next_multiple_least [OF st, of x] that by simp
      have al: "DIRECT_ALIGN dvd s" using 1(5) sp(2) by (rule dvd_trans)
      consider "U64_MAX < s + len" | "s + len \<le> U64_MAX" "s + len \<le> span_end r"
        | "s + len \<le> U64_MAX" "span_end r < s + len" by linarith
      then show ?thesis
      proof cases
        case over: 1
        then have "checked_add s len = None" by simp
        moreover have "\<not> ?P x" if "search \<le> x" for x using over ge [OF that] where_x [OF that] by auto
        ultimately show ?thesis unfolding unf using \<open>next_free search (spans d) = Some r\<close> st 1(3)
          by (simp add: least_from_def del: checked_add_None)
      next
        case fits: 2
        have eq: "aligned_search search len0 align ty d = allocate s len0 ty d"
          unfolding unf using \<open>next_free search (spans d) = Some r\<close> st 1(3) fits
          by (simp add: checked_add_def)
        have Ps: "?P s" using sp(1,2) fits(2) xs(1,2) by (auto simp: place_def)
        note a = allocate_least [OF 1(2,3,4), where search = s and ty = ty]
        have "fst (allocate s len0 ty d) = Some s"
          using a(1) Ps al by (auto simp: least_from_def split: option.splits intro: antisym)
        then show ?thesis
          unfolding eq using a(2) Ps ge sp(1) by (auto simp: least_from_def)
      next
        case past: 3
        have eq: "aligned_search search len0 align ty d = aligned_search (span_end r) len0 align ty d"
          unfolding unf using \<open>next_free search (spans d) = Some r\<close> st 1(3) past
          by (simp add: checked_add_def)
        have IH: "least_from ?P (span_end r) (fst (aligned_search (span_end r) len0 align ty d)) \<and>
          (\<forall>s d'. aligned_search (span_end r) len0 align ty d = (Some s, d') \<longrightarrow> took d s len ty d') \<and>
          (fst (aligned_search (span_end r) len0 align ty d) = None \<longrightarrow> snd (aligned_search (span_end r) len0 align ty d) = d)"
          using 1(1) [OF \<open>next_free search (spans d) = Some r\<close> st 1(3)] past 1(2-6)
          by (simp add: checked_add_def)
        have "least_from ?P search (fst (aligned_search (span_end r) len0 align ty d))"
        proof (rule least_from_mono [OF conjunct1 [OF IH]])
          show "search \<le> span_end r" using xs(3) by simp
          show "span_end r \<le> x \<and> ?P x" if "search \<le> x" "?P x" for x
            using where_x [OF that] ge [OF that] past(2) that(2) by auto
        qed
        then show ?thesis unfolding eq using IH by blast
      qed
    qed
  qed
qed

section \<open>Giving a span back\<close>

text \<open>What merging keeps: the bytes, the order, the free total; and it leaves no free neighbours.\<close>

definition merging :: "span list \<Rightarrow> span list \<Rightarrow> bool" where
  "merging old new \<longleftrightarrow>
     (chain 0 old \<longrightarrow> (\<forall>r \<in> set old. \<not> allocated r \<longrightarrow> memory_type r = 0) \<longrightarrow>
      chain 0 new \<and> (\<forall>r \<in> set new. \<not> allocated r \<longrightarrow> memory_type r = 0) \<and>
      byte_at new = byte_at old \<and> available \<lparr>spans = new\<rparr> = available \<lparr>spans = old\<rparr>)"

lemma merging_step: "merging (rev acc @ r # rs) (rev (merge_step r acc) @ rs)"
proof (cases acc)
  case Nil
  then show ?thesis by (simp add: merging_def)
next
  case (Cons p ms)
  show ?thesis
  proof (cases "\<not> allocated p \<and> \<not> allocated r \<and> span_end p = span_start r")
    case False
    then have "merge_step r acc = r # acc" using Cons by auto
    then show ?thesis by (simp add: merging_def)
  next
    case True
    show ?thesis
      unfolding merging_def
    proof (intro impI)
      assume h: "chain 0 (rev acc @ r # rs)" "\<forall>r \<in> set (rev acc @ r # rs). \<not> allocated r \<longrightarrow> memory_type r = 0"
      have pr: "span_start p < span_end p" "span_start r < span_end r"
        using h(1) Cons by (simp_all add: chain_append)
      have "byte_at (rev (merge_step r acc) @ rs) a = byte_at (rev acc @ r # rs) a" for a
        using True Cons h(2) pr by (auto simp: byte_at_append split: option.splits)
      moreover have "available \<lparr>spans = rev (merge_step r acc) @ rs\<rparr> = available \<lparr>spans = rev acc @ r # rs\<rparr>"
        using True Cons pr by (simp add: available_def span_len_def saturating_sub_def)
      ultimately show "chain 0 (rev (merge_step r acc) @ rs) \<and>
          (\<forall>r \<in> set (rev (merge_step r acc) @ rs). \<not> allocated r \<longrightarrow> memory_type r = 0) \<and>
          byte_at (rev (merge_step r acc) @ rs) = byte_at (rev acc @ r # rs) \<and>
          available \<lparr>spans = rev (merge_step r acc) @ rs\<rparr> = available \<lparr>spans = rev acc @ r # rs\<rparr>"
        using True Cons h by (auto simp: chain_append)
    qed
  qed
qed

lemma merging_trans: "merging a b \<Longrightarrow> merging b c \<Longrightarrow> merging a c"
  by (simp add: merging_def)

lemma merging_fold: "merging (rev acc @ rs) (rev (fold merge_step rs acc))"
proof (induction rs arbitrary: acc)
  case Nil
  then show ?case by (simp add: merging_def)
next
  case (Cons r rs)
  show ?case using merging_trans [OF merging_step Cons.IH] by simp
qed

lemma merge_step_maximal:
  assumes "successively (\<lambda>r q. \<not> unmerged r q) (rev acc)"
  shows "successively (\<lambda>r q. \<not> unmerged r q) (rev (merge_step r acc))"
proof (cases acc)
  case Nil
  then show ?thesis by simp
next
  case (Cons p ms)
  then show ?thesis
    using assms by (auto simp: successively_append_iff successively_Cons unmerged_def last_rev)
qed

lemma fold_merge_maximal:
  "successively (\<lambda>r q. \<not> unmerged r q) (rev acc) \<Longrightarrow>
     successively (\<lambda>r q. \<not> unmerged r q) (rev (fold merge_step rs acc))"
proof (induction rs arbitrary: acc)
  case Nil
  then show ?case by simp
next
  case (Cons r rs)
  show ?case using Cons.IH [OF merge_step_maximal [OF Cons.prems]] by simp
qed

lemma fold_merge_id:
  assumes "successively (\<lambda>r q. \<not> unmerged r q) xs" "acc = [] \<or> xs = [] \<or> \<not> unmerged (hd acc) (hd xs)"
  shows "fold merge_step xs acc = rev xs @ acc"
  using assms
proof (induction xs arbitrary: acc)
  case Nil
  then show ?case by simp
next
  case (Cons x xs)
  have step: "merge_step x acc = x # acc" using Cons.prems(2) by (cases acc) (auto simp: unmerged_def)
  have "fold merge_step xs (x # acc) = rev xs @ x # acc"
    using Cons.prems(1) by (intro Cons.IH) (auto simp: successively_Cons)
  then show ?case by (simp add: step)
qed

lemma release_direct_cases:
  assumes "release_direct start len d = (ok, d')"
  shows "(\<not> ok \<and> d' = d) \<or>
    (ok \<and> (\<exists>xs r ys. spans d = xs @ r # ys \<and> allocated r \<and> span_start r = start \<and>
       span_end r = saturating_add start len \<and>
       d' = d\<lparr>spans := merge_free (xs @ span_free (span_start r) (span_end r) # ys)\<rparr>))"
proof (cases "position (\<lambda>r. allocated r \<and> span_start r = start \<and> span_end r = saturating_add start len) (spans d)")
  case None
  then show ?thesis using assms by (simp add: release_direct_def Let_def)
next
  case (Some i)
  obtain xs r ys where xs: "spans d = xs @ r # ys" "i = length xs" "allocated r" "span_start r = start"
      "span_end r = saturating_add start len"
    using position_split [OF Some] by blast
  have "r\<lparr>allocated := False, memory_type := 0\<rparr> = span_free (span_start r) (span_end r)"
    by (simp add: span_free_def)
  then have "(spans d)[i := (spans d ! i)\<lparr>allocated := False, memory_type := 0\<rparr>] =
      xs @ span_free (span_start r) (span_end r) # ys"
    using xs(1,2) by (simp add: list_update_append)
  then have "ok \<and> d' = d\<lparr>spans := merge_free (xs @ span_free (span_start r) (span_end r) # ys)\<rparr>"
    using assms Some by (auto simp: release_direct_def Let_def)
  then show ?thesis using xs by blast
qed

lemma release_direct_effect:
  assumes "dm_ok d" "release_direct start len d = (True, d')"
  shows "dm_ok d'"
    "byte_at (spans d') a = (if start \<le> a \<and> a < start + len then Some (False, 0) else byte_at (spans d) a)"
    "available d' = available d + len"
proof -
  obtain xs r ys where xs: "spans d = xs @ r # ys" "allocated r" "span_start r = start"
      "span_end r = saturating_add start len"
      "d' = d\<lparr>spans := merge_free (xs @ span_free (span_start r) (span_end r) # ys)\<rparr>"
    using release_direct_cases [OF assms(2)] by auto
  have c: "chain 0 (xs @ r # ys)" and ty: "\<forall>r \<in> set (xs @ r # ys). \<not> allocated r \<longrightarrow> memory_type r = 0"
    using assms(1) xs(1) by (simp_all add: dm_ok_def)
  note b = chain_before [OF c]
  have "span_end r < U64_MAX"
  proof -
    have "\<not> DIRECT_ALIGN dvd U64_MAX" by (simp add: DIRECT_ALIGN_def DIRECT_MEMORY_ALIGN_def)
    then have "span_end r \<noteq> U64_MAX" using b(5) by metis
    then show ?thesis using b(6) by simp
  qed
  then have e: "span_end r = start + len" using xs(4) by (auto simp: saturating_add_def min_def split: if_splits)
  let ?mid = "xs @ span_free (span_start r) (span_end r) # ys"
  have mid: "chain 0 ?mid" "\<forall>r \<in> set ?mid. \<not> allocated r \<longrightarrow> memory_type r = 0"
    using c ty by (auto simp: chain_append span_free_def)
  have m: "chain 0 (merge_free ?mid)" "\<forall>r \<in> set (merge_free ?mid). \<not> allocated r \<longrightarrow> memory_type r = 0"
      "byte_at (merge_free ?mid) = byte_at ?mid" "available \<lparr>spans = merge_free ?mid\<rparr> = available \<lparr>spans = ?mid\<rparr>"
    using merging_fold [of "[]" ?mid] mid unfolding merge_free_def merging_def rev.simps append_Nil by blast+
  have su: "successively (\<lambda>r q. \<not> unmerged r q) (merge_free ?mid)"
    unfolding merge_free_def by (rule fold_merge_maximal) simp
  show "dm_ok d'" using m su xs(5) by (auto simp: dm_ok_def)
  have lo: "byte_at xs a = Some v \<Longrightarrow> a < span_start r" for v
    using byte_at_range [of 0 xs a v] c by (fastforce simp: chain_append)
  show "byte_at (spans d') a = (if start \<le> a \<and> a < start + len then Some (False, 0) else byte_at (spans d) a)"
    using m xs(1,3,5) e lo by (auto simp: byte_at_append span_free_def split: option.splits)
  have "available d' = available \<lparr>spans = ?mid\<rparr>" using m xs(5) by (simp add: available_def)
  also have "\<dots> = available d + len"
    using xs(1-3) e by (simp add: available_def span_free_def span_len_def saturating_sub_def)
  finally show "available d' = available d + len" .
qed

lemma position_first: "p x \<Longrightarrow> (\<And>y. y \<in> set ys \<Longrightarrow> \<not> p y) \<Longrightarrow> position p (ys @ x # zs) = Some (length ys)"
  by (induction ys) auto

lemma free_span_eq: "\<not> allocated r \<Longrightarrow> memory_type r = 0 \<Longrightarrow> span_free (span_start r) (span_end r) = r"
  by (cases r) (simp add: span_free_def)

text \<open>Freeing the middle of a split span and merging gives the span back.\<close>

lemma merge_split:
  assumes "successively (\<lambda>r q. \<not> unmerged r q) (xs @ r # ys)" "\<not> allocated r" "memory_type r = 0"
    "span_start r \<le> s" "s < e" "e \<le> span_end r"
  shows "merge_free (xs @ (if span_start r < s then [span_free (span_start r) s] else []) @
     span_free s e # (if e < span_end r then [span_free e (span_end r)] else []) @ ys) = xs @ r # ys"
proof -
  let ?head = "if span_start r < s then [span_free (span_start r) s] else []"
  let ?tail = "if e < span_end r then [span_free e (span_end r)] else []"
  have su: "successively (\<lambda>r q. \<not> unmerged r q) xs" "successively (\<lambda>r q. \<not> unmerged r q) ys"
    "xs \<noteq> [] \<Longrightarrow> \<not> unmerged (last xs) r" "ys \<noteq> [] \<Longrightarrow> \<not> unmerged r (hd ys)"
    using assms(1) by (auto simp: successively_append_iff successively_Cons)
  have join: "merge_step (span_free (span_start r) b) (rev xs) = span_free (span_start r) b # rev xs" for b
    using su(3) assms(2) by (cases xs rule: rev_cases) (auto simp: unmerged_def span_free_def)
  have "fold merge_step (?head @ [span_free s e]) (rev xs) = span_free (span_start r) e # rev xs"
    using join assms(4) by (auto simp: span_free_def)
  then have "fold merge_step (?head @ [span_free s e] @ ?tail) (rev xs) = span_free (span_start r) (span_end r) # rev xs"
    using assms(6) by (auto simp: span_free_def)
  then have "fold merge_step (?head @ [span_free s e] @ ?tail) (rev xs) = r # rev xs"
    using free_span_eq [OF assms(2,3)] by simp
  moreover have "fold merge_step xs [] = rev xs" using fold_merge_id [OF su(1), of "[]"] by simp
  moreover have "fold merge_step ys (r # rev xs) = rev ys @ r # rev xs"
    using su(4) by (intro fold_merge_id [OF su(2)]) auto
  ultimately have "fold merge_step (xs @ (?head @ [span_free s e] @ ?tail) @ ys) [] = rev ys @ r # rev xs"
    by (simp only: fold_append o_apply)
  then show ?thesis by (simp add: merge_free_def)
qed

lemma release_undoes_took:
  assumes "dm_ok d" "took d s len ty d'" "0 < len"
  shows "release_direct s len d' = (True, d)"
proof -
  obtain xs r ys where xs: "spans d = xs @ r # ys" "\<not> allocated r" "span_start r \<le> s" "s + len \<le> span_end r"
      "d' = d\<lparr>spans := xs @ split_span r s (s + len) ty @ ys\<rparr>"
    using assms(2) by (auto simp: took_def)
  have c: "chain 0 (xs @ r # ys)" and su: "successively (\<lambda>r q. \<not> unmerged r q) (xs @ r # ys)"
    and ty: "memory_type r = 0"
    using assms(1) xs(1,2) by (simp_all add: dm_ok_def)
  note b = chain_before [OF c]
  have e: "saturating_add s len = s + len" using xs(4) b(6) by (simp add: saturating_add_def)
  let ?head = "if span_start r < s then [span_free (span_start r) s] else []"
  let ?tail = "if s + len < span_end r then [span_free (s + len) (span_end r)] else []"
  let ?new = "\<lparr>span_start = s, span_end = s + len, allocated = True, memory_type = ty\<rparr>"
  have sp: "spans d' = (xs @ ?head) @ ?new # ?tail @ ys"
    using xs(5) split_span_eq [OF xs(3) _ xs(4)] assms(3) by simp
  have "position (\<lambda>r. allocated r \<and> span_start r = s \<and> span_end r = s + len) (spans d') = Some (length (xs @ ?head))"
    unfolding sp
  proof (rule position_first)
    fix y assume "y \<in> set (xs @ ?head)"
    then consider "y \<in> set xs" | "\<not> allocated y" by (auto simp: span_free_def split: if_splits)
    then show "\<not> (allocated y \<and> span_start y = s \<and> span_end y = s + len)"
    proof cases
      case 1
      then show ?thesis using b(1) [OF 1] xs(3) assms(3) by auto
    qed simp
  qed simp
  moreover have "(spans d')[length (xs @ ?head) := (spans d' ! length (xs @ ?head))\<lparr>allocated := False, memory_type := 0\<rparr>]
      = xs @ ?head @ span_free s (s + len) # ?tail @ ys"
    unfolding sp nth_append_length list_update_length by (simp add: span_free_def)
  moreover have "merge_free (xs @ ?head @ span_free s (s + len) # ?tail @ ys) = spans d"
    using merge_split [OF su xs(2) ty xs(3) _ xs(4)] assms(3) xs(1) by simp
  ultimately show ?thesis
    using xs(5) by (simp add: release_direct_def e Let_def)
qed

lemma aligned_from_least:
  assumes "dm_ok d" "checked_next_multiple_of len0 DIRECT_ALIGN = Some len" "0 < len0"
    "is_power_of_two (max align DIRECT_ALIGN)"
  shows "least_from (\<lambda>x. max align DIRECT_ALIGN dvd x \<and> place d len x) search
      (fst (allocate_aligned_from search len0 align ty d))"
    "allocate_aligned_from search len0 align ty d = (Some s, d') \<Longrightarrow> took d s len ty d'"
    "fst (allocate_aligned_from search len0 align ty d) = None \<Longrightarrow>
      snd (allocate_aligned_from search len0 align ty d) = d"
proof -
  have p2: "is_power_of_two DIRECT_ALIGN"
    by (auto simp: is_power_of_two_iff DIRECT_ALIGN_def DIRECT_MEMORY_ALIGN_def intro!: exI [of _ 14])
  have a: "DIRECT_ALIGN dvd max align DIRECT_ALIGN" using power_of_two_dvd [OF p2 assms(4)] by simp
  have len: "0 < len" using next_multiple_Some(1) [OF assms(2)] assms(3) by simp
  note sr = aligned_search_least [OF assms(1,2) len a power_of_two_pos [OF assms(4)], of search ty]
  have eq: "allocate_aligned_from search len0 align ty d = aligned_search search len0 (max align DIRECT_ALIGN) ty d"
    using assms(4) by (simp add: allocate_aligned_from_def Let_def)
  show "least_from (\<lambda>x. max align DIRECT_ALIGN dvd x \<and> place d len x) search
      (fst (allocate_aligned_from search len0 align ty d))"
    "allocate_aligned_from search len0 align ty d = (Some s, d') \<Longrightarrow> took d s len ty d'"
    "fst (allocate_aligned_from search len0 align ty d) = None \<Longrightarrow>
      snd (allocate_aligned_from search len0 align ty d) = d"
    unfolding eq using sr by blast+
qed

lemma took_effect:
  assumes "dm_ok d" "took d s len ty d'" "0 < len" "DIRECT_ALIGN dvd len"
  shows "dm_ok d'" "available d' + len = available d"
    "byte_at (spans d') a = (if s \<le> a \<and> a < s + len then Some (True, ty) else byte_at (spans d) a)"
proof -
  obtain xs r ys where xs: "spans d = xs @ r # ys" "\<not> allocated r" "span_start r \<le> s" "s + len \<le> span_end r"
      "d' = d\<lparr>spans := xs @ split_span r s (s + len) ty @ ys\<rparr>" and al: "DIRECT_ALIGN dvd s"
    using assms(2) by (auto simp: took_def)
  have lt: "s < s + len" using assms(3) by simp
  show "dm_ok d'"
    unfolding xs(5) using dm_ok_split [OF assms(1) xs(1-3) lt xs(4) al] al assms(4) by simp
  show "available d' + len = available d"
    unfolding xs(5) using available_split [OF xs(1-3) lt xs(4)] by simp
  show "byte_at (spans d') a = (if s \<le> a \<and> a < s + len then Some (True, ty) else byte_at (spans d) a)"
    unfolding xs(5) using byte_at_split [OF assms(1) xs(1-3) lt xs(4)] by simp
qed

lemma took_free: "dm_ok d \<Longrightarrow> took d s len ty d' \<Longrightarrow> s \<le> a \<Longrightarrow> a < s + len \<Longrightarrow> free_at d a"
  using place_iff [of d len s] by (auto simp: took_def place_def)

text \<open>An allocation that cannot be asked for takes nothing.\<close>

lemma aligned_from_refused:
  assumes "\<not> is_power_of_two (max align DIRECT_ALIGN) \<or> len0 = 0 \<or> checked_next_multiple_of len0 DIRECT_ALIGN = None"
  shows "allocate_aligned_from search len0 align ty d = (None, d)"
proof -
  have z: "allocate x 0 ty d = (None, d)" for x by (simp add: allocate_def)
  have "aligned_search x len0 a ty d = (None, d)"
    if "len0 = 0 \<or> checked_next_multiple_of len0 DIRECT_ALIGN = None" for x a
    using that
  proof (induction x len0 a ty d rule: aligned_search.induct)
    case (1 x len0 a ty d)
    then show ?case
      by (subst aligned_search.simps) (auto simp: z allocate_def split: option.split)
  qed
  then show ?thesis using assms by (auto simp: allocate_aligned_from_def Let_def)
qed

section \<open>The contract of a physical pool\<close>

text \<open>
  What the memory calls above rely on: taking bytes takes free ones and changes no other, giving a
  taken span back frees exactly it. \<open>rounded\<close> is the length a request is rounded to.
\<close>

locale physical_pool =
  fixes bytes :: "'d \<Rightarrow> u64 \<Rightarrow> (bool \<times> 32 word) option"
    and ok :: "'d \<Rightarrow> bool"
    and take_from :: "u64 \<Rightarrow> u64 \<Rightarrow> u64 \<Rightarrow> 32 word \<Rightarrow> 'd \<Rightarrow> u64 option \<times> 'd"
    and give :: "u64 \<Rightarrow> u64 \<Rightarrow> 'd \<Rightarrow> bool \<times> 'd"
    and rounded :: "u64 \<Rightarrow> u64 option"
  assumes take_ok: "ok d \<Longrightarrow> ok (snd (take_from search len align ty d))"
    and give_ok: "ok d \<Longrightarrow> ok (snd (give start len d))"
    and take_None: "ok d \<Longrightarrow> take_from search len align ty d = (None, d') \<Longrightarrow> d' = d"
    and take_Some: "ok d \<Longrightarrow> take_from search len align ty d = (Some s, d') \<Longrightarrow>
      \<exists>n. rounded len = Some n \<and> (\<forall>a. s \<le> a \<and> a < s + n \<longrightarrow> (\<exists>t. bytes d a = Some (False, t))) \<and>
        bytes d' = (\<lambda>a. if s \<le> a \<and> a < s + n then Some (True, ty) else bytes d a) \<and>
        give s n d' = (True, d)"
    and give_True: "ok d \<Longrightarrow> give start len d = (True, d') \<Longrightarrow>
      bytes d' = (\<lambda>a. if start \<le> a \<and> a < start + len then Some (False, 0) else bytes d a)"
    and give_False: "give start len d = (False, d') \<Longrightarrow> d' = d"
begin

text \<open>A span once taken is not handed out again until it is given back.\<close>

lemma takes_disjoint:
  assumes "ok d" "take_from s1 len1 a1 t1 d = (Some x, d1)" "take_from s2 len2 a2 t2 d1 = (Some y, d2)"
    "rounded len1 = Some n" "rounded len2 = Some m"
  shows "x + n \<le> y \<or> y + m \<le> x \<or> n = 0 \<or> m = 0"
proof (rule ccontr)
  assume h: "\<not> (x + n \<le> y \<or> y + m \<le> x \<or> n = 0 \<or> m = 0)"
  have ok1: "ok d1" using take_ok [OF assms(1), of s1 len1 a1 t1] assms(2) by simp
  let ?a = "max x y"
  have "bytes d1 ?a = Some (True, t1)"
    using take_Some [OF assms(1,2)] assms(4) h by auto
  moreover have "\<exists>t. bytes d1 ?a = Some (False, t)"
    using take_Some [OF ok1 assms(3)] assms(5) h by (auto simp: max_def)
  ultimately show False by simp
qed

lemma give_take: "ok d \<Longrightarrow> take_from search len align ty d = (Some s, d') \<Longrightarrow> \<exists>n. rounded len = Some n \<and> give s n d' = (True, d)"
  using take_Some by blast

end

definition rounded_len :: "u64 \<Rightarrow> u64 option" where
  "rounded_len len = checked_next_multiple_of len DIRECT_ALIGN"

lemma aligned_from_Some:
  assumes "dm_ok d" "allocate_aligned_from search len0 align ty d = (Some s, d')"
  shows "\<exists>len. rounded_len len0 = Some len \<and> 0 < len \<and> DIRECT_ALIGN dvd len \<and> took d s len ty d'"
proof -
  have "\<not> (\<not> is_power_of_two (max align DIRECT_ALIGN) \<or> len0 = 0 \<or> checked_next_multiple_of len0 DIRECT_ALIGN = None)"
    using aligned_from_refused [of align len0 search ty d] assms(2) by (metis option.distinct(1) prod.inject)
  then have h: "is_power_of_two (max align DIRECT_ALIGN)" "0 < len0" "checked_next_multiple_of len0 DIRECT_ALIGN \<noteq> None"
    by auto
  then obtain len where len: "checked_next_multiple_of len0 DIRECT_ALIGN = Some len" by blast
  then show ?thesis
    using aligned_from_least(2) [OF assms(1) len h(2,1) assms(2)] next_multiple_Some(1,2) [OF len] h(2)
    by (auto simp: rounded_len_def)
qed

lemma aligned_from_None:
  assumes "dm_ok d" "allocate_aligned_from search len0 align ty d = (None, d')"
  shows "d' = d"
proof (cases "\<not> is_power_of_two (max align DIRECT_ALIGN) \<or> len0 = 0 \<or> checked_next_multiple_of len0 DIRECT_ALIGN = None")
  case True
  then show ?thesis using aligned_from_refused [OF True] assms(2) by simp
next
  case False
  then obtain len where "checked_next_multiple_of len0 DIRECT_ALIGN = Some len" "0 < len0"
    "is_power_of_two (max align DIRECT_ALIGN)" by blast
  then show ?thesis using aligned_from_least(3) [OF assms(1)] assms(2) by (metis fst_conv snd_conv)
qed

interpretation dm: physical_pool "\<lambda>d. byte_at (spans d)" dm_ok allocate_aligned_from release_direct rounded_len
proof
  fix d :: DirectMemory and search len align ty
  assume "dm_ok d"
  then show "dm_ok (snd (allocate_aligned_from search len align ty d))"
    using aligned_from_Some [of d search len align ty] aligned_from_None [of d search len align ty] took_effect(1)
    by (cases "allocate_aligned_from search len align ty d"; cases "fst (allocate_aligned_from search len align ty d)") fastforce+
next
  fix d :: DirectMemory and start len
  assume "dm_ok d"
  then show "dm_ok (snd (release_direct start len d))"
    using release_direct_effect(1) [of d start len] release_direct_cases [of start len d]
    by (cases "release_direct start len d"; cases "fst (release_direct start len d)") fastforce+
next
  fix d d' :: DirectMemory and search len align ty
  assume "dm_ok d" "allocate_aligned_from search len align ty d = (None, d')"
  then show "d' = d" by (rule aligned_from_None)
next
  fix d d' :: DirectMemory and search len align ty s
  assume h: "dm_ok d" "allocate_aligned_from search len align ty d = (Some s, d')"
  then obtain n where n: "rounded_len len = Some n" "0 < n" "DIRECT_ALIGN dvd n" "took d s n ty d'"
    using aligned_from_Some by blast
  show "\<exists>n. rounded_len len = Some n \<and>
      (\<forall>a. s \<le> a \<and> a < s + n \<longrightarrow> (\<exists>t. byte_at (spans d) a = Some (False, t))) \<and>
      byte_at (spans d') = (\<lambda>a. if s \<le> a \<and> a < s + n then Some (True, ty) else byte_at (spans d) a) \<and>
      release_direct s n d' = (True, d)"
    using n took_effect(3) [OF h(1) n(4,2,3)] took_free [OF h(1) n(4)] release_undoes_took [OF h(1) n(4,2)]
    by (auto simp: free_at_def)
next
  fix d d' :: DirectMemory and start len
  assume "dm_ok d" "release_direct start len d = (True, d')"
  then show "byte_at (spans d') = (\<lambda>a. if start \<le> a \<and> a < start + len then Some (False, 0) else byte_at (spans d) a)"
    using release_direct_effect(2) by blast
next
  fix d d' :: DirectMemory and start len
  assume "release_direct start len d = (False, d')"
  then show "d' = d" using release_direct_cases by blast
qed

section \<open>The walk and the layouts\<close>

lemma query_Some_first:
  assumes "chain 0 (xs @ r # ys)" "\<And>q. q \<in> set xs \<Longrightarrow> span_end q \<le> a" "a < span_end r"
  shows "query a \<lparr>spans = xs @ r # ys\<rparr> = Some r"
proof -
  have "find (\<lambda>r. span_end r > a \<and> \<not> span_is_empty r) (xs @ r # ys) = Some r"
    using assms(2,3) chain_before(3) [OF assms(1)] by (induction xs) (auto simp: span_is_empty_def not_less [symmetric])
  then show ?thesis by (simp add: query_def)
qed

lemma query_after:
  assumes "chain 0 (spans d)" "i < length (spans d)"
  shows "query (span_end (spans d ! i)) d = (if Suc i < length (spans d) then Some (spans d ! Suc i) else None)"
proof -
  let ?r = "spans d ! i"
  have d: "spans d = take i (spans d) @ ?r # drop (Suc i) (spans d)" using assms(2) by (rule id_take_nth_drop)
  have c: "chain 0 (take i (spans d) @ ?r # drop (Suc i) (spans d))" using assms(1) d by metis
  note b = chain_before [OF c]
  have before: "span_end q \<le> span_end ?r" if "q \<in> set (take i (spans d) @ [?r])" for q
    using that b(1,3) by fastforce
  show ?thesis
  proof (cases "drop (Suc i) (spans d)")
    case Nil
    then have "spans d = take i (spans d) @ [?r]" using d by simp
    then have "\<not> span_end ?r < span_end q" if "q \<in> set (spans d)" for q using before [of q] that by (metis not_less)
    then have "query (span_end ?r) d = None" by (auto simp: query_def find_None_iff)
    then show ?thesis using Nil by simp
  next
    case (Cons q qs)
    have n: "Suc i < length (spans d)" "spans d ! Suc i = q"
      using Cons by (metis drop_all list.distinct(1) not_le, metis Cons Cons_nth_drop_Suc drop_all list.distinct(1) list.inject not_le)
    have d2: "(take i (spans d) @ [?r]) @ q # qs = spans d" using d Cons by simp
    have c2: "chain 0 ((take i (spans d) @ [?r]) @ q # qs)" using assms(1) d2 by simp
    have "query (span_end ?r) \<lparr>spans = (take i (spans d) @ [?r]) @ q # qs\<rparr> = Some q"
    proof (rule query_Some_first [OF _ before])
      show "chain 0 ((take i (spans d) @ [?r]) @ q # qs)" by (fact c2)
      show "span_end ?r < span_end q" using chain_before(1,3) [OF c2] by fastforce
    qed
    then show ?thesis using n d2 by (simp add: query_def)
  qed
qed

lemma shape_chain:
  assumes "8 * DIRECT_ALIGN dvd bytes" "0 < bytes" "bytes \<le> U64_MAX"
  shows "dm_ok (with_shape bytes shape)"
proof -
  obtain k where k: "bytes = 8 * DIRECT_ALIGN * k" using assms(1) by (auto simp: dvd_def)
  have a: "DIRECT_ALIGN = 16384" by (simp add: DIRECT_ALIGN_def DIRECT_MEMORY_ALIGN_def)
  have k': "bytes = 131072 * k" using k by (simp add: a)
  have d: "16384 dvd 65536 + 16384 * k * n" for n
    by (rule dvd_add) simp_all
  show ?thesis
    using assms(2,3) d [of 2] d [of 3] unfolding k'
    by (cases shape) (auto simp: dm_ok_def with_shape_def span_free_def span_taken_def RESERVED_LOW_def
        Let_def unmerged_def min_def a)
qed

section \<open>Properties\<close>

text \<open>C4. An aligned allocation is a first fit without gaps: with an alignment the call accepts, it
  answers the least address at or past the search start that is a multiple of the alignment and
  whose bytes, rounded up to 16 KiB units, are all free, and it answers nothing only if no address
  will do.\<close>

theorem allocate_aligned_from_least:
  assumes "dm_ok d" "checked_next_multiple_of len0 DIRECT_ALIGN = Some len" "0 < len0"
    "is_power_of_two (max align DIRECT_ALIGN)"
  shows "case fst (allocate_aligned_from search len0 align ty d) of
      Some s \<Rightarrow> search \<le> s \<and> max align DIRECT_ALIGN dvd s \<and> (\<forall>a. s \<le> a \<and> a < s + len \<longrightarrow> free_at d a) \<and>
        (\<forall>x. search \<le> x \<and> max align DIRECT_ALIGN dvd x \<and> (\<forall>a. x \<le> a \<and> a < x + len \<longrightarrow> free_at d a) \<longrightarrow> s \<le> x)
    | None \<Rightarrow> \<not> (\<exists>x. search \<le> x \<and> max align DIRECT_ALIGN dvd x \<and> (\<forall>a. x \<le> a \<and> a < x + len \<longrightarrow> free_at d a))"
proof -
  have len: "0 < len" using next_multiple_Some(1) [OF assms(2)] assms(3) by simp
  show ?thesis
    using aligned_from_least(1) [OF assms, of search ty]
    unfolding least_from_def place_iff [OF assms(1) len] by (auto split: option.splits)
qed

definition demo_direct :: DirectMemory where
  "demo_direct = with_shape 0x100000 ReservedLow"

lemma demo_direct_eval: "demo_direct = \<lparr>spans = [span_taken 0 0x10000, span_free 0x10000 0x100000]\<rparr>"
  by (simp add: demo_direct_def with_shape_def RESERVED_LOW_def)

lemma demo_direct_ok: "dm_ok demo_direct"
  unfolding demo_direct_def by (rule shape_chain) (simp_all add: DIRECT_ALIGN_def DIRECT_MEMORY_ALIGN_def)

lemma demo_align: "max 0x20000 DIRECT_ALIGN = 2 ^ 17" "is_power_of_two (2 ^ 17)"
  "checked_next_multiple_of 0x5000 DIRECT_ALIGN = Some 0x8000"
proof -
  show "is_power_of_two (2 ^ 17)" unfolding is_power_of_two_iff by blast
qed (simp_all add: DIRECT_ALIGN_def DIRECT_MEMORY_ALIGN_def checked_next_multiple_of_def checked_add_def)

definition demo_direct1 :: DirectMemory where
  "demo_direct1 = \<lparr>spans = [span_taken 0 0x10000, span_free 0x10000 0x20000,
       \<lparr>span_start = 0x20000, span_end = 0x28000, allocated = True, memory_type = 3\<rparr>, span_free 0x28000 0x100000]\<rparr>"

lemma demo_allocate: "allocate_aligned_from 0 0x5000 0x20000 3 demo_direct = (Some 0x20000, demo_direct1)"
  using demo_align
  by (simp add: allocate_aligned_from_def demo_direct_eval demo_direct1_def aligned_search.simps next_free_def span_taken_def
      span_free_def span_is_empty_def checked_next_multiple_of_def checked_add_def DIRECT_ALIGN_def
      DIRECT_MEMORY_ALIGN_def allocate_def saturating_sub_def split_span_def)

theorem allocate_aligned_from_least_witness:
  "fst (allocate_aligned_from 0 0x5000 0x20000 3 demo_direct) = Some 0x20000 \<and> free_at demo_direct 0x27fff"
  using allocate_aligned_from_least [OF demo_direct_ok demo_align(3), of "0x20000" 0 3] demo_align
  by (simp add: demo_allocate)

text \<open>A successful allocation turns exactly its own bytes from free to taken with the memory type
  asked for, leaves every other byte as it was, takes its rounded length off the free total and
  keeps the map's invariant; an unsuccessful one changes nothing.\<close>

theorem allocate_changes_exactly:
  assumes "dm_ok d" "allocate_aligned_from search len0 align ty d = (res, d')"
  shows "case res of
      None \<Rightarrow> d' = d
    | Some s \<Rightarrow> (\<exists>len. rounded_len len0 = Some len \<and> 0 < len \<and> dm_ok d' \<and> available d' + len = available d \<and>
        (\<forall>a. s \<le> a \<and> a < s + len \<longrightarrow> free_at d a) \<and>
        (\<forall>a. byte_at (spans d') a = (if s \<le> a \<and> a < s + len then Some (True, ty) else byte_at (spans d) a)))"
proof (cases res)
  case None
  then show ?thesis using aligned_from_None assms by auto
next
  case (Some s)
  then obtain len where n: "rounded_len len0 = Some len" "0 < len" "DIRECT_ALIGN dvd len" "took d s len ty d'"
    using aligned_from_Some assms by blast
  then show ?thesis
    using Some took_effect [OF assms(1) n(4,2,3)] took_free [OF assms(1) n(4)] by auto
qed

theorem allocate_changes_exactly_witness:
  "available (snd (allocate_aligned_from 0 0x5000 0x20000 3 demo_direct)) + 0x8000 = available demo_direct"
  using allocate_changes_exactly [OF demo_direct_ok demo_allocate] demo_align(3)
  by (simp add: demo_allocate rounded_len_def)

text \<open>Two allocations with no release between them never share a byte.\<close>

theorem direct_allocations_disjoint:
  assumes "dm_ok d" "allocate_aligned_from s1 len1 a1 t1 d = (Some x, d1)"
    "allocate_aligned_from s2 len2 a2 t2 d1 = (Some y, d2)" "rounded_len len1 = Some n" "rounded_len len2 = Some m"
  shows "x + n \<le> y \<or> y + m \<le> x"
proof -
  have ok1: "dm_ok d1" using dm.take_ok [OF assms(1), of s1 len1 a1 t1] assms(2) by simp
  have "0 < n" "0 < m"
    using aligned_from_Some [OF assms(1,2)] aligned_from_Some [OF ok1 assms(3)] assms(4,5) by auto
  then show ?thesis using dm.takes_disjoint [OF assms] by auto
qed

theorem direct_allocations_disjoint_witness:
  "\<exists>y d2. allocate_aligned_from 0 0x5000 0x20000 3 demo_direct1 = (Some y, d2) \<and>
     (0x20000 + 0x8000 \<le> y \<or> y + 0x8000 \<le> 0x20000)"
proof -
  obtain d2 where y: "allocate_aligned_from 0 0x5000 0x20000 3 demo_direct1 = (Some 0x40000, d2)"
    using demo_align
    by (simp add: demo_direct1_def allocate_aligned_from_def aligned_search.simps next_free_def span_taken_def
      span_free_def span_is_empty_def checked_next_multiple_of_def checked_add_def DIRECT_ALIGN_def
      DIRECT_MEMORY_ALIGN_def allocate_def saturating_sub_def split_span_def)
  have r: "rounded_len 0x5000 = Some 0x8000" using demo_align(3) by (simp add: rounded_len_def)
  show ?thesis
    using direct_allocations_disjoint [OF demo_direct_ok demo_allocate y r r] y by blast
qed

text \<open>C5. Releasing a taken span frees exactly its bytes, returns its length to the free total and
  keeps the invariant, free neighbours merged; and releasing what an allocation just answered, at
  its rounded length, leaves the map span for span as it was before.\<close>

theorem release_direct_exact:
  assumes "dm_ok d"
  shows "(case release_direct start len d of
      (True, d') \<Rightarrow> dm_ok d' \<and> available d' = available d + len \<and>
        (\<forall>a. byte_at (spans d') a = (if start \<le> a \<and> a < start + len then Some (False, 0) else byte_at (spans d) a))
    | (False, d') \<Rightarrow> d' = d) \<and>
    (\<forall>search len0 align ty s d'. allocate_aligned_from search len0 align ty d = (Some s, d') \<longrightarrow>
      (\<exists>n. rounded_len len0 = Some n \<and> release_direct s n d' = (True, d)))"
proof -
  obtain ok d' where r: "release_direct start len d = (ok, d')" by fastforce
  have "case release_direct start len d of
      (True, d') \<Rightarrow> dm_ok d' \<and> available d' = available d + len \<and>
        (\<forall>a. byte_at (spans d') a = (if start \<le> a \<and> a < start + len then Some (False, 0) else byte_at (spans d) a))
    | (False, d') \<Rightarrow> d' = d"
  proof (cases ok)
    case True
    then show ?thesis using release_direct_effect [OF assms, of start len d'] r by simp
  next
    case False
    then show ?thesis using release_direct_cases [OF r] r by simp
  qed
  then show ?thesis using dm.give_take [OF assms] by blast
qed

theorem release_direct_exact_witness:
  "release_direct 0x20000 0x8000 (snd (allocate_aligned_from 0 0x5000 0x20000 3 demo_direct)) = (True, demo_direct)"
proof -
  obtain n where "rounded_len 0x5000 = Some n"
      "release_direct 0x20000 n (snd (allocate_aligned_from 0 0x5000 0x20000 3 demo_direct)) = (True, demo_direct)"
    using release_direct_exact [OF demo_direct_ok, of 0 0] demo_allocate by (metis snd_conv)
  then show ?thesis using demo_align(3) by (simp add: rounded_len_def)
qed

text \<open>A guest's walk over the map, asking each time at the end of what it last saw, meets every
  span once, in address order, and is then told there is no more.\<close>

theorem query_walk:
  assumes "dm_ok d" "i < length (spans d)"
  shows "query 0 d = Some (spans d ! 0) \<and>
    query (span_end (spans d ! i)) d = (if Suc i < length (spans d) then Some (spans d ! Suc i) else None)"
proof -
  have c: "chain 0 (spans d)" using assms(1) by (simp add: dm_ok_def)
  obtain r rs where r: "spans d = r # rs" using assms(2) by (cases "spans d") auto
  have "query 0 \<lparr>spans = [] @ r # rs\<rparr> = Some r"
    using c r by (intro query_Some_first) auto
  then show ?thesis using query_after [OF c assms(2)] r by (simp add: query_def)
qed

theorem query_walk_witness:
  "query 0 demo_direct = Some (span_taken 0 0x10000) \<and> query 0x100000 demo_direct = None"
  using query_walk [OF demo_direct_ok, of 1] by (simp add: demo_direct_eval span_taken_def span_free_def)

text \<open>A title's own flexible memory moves the difference between the two budgets and keeps their
  total, and a request larger than both leaves the settings alone; once the map is built, nothing
  changes them.\<close>

theorem fit_title_keeps_total:
  assumes "pool_bytes (ds_settings g) + flexible_bytes (ds_settings g) \<le> U64_MAX"
  shows "case fit_title flexible g of (done_, g') \<Rightarrow>
     pool_bytes (ds_settings g') + flexible_bytes (ds_settings g') =
       pool_bytes (ds_settings g) + flexible_bytes (ds_settings g) \<and>
     (done_ \<longleftrightarrow> ds_map g = None) \<and> (\<not> done_ \<longrightarrow> g' = g) \<and>
     (done_ \<longrightarrow> flexible \<le> pool_bytes (ds_settings g) + flexible_bytes (ds_settings g) \<longrightarrow>
        flexible_configured g' = flexible)"
  using assms
  by (auto simp: fit_title_def configure_def fitted_def Let_def saturating_add_def flexible_configured_def
      checked_sub_def)

theorem fit_title_keeps_total_witness:
  "flexible_configured (snd (fit_title 0x14800000 \<lparr>ds_settings = settings_default, ds_map = None, flexible_mapped = 0\<rparr>)) = 0x14800000"
  using fit_title_keeps_total [of "\<lparr>ds_settings = settings_default, ds_map = None, flexible_mapped = 0\<rparr>" "0x14800000"]
  by (simp add: settings_default_def DIRECT_MEMORY_SIZE_def FLEXIBLE_CONFIGURED_def case_prod_unfold)

end
