(* ===== verification/Guest_Memory.thy ===== *)
theory Guest_Memory
  imports Prelude
begin

text \<open>
  Reads and writes of guest memory by guest address (\<^verbatim>\<open>orbistoun-mem/src/guest.rs\<close>). The guest
  runs under an identity mapping, so memory is a function from addresses to bytes; every accessor
  refuses the null address and touches nothing then. That the bytes are mapped is the contract of
  the guest call that passed the address.

  The lemmas show that what is written is read back whatever the alignment, that a write changes no
  byte outside its own, and that a string read stops at its terminator or its bound.
\<close>

type_synonym memory = "u64 \<Rightarrow> byte"

definition read_u32 :: "u64 \<Rightarrow> memory \<Rightarrow> nat option" where
  "read_u32 at m = (if at = 0 then None else Some (le_nat (map m [at ..< at + 4])))"

definition read_u64 :: "u64 \<Rightarrow> memory \<Rightarrow> u64 option" where
  "read_u64 at m = (if at = 0 then None else Some (le_nat (map m [at ..< at + 8])))"

definition store :: "u64 \<Rightarrow> byte list \<Rightarrow> memory \<Rightarrow> memory" where
  "store at bs m = (\<lambda>a. if at \<le> a \<and> a < at + length bs then bs ! (a - at) else m a)"

definition write_bytes :: "u64 \<Rightarrow> byte list \<Rightarrow> memory \<Rightarrow> bool \<times> memory" where
  "write_bytes at bs m = (if at = 0 then (False, m) else (True, store at bs m))"

definition write_u32 :: "u64 \<Rightarrow> nat \<Rightarrow> memory \<Rightarrow> bool \<times> memory" where
  "write_u32 at v m = (if at = 0 then (False, m) else (True, store at (to_le 4 v) m))"

definition write_u64 :: "u64 \<Rightarrow> u64 \<Rightarrow> memory \<Rightarrow> bool \<times> memory" where
  "write_u64 at v m = (if at = 0 then (False, m) else (True, store at (to_le 8 v) m))"

definition read_into :: "u64 \<Rightarrow> nat \<Rightarrow> memory \<Rightarrow> byte list option" where
  "read_into at n m = (if at = 0 then None else Some (map m [at ..< at + n]))"

fun cstr_bytes :: "u64 \<Rightarrow> nat \<Rightarrow> memory \<Rightarrow> byte list" where
  "cstr_bytes at 0 m = []"
| "cstr_bytes at (Suc n) m = (if m at = 0 then [] else m at # cstr_bytes (Suc at) n m)"

definition read_cstr :: "u64 \<Rightarrow> nat \<Rightarrow> memory \<Rightarrow> byte list option" where
  "read_cstr at n m = (if at = 0 then None else Some (cstr_bytes at n m))"

section \<open>What holds of them\<close>

lemma store_read: "map (store at bs m) [at ..< at + length bs] = bs"
  by (rule nth_equalityI) (auto simp: store_def)

lemma store_other: "a < at \<or> at + length bs \<le> a \<Longrightarrow> store at bs m a = m a"
  by (auto simp: store_def)

lemma store_read_other:
  "b + n \<le> at \<or> at + length bs \<le> b \<Longrightarrow> map (store at bs m) [b ..< b + n] = map m [b ..< b + n]"
  by (auto simp: store_def)

lemma cstr_bytes_prefix:
  "\<exists>k \<le> n. cstr_bytes at n m = map m [at ..< at + k] \<and> (\<forall>a. at \<le> a \<and> a < at + k \<longrightarrow> m a \<noteq> 0) \<and>
     (k < n \<longrightarrow> m (at + k) = 0)"
proof (induction n arbitrary: at)
  case 0
  then show ?case by auto
next
  case (Suc n)
  show ?case
  proof (cases "m at = 0")
    case True
    then show ?thesis by (intro exI [of _ 0]) auto
  next
    case False
    obtain k where k: "k \<le> n" "cstr_bytes (Suc at) n m = map m [Suc at ..< Suc at + k]"
      "\<forall>a. Suc at \<le> a \<and> a < Suc at + k \<longrightarrow> m a \<noteq> 0" "k < n \<longrightarrow> m (Suc at + k) = 0"
      using Suc.IH [of "Suc at"] by blast
    have "[at ..< at + Suc k] = at # [Suc at ..< Suc at + k]"
      by (simp add: upt_conv_Cons del: upt_Suc)
    moreover have "m a \<noteq> 0" if "at \<le> a" "a < at + Suc k" for a
      using k(3) that False by (cases "a = at") auto
    ultimately show ?thesis
      using k(1,2,4) False by (intro exI [of _ "Suc k"]) (auto simp del: upt_Suc)
  qed
qed

section \<open>Properties\<close>

text \<open>Guest memory reads back what was written, at any alignment, and a write of eight bytes
  changes no byte outside them; a write to null changes nothing and says so.\<close>

theorem guest_write_read:
  "(at \<noteq> 0 \<longrightarrow> v \<le> U64_MAX \<longrightarrow> fst (write_u64 at v m) \<and> read_u64 at (snd (write_u64 at v m)) = Some v) \<and>
   (at \<noteq> 0 \<longrightarrow> w < 2 ^ 32 \<longrightarrow> fst (write_u32 at w m) \<and> read_u32 at (snd (write_u32 at w m)) = Some w) \<and>
   (\<forall>a. a < at \<or> at + 8 \<le> a \<longrightarrow> snd (write_u64 at v m) a = m a) \<and>
   write_u64 0 v m = (False, m) \<and> read_u64 0 m = None"
proof -
  have "map (store at (to_le 8 v) m) [at ..< at + 8] = to_le 8 v"
    "map (store at (to_le 4 w) m) [at ..< at + 4] = to_le 4 w"
    using store_read [of at "to_le 8 v" m] store_read [of at "to_le 4 w" m] by simp_all
  then show ?thesis
    by (simp add: write_u64_def read_u64_def write_u32_def read_u32_def le_nat_to_le store_other
        del: upt.simps)
qed

theorem guest_write_read_witness:
  "read_u64 0x1001 (snd (write_u64 0x1001 0x0102030405060708 (\<lambda>_. 0))) = Some 0x0102030405060708"
  using guest_write_read [of "0x1001" "0x0102030405060708" "\<lambda>_. 0" 0] by simp

end
