(* ===== verification/Kernel_Memory.thy ===== *)
theory Kernel_Memory
  imports Direct_Memory Guest_Memory "HOL-Library.AList"
begin

text \<open>
  The kernel's memory calls (\<^verbatim>\<open>orbistoun-kernel/src/lib.rs\<close>, the mapping half, and
  \<^verbatim>\<open>orbistoun-kernel/src/quarantine.rs\<close>): where a mapping is placed when the guest names no
  address, how a released base is held back before it is reused, which ranges a guest may read or
  write, the aliases a second map of the same physical memory is answered with, and the calls that
  allocate, map, unmap and release direct memory.

  Parameters: the host's \<open>host_reserve\<close> and \<open>host_protect\<close>, and \<open>unit\<close>, the unit mapping slots
  are stepped by (the host's allocation granularity or the guest page, whichever is larger).
  Diagnostics the calls also write (the run report's mapping log, the readable ranges a fault dump
  consults) are not modelled; a lock is taken to succeed, since the code only refuses a poisoned one.
\<close>

definition OK :: u64 where
  "OK = 0"

definition status :: "GuestError \<Rightarrow> u64" where
  "status e = unat (error_as_raw e)"

abbreviation ERRNO_AGAIN :: "32 word" where "ERRNO_AGAIN \<equiv> 35"

definition MAPPING_BASE :: u64 where
  "MAPPING_BASE = 0x740000000000"

definition CONFLICT_RETRIES :: nat where
  "CONFLICT_RETRIES = 16"

definition MAP_FIXED :: u64 where
  "MAP_FIXED = 0x10"

section \<open>State\<close>

record Alias =
  alias_base :: u64
  alias_len :: u64
  alias_views :: nat

text \<open>
  \<open>mappings\<close> is the guest mappings' address space; \<open>next_base\<close> the bump allocator's counter;
  \<open>quarantined\<close> the released slots, oldest first; \<open>placed\<close> the mappings a call reserved whole, by
  base (a hash map: its order is whatever the list's is); \<open>aliases\<close> the physical offsets already
  mapped; \<open>reserved_ranges\<close>, \<open>flexible_bases\<close> and \<open>requested\<close> what later queries are answered from;
  \<open>noted\<close> and \<open>stacks\<close> the regions the kernel did not map itself, as start and end; \<open>arena_end\<close> how
  far the arena has been used; \<open>direct_fill\<close> the byte a run asked fresh mappings to be filled with.
\<close>

record kernel =
  memory :: memory
  direct :: direct_state
  mappings :: AddressSpace
  next_base :: u64
  quarantined :: "(u64 \<times> u64) list"
  placed :: "(u64 \<times> u64) list"
  aliases :: "(u64, Alias) btree"
  reserved_ranges :: "(u64 \<times> u64) list"
  flexible_bases :: "u64 list"
  requested :: "(u64 \<times> u64 \<times> u64) list"
  noted :: "(u64 \<times> u64) list"
  stacks :: "(u64 \<times> u64) list"
  arena_end :: u64
  direct_fill :: "byte option"

definition kernel_init :: "Settings \<Rightarrow> memory \<Rightarrow> byte option \<Rightarrow> kernel" where
  "kernel_init settings m fill =
     \<lparr>memory = m, direct = \<lparr>ds_settings = settings, ds_map = None, flexible_mapped = 0\<rparr>,
      mappings = address_space_new, next_base = MAPPING_BASE, quarantined = [], placed = [],
      aliases = [], reserved_ranges = [], flexible_bases = [], requested = [], noted = [],
      stacks = [], arena_end = 0, direct_fill = fill\<rparr>"

section \<open>Released bases\<close>

definition DEPTH :: nat where
  "DEPTH = 65536"

definition quarantine_release :: "u64 \<Rightarrow> u64 \<Rightarrow> (u64 \<times> u64) list \<Rightarrow> (u64 \<times> u64) list" where
  "quarantine_release base span q = q @ [(base, span)]"

definition quarantine_take :: "u64 \<Rightarrow> (u64 \<times> u64) list \<Rightarrow> u64 option \<times> (u64 \<times> u64) list" where
  "quarantine_take span q =
     (if length q \<le> DEPTH then (None, q)
      else case q of
        [] \<Rightarrow> (None, q)
      | (base, width) # rest \<Rightarrow> if width < span then (None, q) else (Some base, rest))"

section \<open>Slots\<close>

definition slot_unit :: "u64 \<Rightarrow> u64" where
  "slot_unit granularity = max granularity GUEST_PAGE_SIZE"

definition mapping_slot :: "u64 \<Rightarrow> u64 \<Rightarrow> u64 \<Rightarrow> u64" where
  "mapping_slot unit len align =
     saturating_add
       (case checked_next_multiple_of (saturating_add len (max align unit - unit)) unit of
          None \<Rightarrow> U64_MAX | Some n \<Rightarrow> n) unit"

definition placed_in_slot :: "u64 \<Rightarrow> u64 \<Rightarrow> u64" where
  "placed_in_slot start align =
     (case checked_next_multiple_of start align of None \<Rightarrow> start | Some s \<Rightarrow> s)"

definition next_mapping_base :: "u64 \<Rightarrow> u64 \<Rightarrow> u64 \<Rightarrow> kernel \<Rightarrow> u64 \<times> kernel" where
  "next_mapping_base unit len align k =
     (let step = mapping_slot unit len align
      in case quarantine_take step (quarantined k) of
           (Some start, q) \<Rightarrow> (placed_in_slot start align, k\<lparr>quarantined := q\<rparr>)
         | (None, q) \<Rightarrow>
             (placed_in_slot (next_base k) align,
              k\<lparr>quarantined := q, next_base := wrapping_add (next_base k) step\<rparr>))"

section \<open>What a guest may read or write\<close>

definition note_region :: "u64 \<Rightarrow> u64 \<Rightarrow> kernel \<Rightarrow> kernel" where
  "note_region base len k =
     (if len = 0 then k
      else let end = saturating_add base len
      in if (base, end) \<in> set (noted k) then k else k\<lparr>noted := noted k @ [(base, end)]\<rparr>)"

definition region_containing :: "u64 \<Rightarrow> kernel \<Rightarrow> (u64 \<times> u64) option" where
  "region_containing addr k =
     (case region_at addr (mappings k) of
        Some r \<Rightarrow> Some (region_base r, saturating_add (region_base r) (region_len r))
      | None \<Rightarrow>
          (case find (\<lambda>(b, e). b \<le> addr \<and> addr < e) (noted k) of
             Some be \<Rightarrow> Some be
           | None \<Rightarrow>
               (case find (\<lambda>(b, n). b \<le> addr \<and> addr < saturating_add b n) (stacks k) of
                  Some (b, n) \<Rightarrow> Some (b, saturating_add b n)
                | None \<Rightarrow> None)))"

definition range_within :: "u64 \<Rightarrow> u64 \<Rightarrow> u64 \<times> u64 \<Rightarrow> bool" where
  "range_within base len r = (let (start, end) = r in base \<ge> start \<and> saturating_add base len \<le> end)"

definition region_covering :: "u64 \<Rightarrow> u64 \<Rightarrow> kernel \<Rightarrow> (u64 \<times> u64) option" where
  "region_covering base len k =
     (case region_containing base k of
        None \<Rightarrow> None
      | Some r \<Rightarrow> if range_within base len r then Some r else None)"

lemma region_at_ahead:
  "region_at a s = Some r \<Longrightarrow> a < saturating_add (region_base r) (region_len r)"
  by (auto simp: region_at_def split: option.splits if_splits)

text \<open>The loop of \<open>guest_range_allows\<close>: from region to region while each allows the access.\<close>

function walk_allows :: "bool \<Rightarrow> u64 \<Rightarrow> u64 \<Rightarrow> AddressSpace \<Rightarrow> bool" where
  "walk_allows write cursor end s =
     (if cursor < end then
        (case region_at cursor s of
           None \<Rightarrow> False
         | Some r \<Rightarrow>
             if \<not> (if write then prot_write (region_protection r) else prot_read (region_protection r))
             then False
             else walk_allows write (saturating_add (region_base r) (region_len r)) end s)
      else True)"
  by pat_completeness auto
termination
  by (relation "measure (\<lambda>(write, cursor, end, s). end - cursor)") (auto dest!: region_at_ahead)

declare walk_allows.simps [simp del]

definition guest_range_allows :: "u64 \<Rightarrow> u64 \<Rightarrow> bool \<Rightarrow> kernel \<Rightarrow> bool" where
  "guest_range_allows base len write k =
     (if len = 0 then False
      else if region_at base (mappings k) \<noteq> None
        then walk_allows write base (saturating_add base len) (mappings k)
      else \<not> write \<and> region_covering base len k \<noteq> None)"

definition is_guest_readable :: "u64 \<Rightarrow> u64 \<Rightarrow> kernel \<Rightarrow> bool" where
  "is_guest_readable base len k = guest_range_allows base len False k"

definition is_guest_writable :: "u64 \<Rightarrow> u64 \<Rightarrow> kernel \<Rightarrow> bool" where
  "is_guest_writable base len k = guest_range_allows base len True k"

section \<open>Aliases of physical memory\<close>

text \<open>The loop of \<open>contiguous_alias\<close>, collecting the pieces in reverse.\<close>

function alias_walk ::
  "(u64, Alias) btree \<Rightarrow> u64 \<Rightarrow> u64 \<Rightarrow> u64 \<Rightarrow> u64 \<Rightarrow> u64 list \<Rightarrow> u64 list option" where
  "alias_walk mapped len covered next_physical next_virtual pieces =
     (if covered < len then
        (case bt_get mapped next_physical of
           None \<Rightarrow> None
         | Some a \<Rightarrow>
             if alias_base a \<noteq> next_virtual \<or> alias_len a = 0 then None
             else (case (checked_add covered (alias_len a), checked_add next_physical (alias_len a),
                         checked_add next_virtual (alias_len a)) of
                     (Some c, Some p, Some v) \<Rightarrow> alias_walk mapped len c p v (next_physical # pieces)
                   | _ \<Rightarrow> None))
      else Some (rev pieces))"
  by pat_completeness auto
termination
  by (relation "measure (\<lambda>(mapped, len, covered, _). len - covered)")
     (auto simp: checked_add_def split: if_splits)

declare alias_walk.simps [simp del]

definition contiguous_alias :: "(u64, Alias) btree \<Rightarrow> u64 \<Rightarrow> u64 \<Rightarrow> (u64 \<times> u64 list) option" where
  "contiguous_alias mapped physical len =
     (case bt_get mapped physical of
        None \<Rightarrow> None
      | Some a \<Rightarrow>
          (case alias_walk mapped len 0 physical (alias_base a) [] of
             None \<Rightarrow> None
           | Some pieces \<Rightarrow> Some (alias_base a, pieces)))"

definition forget_physical :: "u64 \<Rightarrow> u64 \<Rightarrow> kernel \<Rightarrow> kernel" where
  "forget_physical start len k =
     k\<lparr>aliases := filter (\<lambda>(physical, _). physical < start \<or> physical - start \<ge> len) (aliases k)\<rparr>"

text \<open>One view let go of an alias; \<open>None\<close> when that was the last.\<close>

definition drop_view :: "u64 \<Rightarrow> u64 \<Rightarrow> Alias \<Rightarrow> Alias option" where
  "drop_view address len a =
     (if \<not> (alias_base a \<ge> address \<and> alias_base a - address < len) then Some a
      else let a' = a\<lparr>alias_views := alias_views a - 1\<rparr>
      in if alias_views a' > 0 then Some a' else None)"

definition forget_mapped :: "u64 \<Rightarrow> u64 \<Rightarrow> kernel \<Rightarrow> kernel" where
  "forget_mapped address len k =
     (let inside = (\<lambda>base. base \<ge> address \<and> base - address < len);
          kept = List.map_filter (\<lambda>(p, a). map_option (Pair p) (drop_view address len a)) (aliases k);
          held_bases = map (alias_base \<circ> snd) (filter (\<lambda>(p, a). inside (alias_base a)) kept);
          forgotten = (\<lambda>base. inside base \<and> base \<notin> set held_bases)
      in k\<lparr>aliases := kept,
           reserved_ranges := filter (\<lambda>(base, _). \<not> forgotten base) (reserved_ranges k),
           flexible_bases := filter (\<lambda>base. \<not> forgotten base) (flexible_bases k),
           requested := filter (\<lambda>(base, _, _). \<not> forgotten base) (requested k)\<rparr>)"

section \<open>Records of what was placed\<close>

definition note_requested_protection :: "u64 \<Rightarrow> u64 \<Rightarrow> u64 \<Rightarrow> kernel \<Rightarrow> kernel" where
  "note_requested_protection base len prot k =
     k\<lparr>requested :=
         filter (\<lambda>(b, l, _). \<not> (b \<ge> base \<and> saturating_add b l \<le> saturating_add base len)) (requested k)
         @ [(base, len, prot)]\<rparr>"

definition requested_protection :: "u64 \<Rightarrow> kernel \<Rightarrow> u64 option" where
  "requested_protection addr k =
     map_option (\<lambda>(_, _, prot). prot)
       (find (\<lambda>(base, len, _). addr \<ge> base \<and> addr < saturating_add base len) (rev (requested k)))"

definition arena_end_of :: "u64 \<Rightarrow> u64 \<Rightarrow> u64 option" where
  "arena_end_of base len = (if base < MAPPING_BASE then None else Some (saturating_add base len))"

definition note_arena_extent :: "u64 \<Rightarrow> u64 \<Rightarrow> kernel \<Rightarrow> kernel" where
  "note_arena_extent base len k =
     (case arena_end_of base len of
        None \<Rightarrow> k
      | Some e \<Rightarrow> k\<lparr>arena_end := max (arena_end k) e\<rparr>)"

definition arena_span :: "u64 \<Rightarrow> (u64 \<times> u64) option" where
  "arena_span end = (if end \<le> MAPPING_BASE then None else Some (MAPPING_BASE, end - MAPPING_BASE))"

definition fill_for :: "byte option \<Rightarrow> protection \<Rightarrow> byte option" where
  "fill_for b p = (case b of Some x \<Rightarrow> if prot_write p then Some x else None | None \<Rightarrow> None)"

definition fill_mapping :: "u64 \<Rightarrow> u64 \<Rightarrow> protection \<Rightarrow> kernel \<Rightarrow> kernel" where
  "fill_mapping base len p k =
     (case fill_for (direct_fill k) p of
        None \<Rightarrow> k
      | Some x \<Rightarrow> k\<lparr>memory := store base (replicate len x) (memory k)\<rparr>)"

definition mapping_placed :: "u64 \<Rightarrow> u64 \<Rightarrow> protection \<Rightarrow> kernel \<Rightarrow> kernel" where
  "mapping_placed base len p k = fill_mapping base len p (note_arena_extent base len k)"

definition protection_from_guest :: "u64 \<Rightarrow> protection" where
  "protection_from_guest prot =
     (let r = odd prot; w = odd (prot div 2); x = odd (prot div 4)
      in \<lparr>prot_read = (r \<or> w \<or> \<not> x), prot_write = w, prot_execute = x\<rparr>)"

section \<open>The calls\<close>

definition set_map :: "DirectMemory \<Rightarrow> direct_state \<Rightarrow> kernel \<Rightarrow> kernel" where
  "set_map d g k = k\<lparr>direct := g\<lparr>ds_map := Some d\<rparr>\<rparr>"

definition allocate_main_direct_memory ::
  "u64 \<Rightarrow> u64 \<Rightarrow> u64 \<Rightarrow> u64 \<Rightarrow> kernel \<Rightarrow> u64 \<times> kernel" where
  "allocate_main_direct_memory len alignment ty out k =
     (if len = 0 \<or> out = 0 then (status InvalidArgument, k)
      else if ty \<ge> 2 ^ 32 then (status InvalidArgument, k)
      else let (d, g) = direct_map (direct k)
      in if alignment \<noteq> 0 \<and> \<not> is_power_of_two alignment
         then (status InvalidArgument, set_map d g k)
         else let align = max alignment DIRECT_ALIGN
         in case allocate_aligned len align (of_nat ty) d of
              (None, d') \<Rightarrow> (status NoMemory, set_map d' g k)
            | (Some address, d') \<Rightarrow>
                (let (written, m) = write_u64 out address (memory k)
                 in (if written then OK else status InvalidArgument, (set_map d' g k)\<lparr>memory := m\<rparr>)))"

definition allocate_direct_memory ::
  "u64 \<Rightarrow> u64 \<Rightarrow> u64 \<Rightarrow> u64 \<Rightarrow> u64 \<Rightarrow> u64 \<Rightarrow> kernel \<Rightarrow> u64 \<times> kernel" where
  "allocate_direct_memory search_start search_end len alignment ty out k =
     (if len = 0 \<or> out = 0 then (status InvalidArgument, k)
      else if alignment \<noteq> 0 \<and> \<not> is_power_of_two alignment then (status InvalidArgument, k)
      else if ty \<ge> 2 ^ 32 then (status InvalidArgument, k)
      else let (d, g) = direct_map (direct k)
      in case allocate_aligned_from search_start len alignment (of_nat ty) d of
           (None, d') \<Rightarrow> (status (vendor ERRNO_AGAIN), set_map d' g k)
         | (Some address, d') \<Rightarrow>
             if search_end \<noteq> 0 \<and> saturating_add address len > search_end
             then (status NoMemory, set_map (snd (release_direct address len d')) g k)
             else (let (written, m) = write_u64 out address (memory k)
                   in if \<not> written
                      then (status InvalidArgument, set_map (snd (release_direct address len d')) g k)
                      else (OK, (set_map d' g k)\<lparr>memory := m\<rparr>)))"

definition release_direct_memory :: "u64 \<Rightarrow> u64 \<Rightarrow> kernel \<Rightarrow> u64 \<times> kernel" where
  "release_direct_memory start len k =
     (if len = 0 then (status InvalidArgument, k)
      else let (d, g) = direct_map (direct k)
      in case release_direct start len d of
           (True, d') \<Rightarrow> (OK, forget_physical start len (set_map d' g k))
         | (False, d') \<Rightarrow> (status InvalidArgument, set_map d' g k))"

definition map_system_region :: "host_call \<Rightarrow> u64 \<Rightarrow> u64 \<Rightarrow> kernel \<Rightarrow> bool \<times> kernel" where
  "map_system_region host_reserve base len k =
     (if owns base len (mappings k) then (True, k)
      else case reserve host_reserve base len READ_WRITE (mappings k) of
        (Inl _, s) \<Rightarrow> (False, k\<lparr>mappings := s\<rparr>)
      | (Inr _, s) \<Rightarrow> (True, mapping_placed base len READ_WRITE (k\<lparr>mappings := s\<rparr>)))"

text \<open>A view more of each piece.\<close>

definition add_view :: "u64 \<Rightarrow> (u64, Alias) btree \<Rightarrow> (u64, Alias) btree" where
  "add_view piece mapped =
     (case bt_get mapped piece of
        None \<Rightarrow> mapped
      | Some a \<Rightarrow> bt_insert piece (a\<lparr>alias_views := min (2 ^ 32 - 1) (alias_views a + 1)\<rparr>) mapped)"

text \<open>
  The two retry loops of a map: up from a hint past ranges that turn out to be held, and through
  the arena when the guest named no address. Each answers the base placed, if one was.
\<close>

fun hint_retry ::
  "nat \<Rightarrow> host_call \<Rightarrow> u64 \<Rightarrow> u64 \<Rightarrow> u64 \<Rightarrow> protection \<Rightarrow> AddressSpace \<Rightarrow> u64 option \<times> AddressSpace" where
  "hint_retry 0 host_reserve hint len align p s = (None, s)"
| "hint_retry (Suc n) host_reserve hint len align p s =
     (case first_free_at_or_above hint len align s of
        None \<Rightarrow> (None, s)
      | Some free \<Rightarrow>
          (case reserve host_reserve free len p s of
             (Inr _, s') \<Rightarrow> (Some free, s')
           | (Inl _, s') \<Rightarrow> hint_retry n host_reserve (saturating_add free len) len align p s'))"

fun arena_retry ::
  "nat \<Rightarrow> host_call \<Rightarrow> u64 \<Rightarrow> u64 \<Rightarrow> u64 \<Rightarrow> protection \<Rightarrow> kernel \<Rightarrow> u64 option \<times> kernel" where
  "arena_retry 0 host_reserve unit len align p k = (None, k)"
| "arena_retry (Suc n) host_reserve unit len align p k =
     (let (b, k1) = next_mapping_base unit len align k
      in case checked_next_multiple_of b align of
           None \<Rightarrow> (None, k1)
         | Some base \<Rightarrow>
             (case reserve host_reserve base len p (mappings k1) of
                (Inr _, s) \<Rightarrow> (Some base, k1\<lparr>mappings := s\<rparr>)
              | (Inl _, s) \<Rightarrow> arena_retry n host_reserve unit len align p (k1\<lparr>mappings := s\<rparr>)))"

text \<open>Placing one map: into a range reserved before, or fresh, or past what is held.\<close>

definition place_first ::
  "host_call \<Rightarrow> host_call \<Rightarrow> u64 \<Rightarrow> u64 \<Rightarrow> protection \<Rightarrow> AddressSpace \<Rightarrow> u64 option \<times> AddressSpace" where
  "place_first host_reserve host_protect base len p s =
     (if owns base len s
      then (case protect host_protect base len p s of
              (Inl _, s') \<Rightarrow> (None, s') | (Inr _, s') \<Rightarrow> (Some base, s'))
      else (case reserve host_reserve base len p s of
              (Inl _, s') \<Rightarrow> (None, s') | (Inr _, s') \<Rightarrow> (Some base, s')))"

definition place_map ::
  "host_call \<Rightarrow> host_call \<Rightarrow> u64 \<Rightarrow> u64 \<Rightarrow> u64 \<Rightarrow> u64 \<Rightarrow> bool \<Rightarrow> u64 \<Rightarrow> protection \<Rightarrow> kernel \<Rightarrow>
     u64 option \<times> kernel" where
  "place_map host_reserve host_protect unit base len align fixed wanted p k =
     (case place_first host_reserve host_protect base len p (mappings k) of
        (Some b, s) \<Rightarrow> (Some b, k\<lparr>mappings := s\<rparr>)
      | (None, s) \<Rightarrow>
          if wanted \<noteq> 0 then
            (if fixed then (None, k\<lparr>mappings := s\<rparr>)
             else (case hint_retry CONFLICT_RETRIES host_reserve wanted len align p s of
                     (r, s') \<Rightarrow> (r, k\<lparr>mappings := s'\<rparr>)))
          else arena_retry CONFLICT_RETRIES host_reserve unit len align p (k\<lparr>mappings := s\<rparr>))"

definition map_named_direct_memory ::
  "host_call \<Rightarrow> host_call \<Rightarrow> u64 \<Rightarrow> u64 \<Rightarrow> u64 \<Rightarrow> u64 \<Rightarrow> u64 \<Rightarrow> u64 \<Rightarrow> u64 \<Rightarrow> kernel \<Rightarrow> u64 \<times> kernel" where
  "map_named_direct_memory host_reserve host_protect unit out len0 prot flags physical alignment k =
     (if \<not> map_direct_memory (ds_settings (direct k)) then (status Unimplemented, k)
      else case contiguous_alias (aliases k) physical len0 of
        Some (existing, pieces) \<Rightarrow>
          (let (written, m) = write_u64 out existing (memory k)
           in (if written then OK else status InvalidArgument,
               k\<lparr>aliases := fold add_view pieces (aliases k), memory := m\<rparr>))
      | None \<Rightarrow>
          if out = 0 \<or> len0 = 0 then (status InvalidArgument, k)
          else if alignment \<noteq> 0 \<and> \<not> is_power_of_two alignment then (status InvalidArgument, k)
          else let wanted = (case read_u64 out (memory k) of None \<Rightarrow> 0 | Some v \<Rightarrow> v);
                   align = max alignment unit;
                   (b, k1) = (if wanted = 0 then next_mapping_base unit len0 align k else (wanted, k))
          in case (checked_next_multiple_of b align, checked_next_multiple_of len0 GUEST_PAGE_SIZE) of
               (Some base0, Some len) \<Rightarrow>
                 (let p = protection_from_guest prot; reserved_before = owns base0 len (mappings k1)
                  in case place_map host_reserve host_protect unit base0 len align
                            (odd (flags div 16)) wanted p k1 of
                       (None, k2) \<Rightarrow> (status NoMemory, k2)
                     | (Some base, k2) \<Rightarrow>
                         (let k3 = (if reserved_before then k2
                                    else k2\<lparr>placed := AList.update base len (placed k2)\<rparr>);
                              k4 = note_requested_protection base len prot (mapping_placed base len p k3);
                              (written, m) = write_u64 out base (memory k4)
                          in if \<not> written then (status InvalidArgument, k4)
                             else (OK, k4\<lparr>memory := m,
                               aliases := bt_insert physical
                                 \<lparr>alias_base = base, alias_len = len, alias_views = 1\<rparr> (aliases k4)\<rparr>)))
             | _ \<Rightarrow> (status InvalidArgument, k1))"

text \<open>One of the mappings a release covers: let go of unless a view still maps it.\<close>

definition release_one :: "u64 \<Rightarrow> u64 \<times> u64 \<Rightarrow> kernel \<Rightarrow> kernel" where
  "release_one unit bs k =
     (let (base, bytes) = bs
      in if \<exists>pa \<in> set (aliases k). alias_base (snd pa) = base then k
         else case release base bytes (mappings k) of
           (False, s) \<Rightarrow> k\<lparr>mappings := s\<rparr>
         | (True, s) \<Rightarrow>
             k\<lparr>mappings := s, placed := AList.delete base (placed k),
               quarantined := (if base \<ge> MAPPING_BASE
                 then quarantine_release base (mapping_slot unit bytes unit) (quarantined k)
                 else quarantined k)\<rparr>)"

definition release_mapping :: "u64 \<Rightarrow> u64 \<Rightarrow> u64 \<Rightarrow> kernel \<Rightarrow> kernel" where
  "release_mapping unit address len0 k =
     (case checked_next_multiple_of len0 GUEST_PAGE_SIZE of
        None \<Rightarrow> k
      | Some len \<Rightarrow>
          (let end = saturating_add address len;
               inside = filter (\<lambda>(base, bytes). base \<ge> address \<and> saturating_add base bytes \<le> end) (placed k)
           in fold (release_one unit) inside k))"

definition munmap :: "u64 \<Rightarrow> u64 \<Rightarrow> u64 \<Rightarrow> kernel \<Rightarrow> u64 \<times> kernel" where
  "munmap unit address len k =
     (if address = 0 \<or> len = 0 then (status (vendor ERRNO_INVALID), k)
      else (OK, release_mapping unit address len (forget_mapped address len k)))"

section \<open>Slots hold what is placed in them\<close>

lemma dvd_step_le:
  fixes a b d :: nat
  assumes "d dvd a" "d dvd b" "a < b" "0 < d"
  shows "a + d \<le> b"
proof -
  have "d dvd b - a" using assms(1,2) by (rule dvd_diff_nat [rotated])
  then have "d \<le> b - a" using assms(3) by (intro dvd_imp_le) auto
  then show ?thesis using assms(3) by simp
qed

lemma placed_in_slot_offset:
  assumes "is_power_of_two unit" "is_power_of_two align" "unit dvd start" "start + max align unit \<le> U64_MAX"
  shows "align dvd placed_in_slot start align" "start \<le> placed_in_slot start align"
    "placed_in_slot start align \<le> start + (max align unit - unit)"
proof -
  have a: "0 < align" using power_of_two_pos [OF assms(2)] .
  have u: "0 < unit" using power_of_two_pos [OF assms(1)] .
  obtain s where s: "checked_next_multiple_of start align = Some s"
  proof (cases "checked_next_multiple_of start align")
    case None
    have "start mod align < align" using a by simp
    then have "start + (align - start mod align) \<le> start + max align unit" by simp
    then show ?thesis using None a assms(4) by (auto simp: checked_next_multiple_of_def split: if_splits)
  qed
  note sp = next_multiple_Some [OF s]
  have p: "placed_in_slot start align = s" using s by (simp add: placed_in_slot_def)
  show "align dvd placed_in_slot start align" "start \<le> placed_in_slot start align" using p sp by simp_all
  show "placed_in_slot start align \<le> start + (max align unit - unit)"
  proof (cases "align \<le> unit")
    case True
    then have "align dvd start" using power_of_two_dvd [OF assms(2,1)] assms(3) by (metis dvd_trans)
    then have "s = start" using s a by simp
    then show ?thesis using p by simp
  next
    case False
    then have "unit dvd align" using power_of_two_dvd [OF assms(1,2)] by simp
    then have "unit dvd s" "unit dvd start + align" using sp(2) assms(3) by (auto intro: dvd_trans)
    then have "s + unit \<le> start + align" using dvd_step_le [of unit s "start + align"] sp(4) u by simp
    then show ?thesis using p False by simp
  qed
qed

lemma mapping_slot_exact:
  assumes "0 < unit" "len + max align unit + unit \<le> U64_MAX"
  shows "unit dvd mapping_slot unit len align" "len + (max align unit - unit) + unit \<le> mapping_slot unit len align"
    "mapping_slot unit len align < len + max align unit + unit"
proof -
  let ?n = "len + (max align unit - unit)"
  have sat: "saturating_add len (max align unit - unit) = ?n" using assms by (simp add: saturating_add_def)
  obtain n where n: "checked_next_multiple_of ?n unit = Some n"
  proof (cases "checked_next_multiple_of ?n unit")
    case None
    have "?n mod unit < unit" using assms(1) by simp
    then have "?n + (unit - ?n mod unit) \<le> len + max align unit + unit" by simp
    then show ?thesis using None assms by (auto simp: checked_next_multiple_of_def split: if_splits)
  qed
  note np = next_multiple_Some [OF n]
  have slot: "mapping_slot unit len align = n + unit"
    using n np(4) assms by (simp add: mapping_slot_def sat saturating_add_def)
  show "unit dvd mapping_slot unit len align" "?n + unit \<le> mapping_slot unit len align"
    "mapping_slot unit len align < len + max align unit + unit"
    using slot np(1,2,4) by auto
qed

section \<open>Which bytes a guest may touch\<close>

definition region_allows :: "bool \<Rightarrow> region \<Rightarrow> bool" where
  "region_allows write r =
     (if write then prot_write (region_protection r) else prot_read (region_protection r))"

lemma walk_allows_iff:
  assumes "space_ok s"
  shows "walk_allows w cursor stop s \<longleftrightarrow>
    (\<forall>a. cursor \<le> a \<and> a < stop \<longrightarrow> (\<exists>r. region_at a s = Some r \<and> region_allows w r))"
  using assms
proof (induction w cursor stop s rule: walk_allows.induct)
  case (1 w cursor stop s)
  note unf = walk_allows.simps [of w cursor stop s]
  show ?case
  proof (cases "cursor < stop")
    case False
    then show ?thesis unfolding unf by auto
  next
    case lt: True
    show ?thesis
    proof (cases "region_at cursor s")
      case None
      then show ?thesis unfolding unf using lt by auto
    next
      case (Some r)
      have g: "bt_get (regions s) (region_base r) = Some r" "region_base r \<le> cursor"
        "cursor < region_base r + region_len r"
        using Some by (auto simp: region_at_iff [OF 1(2)])
      have e: "saturating_add (region_base r) (region_len r) = region_base r + region_len r"
        using region_end_exact [OF 1(2) g(1)] .
      have here: "region_at a s = Some r" if "cursor \<le> a" "a < region_base r + region_len r" for a
        using g that by (simp add: region_at_iff [OF 1(2)])
      show ?thesis
      proof (cases "region_allows w r")
        case False
        then show ?thesis unfolding unf using lt Some by (auto simp: region_allows_def)
      next
        case True
        have "walk_allows w cursor stop s \<longleftrightarrow> walk_allows w (region_base r + region_len r) stop s"
          unfolding unf using lt Some True e by (simp add: region_allows_def)
        also have "\<dots> \<longleftrightarrow> (\<forall>a. region_base r + region_len r \<le> a \<and> a < stop \<longrightarrow>
            (\<exists>q. region_at a s = Some q \<and> region_allows w q))"
          using 1(1) [OF lt Some _ 1(2)] True e by (simp add: region_allows_def)
        also have "\<dots> \<longleftrightarrow> (\<forall>a. cursor \<le> a \<and> a < stop \<longrightarrow>
            (\<exists>q. region_at a s = Some q \<and> region_allows w q))"
        proof (intro iffI allI impI)
          fix a assume rest: "\<forall>a. region_base r + region_len r \<le> a \<and> a < stop \<longrightarrow>
              (\<exists>q. region_at a s = Some q \<and> region_allows w q)" and a: "cursor \<le> a \<and> a < stop"
          show "\<exists>q. region_at a s = Some q \<and> region_allows w q"
            using rest a here [of a] True by (cases "a < region_base r + region_len r") auto
        next
          fix a assume "\<forall>a. cursor \<le> a \<and> a < stop \<longrightarrow> (\<exists>q. region_at a s = Some q \<and> region_allows w q)"
            and "region_base r + region_len r \<le> a \<and> a < stop"
          then show "\<exists>q. region_at a s = Some q \<and> region_allows w q" using g(3) by simp
        qed
        finally show ?thesis .
      qed
    qed
  qed
qed

section \<open>Aliases answer whole runs\<close>

text \<open>\<open>physical + o\<close> is mapped at \<open>virt + o\<close> by a piece of the table.\<close>

definition maps_byte :: "(u64, Alias) btree \<Rightarrow> u64 \<Rightarrow> u64 \<Rightarrow> bool" where
  "maps_byte mapped phys virt \<longleftrightarrow>
     (\<exists>p a. bt_get mapped p = Some a \<and> p \<le> phys \<and> phys < p + alias_len a \<and> virt = alias_base a + (phys - p))"

lemma alias_walk_sound:
  assumes "alias_walk mapped len covered np nv ps = Some qs" "np = phys + covered" "nv = virt + covered"
    "\<And>i. i < covered \<Longrightarrow> maps_byte mapped (phys + i) (virt + i)"
  shows "\<forall>i < len. maps_byte mapped (phys + i) (virt + i)"
  using assms
proof (induction mapped len covered np nv ps rule: alias_walk.induct)
  case (1 mapped len covered np nv ps)
  note unf = alias_walk.simps [of mapped len covered np nv ps]
  show ?case
  proof (cases "covered < len")
    case False
    then show ?thesis using 1(5) by auto
  next
    case True
    obtain a where a: "bt_get mapped np = Some a" "alias_base a = nv" "0 < alias_len a"
      "checked_add covered (alias_len a) = Some (covered + alias_len a)"
      "checked_add np (alias_len a) = Some (np + alias_len a)"
      "checked_add nv (alias_len a) = Some (nv + alias_len a)"
      and rec: "alias_walk mapped len (covered + alias_len a) (np + alias_len a) (nv + alias_len a) (np # ps) = Some qs"
      using 1(2) True unfolding unf by (auto simp: checked_add_def split: option.splits if_splits)
    have upto: "maps_byte mapped (phys + i) (virt + i)" if "i < covered + alias_len a" for i
    proof (cases "i < covered")
      case True
      then show ?thesis using 1(5) by blast
    next
      case False
      then show ?thesis
        unfolding maps_byte_def using a(1-3) that 1(3,4) by (intro exI [of _ np] exI [of _ a]) auto
    qed
    have ne: "\<not> (alias_base a \<noteq> nv \<or> alias_len a = 0)" using a(2,3) by simp
    show ?thesis
      using 1(1) [OF True a(1) ne refl a(4) refl a(5) a(6) rec] 1(3,4) upto by (simp add: add.assoc)
  qed
qed

lemma contiguous_alias_sound:
  assumes "contiguous_alias mapped physical len = Some (virt, pieces)"
  shows "\<forall>i < len. maps_byte mapped (physical + i) (virt + i)"
proof -
  have "alias_walk mapped len 0 physical virt [] = Some pieces"
    using assms by (auto simp: contiguous_alias_def split: option.splits)
  then show ?thesis using alias_walk_sound [of mapped len 0 physical virt "[]" pieces physical virt] by simp
qed

section \<open>The kernel's invariant\<close>

definition the_map :: "direct_state \<Rightarrow> DirectMemory" where
  "the_map g = fst (direct_map g)"

definition holds_range :: "AddressSpace \<Rightarrow> u64 \<Rightarrow> u64 \<Rightarrow> bool" where
  "holds_range s base len \<longleftrightarrow> (\<exists>r. bt_get (regions s) base = Some r \<and> region_len r = len)"

definition kernel_ok :: "kernel \<Rightarrow> bool" where
  "kernel_ok k \<longleftrightarrow> space_ok (mappings k) \<and> space_agrees (mappings k) \<and> dm_ok (the_map (direct k)) \<and>
     bt_wf (aliases k) \<and> distinct (map fst (placed k)) \<and>
     (\<forall>b n. map_of (placed k) b = Some n \<longrightarrow> holds_range (mappings k) b n)"

text \<open>What a step that only adds regions keeps.\<close>

definition grows :: "AddressSpace \<Rightarrow> AddressSpace \<Rightarrow> bool" where
  "grows s s' \<longleftrightarrow> space_ok s' \<and> space_agrees s' \<and>
     (\<forall>b r. bt_get (regions s) b = Some r \<longrightarrow> bt_get (regions s') b = Some r)"

lemma grows_trans: "grows s t \<Longrightarrow> grows t u \<Longrightarrow> grows s u"
  by (simp add: grows_def)

lemma grows_refl: "space_ok s \<Longrightarrow> space_agrees s \<Longrightarrow> grows s s"
  by (simp add: grows_def)

text \<open>A region that was not there before.\<close>

definition new_range :: "AddressSpace \<Rightarrow> AddressSpace \<Rightarrow> u64 \<Rightarrow> u64 \<Rightarrow> bool" where
  "new_range s s' base len \<longleftrightarrow> holds_range s' base len \<and> bt_get (regions s) base = None"

lemma new_range_grows: "grows s t \<Longrightarrow> new_range t u base len \<Longrightarrow> new_range s u base len"
  by (auto simp: new_range_def grows_def) (metis not_Some_eq)

lemma reserve_grows:
  assumes "space_ok s" "space_agrees s" "host_in_range hr" "reserve hr base len p s = (res, s')"
  shows "grows s s'" "res = Inr r \<Longrightarrow> new_range s s' base len"
proof -
  have ok: "space_ok s'" "space_agrees s'"
    using reserve_space_ok [OF assms(1,3,4)] reserve_agrees [OF assms] by simp_all
  show "grows s s'"
    using reserve_cases [OF assms(4)] ok validate_fresh [OF assms(1)] by (auto simp: grows_def bt_get_insert)
  show "new_range s s' base len" if "res = Inr r"
    using reserve_cases [OF assms(4)] that validate_fresh [OF assms(1)]
    by (auto simp: new_range_def holds_range_def bt_get_insert)
qed

lemma protect_grows:
  assumes "space_ok s" "space_agrees s" "0 < len" "protect hp base len p s = (res, s')"
  shows "grows s s'" "regions s' = regions s"
proof -
  show "regions s' = regions s" using protect_cases [OF assms(4)] by auto
  then show "grows s s'"
    using protect_space_ok [OF assms(1,4)] protect_agrees [OF assms] by (simp add: grows_def)
qed

lemma hint_retry_grows:
  assumes "space_ok s" "space_agrees s" "host_in_range hr" "hint_retry n hr hint len align p s = (res, s')"
  shows "grows s s' \<and> (\<forall>b. res = Some b \<longrightarrow> new_range s s' b len)"
  using assms
proof (induction n arbitrary: hint s)
  case 0
  then show ?case by (simp add: grows_refl)
next
  case (Suc n)
  show ?case
  proof (cases "first_free_at_or_above hint len align s")
    case None
    then show ?thesis using Suc.prems by (auto simp: grows_refl)
  next
    case (Some free)
    obtain r t where rt: "reserve hr free len p s = (r, t)" by fastforce
    note g = reserve_grows [OF Suc.prems(1-3) rt]
    show ?thesis
    proof (cases r)
      case (Inr reg)
      then show ?thesis using Suc.prems(4) Some rt g by auto
    next
      case (Inl e)
      have t: "space_ok t" "space_agrees t" using g(1) by (simp_all add: grows_def)
      have "hint_retry n hr (saturating_add free len) len align p t = (res, s')"
        using Suc.prems(4) Some rt Inl by simp
      then show ?thesis using Suc.IH [OF t Suc.prems(3)] grows_trans [OF g(1)] new_range_grows [OF g(1)] by blast
    qed
  qed
qed

text \<open>The parts of the kernel that choosing a base leaves alone.\<close>

definition same_but_space :: "kernel \<Rightarrow> kernel \<Rightarrow> bool" where
  "same_but_space k k' \<longleftrightarrow> direct k' = direct k \<and> aliases k' = aliases k \<and> placed k' = placed k \<and>
     memory k' = memory k \<and> requested k' = requested k"

lemma next_mapping_base_same:
  "next_mapping_base unit len align k = (b, k') \<Longrightarrow> same_but_space k k' \<and> mappings k' = mappings k"
  by (auto simp: next_mapping_base_def same_but_space_def Let_def split: prod.splits option.splits)

lemma arena_retry_grows:
  assumes "space_ok (mappings k)" "space_agrees (mappings k)" "host_in_range hr"
    "arena_retry n hr unit len align p k = (res, k')"
  shows "grows (mappings k) (mappings k') \<and> same_but_space k k' \<and>
    (\<forall>b. res = Some b \<longrightarrow> new_range (mappings k) (mappings k') b len)"
  using assms
proof (induction n arbitrary: k)
  case 0
  then show ?case by (simp add: grows_refl same_but_space_def)
next
  case (Suc n)
  obtain b k1 where k1: "next_mapping_base unit len align k = (b, k1)" by fastforce
  have m: "mappings k1 = mappings k" and sm: "same_but_space k k1" using next_mapping_base_same [OF k1] by auto
  show ?case
  proof (cases "checked_next_multiple_of b align")
    case None
    then show ?thesis using Suc.prems k1 m sm by (auto simp: grows_refl)
  next
    case (Some base)
    obtain r t where rt: "reserve hr base len p (mappings k1) = (r, t)" by fastforce
    note g = reserve_grows [OF Suc.prems(1-3) rt [unfolded m]]
    show ?thesis
    proof (cases r)
      case (Inr reg)
      then show ?thesis using Suc.prems(4) k1 Some rt g sm m by (auto simp: same_but_space_def)
    next
      case (Inl e)
      have t: "space_ok (mappings (k1\<lparr>mappings := t\<rparr>))" "space_agrees (mappings (k1\<lparr>mappings := t\<rparr>))"
        using g(1) by (simp_all add: grows_def)
      have "arena_retry n hr unit len align p (k1\<lparr>mappings := t\<rparr>) = (res, k')"
        using Suc.prems(4) k1 Some rt Inl by simp
      from Suc.IH [OF t Suc.prems(3) this] show ?thesis
        using grows_trans [OF g(1)] new_range_grows [OF g(1)] sm by (auto simp: same_but_space_def)
    qed
  qed
qed

lemma place_first_grows:
  assumes "space_ok s" "space_agrees s" "host_in_range hr" "0 < len" "place_first hr hp base len p s = (res, s')"
  shows "grows s s'"
    "res = Some b \<Longrightarrow> b = base \<and> (new_range s s' base len \<or> owns base len s \<and> regions s' = regions s)"
proof -
  have "grows s s' \<and> (\<forall>b. res = Some b \<longrightarrow>
      b = base \<and> (new_range s s' base len \<or> owns base len s \<and> regions s' = regions s))"
  proof (cases "owns base len s")
    case True
    obtain r t where rt: "protect hp base len p s = (r, t)" by fastforce
    show ?thesis
      using assms(5) rt protect_grows [OF assms(1,2,4) rt] True by (auto simp: place_first_def split: sum.splits)
  next
    case False
    obtain r t where rt: "reserve hr base len p s = (r, t)" by fastforce
    show ?thesis
      using assms(5) rt reserve_grows [OF assms(1-3) rt] False
      by (auto simp: place_first_def split: sum.splits)
  qed
  then show "grows s s'"
    "res = Some b \<Longrightarrow> b = base \<and> (new_range s s' base len \<or> owns base len s \<and> regions s' = regions s)" by blast+
qed

lemma place_map_grows:
  assumes "space_ok (mappings k)" "space_agrees (mappings k)" "host_in_range hr" "0 < len"
    "place_map hr hp unit base len align fixed wanted p k = (res, k')"
  shows "grows (mappings k) (mappings k') \<and> same_but_space k k' \<and>
    (\<forall>b. res = Some b \<longrightarrow> new_range (mappings k) (mappings k') b len \<or>
       (owns base len (mappings k) \<and> b = base \<and> regions (mappings k') = regions (mappings k)))"
proof -
  obtain first s where q: "place_first hr hp base len p (mappings k) = (first, s)" by fastforce
  note f = place_first_grows [OF assms(1-4) q]
  have s: "space_ok s" "space_agrees s" using f(1) by (simp_all add: grows_def)
  show ?thesis
  proof (cases first)
    case (Some b)
    then show ?thesis using assms(5) q f(1) f(2) [OF Some] by (auto simp: place_map_def same_but_space_def)
  next
    case None
    consider "wanted \<noteq> 0" "fixed" | "wanted \<noteq> 0" "\<not> fixed" | "wanted = 0" by blast
    then show ?thesis
    proof cases
      case 1
      then show ?thesis using assms(5) q None f(1) by (auto simp: place_map_def same_but_space_def)
    next
      case 2
      obtain r t where h: "hint_retry CONFLICT_RETRIES hr wanted len align p s = (r, t)" by fastforce
      then show ?thesis
        using assms(5) q None 2 hint_retry_grows [OF s assms(3) h] grows_trans [OF f(1)] new_range_grows [OF f(1)]
        by (auto simp: place_map_def same_but_space_def)
    next
      case 3
      then have "arena_retry CONFLICT_RETRIES hr unit len align p (k\<lparr>mappings := s\<rparr>) = (res, k')"
        using assms(5) q None by (simp add: place_map_def)
      from arena_retry_grows [OF _ _ assms(3) this] show ?thesis
        using s grows_trans [OF f(1)] new_range_grows [OF f(1)] by (auto simp: same_but_space_def)
    qed
  qed
qed

section \<open>Every call keeps the invariant\<close>

lemma the_map_set [simp]: "the_map (g\<lparr>ds_map := Some d\<rparr>) = d"
  by (simp add: the_map_def direct_map_def)

lemma direct_map_the: "direct_map g = (d, g') \<Longrightarrow> d = the_map g \<and> the_map g' = the_map g"
  by (auto simp: the_map_def direct_map_def Let_def split: option.splits)

lemma kernel_ok_set_map:
  assumes "kernel_ok k" "dm_ok d"
  shows "kernel_ok (set_map d g k)" "kernel_ok ((set_map d g k)\<lparr>memory := m\<rparr>)"
  using assms by (simp_all add: kernel_ok_def set_map_def)

lemma allocate_aligned_from_ok: "dm_ok d \<Longrightarrow> allocate_aligned_from s len a ty d = (r, d') \<Longrightarrow> dm_ok d'"
  using dm.take_ok [of d s len a ty] by simp

lemma release_direct_ok: "dm_ok d \<Longrightarrow> dm_ok (snd (release_direct s n d))"
  by (rule dm.give_ok)

text \<open>Regions no call placed whole are there to stay: no call takes them away.\<close>

definition keeps_unplaced :: "kernel \<Rightarrow> kernel \<Rightarrow> bool" where
  "keeps_unplaced k k' \<longleftrightarrow> (\<forall>b n. map_of (placed k) b = None \<longrightarrow> holds_range (mappings k) b n \<longrightarrow>
     holds_range (mappings k') b n \<and> map_of (placed k') b = None)"

lemma keeps_unplaced_same:
  "mappings k' = mappings k \<Longrightarrow> placed k' = placed k \<Longrightarrow> keeps_unplaced k k'"
  by (simp add: keeps_unplaced_def)

lemma keeps_unplaced_grows:
  "grows (mappings k) (mappings k') \<Longrightarrow> placed k' = placed k \<Longrightarrow> keeps_unplaced k k'"
  by (auto simp: keeps_unplaced_def grows_def holds_range_def)

lemma keeps_unplaced_trans: "keeps_unplaced k k1 \<Longrightarrow> keeps_unplaced k1 k2 \<Longrightarrow> keeps_unplaced k k2"
  unfolding keeps_unplaced_def by blast

lemma allocate_main_ok:
  assumes "kernel_ok k" "allocate_main_direct_memory len alignment ty out k = (st, k')"
  shows "kernel_ok k'"
proof -
  obtain d g where dg: "direct_map (direct k) = (d, g)" by fastforce
  have d: "dm_ok d" using assms(1) direct_map_the [OF dg] by (simp add: kernel_ok_def)
  obtain r d' where r: "allocate_aligned len (max alignment DIRECT_ALIGN) (of_nat ty) d = (r, d')" by fastforce
  have d': "dm_ok d'" using r allocate_aligned_from_ok [OF d] by (auto simp: allocate_aligned_def)
  show ?thesis
    using assms dg r kernel_ok_set_map [OF assms(1) d] kernel_ok_set_map [OF assms(1) d']
    by (auto simp: allocate_main_direct_memory_def Let_def split: if_splits option.splits prod.splits)
qed

lemma allocate_direct_ok:
  assumes "kernel_ok k" "allocate_direct_memory s e len alignment ty out k = (st, k')"
  shows "kernel_ok k'"
proof -
  obtain d g where dg: "direct_map (direct k) = (d, g)" by fastforce
  have d: "dm_ok d" using assms(1) direct_map_the [OF dg] by (simp add: kernel_ok_def)
  obtain r d' where r: "allocate_aligned_from s len alignment (of_nat ty) d = (r, d')" by fastforce
  have d': "dm_ok d'" using allocate_aligned_from_ok [OF d r] .
  show ?thesis
    using assms dg r kernel_ok_set_map [OF assms(1) d'] kernel_ok_set_map [OF assms(1) release_direct_ok [OF d']]
    by (auto simp: allocate_direct_memory_def Let_def split: if_splits option.splits prod.splits)
qed

lemma direct_calls_frame:
  "allocate_main_direct_memory len al ty out k = (st, k') \<Longrightarrow> mappings k' = mappings k \<and> placed k' = placed k"
  "allocate_direct_memory s e len al ty out k = (st, k') \<Longrightarrow> mappings k' = mappings k \<and> placed k' = placed k"
  "release_direct_memory b n k = (st, k') \<Longrightarrow> mappings k' = mappings k \<and> placed k' = placed k"
  by (auto simp: allocate_main_direct_memory_def allocate_direct_memory_def release_direct_memory_def
      forget_physical_def set_map_def Let_def split: if_splits option.splits prod.splits bool.splits)

lemma bt_wf_filter: "bt_wf m \<Longrightarrow> bt_wf (filter P m)"
  by (simp add: bt_wf_def sorted_wrt_map sorted_wrt_filter)

lemma release_direct_memory_ok:
  assumes "kernel_ok k" "release_direct_memory start len k = (st, k')"
  shows "kernel_ok k'"
proof -
  obtain d g where dg: "direct_map (direct k) = (d, g)" by fastforce
  have d: "dm_ok d" using assms(1) direct_map_the [OF dg] by (simp add: kernel_ok_def)
  obtain b d' where r: "release_direct start len d = (b, d')" by fastforce
  have d': "dm_ok d'" using release_direct_ok [OF d, of start len] r by simp
  have "kernel_ok (forget_physical start len (set_map d' g k))"
    using kernel_ok_set_map(1) [OF assms(1) d', of g] by (auto simp: kernel_ok_def forget_physical_def bt_wf_filter)
  then show ?thesis
    using assms dg r kernel_ok_set_map(1) [OF assms(1) d', of g]
    by (cases b) (auto simp: release_direct_memory_def split: if_splits)
qed

text \<open>Updates of the records the invariant does not speak of.\<close>

lemma kernel_ok_frame:
  assumes "kernel_ok k" "mappings k' = mappings k" "direct k' = direct k" "aliases k' = aliases k" "placed k' = placed k"
  shows "kernel_ok k'"
  using assms by (simp add: kernel_ok_def)

lemma mapping_placed_fields [simp]:
  "mappings (mapping_placed b n p k) = mappings k" "direct (mapping_placed b n p k) = direct k"
  "aliases (mapping_placed b n p k) = aliases k" "placed (mapping_placed b n p k) = placed k"
  by (simp_all add: mapping_placed_def fill_mapping_def note_arena_extent_def split: option.split)

lemma note_requested_fields [simp]:
  "mappings (note_requested_protection b n p k) = mappings k" "direct (note_requested_protection b n p k) = direct k"
  "aliases (note_requested_protection b n p k) = aliases k" "placed (note_requested_protection b n p k) = placed k"
  by (simp_all add: note_requested_protection_def)

lemma kernel_ok_grows:
  assumes "kernel_ok k" "grows (mappings k) s" "mappings k' = s" "direct k' = direct k" "aliases k' = aliases k" "placed k' = placed k"
  shows "kernel_ok k'"
  using assms unfolding kernel_ok_def grows_def holds_range_def by (auto, blast)

lemma map_system_region_ok:
  assumes "kernel_ok k" "host_in_range hr" "map_system_region hr base len k = (ok, k')"
  shows "kernel_ok k'"
proof -
  obtain r s where r: "reserve hr base len READ_WRITE (mappings k) = (r, s)" by fastforce
  have g: "grows (mappings k) s" using reserve_grows(1) [OF _ _ assms(2) r] assms(1) by (simp add: kernel_ok_def)
  show ?thesis
    using assms(1,3) r kernel_ok_grows [OF assms(1) g, of k']
    by (cases r) (auto simp: map_system_region_def split: if_splits)
qed

lemma map_system_region_keeps:
  assumes "kernel_ok k" "host_in_range hr" "map_system_region hr base len k = (ok, k')"
  shows "keeps_unplaced k k'"
proof -
  obtain r s where r: "reserve hr base len READ_WRITE (mappings k) = (r, s)" by fastforce
  have g: "grows (mappings k) s" using reserve_grows(1) [OF _ _ assms(2) r] assms(1) by (simp add: kernel_ok_def)
  show ?thesis
    using assms(3) r g
    by (cases r) (auto simp: map_system_region_def split: if_splits intro: keeps_unplaced_grows keeps_unplaced_same)
qed

lemma bt_wf_add_view: "bt_wf m \<Longrightarrow> bt_wf (add_view p m)"
  by (simp add: add_view_def split: option.split)

lemma bt_wf_add_views: "bt_wf m \<Longrightarrow> bt_wf (fold add_view ps m)"
  by (induction ps arbitrary: m) (simp_all add: bt_wf_add_view)

lemma same_but_space_ok:
  assumes "kernel_ok k" "grows (mappings k) (mappings k')" "same_but_space k k'"
  shows "kernel_ok k'"
  using kernel_ok_grows [OF assms(1,2)] assms(3) by (simp add: same_but_space_def)

lemma kernel_ok_alias: "kernel_ok k \<Longrightarrow> bt_wf m \<Longrightarrow> kernel_ok (k\<lparr>aliases := m, memory := mem\<rparr>)"
  "kernel_ok k \<Longrightarrow> bt_wf m \<Longrightarrow> kernel_ok (k\<lparr>memory := mem, aliases := m\<rparr>)"
  by (simp_all add: kernel_ok_def)

lemma kernel_ok_placed:
  "kernel_ok k \<Longrightarrow> holds_range (mappings k) base len \<Longrightarrow> kernel_ok (k\<lparr>placed := AList.update base len (placed k)\<rparr>)"
  by (auto simp: kernel_ok_def distinct_update update_conv' split: if_splits)

lemma place_map_ok:
  assumes "kernel_ok k" "host_in_range hr" "0 < len"
    "place_map hr hp unit base len align fixed wanted p k = (res, k')"
  shows "kernel_ok k'"
    "res = Some b \<Longrightarrow> \<not> owns base len (mappings k) \<Longrightarrow> new_range (mappings k) (mappings k') b len"
    "res = Some b \<Longrightarrow> owns b len (mappings k')" "same_but_space k k'" "grows (mappings k) (mappings k')"
proof -
  have ok: "space_ok (mappings k)" "space_agrees (mappings k)" using assms(1) by (simp_all add: kernel_ok_def)
  note g = place_map_grows [OF ok assms(2-4)]
  show "kernel_ok k'" "same_but_space k k'" "grows (mappings k) (mappings k')" using same_but_space_ok [OF assms(1)] g by blast+
  then have ok': "space_ok (mappings k')" by (simp add: kernel_ok_def)
  show "new_range (mappings k) (mappings k') b len" if "res = Some b" "\<not> owns base len (mappings k)"
    using g that by blast
  show "owns b len (mappings k')" if rb: "res = Some b"
  proof -
    consider "new_range (mappings k) (mappings k') b len"
      | "owns base len (mappings k)" "b = base" "regions (mappings k') = regions (mappings k)"
      using g rb by blast
    then show ?thesis
    proof cases
      case 1
      then show ?thesis unfolding owns_iff [OF ok' assms(3)] new_range_def holds_range_def by force
    next
      case 2
      then show ?thesis by (simp add: owns_def)
    qed
  qed
qed

text \<open>What a map that places memory did, when it answers.\<close>

lemma map_named_effect:
  assumes "kernel_ok k" "host_in_range hr"
    "map_named_direct_memory hr hp unit out len0 prot flags physical alignment k = (st, k')"
  shows "kernel_ok k'"
    "st = OK \<Longrightarrow> contiguous_alias (aliases k) physical len0 = None \<Longrightarrow>
      \<exists>base len. checked_next_multiple_of len0 GUEST_PAGE_SIZE = Some len \<and> 0 < len \<and>
        owns base len (mappings k') \<and> bt_get (aliases k') physical = Some \<lparr>alias_base = base, alias_len = len, alias_views = 1\<rparr>"
    "keeps_unplaced k k'"
proof -
  let ?known = "contiguous_alias (aliases k) physical len0"
  have both: "kernel_ok k' \<and> keeps_unplaced k k' \<and> (st = OK \<longrightarrow> ?known = None \<longrightarrow>
      (\<exists>base len. checked_next_multiple_of len0 GUEST_PAGE_SIZE = Some len \<and> 0 < len \<and>
        owns base len (mappings k') \<and> bt_get (aliases k') physical = Some \<lparr>alias_base = base, alias_len = len, alias_views = 1\<rparr>))"
  proof (cases ?known)
    case (Some ep)
    obtain e ps where ep: "ep = (e, ps)" by (cases ep)
    have "bt_wf (fold add_view ps (aliases k))" using assms(1) by (simp add: kernel_ok_def bt_wf_add_views)
    then show ?thesis
      using assms(1,3) Some ep kernel_ok_alias(1) [OF assms(1)]
      by (auto simp: map_named_direct_memory_def split: if_splits prod.splits intro: keeps_unplaced_same)
  next
    case None
    have fails: "status InvalidArgument \<noteq> OK" "status NoMemory \<noteq> OK" "status Unimplemented \<noteq> OK"
      by (simp_all add: status_def OK_def PLACEHOLDER_BASE_def)
    let ?bad = "\<not> map_direct_memory (ds_settings (direct k)) \<or> out = 0 \<or> len0 = 0 \<or>
      alignment \<noteq> 0 \<and> \<not> is_power_of_two alignment"
    show ?thesis
    proof (cases ?bad)
      case True
      then show ?thesis
        using assms(1,3) None fails
        by (auto simp: map_named_direct_memory_def split: if_splits intro: keeps_unplaced_same)
    next
      case False
      define wanted where "wanted = (case read_u64 out (memory k) of None \<Rightarrow> 0 | Some v \<Rightarrow> v)"
      define align where "align = max alignment unit"
      obtain b k1 where bk: "(if wanted = 0 then next_mapping_base unit len0 align k else (wanted, k)) = (b, k1)"
        by fastforce
      have k1: "same_but_space k k1" "mappings k1 = mappings k"
        using bk next_mapping_base_same by (auto simp: same_but_space_def split: if_splits)
      have keep1: "keeps_unplaced k k1" using k1 by (auto simp: same_but_space_def intro: keeps_unplaced_same)
      have ok1: "kernel_ok k1" using kernel_ok_frame [OF assms(1)] k1 by (simp add: same_but_space_def)
      note unf = assms(3) [unfolded map_named_direct_memory_def None option.case
          wanted_def [symmetric] align_def [symmetric] Let_def bk prod.case]
      show ?thesis
      proof (cases "checked_next_multiple_of b align")
        case N: None
        then show ?thesis using unf False ok1 keep1 fails by auto
      next
        case (Some base0)
        show ?thesis
        proof (cases "checked_next_multiple_of len0 GUEST_PAGE_SIZE")
          case N: None
          then show ?thesis using unf False Some ok1 keep1 fails by auto
        next
          case len: (Some len)
          have pos: "0 < len" using next_multiple_Some(1) [OF len] False by simp
          obtain res k2 where pm: "place_map hr hp unit base0 len align (odd (flags div 16)) wanted
              (protection_from_guest prot) k1 = (res, k2)" by fastforce
          note po = place_map_ok [OF ok1 assms(2) pos pm]
          have keep2: "keeps_unplaced k k2"
            using keeps_unplaced_trans [OF keep1 keeps_unplaced_grows] po(4,5) by (simp add: same_but_space_def)
          show ?thesis
          proof (cases res)
            case N: None
            then show ?thesis using unf False Some len pm po(1) keep2 fails by auto
          next
            case base: (Some base)
            define k3 where "k3 = (if owns base0 len (mappings k1) then k2
              else k2\<lparr>placed := AList.update base len (placed k2)\<rparr>)"
            define k4 where "k4 = note_requested_protection base len prot
              (mapping_placed base len (protection_from_guest prot) k3)"
            have k3: "kernel_ok k3" "mappings k3 = mappings k2"
              using po(1) kernel_ok_placed [OF po(1)] po(2) [OF base] by (auto simp: k3_def new_range_def)
            have k4: "kernel_ok k4" "mappings k4 = mappings k2"
              using k3 kernel_ok_frame [OF k3(1), of k4] by (simp_all add: k4_def)
            have al: "aliases k4 = aliases k3" by (simp add: k4_def)
            have res: "st = OK \<and> k' = k4\<lparr>memory := snd (write_u64 out base (memory k4)),
                aliases := bt_insert physical \<lparr>alias_base = base, alias_len = len, alias_views = 1\<rparr> (aliases k4)\<rparr>"
              using unf False Some len pm base
              by (auto simp: k3_def [symmetric] k4_def [symmetric] write_u64_def al)
            have "bt_wf (aliases k4)" using k4(1) by (simp add: kernel_ok_def)
            then have "kernel_ok k'" using res kernel_ok_alias(2) [OF k4(1)] by simp
            moreover have "keeps_unplaced k k'"
            proof -
              have "placed k' = placed k3" "mappings k' = mappings k2" using res k4(2) by (simp_all add: k4_def)
              moreover have "placed k2 = placed k1" using po(4) by (simp add: same_but_space_def)
              ultimately show ?thesis
                using keep1 keep2 po(2) [OF base] k1(2)
                by (auto simp: keeps_unplaced_def k3_def new_range_def holds_range_def update_conv' split: if_splits)
            qed
            ultimately show ?thesis using res po(3) [OF base] k4(2) len pos by (auto simp: bt_get_insert)
          qed
        qed
      qed
    qed
  qed
  then show "kernel_ok k'" "keeps_unplaced k k'" "st = OK \<Longrightarrow> ?known = None \<Longrightarrow>
      \<exists>base len. checked_next_multiple_of len0 GUEST_PAGE_SIZE = Some len \<and> 0 < len \<and>
        owns base len (mappings k') \<and> bt_get (aliases k') physical = Some \<lparr>alias_base = base, alias_len = len, alias_views = 1\<rparr>"
    by blast+
qed

lemma bt_wf_map_filter:
  assumes "bt_wf m" "\<And>x y. f x = Some y \<Longrightarrow> fst y = fst x"
  shows "bt_wf (List.map_filter f m)"
proof -
  have "map fst (List.map_filter f m) = map fst (filter (\<lambda>x. f x \<noteq> None) m)"
    using assms(2) by (auto simp: List.map_filter_def o_def)
  then show ?thesis using bt_wf_filter [OF assms(1), of "\<lambda>x. f x \<noteq> None"] by (simp add: bt_wf_def)
qed

lemma forget_mapped_ok: "kernel_ok k \<Longrightarrow> kernel_ok (forget_mapped a n k)"
  by (auto simp: kernel_ok_def forget_mapped_def Let_def intro!: bt_wf_map_filter)

lemma release_one_ok:
  assumes "kernel_ok k"
  shows "kernel_ok (release_one unit bs k)"
proof -
  obtain base bytes where bs: "bs = (base, bytes)" by (cases bs)
  obtain ok s where r: "release base bytes (mappings k) = (ok, s)" by fastforce
  have s: "space_ok s" "space_agrees s"
    using release_space_ok [OF _ r] release_agrees [OF _ r] assms by (simp_all add: kernel_ok_def)
  show ?thesis
  proof (cases ok)
    case False
    then have "s = mappings k" using release_cases [OF r] by simp
    then show ?thesis using assms bs r False by (simp add: release_one_def)
  next
    case True
    then have reg: "regions s = bt_remove base (regions (mappings k))" using release_cases [OF r] by auto
    have "holds_range s b n" if "map_of (AList.delete base (placed k)) b = Some n" for b n
      using that assms reg by (auto simp: kernel_ok_def holds_range_def delete_conv' bt_get_remove split: if_splits)
    then show ?thesis
      using assms bs r True s by (auto simp: release_one_def kernel_ok_def distinct_delete)
  qed
qed

lemma release_one_keeps:
  assumes "map_of (placed k0) (fst bs) \<noteq> None" "keeps_unplaced k0 k"
  shows "keeps_unplaced k0 (release_one unit bs k)"
proof -
  obtain base bytes where bs: "bs = (base, bytes)" by (cases bs)
  obtain ok s where r: "release base bytes (mappings k) = (ok, s)" by fastforce
  have "ok \<Longrightarrow> regions s = bt_remove base (regions (mappings k))" "\<not> ok \<Longrightarrow> s = mappings k"
    using release_cases [OF r] by auto
  then show ?thesis
    using assms bs r
    by (cases ok) (auto simp: release_one_def keeps_unplaced_def holds_range_def bt_get_remove delete_conv')
qed

lemma munmap_keeps:
  assumes "munmap unit a n k = (st, k')"
  shows "keeps_unplaced k k'"
proof -
  have fold: "keeps_unplaced k0 (fold (release_one unit) xs k)"
    if "set xs \<subseteq> set (placed k0)" "keeps_unplaced k0 k" for xs k k0
    using that
  proof (induction xs arbitrary: k)
    case Nil
    then show ?case by simp
  next
    case (Cons x xs)
    have "map_of (placed k0) (fst x) \<noteq> None" using Cons.prems(1) by (metis list.set_intros(1) prod.collapse subsetD weak_map_of_SomeI option.distinct(1))
    then show ?case using Cons release_one_keeps by simp
  qed
  let ?f = "forget_mapped a n k"
  have f: "mappings ?f = mappings k" "placed ?f = placed k" by (simp_all add: forget_mapped_def Let_def)
  have refl: "keeps_unplaced ?f ?f" by (simp add: keeps_unplaced_same)
  have "keeps_unplaced ?f (release_mapping unit a n ?f)"
    unfolding release_mapping_def Let_def using fold [OF filter_is_subset refl] refl
    by (simp split: option.split)
  then have "keeps_unplaced k (release_mapping unit a n ?f)"
    using keeps_unplaced_trans [OF keeps_unplaced_same] f by blast
  then show ?thesis using assms keeps_unplaced_same [of k k] by (auto simp: munmap_def split: if_splits)
qed

lemma munmap_ok:
  assumes "kernel_ok k" "munmap unit a n k = (st, k')"
  shows "kernel_ok k'"
proof -
  have "kernel_ok (fold (release_one unit) xs k)" if "kernel_ok k" for xs k
    using that by (induction xs arbitrary: k) (simp_all add: release_one_ok)
  then have "kernel_ok (release_mapping unit a n (forget_mapped a n k))"
    using forget_mapped_ok [OF assms(1)] by (auto simp: release_mapping_def Let_def split: option.split)
  then show ?thesis using assms by (auto simp: munmap_def split: if_splits)
qed

section \<open>Every state the calls reach\<close>

text \<open>The guest may write its memory between calls, and the worker notes regions of its own.\<close>

inductive kernel_reachable :: "host_call \<Rightarrow> host_call \<Rightarrow> u64 \<Rightarrow> kernel \<Rightarrow> bool"
  for hr :: host_call and hp :: host_call and unit :: u64 where
  start: "dm_ok (with_shape (pool_bytes st) (map_shape st)) \<Longrightarrow> kernel_reachable hr hp unit (kernel_init st m fill)"
| guest: "kernel_reachable hr hp unit k \<Longrightarrow> kernel_reachable hr hp unit (k\<lparr>memory := m\<rparr>)"
| noted: "kernel_reachable hr hp unit k \<Longrightarrow> kernel_reachable hr hp unit (note_region b n k)"
| main: "kernel_reachable hr hp unit k \<Longrightarrow> allocate_main_direct_memory len al ty out k = (r, k') \<Longrightarrow>
    kernel_reachable hr hp unit k'"
| direct: "kernel_reachable hr hp unit k \<Longrightarrow> allocate_direct_memory s e len al ty out k = (r, k') \<Longrightarrow>
    kernel_reachable hr hp unit k'"
| give: "kernel_reachable hr hp unit k \<Longrightarrow> release_direct_memory b n k = (r, k') \<Longrightarrow> kernel_reachable hr hp unit k'"
| system: "kernel_reachable hr hp unit k \<Longrightarrow> map_system_region hr b n k = (ok, k') \<Longrightarrow> kernel_reachable hr hp unit k'"
| map: "kernel_reachable hr hp unit k \<Longrightarrow>
    map_named_direct_memory hr hp unit out len prot flags phys al k = (r, k') \<Longrightarrow> kernel_reachable hr hp unit k'"
| unmap: "kernel_reachable hr hp unit k \<Longrightarrow> munmap unit a n k = (r, k') \<Longrightarrow> kernel_reachable hr hp unit k'"

lemma kernel_ok_init: "dm_ok (with_shape (pool_bytes st) (map_shape st)) \<Longrightarrow> kernel_ok (kernel_init st m fill)"
  by (simp add: kernel_ok_def kernel_init_def space_ok_new the_map_def direct_map_def Let_def)

lemma kernel_reachable_ok:
  assumes "host_in_range hr" "kernel_reachable hr hp unit k"
  shows "kernel_ok k"
  using assms(2)
proof induction
  case (start st m fill)
  then show ?case by (rule kernel_ok_init)
next
  case (guest k m)
  then show ?case by (simp add: kernel_ok_def)
next
  case (noted k b n)
  then show ?case by (simp add: kernel_ok_def note_region_def Let_def)
next
  case (main k len al ty out r k')
  then show ?case using allocate_main_ok by blast
next
  case (direct k s e len al ty out r k')
  then show ?case using allocate_direct_ok by blast
next
  case (give k b n r k')
  then show ?case using release_direct_memory_ok by blast
next
  case (system k b n ok k')
  then show ?case using map_system_region_ok assms(1) by blast
next
  case (map k out len prot flags phys al r k')
  then show ?case using map_named_effect(1) assms(1) by blast
next
  case (unmap k a n r k')
  then show ?case using munmap_ok by blast
qed

section \<open>Properties\<close>


definition demo_settings :: Settings where
  "demo_settings = settings_default\<lparr>pool_bytes := 0x100000\<rparr>"

definition demo_kernel :: kernel where
  "demo_kernel = kernel_init demo_settings (\<lambda>_. 0) None"

lemma demo_settings_map: "with_shape (pool_bytes demo_settings) (map_shape demo_settings) = demo_direct"
  by (simp add: demo_settings_def settings_default_def demo_direct_def)

lemma demo_kernel_reachable: "kernel_reachable willing_host willing_host 0x10000 demo_kernel"
  unfolding demo_kernel_def
  by (rule kernel_reachable.start) (simp add: demo_settings_map demo_direct_ok)

lemma demo_kernel_ok: "kernel_ok demo_kernel"
  using kernel_reachable_ok [OF willing_host_in_range demo_kernel_reachable] .

lemma demo_kernel_map: "direct_map (direct demo_kernel) =
    (demo_direct, \<lparr>ds_settings = demo_settings, ds_map = Some demo_direct, flexible_mapped = 0\<rparr>)"
  by (simp add: demo_kernel_def kernel_init_def direct_map_def demo_settings_map)


text \<open>A range that starts in a guest mapping may be read or written exactly when every byte of it
  lies in a mapping made with that access; a gap anywhere, or one mapping without the access,
  refuses the whole range, and the check always ends.\<close>

theorem guest_range_allows_exact:
  assumes "kernel_ok k" "region_at base (mappings k) \<noteq> None" "0 < len"
  shows "guest_range_allows base len w k \<longleftrightarrow>
    (\<forall>a. base \<le> a \<and> a < saturating_add base len \<longrightarrow>
      (\<exists>r. region_at a (mappings k) = Some r \<and> region_allows w r))"
  using assms walk_allows_iff [of "mappings k" w base "saturating_add base len"]
  by (simp add: guest_range_allows_def kernel_ok_def)

definition mapped_kernel :: kernel where
  "mapped_kernel = demo_kernel\<lparr>mappings := demo_space\<rparr>"

lemma mapped_kernel_ok: "kernel_ok mapped_kernel"
  using demo_kernel_ok space_reachable_ok [OF willing_host_in_range demo_space_reachable]
  by (auto simp: kernel_ok_def mapped_kernel_def demo_kernel_def kernel_init_def)

theorem guest_range_allows_exact_witness:
  "\<not> guest_range_allows 0x12000 0x4000 True mapped_kernel"
proof -
  have at: "region_at 0x12000 (mappings mapped_kernel) \<noteq> None" "region_at 0x14000 (mappings mapped_kernel) = None"
    by (simp_all add: mapped_kernel_def region_at_def demo_space_eval bt_last_le_def last_of_def saturating_add_def)
  then show ?thesis
    using guest_range_allows_exact [OF mapped_kernel_ok at(1), of "0x4000" True]
    by (auto simp: saturating_add_def intro!: exI [of _ "0x14000"])
qed

text \<open>A mapping placed in a fresh slot starts on its alignment inside the slot and ends at least one
  slot unit before the next slot begins, so mappings handed out one after another never touch; the
  counter stays on the unit's grid.\<close>

theorem next_mapping_base_in_slot:
  assumes "is_power_of_two unit" "is_power_of_two align" "unit dvd next_base k" "length (quarantined k) \<le> DEPTH"
    "next_base k + len + max align unit + unit \<le> U64_MAX" "next_mapping_base unit len align k = (base, k')"
  shows "align dvd base \<and> next_base k \<le> base \<and> base + len + unit \<le> next_base k' \<and> unit dvd next_base k'"
proof -
  have u: "0 < unit" using power_of_two_pos [OF assms(1)] .
  have slot: "unit dvd mapping_slot unit len align" "len + (max align unit - unit) + unit \<le> mapping_slot unit len align"
    "mapping_slot unit len align < len + max align unit + unit"
    using mapping_slot_exact [OF u, of len align] assms(5) by simp_all
  have p: "align dvd placed_in_slot (next_base k) align" "next_base k \<le> placed_in_slot (next_base k) align"
    "placed_in_slot (next_base k) align \<le> next_base k + (max align unit - unit)"
    using placed_in_slot_offset [OF assms(1-3)] assms(5) by simp_all
  have "base = placed_in_slot (next_base k) align" "next_base k' = next_base k + mapping_slot unit len align"
    using assms(4,5,6) slot(3) by (auto simp: next_mapping_base_def quarantine_take_def wrapping_add_def Let_def)
  then show ?thesis using p slot assms(3) by auto
qed

theorem next_mapping_base_in_slot_witness:
  "next_mapping_base 0x10000 0x5000 0x40000 demo_kernel = (0x740000000000, demo_kernel\<lparr>next_base := 0x740000050000\<rparr>) \<and>
   0x740000000000 + 0x5000 + 0x10000 \<le> (0x740000050000 :: nat)"
proof -
  have e: "next_mapping_base 0x10000 0x5000 0x40000 demo_kernel = (0x740000000000, demo_kernel\<lparr>next_base := 0x740000050000\<rparr>)"
    by (simp add: next_mapping_base_def demo_kernel_def kernel_init_def mapping_slot_def saturating_add_def
        checked_next_multiple_of_def checked_add_def quarantine_take_def placed_in_slot_def wrapping_add_def
        MAPPING_BASE_def)
  have p2: "is_power_of_two 0x10000" "is_power_of_two 0x40000"
    unfolding is_power_of_two_iff by (rule exI [of _ 16], simp, rule exI [of _ 18], simp)
  show ?thesis
    using next_mapping_base_in_slot [OF p2 _ _ _ e] e
    by (simp add: demo_kernel_def kernel_init_def MAPPING_BASE_def)
qed

text \<open>A history of releases and requests, with the log of what was released and the slots handed
  out again, both oldest first.\<close>

datatype quarantine_op = Released u64 u64 | Wanted u64

fun quarantine_run ::
  "quarantine_op list \<Rightarrow> (u64 \<times> u64) list \<Rightarrow> (u64 \<times> u64) list \<times> u64 list \<times> (u64 \<times> u64) list" where
  "quarantine_run [] q = ([], [], q)"
| "quarantine_run (Released b n # ops) q =
     (let (log, out, q') = quarantine_run ops (quarantine_release b n q) in ((b, n) # log, out, q'))"
| "quarantine_run (Wanted n # ops) q =
     (case quarantine_take n q of
        (None, q1) \<Rightarrow> quarantine_run ops q1
      | (Some b, q1) \<Rightarrow> (let (log, out, q') = quarantine_run ops q1 in (log, b # out, q')))"

lemma quarantine_take_Some:
  "quarantine_take n q = (Some b, q') \<longleftrightarrow> (\<exists>w. q = (b, w) # q' \<and> n \<le> w \<and> DEPTH \<le> length q')"
  by (auto simp: quarantine_take_def not_less split: list.splits prod.splits if_splits)

lemma quarantine_take_None: "quarantine_take n q = (None, q') \<Longrightarrow> q' = q"
  by (auto simp: quarantine_take_def split: list.splits if_splits)

lemma quarantine_run_fifo:
  "quarantine_run ops q = (log, out, q') \<Longrightarrow>
     \<exists>taken. q @ log = taken @ q' \<and> out = map fst taken \<and> (taken \<noteq> [] \<longrightarrow> DEPTH \<le> length q')"
proof (induction ops q arbitrary: log out q' rule: quarantine_run.induct)
  case (1 q)
  then show ?case by simp
next
  case (2 b n ops q)
  obtain l where l: "quarantine_run ops (quarantine_release b n q) = (l, out, q')" "log = (b, n) # l"
    using 2(2) by (auto simp: Let_def split: prod.splits)
  then show ?case using 2(1) [OF l(1)] by (simp add: quarantine_release_def)
next
  case (3 n ops q)
  obtain r q1 where t: "quarantine_take n q = (r, q1)" by fastforce
  show ?case
  proof (cases r)
    case None
    then show ?thesis using 3(1) [OF t [symmetric] None] 3(3) t quarantine_take_None by auto
  next
    case (Some b)
    obtain w where w: "q = (b, w) # q1" "DEPTH \<le> length q1" using t Some by (auto simp: quarantine_take_Some)
    obtain u where u: "quarantine_run ops q1 = (log, u, q')" "out = b # u"
      using 3(3) t Some by (auto simp: Let_def split: prod.splits)
    obtain taken where tk: "q1 @ log = taken @ q'" "u = map fst taken" "taken \<noteq> [] \<longrightarrow> DEPTH \<le> length q'"
      using 3(2) [OF t [symmetric] Some u(1)] by blast
    have "DEPTH \<le> length q'" using tk(1,3) w(2) by (cases taken) (auto dest: arg_cong [of _ _ length])
    then show ?thesis using tk(1,2) u(2) w(1) by (intro exI [of _ "(b, w) # taken"]) auto
  qed
qed

text \<open>Released bases are handed out again oldest first, each at most once for each release, and
  never before the quarantine's depth of newer releases has followed it: what was released is
  always what was handed out, in order, then what is held.\<close>

theorem quarantine_fifo:
  assumes "quarantine_run ops [] = (log, out, q)"
  shows "\<exists>taken. log = taken @ q \<and> out = map fst taken \<and> (taken \<noteq> [] \<longrightarrow> DEPTH \<le> length q)"
  using quarantine_run_fifo [OF assms] by simp

theorem quarantine_fifo_witness:
  "\<exists>taken. [(0x10000, 0x20000), (0x50000, 0x20000)] = taken @ [(0x10000, 0x20000), (0x50000, 0x20000)] \<and>
     ([] :: nat list) = map fst (taken :: (nat \<times> nat) list)"
proof -
  have "quarantine_run [Released 0x10000 0x20000, Wanted 0x20000, Released 0x50000 0x20000] [] =
      ([(0x10000, 0x20000), (0x50000, 0x20000)], [], [(0x10000, 0x20000), (0x50000, 0x20000)])"
    by (simp add: quarantine_release_def quarantine_take_def DEPTH_def)
  from quarantine_fifo [OF this] show ?thesis by blast
qed

text \<open>A second map of physical memory is answered from the table only when all of it is mapped
  already, byte after byte at consecutive addresses from the one answered.\<close>

theorem contiguous_alias_covers:
  assumes "contiguous_alias mapped physical len = Some (virt, pieces)" "i < len"
  shows "maps_byte mapped (physical + i) (virt + i)"
  using contiguous_alias_sound [OF assms(1)] assms(2) by blast

theorem contiguous_alias_covers_witness:
  "maps_byte [(0x1000, \<lparr>alias_base = 0x9000, alias_len = 0x1000, alias_views = 1\<rparr>),
     (0x2000, \<lparr>alias_base = 0xa000, alias_len = 0x1000, alias_views = 1\<rparr>)] (0x1000 + 0x1800) (0x9000 + 0x1800)"
proof -
  have "contiguous_alias [(0x1000, \<lparr>alias_base = 0x9000, alias_len = 0x1000, alias_views = 1\<rparr>),
     (0x2000, \<lparr>alias_base = 0xa000, alias_len = 0x1000, alias_views = 1\<rparr>)] 0x1000 0x2000 = Some (0x9000, [0x1000, 0x2000])"
    by (simp add: contiguous_alias_def alias_walk.simps bt_get_def checked_add_def)
  then show ?thesis by (rule contiguous_alias_covers) simp
qed

text \<open>A direct map that answers success with no earlier mapping of that memory has placed it: the
  whole range, rounded up to pages, lies inside one guest mapping, and the physical offset is
  recorded as mapped there with one view.\<close>

theorem map_named_direct_memory_places:
  assumes "kernel_ok k" "host_in_range hr"
    "map_named_direct_memory hr hp unit out len prot flags physical alignment k = (OK, k')"
    "contiguous_alias (aliases k) physical len = None"
  shows "\<exists>base n. checked_next_multiple_of len GUEST_PAGE_SIZE = Some n \<and> 0 < n \<and> owns base n (mappings k') \<and>
    bt_get (aliases k') physical = Some \<lparr>alias_base = base, alias_len = n, alias_views = 1\<rparr>"
  using map_named_effect(2) [OF assms(1-3) refl assms(4)] .

theorem map_named_direct_memory_places_witness:
  "\<exists>base n. owns base n (mappings (snd (map_named_direct_memory willing_host willing_host 0x10000 0x1000 0x4000 3 0 0x20000 0 demo_kernel)))
     \<and> 0 < n"
proof -
  have r: "read_u64 0x1000 (\<lambda>_. 0) = Some 0"
    by (simp add: read_u64_def upt_conv_Cons)
  obtain k' where k': "map_named_direct_memory willing_host willing_host 0x10000 0x1000 0x4000 3 0 0x20000 0 demo_kernel = (OK, k')"
    by (simp add: map_named_direct_memory_def demo_kernel_def kernel_init_def demo_settings_def settings_default_def
        contiguous_alias_def r next_mapping_base_def mapping_slot_def saturating_add_def checked_next_multiple_of_def
        checked_add_def quarantine_take_def placed_in_slot_def wrapping_add_def MAPPING_BASE_def
        GUEST_PAGE_SIZE_def place_map_def place_first_def owns_def address_space_new_def bt_last_le_def last_of_def
        reserve_def validate_def holder_of_def bt_last_lt_def willing_host_def Let_def write_u64_def)
  have "contiguous_alias (aliases demo_kernel) 0x20000 0x4000 = None"
    by (simp add: demo_kernel_def kernel_init_def contiguous_alias_def)
  from map_named_direct_memory_places [OF demo_kernel_ok willing_host_in_range k' this] show ?thesis
    unfolding k' by auto
qed

section \<open>A refused allocation\<close>

lemma allocate_direct_refused:
  assumes "kernel_ok k" "allocate_direct_memory s e len al ty out k = (st, k')" "st \<noteq> OK" "DIRECT_ALIGN dvd len"
  shows "the_map (direct k') = the_map (direct k)"
proof -
  obtain d g where dg: "direct_map (direct k) = (d, g)" by fastforce
  have d: "dm_ok d" "the_map (direct k) = d" using assms(1) direct_map_the [OF dg] by (simp_all add: kernel_ok_def)
  obtain r d' where r: "allocate_aligned_from s len al (of_nat ty) d = (r, d')" by fastforce
  have given: "snd (release_direct x len d') = d" if "r = Some x" for x
    using dm.give_take [OF d(1) r [unfolded that]] assms(4) by (auto simp: rounded_len_def)
  have none: "d' = d" if "r = None" using dm.take_None [OF d(1) r [unfolded that]] .
  show ?thesis
    using assms(2,3) dg d(2) r given none
    by (auto simp: allocate_direct_memory_def set_map_def Let_def split: if_splits option.splits prod.splits)
qed

text \<open>An allocation from a range of physical memory that is refused, for whatever reason, leaves
  the physical map as it was when the length asked for is a whole number of 16 KiB units.\<close>

theorem allocate_direct_memory_refused:
  assumes "kernel_ok k" "allocate_direct_memory s e len al ty out k = (st, k')" "st \<noteq> OK" "DIRECT_ALIGN dvd len"
  shows "the_map (direct k') = the_map (direct k)"
  using allocate_direct_refused [OF assms] .

lemma demo_refused:
  assumes "len \<noteq> 0" "direct_map (direct demo_kernel) = (demo_direct, g)"
  shows "allocate_direct_memory 0 0x10000 len 0 0 0x1000 demo_kernel =
     (case allocate_aligned_from 0 len 0 0 demo_direct of
        (None, d') \<Rightarrow> (status (vendor ERRNO_AGAIN), set_map d' g demo_kernel)
      | (Some x, d') \<Rightarrow> if saturating_add x len > 0x10000
          then (status NoMemory, set_map (snd (release_direct x len d')) g demo_kernel)
          else (OK, (set_map d' g demo_kernel)\<lparr>memory := store 0x1000 (to_le 8 x) (memory demo_kernel)\<rparr>))"
  using assms by (auto simp: allocate_direct_memory_def write_u64_def split: option.splits prod.splits)

lemma demo_align0: "max 0 DIRECT_ALIGN = 2 ^ 14" "is_power_of_two (2 ^ 14)"
proof -
  show "is_power_of_two (2 ^ 14)" unfolding is_power_of_two_iff by blast
qed (simp add: DIRECT_ALIGN_def DIRECT_MEMORY_ALIGN_def)

lemma demo_allocate_low:
  assumes "checked_next_multiple_of len DIRECT_ALIGN = Some 0x4000" "len \<noteq> 0"
  shows "allocate_aligned_from 0 len 0 0 demo_direct = (Some 0x10000,
     \<lparr>spans = [span_taken 0 0x10000, span_taken 0x10000 0x14000, span_free 0x14000 0x100000]\<rparr>)"
  using demo_align0 assms
  by (simp add: allocate_aligned_from_def demo_direct_eval aligned_search.simps next_free_def span_taken_def
      span_free_def span_is_empty_def checked_next_multiple_of_def checked_add_def DIRECT_ALIGN_def
      DIRECT_MEMORY_ALIGN_def allocate_def saturating_sub_def split_span_def split: if_splits)

theorem allocate_direct_memory_refused_witness:
  "fst (allocate_direct_memory 0 0x10000 0x4000 0 0 0x1000 demo_kernel) = status NoMemory \<and>
   the_map (direct (snd (allocate_direct_memory 0 0x10000 0x4000 0 0 0x1000 demo_kernel))) = demo_direct"
proof -
  have a: "allocate_aligned_from 0 0x4000 0 0 demo_direct = (Some 0x10000,
     \<lparr>spans = [span_taken 0 0x10000, span_taken 0x10000 0x14000, span_free 0x14000 0x100000]\<rparr>)"
    by (rule demo_allocate_low) (simp_all add: checked_next_multiple_of_def DIRECT_ALIGN_def DIRECT_MEMORY_ALIGN_def)
  obtain k' where k': "allocate_direct_memory 0 0x10000 0x4000 0 0 0x1000 demo_kernel = (status NoMemory, k')"
    using demo_refused [OF _ demo_kernel_map, of "0x4000"] a by (simp add: saturating_add_def)
  have "status NoMemory \<noteq> OK" by (simp add: status_def OK_def PLACEHOLDER_BASE_def)
  moreover have "the_map (direct demo_kernel) = demo_direct" by (simp add: the_map_def demo_kernel_map)
  ultimately show ?thesis
    using allocate_direct_memory_refused [OF demo_kernel_ok k']
    by (simp add: k' DIRECT_ALIGN_def DIRECT_MEMORY_ALIGN_def)
qed


end
