(* ===== verification/Memory_Pool.thy ===== *)
theory Memory_Pool
  imports Kernel_Memory
begin

text \<open>
  Memory pools (\<^verbatim>\<open>orbistoun-kernel/src/pool.rs\<close>): physical memory set aside with an expand, address
  space reserved for it, and granules of 64 KiB committed and decommitted inside that space. \<open>Pool\<close>
  is the bookkeeping with no memory of its own; the four calls run it beside the kernel's mappings
  and physical map, as a pair of both states.

  The lemmas show that the bytes committed are exactly the granules recorded, never more than was
  set aside; that a commit takes all of its range or none of it and a decommit gives back exactly
  what was committed; and that pool reservations stay inside the guest mappings through every call.
\<close>

definition GRANULE :: u64 where
  "GRANULE = 0x10000"

datatype Refusal = Invalid | PoolNoMemory | Unmeasured string

text \<open>A reservation's length and the base of every committed granule (a \<open>BTreeSet\<close>).\<close>

record pool_reservation =
  pr_len :: u64
  pr_committed :: "u64 set"

record Pool =
  capacity :: u64
  pool_committed :: u64
  pool_reservations :: "(u64, pool_reservation) btree"

definition pool_default :: Pool where
  "pool_default = \<lparr>capacity = 0, pool_committed = 0, pool_reservations = []\<rparr>"

definition granular :: "u64 \<Rightarrow> u64 \<Rightarrow> bool" where
  "granular addr len = (addr mod GRANULE = 0 \<and> len mod GRANULE = 0)"

definition granules :: "u64 \<Rightarrow> u64 \<Rightarrow> u64 list" where
  "granules addr len = map (\<lambda>i. addr + i * GRANULE) [0 ..< len div GRANULE]"

definition check_expand :: "u64 \<Rightarrow> u64 \<Rightarrow> Refusal + unit" where
  "check_expand len align =
     (if align \<noteq> 0 \<and> \<not> is_power_of_two align then Inl Invalid
      else if align \<noteq> 0 \<and> align < GRANULE
        then Inl (Unmeasured ''an Expand alignment below the 64 KiB granule'')
      else if len mod GRANULE \<noteq> 0 then Inl Invalid
      else Inr ())"

definition pool_expand :: "u64 \<Rightarrow> Pool \<Rightarrow> Pool" where
  "pool_expand len p = p\<lparr>capacity := saturating_add (capacity p) len\<rparr>"

definition pool_free :: "Pool \<Rightarrow> u64" where
  "pool_free p = saturating_sub (capacity p) (pool_committed p)"

definition pool_reserve :: "u64 \<Rightarrow> u64 \<Rightarrow> Pool \<Rightarrow> Pool" where
  "pool_reserve base len p =
     p\<lparr>pool_reservations := bt_insert base \<lparr>pr_len = len, pr_committed = {}\<rparr> (pool_reservations p)\<rparr>"

definition pool_replace :: "u64 \<Rightarrow> u64 \<Rightarrow> Pool \<Rightarrow> u64 list option \<times> Pool" where
  "pool_replace base len p =
     (case bt_get (pool_reservations p) base of
        None \<Rightarrow> (None, p)
      | Some h \<Rightarrow>
          if pr_len h \<noteq> len then (None, p)
          else (let dropped = sorted_list_of_set (pr_committed h)
                in (Some dropped,
                    p\<lparr>pool_reservations := bt_insert base (h\<lparr>pr_committed := {}\<rparr>) (pool_reservations p),
                      pool_committed := saturating_sub (pool_committed p) (length dropped * GRANULE)\<rparr>)))"

text \<open>The reservation wholly holding a range, by its base.\<close>

definition pool_holder :: "u64 \<Rightarrow> u64 \<Rightarrow> Pool \<Rightarrow> (u64 \<times> pool_reservation) option" where
  "pool_holder addr len p =
     (case checked_add addr len of
        None \<Rightarrow> None
      | Some end \<Rightarrow>
          (case bt_last_le addr (pool_reservations p) of
             None \<Rightarrow> None
           | Some (base, h) \<Rightarrow> if end \<le> saturating_add base (pr_len h) then Some (base, h) else None))"

definition pool_commit :: "u64 \<Rightarrow> u64 \<Rightarrow> Pool \<Rightarrow> (Refusal + u64 list) \<times> Pool" where
  "pool_commit addr len p =
     (if len = 0 then (Inl (Unmeasured ''a commit of no bytes''), p)
      else if \<not> granular addr len then (Inl Invalid, p)
      else case pool_holder addr len p of
        None \<Rightarrow> (Inl (Unmeasured ''a commit outside every pool reservation''), p)
      | Some (base, h) \<Rightarrow>
          if \<exists>g \<in> set (granules addr len). g \<in> pr_committed h
          then (Inl (Unmeasured ''a commit over a granule already committed''), p)
          else if len > pool_free p then (Inl PoolNoMemory, p)
          else (Inr (granules addr len),
                p\<lparr>pool_reservations := bt_insert base
                    (h\<lparr>pr_committed := pr_committed h \<union> set (granules addr len)\<rparr>) (pool_reservations p),
                  pool_committed := saturating_add (pool_committed p) len\<rparr>))"

definition pool_decommit :: "u64 \<Rightarrow> u64 \<Rightarrow> Pool \<Rightarrow> (Refusal + u64 list) \<times> Pool" where
  "pool_decommit addr len p =
     (if len < GRANULE \<or> \<not> granular addr len then (Inl Invalid, p)
      else case pool_holder addr len p of
        None \<Rightarrow> (Inl (Unmeasured ''a decommit outside every pool reservation''), p)
      | Some (base, h) \<Rightarrow>
          (let dropped = filter (\<lambda>g. g \<in> pr_committed h) (granules addr len)
           in (Inr dropped,
               p\<lparr>pool_reservations := bt_insert base
                   (h\<lparr>pr_committed := pr_committed h - set (granules addr len)\<rparr>) (pool_reservations p),
                 pool_committed := saturating_sub (pool_committed p) (length dropped * GRANULE)\<rparr>)))"

section \<open>The calls\<close>

definition refused :: "Refusal \<Rightarrow> u64" where
  "refused r =
     (case r of
        Invalid \<Rightarrow> status (vendor ERRNO_INVALID)
      | PoolNoMemory \<Rightarrow> status (vendor ERRNO_NO_MEMORY)
      | Unmeasured _ \<Rightarrow> status Unimplemented)"

type_synonym pool_state = "kernel \<times> Pool"

definition memory_pool_expand :: "u64 \<Rightarrow> u64 \<Rightarrow> u64 \<Rightarrow> u64 \<Rightarrow> u64 \<Rightarrow> pool_state \<Rightarrow> u64 \<times> pool_state" where
  "memory_pool_expand search_start search_end len align out kp =
     (let (k, p) = kp
      in case check_expand len align of
           Inl r \<Rightarrow> (refused r, kp)
         | Inr _ \<Rightarrow>
             if len = 0 then (OK, kp)
             else let (d, g) = direct_map (direct k)
             in case allocate_aligned_from search_start len (max align GRANULE) 0 d of
                  (None, d') \<Rightarrow> (refused PoolNoMemory, (set_map d' g k, p))
                | (Some start, d') \<Rightarrow>
                    if (case checked_add start len of None \<Rightarrow> True | Some end \<Rightarrow> end > search_end)
                    then (refused PoolNoMemory, (set_map (snd (release_direct start len d')) g k, p))
                    else (let k1 = set_map d' g k; p1 = pool_expand len p
                          in if out = 0 then (OK, (k1, p1))
                             else (let (written, m) = write_u64 out start (memory k1)
                                   in (if written then OK else status (vendor ERRNO_FAULT), (k1\<lparr>memory := m\<rparr>, p1)))))"

text \<open>Takes the access away from each granule in turn, stopping at the first the host refuses.\<close>

fun protect_all :: "host_call \<Rightarrow> u64 list \<Rightarrow> AddressSpace \<Rightarrow> bool \<times> AddressSpace" where
  "protect_all hp [] s = (True, s)"
| "protect_all hp (g # gs) s =
     (case protect hp g GRANULE PROT_NONE s of
        (Inl _, s') \<Rightarrow> (False, s')
      | (Inr _, s') \<Rightarrow> protect_all hp gs s')"

definition write_answer :: "u64 \<Rightarrow> u64 \<Rightarrow> pool_state \<Rightarrow> u64 \<times> pool_state" where
  "write_answer out v kp =
     (let (k, p) = kp; (written, m) = write_u64 out v (memory k)
      in (if written then OK else status (vendor ERRNO_FAULT), (k\<lparr>memory := m\<rparr>, p)))"

text \<open>A reservation that was placed, recorded and answered.\<close>

definition reserve_done :: "u64 \<Rightarrow> u64 \<Rightarrow> u64 \<Rightarrow> pool_state \<Rightarrow> u64 \<times> pool_state" where
  "reserve_done base len out kp =
     (let (k, p) = kp
      in write_answer out base
           (note_requested_protection base len 0 (mapping_placed base len PROT_NONE k), pool_reserve base len p))"

definition reserve_fixed ::
  "host_call \<Rightarrow> host_call \<Rightarrow> u64 \<Rightarrow> u64 \<Rightarrow> u64 \<Rightarrow> u64 \<Rightarrow> pool_state \<Rightarrow> u64 \<times> pool_state" where
  "reserve_fixed hr hp hint len align out kp =
     (let (k, p) = kp
      in if hint mod align \<noteq> 0 then (refused (Unmeasured ''a fixed address off its alignment''), kp)
         else case pool_replace hint len p of
           (Some dropped, p1) \<Rightarrow>
             (case protect_all hp dropped (mappings k) of
                (False, s) \<Rightarrow> (status (vendor ERRNO_INVALID), (k\<lparr>mappings := s\<rparr>, p1))
              | (True, s) \<Rightarrow>
                  write_answer out hint (note_requested_protection hint len 0 (k\<lparr>mappings := s\<rparr>), p1))
         | (None, p1) \<Rightarrow>
             (case reserve hr hint len PROT_NONE (mappings k) of
                (Inl _, s) \<Rightarrow>
                  (refused (Unmeasured ''a fixed address over memory that is not a pool reservation''),
                   (k\<lparr>mappings := s\<rparr>, p1))
              | (Inr _, s) \<Rightarrow> reserve_done hint len out (k\<lparr>mappings := s\<rparr>, p1)))"

text \<open>Up from the hint when there is one, else, or when that fails, through the arena.\<close>

definition reserve_search ::
  "host_call \<Rightarrow> u64 \<Rightarrow> u64 \<Rightarrow> u64 \<Rightarrow> u64 \<Rightarrow> kernel \<Rightarrow> u64 option \<times> kernel" where
  "reserve_search hr unit hint len align k =
     (case (if hint = 0 then None else first_free_at_or_above hint len align (mappings k)) of
        None \<Rightarrow> arena_retry CONFLICT_RETRIES hr unit len align PROT_NONE k
      | Some free \<Rightarrow>
          (case reserve hr free len PROT_NONE (mappings k) of
             (Inr _, s) \<Rightarrow> (Some free, k\<lparr>mappings := s\<rparr>)
           | (Inl _, s) \<Rightarrow> arena_retry CONFLICT_RETRIES hr unit len align PROT_NONE (k\<lparr>mappings := s\<rparr>)))"

definition memory_pool_reserve ::
  "host_call \<Rightarrow> host_call \<Rightarrow> u64 \<Rightarrow> u64 \<Rightarrow> u64 \<Rightarrow> u64 \<Rightarrow> u64 \<Rightarrow> u64 \<Rightarrow> pool_state \<Rightarrow> u64 \<times> pool_state" where
  "memory_pool_reserve hr hp unit hint len0 align0 flags out kp =
     (if len0 = 0 then (status (vendor ERRNO_INVALID), kp)
      else if out = 0 then (status (vendor ERRNO_FAULT), kp)
      else if flags \<noteq> 0 \<and> flags \<noteq> MAP_FIXED
        then (refused (Unmeasured ''a reserve flag other than MAP_FIXED''), kp)
      else if align0 \<noteq> 0 \<and> \<not> is_power_of_two align0
        then (refused (Unmeasured ''a reserve alignment that is not a power of two''), kp)
      else let align = max (max align0 GRANULE) unit
      in case checked_next_multiple_of len0 GRANULE of
           None \<Rightarrow> (status (vendor ERRNO_INVALID), kp)
         | Some len \<Rightarrow>
             if flags = MAP_FIXED then reserve_fixed hr hp hint len align out kp
             else (case reserve_search hr unit hint len align (fst kp) of
                     (None, k) \<Rightarrow> (refused PoolNoMemory, (k, snd kp))
                   | (Some base, k) \<Rightarrow> reserve_done base len out (k, snd kp)))"

fun zero_all :: "u64 list \<Rightarrow> memory \<Rightarrow> bool \<times> memory" where
  "zero_all [] m = (True, m)"
| "zero_all (g # gs) m =
     (case write_bytes g (replicate GRANULE 0) m of
        (False, m') \<Rightarrow> (False, m')
      | (True, m') \<Rightarrow> zero_all gs m')"

text \<open>Backing a committed range: writable, zeroed, then the protection asked for.\<close>

definition back_range ::
  "host_call \<Rightarrow> u64 \<Rightarrow> u64 \<Rightarrow> u64 list \<Rightarrow> protection \<Rightarrow> kernel \<Rightarrow> bool \<times> kernel" where
  "back_range hp addr len gs prot k =
     (case protect hp addr len READ_WRITE (mappings k) of
        (Inl _, s) \<Rightarrow> (False, k\<lparr>mappings := s\<rparr>)
      | (Inr _, s) \<Rightarrow>
          (case zero_all gs (memory k) of
             (False, m) \<Rightarrow> (False, k\<lparr>mappings := s, memory := m\<rparr>)
           | (True, m) \<Rightarrow>
               (case protect hp addr len prot s of
                  (Inl _, s') \<Rightarrow> (False, k\<lparr>mappings := s', memory := m\<rparr>)
                | (Inr _, s') \<Rightarrow> (True, k\<lparr>mappings := s', memory := m\<rparr>))))"

definition memory_pool_commit ::
  "host_call \<Rightarrow> u64 \<Rightarrow> u64 \<Rightarrow> u64 \<Rightarrow> u64 \<Rightarrow> pool_state \<Rightarrow> u64 \<times> pool_state" where
  "memory_pool_commit hp addr len prot flags kp =
     (let (k, p) = kp
      in if flags \<noteq> 0 then (refused (Unmeasured ''a commit with flags''), kp)
         else case pool_commit addr len p of
           (Inl r, p1) \<Rightarrow> (refused r, (k, p1))
         | (Inr gs, p1) \<Rightarrow>
             (case back_range hp addr len gs (protection_from_guest prot) k of
                (False, k1) \<Rightarrow> (status (vendor ERRNO_INVALID), (k1, snd (pool_decommit addr len p1)))
              | (True, k1) \<Rightarrow> (OK, (note_requested_protection addr len prot k1, p1))))"

definition memory_pool_decommit :: "host_call \<Rightarrow> u64 \<Rightarrow> u64 \<Rightarrow> u64 \<Rightarrow> pool_state \<Rightarrow> u64 \<times> pool_state" where
  "memory_pool_decommit hp addr len flags kp =
     (let (k, p) = kp
      in if flags \<noteq> 0 then (refused (Unmeasured ''a decommit with flags''), kp)
         else case pool_decommit addr len p of
           (Inl r, p1) \<Rightarrow> (refused r, (k, p1))
         | (Inr dropped, p1) \<Rightarrow>
             (case protect_all hp dropped (mappings k) of
                (False, s) \<Rightarrow> (status (vendor ERRNO_INVALID), (k\<lparr>mappings := s\<rparr>, p1))
              | (True, s) \<Rightarrow> (OK, (note_requested_protection addr len 0 (k\<lparr>mappings := s\<rparr>), p1))))"

section \<open>Granules\<close>

lemma GRANULE_pos [simp]: "0 < GRANULE"
  by (simp add: GRANULE_def)

lemma granules_length: "granular addr len \<Longrightarrow> length (granules addr len) * GRANULE = len"
  by (simp add: granules_def granular_def mod_eq_0_iff_dvd)

lemma granules_distinct: "distinct (granules addr len)"
  by (simp add: granules_def distinct_map inj_on_def)

lemma granules_mem:
  assumes "granular addr len" "g \<in> set (granules addr len)"
  shows "GRANULE dvd g" "addr \<le> g" "g + GRANULE \<le> addr + len"
proof -
  have "\<exists>i < len div GRANULE. g = addr + i * GRANULE" using assms(2) unfolding granules_def by auto
  then obtain i where i: "g = addr + i * GRANULE" "i < len div GRANULE" by blast
  have "Suc i * GRANULE \<le> len div GRANULE * GRANULE" using i(2) by (intro mult_le_mono1) simp
  then have "Suc i * GRANULE \<le> len" using div_times_less_eq_dividend le_trans by blast
  then show "g + GRANULE \<le> addr + len" using i(1) by simp
  show "addr \<le> g" using i(1) by simp
  show "GRANULE dvd g" using assms(1) i(1) by (simp add: granular_def mod_eq_0_iff_dvd)
qed

section \<open>The pool's invariant\<close>

interpretation prs: interval_index bt_get bt_last_lt bt_wf pr_len
  by unfold_locales (simp_all add: bt_interval_laws)

definition pr_ok :: "u64 \<Rightarrow> pool_reservation \<Rightarrow> bool" where
  "pr_ok b h \<longleftrightarrow> 0 < pr_len h \<and> b + pr_len h \<le> U64_MAX \<and> finite (pr_committed h) \<and>
     (\<forall>g \<in> pr_committed h. GRANULE dvd g \<and> b \<le> g \<and> g + GRANULE \<le> b + pr_len h)"

definition granule_count :: "(u64, pool_reservation) btree \<Rightarrow> nat" where
  "granule_count m = (\<Sum>(b, h) \<leftarrow> m. card (pr_committed h))"

definition pool_ok :: "Pool \<Rightarrow> bool" where
  "pool_ok p \<longleftrightarrow> bt_wf (pool_reservations p) \<and> prs.apart (pool_reservations p) \<and>
     (\<forall>b h. bt_get (pool_reservations p) b = Some h \<longrightarrow> pr_ok b h) \<and> capacity p \<le> U64_MAX \<and>
     pool_committed p = granule_count (pool_reservations p) * GRANULE \<and> pool_committed p \<le> capacity p"

text \<open>The granules committed anywhere.\<close>

definition committed_granules :: "Pool \<Rightarrow> u64 set" where
  "committed_granules p = {g. \<exists>b h. bt_get (pool_reservations p) b = Some h \<and> g \<in> pr_committed h}"

lemma granule_count_insert:
  assumes "bt_wf m"
  shows "granule_count (bt_insert b h m) + (case bt_get m b of None \<Rightarrow> 0 | Some h' \<Rightarrow> card (pr_committed h')) =
    granule_count m + card (pr_committed h)"
  using assms
proof (induction b h m rule: bt_insert.induct)
  case (1 k v)
  then show ?case by (simp add: granule_count_def)
next
  case (2 k v a b m)
  have "bt_get m k = None" if "k \<le> a"
    using 2(2) that by (force simp: bt_get_def map_of_eq_None_iff)
  then show ?case using 2 by (auto simp: granule_count_def bt_get_Cons)
qed

lemma pool_ok_default: "pool_ok pool_default"
  by (simp add: pool_ok_def pool_default_def granule_count_def prs.apart_def)

lemma pool_holder_Some:
  assumes "pool_ok p" "0 < len"
  shows "pool_holder addr len p = Some (b, h) \<longleftrightarrow>
    bt_get (pool_reservations p) b = Some h \<and> b \<le> addr \<and> addr + len \<le> b + pr_len h"
proof -
  have wf: "bt_wf (pool_reservations p)" and ap: "prs.apart (pool_reservations p)"
    using assms(1) by (simp_all add: pool_ok_def)
  have top: "b + pr_len h \<le> U64_MAX" if "bt_get (pool_reservations p) b = Some h" for b h
    using assms(1) that by (auto simp: pool_ok_def pr_ok_def)
  show ?thesis
  proof
    assume "pool_holder addr len p = Some (b, h)"
    then have l: "bt_last_lt (Suc addr) (pool_reservations p) = Some (b, h)"
      and le: "addr + len \<le> saturating_add b (pr_len h)"
      by (auto simp: pool_holder_def bt_last_le_Suc checked_add_def split: option.splits if_splits)
    have g: "bt_get (pool_reservations p) b = Some h" "b \<le> addr" using bt_last_lt_get [OF wf l] by auto
    then show "bt_get (pool_reservations p) b = Some h \<and> b \<le> addr \<and> addr + len \<le> b + pr_len h"
      using le top [OF g(1)] by (simp add: saturating_add_def)
  next
    assume h: "bt_get (pool_reservations p) b = Some h \<and> b \<le> addr \<and> addr + len \<le> b + pr_len h"
    have l: "bt_last_lt (Suc addr) (pool_reservations p) = Some (b, h)"
      using h assms(2) by (intro prs.last_lt_holds [OF wf ap]) auto
    have "addr + len \<le> U64_MAX" "saturating_add b (pr_len h) = b + pr_len h"
      using h top [of b h] by (auto simp: saturating_add_def)
    then show "pool_holder addr len p = Some (b, h)"
      using h l by (simp add: pool_holder_def bt_last_le_Suc checked_add_def)
  qed
qed

text \<open>Changing what is committed in one reservation.\<close>

lemma pool_ok_update:
  assumes "pool_ok p" "bt_get (pool_reservations p) b = Some h" "pr_ok b (h\<lparr>pr_committed := C\<rparr>)"
    "n + card (pr_committed h) * GRANULE = pool_committed p + card C * GRANULE" "n \<le> capacity p"
  shows "pool_ok (p\<lparr>pool_reservations := bt_insert b (h\<lparr>pr_committed := C\<rparr>) (pool_reservations p), pool_committed := n\<rparr>)"
proof -
  have wf: "bt_wf (pool_reservations p)" and ap: "prs.apart (pool_reservations p)"
    using assms(1) by (simp_all add: pool_ok_def)
  let ?m = "bt_insert b (h\<lparr>pr_committed := C\<rparr>) (pool_reservations p)"
  have "prs.apart ?m"
    by (rule prs.apart_put [OF ap bt_get_insert]) (use prs.apartD [OF ap] assms(2) in fastforce)+
  moreover have "n = granule_count ?m * GRANULE"
  proof -
    have "granule_count ?m + card (pr_committed h) = granule_count (pool_reservations p) + card C"
      using granule_count_insert [OF wf, of b "h\<lparr>pr_committed := C\<rparr>"] assms(2) by simp
    then have "granule_count ?m * GRANULE + card (pr_committed h) * GRANULE =
        granule_count (pool_reservations p) * GRANULE + card C * GRANULE"
      by (metis add_mult_distrib)
    then show ?thesis using assms(1,4) by (simp add: pool_ok_def)
  qed
  ultimately show ?thesis
    using assms wf by (auto simp: pool_ok_def bt_get_insert)
qed

lemma pool_commit_Inr:
  assumes "pool_ok p" "pool_commit addr len p = (Inr gs, p')"
  obtains b h where "0 < len" "granular addr len" "bt_get (pool_reservations p) b = Some h" "b \<le> addr"
    "addr + len \<le> b + pr_len h" "gs = granules addr len" "pr_committed h \<inter> set gs = {}" "len \<le> pool_free p"
    "p' = p\<lparr>pool_reservations := bt_insert b (h\<lparr>pr_committed := pr_committed h \<union> set gs\<rparr>) (pool_reservations p),
            pool_committed := pool_committed p + len\<rparr>"
proof -
  obtain b h where c: "0 < len" "granular addr len" "pool_holder addr len p = Some (b, h)"
    "gs = granules addr len" "\<forall>g \<in> set gs. g \<notin> pr_committed h" "len \<le> pool_free p"
    "p' = p\<lparr>pool_reservations := bt_insert b (h\<lparr>pr_committed := pr_committed h \<union> set gs\<rparr>) (pool_reservations p),
            pool_committed := saturating_add (pool_committed p) len\<rparr>"
    using assms(2) by (auto simp: pool_commit_def not_less split: if_splits option.splits)
  have "saturating_add (pool_committed p) len = pool_committed p + len"
    using c(1,6) assms(1) by (auto simp: pool_free_def pool_ok_def saturating_sub_def saturating_add_def)
  moreover have "pr_committed h \<inter> set gs = {}" using c(5) by blast
  ultimately show ?thesis using that c pool_holder_Some [OF assms(1) c(1)] by metis
qed

lemma pool_commit_ok:
  assumes "pool_ok p" "pool_commit addr len p = (r, p')"
  shows "pool_ok p'"
proof (cases r)
  case (Inl e)
  then have "p' = p" using assms(2) by (auto simp: pool_commit_def split: if_splits option.splits)
  then show ?thesis using assms(1) by simp
next
  case (Inr gs)
  from assms(2) [unfolded Inr] show ?thesis
  proof (rule pool_commit_Inr [OF assms(1)])
    fix b h
    assume c: "0 < len" "granular addr len" "bt_get (pool_reservations p) b = Some h" "b \<le> addr"
      "addr + len \<le> b + pr_len h" "gs = granules addr len" "pr_committed h \<inter> set gs = {}" "len \<le> pool_free p"
      "p' = p\<lparr>pool_reservations := bt_insert b (h\<lparr>pr_committed := pr_committed h \<union> set gs\<rparr>) (pool_reservations p),
            pool_committed := pool_committed p + len\<rparr>"
    have h: "pr_ok b h" using assms(1) c(3) by (simp add: pool_ok_def)
    have "pr_ok b (h\<lparr>pr_committed := pr_committed h \<union> set gs\<rparr>)"
      using h granules_mem [OF c(2)] c(4-6) by (fastforce simp: pr_ok_def)
    moreover have "card (pr_committed h \<union> set gs) = card (pr_committed h) + length gs"
      using h c(6,7) granules_distinct by (simp add: card_Un_disjoint pr_ok_def distinct_card)
    then have "card (pr_committed h \<union> set gs) * GRANULE = card (pr_committed h) * GRANULE + len"
      using granules_length [OF c(2)] c(6) by (simp add: add_mult_distrib)
    ultimately show "pool_ok p'"
      unfolding c(9) using c(1,8) assms(1)
      by (intro pool_ok_update [OF assms(1) c(3)]) (auto simp: pool_free_def saturating_sub_def pool_ok_def)
  qed
qed

lemma dropped_count:
  assumes "pool_ok p" "bt_get (pool_reservations p) b = Some h" "X \<subseteq> pr_committed h"
  shows "card X * GRANULE \<le> pool_committed p"
proof -
  have fin: "finite (pr_committed h)" and wf: "bt_wf (pool_reservations p)"
    using assms(1,2) by (auto simp: pool_ok_def pr_ok_def)
  have "card X \<le> card (pr_committed h)" using fin assms(3) by (rule card_mono)
  also have "\<dots> \<le> granule_count (pool_reservations p)"
    using assms(2) wf by (force simp: granule_count_def bt_get_mem intro!: member_le_sum_list)
  finally show ?thesis using assms(1) by (simp add: pool_ok_def)
qed

lemma pool_decommit_Inr:
  assumes "pool_ok p" "pool_decommit addr len p = (Inr dropped, p')"
  obtains b h where "granular addr len" "0 < len" "bt_get (pool_reservations p) b = Some h" "b \<le> addr"
    "addr + len \<le> b + pr_len h" "dropped = filter (\<lambda>g. g \<in> pr_committed h) (granules addr len)"
    "p' = p\<lparr>pool_reservations := bt_insert b (h\<lparr>pr_committed := pr_committed h - set (granules addr len)\<rparr>)
              (pool_reservations p),
            pool_committed := pool_committed p - length dropped * GRANULE\<rparr>"
proof -
  have "granular addr len" "\<not> len < GRANULE"
    using assms(2) by (auto simp: pool_decommit_def split: if_splits)
  moreover have "0 < len" using calculation(2) GRANULE_pos by linarith
  ultimately have g: "granular addr len" "0 < len" by simp_all
  obtain b h where c: "pool_holder addr len p = Some (b, h)"
      "dropped = filter (\<lambda>g. g \<in> pr_committed h) (granules addr len)"
      "p' = p\<lparr>pool_reservations := bt_insert b (h\<lparr>pr_committed := pr_committed h - set (granules addr len)\<rparr>)
              (pool_reservations p),
            pool_committed := pool_committed p - length dropped * GRANULE\<rparr>"
    using assms(2) by (auto simp: pool_decommit_def saturating_sub_def Let_def split: if_splits option.splits)
  then show ?thesis using that g pool_holder_Some [OF assms(1) g(2)] by blast
qed

lemma pool_decommit_ok:
  assumes "pool_ok p" "pool_decommit addr len p = (r, p')"
  shows "pool_ok p'"
proof (cases r)
  case (Inl e)
  then have "p' = p" using assms(2) by (auto simp: pool_decommit_def Let_def split: if_splits option.splits)
  then show ?thesis using assms(1) by simp
next
  case (Inr dropped)
  from assms(2) [unfolded Inr] show ?thesis
  proof (rule pool_decommit_Inr [OF assms(1)])
    fix b h
    assume c: "granular addr len" "0 < len" "bt_get (pool_reservations p) b = Some h"
      "dropped = filter (\<lambda>g. g \<in> pr_committed h) (granules addr len)"
      "p' = p\<lparr>pool_reservations := bt_insert b (h\<lparr>pr_committed := pr_committed h - set (granules addr len)\<rparr>)
              (pool_reservations p),
            pool_committed := pool_committed p - length dropped * GRANULE\<rparr>"
    have h: "pr_ok b h" using assms(1) c(3) by (simp add: pool_ok_def)
    have len: "length dropped = card (set dropped)"
      unfolding c(4) using granules_distinct by (metis distinct_card distinct_filter)
    have sub: "set dropped \<subseteq> pr_committed h" using c(4) by auto
    have "pr_committed h - set (granules addr len) = pr_committed h - set dropped" using c(4) by auto
    then have "card (pr_committed h - set (granules addr len)) + length dropped = card (pr_committed h)"
      using h sub len by (simp add: card_Diff_subset pr_ok_def card_mono)
    then have "card (pr_committed h - set (granules addr len)) * GRANULE + length dropped * GRANULE =
        card (pr_committed h) * GRANULE"
      by (metis add_mult_distrib)
    moreover have "length dropped * GRANULE \<le> pool_committed p"
      using dropped_count [OF assms(1) c(3) sub] len by simp
    moreover have "pr_ok b (h\<lparr>pr_committed := pr_committed h - set (granules addr len)\<rparr>)"
      using h by (simp add: pr_ok_def)
    ultimately show "pool_ok p'"
      unfolding c(5) using assms(1) by (intro pool_ok_update [OF assms(1) c(3)]) (auto simp: pool_ok_def)
  qed
qed

lemma pool_replace_ok:
  assumes "pool_ok p" "pool_replace base len p = (r, p')"
  shows "pool_ok p'"
proof (cases r)
  case None
  then have "p' = p" using assms(2) by (auto simp: pool_replace_def Let_def split: option.splits if_splits)
  then show ?thesis using assms(1) by simp
next
  case (Some dropped)
  then obtain h where h: "bt_get (pool_reservations p) base = Some h" "dropped = sorted_list_of_set (pr_committed h)"
      "p' = p\<lparr>pool_reservations := bt_insert base (h\<lparr>pr_committed := {}\<rparr>) (pool_reservations p),
            pool_committed := pool_committed p - length dropped * GRANULE\<rparr>"
    using assms(2) by (auto simp: pool_replace_def saturating_sub_def Let_def split: option.splits if_splits)
  have ok: "pr_ok base h" using assms(1) h(1) by (simp add: pool_ok_def)
  have "length dropped * GRANULE \<le> pool_committed p"
    using dropped_count [OF assms(1) h(1) subset_refl] h(2) by simp
  then show ?thesis
    unfolding h(3) using ok assms(1) h(2)
    by (intro pool_ok_update [OF assms(1) h(1)]) (auto simp: pr_ok_def pool_ok_def)
qed

lemma pool_reserve_ok:
  assumes "pool_ok p" "bt_get (pool_reservations p) base = None" "0 < len" "base + len \<le> U64_MAX"
    "\<And>b h. bt_get (pool_reservations p) b = Some h \<Longrightarrow> b < base \<Longrightarrow> b + pr_len h \<le> base"
    "\<And>b h. bt_get (pool_reservations p) b = Some h \<Longrightarrow> base < b \<Longrightarrow> base + len \<le> b"
  shows "pool_ok (pool_reserve base len p)"
proof -
  have wf: "bt_wf (pool_reservations p)" and ap: "prs.apart (pool_reservations p)"
    using assms(1) by (simp_all add: pool_ok_def)
  have "prs.apart (bt_insert base \<lparr>pr_len = len, pr_committed = {}\<rparr> (pool_reservations p))"
    by (rule prs.apart_put [OF ap bt_get_insert assms(5)]) (use assms(6) in simp_all)
  moreover have "granule_count (bt_insert base \<lparr>pr_len = len, pr_committed = {}\<rparr> (pool_reservations p)) =
      granule_count (pool_reservations p)"
    using granule_count_insert [OF wf, of base "\<lparr>pr_len = len, pr_committed = {}\<rparr>"] assms(2) by simp
  ultimately show ?thesis
    using assms wf by (auto simp: pool_reserve_def pool_ok_def bt_get_insert pr_ok_def)
qed

section \<open>The pool beside the kernel\<close>

definition pk_ok :: "pool_state \<Rightarrow> bool" where
  "pk_ok kp \<longleftrightarrow> kernel_ok (fst kp) \<and> pool_ok (snd kp) \<and>
     (\<forall>b h. bt_get (pool_reservations (snd kp)) b = Some h \<longrightarrow>
        holds_range (mappings (fst kp)) b (pr_len h) \<and> map_of (placed (fst kp)) b = None)"

definition same_reservations :: "Pool \<Rightarrow> Pool \<Rightarrow> bool" where
  "same_reservations p p' \<longleftrightarrow>
     (\<forall>b h'. bt_get (pool_reservations p') b = Some h' \<longrightarrow>
       (\<exists>h. bt_get (pool_reservations p) b = Some h \<and> pr_len h = pr_len h'))"

lemma same_reservations_refl [simp]: "same_reservations p p"
  by (simp add: same_reservations_def)

lemma pk_ok_step:
  assumes "pk_ok (k, p)" "kernel_ok k'" "pool_ok p'" "keeps_unplaced k k'" "same_reservations p p'"
  shows "pk_ok (k', p')"
  using assms unfolding pk_ok_def keeps_unplaced_def same_reservations_def by (metis fst_conv snd_conv)

lemma pool_ops_reservations:
  assumes "pool_ok p"
  shows "pool_commit addr len p = (r, p') \<Longrightarrow> same_reservations p p'"
    "pool_decommit addr len p = (r, p') \<Longrightarrow> same_reservations p p'"
    "pool_replace addr len p = (q, p') \<Longrightarrow> same_reservations p p'"
proof -
  show "same_reservations p p'" if h: "pool_commit addr len p = (r, p')"
  proof (cases r)
    case (Inl e)
    then show ?thesis using h by (auto simp: pool_commit_def split: if_splits option.splits)
  next
    case (Inr gs)
    from h [unfolded Inr] show ?thesis
      by (rule pool_commit_Inr [OF assms]) (auto simp: same_reservations_def bt_get_insert split: if_splits)
  qed
  show "same_reservations p p'" if h: "pool_decommit addr len p = (r, p')"
  proof (cases r)
    case (Inl e)
    then show ?thesis using h by (auto simp: pool_decommit_def Let_def split: if_splits option.splits)
  next
    case (Inr gs)
    from h [unfolded Inr] show ?thesis
      by (rule pool_decommit_Inr [OF assms]) (auto simp: same_reservations_def bt_get_insert split: if_splits)
  qed
  show "same_reservations p p'" if "pool_replace addr len p = (q, p')"
    using that by (auto simp: pool_replace_def same_reservations_def bt_get_insert Let_def split: option.splits if_splits)
qed

lemma protect_all_grows:
  assumes "space_ok s" "space_agrees s" "protect_all hp gs s = (r, s')"
  shows "grows s s'"
  using assms
proof (induction gs arbitrary: s)
  case Nil
  then show ?case by (simp add: grows_refl)
next
  case (Cons g gs)
  obtain q t where t: "protect hp g GRANULE PROT_NONE s = (q, t)" by fastforce
  note pg = protect_grows(1) [OF Cons.prems(1,2) GRANULE_pos t]
  then have "space_ok t" "space_agrees t" by (simp_all add: grows_def)
  then show ?case using Cons t pg grows_trans [OF pg] by (cases q) auto
qed

lemma pk_ok_space:
  assumes "pk_ok (k, p)" "grows (mappings k) s" "mappings k' = s" "direct k' = direct k" "aliases k' = aliases k"
    "placed k' = placed k" "pool_ok p'" "same_reservations p p'"
  shows "pk_ok (k', p')"
  using assms kernel_ok_grows [OF _ assms(2-6)] keeps_unplaced_grows [of k k']
  by (intro pk_ok_step [OF assms(1)]) (auto simp: pk_ok_def)

lemma set_map_fields [simp]:
  "mappings (set_map d g k) = mappings k" "placed (set_map d g k) = placed k" "aliases (set_map d g k) = aliases k"
  by (simp_all add: set_map_def)

lemma expand_ok:
  assumes "pk_ok kp" "memory_pool_expand s e len align out kp = (st, kp')"
  shows "pk_ok kp'"
proof -
  obtain k p where kp: "kp = (k, p)" by (cases kp)
  have ok: "kernel_ok k" "pool_ok p" using assms(1) kp by (simp_all add: pk_ok_def)
  obtain d g where dg: "direct_map (direct k) = (d, g)" by fastforce
  have d: "dm_ok d" using ok(1) direct_map_the [OF dg] by (simp add: kernel_ok_def)
  obtain r d' where r: "allocate_aligned_from s len (max align GRANULE) 0 d = (r, d')" by fastforce
  have d': "dm_ok d'" using allocate_aligned_from_ok [OF d r] .
  have pe: "pool_ok (pool_expand len p)" "same_reservations p (pool_expand len p)"
    using ok(2) by (auto simp: pool_ok_def pool_expand_def saturating_add_def same_reservations_def)
  have step: "pk_ok (set_map dd g k, p)" "pk_ok (set_map dd g k, pool_expand len p)"
    "pk_ok ((set_map dd g k)\<lparr>memory := m\<rparr>, pool_expand len p)" if "dm_ok dd" for dd m
  proof -
    note st = pk_ok_step [OF assms(1) [unfolded kp]]
    show "pk_ok (set_map dd g k, p)" "pk_ok (set_map dd g k, pool_expand len p)"
      "pk_ok ((set_map dd g k)\<lparr>memory := m\<rparr>, pool_expand len p)"
      using kernel_ok_set_map [OF ok(1) that] ok(2) pe by (auto intro!: st keeps_unplaced_same)
  qed
  show ?thesis
    using assms kp dg r step [OF d'] step [OF release_direct_ok [OF d']]
    by (auto simp: memory_pool_expand_def Let_def split: sum.splits if_splits option.splits prod.splits)
qed

lemma reserve_done_ok:
  assumes "pk_ok (k, p)" "kernel_ok k'" "grows (mappings k) (mappings k')" "new_range (mappings k) (mappings k') base len"
    "placed k' = placed k" "0 < len" "reserve_done base len out (k', p) = (st, kp')"
  shows "pk_ok kp'"
proof -
  have fresh: "bt_get (regions (mappings k)) base = None" and new: "holds_range (mappings k') base len"
    using assms(4) by (simp_all add: new_range_def)
  have inp: "holds_range (mappings k') b (pr_len h)" "map_of (placed k) b = None" "b \<noteq> base"
    if "bt_get (pool_reservations p) b = Some h" for b h
  proof -
    have h: "holds_range (mappings k) b (pr_len h)" "map_of (placed k) b = None"
      using that assms(1) unfolding pk_ok_def fst_conv snd_conv by blast+
    then obtain r where "bt_get (regions (mappings k)) b = Some r" "region_len r = pr_len h"
      unfolding holds_range_def by blast
    with h(2) show "holds_range (mappings k') b (pr_len h)" "map_of (placed k) b = None" "b \<noteq> base"
      using assms(3) fresh by (auto simp: grows_def holds_range_def)
  qed
  have so: "space_ok (mappings k')" using assms(2) by (simp add: kernel_ok_def)
  have ap: "b + n \<le> b'" if "holds_range (mappings k') b n" "holds_range (mappings k') b' m" "b < b'" for b b' n m
    using that so spc.apartD [of "regions (mappings k')"] by (auto simp: holds_range_def space_ok_def)
  have top: "base + len \<le> U64_MAX" using new space_okD(3) [OF so] by (auto simp: holds_range_def)
  have none: "bt_get (pool_reservations p) base = None" using inp(3) by (cases "bt_get (pool_reservations p) base") auto
  have pr: "pool_ok (pool_reserve base len p)"
  proof (rule pool_reserve_ok [OF _ none assms(6) top])
    show "pool_ok p" using assms(1) by (simp add: pk_ok_def)
    show "b + pr_len h \<le> base" if "bt_get (pool_reservations p) b = Some h" "b < base" for b h
      using ap [OF inp(1) [OF that(1)] new that(2)] .
    show "base + len \<le> b" if "bt_get (pool_reservations p) b = Some h" "base < b" for b h
      using ap [OF new inp(1) [OF that(1)] that(2)] .
  qed
  have "map_of (placed k) base = None"
  proof (rule ccontr)
    assume "map_of (placed k) base \<noteq> None"
    then obtain n where "map_of (placed k) base = Some n" by blast
    moreover have "kernel_ok k" using assms(1) by (simp add: pk_ok_def)
    ultimately have "holds_range (mappings k) base n" unfolding kernel_ok_def by blast
    then show False using fresh by (simp add: holds_range_def)
  qed
  then have res: "holds_range (mappings k') b (pr_len h) \<and> map_of (placed k') b = None"
    if "bt_get (pool_reservations (pool_reserve base len p)) b = Some h" for b h
    using that inp [of b h] new assms(5) by (auto simp: pool_reserve_def bt_get_insert split: if_splits)
  define k4 where "k4 = note_requested_protection base len 0 (mapping_placed base len PROT_NONE k')"
  have k4: "kernel_ok (k4\<lparr>memory := m\<rparr>)" "mappings (k4\<lparr>memory := m\<rparr>) = mappings k'" "placed (k4\<lparr>memory := m\<rparr>) = placed k'" for m
    using kernel_ok_frame [OF assms(2), of "k4\<lparr>memory := m\<rparr>"] by (simp_all add: k4_def)
  have "snd kp' = pool_reserve base len p" "\<exists>m. fst kp' = k4\<lparr>memory := m\<rparr>"
    using assms(7) by (auto simp: reserve_done_def write_answer_def Let_def k4_def [symmetric] split: prod.splits)
  then show ?thesis using pr res k4 by (auto simp: pk_ok_def)
qed

lemma reserve_search_ok:
  assumes "kernel_ok k" "host_in_range hr" "reserve_search hr unit hint len align k = (res, k')"
  shows "kernel_ok k' \<and> grows (mappings k) (mappings k') \<and> placed k' = placed k \<and> same_but_space k k' \<and>
    (\<forall>b. res = Some b \<longrightarrow> new_range (mappings k) (mappings k') b len)"
proof -
  have sp: "space_ok (mappings k)" "space_agrees (mappings k)" using assms(1) by (simp_all add: kernel_ok_def)
  have main: "grows (mappings k) (mappings k') \<and> same_but_space k k' \<and>
    (\<forall>b. res = Some b \<longrightarrow> new_range (mappings k) (mappings k') b len)"
  proof (cases "if hint = 0 then None else first_free_at_or_above hint len align (mappings k)")
    case None
    then show ?thesis
      using arena_retry_grows [OF sp assms(2)] assms(3) by (simp add: reserve_search_def)
  next
    case (Some free)
    obtain r s where r: "reserve hr free len PROT_NONE (mappings k) = (r, s)" by fastforce
    note g = reserve_grows [OF sp assms(2) r]
    show ?thesis
    proof (cases r)
      case (Inr reg)
      then show ?thesis using assms(3) Some r g by (auto simp: reserve_search_def same_but_space_def)
    next
      case (Inl e)
      have s: "space_ok (mappings (k\<lparr>mappings := s\<rparr>))" "space_agrees (mappings (k\<lparr>mappings := s\<rparr>))"
        using g(1) by (simp_all add: grows_def)
      have "arena_retry CONFLICT_RETRIES hr unit len align PROT_NONE (k\<lparr>mappings := s\<rparr>) = (res, k')"
        using assms(3) Some r Inl by (simp add: reserve_search_def)
      from arena_retry_grows [OF s assms(2) this] show ?thesis
        using grows_trans [OF g(1)] new_range_grows [OF g(1)] by (auto simp: same_but_space_def)
    qed
  qed
  then show ?thesis using same_but_space_ok [OF assms(1)] by (simp add: same_but_space_def)
qed

lemma write_answer_ok: "pk_ok kp \<Longrightarrow> write_answer out v kp = (st, kp') \<Longrightarrow> pk_ok kp'"
  by (auto simp: write_answer_def pk_ok_def kernel_ok_def Let_def split: prod.splits)

lemma reserve_fixed_ok:
  assumes "pk_ok (k, p)" "host_in_range hr" "0 < len" "reserve_fixed hr hp hint len align out (k, p) = (st, kp')"
  shows "pk_ok kp'"
proof (cases "hint mod align \<noteq> 0")
  case True
  then show ?thesis using assms(1,4) by (simp add: reserve_fixed_def)
next
  case al: False
  have ok: "kernel_ok k" "pool_ok p" "space_ok (mappings k)" "space_agrees (mappings k)"
    using assms(1) by (simp_all add: pk_ok_def kernel_ok_def)
  obtain q p1 where q: "pool_replace hint len p = (q, p1)" by fastforce
  have p1: "pool_ok p1" "same_reservations p p1" using pool_replace_ok [OF ok(2) q] pool_ops_reservations(3) [OF ok(2) q] by auto
  show ?thesis
  proof (cases q)
    case (Some dropped)
    obtain b s where b: "protect_all hp dropped (mappings k) = (b, s)" by fastforce
    note g = protect_all_grows [OF ok(3,4) b]
    have "pk_ok (k\<lparr>mappings := s\<rparr>, p1)" "pk_ok (note_requested_protection hint len 0 (k\<lparr>mappings := s\<rparr>), p1)"
      using pk_ok_space [OF assms(1) g _ _ _ _ p1] by simp_all
    then show ?thesis
      using assms(4) al q Some b write_answer_ok by (cases b) (auto simp: reserve_fixed_def)
  next
    case None
    then have pp: "p1 = p" using q by (auto simp: pool_replace_def Let_def split: option.splits if_splits)
    obtain r s where r: "reserve hr hint len PROT_NONE (mappings k) = (r, s)" by fastforce
    note g = reserve_grows [OF ok(3,4) assms(2) r]
    have k': "kernel_ok (k\<lparr>mappings := s\<rparr>)" using kernel_ok_grows [OF ok(1) g(1)] by simp
    show ?thesis
    proof (cases r)
      case (Inl e)
      then show ?thesis
        using assms(4) al q None r pp pk_ok_space [OF assms(1) g(1) _ _ _ _ ok(2), of "k\<lparr>mappings := s\<rparr>"]
        by (simp add: reserve_fixed_def)
    next
      case (Inr reg)
      have "reserve_done hint len out (k\<lparr>mappings := s\<rparr>, p) = (st, kp')"
        using assms(4) al q None r Inr pp by (simp add: reserve_fixed_def)
      then show ?thesis
        using reserve_done_ok [OF assms(1) k'] g(1) g(2) [OF Inr] assms(3) by simp
    qed
  qed
qed

lemma pool_reserve_call_ok:
  assumes "pk_ok kp" "host_in_range hr" "memory_pool_reserve hr hp unit hint len0 align0 flags out kp = (st, kp')"
  shows "pk_ok kp'"
proof -
  obtain k p where kp: "kp = (k, p)" by (cases kp)
  have ok: "kernel_ok k" using assms(1) kp by (simp add: pk_ok_def)
  let ?align = "max (max align0 GRANULE) unit"
  show ?thesis
  proof (cases "len0 = 0 \<or> out = 0 \<or> flags \<noteq> 0 \<and> flags \<noteq> MAP_FIXED \<or> align0 \<noteq> 0 \<and> \<not> is_power_of_two align0 \<or>
      checked_next_multiple_of len0 GRANULE = None")
    case True
    then show ?thesis using assms(1,3) by (auto simp: memory_pool_reserve_def Let_def split: if_splits option.splits)
  next
    case False
    then obtain len where len: "checked_next_multiple_of len0 GRANULE = Some len" by blast
    have pos: "0 < len" using next_multiple_Some(1) [OF len] False by simp
    show ?thesis
    proof (cases "flags = MAP_FIXED")
      case True
      then have "reserve_fixed hr hp hint len ?align out (k, p) = (st, kp')"
        using assms(3) False len kp by (auto simp: memory_pool_reserve_def Let_def MAP_FIXED_def)
      then show ?thesis using reserve_fixed_ok [OF _ assms(2) pos] assms(1) kp by blast
    next
      case nf: False
      obtain res k1 where r: "reserve_search hr unit hint len ?align k = (res, k1)" by fastforce
      note rs = reserve_search_ok [OF ok assms(2) r]
      have call: "(case res of None \<Rightarrow> (refused PoolNoMemory, (k1, p)) | Some base \<Rightarrow> reserve_done base len out (k1, p)) = (st, kp')"
        using assms(3) False len nf kp r by (auto simp: memory_pool_reserve_def Let_def split: option.splits)
      show ?thesis
      proof (cases res)
        case None
        then show ?thesis
          using call pk_ok_step [OF assms(1) [unfolded kp], of k1 p] rs keeps_unplaced_grows [of k k1] assms(1) kp
          by (auto simp: pk_ok_def)
      next
        case (Some base)
        then show ?thesis
          using call reserve_done_ok [OF assms(1) [unfolded kp], of k1 base len out st kp'] rs pos by simp
      qed
    qed
  qed
qed

lemma back_range_ok:
  assumes "kernel_ok k" "0 < len" "back_range hp addr len gs prot k = (b, k')"
  shows "grows (mappings k) (mappings k') \<and> direct k' = direct k \<and> aliases k' = aliases k \<and> placed k' = placed k"
proof -
  have sp: "space_ok (mappings k)" "space_agrees (mappings k)" using assms(1) by (simp_all add: kernel_ok_def)
  obtain r s where r: "protect hp addr len READ_WRITE (mappings k) = (r, s)" by fastforce
  note g = protect_grows(1) [OF sp assms(2) r]
  then have sp': "space_ok s" "space_agrees s" by (simp_all add: grows_def)
  obtain r' s' where r': "protect hp addr len prot s = (r', s')" by fastforce
  note g' = grows_trans [OF g protect_grows(1) [OF sp' assms(2) r']]
  show ?thesis
    using assms(3) r r' g g'
    by (cases r; cases r') (auto simp: back_range_def split: prod.splits bool.splits)
qed

lemma commit_ok:
  assumes "pk_ok kp" "memory_pool_commit hp addr len prot flags kp = (st, kp')"
  shows "pk_ok kp'"
proof -
  obtain k p where kp: "kp = (k, p)" by (cases kp)
  have ok: "kernel_ok k" "pool_ok p" using assms(1) kp by (simp_all add: pk_ok_def)
  obtain r p1 where r: "pool_commit addr len p = (r, p1)" by fastforce
  have p1: "pool_ok p1" "same_reservations p p1" using pool_commit_ok [OF ok(2) r] pool_ops_reservations(1) [OF ok(2) r] by auto
  show ?thesis
  proof (cases "flags \<noteq> 0")
    case True
    then show ?thesis using assms kp by (simp add: memory_pool_commit_def)
  next
    case fl: False
    show ?thesis
    proof (cases r)
      case (Inl e)
      then show ?thesis
        using assms(2) kp fl r pk_ok_step [OF assms(1) [unfolded kp] ok(1) p1(1) keeps_unplaced_same p1(2)]
        by (simp add: memory_pool_commit_def)
    next
      case (Inr gs)
      have pos: "0 < len" using pool_commit_Inr [OF ok(2) r [unfolded Inr]] by blast
      obtain b k1 where b: "back_range hp addr len gs (protection_from_guest prot) k = (b, k1)" by fastforce
      note br = back_range_ok [OF ok(1) pos b]
      obtain q p2 where q: "pool_decommit addr len p1 = (q, p2)" by fastforce
      have p2: "pool_ok p2" "same_reservations p p2"
        using pool_decommit_ok [OF p1(1) q] pool_ops_reservations(2) [OF p1(1) q] p1(2)
        by (auto simp: same_reservations_def) metis
      have "pk_ok (k1, p2)" "pk_ok (note_requested_protection addr len prot k1, p1)"
        using pk_ok_space [OF assms(1) [unfolded kp] conjunct1 [OF br] _ _ _ _ p2]
          pk_ok_space [OF assms(1) [unfolded kp] conjunct1 [OF br] _ _ _ _ p1] br by simp_all
      then show ?thesis
        using assms(2) kp fl r Inr b q by (cases b) (auto simp: memory_pool_commit_def)
    qed
  qed
qed

lemma decommit_ok:
  assumes "pk_ok kp" "memory_pool_decommit hp addr len flags kp = (st, kp')"
  shows "pk_ok kp'"
proof -
  obtain k p where kp: "kp = (k, p)" by (cases kp)
  have ok: "kernel_ok k" "pool_ok p" "space_ok (mappings k)" "space_agrees (mappings k)"
    using assms(1) kp by (simp_all add: pk_ok_def kernel_ok_def)
  obtain r p1 where r: "pool_decommit addr len p = (r, p1)" by fastforce
  have p1: "pool_ok p1" "same_reservations p p1"
    using pool_decommit_ok [OF ok(2) r] pool_ops_reservations(2) [OF ok(2) r] by auto
  show ?thesis
  proof (cases r)
    case (Inl e)
    then show ?thesis
      using assms kp r pk_ok_step [OF assms(1) [unfolded kp] ok(1) p1(1) keeps_unplaced_same p1(2)]
      by (auto simp: memory_pool_decommit_def split: if_splits)
  next
    case (Inr dropped)
    obtain b s where b: "protect_all hp dropped (mappings k) = (b, s)" by fastforce
    note g = protect_all_grows [OF ok(3,4) b]
    have "pk_ok (k\<lparr>mappings := s\<rparr>, p1)" "pk_ok (note_requested_protection addr len 0 (k\<lparr>mappings := s\<rparr>), p1)"
      using pk_ok_space [OF assms(1) [unfolded kp] g _ _ _ _ p1] by simp_all
    then show ?thesis
      using assms kp r Inr b by (cases b) (auto simp: memory_pool_decommit_def split: if_splits)
  qed
qed

section \<open>Properties\<close>

text \<open>Every state the kernel's memory calls and the pool calls reach together.\<close>

inductive pool_reachable :: "host_call \<Rightarrow> host_call \<Rightarrow> u64 \<Rightarrow> pool_state \<Rightarrow> bool"
  for hr :: host_call and hp :: host_call and unit :: u64 where
  start: "dm_ok (with_shape (pool_bytes st) (map_shape st)) \<Longrightarrow>
    pool_reachable hr hp unit (kernel_init st m fill, pool_default)"
| guest: "pool_reachable hr hp unit (k, p) \<Longrightarrow> pool_reachable hr hp unit (k\<lparr>memory := m\<rparr>, p)"
| main: "pool_reachable hr hp unit (k, p) \<Longrightarrow> allocate_main_direct_memory len al ty out k = (r, k') \<Longrightarrow>
    pool_reachable hr hp unit (k', p)"
| direct: "pool_reachable hr hp unit (k, p) \<Longrightarrow> allocate_direct_memory s e len al ty out k = (r, k') \<Longrightarrow>
    pool_reachable hr hp unit (k', p)"
| give: "pool_reachable hr hp unit (k, p) \<Longrightarrow> release_direct_memory b n k = (r, k') \<Longrightarrow> pool_reachable hr hp unit (k', p)"
| system: "pool_reachable hr hp unit (k, p) \<Longrightarrow> map_system_region hr b n k = (ok, k') \<Longrightarrow> pool_reachable hr hp unit (k', p)"
| map: "pool_reachable hr hp unit (k, p) \<Longrightarrow>
    map_named_direct_memory hr hp unit out len prot flags phys al k = (r, k') \<Longrightarrow> pool_reachable hr hp unit (k', p)"
| unmap: "pool_reachable hr hp unit (k, p) \<Longrightarrow> munmap unit a n k = (r, k') \<Longrightarrow> pool_reachable hr hp unit (k', p)"
| expand: "pool_reachable hr hp unit kp \<Longrightarrow> memory_pool_expand s e len al out kp = (r, kp') \<Longrightarrow> pool_reachable hr hp unit kp'"
| reserve: "pool_reachable hr hp unit kp \<Longrightarrow>
    memory_pool_reserve hr hp unit hint len al flags out kp = (r, kp') \<Longrightarrow> pool_reachable hr hp unit kp'"
| commit: "pool_reachable hr hp unit kp \<Longrightarrow> memory_pool_commit hp a n prot flags kp = (r, kp') \<Longrightarrow> pool_reachable hr hp unit kp'"
| decommit: "pool_reachable hr hp unit kp \<Longrightarrow> memory_pool_decommit hp a n flags kp = (r, kp') \<Longrightarrow> pool_reachable hr hp unit kp'"

lemma pk_ok_kernel:
  assumes "pk_ok (k, p)" "kernel_ok k'" "keeps_unplaced k k'"
  shows "pk_ok (k', p)"
proof -
  have "pool_ok p" using assms(1) by (simp add: pk_ok_def)
  then show ?thesis using pk_ok_step [OF assms(1,2) _ assms(3)] by simp
qed

lemma pool_reachable_ok:
  assumes "host_in_range hr" "pool_reachable hr hp unit kp"
  shows "pk_ok kp"
  using assms(2)
proof induction
  case (start st m fill)
  then show ?case by (simp add: pk_ok_def kernel_ok_init pool_ok_default) (simp add: pool_default_def)
next
  case (guest k p m)
  show ?case
    by (rule pk_ok_kernel [OF guest.IH])
       (use guest.IH in \<open>simp_all add: pk_ok_def kernel_ok_def keeps_unplaced_same\<close>)
next
  case (main k p len al ty out r k')
  then show ?case
    using pk_ok_kernel allocate_main_ok direct_calls_frame(1) keeps_unplaced_same by (metis fst_conv pk_ok_def)
next
  case (direct k p s e len al ty out r k')
  then show ?case
    using pk_ok_kernel allocate_direct_ok direct_calls_frame(2) keeps_unplaced_same by (metis fst_conv pk_ok_def)
next
  case (give k p b n r k')
  then show ?case
    using pk_ok_kernel release_direct_memory_ok direct_calls_frame(3) keeps_unplaced_same by (metis fst_conv pk_ok_def)
next
  case (system k p b n ok k')
  then show ?case
    using pk_ok_kernel map_system_region_ok map_system_region_keeps assms(1) by (metis fst_conv pk_ok_def)
next
  case (map k p out len prot flags phys al r k')
  then show ?case
    using pk_ok_kernel map_named_effect(1,3) assms(1) by (metis fst_conv pk_ok_def)
next
  case (unmap k p a n r k')
  then show ?case using pk_ok_kernel munmap_ok munmap_keeps by (metis fst_conv pk_ok_def)
next
  case (expand kp s e len al out r kp')
  then show ?case using expand_ok by blast
next
  case (reserve kp hint len al flags out r kp')
  then show ?case using pool_reserve_call_ok assms(1) by blast
next
  case (commit kp a n prot flags r kp')
  then show ?case using commit_ok by blast
next
  case (decommit kp a n flags r kp')
  then show ?case using decommit_ok by blast
qed

text \<open>C6. Through every sequence of memory and pool calls, the bytes a pool counts as committed are the
  granules it records, 64 KiB each, and never more than was set aside; every committed granule lies
  inside its reservation; and every pool reservation is a guest mapping of exactly its length that
  no unmap can take away.\<close>

theorem memory_pool_invariant:
  assumes "host_in_range hr" "pool_reachable hr hp unit (k, p)"
  shows "pool_ok p \<and> (\<forall>b h. bt_get (pool_reservations p) b = Some h \<longrightarrow>
     holds_range (mappings k) b (pr_len h) \<and> map_of (placed k) b = None)"
  using pool_reachable_ok [OF assms] by (simp add: pk_ok_def)

theorem memory_pool_invariant_witness:
  "pool_ok (snd (snd (memory_pool_expand 0 0x100000 0x20000 0 0 (demo_kernel, pool_default))))"
proof -
  have "pool_reachable willing_host willing_host 0x10000 (demo_kernel, pool_default)"
    unfolding demo_kernel_def by (rule pool_reachable.start) (simp add: demo_settings_map demo_direct_ok)
  then have "pool_reachable willing_host willing_host 0x10000 (snd (memory_pool_expand 0 0x100000 0x20000 0 0 (demo_kernel, pool_default)))"
    by (rule pool_reachable.expand) (rule prod.collapse [symmetric])
  then show ?thesis using memory_pool_invariant [OF willing_host_in_range] by (metis prod.collapse)
qed

text \<open>A commit takes all of its range or none of it: it succeeds exactly when the range is a nonzero
  number of granules inside one reservation, none of them committed, and the pool has that much
  free; then exactly its granules become committed and the pool is charged their bytes, and when it
  is refused the pool is unchanged.\<close>

theorem pool_commit_exact:
  assumes "pool_ok p"
  shows "case pool_commit addr len p of
      (Inr gs, p') \<Rightarrow> gs = granules addr len \<and> len \<le> pool_free p \<and> pool_free p' = pool_free p - len \<and>
        committed_granules p' = committed_granules p \<union> set gs \<and>
        (\<exists>b h. bt_get (pool_reservations p) b = Some h \<and> b \<le> addr \<and> addr + len \<le> b + pr_len h \<and>
           set gs \<inter> pr_committed h = {})
    | (Inl e, p') \<Rightarrow> p' = p \<and>
        \<not> (0 < len \<and> granular addr len \<and> len \<le> pool_free p \<and>
           (\<exists>b h. bt_get (pool_reservations p) b = Some h \<and> b \<le> addr \<and> addr + len \<le> b + pr_len h \<and>
              set (granules addr len) \<inter> pr_committed h = {}))"
proof (cases "pool_commit addr len p")
  case (Pair r p')
  show ?thesis
  proof (cases r)
    case (Inl e)
    have "p' = p" using Pair Inl by (auto simp: pool_commit_def split: if_splits option.splits)
    moreover have False if h: "0 < len" "granular addr len" "len \<le> pool_free p"
        "bt_get (pool_reservations p) b = Some h" "b \<le> addr" "addr + len \<le> b + pr_len h"
        "set (granules addr len) \<inter> pr_committed h = {}" for b h
    proof -
      have "pool_holder addr len p = Some (b, h)" using pool_holder_Some [OF assms h(1)] h(4-6) by blast
      then show False using Pair Inl h(1-3,7) by (auto simp: pool_commit_def split: if_splits)
    qed
    ultimately show ?thesis using Pair Inl by auto
  next
    case (Inr gs)
    from Pair [unfolded Inr] show ?thesis
    proof (rule pool_commit_Inr [OF assms])
      fix b h
      assume c: "0 < len" "granular addr len" "bt_get (pool_reservations p) b = Some h" "b \<le> addr"
        "addr + len \<le> b + pr_len h" "gs = granules addr len" "pr_committed h \<inter> set gs = {}" "len \<le> pool_free p"
        "p' = p\<lparr>pool_reservations := bt_insert b (h\<lparr>pr_committed := pr_committed h \<union> set gs\<rparr>) (pool_reservations p),
              pool_committed := pool_committed p + len\<rparr>"
      have "committed_granules p' = committed_granules p \<union> set gs"
      proof (rule set_eqI)
        fix x
        have "x \<in> committed_granules p' \<longleftrightarrow> x \<in> pr_committed h \<union> set gs \<or>
            (\<exists>b' h'. b' \<noteq> b \<and> bt_get (pool_reservations p) b' = Some h' \<and> x \<in> pr_committed h')"
          by (auto simp: committed_granules_def c(9) bt_get_insert)
        moreover have "x \<in> committed_granules p \<longleftrightarrow> x \<in> pr_committed h \<or>
            (\<exists>b' h'. b' \<noteq> b \<and> bt_get (pool_reservations p) b' = Some h' \<and> x \<in> pr_committed h')"
          unfolding committed_granules_def mem_Collect_eq using c(3) by (metis option.inject)
        ultimately show "x \<in> committed_granules p' \<longleftrightarrow> x \<in> committed_granules p \<union> set gs" by blast
      qed
      then show ?thesis
        using Pair Inr c by (auto simp: pool_free_def saturating_sub_def)
    qed
  qed
qed

definition demo_pool :: Pool where
  "demo_pool = pool_reserve 0x1000000 0x400000 (pool_expand 0x40000 pool_default)"

lemma demo_pool_ok: "pool_ok demo_pool"
  unfolding demo_pool_def
  by (rule pool_reserve_ok) (simp_all add: pool_ok_def pool_expand_def pool_default_def granule_count_def prs.apart_def
      saturating_add_def)

lemma demo_pool_eval:
  "demo_pool = \<lparr>capacity = 0x40000, pool_committed = 0, pool_reservations = [(0x1000000, \<lparr>pr_len = 0x400000, pr_committed = {}\<rparr>)]\<rparr>"
  by (simp add: demo_pool_def pool_reserve_def pool_expand_def pool_default_def saturating_add_def)

lemma demo_commit:
  "pool_commit 0x1000000 0x20000 demo_pool = (Inr [0x1000000, 0x1010000],
     \<lparr>capacity = 0x40000, pool_committed = 0x20000,
      pool_reservations = [(0x1000000, \<lparr>pr_len = 0x400000, pr_committed = {0x1000000, 0x1010000}\<rparr>)]\<rparr>)"
  by (simp add: pool_commit_def demo_pool_eval granular_def GRANULE_def granules_def pool_holder_def checked_add_def
      bt_last_le_def last_of_def saturating_add_def pool_free_def saturating_sub_def upt_conv_Cons numeral_2_eq_2)

theorem pool_commit_exact_witness:
  "pool_free (snd (pool_commit 0x1000000 0x20000 demo_pool)) = 0x20000 \<and>
   0x1010000 \<in> committed_granules (snd (pool_commit 0x1000000 0x20000 demo_pool))"
proof -
  have "pool_free demo_pool = 0x40000" by (simp add: pool_free_def demo_pool_eval saturating_sub_def)
  then show ?thesis
    using pool_commit_exact [OF demo_pool_ok, where addr = "0x1000000" and len = "0x20000"] by (simp add: demo_commit)
qed

text \<open>Decommitting what was just committed gives the pool back exactly as it was, and a second
  decommit of the same range succeeds, drops nothing and changes nothing.\<close>

theorem pool_decommit_undoes_commit:
  assumes "pool_ok p" "pool_commit addr len p = (Inr gs, p')"
  shows "pool_decommit addr len p' = (Inr gs, p) \<and> pool_decommit addr len p = (Inr [], p)"
proof (rule pool_commit_Inr [OF assms])
  fix b h
  assume c: "0 < len" "granular addr len" "bt_get (pool_reservations p) b = Some h" "b \<le> addr"
    "addr + len \<le> b + pr_len h" "gs = granules addr len" "pr_committed h \<inter> set gs = {}" "len \<le> pool_free p"
    "p' = p\<lparr>pool_reservations := bt_insert b (h\<lparr>pr_committed := pr_committed h \<union> set gs\<rparr>) (pool_reservations p),
          pool_committed := pool_committed p + len\<rparr>"
  have ge: "\<not> len < GRANULE" using c(1,2) by (auto simp: granular_def mod_less)
  have p'_ok: "pool_ok p'" using pool_commit_ok [OF assms] .
  have wf: "bt_wf (pool_reservations p)" using assms(1) by (simp add: pool_ok_def)
  let ?h = "h\<lparr>pr_committed := pr_committed h \<union> set gs\<rparr>"
  have hold: "pool_holder addr len p' = Some (b, ?h)" "pool_holder addr len p = Some (b, h)"
    using pool_holder_Some [OF p'_ok c(1)] pool_holder_Some [OF assms(1) c(1)] c(3-5)
    by (simp_all add: c(9) bt_get_insert)
  have all: "filter (\<lambda>g. g \<in> pr_committed h \<union> set gs) gs = gs" by (simp add: filter_id_conv)
  have none: "filter (\<lambda>g. g \<in> pr_committed h) gs = []" using c(7) by (auto simp: filter_empty_conv)
  have diff: "pr_committed h \<union> set gs - set gs = pr_committed h" "pr_committed h - set gs = pr_committed h"
    using c(7) by auto
  have same: "bt_insert b h (bt_insert b ?h (pool_reservations p)) = pool_reservations p"
    "bt_insert b h (pool_reservations p) = pool_reservations p"
    using wf c(3) by (auto intro!: bt_ext simp: bt_get_insert fun_upd_idem)
  have "?h\<lparr>pr_committed := pr_committed h\<rparr> = h" "h\<lparr>pr_committed := pr_committed h\<rparr> = h" by simp_all
  then show ?thesis
    using hold c(2,6) ge all none diff same granules_length [OF c(2)]
    by (simp add: pool_decommit_def Let_def c(9) saturating_sub_def)
qed

theorem pool_decommit_undoes_commit_witness:
  "pool_decommit 0x1000000 0x20000 (snd (pool_commit 0x1000000 0x20000 demo_pool)) = (Inr [0x1000000, 0x1010000], demo_pool)"
  using pool_decommit_undoes_commit [OF demo_pool_ok demo_commit] by (simp add: demo_commit)

end
