(* ===== verification/Monitor.thy ===== *)
theory Monitor
  imports Prelude
begin

text \<open>
  How the kernel's synchronisation objects run (\<^verbatim>\<open>orbistoun-kernel/src/sync.rs\<close> and
  \<^verbatim>\<open>equeue.rs\<close>). Each object is a state under a host mutex and a condition variable its waiters
  sleep on. A call is a sequence of turns: a turn runs with the host mutex held, from the lock being
  taken (on entry, or on waking) to it being given up (on return, or on going to sleep), so a turn is
  atomic and turns of different threads interleave freely. A sleeper may be woken by a notification,
  by its timer, by a signal raised on it, or for no reason at all; the model lets it wake at any
  moment and leaves it to the turn to look at the state again, as the code does.

  The two locales state when no wake is ever lost: \<open>notify_all\<close> for the objects whose changes wake
  every sleeper, \<open>hand_over\<close> for those that wake one sleeper for each thing there is to take.
\<close>

section \<open>Waiting\<close>

datatype Blocking = Never | Forever | Until

text \<open>
  What a turn sees that is not the object's: whether a signal is pending on the thread, when the
  predicate reads it and when it is read again after the wait (\<open>pending\<close>, \<open>pending_again\<close>), whether
  the host reported the sleep as timed out, and whether the deadline has passed on the clock.
\<close>

record env =
  pending :: bool
  pending_again :: bool
  timed_out :: bool
  expired :: bool

datatype waited = Ready | Sleeps | GaveUp

text \<open>One turn of \<open>wait_while\<close>; \<open>slept\<close> says whether it follows a sleep.\<close>

definition wait_while :: "Blocking \<Rightarrow> bool \<Rightarrow> env \<Rightarrow> bool \<Rightarrow> waited" where
  "wait_while until slept e blocked =
     (if \<not> blocked then Ready
      else case until of
        Never \<Rightarrow> GaveUp
      | Forever \<Rightarrow> Sleeps
      | Until \<Rightarrow> if slept \<and> timed_out e \<and> expired e then GaveUp else Sleeps)"

lemma wait_while_Ready: "wait_while until slept e b = Ready \<longleftrightarrow> \<not> b"
  by (auto simp: wait_while_def split: Blocking.splits)

lemma wait_while_Sleeps: "wait_while until slept e b = Sleeps \<Longrightarrow> b"
  by (auto simp: wait_while_def split: if_splits)

lemma wait_while_GaveUp: "wait_while until slept e b = GaveUp \<Longrightarrow> b \<and> until \<noteq> Forever"
  by (auto simp: wait_while_def split: if_splits Blocking.splits)

section \<open>Turns and runs\<close>

text \<open>
  A turn returns an answer and wakes nobody, one sleeper or all of them; or sleeps; or gives the lock
  up and comes back, as when a signal handler is run, and may have woken others too. Both of the latter carry on as another
  operation, which holds what the call keeps in its own frame.
\<close>

datatype wake = Nobody | One | All

datatype ('o, 's, 'r) turn = Return 'r 's wake | Sleep 'o 's | Again 'o 's wake

datatype 'o activity = Idle | Running 'o | Asleep 'o

primrec rouse :: "'o activity \<Rightarrow> 'o activity" where
  "rouse Idle = Idle"
| "rouse (Running p) = Running p"
| "rouse (Asleep p) = Running p"

definition sleepers :: "(nat \<Rightarrow> 'o activity) \<Rightarrow> nat set" where
  "sleepers ts = {t. \<exists>p. ts t = Asleep p}"

inductive woken :: "wake \<Rightarrow> (nat \<Rightarrow> 'o activity) \<Rightarrow> (nat \<Rightarrow> 'o activity) \<Rightarrow> bool" where
  nobody: "woken Nobody ts ts"
| one: "ts t = Asleep p \<Longrightarrow> woken One ts (ts(t := Running p))"
| none_asleep: "sleepers ts = {} \<Longrightarrow> woken One ts ts"
| every: "woken All ts (\<lambda>t. rouse (ts t))"

inductive_cases woken_NobodyE: "woken Nobody ts ts'"
inductive_cases woken_OneE: "woken One ts ts'"
inductive_cases woken_AllE: "woken All ts ts'"

text \<open>
  The runs of an object from a state, with the calls that have returned and their answers, newest
  first. \<open>legal\<close> restricts what a turn may see.
\<close>

inductive runs ::
  "(env \<Rightarrow> bool) \<Rightarrow> ('o \<Rightarrow> env \<Rightarrow> 's \<Rightarrow> ('o, 's, 'r) turn) \<Rightarrow> ('o \<Rightarrow> bool) \<Rightarrow> 's \<Rightarrow>
     ('o \<times> 'r) list \<Rightarrow> 's \<Rightarrow> (nat \<Rightarrow> 'o activity) \<Rightarrow> bool"
  for legal turn entry s0 where
  start: "runs legal turn entry s0 [] s0 (\<lambda>t. Idle)"
| call: "\<lbrakk>runs legal turn entry s0 log s ts; ts t = Idle; entry p\<rbrakk>
    \<Longrightarrow> runs legal turn entry s0 log s (ts(t := Running p))"
| return: "\<lbrakk>runs legal turn entry s0 log s ts; ts t = Running p; legal e;
     turn p e s = Return r s' w; woken w (ts(t := Idle)) ts'\<rbrakk>
    \<Longrightarrow> runs legal turn entry s0 ((p, r) # log) s' ts'"
| sleep: "\<lbrakk>runs legal turn entry s0 log s ts; ts t = Running p; legal e; turn p e s = Sleep p' s'\<rbrakk>
    \<Longrightarrow> runs legal turn entry s0 log s' (ts(t := Asleep p'))"
| again: "\<lbrakk>runs legal turn entry s0 log s ts; ts t = Running p; legal e; turn p e s = Again p' s' w;
     woken w (ts(t := Running p')) ts'\<rbrakk>
    \<Longrightarrow> runs legal turn entry s0 log s' ts'"
| stir: "\<lbrakk>runs legal turn entry s0 log s ts; ts t = Asleep p\<rbrakk>
    \<Longrightarrow> runs legal turn entry s0 log s (ts(t := Running p))"

section \<open>Threads\<close>

definition active :: "(nat \<Rightarrow> 'o activity) \<Rightarrow> nat set" where
  "active ts = {t. ts t \<noteq> Idle}"

definition doing :: "('o \<Rightarrow> bool) \<Rightarrow> (nat \<Rightarrow> 'o activity) \<Rightarrow> nat set" where
  "doing P ts = {t. \<exists>p. P p \<and> (ts t = Running p \<or> ts t = Asleep p)}"

definition runners :: "('o \<Rightarrow> bool) \<Rightarrow> (nat \<Rightarrow> 'o activity) \<Rightarrow> nat set" where
  "runners P ts = {t. \<exists>p. P p \<and> ts t = Running p}"

lemma rouse_eq [simp]:
  "rouse a = Idle \<longleftrightarrow> a = Idle" "rouse a = Running p \<longleftrightarrow> a = Running p \<or> a = Asleep p" "rouse a \<noteq> Asleep p"
  by (cases a; auto)+

lemma active_upd: "active (ts(t := a)) \<subseteq> insert t (active ts)"
  by (auto simp: active_def split: if_splits)

lemma woken_active: "woken w ts ts' \<Longrightarrow> active ts' = active ts"
  by (induction rule: woken.induct) (auto simp: active_def)

lemma finite_active_upd: "finite (active ts) \<Longrightarrow> finite (active (ts(t := a)))"
  by (rule finite_subset [OF active_upd]) simp

lemma runs_finite: "runs legal turn entry s0 log s ts \<Longrightarrow> finite (active ts)"
proof (induction rule: runs.induct)
  case start
  show ?case by (simp add: active_def)
next
  case (return log s ts t p e r s' w ts')
  then show ?case using woken_active [OF return.hyps(5)] by (simp only: finite_active_upd)
next
  case (again log s ts t p e p' s' w ts')
  then show ?case using woken_active [OF again.hyps(5)] by (simp only: finite_active_upd)
qed (simp_all only: finite_active_upd)

lemma runners_finite: "finite (active ts) \<Longrightarrow> finite (runners P ts)"
  by (rule finite_subset [of _ "active ts"]) (auto simp: runners_def active_def)

lemma doing_finite: "finite (active ts) \<Longrightarrow> finite (doing P ts)"
  by (rule finite_subset [of _ "active ts"]) (auto simp: doing_def active_def)

text \<open>Every operation in progress satisfies what entries do and turns keep.\<close>

lemma woken_doing:
  "woken w ts ts' \<Longrightarrow> ts' t = Running p \<or> ts' t = Asleep p \<Longrightarrow> ts t = Running p \<or> ts t = Asleep p"
  by (induction rule: woken.induct) (auto split: if_splits)

lemma runs_doing:
  assumes "runs legal turn entry s0 log s ts" "\<And>p. entry p \<Longrightarrow> P p"
    and "\<And>p e s p' s' w. P p \<Longrightarrow> turn p e s = Sleep p' s' \<or> turn p e s = Again p' s' w \<Longrightarrow> P p'"
  shows "ts t = Running p \<or> ts t = Asleep p \<Longrightarrow> P p"
  using assms(1)
proof (induction arbitrary: t p rule: runs.induct)
  case (return log s ts t' p' e r s' w ts' t p)
  from woken_doing [OF return.hyps(5) return.prems] show ?case using return.IH by (auto split: if_splits)
next
  case (sleep log s ts t' p' e p'' s' t p)
  have "P p''" using assms(3) sleep.IH sleep.hyps(2,4) by blast
  then show ?case using sleep by (auto split: if_splits)
next
  case (again log s ts t' p' e p'' s' w ts' t p)
  have "P p''" using assms(3) again.IH again.hyps(2,4) by blast
  then show ?case using woken_doing [OF again.hyps(5) again.prems] again.IH by (auto split: if_splits)
qed (auto split: if_splits intro: assms(2))

text \<open>A property of the answers given and the state that every turn keeps.\<close>

lemma runs_logged [consumes 1, case_names start return go_on]:
  assumes "runs legal turn entry s0 log s ts" "I [] s0"
    and "\<And>log s p e r s' w. I log s \<Longrightarrow> legal e \<Longrightarrow> turn p e s = Return r s' w \<Longrightarrow> I ((p, r) # log) s'"
    and "\<And>log s p e p' s' w. I log s \<Longrightarrow> legal e \<Longrightarrow> turn p e s = Sleep p' s' \<or> turn p e s = Again p' s' w \<Longrightarrow> I log s'"
  shows "I log s"
  using assms(1)
proof (induction rule: runs.induct)
  case start
  show ?case by (fact assms(2))
next
  case (return log s ts t p e r s' w ts')
  then show ?case using assms(3) by blast
next
  case (sleep log s ts t p e p' s')
  then show ?case using assms(4) by blast
next
  case (again log s ts t p e p' s' w ts')
  then show ?case using assms(4) by blast
qed auto

text \<open>
  A counter an object keeps of the threads inside a call is their number, when every turn moves it as
  the thread moves in or out.
\<close>

lemma doing_upd:
  assumes "finite (active ts)"
  shows "card (doing P (ts(t := a))) + of_bool (t \<in> doing P ts) =
    card (doing P ts) + of_bool (\<exists>p. P p \<and> (a = Running p \<or> a = Asleep p))"
proof -
  have fin: "finite (doing P ts)" using assms by (rule doing_finite)
  have set: "doing P (ts(t := a)) = doing P ts - {t} \<union> (if \<exists>p. P p \<and> (a = Running p \<or> a = Asleep p) then {t} else {})"
    by (auto simp: doing_def split: if_splits)
  have one: "card (doing P ts - {t}) + of_bool (t \<in> doing P ts) = card (doing P ts)"
    using fin card_Suc_Diff1 [OF fin] by (cases "t \<in> doing P ts") auto
  show ?thesis unfolding set using one fin by (auto simp: card_insert_if)
qed

lemma doing_woken: "woken w ts ts' \<Longrightarrow> doing P ts' = doing P ts"
  by (induction rule: woken.induct) (auto simp: doing_def)

lemma runs_occupancy:
  assumes "runs legal turn entry s0 log s ts" "occ s0 = 0" "\<And>p. entry p \<Longrightarrow> \<not> P p"
    and "\<And>p e s r s' w. legal e \<Longrightarrow> turn p e s = Return r s' w \<Longrightarrow> P p \<longrightarrow> 0 < occ s \<Longrightarrow>
      occ s' + of_bool (P p) = occ s"
    and "\<And>p e s p' s' w. legal e \<Longrightarrow> turn p e s = Sleep p' s' \<or> turn p e s = Again p' s' w \<Longrightarrow>
      occ s' + of_bool (P p) = occ s + of_bool (P p')"
  shows "occ s = card (doing P ts)"
  using assms(1)
proof (induction rule: runs.induct)
  case start
  show ?case using assms(2) by (simp add: doing_def)
next
  case (call log s ts t p)
  have "t \<notin> doing P ts" using call.hyps(2) by (simp add: doing_def)
  then show ?case using doing_upd [OF runs_finite [OF call.hyps(1)], of P t "Running p"] call.IH
    assms(3) [OF call.hyps(3)] by (simp del: fun_upd_apply)
next
  case (return log s ts t p e r s' w ts')
  note fin = runs_finite [OF return.hyps(1)]
  have t: "t \<in> doing P ts \<longleftrightarrow> P p" using return.hyps(2) by (auto simp: doing_def)
  have "0 < occ s" if "P p"
    using that t return.IH doing_finite [OF fin, of P] by (simp add: card_gt_0_iff) blast
  then have "occ s' + of_bool (P p) = occ s" using assms(4) return.hyps(3,4) by blast
  then show ?case using doing_upd [OF fin, of P t Idle] t return.IH doing_woken [OF return.hyps(5), of P] by (simp del: fun_upd_apply)
next
  case (sleep log s ts t p e p' s')
  have "t \<in> doing P ts \<longleftrightarrow> P p" using sleep.hyps(2) by (auto simp: doing_def)
  then show ?case using doing_upd [OF runs_finite [OF sleep.hyps(1)], of P t "Asleep p'"] sleep.IH
      assms(5) [OF sleep.hyps(3)] sleep.hyps(4) by (fastforce simp del: fun_upd_apply)
next
  case (again log s ts t p e p' s' w ts')
  have "t \<in> doing P ts \<longleftrightarrow> P p" using again.hyps(2) by (auto simp: doing_def)
  then show ?case using doing_woken [OF again.hyps(5), of P] doing_upd [OF runs_finite [OF again.hyps(1)], of P t "Running p'"] again.IH
      assms(5) [OF again.hyps(3)] again.hyps(4) by (fastforce simp del: fun_upd_apply)
next
  case (stir log s ts t p)
  have "doing P (ts(t := Running p)) = doing P ts" using stir.hyps(2) by (auto simp: doing_def)
  then show ?case using stir.IH by (simp del: fun_upd_apply)
qed

section \<open>Objects that wake every sleeper\<close>

text \<open>
  \<open>blocked\<close> is what a sleeping operation waits to become false. A turn that sleeps leaves its own
  operation blocked, and a turn that could unblock another wakes everybody; then no thread is ever
  asleep with what it waits for already there. \<open>inv\<close> is an invariant that may speak of the number of
  calls that have returned, and \<open>fits\<close> bounds that number, for objects whose counts have a width.
\<close>

locale notify_all =
  fixes legal :: "env \<Rightarrow> bool" and turn :: "'o \<Rightarrow> env \<Rightarrow> 's \<Rightarrow> ('o, 's, 'r) turn" and blocked :: "'o \<Rightarrow> 's \<Rightarrow> bool"
    and inv :: "nat \<Rightarrow> 's \<Rightarrow> bool" and fits :: "nat \<Rightarrow> bool"
  assumes sleep_blocked: "inv n s \<Longrightarrow> legal e \<Longrightarrow> turn p e s = Sleep p' s' \<Longrightarrow> blocked p' s'"
    and return_keeps: "inv n s \<Longrightarrow> legal e \<Longrightarrow> fits (Suc n) \<Longrightarrow> turn p e s = Return r s' w \<Longrightarrow>
      blocked q s \<Longrightarrow> \<not> blocked q s' \<Longrightarrow> w = All"
    and sleep_keeps: "inv n s \<Longrightarrow> legal e \<Longrightarrow> turn p e s = Sleep p' s' \<Longrightarrow> blocked q s \<Longrightarrow> blocked q s'"
    and again_keeps: "inv n s \<Longrightarrow> legal e \<Longrightarrow> turn p e s = Again p' s' w \<Longrightarrow>
      blocked q s \<Longrightarrow> \<not> blocked q s' \<Longrightarrow> w = All"
    and inv_return: "inv n s \<Longrightarrow> legal e \<Longrightarrow> turn p e s = Return r s' w \<Longrightarrow> inv (Suc n) s'"
    and inv_go_on: "inv n s \<Longrightarrow> legal e \<Longrightarrow> turn p e s = Sleep p' s' \<or> turn p e s = Again p' s' w \<Longrightarrow> inv n s'"
    and fits_less: "fits (Suc n) \<Longrightarrow> fits n"
begin

lemma inv_runs: "runs legal turn entry s0 log s ts \<Longrightarrow> inv 0 s0 \<Longrightarrow> inv (length log) s"
  by (induction rule: runs.induct) (auto intro: inv_return inv_go_on)

theorem asleep_blocked:
  assumes "runs legal turn entry s0 log s ts" "inv 0 s0" "fits (length log)"
  shows "ts t = Asleep p \<Longrightarrow> blocked p s"
  using assms(1,3)
proof (induction arbitrary: t p rule: runs.induct)
  case (return log s ts t' p' e r s' w ts' t p)
  note i = inv_runs [OF return.hyps(1) assms(2)]
  have asleep: "(ts(t' := Idle)) t = Asleep p \<and> w \<noteq> All"
    using return.hyps(5) return.prems(1) by (cases rule: woken.cases) (auto split: if_splits)
  then have "blocked p s" using return.IH return.prems(2) fits_less by (auto split: if_splits)
  then show ?case using asleep return_keeps [OF i return.hyps(3) _ return.hyps(4)] return.prems(2) by auto
next
  case (sleep log s ts t' p' e p'' s' t p)
  note i = inv_runs [OF sleep.hyps(1) assms(2)]
  have "blocked p'' s'" using sleep_blocked [OF i sleep.hyps(3,4)] .
  moreover have "blocked q s'" if "blocked q s" for q using sleep_keeps [OF i sleep.hyps(3,4)] that by blast
  ultimately show ?case using sleep.IH sleep.prems by (auto split: if_splits)
next
  case (again log s ts t' p' e p'' s' w ts' t p)
  note i = inv_runs [OF again.hyps(1) assms(2)]
  have asleep: "ts t = Asleep p \<and> w \<noteq> All"
    using again.hyps(5) again.prems(1) by (cases rule: woken.cases) (auto split: if_splits)
  then have "blocked p s" using again.IH again.prems(2) by blast
  then show ?case using asleep again_keeps [OF i again.hyps(3,4)] by blast
qed (auto split: if_splits)

end

section \<open>Objects that wake one sleeper\<close>

text \<open>
  \<open>permits\<close> counts what there is to take and \<open>waits\<close> tells the operations that wait for one. A turn
  that takes one takes it off the count, one that puts one there wakes a sleeper for it. Then, as
  long as anybody sleeps, there are at least as many threads awake and about to look as there are
  permits to take, so no permit is left lying beside a sleeper.
\<close>

locale hand_over =
  fixes turn :: "'o \<Rightarrow> env \<Rightarrow> 's \<Rightarrow> ('o, 's, 'r) turn" and permits :: "'s \<Rightarrow> nat"
    and waits :: "'o \<Rightarrow> bool" and inv :: "nat \<Rightarrow> 's \<Rightarrow> bool" and fits :: "nat \<Rightarrow> bool"
  assumes take_one: "inv n s \<Longrightarrow> fits (Suc n) \<Longrightarrow> waits p \<Longrightarrow> turn p e s = Return r s' w \<Longrightarrow>
      w = Nobody \<and> permits s' \<le> permits s - 1"
    and sleep_none: "turn p e s = Sleep p' s' \<Longrightarrow> waits p' \<and> permits s' = 0"
    and again_same: "turn p e s = Again p' s' w \<Longrightarrow> w = Nobody \<and> (waits p \<longrightarrow> waits p') \<and> permits s' \<le> permits s"
    and put_one: "\<not> waits p \<Longrightarrow> turn p e s = Return r s' w \<Longrightarrow>
      w = All \<or> w = One \<and> permits s' \<le> Suc (permits s) \<or> permits s' \<le> permits s"
    and inv_return: "inv n s \<Longrightarrow> turn p e s = Return r s' w \<Longrightarrow> inv (Suc n) s'"
    and inv_go_on: "inv n s \<Longrightarrow> turn p e s = Sleep p' s' \<or> turn p e s = Again p' s' w \<Longrightarrow> inv n s'"
    and fits_less: "fits (Suc n) \<Longrightarrow> fits n"
begin

lemma inv_runs: "runs legal turn entry s0 log s ts \<Longrightarrow> inv 0 s0 \<Longrightarrow> inv (length log) s"
  by (induction rule: runs.induct) (auto intro: inv_return inv_go_on)

definition enough :: "'s \<Rightarrow> (nat \<Rightarrow> 'o activity) \<Rightarrow> bool" where
  "enough s ts \<longleftrightarrow> (sleepers ts \<noteq> {} \<longrightarrow> permits s \<le> card (runners waits ts))"

lemma asleep_waits:
  assumes "runs legal turn entry s0 log s ts"
  shows "ts t = Asleep p \<Longrightarrow> waits p"
  using assms
proof (induction arbitrary: t p rule: runs.induct)
  case (return log s ts t' p' e r s' w ts' t p)
  from return.hyps(5) return.prems have "(ts(t' := Idle)) t = Asleep p"
    by (cases rule: woken.cases) (auto split: if_splits)
  then show ?case using return.IH by (auto split: if_splits)
next
  case (sleep log s ts t' p' e p'' s' t p)
  then show ?case using sleep_none [OF sleep.hyps(4)] by (auto split: if_splits)
next
  case (again log s ts t' p' e p'' s' w ts' t p)
  from again.hyps(5) again.prems have "ts t = Asleep p"
    by (cases rule: woken.cases) (auto split: if_splits)
  then show ?case by (rule again.IH)
qed (auto split: if_splits)

lemma enough_mono:
  assumes "enough s ts" "finite (active ts')" "runners waits ts \<subseteq> runners waits ts'"
    and "sleepers ts' \<subseteq> sleepers ts" "permits s' \<le> permits s"
  shows "enough s' ts'"
  unfolding enough_def
proof
  assume "sleepers ts' \<noteq> {}"
  then have "permits s \<le> card (runners waits ts)" using assms(1,4) by (auto simp: enough_def)
  moreover have "card (runners waits ts) \<le> card (runners waits ts')"
    using assms(2,3) by (intro card_mono runners_finite)
  ultimately show "permits s' \<le> card (runners waits ts')" using assms(5) by linarith
qed

lemma enough_taken:
  assumes "enough s ts" "finite (active ts)" "ts t = Running p" "waits p" "permits s' \<le> permits s - 1"
  shows "enough s' (ts(t := Idle))"
proof -
  have "runners waits (ts(t := Idle)) = runners waits ts - {t}" "t \<in> runners waits ts"
    using assms(3,4) by (auto simp: runners_def)
  then have "card (runners waits (ts(t := Idle))) = card (runners waits ts) - 1"
    using runners_finite [OF assms(2)] by simp
  moreover have "sleepers (ts(t := Idle)) \<subseteq> sleepers ts" by (auto simp: sleepers_def split: if_splits)
  ultimately show ?thesis using assms(1,5) unfolding enough_def
    by (metis diff_le_mono le_trans subset_empty)
qed

lemma enough_put:
  assumes "enough s ts" "finite (active ts)" "\<And>t p. ts t = Asleep p \<Longrightarrow> waits p"
    and "woken One ts ts'" "permits s' \<le> Suc (permits s)"
  shows "enough s' ts'"
proof -
  consider (one) t p where "ts t = Asleep p" "ts' = ts(t := Running p)" | (empty) "sleepers ts = {}" "ts' = ts"
    using assms(4) by (auto elim: woken_OneE)
  then show ?thesis
  proof cases
    case p: one
  have "runners waits ts' = insert t (runners waits ts)" "t \<notin> runners waits ts" "sleepers ts \<noteq> {}"
    using p assms(3) by (auto simp: runners_def sleepers_def)
  then have "card (runners waits ts') = Suc (card (runners waits ts))" "permits s \<le> card (runners waits ts)"
    using runners_finite [OF assms(2)] assms(1) by (auto simp: enough_def)
  then show ?thesis using assms(5) by (simp add: enough_def)
  qed (simp add: enough_def)
qed

theorem enough_runs:
  assumes "runs legal turn entry s0 log s ts" "inv 0 s0" "fits (length log)"
  shows "enough s ts"
  using assms(1,3)
proof (induction rule: runs.induct)
  case start
  show ?case by (simp add: enough_def sleepers_def)
next
  case (call log s ts t p)
  show ?case
    by (rule enough_mono [OF call.IH [OF call.prems] finite_active_upd [OF runs_finite [OF call.hyps(1)]]])
      (use call.hyps in \<open>auto simp: runners_def sleepers_def split: if_splits\<close>)
next
  case (return log s ts t p e r s' w ts')
  note fin = runs_finite [OF return.hyps(1)]
  have IH: "enough s ts" using return.IH return.prems fits_less by simp
  show ?case
  proof (cases "waits p")
    case True
    then have "ts' = ts(t := Idle)" "permits s' \<le> permits s - 1"
      using take_one [OF inv_runs [OF return.hyps(1) assms(2)] _ True return.hyps(4)] return.hyps(5) return.prems by (auto elim: woken_NobodyE)
    then show ?thesis using enough_taken [OF IH fin return.hyps(2) True] by blast
  next
    case False
    have base: "enough s (ts(t := Idle))" "finite (active (ts(t := Idle)))"
      by (rule enough_mono [OF IH finite_active_upd [OF fin]], use return.hyps(2) False
          in \<open>auto simp: runners_def sleepers_def split: if_splits\<close>) (rule finite_active_upd [OF fin])
    have asleep: "\<And>u q. (ts(t := Idle)) u = Asleep q \<Longrightarrow> waits q"
      using asleep_waits [OF return.hyps(1)] by (auto split: if_splits)
    consider "w = All" | "w = One" "permits s' \<le> Suc (permits s)" | "w = Nobody" "permits s' \<le> permits s"
      using put_one [OF False return.hyps(4)] by (cases w) auto
    then show ?thesis
    proof cases
      case 1
      then show ?thesis using return.hyps(5) by (auto elim!: woken_AllE simp: enough_def sleepers_def)
    next
      case 2
      then show ?thesis using enough_put [OF base] asleep return.hyps(5) by blast
    next
      case 3
      then show ?thesis using enough_mono [OF base(1) base(2)] return.hyps(5)
        by (auto elim!: woken_NobodyE)
    qed
  qed
next
  case (sleep log s ts t p e p' s')
  then show ?case using sleep_none by (simp add: enough_def)
next
  case (again log s ts t p e p' s' w ts')
  have "enough s' (ts(t := Running p'))"
    by (rule enough_mono [OF again.IH [OF again.prems] finite_active_upd [OF runs_finite [OF again.hyps(1)]]])
      (use again.hyps again_same [OF again.hyps(4)]
        in \<open>auto simp: runners_def sleepers_def split: if_splits\<close>)
  moreover have "ts' = ts(t := Running p')"
    using again.hyps(5) again_same [OF again.hyps(4)] by (auto elim: woken_NobodyE)
  ultimately show ?case by blast
next
  case (stir log s ts t p)
  show ?case
    by (rule enough_mono [OF stir.IH [OF stir.prems] finite_active_upd [OF runs_finite [OF stir.hyps(1)]]])
      (use stir.hyps asleep_waits
        in \<open>auto simp: runners_def sleepers_def split: if_splits\<close>)
qed

corollary somebody_takes:
  assumes "runs legal turn entry s0 log s ts" "inv 0 s0" "fits (length log)" "permits s > 0" "ts t = Asleep p"
  shows "\<exists>u q. ts u = Running q \<and> waits q"
proof -
  have "sleepers ts \<noteq> {}" using assms(5) by (auto simp: sleepers_def)
  then have "0 < card (runners waits ts)" using enough_runs [OF assms(1-3)] assms(4) by (simp add: enough_def)
  then show ?thesis by (auto simp: card_gt_0_iff runners_def)
qed

end

section \<open>Schedules\<close>

text \<open>
  A run written out as moves, to be evaluated: a call entered, a turn with what it sees and the
  sleeper a single wake goes to, a sleeper stirring.
\<close>

datatype 'o move = Calls nat 'o | Turns nat env nat | Stirs nat

fun rouse_one :: "nat \<Rightarrow> (nat \<Rightarrow> 'o activity) \<Rightarrow> (nat \<Rightarrow> 'o activity) option" where
  "rouse_one u ts = (case ts u of Asleep p \<Rightarrow> Some (ts(u := Running p)) | _ \<Rightarrow> None)"

fun rouse_some :: "wake \<Rightarrow> nat \<Rightarrow> (nat \<Rightarrow> 'o activity) \<Rightarrow> (nat \<Rightarrow> 'o activity) option" where
  "rouse_some Nobody u ts = Some ts"
| "rouse_some One u ts = rouse_one u ts"
| "rouse_some All u ts = Some (\<lambda>t. rouse (ts t))"

fun turned ::
  "nat \<Rightarrow> 'o \<Rightarrow> nat \<Rightarrow> ('o, 's, 'r) turn \<Rightarrow> ('o \<times> 'r) list \<Rightarrow> (nat \<Rightarrow> 'o activity) \<Rightarrow>
     (('o \<times> 'r) list \<times> 's \<times> (nat \<Rightarrow> 'o activity)) option" where
  "turned t p u (Return r s' w) log ts = map_option (\<lambda>ts'. ((p, r) # log, s', ts')) (rouse_some w u (ts(t := Idle)))"
| "turned t p u (Sleep p' s') log ts = Some (log, s', ts(t := Asleep p'))"
| "turned t p u (Again p' s' w) log ts = map_option (\<lambda>ts'. (log, s', ts')) (rouse_some w u (ts(t := Running p')))"

fun play ::
  "(env \<Rightarrow> bool) \<Rightarrow> ('o \<Rightarrow> env \<Rightarrow> 's \<Rightarrow> ('o, 's, 'r) turn) \<Rightarrow> ('o \<Rightarrow> bool) \<Rightarrow> 'o move list \<Rightarrow>
     (('o \<times> 'r) list \<times> 's \<times> (nat \<Rightarrow> 'o activity)) \<Rightarrow> (('o \<times> 'r) list \<times> 's \<times> (nat \<Rightarrow> 'o activity)) option" where
  "play legal turn entry [] c = Some c"
| "play legal turn entry (Calls t p # ms) (log, s, ts) =
     (if ts t = Idle \<and> entry p then play legal turn entry ms (log, s, ts(t := Running p)) else None)"
| "play legal turn entry (Turns t e u # ms) (log, s, ts) =
     (case ts t of
        Running p \<Rightarrow> if legal e then Option.bind (turned t p u (turn p e s) log ts) (play legal turn entry ms) else None
      | _ \<Rightarrow> None)"
| "play legal turn entry (Stirs t # ms) (log, s, ts) =
     (case ts t of Asleep p \<Rightarrow> play legal turn entry ms (log, s, ts(t := Running p)) | _ \<Rightarrow> None)"

lemma rouse_some_woken: "rouse_some w u ts = Some ts' \<Longrightarrow> woken w ts ts'"
  by (cases w) (auto intro: woken.intros split: activity.splits)

lemma turned_runs:
  assumes "runs legal turn entry s0 log s ts" "ts t = Running p" "legal e"
    and "turned t p u (turn p e s) log ts = Some (log', s', ts')"
  shows "runs legal turn entry s0 log' s' ts'"
proof (cases "turn p e s")
  case (Return r s'' w)
  then show ?thesis using assms by (auto intro!: runs.return rouse_some_woken)
next
  case (Sleep p' s'')
  then have "log' = log" "s' = s''" "ts' = ts(t := Asleep p')" using assms(4) by auto
  then show ?thesis using runs.sleep [OF assms(1-3) Sleep] by simp
next
  case (Again p' s'' w)
  then have "log' = log" "s' = s''" "woken w (ts(t := Running p')) ts'"
    using assms(4) rouse_some_woken by auto
  then show ?thesis using runs.again [OF assms(1-3) Again] by blast
qed

lemma play_runs:
  assumes "play legal turn entry ms (log, s, ts) = Some (log', s', ts')" "runs legal turn entry s0 log s ts"
  shows "runs legal turn entry s0 log' s' ts'"
  using assms
proof (induction ms arbitrary: log s ts)
  case (Cons m ms)
  show ?case
  proof (cases m)
    case (Calls t p)
    then have "ts t = Idle" "entry p" "play legal turn entry ms (log, s, ts(t := Running p)) = Some (log', s', ts')"
      using Cons.prems(1) by (auto split: if_splits)
    then show ?thesis using Cons.IH runs.call [OF Cons.prems(2)] by blast
  next
    case (Turns t e u)
    then obtain p c where p: "ts t = Running p" "legal e" "turned t p u (turn p e s) log ts = Some c"
      "play legal turn entry ms c = Some (log', s', ts')"
      using Cons.prems(1) by (auto split: activity.splits if_splits simp: bind_eq_Some_conv)
    obtain l a b where c: "c = (l, a, b)" by (cases c)
    show ?thesis using Cons.IH turned_runs [OF Cons.prems(2) p(1,2)] p(3,4) unfolding c by blast
  next
    case (Stirs t)
    then obtain p where "ts t = Asleep p" "play legal turn entry ms (log, s, ts(t := Running p)) = Some (log', s', ts')"
      using Cons.prems(1) by (auto split: activity.splits)
    then show ?thesis using Cons.IH runs.stir [OF Cons.prems(2)] by blast
  qed
qed simp

lemmas played = play_runs [OF _ runs.start]

text \<open>A turn that sees no signal and no timeout.\<close>

definition quiet :: env where
  "quiet = \<lparr>pending = False, pending_again = False, timed_out = False, expired = False\<rparr>"

lemma quiet_sel [simp]: "\<not> pending quiet" "\<not> pending_again quiet" "\<not> timed_out quiet" "\<not> expired quiet"
  by (simp_all add: quiet_def)

end
