(* ===== verification/Guest_Sync.thy ===== *)
theory Guest_Sync
  imports Monitor
begin

text \<open>
  Locks, semaphores, condition variables and read-write locks
  (\<^verbatim>\<open>orbistoun-kernel/src/sync.rs\<close>), each as the turns of its calls over its state
  (\<open>Monitor\<close>). \<open>Nudge\<close> is the part of \<open>nudge_waiters\<close> that concerns one object: it wakes every
  sleeper so that one with a signal pending looks again.

  The lemmas show that a lock is held by one thread at a time and as often as it was taken, that no
  thread sleeps on while what it waits for is free, that a semaphore never gives out more than it was
  given nor passes its ceiling, and that a writer of a read-write lock is alone. The lock's depth and
  the readers' count are 32 bits wide and wrap; 64-bit counters that would have to be moved
  \<open>2 ^ 64\<close> times to wrap are natural numbers. A host lock is taken to succeed.
\<close>

section \<open>Locks\<close>

datatype Recursion = Forbidden | Allowed | Errorcheck

datatype Acquisition = Locked | Busy | Deadlock

definition NO_THREAD :: u64 where
  "NO_THREAD = 0"

record Held =
  held_owner :: u64
  held_depth :: nat

definition held_default :: Held where
  "held_default = \<lparr>held_owner = NO_THREAD, held_depth = 0\<rparr>"

text \<open>\<open>Acquiring\<close> is an acquisition past the check for its own thread; the flag, whether it has slept.\<close>

datatype mutex_call = Acquire u64 Blocking | Acquiring u64 Blocking bool | Unlock u64 | MutexNudge

datatype mutex_answer = Acquired Acquisition | Unlocked bool | MutexNudged

definition acquire_loop ::
  "u64 \<Rightarrow> Blocking \<Rightarrow> bool \<Rightarrow> env \<Rightarrow> Held \<Rightarrow> (mutex_call, Held, mutex_answer) turn" where
  "acquire_loop by until slept e h =
     (case wait_while until slept e (held_depth h > 0 \<and> \<not> pending e) of
        GaveUp \<Rightarrow> Return (Acquired Busy) h Nobody
      | Sleeps \<Rightarrow> Sleep (Acquiring by until True) h
      | Ready \<Rightarrow>
          if held_depth h = 0
          then Return (Acquired Locked) (h\<lparr>held_owner := by, held_depth := 1\<rparr>) Nobody
          else Again (Acquiring by until False) h Nobody)"

definition mutex_acquire ::
  "Recursion \<Rightarrow> u64 \<Rightarrow> Blocking \<Rightarrow> env \<Rightarrow> Held \<Rightarrow> (mutex_call, Held, mutex_answer) turn" where
  "mutex_acquire recursion by until e h =
     (if held_depth h > 0 \<and> held_owner h = by
      then (case recursion of
              Allowed \<Rightarrow> Return (Acquired Locked) (h\<lparr>held_depth := (held_depth h + 1) mod 2 ^ 32\<rparr>) Nobody
            | Errorcheck \<Rightarrow> Return (Acquired Deadlock) h Nobody
            | Forbidden \<Rightarrow> Return (Acquired Busy) h Nobody)
      else acquire_loop by until False e h)"

definition mutex_unlock :: "u64 \<Rightarrow> Held \<Rightarrow> (mutex_call, Held, mutex_answer) turn" where
  "mutex_unlock by h =
     (if held_depth h = 0 \<or> held_owner h \<noteq> by then Return (Unlocked False) h Nobody
      else let h' = h\<lparr>held_depth := held_depth h - 1\<rparr>
      in if held_depth h' = 0 then Return (Unlocked True) (h'\<lparr>held_owner := NO_THREAD\<rparr>) One
         else Return (Unlocked True) h' Nobody)"

fun mutex_turn :: "Recursion \<Rightarrow> mutex_call \<Rightarrow> env \<Rightarrow> Held \<Rightarrow> (mutex_call, Held, mutex_answer) turn" where
  "mutex_turn recursion (Acquire by until) e h = mutex_acquire recursion by until e h"
| "mutex_turn recursion (Acquiring by until slept) e h = acquire_loop by until slept e h"
| "mutex_turn recursion (Unlock by) e h = mutex_unlock by h"
| "mutex_turn recursion MutexNudge e h = Return MutexNudged h All"

section \<open>Semaphores\<close>

record GuestSemaphore =
  sem_count :: nat
  sem_ceiling :: nat
  sem_signalled_at :: u64
  sem_signals :: nat

definition semaphore_new :: "nat \<Rightarrow> nat \<Rightarrow> GuestSemaphore" where
  "semaphore_new initial ceiling =
     \<lparr>sem_count = initial, sem_ceiling = ceiling, sem_signalled_at = 0, sem_signals = 0\<rparr>"

text \<open>A take and whether it has slept; a signal and the logical time of the thread that gives it.\<close>

datatype sem_call = Take nat Blocking bool | Signal nat u64 | SemNudge

datatype sem_answer = Taken bool | Signalled bool | SemNudged

definition sem_take ::
  "nat \<Rightarrow> Blocking \<Rightarrow> bool \<Rightarrow> env \<Rightarrow> GuestSemaphore \<Rightarrow> (sem_call, GuestSemaphore, sem_answer) turn" where
  "sem_take need until slept e s =
     (case wait_while until slept e (sem_count s < need \<and> \<not> pending e) of
        GaveUp \<Rightarrow> Return (Taken False) s Nobody
      | Sleeps \<Rightarrow> Sleep (Take need until True) s
      | Ready \<Rightarrow>
          if pending_again e then Again (Take need until False) s Nobody
          else if sem_count s < need then Return (Taken False) s Nobody
          else Return (Taken True) (s\<lparr>sem_count := sem_count s - need\<rparr>) Nobody)"

definition sem_signal :: "nat \<Rightarrow> u64 \<Rightarrow> GuestSemaphore \<Rightarrow> (sem_call, GuestSemaphore, sem_answer) turn" where
  "sem_signal n now s =
     (if sem_count s + n \<ge> 2 ^ 32 then Return (Signalled False) s Nobody
      else if sem_count s + n > sem_ceiling s then Return (Signalled False) s Nobody
      else Return (Signalled True)
             (s\<lparr>sem_count := sem_count s + n, sem_signals := sem_signals s + 1,
                sem_signalled_at := max (sem_signalled_at s) now\<rparr>) All)"

fun sem_turn :: "sem_call \<Rightarrow> env \<Rightarrow> GuestSemaphore \<Rightarrow> (sem_call, GuestSemaphore, sem_answer) turn" where
  "sem_turn (Take need until slept) e s = sem_take need until slept e s"
| "sem_turn (Signal n now) e s = sem_signal n now s"
| "sem_turn SemNudge e s = Return SemNudged s All"

section \<open>Condition variables\<close>

record CondState =
  cond_owed :: nat
  cond_waiting :: nat

definition cond_default :: CondState where
  "cond_default = \<lparr>cond_owed = 0, cond_waiting = 0\<rparr>"

text \<open>A wait and whether it has a deadline; once inside, also whether it has slept.\<close>

datatype cond_call = CondWait bool | CondWaiting bool bool | CondSignal | CondBroadcast | CondNudge

datatype cond_answer = Woke bool | CondSignalled | CondNudged

definition cond_loop ::
  "bool \<Rightarrow> bool \<Rightarrow> env \<Rightarrow> CondState \<Rightarrow> (cond_call, CondState, cond_answer) turn" where
  "cond_loop deadline slept e s =
     (if slept \<and> deadline \<and> timed_out e \<and> cond_owed s = 0
      then Return (Woke False) (s\<lparr>cond_waiting := cond_waiting s - 1\<rparr>) Nobody
      else if cond_owed s > 0
      then Return (Woke True) (s\<lparr>cond_owed := cond_owed s - 1, cond_waiting := cond_waiting s - 1\<rparr>) Nobody
      else if pending e then Again (CondWaiting deadline False) s Nobody
      else Sleep (CondWaiting deadline True) s)"

fun cond_turn :: "cond_call \<Rightarrow> env \<Rightarrow> CondState \<Rightarrow> (cond_call, CondState, cond_answer) turn" where
  "cond_turn (CondWait deadline) e s = cond_loop deadline False e (s\<lparr>cond_waiting := cond_waiting s + 1\<rparr>)"
| "cond_turn (CondWaiting deadline slept) e s = cond_loop deadline slept e s"
| "cond_turn CondSignal e s = Return CondSignalled (s\<lparr>cond_owed := cond_owed s + 1\<rparr>) One"
| "cond_turn CondBroadcast e s =
     Return CondSignalled (s\<lparr>cond_owed := max (cond_owed s) (max (cond_waiting s) 1)\<rparr>) All"
| "cond_turn CondNudge e s = Return CondNudged s All"

section \<open>Read-write locks\<close>

record RwState =
  rw_readers :: nat
  rw_writer :: bool

definition rw_default :: RwState where
  "rw_default = \<lparr>rw_readers = 0, rw_writer = False\<rparr>"

datatype rw_call = RwRead Blocking bool | RwWrite Blocking bool | RwUnlock

definition rwlock_read :: "Blocking \<Rightarrow> bool \<Rightarrow> env \<Rightarrow> RwState \<Rightarrow> (rw_call, RwState, bool) turn" where
  "rwlock_read until slept e s =
     (case wait_while until slept e (rw_writer s) of
        GaveUp \<Rightarrow> Return False s Nobody
      | Sleeps \<Rightarrow> Sleep (RwRead until True) s
      | Ready \<Rightarrow> Return True (s\<lparr>rw_readers := (rw_readers s + 1) mod 2 ^ 32\<rparr>) Nobody)"

definition rwlock_write :: "Blocking \<Rightarrow> bool \<Rightarrow> env \<Rightarrow> RwState \<Rightarrow> (rw_call, RwState, bool) turn" where
  "rwlock_write until slept e s =
     (case wait_while until slept e (rw_writer s \<or> rw_readers s > 0) of
        GaveUp \<Rightarrow> Return False s Nobody
      | Sleeps \<Rightarrow> Sleep (RwWrite until True) s
      | Ready \<Rightarrow> Return True (s\<lparr>rw_writer := True\<rparr>) Nobody)"

definition rwlock_unlock :: "RwState \<Rightarrow> (rw_call, RwState, bool) turn" where
  "rwlock_unlock s =
     (if rw_writer s then Return True (s\<lparr>rw_writer := False\<rparr>) All
      else if rw_readers s > 0 then Return True (s\<lparr>rw_readers := rw_readers s - 1\<rparr>) All
      else Return False s Nobody)"

fun rw_turn :: "rw_call \<Rightarrow> env \<Rightarrow> RwState \<Rightarrow> (rw_call, RwState, bool) turn" where
  "rw_turn (RwRead until slept) e s = rwlock_read until slept e s"
| "rw_turn (RwWrite until slept) e s = rwlock_write until slept e s"
| "rw_turn RwUnlock e s = rwlock_unlock s"

section \<open>Who holds a lock\<close>

text \<open>
  How often a thread holds a lock, from the calls that returned: what it was granted less what it
  released. And how often the state says it does.
\<close>

fun lock_change :: "u64 \<Rightarrow> mutex_call \<times> mutex_answer \<Rightarrow> int" where
  "lock_change by (Acquire b until, Acquired Locked) = (if b = by then 1 else 0)"
| "lock_change by (Acquiring b until slept, Acquired Locked) = (if b = by then 1 else 0)"
| "lock_change by (Unlock b, Unlocked True) = (if b = by then - 1 else 0)"
| "lock_change by _ = 0"

definition hold_count :: "u64 \<Rightarrow> (mutex_call \<times> mutex_answer) list \<Rightarrow> int" where
  "hold_count by log = sum_list (map (lock_change by) log)"

definition held_by :: "u64 \<Rightarrow> Held \<Rightarrow> int" where
  "held_by by h = (if held_depth h > 0 \<and> held_owner h = by then int (held_depth h) else 0)"

lemmas mutex_defs = acquire_loop_def mutex_acquire_def mutex_unlock_def

lemma mutex_go_on:
  "mutex_turn recursion p e h = Sleep p' h' \<or> mutex_turn recursion p e h = Again p' h' w \<Longrightarrow> h' = h"
  by (cases p) (auto simp: mutex_defs Let_def split: waited.splits if_splits Recursion.splits)

lemma mutex_return:
  assumes "mutex_turn recursion p e h = Return r h' w" "held_depth h + 1 < 2 ^ 32"
  shows "held_by by h' = held_by by h + lock_change by (p, r)"
    and "held_depth h' \<le> held_depth h + 1"
    and "recursion \<noteq> Allowed \<Longrightarrow> held_depth h \<le> 1 \<Longrightarrow> held_depth h' \<le> 1"
  using assms
  by (cases p; auto simp: mutex_defs held_by_def Let_def split: waited.splits if_splits Recursion.splits)+

lemma mutex_held:
  assumes "runs legal (mutex_turn recursion) entry held_default log h ts" "length log < 2 ^ 32"
  shows "held_depth h \<le> length log \<and> (recursion \<noteq> Allowed \<longrightarrow> held_depth h \<le> 1) \<and>
    (\<forall>by. hold_count by log = held_by by h)"
  using assms
proof (induction rule: runs_logged)
  case start
  show ?case by (simp add: held_default_def hold_count_def held_by_def)
next
  case (return log h p e r h' w)
  then have IH: "held_depth h \<le> length log" "recursion \<noteq> Allowed \<longrightarrow> held_depth h \<le> 1"
    "\<forall>by. hold_count by log = held_by by h" and small: "held_depth h + 1 < 2 ^ 32" by auto
  note ret = mutex_return [OF return.hyps(2) small]
  show ?case using ret IH by (auto simp: hold_count_def)
next
  case (go_on log h p e p' h' w)
  then show ?case using mutex_go_on by blast
qed

text \<open>Threads wait for a free lock and nothing else.\<close>

definition lock_free :: "Held \<Rightarrow> nat" where
  "lock_free h = (if held_depth h = 0 then 1 else 0)"

fun acquires :: "mutex_call \<Rightarrow> bool" where
  "acquires (Acquire by until) = True"
| "acquires (Acquiring by until slept) = True"
| "acquires (Unlock by) = False"
| "acquires MutexNudge = False"

interpretation mtx: hand_over "mutex_turn recursion" lock_free acquires
  "\<lambda>n h. held_depth h \<le> n" "\<lambda>n. n < 2 ^ 32" for recursion
proof
  fix n h p e r h' w
  assume "held_depth h \<le> n" "Suc n < 2 ^ 32" "acquires p" "mutex_turn recursion p e h = Return r h' w"
  then show "w = Nobody \<and> lock_free h' \<le> lock_free h - 1"
    by (cases p) (auto simp: mutex_defs lock_free_def wait_while_def
        split: waited.splits if_splits Recursion.splits Blocking.splits)
next
  fix p e h p' h'
  assume "mutex_turn recursion p e h = Sleep p' h'"
  then show "acquires p' \<and> lock_free h' = 0"
    by (cases p) (auto simp: mutex_defs lock_free_def Let_def
        split: waited.splits if_splits Recursion.splits dest!: wait_while_Sleeps)
next
  fix p e h p' h' w
  assume "mutex_turn recursion p e h = Again p' h' w"
  then show "w = Nobody \<and> (acquires p \<longrightarrow> acquires p') \<and> lock_free h' \<le> lock_free h"
    by (cases p) (auto simp: mutex_defs lock_free_def Let_def split: waited.splits if_splits Recursion.splits)
next
  fix p e h r h' w
  assume "\<not> acquires p" "mutex_turn recursion p e h = Return r h' w"
  then show "w = All \<or> w = One \<and> lock_free h' \<le> Suc (lock_free h) \<or> lock_free h' \<le> lock_free h"
    by (cases p) (auto simp: mutex_defs lock_free_def Let_def split: if_splits)
next
  fix n h p e r h' w
  assume "held_depth h \<le> n" "mutex_turn recursion p e h = Return r h' w"
  then show "held_depth h' \<le> Suc n"
    by (cases p) (auto simp: mutex_defs Let_def le_trans [OF mod_less_eq_dividend]
        split: waited.splits if_splits Recursion.splits)
next
  fix n h p e p' h' w
  assume "held_depth h \<le> n"
    "mutex_turn recursion p e h = Sleep p' h' \<or> mutex_turn recursion p e h = Again p' h' w"
  then show "held_depth h' \<le> n" using mutex_go_on by blast
qed simp

text \<open>An acquisition that finds the lock free takes it.\<close>

lemma acquires_free:
  assumes "acquires p" "held_depth h = 0"
  shows "\<exists>h'. mutex_turn recursion p e h = Return (Acquired Locked) h' Nobody"
  using assms by (cases p) (auto simp: mutex_defs wait_while_def)

section \<open>What a semaphore gives\<close>

fun sem_taken :: "sem_call \<times> sem_answer \<Rightarrow> nat" where
  "sem_taken (Take need until slept, Taken True) = need"
| "sem_taken _ = 0"

fun sem_given :: "sem_call \<times> sem_answer \<Rightarrow> nat" where
  "sem_given (Signal n now, Signalled True) = n"
| "sem_given _ = 0"

fun sem_blocked :: "sem_call \<Rightarrow> GuestSemaphore \<Rightarrow> bool" where
  "sem_blocked (Take need until slept) s = (sem_count s < need)"
| "sem_blocked (Signal n now) s = True"
| "sem_blocked SemNudge s = True"

lemma sem_go_on: "sem_turn p e s = Sleep p' s' \<or> sem_turn p e s = Again p' s' w \<Longrightarrow> s' = s"
  by (cases p) (auto simp: sem_take_def sem_signal_def split: waited.splits if_splits)

lemma sem_return:
  assumes "sem_turn p e s = Return r s' w"
  shows "sem_count s' + sem_taken (p, r) = sem_count s + sem_given (p, r) \<and> sem_ceiling s' = sem_ceiling s \<and>
    (sem_count s \<le> sem_ceiling s \<longrightarrow> sem_count s' \<le> sem_ceiling s) \<and>
    (sem_count s < sem_count s' \<longrightarrow> w = All)"
  using assms by (cases p) (auto simp: sem_take_def sem_signal_def split: waited.splits if_splits)

lemma sem_ledger:
  assumes "runs legal sem_turn entry s0 log s ts"
  shows "sem_count s + sum_list (map sem_taken log) = sem_count s0 + sum_list (map sem_given log) \<and>
    sem_ceiling s = sem_ceiling s0 \<and> (sem_count s0 \<le> sem_ceiling s0 \<longrightarrow> sem_count s \<le> sem_ceiling s0)"
  using assms
proof (induction rule: runs_logged)
  case (return log s p e r s' w)
  then show ?case using sem_return [OF return.hyps(2)] by auto
next
  case (go_on log s p e p' s' w)
  then show ?case using sem_go_on by blast
qed simp

interpretation smp: notify_all legal sem_turn sem_blocked "\<lambda>n s. True" "\<lambda>n. True" for legal
proof
  fix p e p' q w and s s' :: GuestSemaphore
  show "sem_turn p e s = Sleep p' s' \<Longrightarrow> sem_blocked p' s'"
    by (cases p) (auto simp: sem_take_def sem_signal_def split: waited.splits if_splits dest!: wait_while_Sleeps)
  show "sem_turn p e s = Sleep p' s' \<Longrightarrow> sem_blocked q s \<Longrightarrow> sem_blocked q s'"
    "sem_turn p e s = Again p' s' w \<Longrightarrow> sem_blocked q s \<Longrightarrow> \<not> sem_blocked q s' \<Longrightarrow> w = All"
    using sem_go_on by blast+
next
  fix p e r w q and s s' :: GuestSemaphore
  assume "sem_turn p e s = Return r s' w" "sem_blocked q s" "\<not> sem_blocked q s'"
  then show "w = All" using sem_return [of p e s r s' w] by (cases q) auto
qed simp_all

section \<open>Wakes a condition variable owes\<close>

fun cond_inside :: "cond_call \<Rightarrow> bool" where
  "cond_inside (CondWaiting deadline slept) = True"
| "cond_inside _ = False"

fun cond_waits :: "cond_call \<Rightarrow> bool" where
  "cond_waits (CondWait deadline) = True"
| "cond_waits (CondWaiting deadline slept) = True"
| "cond_waits _ = False"

interpretation cnd: hand_over cond_turn cond_owed cond_waits "\<lambda>n s. True" "\<lambda>n. True"
proof
  fix n p e r w and s s' :: CondState
  assume "cond_waits p" "cond_turn p e s = Return r s' w"
  then show "w = Nobody \<and> cond_owed s' \<le> cond_owed s - 1"
    by (cases p) (auto simp: cond_loop_def split: if_splits)
next
  fix p e p' w and s s' :: CondState
  show "cond_turn p e s = Sleep p' s' \<Longrightarrow> cond_waits p' \<and> cond_owed s' = 0"
    by (cases p) (auto simp: cond_loop_def split: if_splits)
  show "cond_turn p e s = Again p' s' w \<Longrightarrow> w = Nobody \<and> (cond_waits p \<longrightarrow> cond_waits p') \<and> cond_owed s' \<le> cond_owed s"
    by (cases p) (auto simp: cond_loop_def split: if_splits)
next
  fix p e r w and s s' :: CondState
  assume "\<not> cond_waits p" "cond_turn p e s = Return r s' w"
  then show "w = All \<or> w = One \<and> cond_owed s' \<le> Suc (cond_owed s) \<or> cond_owed s' \<le> cond_owed s"
    by (cases p) auto
qed simp_all

lemma cond_waiting_count:
  assumes "runs legal cond_turn entry cond_default log s ts" "\<And>p. entry p \<Longrightarrow> \<not> cond_inside p"
  shows "cond_waiting s = card (doing cond_inside ts)"
proof (rule runs_occupancy [OF assms(1) _ assms(2)])
  fix p e r w and s s' :: CondState
  assume "cond_turn p e s = Return r s' w" "cond_inside p \<longrightarrow> 0 < cond_waiting s"
  then show "cond_waiting s' + of_bool (cond_inside p) = cond_waiting s"
    by (cases p) (auto simp: cond_loop_def split: if_splits)
next
  fix p e p' w and s s' :: CondState
  assume "cond_turn p e s = Sleep p' s' \<or> cond_turn p e s = Again p' s' w"
  then show "cond_waiting s' + of_bool (cond_inside p) = cond_waiting s + of_bool (cond_inside p')"
    by (cases p) (auto simp: cond_loop_def split: if_splits)
qed (simp add: cond_default_def)

lemma cond_waits_owed:
  assumes "cond_waits p" "cond_owed s > 0"
  shows "\<exists>s'. cond_turn p e s = Return (Woke True) s' Nobody \<and> cond_owed s' = cond_owed s - 1"
  using assms by (cases p) (auto simp: cond_loop_def)

section \<open>A read-write lock as readers or a writer\<close>

text \<open>The specification: shared by some number of readers (free when none), or one writer's.\<close>

datatype rw_hold = Shared nat | Exclusive

fun rw_spec :: "rw_hold \<Rightarrow> rw_call \<times> bool \<Rightarrow> rw_hold option" where
  "rw_spec (Shared n) (RwRead until slept, True) = Some (Shared (Suc n))"
| "rw_spec (Shared 0) (RwWrite until slept, True) = Some Exclusive"
| "rw_spec Exclusive (RwUnlock, True) = Some (Shared 0)"
| "rw_spec (Shared (Suc n)) (RwUnlock, True) = Some (Shared n)"
| "rw_spec (Shared 0) (RwUnlock, False) = Some (Shared 0)"
| "rw_spec h (RwRead until slept, False) = Some h"
| "rw_spec h (RwWrite until slept, False) = Some h"
| "rw_spec h _ = None"

fun rw_replay :: "(rw_call \<times> bool) list \<Rightarrow> rw_hold option" where
  "rw_replay [] = Some (Shared 0)"
| "rw_replay (c # log) = (case rw_replay log of None \<Rightarrow> None | Some h \<Rightarrow> rw_spec h c)"

definition rw_abs :: "RwState \<Rightarrow> rw_hold" where
  "rw_abs s = (if rw_writer s then Exclusive else Shared (rw_readers s))"

fun rw_blocked :: "rw_call \<Rightarrow> RwState \<Rightarrow> bool" where
  "rw_blocked (RwRead until slept) s = rw_writer s"
| "rw_blocked (RwWrite until slept) s = (rw_writer s \<or> rw_readers s > 0)"
| "rw_blocked RwUnlock s = True"

definition rw_ok :: "nat \<Rightarrow> RwState \<Rightarrow> bool" where
  "rw_ok n s \<longleftrightarrow> rw_readers s \<le> n \<and> (rw_writer s \<longrightarrow> rw_readers s = 0)"

lemmas rw_defs = rwlock_read_def rwlock_write_def rwlock_unlock_def

lemma rw_go_on: "rw_turn p e s = Sleep p' s' \<or> rw_turn p e s = Again p' s' w \<Longrightarrow> s' = s"
  by (cases p) (auto simp: rw_defs split: waited.splits if_splits)

lemma rw_ok_return:
  assumes "rw_turn p e s = Return r s' w" "rw_ok n s"
  shows "rw_ok (Suc n) s'"
  using assms by (cases p) (auto simp: rw_defs rw_ok_def wait_while_Ready
      intro: le_trans [OF mod_less_eq_dividend] split: waited.splits if_splits)

lemma rw_return_spec:
  assumes "rw_turn p e s = Return r s' w" "rw_ok n s" "Suc n < 2 ^ 32"
  shows "rw_spec (rw_abs s) (p, r) = Some (rw_abs s')"
proof (cases p)
  case (RwWrite until slept)
  then show ?thesis using assms
    by (cases "rw_readers s") (auto simp: rw_defs rw_ok_def rw_abs_def wait_while_Ready split: waited.splits if_splits)
next
  case RwUnlock
  then show ?thesis using assms
    by (cases "rw_readers s") (auto simp: rw_defs rw_ok_def rw_abs_def split: if_splits)
qed (use assms in \<open>auto simp: rw_defs rw_ok_def rw_abs_def wait_while_Ready split: waited.splits if_splits\<close>)

interpretation rwl: notify_all legal rw_turn rw_blocked rw_ok "\<lambda>n. n < 2 ^ 32" for legal
proof
  fix n p e p' and s s' :: RwState
  show "rw_turn p e s = Sleep p' s' \<Longrightarrow> rw_blocked p' s'"
    by (cases p) (auto simp: rw_defs split: waited.splits if_splits dest!: wait_while_Sleeps)
next
  fix n p e r w q and s s' :: RwState
  assume "rw_ok n s" "Suc n < 2 ^ 32" "rw_turn p e s = Return r s' w" "rw_blocked q s" "\<not> rw_blocked q s'"
  then show "w = All"
    by (cases p; cases q) (auto simp: rw_defs rw_ok_def split: waited.splits if_splits)
next
  fix n p e p' q w and s s' :: RwState
  assume "rw_ok n s"
  then show "rw_turn p e s = Sleep p' s' \<or> rw_turn p e s = Again p' s' w \<Longrightarrow> rw_ok n s'" using rw_go_on by blast
  show "rw_turn p e s = Sleep p' s' \<Longrightarrow> rw_blocked q s \<Longrightarrow> rw_blocked q s'"
    "rw_turn p e s = Again p' s' w \<Longrightarrow> rw_blocked q s \<Longrightarrow> \<not> rw_blocked q s' \<Longrightarrow> w = All"
    using rw_go_on by blast+
qed (auto intro: rw_ok_return)

section \<open>Properties\<close>

fun mutex_entry :: "mutex_call \<Rightarrow> bool" where
  "mutex_entry (Acquiring by until slept) = False"
| "mutex_entry _ = True"

fun cond_entry :: "cond_call \<Rightarrow> bool" where
  "cond_entry (CondWaiting deadline slept) = False"
| "cond_entry _ = True"

text \<open>C8. Whatever threads do with a lock, in whatever order their turns fall and whatever wakes them,
  it is held by one thread at a time: in every run of fewer than \<open>2 ^ 32\<close> calls, what a thread was
  granted less what it released is never negative, is positive for at most one thread, and is at most
  one unless the lock is recursive.\<close>

theorem mutex_exclusion:
  assumes "runs legal (mutex_turn recursion) mutex_entry held_default log h ts" "length log < 2 ^ 32"
  shows "0 \<le> hold_count a log \<and> (0 < hold_count a log \<longrightarrow> 0 < hold_count b log \<longrightarrow> a = b) \<and>
    (recursion \<noteq> Allowed \<longrightarrow> hold_count a log \<le> 1)"
  using mutex_held [OF assms] by (auto simp: held_by_def)

text \<open>A run: thread 0 takes the lock, threads 1 and 2 go to sleep on it, thread 0 lets it go.\<close>

lemmas demo_turns = mutex_defs wait_while_def held_default_def NO_THREAD_def Let_def

definition demo_lock :: "mutex_call move list" where
  "demo_lock = [Calls 0 (Acquire 7 Forever), Turns 0 quiet 0, Calls 1 (Acquire 8 Forever), Turns 1 quiet 0,
     Calls 2 (Acquire 9 Forever), Turns 2 quiet 0, Calls 0 (Unlock 7), Turns 0 quiet 1]"

lemma demo_lock_played:
  "play (\<lambda>e. True) (mutex_turn Forbidden) mutex_entry demo_lock ([], held_default, \<lambda>t. Idle) =
     Some ([(Unlock 7, Unlocked True), (Acquire 7 Forever, Acquired Locked)],
       held_default, (\<lambda>t. Idle)(1 := Running (Acquiring 8 Forever True), 2 := Asleep (Acquiring 9 Forever True)))"
  by (auto simp: demo_lock_def demo_turns)

theorem mutex_exclusion_witness:
  "hold_count 7 [(Unlock 7, Unlocked True), (Acquire 7 Forever, Acquired Locked)] \<le> 1"
  using mutex_exclusion [OF played [OF demo_lock_played], of 7 8] by simp

text \<open>C9. A lock that is let go is not left lying: whenever it is free while some thread sleeps for it,
  a thread waiting for it is awake, and whenever that thread next looks, whatever it sees, it takes
  the lock if it is still free.\<close>

theorem mutex_not_left_free:
  assumes "runs legal (mutex_turn recursion) mutex_entry held_default log h ts" "length log < 2 ^ 32"
    and "held_depth h = 0" "ts t = Asleep p"
  shows "\<exists>u q. ts u = Running q \<and> (\<forall>e. \<exists>h'. mutex_turn recursion q e h = Return (Acquired Locked) h' Nobody)"
proof -
  have "\<exists>u q. ts u = Running q \<and> acquires q"
    using mtx.somebody_takes [OF assms(1) _ assms(2) _ assms(4)] assms(3)
    by (simp add: held_default_def lock_free_def)
  then show ?thesis using acquires_free assms(3) by blast
qed

theorem mutex_not_left_free_witness:
  "\<exists>h'. mutex_turn Forbidden (Acquiring 8 Forever True) quiet held_default = Return (Acquired Locked) h' Nobody"
proof -
  let ?ts = "(\<lambda>t :: nat. Idle)(1 := Running (Acquiring 8 Forever True), 2 := Asleep (Acquiring 9 Forever True))"
  have "\<exists>u q. ?ts u = Running q \<and> (\<forall>e. \<exists>h'. mutex_turn Forbidden q e held_default = Return (Acquired Locked) h' Nobody)"
    by (rule mutex_not_left_free [OF played [OF demo_lock_played], where t = 2]) (auto simp: held_default_def)
  then show ?thesis by (auto split: if_splits)
qed

text \<open>C11. A semaphore gives out exactly what it is given: what it holds and what was taken make up
  what it began with and what was signalled, it never holds more than its ceiling, and no thread is
  asleep for a number it already holds.\<close>

theorem semaphore_conserves:
  assumes "runs legal sem_turn entry (semaphore_new initial ceiling) log s ts" "initial \<le> ceiling"
  shows "sem_count s + sum_list (map sem_taken log) = initial + sum_list (map sem_given log) \<and>
    sem_count s \<le> ceiling \<and> (\<forall>t need until slept. ts t = Asleep (Take need until slept) \<longrightarrow> sem_count s < need)"
  using sem_ledger [OF assms(1)] assms(2) smp.asleep_blocked [OF assms(1)]
  by (fastforce simp: semaphore_new_def)

definition demo_sem :: "sem_call move list" where
  "demo_sem = [Calls 0 (Take 2 Forever False), Turns 0 quiet 0, Calls 1 (Signal 1 5), Turns 1 quiet 0,
     Turns 0 quiet 0, Calls 1 (Signal 2 4), Turns 1 quiet 0, Turns 0 quiet 0]"

lemma demo_sem_played:
  "play (\<lambda>e. True) sem_turn (\<lambda>p. True) demo_sem ([], semaphore_new 0 3, \<lambda>t. Idle) =
     Some ([(Take 2 Forever True, Taken True), (Signal 2 4, Signalled True), (Signal 1 5, Signalled True)],
       \<lparr>sem_count = 1, sem_ceiling = 3, sem_signalled_at = 5, sem_signals = 2\<rparr>, \<lambda>t. Idle)"
  by (auto simp: demo_sem_def semaphore_new_def sem_take_def sem_signal_def wait_while_def)

theorem semaphore_conserves_witness:
  "1 + sum_list (map sem_taken [(Take 2 Forever True, Taken True)]) =
     0 + sum_list (map sem_given [(Signal 2 4, Signalled True), (Signal 1 5, Signalled True)])"
  using semaphore_conserves [OF played [OF demo_sem_played]] by simp

text \<open>C12. A wake owed to a condition variable is not lost: while one is owed and a thread sleeps, a
  waiter is awake and its next look takes the wake, whatever else it sees; and the count of waiting
  threads, which a broadcast goes by, is their number.\<close>

theorem cond_wake_kept:
  assumes "runs legal cond_turn cond_entry cond_default log s ts"
  shows "(0 < cond_owed s \<longrightarrow> ts t = Asleep p \<longrightarrow>
      (\<exists>u q. ts u = Running q \<and> (\<forall>e. \<exists>s'. cond_turn q e s = Return (Woke True) s' Nobody))) \<and>
    cond_waiting s = card (doing cond_inside ts)"
proof -
  have "\<not> cond_inside q" if "cond_entry q" for q using that by (cases q) auto
  then have "cond_waiting s = card (doing cond_inside ts)" using cond_waiting_count [OF assms] by blast
  moreover have "\<exists>u q. ts u = Running q \<and> (\<forall>e. \<exists>s'. cond_turn q e s = Return (Woke True) s' Nobody)"
    if "0 < cond_owed s" "ts t = Asleep p"
    using cnd.somebody_takes [OF assms _ _ that] cond_waits_owed that(1) by blast
  ultimately show ?thesis by blast
qed

text \<open>Two threads sleep and a broadcast owes each of them a wake.\<close>

definition demo_cond :: "cond_call move list" where
  "demo_cond = [Calls 0 (CondWait False), Turns 0 quiet 0, Calls 1 (CondWait False), Turns 1 quiet 0,
     Calls 2 CondSignal, Turns 2 quiet 0]"

lemma demo_cond_played:
  "play (\<lambda>e. True) cond_turn cond_entry demo_cond ([], cond_default, \<lambda>t. Idle) =
     Some ([(CondSignal, CondSignalled)], \<lparr>cond_owed = 1, cond_waiting = 2\<rparr>,
       (\<lambda>t. Idle)(0 := Running (CondWaiting False True), 1 := Asleep (CondWaiting False True)))"
  by (auto simp: demo_cond_def cond_default_def cond_loop_def)

theorem cond_wake_kept_witness:
  "card (doing cond_inside
     ((\<lambda>t. Idle)(0 := Running (CondWaiting False True), 1 := Asleep (CondWaiting False True)))) = 2"
  using cond_wake_kept [OF played [OF demo_cond_played]] by simp

text \<open>A broadcast does not wake every waiter: two threads sleep, a broadcast owes two wakes, and a
  thread that only begins to wait afterwards takes one of them, so that one of the two sleeps on with
  nothing owed.\<close>

theorem cond_broadcast_stolen:
  "\<exists>ts ts'.
     runs (\<lambda>e. True) cond_turn cond_entry cond_default [] \<lparr>cond_owed = 0, cond_waiting = 2\<rparr> ts \<and>
     ts 0 = Asleep (CondWaiting False True) \<and> ts 1 = Asleep (CondWaiting False True) \<and> ts 2 = Idle \<and>
     runs (\<lambda>e. True) cond_turn cond_entry cond_default
       [(CondWaiting False True, Woke True), (CondWait False, Woke True), (CondBroadcast, CondSignalled)]
       \<lparr>cond_owed = 0, cond_waiting = 1\<rparr> ts' \<and>
     ts' 0 = Asleep (CondWaiting False True)"
proof -
  let ?go = "\<lambda>ms. play (\<lambda>e. True) cond_turn cond_entry ms ([], cond_default, \<lambda>t. Idle)"
  let ?asleep = "[Calls 0 (CondWait False), Turns 0 quiet 0, Calls 1 (CondWait False), Turns 1 quiet 0]"
  have two: "?go ?asleep = Some ([], \<lparr>cond_owed = 0, cond_waiting = 2\<rparr>,
      (\<lambda>t. Idle)(0 := Asleep (CondWaiting False True), 1 := Asleep (CondWaiting False True)))"
    by (auto simp: cond_default_def cond_loop_def)
  have stolen: "?go (?asleep @ [Calls 2 CondBroadcast, Turns 2 quiet 0, Calls 2 (CondWait False), Turns 2 quiet 0,
        Turns 1 quiet 0, Turns 0 quiet 0]) =
      Some ([(CondWaiting False True, Woke True), (CondWait False, Woke True), (CondBroadcast, CondSignalled)],
        \<lparr>cond_owed = 0, cond_waiting = 1\<rparr>, (\<lambda>t. Idle)(0 := Asleep (CondWaiting False True)))"
    by (auto simp: cond_default_def cond_loop_def)
  show ?thesis
    by (rule exI, rule exI, rule conjI [OF played [OF two]], intro conjI, simp, simp, simp,
        rule played [OF stolen], simp)
qed

text \<open>C10. A read-write lock implements readers or one writer: in every run of fewer than \<open>2 ^ 32\<close>
  calls, the answers given are ones the specification allows in their order (a writer is let in only
  when nobody holds the lock, a reader only when no writer does, and a release is refused only when
  nobody holds it), the state is what they add up to, and no thread sleeps that could be let in.\<close>

theorem rwlock_refines:
  assumes "runs legal rw_turn entry rw_default log s ts" "length log < 2 ^ 32"
  shows "rw_replay log = Some (rw_abs s) \<and> (\<forall>t p. ts t = Asleep p \<longrightarrow> rw_blocked p s)"
proof -
  have ok0: "rw_ok 0 rw_default" by (simp add: rw_ok_def rw_default_def)
  have "length log < 2 ^ 32 \<longrightarrow> rw_ok (length log) s \<and> rw_replay log = Some (rw_abs s)"
    using assms(1)
  proof (induction rule: runs_logged)
    case start
    show ?case using ok0 by (simp add: rw_abs_def rw_default_def)
  next
    case (return log s p e r s' w)
    then show ?case using rw_ok_return [OF return.hyps(2)] rw_return_spec [OF return.hyps(2)] by auto
  next
    case (go_on log s p e p' s' w)
    then show ?case using rw_go_on by blast
  qed
  then show ?thesis using assms(2) rwl.asleep_blocked [OF assms(1) ok0 assms(2)] by blast
qed

definition demo_rw :: "rw_call move list" where
  "demo_rw = [Calls 0 (RwRead Never False), Turns 0 quiet 0, Calls 1 (RwWrite Forever False), Turns 1 quiet 0]"

lemma demo_rw_played:
  "play (\<lambda>e. True) rw_turn (\<lambda>p. True) demo_rw ([], rw_default, \<lambda>t. Idle) =
     Some ([(RwRead Never False, True)], \<lparr>rw_readers = 1, rw_writer = False\<rparr>,
       (\<lambda>t. Idle)(1 := Asleep (RwWrite Forever True)))"
  by (auto simp: demo_rw_def rw_default_def rw_defs wait_while_def)

theorem rwlock_refines_witness:
  "rw_replay [(RwRead Never False, True)] = Some (Shared 1)"
  using rwlock_refines [OF played [OF demo_rw_played]] by (simp add: rw_abs_def)

end
