(* ===== verification/Sync_Waits.thy ===== *)
theory Sync_Waits
  imports Monitor "HOL-Library.Word"
begin

unbundle bit_operations_syntax

text \<open>
  Barriers, event flags and waits on an address (\<^verbatim>\<open>orbistoun-kernel/src/sync.rs\<close>), as the turns
  of their calls (\<open>Monitor\<close>). The lemmas show that a barrier lets nobody go before all have come,
  that a wait on an event flag answers what it saw and a cancel releases exactly the threads it
  counts, and that a wake on an address reaches exactly the sleepers it was granted to.
\<close>

section \<open>Barriers\<close>

record BarrierState =
  barrier_arrived :: nat
  barrier_round :: u64

definition barrier_default :: BarrierState where
  "barrier_default = \<lparr>barrier_arrived = 0, barrier_round = 0\<rparr>"

text \<open>How many a barrier waits for, from the count it was made with.\<close>

definition barrier_needed :: "nat \<Rightarrow> nat" where
  "barrier_needed needed = max needed 1"

datatype barrier_call = BarrierWait | BarrierWaiting u64

definition barrier_wait :: "nat \<Rightarrow> BarrierState \<Rightarrow> (barrier_call, BarrierState, bool) turn" where
  "barrier_wait needed s =
     (let round = barrier_round s; arrived = barrier_arrived s + 1
      in if arrived \<ge> needed
         then Return True (s\<lparr>barrier_arrived := 0, barrier_round := wrapping_add round 1\<rparr>) All
         else Sleep (BarrierWaiting round) (s\<lparr>barrier_arrived := arrived\<rparr>))"

fun barrier_turn :: "nat \<Rightarrow> barrier_call \<Rightarrow> env \<Rightarrow> BarrierState \<Rightarrow> (barrier_call, BarrierState, bool) turn" where
  "barrier_turn needed BarrierWait e s = barrier_wait needed s"
| "barrier_turn needed (BarrierWaiting round) e s =
     (if barrier_round s = round then Sleep (BarrierWaiting round) s else Return False s Nobody)"

section \<open>Event flags\<close>

record GuestEventFlag =
  flag_bits :: "64 word"
  flag_waiting :: nat
  flag_cancels :: nat
  flag_set_at :: u64
  flag_sets :: nat

definition event_flag_new :: "64 word \<Rightarrow> GuestEventFlag" where
  "event_flag_new initial =
     \<lparr>flag_bits = initial, flag_waiting = 0, flag_cancels = 0, flag_set_at = 0, flag_sets = 0\<rparr>"

datatype FlagWait = Found "64 word" | TimedOut | Cancelled

text \<open>What a wait asks: the pattern, all of it or any, clear everything or the pattern, a timeout.\<close>

record flag_ask =
  ask_wanted :: "64 word"
  ask_all :: bool
  ask_clear_all :: bool
  ask_clear_pat :: bool
  ask_timeout :: bool

datatype flag_call =
    EventFlagWait flag_ask
  | EventFlagWaiting flag_ask nat bool
  | EventFlagPoll "64 word" bool
  | EventFlagSet "64 word" u64
  | EventFlagCancel "64 word"
  | EventFlagClear "64 word"
  | EventFlagNudge

datatype flag_answer = Waited FlagWait | Polled "64 word option" | FlagChanged | WasWaiting nat | FlagNudged

definition flag_matches :: "64 word \<Rightarrow> bool \<Rightarrow> 64 word \<Rightarrow> bool" where
  "flag_matches wanted all bits =
     (if all then wanted \<noteq> 0 \<and> bits AND wanted = wanted else bits AND wanted \<noteq> 0)"

definition flag_cleared :: "flag_ask \<Rightarrow> 64 word \<Rightarrow> 64 word" where
  "flag_cleared ask bits =
     (if ask_clear_all ask then 0 else if ask_clear_pat ask then bits AND NOT (ask_wanted ask) else bits)"

definition flag_left :: "FlagWait \<Rightarrow> GuestEventFlag \<Rightarrow> (flag_call, GuestEventFlag, flag_answer) turn" where
  "flag_left answer s = Return (Waited answer) (s\<lparr>flag_waiting := flag_waiting s - 1\<rparr>) Nobody"

definition wait_on_flag ::
  "flag_ask \<Rightarrow> nat \<Rightarrow> bool \<Rightarrow> env \<Rightarrow> GuestEventFlag \<Rightarrow> (flag_call, GuestEventFlag, flag_answer) turn" where
  "wait_on_flag ask cancels slept e s =
     (let matched = flag_matches (ask_wanted ask) (ask_all ask) (flag_bits s)
      in if slept \<and> ask_timeout ask \<and> timed_out e \<and> \<not> matched \<and> flag_cancels s = cancels
         then flag_left TimedOut s
         else if flag_cancels s \<noteq> cancels then flag_left Cancelled s
         else if matched
         then flag_left (Found (flag_bits s)) (s\<lparr>flag_bits := flag_cleared ask (flag_bits s)\<rparr>)
         else if pending e then Again (EventFlagWaiting ask cancels False) s Nobody
         else if ask_timeout ask \<and> expired e then flag_left TimedOut s
         else Sleep (EventFlagWaiting ask cancels True) s)"

fun flag_turn :: "flag_call \<Rightarrow> env \<Rightarrow> GuestEventFlag \<Rightarrow> (flag_call, GuestEventFlag, flag_answer) turn" where
  "flag_turn (EventFlagWait ask) e s =
     wait_on_flag ask (flag_cancels s) False e (s\<lparr>flag_waiting := flag_waiting s + 1\<rparr>)"
| "flag_turn (EventFlagWaiting ask cancels slept) e s = wait_on_flag ask cancels slept e s"
| "flag_turn (EventFlagPoll wanted all) e s =
     Return (Polled (if flag_matches wanted all (flag_bits s) then Some (flag_bits s) else None)) s Nobody"
| "flag_turn (EventFlagSet pattern now) e s =
     Return FlagChanged
       (s\<lparr>flag_bits := flag_bits s OR pattern, flag_sets := flag_sets s + 1,
          flag_set_at := max (flag_set_at s) now\<rparr>) All"
| "flag_turn (EventFlagCancel pattern) e s =
     Return (WasWaiting (flag_waiting s)) (s\<lparr>flag_bits := pattern, flag_cancels := flag_cancels s + 1\<rparr>) All"
| "flag_turn (EventFlagClear pattern) e s =
     Return FlagChanged (s\<lparr>flag_bits := flag_bits s AND pattern\<rparr>) Nobody"
| "flag_turn EventFlagNudge e s = Return FlagNudged s All"

section \<open>Waits on an address\<close>

text \<open>
  One address's queue, with the guest's word beside it: the wait reads it with the queue's lock held,
  a guest stores to it without.
\<close>

record AddressQueue =
  aq_waiting :: nat
  aq_tokens :: nat
  aq_word :: u64

definition address_queue_new :: "u64 \<Rightarrow> AddressQueue" where
  "address_queue_new w = \<lparr>aq_waiting = 0, aq_tokens = 0, aq_word = w\<rparr>"

datatype AddressWait = Mismatch | Woken | PatienceOut

text \<open>\<open>AddressLeaving\<close> is a wait that gave up and has yet to take the lock again to leave.\<close>

datatype address_call =
    WaitOnAddress u64 Blocking
  | AddressWaiting Blocking bool
  | AddressLeaving
  | WakeOnAddress nat
  | StoreWord u64
  | AddressNudge

datatype address_answer = AddressWaited AddressWait | Granted nat | AddressDone

definition address_loop ::
  "Blocking \<Rightarrow> bool \<Rightarrow> env \<Rightarrow> AddressQueue \<Rightarrow> (address_call, AddressQueue, address_answer) turn" where
  "address_loop until slept e q =
     (case wait_while until slept e (aq_tokens q = 0 \<and> \<not> pending e) of
        GaveUp \<Rightarrow> Again AddressLeaving q Nobody
      | Sleeps \<Rightarrow> Sleep (AddressWaiting until True) q
      | Ready \<Rightarrow>
          if pending_again e then Again (AddressWaiting until False) q Nobody
          else Return (AddressWaited Woken)
                 (q\<lparr>aq_tokens := (if aq_tokens q = 0 then 2 ^ 32 - 1 else aq_tokens q - 1),
                    aq_waiting := aq_waiting q - 1\<rparr>) Nobody)"

definition address_leave :: "AddressQueue \<Rightarrow> (address_call, AddressQueue, address_answer) turn" where
  "address_leave q =
     (let q' = q\<lparr>aq_waiting := aq_waiting q - 1\<rparr>
      in if aq_tokens q' > aq_waiting q'
         then Return (AddressWaited Woken) (q'\<lparr>aq_tokens := aq_tokens q' - 1\<rparr>) Nobody
         else Return (AddressWaited PatienceOut) q' Nobody)"

definition wake_on_address :: "nat \<Rightarrow> AddressQueue \<Rightarrow> (address_call, AddressQueue, address_answer) turn" where
  "wake_on_address count q =
     (let granted = min count (aq_waiting q - aq_tokens q)
      in if granted > 0 then Return (Granted granted) (q\<lparr>aq_tokens := aq_tokens q + granted\<rparr>) All
         else Return (Granted granted) q Nobody)"

fun address_turn :: "address_call \<Rightarrow> env \<Rightarrow> AddressQueue \<Rightarrow> (address_call, AddressQueue, address_answer) turn" where
  "address_turn (WaitOnAddress expected until) e q =
     (if aq_word q \<noteq> expected then Return (AddressWaited Mismatch) q Nobody
      else address_loop until False e (q\<lparr>aq_waiting := aq_waiting q + 1\<rparr>))"
| "address_turn (AddressWaiting until slept) e q = address_loop until slept e q"
| "address_turn AddressLeaving e q = address_leave q"
| "address_turn (WakeOnAddress count) e q = wake_on_address count q"
| "address_turn (StoreWord w) e q = Return AddressDone (q\<lparr>aq_word := w\<rparr>) Nobody"
| "address_turn AddressNudge e q = Return AddressDone q All"

section \<open>Event flags: what a wait answers\<close>

lemma flag_matches_and: "flag_matches wanted all (bits AND m) \<Longrightarrow> flag_matches wanted all bits"
proof (cases all)
  case True
  assume "flag_matches wanted all (bits AND m)"
  then have "(bits AND m) AND wanted = wanted" "wanted \<noteq> 0" using True by (auto simp: flag_matches_def)
  then show ?thesis using True by (auto simp: flag_matches_def bit_eq_iff bit_and_iff)
next
  case False
  assume "flag_matches wanted all (bits AND m)"
  then have "(bits AND m) AND wanted \<noteq> 0" using False by (simp add: flag_matches_def)
  moreover have "(bits AND m) AND wanted = m AND (bits AND wanted)" by (simp add: ac_simps)
  ultimately have "bits AND wanted \<noteq> 0" by auto
  then show ?thesis using False by (simp add: flag_matches_def)
qed

lemma flag_matches_cleared: "flag_matches wanted all (flag_cleared ask bits) \<Longrightarrow> flag_matches wanted all bits"
  using flag_matches_and [of wanted all bits] unfolding flag_cleared_def
  by (auto split: if_splits simp: flag_matches_def)

fun flag_inside :: "flag_call \<Rightarrow> bool" where
  "flag_inside (EventFlagWaiting ask cancels slept) = True"
| "flag_inside _ = False"

fun flag_blocked :: "flag_call \<Rightarrow> GuestEventFlag \<Rightarrow> bool" where
  "flag_blocked (EventFlagWaiting ask cancels slept) s =
     (flag_cancels s = cancels \<and> \<not> flag_matches (ask_wanted ask) (ask_all ask) (flag_bits s))"
| "flag_blocked _ s = True"

lemmas flag_defs = wait_on_flag_def flag_left_def Let_def

lemma flag_go_on:
  "flag_turn p e s = Sleep p' s' \<or> flag_turn p e s = Again p' s' w \<Longrightarrow>
     flag_bits s' = flag_bits s \<and> flag_cancels s' = flag_cancels s \<and> flag_inside p' \<and>
     (\<forall>ask c slept. p' = EventFlagWaiting ask c slept \<longrightarrow>
        c = flag_cancels s \<or> (\<exists>slept'. p = EventFlagWaiting ask c slept'))"
  by (cases p) (auto simp: flag_defs split: if_splits)

interpretation flg: notify_all legal flag_turn flag_blocked "\<lambda>n s. True" "\<lambda>n. True" for legal
proof
  fix p e p' q w and s s' :: GuestEventFlag
  show "flag_turn p e s = Sleep p' s' \<Longrightarrow> flag_blocked p' s'"
    by (cases p) (auto simp: flag_defs split: if_splits)
  show "flag_turn p e s = Sleep p' s' \<Longrightarrow> flag_blocked q s \<Longrightarrow> flag_blocked q s'"
    "flag_turn p e s = Again p' s' w \<Longrightarrow> flag_blocked q s \<Longrightarrow> \<not> flag_blocked q s' \<Longrightarrow> w = All"
    using flag_go_on [of p e s p' s' w] by (cases q; auto)+
next
  fix p e r w q and s s' :: GuestEventFlag
  assume "flag_turn p e s = Return r s' w" "flag_blocked q s" "\<not> flag_blocked q s'"
  then show "w = All"
    by (cases p; cases q) (auto simp: flag_defs split: if_splits dest: flag_matches_and flag_matches_cleared)
qed simp_all

lemma flag_waiting_count:
  assumes "runs legal flag_turn entry (event_flag_new initial) log s ts" "\<And>p. entry p \<Longrightarrow> \<not> flag_inside p"
  shows "flag_waiting s = card (doing flag_inside ts)"
proof (rule runs_occupancy [OF assms(1) _ assms(2)])
  fix p e r w and s s' :: GuestEventFlag
  assume "flag_turn p e s = Return r s' w" "flag_inside p \<longrightarrow> 0 < flag_waiting s"
  then show "flag_waiting s' + of_bool (flag_inside p) = flag_waiting s"
    by (cases p) (auto simp: flag_defs split: if_splits)
next
  fix p e p' w and s s' :: GuestEventFlag
  assume "flag_turn p e s = Sleep p' s' \<or> flag_turn p e s = Again p' s' w"
  then show "flag_waiting s' + of_bool (flag_inside p) = flag_waiting s + of_bool (flag_inside p')"
    by (cases p) (auto simp: flag_defs split: if_splits)
qed (simp add: event_flag_new_def)

text \<open>No wait has counted more cancels than there were.\<close>

lemma flag_cancels_seen:
  assumes "runs legal flag_turn entry (event_flag_new initial) log s ts" "\<And>p. entry p \<Longrightarrow> \<not> flag_inside p"
  shows "ts t = Running (EventFlagWaiting ask c slept) \<or> ts t = Asleep (EventFlagWaiting ask c slept) \<Longrightarrow>
    c \<le> flag_cancels s"
  using assms(1)
proof (induction arbitrary: t ask c slept rule: runs.induct)
  case (call log s ts t' p)
  then show ?case using assms(2) by (fastforce split: if_splits)
next
  case (return log s ts t' p e r s' w ts')
  have "(ts(t' := Idle)) t = Running (EventFlagWaiting ask c slept) \<or> (ts(t' := Idle)) t = Asleep (EventFlagWaiting ask c slept)"
    using return.hyps(5) return.prems by (cases rule: woken.cases) (auto split: if_splits)
  then have "c \<le> flag_cancels s" using return.IH by (auto split: if_splits)
  moreover have "flag_cancels s \<le> flag_cancels s'"
    using return.hyps(4) by (cases p) (auto simp: flag_defs split: if_splits)
  ultimately show ?case by simp
next
  case (sleep log s ts t' p e p' s')
  then show ?case using flag_go_on [OF disjI1, OF sleep.hyps(4)] by (fastforce split: if_splits)
next
  case (again log s ts t' p e p' s' w ts')
  have "(ts(t' := Running p')) t = Running (EventFlagWaiting ask c slept) \<or> (ts(t' := Running p')) t = Asleep (EventFlagWaiting ask c slept)"
    using woken_doing [OF again.hyps(5) again.prems] .
  then show ?case using again.IH again.hyps(2) flag_go_on [OF disjI2, OF again.hyps(4)] by (fastforce split: if_splits)
qed (auto split: if_splits)

section \<open>Wakes granted on an address\<close>

text \<open>A signal seen pending by the thread it is pending on stays so until the thread runs it.\<close>

definition own_signals :: "env \<Rightarrow> bool" where
  "own_signals e \<longleftrightarrow> (pending e \<longrightarrow> pending_again e)"

fun address_inside :: "address_call \<Rightarrow> bool" where
  "address_inside (AddressWaiting until slept) = True"
| "address_inside AddressLeaving = True"
| "address_inside _ = False"

fun address_blocked :: "address_call \<Rightarrow> AddressQueue \<Rightarrow> bool" where
  "address_blocked (AddressWaiting until slept) q = (aq_tokens q = 0)"
| "address_blocked _ q = True"

fun granted :: "address_call \<times> address_answer \<Rightarrow> nat" where
  "granted (WakeOnAddress count, Granted n) = n"
| "granted _ = 0"

fun collected :: "address_call \<times> address_answer \<Rightarrow> nat" where
  "collected (p, AddressWaited Woken) = 1"
| "collected _ = 0"

lemmas address_defs = address_loop_def address_leave_def wake_on_address_def Let_def

lemma address_go_on:
  assumes "address_turn p e q = Sleep p' q' \<or> address_turn p e q = Again p' q' w"
  shows "aq_tokens q' = aq_tokens q \<and> aq_waiting q \<le> aq_waiting q' \<and>
    aq_waiting q' + of_bool (address_inside p) = aq_waiting q + of_bool (address_inside p')"
  using assms by (cases p) (auto simp: address_defs split: waited.splits if_splits)

lemma address_wake_token:
  assumes "wait_while until slept e (aq_tokens q = 0 \<and> \<not> pending e) = Ready" "own_signals e" "\<not> pending_again e"
  shows "0 < aq_tokens q"
  using assms by (auto simp: wait_while_Ready own_signals_def)

definition address_ok :: "AddressQueue \<Rightarrow> bool" where
  "address_ok q \<longleftrightarrow> aq_tokens q \<le> aq_waiting q"

lemma address_loop_return:
  assumes "address_loop until slept e q = Return r q' w" "own_signals e"
  shows "0 < aq_tokens q" "r = AddressWaited Woken" "w = Nobody"
    "q' = q\<lparr>aq_tokens := aq_tokens q - 1, aq_waiting := aq_waiting q - 1\<rparr>"
proof -
  have "wait_while until slept e (aq_tokens q = 0 \<and> \<not> pending e) = Ready" "\<not> pending_again e"
    using assms(1) by (auto simp: address_loop_def split: waited.splits if_splits)
  moreover from this show "0 < aq_tokens q" using assms(2) by (intro address_wake_token)
  ultimately show "r = AddressWaited Woken" "w = Nobody"
    "q' = q\<lparr>aq_tokens := aq_tokens q - 1, aq_waiting := aq_waiting q - 1\<rparr>"
    using assms(1) by (auto simp: address_loop_def)
qed

lemma address_return:
  assumes "address_turn p e q = Return r q' w" "own_signals e" "address_ok q"
  shows "address_ok q' \<and> aq_tokens q' + collected (p, r) = aq_tokens q + granted (p, r) \<and>
    (aq_tokens q = 0 \<longrightarrow> 0 < aq_tokens q' \<longrightarrow> w = All)"
proof (cases p)
  case (WaitOnAddress expected until)
  show ?thesis
  proof (cases "aq_word q = expected")
    case True
    then have "address_loop until False e (q\<lparr>aq_waiting := aq_waiting q + 1\<rparr>) = Return r q' w"
      using assms(1) WaitOnAddress by simp
    note this = address_loop_return [OF this assms(2)]
    then show ?thesis using WaitOnAddress assms(3) by (simp add: address_ok_def)
  qed (use assms WaitOnAddress in auto)
next
  case (AddressWaiting until slept)
  then have "address_loop until slept e q = Return r q' w" using assms(1) by simp
  note this = address_loop_return [OF this assms(2)]
  then show ?thesis using AddressWaiting assms(3) by (simp add: address_ok_def)
next
  case AddressLeaving
  then show ?thesis using assms(1,3) by (auto simp: address_leave_def address_ok_def Let_def split: if_splits)
next
  case (WakeOnAddress count)
  then show ?thesis using assms(1,3)
    by (auto simp: wake_on_address_def address_ok_def Let_def min_def split: if_splits)
qed (use assms in \<open>auto simp: address_ok_def\<close>)

interpretation adr: notify_all own_signals address_turn address_blocked "\<lambda>n. address_ok" "\<lambda>n. True"
proof
  fix p e p' and q q' :: AddressQueue
  assume "address_turn p e q = Sleep p' q'"
  then show "address_blocked p' q'"
    by (cases p) (auto simp: address_defs split: waited.splits if_splits dest!: wait_while_Sleeps)
next
  fix n p e r w p' and q q' :: AddressQueue
  assume "address_ok q" "own_signals e" "address_turn p e q = Return r q' w"
  note ret = address_return [OF this(3,2,1)]
  show "address_ok q'" using ret by blast
  show "address_blocked p' q \<Longrightarrow> \<not> address_blocked p' q' \<Longrightarrow> w = All" using ret by (cases p') auto
next
  fix n p e p' u w and q q' :: AddressQueue
  assume "address_ok q"
  then show "address_turn p e q = Sleep p' q' \<or> address_turn p e q = Again p' q' w \<Longrightarrow> address_ok q'"
    using address_go_on [of p e q p' q' w] by (simp add: address_ok_def)
  show "address_turn p e q = Sleep p' q' \<Longrightarrow> address_blocked u q \<Longrightarrow> address_blocked u q'"
    "address_turn p e q = Again p' q' w \<Longrightarrow> address_blocked u q \<Longrightarrow> \<not> address_blocked u q' \<Longrightarrow> w = All"
    using address_go_on [of p e q p' q' w] by (cases u; auto)+
qed simp_all

lemma address_ledger:
  assumes "runs own_signals address_turn entry (address_queue_new v) log q ts"
  shows "address_ok q \<and> aq_tokens q + sum_list (map collected log) = sum_list (map granted log)"
  using assms
proof (induction rule: runs_logged)
  case start
  show ?case by (simp add: address_queue_new_def address_ok_def)
next
  case (return log q p e r q' w)
  then show ?case using address_return [OF return.hyps(2,1)] by auto
next
  case (go_on log q p e p' q' w)
  then show ?case using address_go_on [OF go_on.hyps(2)] by (auto simp: address_ok_def)
qed

lemma address_waiting_count:
  assumes "runs own_signals address_turn entry (address_queue_new v) log q ts" "\<And>p. entry p \<Longrightarrow> \<not> address_inside p"
  shows "aq_waiting q = card (doing address_inside ts)"
proof (rule runs_occupancy [OF assms(1) _ assms(2)])
  fix p e r w and q q' :: AddressQueue
  assume "address_turn p e q = Return r q' w" "address_inside p \<longrightarrow> 0 < aq_waiting q"
  then show "aq_waiting q' + of_bool (address_inside p) = aq_waiting q"
    by (cases p) (auto simp: address_defs split: waited.splits if_splits)
qed (use address_go_on in \<open>auto simp: address_queue_new_def\<close>)

section \<open>Rounds of a barrier\<close>

definition rounds_done :: "(barrier_call \<times> bool) list \<Rightarrow> nat" where
  "rounds_done log = length (filter snd log)"

definition let_go :: "(barrier_call \<times> bool) list \<Rightarrow> nat" where
  "let_go log = length (filter (\<lambda>c. \<not> snd c) log)"

fun barrier_inside :: "barrier_call \<Rightarrow> bool" where
  "barrier_inside BarrierWait = False"
| "barrier_inside (BarrierWaiting r) = True"

fun barrier_blocked :: "barrier_call \<Rightarrow> BarrierState \<Rightarrow> bool" where
  "barrier_blocked BarrierWait s = True"
| "barrier_blocked (BarrierWaiting r) s = (barrier_round s = r)"

interpretation bar: notify_all legal "barrier_turn needed" barrier_blocked "\<lambda>n s. True" "\<lambda>n. True" for legal needed
proof
  fix p e p' q w and s s' :: BarrierState
  show "barrier_turn needed p e s = Sleep p' s' \<Longrightarrow> barrier_blocked p' s'"
    by (cases p) (auto simp: barrier_wait_def Let_def split: if_splits)
  show "barrier_turn needed p e s = Sleep p' s' \<Longrightarrow> barrier_blocked q s \<Longrightarrow> barrier_blocked q s'"
    "barrier_turn needed p e s = Again p' s' w \<Longrightarrow> barrier_blocked q s \<Longrightarrow> \<not> barrier_blocked q s' \<Longrightarrow> w = All"
    by (cases p; cases q; auto simp: barrier_wait_def Let_def split: if_splits)+
next
  fix p e r w q and s s' :: BarrierState
  assume "barrier_turn needed p e s = Return r s' w" "barrier_blocked q s" "\<not> barrier_blocked q s'"
  then show "w = All" by (cases p; cases q) (auto simp: barrier_wait_def Let_def split: if_splits)
qed simp_all

text \<open>Of the threads inside, those of this round are the ones that have arrived.\<close>

definition barrier_ok :: "nat \<Rightarrow> (barrier_call \<times> bool) list \<Rightarrow> BarrierState \<Rightarrow> (nat \<Rightarrow> barrier_call activity) \<Rightarrow> bool" where
  "barrier_ok needed log s ts \<longleftrightarrow>
     barrier_arrived s < needed \<and> barrier_round s = rounds_done log \<and>
     (\<forall>t r. ts t = Running (BarrierWaiting r) \<or> ts t = Asleep (BarrierWaiting r) \<longrightarrow> r \<le> barrier_round s) \<and>
     card (doing (\<lambda>p. p = BarrierWaiting (barrier_round s)) ts) = barrier_arrived s \<and>
     let_go log + card (doing barrier_inside ts) = (needed - 1) * rounds_done log + barrier_arrived s"

lemma barrier_ok_same:
  assumes "barrier_ok needed log s ts" "\<And>P. (\<And>p. P p \<Longrightarrow> barrier_inside p) \<Longrightarrow> doing P ts' = doing P ts"
    and "\<And>t r. ts' t = Running (BarrierWaiting r) \<or> ts' t = Asleep (BarrierWaiting r) \<Longrightarrow>
      ts t = Running (BarrierWaiting r) \<or> ts t = Asleep (BarrierWaiting r)"
  shows "barrier_ok needed log s ts'"
proof -
  have "doing (\<lambda>p. p = BarrierWaiting (barrier_round s)) ts' = doing (\<lambda>p. p = BarrierWaiting (barrier_round s)) ts"
    "doing barrier_inside ts' = doing barrier_inside ts"
    by (auto intro!: assms(2))
  then show ?thesis using assms(1,3) unfolding barrier_ok_def by metis
qed

lemma rounds_done_le: "rounds_done log \<le> length log"
  by (simp add: rounds_done_def)

lemma barrier_ok_released:
  assumes "barrier_ok needed log s ts" "needed \<le> barrier_arrived s + 1" "Suc (length log) < 2 ^ 64"
    and "ts t = Running BarrierWait" "woken All (ts(t := Idle)) ts'"
  shows "barrier_ok needed ((BarrierWait, True) # log)
    (s\<lparr>barrier_arrived := 0, barrier_round := wrapping_add (barrier_round s) 1\<rparr>) ts'"
proof -
  let ?r = "barrier_round s"
  have r: "wrapping_add ?r 1 = Suc ?r"
    using assms(1,3) rounds_done_le [of log] by (simp add: barrier_ok_def wrapping_add_def)
  have same: "doing P ts' = doing P ts" if "\<not> P BarrierWait" for P
    using doing_woken [OF assms(5), of P] assms(4) that by (auto simp: doing_def)
  have seen: "r \<le> ?r" if "ts' u = Running (BarrierWaiting r) \<or> ts' u = Asleep (BarrierWaiting r)" for u r
  proof -
    have "ts u = Running (BarrierWaiting r) \<or> ts u = Asleep (BarrierWaiting r)"
      using assms(5) that by (cases rule: woken.cases) (auto split: if_splits)
    then show ?thesis using assms(1) by (auto simp: barrier_ok_def)
  qed
  then have "doing (\<lambda>p. p = BarrierWaiting (Suc ?r)) ts' = {}" by (fastforce simp: doing_def)
  moreover have "doing barrier_inside ts' = doing barrier_inside ts" by (rule same) simp
  moreover have "barrier_arrived s = needed - 1" "0 < needed" using assms(1,2) by (auto simp: barrier_ok_def)
  ultimately show ?thesis using assms(1) seen r
    by (auto simp: barrier_ok_def rounds_done_def let_go_def le_SucI)
qed

lemma barrier_ok_left:
  assumes "barrier_ok needed log s ts" "finite (active ts)" "ts t = Running (BarrierWaiting r)" "barrier_round s \<noteq> r"
  shows "barrier_ok needed ((BarrierWaiting r, False) # log) s (ts(t := Idle))"
proof -
  have "doing (\<lambda>p. p = BarrierWaiting (barrier_round s)) (ts(t := Idle)) = doing (\<lambda>p. p = BarrierWaiting (barrier_round s)) ts"
    using assms(3,4) by (auto simp: doing_def split: if_splits)
  moreover have "t \<in> doing barrier_inside ts" using assms(3) by (auto simp: doing_def)
  then have "Suc (card (doing barrier_inside (ts(t := Idle)))) = card (doing barrier_inside ts)"
    using doing_upd [OF assms(2), of barrier_inside t Idle] by simp
  ultimately show ?thesis using assms(1) by (auto simp: barrier_ok_def rounds_done_def let_go_def)
qed

lemma barrier_ok_arrived:
  assumes "barrier_ok needed log s ts" "finite (active ts)" "ts t = Running BarrierWait" "barrier_arrived s + 1 < needed"
  shows "barrier_ok needed log (s\<lparr>barrier_arrived := barrier_arrived s + 1\<rparr>)
    (ts(t := Asleep (BarrierWaiting (barrier_round s))))"
proof -
  let ?p = "BarrierWaiting (barrier_round s)"
  have "t \<notin> doing barrier_inside ts" "t \<notin> doing (\<lambda>p. p = ?p) ts" using assms(3) by (auto simp: doing_def)
  then have "card (doing barrier_inside (ts(t := Asleep ?p))) = Suc (card (doing barrier_inside ts))"
    "card (doing (\<lambda>p. p = ?p) (ts(t := Asleep ?p))) = Suc (card (doing (\<lambda>p. p = ?p) ts))"
    using doing_upd [OF assms(2), of barrier_inside t "Asleep ?p"] doing_upd [OF assms(2), of "\<lambda>p. p = ?p" t "Asleep ?p"]
    by auto
  then show ?thesis using assms(1,4) by (auto simp: barrier_ok_def split: if_splits)
qed

lemma barrier_runs_ok:
  assumes "runs legal (barrier_turn needed) (\<lambda>p. p = BarrierWait) barrier_default log s ts" "length log < 2 ^ 64" "0 < needed"
  shows "barrier_ok needed log s ts"
  using assms(1,2)
proof (induction rule: runs.induct)
  case start
  show ?case using assms(3) by (simp add: barrier_ok_def barrier_default_def rounds_done_def let_go_def doing_def)
next
  case (call log s ts t p)
  show ?case by (rule barrier_ok_same [OF call.IH [OF call.prems]])
      (use call.hyps in \<open>fastforce simp: doing_def split: if_splits\<close>, use call.hyps in \<open>auto split: if_splits\<close>)
next
  case (return log s ts t p e r s' w ts')
  then have IH: "barrier_ok needed log s ts" by simp
  show ?case
  proof (cases p)
    case BarrierWait
    then have "r = True" "w = All" "needed \<le> barrier_arrived s + 1"
      "s' = s\<lparr>barrier_arrived := 0, barrier_round := wrapping_add (barrier_round s) 1\<rparr>"
      using return.hyps(4) by (auto simp: barrier_wait_def Let_def split: if_splits)
    then show ?thesis using barrier_ok_released [OF IH] return.hyps(2,5) return.prems BarrierWait by simp
  next
    case (BarrierWaiting r')
    then have "r = False" "w = Nobody" "s' = s" "barrier_round s \<noteq> r'"
      using return.hyps(4) by (auto split: if_splits)
    moreover have "ts' = ts(t := Idle)" using return.hyps(5) \<open>w = Nobody\<close> by (auto elim: woken_NobodyE)
    ultimately show ?thesis
      using barrier_ok_left [OF IH runs_finite [OF return.hyps(1)]] return.hyps(2) BarrierWaiting by blast
  qed
next
  case (sleep log s ts t p e p' s')
  show ?case
  proof (cases p)
    case BarrierWait
    then have "barrier_arrived s + 1 < needed" "p' = BarrierWaiting (barrier_round s)"
      "s' = s\<lparr>barrier_arrived := barrier_arrived s + 1\<rparr>"
      using sleep.hyps(4) by (auto simp: barrier_wait_def Let_def split: if_splits)
    then show ?thesis using barrier_ok_arrived [OF sleep.IH runs_finite [OF sleep.hyps(1)]] sleep.hyps(2) sleep.prems BarrierWait by blast
  next
    case (BarrierWaiting r')
    then have same: "s' = s" "p' = p" using sleep.hyps(4) by (auto split: if_splits)
    have "barrier_ok needed log s (ts(t := Asleep p))"
      by (rule barrier_ok_same [OF sleep.IH [OF sleep.prems]]) (use sleep.hyps(2) in \<open>auto simp: doing_def split: if_splits\<close>)
    then show ?thesis unfolding same .
  qed
next
  case (again log s ts t p e p' s' w ts')
  then show ?case by (cases p) (auto simp: barrier_wait_def Let_def split: if_splits)
next
  case (stir log s ts t p)
  show ?case by (rule barrier_ok_same [OF stir.IH [OF stir.prems]]) (use stir.hyps in \<open>auto simp: doing_def split: if_splits\<close>)
qed

lemma arrived_le_inside:
  assumes "barrier_ok needed log s ts" "finite (active ts)"
  shows "barrier_arrived s \<le> card (doing barrier_inside ts)"
proof -
  have "doing (\<lambda>p. p = BarrierWaiting (barrier_round s)) ts \<subseteq> doing barrier_inside ts" by (auto simp: doing_def)
  then show ?thesis using assms(1) card_mono [OF doing_finite [OF assms(2)]] unfolding barrier_ok_def by metis
qed

section \<open>Properties\<close>

text \<open>A barrier lets nobody go before all it waits for have come: for each round it has let through
  it released one thread by name and at most one fewer than it needs besides, exactly that many once
  nobody is inside; and no thread sleeps on after its round is over.\<close>

theorem barrier_holds:
  assumes "runs legal (barrier_turn (barrier_needed n)) (\<lambda>p. p = BarrierWait) barrier_default log s ts"
    and "length log < 2 ^ 64"
  shows "let_go log \<le> (barrier_needed n - 1) * rounds_done log \<and>
    (doing barrier_inside ts = {} \<longrightarrow> let_go log = (barrier_needed n - 1) * rounds_done log) \<and>
    (\<forall>t r. ts t = Asleep (BarrierWaiting r) \<longrightarrow> barrier_round s = r)"
proof -
  have ok: "barrier_ok (barrier_needed n) log s ts"
    by (rule barrier_runs_ok [OF assms]) (simp add: barrier_needed_def)
  note arrived = arrived_le_inside [OF ok runs_finite [OF assms(1)]]
  have ledger: "let_go log + card (doing barrier_inside ts) = (barrier_needed n - 1) * rounds_done log + barrier_arrived s"
    using ok by (simp add: barrier_ok_def)
  have "barrier_round s = r" if "ts t = Asleep (BarrierWaiting r)" for t r
    using bar.asleep_blocked [OF assms(1) _ _ that] by simp
  then show ?thesis using ledger arrived by auto
qed

definition demo_barrier :: "barrier_call move list" where
  "demo_barrier = [Calls 0 BarrierWait, Turns 0 quiet 0, Stirs 0, Turns 0 quiet 0, Calls 1 BarrierWait,
     Turns 1 quiet 0, Turns 0 quiet 0]"

lemma demo_barrier_played:
  "play (\<lambda>e. True) (barrier_turn (barrier_needed 2)) (\<lambda>p. p = BarrierWait) demo_barrier ([], barrier_default, \<lambda>t. Idle) =
     Some ([(BarrierWaiting 0, False), (BarrierWait, True)], \<lparr>barrier_arrived = 0, barrier_round = 1\<rparr>, \<lambda>t. Idle)"
  by (auto simp: demo_barrier_def barrier_default_def barrier_wait_def barrier_needed_def wrapping_add_def)

theorem barrier_holds_witness:
  "let_go [(BarrierWaiting 0, False), (BarrierWait, True)] = (barrier_needed 2 - 1) * rounds_done [(BarrierWaiting 0, False), (BarrierWait, True)]"
  using barrier_holds [OF played [OF demo_barrier_played]] by (simp add: doing_def)

text \<open>A cancel of an event flag answers exactly how many threads are waiting on it and wakes them
  all, and none of those can answer anything but that it was cancelled, however late it looks and
  whatever the bits and its timeout say then; and no thread sleeps on while its pattern is set.\<close>

theorem event_flag_cancel_releases:
  assumes "runs legal flag_turn (\<lambda>p. \<not> flag_inside p) (event_flag_new initial) log s ts"
    and "flag_turn (EventFlagCancel pattern) e s = Return (WasWaiting n) s' w"
  shows "n = card (doing flag_inside ts) \<and> w = All \<and>
    (\<forall>t p s'' e'. (ts t = Running p \<or> ts t = Asleep p) \<and> flag_inside p \<and> flag_cancels s' \<le> flag_cancels s'' \<longrightarrow>
      flag_turn p e' s'' = flag_left Cancelled s'') \<and>
    (\<forall>t ask c slept. ts t = Asleep (EventFlagWaiting ask c slept) \<longrightarrow>
      \<not> flag_matches (ask_wanted ask) (ask_all ask) (flag_bits s))"
proof -
  have late: "flag_turn p e' s'' = flag_left Cancelled s''"
    if h: "ts t = Running p \<or> ts t = Asleep p" "flag_inside p" "flag_cancels s' \<le> flag_cancels s''" for t p s'' e'
  proof -
    obtain ask c slept where p: "p = EventFlagWaiting ask c slept" using h(2) by (cases p) auto
    have "c \<le> flag_cancels s" using flag_cancels_seen [OF assms(1)] h(1) unfolding p by blast
    then have "c < flag_cancels s''" using h(3) assms(2) by auto
    then show ?thesis unfolding p by (simp add: wait_on_flag_def Let_def)
  qed
  have "\<not> flag_matches (ask_wanted ask) (ask_all ask) (flag_bits s)"
    if "ts t = Asleep (EventFlagWaiting ask c slept)" for t ask c slept
    using flg.asleep_blocked [OF assms(1) _ _ that] by simp
  moreover have "n = card (doing flag_inside ts)" "w = All" using flag_waiting_count [OF assms(1)] assms(2) by auto
  ultimately show ?thesis using late by blast
qed

definition demo_ask :: flag_ask where
  "demo_ask = \<lparr>ask_wanted = 3, ask_all = True, ask_clear_all = False, ask_clear_pat = True, ask_timeout = False\<rparr>"

lemma demo_flag_played:
  "play (\<lambda>e. True) flag_turn (\<lambda>p. \<not> flag_inside p) [Calls 0 (EventFlagWait demo_ask), Turns 0 quiet 0]
      ([], event_flag_new 1, \<lambda>t. Idle) =
     Some ([], (event_flag_new 1)\<lparr>flag_waiting := 1\<rparr>, (\<lambda>t. Idle)(0 := Asleep (EventFlagWaiting demo_ask 0 True)))"
  by (auto simp: demo_ask_def event_flag_new_def flag_defs flag_matches_def)

theorem event_flag_cancel_releases_witness:
  "1 = card (doing flag_inside ((\<lambda>t. Idle)(0 := Asleep (EventFlagWaiting demo_ask 0 True))))"
proof -
  have "flag_turn (EventFlagCancel 3) quiet ((event_flag_new 1)\<lparr>flag_waiting := 1\<rparr>) =
      Return (WasWaiting 1) ((event_flag_new 1)\<lparr>flag_waiting := 1, flag_bits := 3, flag_cancels := 1\<rparr>) All"
    by (simp add: event_flag_new_def)
  from event_flag_cancel_releases [OF played [OF demo_flag_played] this] show ?thesis by blast
qed

text \<open>C13. Wakes on an address are neither lost nor doubled: every wake granted is collected by one wait
  or still held, no more are held than threads are waiting, a wake is granted to as many of the
  waiting threads as were asked for and have none yet, and no thread sleeps while one is held.\<close>

theorem address_wakes_conserved:
  assumes "runs own_signals address_turn (\<lambda>p. \<not> address_inside p) (address_queue_new v) log q ts"
  shows "sum_list (map granted log) = sum_list (map collected log) + aq_tokens q \<and>
    aq_tokens q \<le> card (doing address_inside ts) \<and>
    (\<exists>q' w. address_turn (WakeOnAddress n) e q =
      Return (Granted (min n (card (doing address_inside ts) - aq_tokens q))) q' w) \<and>
    (\<forall>t until slept. ts t = Asleep (AddressWaiting until slept) \<longrightarrow> aq_tokens q = 0)"
proof -
  have count: "aq_waiting q = card (doing address_inside ts)" using address_waiting_count [OF assms] by blast
  have "aq_tokens q = 0" if "ts t = Asleep (AddressWaiting until slept)" for t until slept
    using adr.asleep_blocked [OF assms _ _ that] by (simp add: address_ok_def address_queue_new_def)
  then show ?thesis using address_ledger [OF assms] count by (auto simp: address_ok_def wake_on_address_def Let_def)
qed

lemma own_signals_quiet [simp]: "own_signals quiet"
  by (simp add: own_signals_def)

lemma demo_address_played:
  "play own_signals address_turn (\<lambda>p. \<not> address_inside p)
      [Calls 0 (WaitOnAddress 5 Forever), Turns 0 quiet 0, Calls 1 (StoreWord 6), Turns 1 quiet 0,
       Calls 1 (WakeOnAddress 8), Turns 1 quiet 0]
      ([], address_queue_new 5, \<lambda>t. Idle) =
     Some ([(WakeOnAddress 8, Granted 1), (StoreWord 6, AddressDone)],
       \<lparr>aq_waiting = 1, aq_tokens = 1, aq_word = 6\<rparr>, (\<lambda>t. Idle)(0 := Running (AddressWaiting Forever True)))"
  by (auto simp: address_queue_new_def address_defs wait_while_def)

theorem address_wakes_conserved_witness:
  "sum_list (map granted [(WakeOnAddress 8, Granted 1), (StoreWord 6, AddressDone)]) = 0 + 1"
  using address_wakes_conserved [OF played [OF demo_address_played]] by simp

text \<open>A wake on an address can be taken from the thread it was granted to: a thread that begins to
  wait after the wake collects it, and the thread that was asleep when it was granted sleeps on.\<close>

theorem address_wake_stolen:
  "\<exists>ts ts'.
     runs own_signals address_turn (\<lambda>p. \<not> address_inside p) (address_queue_new 5)
       [(WakeOnAddress 1, Granted 1)] \<lparr>aq_waiting = 1, aq_tokens = 1, aq_word = 5\<rparr> ts \<and>
     ts 0 = Running (AddressWaiting Forever True) \<and> ts 1 = Idle \<and> ts 2 = Idle \<and>
     runs own_signals address_turn (\<lambda>p. \<not> address_inside p) (address_queue_new 5)
       [(WaitOnAddress 5 Forever, AddressWaited Woken), (WakeOnAddress 1, Granted 1)]
       \<lparr>aq_waiting = 1, aq_tokens = 0, aq_word = 5\<rparr> ts' \<and>
     ts' 0 = Asleep (AddressWaiting Forever True)"
proof -
  let ?go = "\<lambda>ms. play own_signals address_turn (\<lambda>p. \<not> address_inside p) ms ([], address_queue_new 5, \<lambda>t. Idle)"
  let ?wake = "[Calls 0 (WaitOnAddress 5 Forever), Turns 0 quiet 0, Calls 1 (WakeOnAddress 1), Turns 1 quiet 0]"
  have woken: "?go ?wake = Some ([(WakeOnAddress 1, Granted 1)], \<lparr>aq_waiting = 1, aq_tokens = 1, aq_word = 5\<rparr>,
      (\<lambda>t. Idle)(0 := Running (AddressWaiting Forever True)))"
    by (auto simp: address_queue_new_def address_defs wait_while_def)
  have stolen: "?go (?wake @ [Calls 2 (WaitOnAddress 5 Forever), Turns 2 quiet 0, Turns 0 quiet 0]) =
      Some ([(WaitOnAddress 5 Forever, AddressWaited Woken), (WakeOnAddress 1, Granted 1)],
        \<lparr>aq_waiting = 1, aq_tokens = 0, aq_word = 5\<rparr>, (\<lambda>t. Idle)(0 := Asleep (AddressWaiting Forever True)))"
    by (auto simp: address_queue_new_def address_defs wait_while_def)
  show ?thesis
    by (rule exI, rule exI, rule conjI [OF played [OF woken]], intro conjI, simp, simp, simp,
        rule played [OF stolen], simp)
qed

end
