(* ===== verification/Event_Queue.thy ===== *)
theory Event_Queue
  imports Monitor "HOL-Library.Word"
begin

unbundle bit_operations_syntax

text \<open>
  Event queues (\<^verbatim>\<open>orbistoun-kernel/src/equeue.rs\<close>): registered events (knotes) kept by filter and
  identifier, routes that subsystems post completions to, and the ready list a wait takes from. The
  lemmas show that a registered event is on the ready list at most once and that the list never names
  one that is gone, that what a guest reads is what was delivered, that a scan delivers what is ready
  oldest first and drops or keeps each event as its flags say, and that no wait sleeps on while
  something is ready for it.

  A route's source is a parameter, a function from the identifier and the waiter's time to its next
  event. The counters of waits and deliveries a report reads are not modelled.
\<close>

section \<open>Events and changes\<close>

definition EVFILT_USER :: "16 word" where "EVFILT_USER = - 11"

definition EV_ADD :: "16 word" where "EV_ADD = 0x0001"
definition EV_DELETE :: "16 word" where "EV_DELETE = 0x0002"
definition EV_ENABLE :: "16 word" where "EV_ENABLE = 0x0004"
definition EV_DISABLE :: "16 word" where "EV_DISABLE = 0x0008"
definition EV_ONESHOT :: "16 word" where "EV_ONESHOT = 0x0010"
definition EV_CLEAR :: "16 word" where "EV_CLEAR = 0x0020"
definition EV_DISPATCH :: "16 word" where "EV_DISPATCH = 0x0080"
definition EV_FORCEONESHOT :: "16 word" where "EV_FORCEONESHOT = 0x0100"
definition EV_KEEPUDATA :: "16 word" where "EV_KEEPUDATA = 0x0200"

definition ACTIONS :: "16 word" where
  "ACTIONS = EV_ADD OR EV_DELETE OR EV_ENABLE OR EV_DISABLE OR EV_FORCEONESHOT"

definition NOTE_TRIGGER :: "32 word" where "NOTE_TRIGGER = 0x01000000"
definition NOTE_FFAND :: "32 word" where "NOTE_FFAND = 0x40000000"
definition NOTE_FFOR :: "32 word" where "NOTE_FFOR = 0x80000000"
definition NOTE_FFCOPY :: "32 word" where "NOTE_FFCOPY = 0xc0000000"
definition NOTE_FFCTRLMASK :: "32 word" where "NOTE_FFCTRLMASK = 0xc0000000"
definition NOTE_FFLAGSMASK :: "32 word" where "NOTE_FFLAGSMASK = 0x00ffffff"

record PendingEvent =
  ev_ident :: u64
  ev_filter :: "16 word"
  ev_flags :: "16 word"
  ev_fflags :: "32 word"
  ev_data :: "64 word"
  ev_udata :: u64
  ev_display_nanos :: u64

definition EVENT_BYTES :: nat where
  "EVENT_BYTES = 0x20"

definition event_to_bytes :: "PendingEvent \<Rightarrow> byte list" where
  "event_to_bytes ev =
     to_le 8 (ev_ident ev) @ to_le 2 (unat (ev_filter ev)) @ to_le 2 (unat (ev_flags ev)) @
     to_le 4 (unat (ev_fflags ev)) @ to_le 8 (unat (ev_data ev)) @ to_le 8 (ev_udata ev)"

record Change =
  ch_ident :: u64
  ch_filter :: "16 word"
  ch_flags :: "16 word"
  ch_fflags :: "32 word"
  ch_data :: "64 word"
  ch_udata :: u64

datatype EqRefusal = NoQueue | NoEvent | BadChange | NothingReady

record Knote =
  kn_flags :: "16 word"
  kn_fflags :: "32 word"
  kn_data :: "64 word"
  kn_udata :: u64
  kn_fired :: bool
  kn_disabled :: bool
  kn_queued :: bool

datatype Route = RIdent u64 | RFilter "16 word" u64

fun route_id :: "Route \<Rightarrow> u64" where
  "route_id (RIdent i) = i"
| "route_id (RFilter f i) = i"

type_synonym event_source = "u64 \<Rightarrow> u64 \<Rightarrow> PendingEvent option"

record RouteEntry =
  re_route :: Route
  re_udata :: u64
  re_coalesce :: bool
  re_source :: "event_source option"

datatype Ready = Posted Route PendingEvent | KnoteReady "16 word" u64

type_synonym knote_key = "16 word \<times> u64"

record eq_state =
  eq_routes :: "RouteEntry list"
  eq_knotes :: "knote_key \<Rightarrow> Knote option"
  eq_ready :: "Ready list"

definition eq_default :: eq_state where
  "eq_default = \<lparr>eq_routes = [], eq_knotes = (\<lambda>k. None), eq_ready = []\<rparr>"

section \<open>Posting to a route\<close>

fun coalesced :: "Route \<Rightarrow> PendingEvent \<Rightarrow> Ready list \<Rightarrow> Ready list option" where
  "coalesced route ev [] = None"
| "coalesced route ev (Posted r held # rest) =
     (if r = route then Some (Posted r ev # rest)
      else map_option ((#) (Posted r held)) (coalesced route ev rest))"
| "coalesced route ev (KnoteReady f i # rest) =
     map_option ((#) (KnoteReady f i)) (coalesced route ev rest)"

definition eq_post :: "RouteEntry \<Rightarrow> PendingEvent \<Rightarrow> eq_state \<Rightarrow> eq_state" where
  "eq_post entry event s =
     (let ev = event\<lparr>ev_udata := re_udata entry\<rparr>; pushed = eq_ready s @ [Posted (re_route entry) ev]
      in s\<lparr>eq_ready :=
           (if re_coalesce entry
            then (case coalesced (re_route entry) ev (eq_ready s) of Some held \<Rightarrow> held | None \<Rightarrow> pushed)
            else pushed)\<rparr>)"

section \<open>Changes to registered events\<close>

definition enqueue_if_ready :: "knote_key \<Rightarrow> eq_state \<Rightarrow> eq_state" where
  "enqueue_if_ready key s =
     (case eq_knotes s key of
        None \<Rightarrow> s
      | Some k \<Rightarrow>
          if kn_fired k \<and> \<not> kn_disabled k \<and> \<not> kn_queued k
          then s\<lparr>eq_knotes := (eq_knotes s)(key \<mapsto> k\<lparr>kn_queued := True\<rparr>),
                 eq_ready := eq_ready s @ [KnoteReady (fst key) (snd key)]\<rparr>
          else s)"

definition touch_user :: "Change \<Rightarrow> Knote \<Rightarrow> Knote" where
  "touch_user c k =
     (let v = ch_fflags c AND NOTE_FFLAGSMASK; ctrl = ch_fflags c AND NOTE_FFCTRLMASK
      in k\<lparr>kn_fired := (kn_fired k \<or> ch_fflags c AND NOTE_TRIGGER \<noteq> 0) \<and> ch_flags c AND EV_CLEAR = 0,
           kn_fflags := (if ctrl = NOTE_FFAND then kn_fflags k AND v
             else if ctrl = NOTE_FFOR then kn_fflags k OR v
             else if ctrl = NOTE_FFCOPY then v
             else kn_fflags k),
           kn_data := ch_data c\<rparr>)"

definition knote_new :: "Change \<Rightarrow> Knote" where
  "knote_new c =
     \<lparr>kn_flags = ch_flags c AND NOT ACTIONS, kn_fflags = ch_fflags c, kn_data = ch_data c, kn_udata = ch_udata c,
      kn_fired = (ch_fflags c AND NOTE_TRIGGER \<noteq> 0), kn_disabled = (ch_flags c AND EV_DISABLE \<noteq> 0),
      kn_queued = False\<rparr>"

definition knote_changed :: "Change \<Rightarrow> Knote \<Rightarrow> Knote" where
  "knote_changed c k =
     (let k1 = (if ch_flags c AND EV_FORCEONESHOT \<noteq> 0
                then k\<lparr>kn_flags := kn_flags k OR EV_ONESHOT, kn_fired := True\<rparr> else k);
          k2 = (if ch_flags c AND EV_ENABLE \<noteq> 0 then k1\<lparr>kn_disabled := False\<rparr>
                else if ch_flags c AND EV_DISABLE \<noteq> 0 then k1\<lparr>kn_disabled := True\<rparr> else k1);
          k3 = (if ch_flags c AND EV_KEEPUDATA = 0 then k2\<lparr>kn_udata := ch_udata c\<rparr> else k2)
      in touch_user c k3)"

definition eq_register :: "Change \<Rightarrow> eq_state \<Rightarrow> (EqRefusal + unit) \<times> eq_state" where
  "eq_register c s =
     (if ch_flags c AND (EV_ENABLE OR EV_DISABLE) = EV_ENABLE OR EV_DISABLE then (Inl BadChange, s)
      else if ch_filter c \<noteq> EVFILT_USER then (Inl BadChange, s)
      else if ch_flags c AND EV_ADD \<noteq> 0 \<and> ch_flags c AND EV_KEEPUDATA \<noteq> 0 then (Inl BadChange, s)
      else let key = (ch_filter c, ch_ident c)
      in case eq_knotes s key of
           None \<Rightarrow>
             if ch_flags c AND EV_ADD = 0 then (Inl NoEvent, s)
             else (Inr (), enqueue_if_ready key (s\<lparr>eq_knotes := (eq_knotes s)(key \<mapsto> knote_new c)\<rparr>))
         | Some k \<Rightarrow>
             if ch_flags c AND EV_DELETE \<noteq> 0
             then (Inr (), s\<lparr>eq_knotes := (eq_knotes s)(key := None),
                             eq_ready := filter (\<lambda>r. r \<noteq> KnoteReady (fst key) (snd key)) (eq_ready s)\<rparr>)
             else (Inr (), enqueue_if_ready key (s\<lparr>eq_knotes := (eq_knotes s)(key \<mapsto> knote_changed c k)\<rparr>)))"

section \<open>Taking what is ready\<close>

definition knote_event :: "knote_key \<Rightarrow> Knote \<Rightarrow> PendingEvent" where
  "knote_event key k =
     \<lparr>ev_ident = snd key, ev_filter = fst key, ev_flags = kn_flags k,
      ev_fflags = (if kn_flags k AND EV_ONESHOT \<noteq> 0 then 0 else kn_fflags k),
      ev_data = (if kn_flags k AND EV_ONESHOT \<noteq> 0 then 0 else kn_data k),
      ev_udata = kn_udata k, ev_display_nanos = 0\<rparr>"

text \<open>One entry taken off the front of the ready list: what it delivers, if anything.\<close>

definition scan_one :: "Ready \<Rightarrow> eq_state \<Rightarrow> PendingEvent option \<times> eq_state" where
  "scan_one r s =
     (case r of
        Posted _ ev \<Rightarrow> (Some ev, s)
      | KnoteReady f i \<Rightarrow>
          (case eq_knotes s (f, i) of
             None \<Rightarrow> (None, s)
           | Some k0 \<Rightarrow>
               (let k = k0\<lparr>kn_queued := False\<rparr>; put = (\<lambda>k. s\<lparr>eq_knotes := (eq_knotes s)((f, i) \<mapsto> k)\<rparr>)
                in if kn_disabled k then (None, put k)
                   else if kn_flags k AND EV_ONESHOT \<noteq> 0
                   then (Some (knote_event (f, i) k), s\<lparr>eq_knotes := (eq_knotes s)((f, i) := None)\<rparr>)
                   else if \<not> kn_fired k then (None, put k)
                   else (Some (knote_event (f, i) k),
                         let k1 = (if kn_flags k AND EV_CLEAR \<noteq> 0 then k\<lparr>kn_fired := False\<rparr> else k)
                         in if kn_flags k AND (EV_CLEAR OR EV_DISPATCH) \<noteq> 0
                            then put (if kn_flags k AND EV_DISPATCH \<noteq> 0 then k1\<lparr>kn_disabled := True\<rparr> else k1)
                            else (put (k1\<lparr>kn_queued := True\<rparr>))\<lparr>eq_ready := eq_ready s @ [KnoteReady f i]\<rparr>))))"

text \<open>The loop of \<open>scan\<close>: at most \<open>visit\<close> entries, until \<open>wanted\<close> more have been delivered.\<close>

fun scan_loop :: "nat \<Rightarrow> nat \<Rightarrow> eq_state \<Rightarrow> PendingEvent list \<times> eq_state" where
  "scan_loop 0 wanted s = ([], s)"
| "scan_loop (Suc visit) 0 s = ([], s)"
| "scan_loop (Suc visit) (Suc wanted) s =
     (case eq_ready s of
        [] \<Rightarrow> ([], s)
      | r # rest \<Rightarrow>
          (case scan_one r (s\<lparr>eq_ready := rest\<rparr>) of
             (None, s') \<Rightarrow> scan_loop visit (Suc wanted) s'
           | (Some ev, s') \<Rightarrow> (let (evs, s'') = scan_loop visit wanted s' in (ev # evs, s''))))"

definition scan :: "nat \<Rightarrow> eq_state \<Rightarrow> PendingEvent list \<times> eq_state" where
  "scan wanted s = scan_loop (length (eq_ready s)) wanted s"

section \<open>Routes\<close>

definition add_route :: "RouteEntry \<Rightarrow> eq_state \<Rightarrow> eq_state" where
  "add_route entry s =
     s\<lparr>eq_routes :=
         (case position (\<lambda>r. re_route r = re_route entry) (eq_routes s) of
            Some i \<Rightarrow> (eq_routes s)[i := entry]
          | None \<Rightarrow> eq_routes s @ [entry])\<rparr>"

definition route_plain :: "Route \<Rightarrow> u64 \<Rightarrow> RouteEntry" where
  "route_plain route udata = \<lparr>re_route = route, re_udata = udata, re_coalesce = False, re_source = None\<rparr>"

definition remove_route :: "Route \<Rightarrow> eq_state \<Rightarrow> bool \<times> eq_state" where
  "remove_route route s =
     (let kept = filter (\<lambda>r. re_route r \<noteq> route) (eq_routes s)
      in (length kept \<noteq> length (eq_routes s),
          s\<lparr>eq_routes := kept,
            eq_ready := filter (\<lambda>r. case r of Posted r' _ \<Rightarrow> r' \<noteq> route | KnoteReady _ _ \<Rightarrow> True) (eq_ready s)\<rparr>))"

fun is_filter_route :: "16 word \<Rightarrow> Route \<Rightarrow> bool" where
  "is_filter_route f (RFilter g i) = (g = f)"
| "is_filter_route f (RIdent i) = False"

text \<open>What one queue does with a post by filter, by identifier, or to every queue; how many it took.\<close>

definition post_filtered_event :: "16 word \<Rightarrow> (u64 \<Rightarrow> PendingEvent) \<Rightarrow> eq_state \<Rightarrow> nat \<times> eq_state" where
  "post_filtered_event f event s =
     (let mine = filter (\<lambda>e. is_filter_route f (re_route e)) (eq_routes s)
      in (length mine, fold (\<lambda>e. eq_post e (event (route_id (re_route e)))) mine s))"

definition post_event :: "u64 \<Rightarrow> PendingEvent \<Rightarrow> eq_state \<Rightarrow> nat \<times> eq_state" where
  "post_event ident event s =
     (case find (\<lambda>r. re_route r = RIdent ident) (eq_routes s) of
        None \<Rightarrow> (0, s)
      | Some entry \<Rightarrow> (1, eq_post entry event s))"

definition post_event_everywhere :: "PendingEvent \<Rightarrow> eq_state \<Rightarrow> nat \<times> eq_state" where
  "post_event_everywhere event s =
     (let (route, udata) = (case eq_routes s of
            [] \<Rightarrow> (RIdent (ev_ident event), ev_udata event) | r # _ \<Rightarrow> (re_route r, re_udata r))
      in (1, s\<lparr>eq_ready := eq_ready s @ [Posted route (event\<lparr>ev_udata := udata\<rparr>)]\<rparr>))"

section \<open>Calls and turns\<close>

text \<open>
  A wait carries how many events it wants, its patience and the waiter's logical time, and whether
  the sources have been asked; \<open>EqAsked\<close> is a wait that has asked them, without the queue's lock, and
  has their answers in hand. It posts them and looks again; the code keeps the lock in between, the
  model also allows for it being given up there.
\<close>

datatype eq_call =
    EqWait nat Blocking u64 bool
  | EqAsked nat Blocking u64 "(RouteEntry \<times> PendingEvent) list"
  | EqApply Change
  | EqAddRoute RouteEntry
  | EqRemoveRoute Route
  | EqPostFiltered "16 word" "u64 \<Rightarrow> PendingEvent"
  | EqPost u64 PendingEvent
  | EqPostEverywhere PendingEvent
  | EqDelete

datatype eq_answer = Events "EqRefusal + PendingEvent list" | Applied "EqRefusal + unit" | EqBool bool | EqCount nat

definition ask_sources :: "u64 \<Rightarrow> RouteEntry list \<Rightarrow> (RouteEntry \<times> PendingEvent) list" where
  "ask_sources waiter entries =
     List.map_filter (\<lambda>entry. case re_source entry of
        None \<Rightarrow> None | Some ask \<Rightarrow> map_option (Pair entry) (ask (route_id (re_route entry)) waiter)) entries"

definition wait_events :: "nat \<Rightarrow> Blocking \<Rightarrow> u64 \<Rightarrow> bool \<Rightarrow> env \<Rightarrow> eq_state \<Rightarrow> (eq_call, eq_state, eq_answer) turn" where
  "wait_events wanted until waiter asked e s =
     (let (events, s1) = scan wanted s; sources = filter (\<lambda>r. re_source r \<noteq> None) (eq_routes s1)
      in if events \<noteq> [] then Return (Events (Inr events)) s1 Nobody
         else if \<not> asked \<and> until \<noteq> Never \<and> sources \<noteq> []
         then Again (EqAsked wanted until waiter (ask_sources waiter sources)) s1 Nobody
         else case until of
           Never \<Rightarrow> Return (Events (Inl NothingReady)) s1 Nobody
         | Forever \<Rightarrow> Sleep (EqWait wanted until waiter True) s1
         | Until \<Rightarrow>
             if expired e then Return (Events (Inl NothingReady)) s1 Nobody
             else Sleep (EqWait wanted until waiter True) s1)"

definition post_found :: "(RouteEntry \<times> PendingEvent) list \<Rightarrow> eq_state \<Rightarrow> eq_state" where
  "post_found found s =
     fold (\<lambda>(entry, ev) s. if \<exists>r \<in> set (eq_routes s). re_route r = re_route entry then eq_post entry ev s else s) found s"

fun eq_turn :: "eq_call \<Rightarrow> env \<Rightarrow> eq_state \<Rightarrow> (eq_call, eq_state, eq_answer) turn" where
  "eq_turn (EqWait wanted until waiter asked) e s = wait_events wanted until waiter asked e s"
| "eq_turn (EqAsked wanted until waiter found) e s =
     Again (EqWait wanted until waiter True) (post_found found s)
       (if \<exists>x \<in> set found. \<exists>r \<in> set (eq_routes s). re_route r = re_route (fst x) then All else Nobody)"
| "eq_turn (EqApply c) e s =
     (let (r, s') = eq_register c s
      in Return (Applied r) s'
           (if r = Inr () \<and> (\<exists>f i. eq_ready s' \<noteq> [] \<and> last (eq_ready s') = KnoteReady f i) then All else Nobody))"
| "eq_turn (EqAddRoute entry) e s = Return (EqBool True) (add_route entry s) Nobody"
| "eq_turn (EqRemoveRoute route) e s = (let (b, s') = remove_route route s in Return (EqBool b) s' Nobody)"
| "eq_turn (EqPostFiltered f event) e s =
     (let (n, s') = post_filtered_event f event s in Return (EqCount n) s' (if n > 0 then All else Nobody))"
| "eq_turn (EqPost ident event) e s =
     (let (n, s') = post_event ident event s in Return (EqCount n) s' (if n > 0 then All else Nobody))"
| "eq_turn (EqPostEverywhere event) e s =
     (let (n, s') = post_event_everywhere event s in Return (EqCount n) s' All)"
| "eq_turn EqDelete e s = Return (EqBool True) eq_default Nobody"

section \<open>The ready list names each registered event at most once\<close>

definition occurs :: "16 word \<Rightarrow> u64 \<Rightarrow> Ready list \<Rightarrow> nat" where
  "occurs f i rs = length (filter (\<lambda>r. r = KnoteReady f i) rs)"

definition eq_ok :: "eq_state \<Rightarrow> bool" where
  "eq_ok s \<longleftrightarrow> (\<forall>f i. occurs f i (eq_ready s) =
     (case eq_knotes s (f, i) of Some k \<Rightarrow> of_bool (kn_queued k) | None \<Rightarrow> 0))"

lemma occurs_simps [simp]:
  "occurs f i [] = 0" "occurs f i (Posted r ev # rs) = occurs f i rs"
  "occurs f i (KnoteReady g j # rs) = of_bool (f = g \<and> i = j) + occurs f i rs"
  "occurs f i (rs @ rs') = occurs f i rs + occurs f i rs'"
  by (auto simp: occurs_def)

lemma occurs_0: "occurs f i rs = 0 \<longleftrightarrow> KnoteReady f i \<notin> set rs"
  by (auto simp: occurs_def filter_empty_conv)

lemma eq_ok_default [simp]: "eq_ok eq_default"
  by (simp add: eq_ok_def eq_default_def)

lemma eq_okD: "eq_ok s \<Longrightarrow> occurs f i (eq_ready s) = (case eq_knotes s (f, i) of Some k \<Rightarrow> of_bool (kn_queued k) | None \<Rightarrow> 0)"
  by (simp add: eq_ok_def)

lemma eq_ok_cong: "eq_ok s \<Longrightarrow> eq_knotes s' = eq_knotes s \<Longrightarrow> (\<And>f i. occurs f i (eq_ready s') = occurs f i (eq_ready s)) \<Longrightarrow> eq_ok s'"
  by (simp add: eq_ok_def)

lemma coalesced_occurs: "coalesced route ev rs = Some rs' \<Longrightarrow> occurs f i rs' = occurs f i rs"
  by (induction route ev rs arbitrary: rs' rule: coalesced.induct) (auto split: if_splits)

lemma eq_ok_post [simp]: "eq_ok s \<Longrightarrow> eq_ok (eq_post entry ev s)"
  by (rule eq_ok_cong) (auto simp: eq_post_def Let_def coalesced_occurs split: option.splits)

lemma eq_ok_enqueue:
  assumes "eq_ok s"
  shows "eq_ok (enqueue_if_ready key s)"
proof (cases key)
  case (Pair g j)
  show ?thesis using assms unfolding Pair enqueue_if_ready_def eq_ok_def
    by (auto split: option.splits)
qed

lemma knote_changed_queued [simp]: "kn_queued (knote_changed c k) = kn_queued k"
  by (simp add: knote_changed_def touch_user_def Let_def)

lemma eq_ok_set:
  assumes "eq_ok s" "(case eq_knotes s key of Some k \<Rightarrow> kn_queued k | None \<Rightarrow> False) = kn_queued k'"
  shows "eq_ok (s\<lparr>eq_knotes := (eq_knotes s)(key \<mapsto> k')\<rparr>)"
proof (cases key)
  case (Pair g j)
  then have "occurs g j (eq_ready s) = of_bool (kn_queued k')"
    using assms(2) eq_okD [OF assms(1), of g j] by (auto split: option.splits)
  then show ?thesis using assms(1) Pair by (auto simp: eq_ok_def)
qed

lemma occurs_drop:
  "occurs f i (filter (\<lambda>r. r \<noteq> KnoteReady g j) rs) = (if f = g \<and> i = j then 0 else occurs f i rs)"
  by (induction rs) (auto simp: occurs_def)

lemma occurs_unposted:
  "occurs f i (filter (\<lambda>r. case r of Posted r' _ \<Rightarrow> r' \<noteq> route | KnoteReady _ _ \<Rightarrow> True) rs) = occurs f i rs"
  by (induction rs) (auto simp: occurs_def split: Ready.splits)

lemma eq_ok_register:
  assumes "eq_ok s" "eq_register c s = (r, s')"
  shows "eq_ok s'"
proof -
  let ?key = "(ch_filter c, ch_ident c)"
  have new: "eq_ok (s\<lparr>eq_knotes := (eq_knotes s)(?key \<mapsto> knote_new c)\<rparr>)" if "eq_knotes s ?key = None"
    by (rule eq_ok_set [OF assms(1)]) (simp add: that knote_new_def)
  have changed: "eq_ok (s\<lparr>eq_knotes := (eq_knotes s)(?key \<mapsto> knote_changed c k)\<rparr>)" if "eq_knotes s ?key = Some k" for k
    by (rule eq_ok_set [OF assms(1)]) (simp add: that)
  have gone: "eq_ok (s\<lparr>eq_knotes := (eq_knotes s)(?key := None),
      eq_ready := filter (\<lambda>r. r \<noteq> KnoteReady (ch_filter c) (ch_ident c)) (eq_ready s)\<rparr>)"
    using assms(1) by (auto simp: eq_ok_def occurs_drop)
  show ?thesis using assms new changed gone eq_ok_enqueue
    by (auto simp: eq_register_def Let_def split: if_splits option.splits)
qed

section \<open>What a scan delivers\<close>

fun ready_now :: "eq_state \<Rightarrow> Ready \<Rightarrow> bool" where
  "ready_now s (Posted r ev) = True"
| "ready_now s (KnoteReady f i) =
     (case eq_knotes s (f, i) of
        None \<Rightarrow> False
      | Some k \<Rightarrow> \<not> kn_disabled k \<and> (kn_flags k AND EV_ONESHOT \<noteq> 0 \<or> kn_fired k))"

fun event_of :: "eq_state \<Rightarrow> Ready \<Rightarrow> PendingEvent" where
  "event_of s (Posted r ev) = ev"
| "event_of s (KnoteReady f i) = knote_event (f, i) (the (eq_knotes s (f, i)))"

lemma knote_event_queued [simp]: "knote_event key (k\<lparr>kn_queued := b\<rparr>) = knote_event key k"
  by (simp add: knote_event_def)

lemma ready_cong:
  assumes "\<And>f i. r = KnoteReady f i \<Longrightarrow> eq_knotes s' (f, i) = eq_knotes s (f, i)"
  shows "ready_now s' r = ready_now s r \<and> event_of s' r = event_of s r"
  using assms by (cases r) auto

lemma scan_one_posted: "scan_one (Posted rt ev) s = (Some ev, s)"
  by (simp add: scan_one_def)

lemma scan_one_knote:
  assumes "eq_knotes s (f, i) = Some k" "scan_one (KnoteReady f i) s = (out, s')"
  shows "out = (if ready_now s (KnoteReady f i) then Some (knote_event (f, i) k) else None)"
    and "\<exists>k'. eq_knotes s' = (eq_knotes s)((f, i) := k') \<and>
      eq_ready s' = eq_ready s @ (if \<exists>x. k' = Some x \<and> kn_queued x then [KnoteReady f i] else [])"
    and "out = None \<Longrightarrow> eq_ready s' = eq_ready s"
  using assms by (auto simp: scan_one_def Let_def split: if_splits)

lemma scan_one_frame:
  assumes "eq_ok s" "eq_ready s = r # rest" "scan_one r (s\<lparr>eq_ready := rest\<rparr>) = (out, s')"
  shows "eq_ok s'" and "\<exists>tail. eq_ready s' = rest @ tail"
    and "out = (if ready_now s r then Some (event_of s r) else None)"
    and "\<And>x. x \<in> set rest \<Longrightarrow> ready_now s' x = ready_now s x \<and> event_of s' x = event_of s x"
    and "out = None \<Longrightarrow> eq_ready s' = rest"
    and "eq_routes s' = eq_routes s"
proof -
  have all: "eq_ok s' \<and> (\<exists>tail. eq_ready s' = rest @ tail) \<and> out = (if ready_now s r then Some (event_of s r) else None) \<and>
    (\<forall>x \<in> set rest. ready_now s' x = ready_now s x \<and> event_of s' x = event_of s x) \<and> (out = None \<longrightarrow> eq_ready s' = rest)"
  proof (cases r)
    case (Posted rt ev)
    then have out: "out = Some ev" "s' = s\<lparr>eq_ready := rest\<rparr>" using assms(3) by (simp_all add: scan_one_posted)
    have "eq_ok s'" by (rule eq_ok_cong [OF assms(1)]) (simp_all add: out assms(2) Posted)
    moreover have "ready_now s' x = ready_now s x \<and> event_of s' x = event_of s x" for x
      by (rule ready_cong) (simp add: out)
    ultimately show ?thesis using out Posted by simp
  next
    case (KnoteReady f i)
    have occ: "occurs f i (eq_ready s) = Suc (occurs f i rest)" using assms(2) KnoteReady by simp
    then obtain k where k: "eq_knotes s (f, i) = Some k" "kn_queued k" and none: "occurs f i rest = 0"
      using eq_okD [OF assms(1), of f i] by (cases "eq_knotes s (f, i)"; cases "kn_queued (the (eq_knotes s (f, i)))") auto
    have k0: "eq_knotes (s\<lparr>eq_ready := rest\<rparr>) (f, i) = Some k" using k by simp
    have call: "scan_one (KnoteReady f i) (s\<lparr>eq_ready := rest\<rparr>) = (out, s')" using assms(3) KnoteReady by simp
    obtain k' where k': "eq_knotes s' = (eq_knotes s)((f, i) := k')"
      "eq_ready s' = rest @ (if \<exists>x. k' = Some x \<and> kn_queued x then [KnoteReady f i] else [])"
      using scan_one_knote(2) [OF k0 call] by auto
    have "eq_ok s'" unfolding eq_ok_def
    proof (intro allI)
      fix g j
      have "occurs g j (eq_ready s) = of_bool (g = f \<and> j = i) + occurs g j rest" using assms(2) KnoteReady by simp
      then show "occurs g j (eq_ready s') = (case eq_knotes s' (g, j) of Some k \<Rightarrow> of_bool (kn_queued k) | None \<Rightarrow> 0)"
        using eq_okD [OF assms(1), of g j] none k' by (auto split: option.splits if_splits)
    qed
    moreover have "ready_now s' x = ready_now s x \<and> event_of s' x = event_of s x" if "x \<in> set rest" for x
      by (rule ready_cong) (use that none k'(1) in \<open>auto simp: occurs_0\<close>)
    moreover have "out = (if ready_now s r then Some (event_of s r) else None)"
      using scan_one_knote(1) [OF k0 call] KnoteReady k by simp
    moreover have "out = None \<longrightarrow> eq_ready s' = rest" using scan_one_knote(3) [OF k0 call] by simp
    ultimately show ?thesis using k'(2) by blast
  qed
  then show "eq_ok s'" "\<exists>tail. eq_ready s' = rest @ tail" "out = (if ready_now s r then Some (event_of s r) else None)"
    "\<And>x. x \<in> set rest \<Longrightarrow> ready_now s' x = ready_now s x \<and> event_of s' x = event_of s x"
    "out = None \<Longrightarrow> eq_ready s' = rest" by blast+
  show "eq_routes s' = eq_routes s"
    using assms(3) by (cases r) (auto simp: scan_one_def Let_def split: option.splits if_splits)
qed

lemma scan_loop_spec:
  assumes "eq_ok s" "visit \<le> length (eq_ready s)" "scan_loop visit wanted s = (evs, s')"
  shows "eq_ok s' \<and> eq_routes s' = eq_routes s \<and>
    evs = take wanted (map (event_of s) (filter (ready_now s) (take visit (eq_ready s)))) \<and>
    (0 < wanted \<longrightarrow> evs = [] \<longrightarrow> eq_ready s' = drop visit (eq_ready s))"
  using assms
proof (induction visit wanted s arbitrary: evs s' rule: scan_loop.induct)
  case (3 visit wanted s)
  from 3(4) obtain r rest where rest: "eq_ready s = r # rest" by (cases "eq_ready s") simp_all
  obtain out s1 where one: "scan_one r (s\<lparr>eq_ready := rest\<rparr>) = (out, s1)" by (cases "scan_one r (s\<lparr>eq_ready := rest\<rparr>)")
  note frame = scan_one_frame [OF 3(3) rest one]
  obtain tail where tail: "eq_ready s1 = rest @ tail" using frame(2) by blast
  have visit: "visit \<le> length rest" using 3(4) rest by simp
  have same: "map (event_of s1) (filter (ready_now s1) (take visit (eq_ready s1))) =
      map (event_of s) (filter (ready_now s) (take visit rest))"
  proof -
    have "take visit (eq_ready s1) = take visit rest" using visit tail by simp
    moreover have "filter (ready_now s1) (take visit rest) = filter (ready_now s) (take visit rest)"
      using frame(4) by (intro filter_cong) (auto dest: in_set_takeD)
    moreover have "map (event_of s1) (filter (ready_now s) (take visit rest)) = map (event_of s) (filter (ready_now s) (take visit rest))"
      using frame(4) by (intro map_cong) (auto dest: in_set_takeD)
    ultimately show ?thesis by simp
  qed
  have le: "visit \<le> length (eq_ready s1)" using visit tail by simp
  show ?case
  proof (cases out)
    case None
    then have no: "\<not> ready_now s r" using frame(3) by (auto split: if_splits)
    have loop: "scan_loop visit (Suc wanted) s1 = (evs, s')" using 3(5) rest one None by simp
    note IH = 3(1) [OF rest one [symmetric] None frame(1) le loop, unfolded same]
    show ?thesis using IH no rest frame(5) [OF None] frame(6) by simp
  next
    case (Some ev)
    then have yes: "ready_now s r" "ev = event_of s r" using frame(3) by (auto split: if_splits)
    obtain evs1 where loop: "scan_loop visit wanted s1 = (evs1, s')" "evs = ev # evs1"
      using 3(5) rest one Some by (auto split: prod.splits)
    note IH = 3(2) [OF rest one [symmetric] Some frame(1) le loop(1), unfolded same]
    show ?thesis using IH loop(2) yes rest frame(6) by simp
  qed
qed auto

lemma scan_spec:
  assumes "eq_ok s" "scan wanted s = (evs, s')"
  shows "eq_ok s'" "eq_routes s' = eq_routes s"
    "evs = take wanted (map (event_of s) (filter (ready_now s) (eq_ready s)))"
    "0 < wanted \<Longrightarrow> evs = [] \<Longrightarrow> eq_ready s' = []"
  using scan_loop_spec [OF assms(1) order_refl assms(2) [unfolded scan_def]] by simp_all

lemma scan_none: "scan 0 s = ([], s)"
  unfolding scan_def by (cases "length (eq_ready s)") auto

section \<open>No wait sleeps on while something is ready\<close>

fun eq_blocked :: "eq_call \<Rightarrow> eq_state \<Rightarrow> bool" where
  "eq_blocked (EqWait wanted until waiter asked) s = (wanted = 0 \<or> (\<forall>r \<in> set (eq_ready s). \<not> ready_now s r))"
| "eq_blocked _ s = True"

lemma eq_blocked_empty: "eq_ready s = [] \<Longrightarrow> eq_blocked q s"
  by (cases q) auto

lemma eq_blocked_mono:
  assumes "eq_blocked q s" "eq_knotes s' = eq_knotes s" "set (eq_ready s') \<subseteq> set (eq_ready s)"
  shows "eq_blocked q s'"
proof -
  have "ready_now s' r = ready_now s r" for r using ready_cong [of r s' s] assms(2) by simp
  then show ?thesis using assms(1,3) by (cases q) auto
qed

lemma wait_events_turn:
  assumes "eq_ok s" "wait_events wanted until waiter asked e s = out"
  shows "(\<forall>r s' w. out = Return r s' w \<longrightarrow> eq_ok s' \<and> (eq_blocked q s \<longrightarrow> eq_blocked q s')) \<and>
    (\<forall>p' s'. out = Sleep p' s' \<longrightarrow> eq_ok s' \<and> eq_blocked p' s' \<and> (eq_blocked q s \<longrightarrow> eq_blocked q s')) \<and>
    (\<forall>p' s' w. out = Again p' s' w \<longrightarrow> eq_ok s' \<and> (eq_blocked q s \<longrightarrow> eq_blocked q s'))"
proof -
  obtain evs s1 where scan: "scan wanted s = (evs, s1)" by (cases "scan wanted s")
  note spec = scan_spec [OF assms(1) scan]
  have keep: "eq_blocked q s1" if b: "eq_blocked q s"
  proof (cases "wanted = 0")
    case True
    then show ?thesis using scan scan_none that by simp
  next
    case False
    show ?thesis
    proof (cases "evs = []")
      case True
      then show ?thesis using spec(4) False eq_blocked_empty by blast
    next
      case some: False
      then have "\<exists>r \<in> set (eq_ready s). ready_now s r" using spec(3) by (auto simp: filter_empty_conv)
      then show ?thesis using b by (cases q) auto
    qed
  qed
  have "eq_blocked (EqWait wanted until waiter True) s1" if "evs = []"
    using spec(4) that eq_blocked_empty by (cases "wanted = 0") auto
  then show ?thesis using assms(2) scan spec(1) keep
    by (auto simp: wait_events_def Let_def split: if_splits Blocking.splits)
qed

lemma eq_post_routes [simp]: "eq_routes (eq_post entry ev s) = eq_routes s"
  by (simp add: eq_post_def Let_def)

lemma eq_ok_posts: "eq_ok s \<Longrightarrow> eq_ok (fold (\<lambda>e. eq_post e (g e)) es s)"
  by (induction es arbitrary: s) auto

lemma eq_ok_found: "eq_ok s \<Longrightarrow> eq_ok (post_found found s)"
  unfolding post_found_def by (induction found arbitrary: s) auto

lemma post_found_none:
  "\<not> (\<exists>x \<in> set found. \<exists>r \<in> set (eq_routes s). re_route r = re_route (fst x)) \<Longrightarrow> post_found found s = s"
  unfolding post_found_def by (induction found) auto

lemma eq_register_wakes:
  assumes "eq_register c s = (r, s')" "eq_blocked q s" "\<not> eq_blocked q s'"
  shows "r = Inr () \<and> eq_ready s' \<noteq> [] \<and> (\<exists>f i. last (eq_ready s') = KnoteReady f i)"
proof -
  obtain wanted until waiter asked where q: "q = EqWait wanted until waiter asked" using assms(3) by (cases q) auto
  have r: "r = Inr ()" using assms by (auto simp: eq_register_def Let_def split: if_splits option.splits)
  have "Posted rt ev \<notin> set (eq_ready s)" for rt ev using assms(2,3) q by auto
  then have "Posted rt ev \<notin> set (eq_ready s')" for rt ev
    using assms(1) by (auto simp: eq_register_def enqueue_if_ready_def Let_def split: if_splits option.splits)
  moreover have "eq_ready s' \<noteq> []" using assms(3) eq_blocked_empty by blast
  ultimately have "\<nexists>rt ev. last (eq_ready s') = Posted rt ev" using last_in_set by metis
  then show ?thesis using r \<open>eq_ready s' \<noteq> []\<close> by (metis Ready.exhaust)
qed

lemma eq_turn_ok:
  assumes "eq_ok s"
  shows "eq_turn p e s = Return r s' w \<Longrightarrow> eq_ok s'"
    and "eq_turn p e s = Sleep p' s' \<or> eq_turn p e s = Again p' s' w \<Longrightarrow> eq_ok s'"
proof -
  have frame: "eq_ok (add_route entry s)" for entry
    by (rule eq_ok_cong [OF assms]) (simp_all add: add_route_def)
  have gone: "eq_ok (snd (remove_route route s))" for route
  proof (rule eq_ok_cong [OF assms])
    fix f i
    show "occurs f i (eq_ready (snd (remove_route route s))) = occurs f i (eq_ready s)"
      by (simp add: remove_route_def Let_def occurs_unposted)
  qed (simp add: remove_route_def Let_def)
  have everywhere: "eq_ok (snd (post_event_everywhere ev s))" for ev
    by (rule eq_ok_cong [OF assms]) (auto simp: post_event_everywhere_def Let_def split: list.splits)
  show "eq_turn p e s = Return r s' w \<Longrightarrow> eq_ok s'"
  proof (cases p)
    case (EqWait wanted until waiter asked)
    then show "eq_turn p e s = Return r s' w \<Longrightarrow> eq_ok s'"
      using wait_events_turn [OF assms refl, of wanted until waiter asked e] by simp
  next
    case (EqRemoveRoute route)
    then show "eq_turn p e s = Return r s' w \<Longrightarrow> eq_ok s'" using gone [of route] by (auto split: prod.splits)
  next
    case (EqPostEverywhere ev)
    then show "eq_turn p e s = Return r s' w \<Longrightarrow> eq_ok s'" using everywhere [of ev] by (auto split: prod.splits)
  qed (use assms frame eq_ok_register [OF assms] in
      \<open>auto simp: post_filtered_event_def post_event_def Let_def eq_ok_posts split: prod.splits option.splits\<close>)
  show "eq_turn p e s = Sleep p' s' \<or> eq_turn p e s = Again p' s' w \<Longrightarrow> eq_ok s'"
  proof (cases p)
    case (EqWait wanted until waiter asked)
    then show "eq_turn p e s = Sleep p' s' \<or> eq_turn p e s = Again p' s' w \<Longrightarrow> eq_ok s'"
      using wait_events_turn [OF assms refl, of wanted until waiter asked e] by auto
  qed (use eq_ok_found [OF assms] in \<open>auto simp: Let_def split: prod.splits\<close>)
qed

lemma eq_turn_return_keeps:
  assumes "eq_ok s" "eq_turn p e s = Return r s' w" "eq_blocked q s" "\<not> eq_blocked q s'"
  shows "w = All"
proof (cases p)
  case (EqWait wanted until waiter asked)
  then show ?thesis using wait_events_turn [OF assms(1), of wanted until waiter asked e _ q] assms(2-4) by fastforce
next
  case (EqApply c)
  obtain r' where reg: "eq_register c s = (r', s')" using assms(2) EqApply by (auto split: prod.splits)
  then show ?thesis using eq_register_wakes [OF reg assms(3,4)] assms(2) EqApply by auto
next
  case (EqAddRoute entry)
  then show ?thesis using eq_blocked_mono [OF assms(3), of s'] assms(2,4) by (auto simp: add_route_def)
next
  case (EqRemoveRoute route)
  then show ?thesis using eq_blocked_mono [OF assms(3), of s'] assms(2,4) by (auto simp: remove_route_def Let_def)
next
  case EqDelete
  then show ?thesis using eq_blocked_empty [of s' q] assms(2,4) by (auto simp: eq_default_def)
next
  case (EqPostFiltered f event)
  then show ?thesis using assms(2-4) by (auto simp: post_filtered_event_def Let_def split: if_splits)
next
  case (EqPost ident event)
  then show ?thesis using assms(2-4) by (auto simp: post_event_def split: if_splits option.splits)
qed (use assms in \<open>auto split: prod.splits\<close>)

interpretation equ: notify_all legal eq_turn eq_blocked "\<lambda>n. eq_ok" "\<lambda>n. True" for legal
proof
  fix n p e p' q w and s s' :: eq_state
  assume ok: "eq_ok s"
  show "eq_turn p e s = Sleep p' s' \<Longrightarrow> eq_blocked p' s'" "eq_turn p e s = Sleep p' s' \<Longrightarrow> eq_blocked q s \<Longrightarrow> eq_blocked q s'"
    by (cases p; auto simp: Let_def split: prod.splits dest: wait_events_turn [OF ok])+
  show "w = All" if h: "eq_turn p e s = Again p' s' w" "eq_blocked q s" "\<not> eq_blocked q s'"
  proof (cases p)
    case (EqWait wanted until waiter asked)
    then show ?thesis using wait_events_turn [OF ok, of wanted until waiter asked e _ q] h by fastforce
  next
    case (EqAsked wanted until waiter found)
    then show ?thesis using post_found_none [of found s] h by (auto split: if_splits)
  qed (use h in \<open>auto simp: Let_def split: prod.splits\<close>)
  show "eq_turn p e s = Sleep p' s' \<or> eq_turn p e s = Again p' s' w \<Longrightarrow> eq_ok s'" by (rule eq_turn_ok(2) [OF ok])
next
  fix n p e r w q and s s' :: eq_state
  assume "eq_ok s" "eq_turn p e s = Return r s' w"
  then show "eq_ok s'" "eq_blocked q s \<Longrightarrow> \<not> eq_blocked q s' \<Longrightarrow> w = All"
    using eq_turn_ok(1) eq_turn_return_keeps by blast+
qed simp

section \<open>Properties\<close>

lemma eq_runs_ok: "runs legal eq_turn entry eq_default log s ts \<Longrightarrow> eq_ok s"
  using equ.inv_runs eq_ok_default by blast

text \<open>C14. In every run of a queue, whatever is registered, triggered, posted, waited for and deleted and
  in whatever order, a registered event is on the ready list exactly once while it is marked queued
  and not at all otherwise, so repeated triggers are delivered once and the list never names an event
  that is gone; and no wait sleeps while anything it would deliver is ready.\<close>

theorem equeue_invariant:
  assumes "runs legal eq_turn entry eq_default log s ts"
  shows "length (filter (\<lambda>r. r = KnoteReady f i) (eq_ready s)) =
      (case eq_knotes s (f, i) of Some k \<Rightarrow> of_bool (kn_queued k) | None \<Rightarrow> 0) \<and>
    (ts t = Asleep (EqWait wanted until waiter asked) \<and> 0 < wanted \<longrightarrow> (\<forall>r \<in> set (eq_ready s). \<not> ready_now s r))"
proof -
  have "eq_blocked p s" if "ts t = Asleep p" for p using equ.asleep_blocked [OF assms _ _ that] by simp
  then show ?thesis using eq_runs_ok [OF assms] by (fastforce simp: eq_ok_def occurs_def)
qed

text \<open>Two user events, one that clears when it is delivered and one that stays; both triggered, the
  first one twice.\<close>

definition demo_add :: "u64 \<Rightarrow> 16 word \<Rightarrow> Change" where
  "demo_add i fl = \<lparr>ch_ident = i, ch_filter = EVFILT_USER, ch_flags = EV_ADD OR fl, ch_fflags = 0, ch_data = 0, ch_udata = 0\<rparr>"

definition demo_trigger :: "u64 \<Rightarrow> u64 \<Rightarrow> Change" where
  "demo_trigger i u = \<lparr>ch_ident = i, ch_filter = EVFILT_USER, ch_flags = 0, ch_fflags = NOTE_TRIGGER, ch_data = 0, ch_udata = u\<rparr>"

definition demo_eq :: eq_state where
  "demo_eq = snd (eq_register (demo_trigger 3 9) (snd (eq_register (demo_trigger 4 8) (snd (eq_register (demo_trigger 3 7)
     (snd (eq_register (demo_add 4 0) (snd (eq_register (demo_add 3 EV_CLEAR) eq_default)))))))))"

lemmas eq_consts = EVFILT_USER_def EV_ADD_def EV_DELETE_def EV_ENABLE_def EV_DISABLE_def EV_ONESHOT_def EV_CLEAR_def
  EV_DISPATCH_def EV_FORCEONESHOT_def EV_KEEPUDATA_def ACTIONS_def NOTE_TRIGGER_def NOTE_FFAND_def NOTE_FFOR_def
  NOTE_FFCOPY_def NOTE_FFCTRLMASK_def NOTE_FFLAGSMASK_def

lemmas eq_eval = eq_register_def enqueue_if_ready_def knote_changed_def touch_user_def knote_new_def
  demo_add_def demo_trigger_def Let_def eq_default_def

lemma demo_eq_ready: "eq_ready demo_eq = [KnoteReady (- 11) 3, KnoteReady (- 11) 4]"
  by (simp add: demo_eq_def eq_eval eq_consts)

lemma demo_eq_knote: "eq_knotes demo_eq (- 11, 3) = Some \<lparr>kn_flags = 0x20, kn_fflags = 0, kn_data = 0, kn_udata = 9,
    kn_fired = True, kn_disabled = False, kn_queued = True\<rparr>"
  by (simp add: demo_eq_def eq_eval eq_consts)

lemma apply_step:
  assumes "\<exists>log. runs (\<lambda>e. True) eq_turn (\<lambda>p. True) eq_default log s (\<lambda>t. Idle)"
  shows "\<exists>log. runs (\<lambda>e. True) eq_turn (\<lambda>p. True) eq_default log (snd (eq_register c s)) (\<lambda>t. Idle)"
proof -
  obtain log where "runs (\<lambda>e. True) eq_turn (\<lambda>p. True) eq_default log s (\<lambda>t. Idle)" using assms by blast
  then have called: "runs (\<lambda>e. True) eq_turn (\<lambda>p. True) eq_default log s ((\<lambda>t. Idle)(0 := Running (EqApply c)))"
    by (rule runs.call) auto
  obtain r s' where reg: "eq_register c s = (r, s')" by (cases "eq_register c s")
  obtain w where turn: "eq_turn (EqApply c) quiet s = Return (Applied r) s' w" "w = All \<or> w = Nobody" using reg by auto
  have unset: "((\<lambda>t. Idle)(0 := Running (EqApply c)))(0 := Idle) = (\<lambda>t :: nat. Idle)" by auto
  have woke: "woken w (\<lambda>t. Idle) (\<lambda>t :: nat. Idle :: eq_call activity)"
    using turn(2) woken.nobody [of "\<lambda>t. Idle"] woken.every [of "\<lambda>t. Idle"] by auto
  have "runs (\<lambda>e. True) eq_turn (\<lambda>p. True) eq_default ((EqApply c, Applied r) # log) s' (\<lambda>t. Idle)"
    by (rule runs.return [OF called _ _ turn(1)]) (use woke unset in auto)
  then show ?thesis using reg by auto
qed

lemma demo_eq_reached: "\<exists>log. runs (\<lambda>e. True) eq_turn (\<lambda>p. True) eq_default log demo_eq (\<lambda>t. Idle)"
proof -
  have "\<exists>log. runs (\<lambda>e. True) eq_turn (\<lambda>p. True) eq_default log eq_default (\<lambda>t. Idle)" by (rule exI, rule runs.start)
  then show ?thesis unfolding demo_eq_def by (intro apply_step)
qed

theorem equeue_invariant_witness:
  "length (filter (\<lambda>r. r = KnoteReady (- 11) 3) (eq_ready demo_eq)) = 1"
  using equeue_invariant [where f = "- 11" and i = 3] demo_eq_reached demo_eq_knote by fastforce

text \<open>C15. A wait takes what is ready, oldest first and as many as it wants: the events a scan delivers
  are those of the ready entries in their order, each as its registration stands when the scan
  begins, one that is disabled or no longer reported left out, none twice.\<close>

theorem scan_delivers:
  assumes "runs legal eq_turn entry eq_default log s ts"
  shows "fst (scan wanted s) = take wanted (map (event_of s) (filter (ready_now s) (eq_ready s)))"
  using scan_spec(3) [OF eq_runs_ok [OF assms]] by (metis prod.collapse)

theorem scan_delivers_witness:
  "map ev_udata (fst (scan 1 demo_eq)) = [9]"
proof -
  obtain log where run: "runs (\<lambda>e. True) eq_turn (\<lambda>p. True) eq_default log demo_eq (\<lambda>t. Idle)"
    using demo_eq_reached by blast
  show ?thesis unfolding scan_delivers [OF run]
    by (simp add: demo_eq_ready demo_eq_knote knote_event_def split: option.splits)
qed

text \<open>A delivered event is written out as the guest reads it: thirty-two bytes, from which every
  field the guest can see reads back at the offset the interface gives it.\<close>

theorem event_bytes_roundtrip:
  assumes "ev_ident ev < 2 ^ 64" "ev_udata ev < 2 ^ 64"
  defines "bs \<equiv> event_to_bytes ev"
  shows "length bs = EVENT_BYTES \<and>
    map_option le_nat (get_range bs 0x00 0x08) = Some (ev_ident ev) \<and>
    map_option le_nat (get_range bs 0x08 0x0a) = Some (unat (ev_filter ev)) \<and>
    map_option le_nat (get_range bs 0x0a 0x0c) = Some (unat (ev_flags ev)) \<and>
    map_option le_nat (get_range bs 0x0c 0x10) = Some (unat (ev_fflags ev)) \<and>
    map_option le_nat (get_range bs 0x10 0x18) = Some (unat (ev_data ev)) \<and>
    map_option le_nat (get_range bs 0x18 0x20) = Some (ev_udata ev)"
proof -
  have bounds: "unat (ev_filter ev) < 256 ^ 2" "unat (ev_flags ev) < 256 ^ 2" "unat (ev_fflags ev) < 256 ^ 4"
    "unat (ev_data ev) < 256 ^ 8"
    using unsigned_less [of "ev_filter ev", where 'a = nat] unsigned_less [of "ev_flags ev", where 'a = nat]
      unsigned_less [of "ev_fflags ev", where 'a = nat] unsigned_less [of "ev_data ev", where 'a = nat] by simp_all
  show ?thesis using assms(1,2) bounds unfolding bs_def event_to_bytes_def
    by (simp add: EVENT_BYTES_def get_range_def le_nat_to_le)
qed

theorem event_bytes_roundtrip_witness:
  "map_option le_nat (get_range (event_to_bytes
     \<lparr>ev_ident = 5, ev_filter = - 11, ev_flags = 32, ev_fflags = 0, ev_data = 0, ev_udata = 77, ev_display_nanos = 0\<rparr>) 0x18 0x20) = Some 77"
  using event_bytes_roundtrip [of "\<lparr>ev_ident = 5, ev_filter = - 11, ev_flags = 32, ev_fflags = 0, ev_data = 0, ev_udata = 77, ev_display_nanos = 0\<rparr>"]
  by simp

end
