(* ===== verification/Elf_Container.thy ===== *)
theory Elf_Container
  imports Prelude
begin

text \<open>
  The container a module comes in (\<^verbatim>\<open>orbistoun-elf/src/wrapper.rs\<close> and the first half of
  \<^verbatim>\<open>lib.rs\<close>): the vendor's wrapper and its segment descriptors, the ELF header and program headers,
  and the ways the code finds bytes in the file: by program header, by guest address, and through the
  vendor's data segment. The types of the vendor's own segments are those of another package and are
  arguments here.

  The lemmas show that none of this panics on a file that parsed, whatever its bytes, that every
  position answered lies in the file, and that an address is resolved to the byte the first header
  that has it puts there.
\<close>

section \<open>The wrapper\<close>

datatype ElfError =
    Truncated nat nat nat
  | NotElf
  | UnsupportedFormat
  | NotWrapped
  | AbsurdSegmentCount nat nat
  | AbsurdSymbolCount nat nat
  | NoDynamicTable string
  | InnerElfNotFound nat nat

definition WRAPPER_MAGIC :: "byte list" where
  "WRAPPER_MAGIC = [0x54, 0x14, 0xf5, 0xee]"

definition PREVIOUS_GENERATION_MAGIC :: "byte list" where
  "PREVIOUS_GENERATION_MAGIC = [0x4f, 0x15, 0x3d, 0x1d]"

definition ELF_MAGIC :: "byte list" where
  "ELF_MAGIC = [0x7f, 0x45, 0x4c, 0x46]"

datatype Generation = Current | Previous

definition HEADER_SIZE :: nat where "HEADER_SIZE = 32"
definition SEGMENT_SIZE :: nat where "SEGMENT_SIZE = 32"
definition MAX_SEGMENTS :: nat where "MAX_SEGMENTS = 4096"

record WrapperHeader =
  wh_magic :: "byte list"
  wh_version :: nat
  wh_mode :: nat
  wh_endian :: nat
  wh_attributes :: nat
  wh_key_type :: nat
  wh_header_size :: nat
  wh_meta_size :: nat
  wh_stated_size :: nat
  wh_segment_count :: nat
  wh_flags :: nat
  wh_reserved :: nat

text \<open>\<open>read_from_prefix\<close>: the structure at the front of the bytes, when there are enough of them.\<close>

definition read_wrapper_header :: "byte list \<Rightarrow> WrapperHeader option" where
  "read_wrapper_header bs =
     (if length bs < HEADER_SIZE then None
      else Some \<lparr>wh_magic = take 4 bs, wh_version = field bs 4 1, wh_mode = field bs 5 1,
        wh_endian = field bs 6 1, wh_attributes = field bs 7 1, wh_key_type = field bs 8 4,
        wh_header_size = field bs 12 2, wh_meta_size = field bs 14 2,
        wh_stated_size = field bs 16 8, wh_segment_count = field bs 24 2,
        wh_flags = field bs 26 2, wh_reserved = field bs 28 4\<rparr>)"

definition SEGMENT_FLAG_HAS_DATA :: nat where "SEGMENT_FLAG_HAS_DATA = 0x800"
definition SEGMENT_PHDR_INDEX_SHIFT :: nat where "SEGMENT_PHDR_INDEX_SHIFT = 20"

record WrapperSegment =
  ws_flags :: nat
  ws_offset :: u64
  ws_stored_size :: u64
  ws_expanded_size :: u64

definition read_wrapper_segment :: "byte list \<Rightarrow> WrapperSegment option" where
  "read_wrapper_segment bs =
     (if length bs < SEGMENT_SIZE then None
      else Some \<lparr>ws_flags = field bs 0 8, ws_offset = field bs 8 8,
        ws_stored_size = field bs 16 8, ws_expanded_size = field bs 24 8\<rparr>)"

definition program_header_index :: "WrapperSegment \<Rightarrow> nat" where
  "program_header_index seg = drop_bit SEGMENT_PHDR_INDEX_SHIFT (ws_flags seg)"

definition has_data :: "WrapperSegment \<Rightarrow> bool" where
  "has_data seg \<longleftrightarrow> ws_flags seg AND SEGMENT_FLAG_HAS_DATA \<noteq> 0"

definition segment_range :: "WrapperSegment \<Rightarrow> nat \<times> nat" where
  "segment_range seg = (ws_offset seg, saturating_add (ws_offset seg) (ws_stored_size seg))"

record Wrapper =
  w_header :: WrapperHeader
  w_elf_offset :: nat

definition is_wrapped :: "byte list \<Rightarrow> bool" where
  "is_wrapped bs \<longleftrightarrow> length bs \<ge> 4 \<and> take 4 bs = WRAPPER_MAGIC"

definition is_previous_generation :: "byte list \<Rightarrow> bool" where
  "is_previous_generation bs \<longleftrightarrow> length bs \<ge> 4 \<and> take 4 bs = PREVIOUS_GENERATION_MAGIC"

definition generation :: "byte list \<Rightarrow> Generation option" where
  "generation bs =
     (if is_wrapped bs then Some Current
      else if is_previous_generation bs then Some Previous else None)"

definition is_either_generation :: "byte list \<Rightarrow> bool" where
  "is_either_generation bs \<longleftrightarrow> is_wrapped bs \<or> is_previous_generation bs"

definition wrapper_parse :: "byte list \<Rightarrow> (ElfError, Wrapper) outcome" where
  "wrapper_parse bs =
     (if \<not> is_either_generation bs then Err NotWrapped
      else case read_wrapper_header bs of
        None \<Rightarrow> Err (Truncated 0 HEADER_SIZE (length bs))
      | Some header \<Rightarrow>
          (let count = wh_segment_count header
           in if count > MAX_SEGMENTS then Err (AbsurdSegmentCount count MAX_SEGMENTS)
              else let elf_offset = HEADER_SIZE + count * SEGMENT_SIZE
              in if elf_offset + 4 > length bs then Err (Truncated elf_offset 4 (length bs))
                 else if take 4 (drop elf_offset bs) \<noteq> ELF_MAGIC
                 then Err (InnerElfNotFound elf_offset count)
                 else Ok \<lparr>w_header = header, w_elf_offset = elf_offset\<rparr>))"

definition segment_count :: "Wrapper \<Rightarrow> nat" where
  "segment_count w = wh_segment_count (w_header w)"

definition segment_at :: "byte list \<Rightarrow> nat \<Rightarrow> (ElfError, WrapperSegment) outcome" where
  "segment_at bs i =
     (let at = HEADER_SIZE + i * SEGMENT_SIZE
      in out_bind (index_from bs at) (\<lambda>rest.
         ok_or (Truncated at SEGMENT_SIZE (saturating_sub (length bs) at)) (read_wrapper_segment rest)))"

definition wrapper_segments :: "Wrapper \<Rightarrow> byte list \<Rightarrow> (ElfError, WrapperSegment list) outcome" where
  "wrapper_segments w bs = out_map (segment_at bs) [0..<segment_count w]"

text \<open>The descriptor that serves a header: the first with data that names it.\<close>

definition serving :: "nat \<Rightarrow> WrapperSegment list \<Rightarrow> WrapperSegment option" where
  "serving index segs = find (\<lambda>seg. has_data seg \<and> program_header_index seg = index) segs"

definition data_for_program_header ::
  "Wrapper \<Rightarrow> byte list \<Rightarrow> nat \<Rightarrow> (ElfError, byte list option) outcome" where
  "data_for_program_header w bs index =
     out_bind (wrapper_segments w bs) (\<lambda>segs.
       case serving index segs of
         None \<Rightarrow> Ok None
       | Some seg \<Rightarrow>
           (let (start, stop) = segment_range seg
            in if stop > length bs
               then Err (Truncated start (stop - start)
                      (saturating_sub (length bs) (min start (length bs))))
               else Ok (Some (take (stop - start) (drop start bs)))))"

section \<open>ELF headers\<close>

record Elf64Header =
  e_ident :: "byte list"
  e_type :: nat
  e_machine :: nat
  e_version :: nat
  e_entry :: u64
  e_phoff :: u64
  e_shoff :: u64
  e_flags :: nat
  e_ehsize :: nat
  e_phentsize :: nat
  e_phnum :: nat
  e_shentsize :: nat
  e_shnum :: nat
  e_shstrndx :: nat

definition ELF_HEADER_SIZE :: nat where "ELF_HEADER_SIZE = 64"

definition read_elf_header :: "byte list \<Rightarrow> Elf64Header option" where
  "read_elf_header bs =
     (if length bs < ELF_HEADER_SIZE then None
      else Some \<lparr>e_ident = take 16 bs, e_type = field bs 16 2, e_machine = field bs 18 2,
        e_version = field bs 20 4, e_entry = field bs 24 8, e_phoff = field bs 32 8,
        e_shoff = field bs 40 8, e_flags = field bs 48 4, e_ehsize = field bs 52 2,
        e_phentsize = field bs 54 2, e_phnum = field bs 56 2, e_shentsize = field bs 58 2,
        e_shnum = field bs 60 2, e_shstrndx = field bs 62 2\<rparr>)"

record Elf64ProgramHeader =
  p_type :: nat
  p_flags :: nat
  p_offset :: u64
  p_vaddr :: u64
  p_paddr :: u64
  p_filesz :: u64
  p_memsz :: u64
  p_align :: u64

definition PROGRAM_HEADER_SIZE :: nat where "PROGRAM_HEADER_SIZE = 56"

definition read_program_header :: "byte list \<Rightarrow> Elf64ProgramHeader option" where
  "read_program_header bs =
     (if length bs < PROGRAM_HEADER_SIZE then None
      else Some \<lparr>p_type = field bs 0 4, p_flags = field bs 4 4, p_offset = field bs 8 8,
        p_vaddr = field bs 16 8, p_paddr = field bs 24 8, p_filesz = field bs 32 8,
        p_memsz = field bs 40 8, p_align = field bs 48 8\<rparr>)"

record Container =
  c_bytes :: "byte list"
  c_header :: Elf64Header
  c_wrapper :: "Wrapper option"

definition parse_plain :: "byte list \<Rightarrow> (ElfError, Container) outcome" where
  "parse_plain bs =
     out_bind (ok_or (Truncated 0 ELF_HEADER_SIZE (length bs)) (read_elf_header bs)) (\<lambda>header.
       if take 4 (e_ident header) \<noteq> ELF_MAGIC then Err NotElf
       else if e_ident header ! 4 \<noteq> 2 \<or> e_ident header ! 5 \<noteq> 1 then Err UnsupportedFormat
       else Ok \<lparr>c_bytes = bs, c_header = header, c_wrapper = None\<rparr>)"

definition container_parse :: "byte list \<Rightarrow> (ElfError, Container) outcome" where
  "container_parse bs =
     (if is_either_generation bs
      then out_bind (wrapper_parse bs) (\<lambda>wrapper.
           out_bind (index_from bs (w_elf_offset wrapper)) (\<lambda>inner.
           out_bind (parse_plain inner) (\<lambda>container.
           Ok (container\<lparr>c_wrapper := Some wrapper\<rparr>))))
      else parse_plain bs)"

definition header_at :: "Container \<Rightarrow> nat \<Rightarrow> nat \<Rightarrow> nat \<Rightarrow> (ElfError, Elf64ProgramHeader) outcome" where
  "header_at c offset entsize i =
     (let at = offset + i * entsize
      in out_bind (index_from (c_bytes c) at) (\<lambda>rest.
         ok_or (Truncated at PROGRAM_HEADER_SIZE (length (c_bytes c) - at)) (read_program_header rest)))"

definition program_headers :: "Container \<Rightarrow> (ElfError, Elf64ProgramHeader list) outcome" where
  "program_headers c =
     (let count = e_phnum (c_header c); entsize = e_phentsize (c_header c);
          offset = e_phoff (c_header c); have = length (c_bytes c);
          need = saturating_mul count entsize; stop = saturating_add offset need
      in if stop > have then Err (Truncated offset need (saturating_sub have (min offset have)))
         else out_map (header_at c offset entsize) [0..<count])"

section \<open>Finding bytes in the file\<close>

definition segment_data :: "Container \<Rightarrow> byte list \<Rightarrow> nat \<Rightarrow> (ElfError, byte list option) outcome" where
  "segment_data c whole index =
     (case c_wrapper c of
        Some wrapper \<Rightarrow> data_for_program_header wrapper whole index
      | None \<Rightarrow>
          out_bind (program_headers c) (\<lambda>headers.
            if index < length headers
            then (let ph = headers ! index
                  in Ok (get_range whole (p_offset ph) (saturating_add (p_offset ph) (p_filesz ph))))
            else Ok None))"

fun mapped_from :: "Wrapper \<Rightarrow> byte list \<Rightarrow> nat list \<Rightarrow> (ElfError, nat list) outcome" where
  "mapped_from w whole [] = Ok []"
| "mapped_from w whole (i # is) =
     out_bind (data_for_program_header w whole i) (\<lambda>d.
     out_bind (mapped_from w whole is) (\<lambda>ms. Ok (if d \<noteq> None then i # ms else ms)))"

definition mapped_program_headers :: "Container \<Rightarrow> byte list \<Rightarrow> (ElfError, nat list) outcome" where
  "mapped_program_headers c whole =
     (case c_wrapper c of
        None \<Rightarrow> Ok []
      | Some wrapper \<Rightarrow>
          out_bind (program_headers c) (\<lambda>headers. mapped_from wrapper whole [0..<length headers]))"

definition vendor_segments ::
  "(nat \<Rightarrow> bool) \<Rightarrow> Container \<Rightarrow> (ElfError, Elf64ProgramHeader list) outcome" where
  "vendor_segments is_vendor c =
     out_bind (program_headers c) (\<lambda>headers. Ok (filter (\<lambda>ph. is_vendor (p_type ph)) headers))"

definition covers :: "u64 \<Rightarrow> Elf64ProgramHeader \<Rightarrow> bool" where
  "covers vaddr ph \<longleftrightarrow>
     \<not> (p_filesz ph = 0 \<or> vaddr < p_vaddr ph \<or> vaddr \<ge> saturating_add (p_vaddr ph) (p_filesz ph))"

text \<open>The walk outwards to a header whose data has the address, in a wrapped container.\<close>

fun backed_offset ::
  "Wrapper \<Rightarrow> byte list \<Rightarrow> u64 \<Rightarrow> (nat \<times> Elf64ProgramHeader) list \<Rightarrow> (ElfError, nat option) outcome" where
  "backed_offset w whole vaddr [] = Ok None"
| "backed_offset w whole vaddr ((i, outer) # rest) =
     (if \<not> covers vaddr outer then backed_offset w whole vaddr rest
      else out_bind (data_for_program_header w whole i) (\<lambda>d.
        case d of
          None \<Rightarrow> backed_offset w whole vaddr rest
        | Some data \<Rightarrow>
            (let within = vaddr - p_vaddr outer
             in if within < length data
                then out_bind (wrapper_segments w whole) (\<lambda>segs.
                  case serving i segs of
                    Some seg \<Rightarrow>
                      out_bind (plain_add (fst (segment_range seg)) within) (\<lambda>at. Ok (Some at))
                  | None \<Rightarrow> backed_offset w whole vaddr rest)
                else backed_offset w whole vaddr rest)))"

fun wrapped_offset ::
  "Wrapper \<Rightarrow> byte list \<Rightarrow> u64 \<Rightarrow> (nat \<times> Elf64ProgramHeader) list \<Rightarrow> Elf64ProgramHeader list \<Rightarrow>
   (ElfError, nat option) outcome" where
  "wrapped_offset w whole vaddr headers [] = Ok None"
| "wrapped_offset w whole vaddr headers (ph # phs) =
     (if \<not> covers vaddr ph then wrapped_offset w whole vaddr headers phs
      else out_bind (backed_offset w whole vaddr headers) (\<lambda>found.
        case found of
          Some at \<Rightarrow> Ok (Some at)
        | None \<Rightarrow> wrapped_offset w whole vaddr headers phs))"

definition PT_LOAD :: nat where "PT_LOAD = 1"
definition PT_DYNAMIC :: nat where "PT_DYNAMIC = 2"

definition covering_offset :: "byte list \<Rightarrow> u64 \<Rightarrow> Elf64ProgramHeader \<Rightarrow> nat option" where
  "covering_offset whole vaddr ph =
     (if \<not> covers vaddr ph then None
      else case checked_add (p_offset ph) (vaddr - p_vaddr ph) of
        None \<Rightarrow> None
      | Some at \<Rightarrow> if at < length whole then Some at else None)"

fun find_map :: "('a \<Rightarrow> 'b option) \<Rightarrow> 'a list \<Rightarrow> 'b option" where
  "find_map f [] = None"
| "find_map f (x # xs) = (case f x of Some y \<Rightarrow> Some y | None \<Rightarrow> find_map f xs)"

definition bare_vaddr_to_offset :: "Container \<Rightarrow> byte list \<Rightarrow> u64 \<Rightarrow> (ElfError, nat option) outcome" where
  "bare_vaddr_to_offset c whole vaddr =
     out_bind (program_headers c) (\<lambda>headers.
       case find_map (covering_offset whole vaddr) (filter (\<lambda>ph. p_type ph = PT_LOAD) headers) of
         Some at \<Rightarrow> Ok (Some at)
       | None \<Rightarrow> Ok (find_map (covering_offset whole vaddr) headers))"

definition vaddr_to_offset :: "Container \<Rightarrow> byte list \<Rightarrow> u64 \<Rightarrow> (ElfError, nat option) outcome" where
  "vaddr_to_offset c whole vaddr =
     (case c_wrapper c of
        None \<Rightarrow> bare_vaddr_to_offset c whole vaddr
      | Some wrapper \<Rightarrow>
          out_bind (program_headers c) (\<lambda>headers.
            wrapped_offset wrapper whole vaddr (enumerate 0 headers) headers))"

text \<open>The vendor's data segment, of a type the format's own package names.\<close>

definition vendor_data_offset :: "nat \<Rightarrow> Container \<Rightarrow> byte list \<Rightarrow> (ElfError, nat option) outcome" where
  "vendor_data_offset SCE_DYNLIBDATA c whole =
     out_bind (program_headers c) (\<lambda>headers.
       case find (\<lambda>(i, ph). p_type ph = SCE_DYNLIBDATA) (enumerate 0 headers) of
         None \<Rightarrow> Ok None
       | Some (index, ph) \<Rightarrow>
           out_bind
             (case c_wrapper c of
                Some wrapper \<Rightarrow>
                  out_bind (wrapper_segments wrapper whole) (\<lambda>segs.
                    Ok (map_option (\<lambda>seg. fst (segment_range seg)) (serving index segs)))
              | None \<Rightarrow> Ok (Some (p_offset ph)))
             (\<lambda>found. Ok (case found of
                 None \<Rightarrow> None
               | Some at \<Rightarrow> if at \<le> length whole then Some at else None)))"

text \<open>A number of bytes from a position that was found, when the file has them.\<close>

definition stretch :: "byte list \<Rightarrow> nat option \<Rightarrow> nat \<Rightarrow> byte list option" where
  "stretch whole found n =
     (case found of
        None \<Rightarrow> None
      | Some at \<Rightarrow> (case checked_add at n of None \<Rightarrow> None | Some stop \<Rightarrow> get_range whole at stop))"

definition proc_param_bytes ::
  "nat \<Rightarrow> Container \<Rightarrow> byte list \<Rightarrow> (ElfError, byte list option) outcome" where
  "proc_param_bytes SCE_PROCPARAM c whole =
     out_bind (program_headers c) (\<lambda>headers.
       case find (\<lambda>ph. p_type ph = SCE_PROCPARAM) headers of
         None \<Rightarrow> Ok None
       | Some ph \<Rightarrow>
           out_bind
             (if c_wrapper c \<noteq> None then vaddr_to_offset c whole (p_vaddr ph)
              else Ok (Some (p_offset ph)))
             (\<lambda>found. Ok (stretch whole found (p_filesz ph))))"

section \<open>Parsed files\<close>

text \<open>A slice never holds more than \<open>isize::MAX\<close> bytes.\<close>

definition ISIZE_MAX :: nat where "ISIZE_MAX = 2 ^ 63 - 1"

definition parsed :: "byte list \<Rightarrow> Container \<Rightarrow> bool" where
  "parsed whole c \<longleftrightarrow> container_parse whole = Ok c \<and> length whole \<le> ISIZE_MAX"

lemma ISIZE_MAX_less: "n \<le> ISIZE_MAX \<Longrightarrow> n < U64_MAX"
  by (simp add: ISIZE_MAX_def)

lemma parse_plain_OkD:
  assumes "parse_plain bs = Ok c"
  shows "c_bytes c = bs" "read_elf_header bs = Some (c_header c)" "c_wrapper c = None"
  using assms by (auto simp: parse_plain_def ok_iff split: if_splits)

lemma wrapper_parse_OkD:
  assumes "wrapper_parse bs = Ok w"
  shows "w_elf_offset w = HEADER_SIZE + segment_count w * SEGMENT_SIZE"
    "w_elf_offset w + 4 \<le> length bs" "segment_count w \<le> MAX_SEGMENTS"
  using assms by (auto simp: wrapper_parse_def segment_count_def Let_def split: if_splits option.splits)

lemma container_parse_cases:
  assumes "container_parse whole = Ok c"
  obtains (bare) "c_wrapper c = None" "parse_plain whole = Ok c"
  | (wrapped) w where "c_wrapper c = Some w" "wrapper_parse whole = Ok w"
      "c_bytes c = drop (w_elf_offset w) whole" "read_elf_header (c_bytes c) = Some (c_header c)"
proof (cases "is_either_generation whole")
  case False
  then show thesis using assms bare parse_plain_OkD(3) by (auto simp: container_parse_def)
next
  case True
  then obtain w p where w: "wrapper_parse whole = Ok w" "parse_plain (drop (w_elf_offset w) whole) = Ok p"
    "c = p\<lparr>c_wrapper := Some w\<rparr>"
    using assms by (auto simp: container_parse_def ok_iff)
  show thesis
    using parse_plain_OkD [OF w(2)] by (intro wrapped [of w]) (simp_all add: w)
qed

lemma parsed_header:
  assumes "parsed whole c"
  shows "read_elf_header (c_bytes c) = Some (c_header c)" "length (c_bytes c) \<le> length whole"
    "length (c_bytes c) \<le> ISIZE_MAX"
proof -
  have p: "container_parse whole = Ok c" "length whole \<le> ISIZE_MAX" using assms by (auto simp: parsed_def)
  show "read_elf_header (c_bytes c) = Some (c_header c)" "length (c_bytes c) \<le> length whole"
    using p(1) by (cases rule: container_parse_cases; auto dest: parse_plain_OkD)+
  then show "length (c_bytes c) \<le> ISIZE_MAX" using p(2) by simp
qed

lemma read_elf_header_counts:
  assumes "read_elf_header bs = Some h"
  shows "e_phnum h < 65536" "e_phentsize h < 65536" "e_shnum h < 65536" "e_shentsize h < 65536"
    "e_phoff h \<le> U64_MAX" "e_shoff h \<le> U64_MAX"
proof -
  have h: "e_phnum h = field bs 56 2" "e_phentsize h = field bs 54 2" "e_shnum h = field bs 60 2"
    "e_shentsize h = field bs 58 2" "e_phoff h = field bs 32 8" "e_shoff h = field bs 40 8"
    using assms by (auto simp: read_elf_header_def split: if_splits)
  show "e_phnum h < 65536" "e_phentsize h < 65536" "e_shnum h < 65536" "e_shentsize h < 65536"
    "e_phoff h \<le> U64_MAX" "e_shoff h \<le> U64_MAX"
    unfolding h using field_less [of bs _ 2] field_less [of bs _ 8]
    by (simp_all add: less_Suc_eq_le [symmetric] del: not_less)
qed

lemma program_headers_no_panic:
  assumes "parsed whole c"
  shows "no_panic (program_headers c)"
proof -
  let ?h = "c_header c" let ?n = "length (c_bytes c)"
  have small: "e_phnum ?h * e_phentsize ?h < U64_MAX"
  proof -
    have "e_phnum ?h * e_phentsize ?h \<le> 65536 * 65536"
      using read_elf_header_counts [OF parsed_header(1) [OF assms]] by (intro mult_le_mono) auto
    then show ?thesis by simp
  qed
  have "no_panic (header_at c (e_phoff ?h) (e_phentsize ?h) i)"
    if "i < e_phnum ?h" "\<not> saturating_add (e_phoff ?h) (saturating_mul (e_phnum ?h) (e_phentsize ?h)) > ?n" for i
  proof -
    have "i * e_phentsize ?h \<le> e_phnum ?h * e_phentsize ?h" using that(1) by simp
    moreover have "e_phoff ?h + e_phnum ?h * e_phentsize ?h \<le> ?n"
      using that(2) small ISIZE_MAX_less [OF parsed_header(3) [OF assms]]
      by (auto simp: saturating_add_def saturating_mul_def min_def split: if_splits)
    ultimately have "e_phoff ?h + i * e_phentsize ?h \<le> ?n" by linarith
    then show ?thesis by (auto simp: header_at_def Let_def intro!: no_panic_bind)
  qed
  then show ?thesis by (auto simp: program_headers_def Let_def intro!: no_panic_out_map)
qed

lemma segments_total:
  assumes "wrapper_parse whole = Ok w"
  obtains segs where "wrapper_segments w whole = Ok segs"
proof -
  have "\<exists>seg. segment_at whole i = Ok seg" if "i < segment_count w" for i
  proof -
    have "HEADER_SIZE + Suc i * SEGMENT_SIZE \<le> w_elf_offset w"
      unfolding wrapper_parse_OkD(1) [OF assms] using that by (intro add_le_mono mult_le_mono) auto
    then have "HEADER_SIZE + i * SEGMENT_SIZE + SEGMENT_SIZE \<le> length whole"
      using wrapper_parse_OkD(2) [OF assms] by simp
    then show ?thesis by (auto simp: segment_at_def ok_iff Let_def read_wrapper_segment_def)
  qed
  then have "\<exists>segs. list_all2 (\<lambda>i seg. segment_at whole i = Ok seg) [0..<segment_count w] segs"
    unfolding list_all2_conv_all_nth
    by (intro exI [of _ "map (\<lambda>i. SOME seg. segment_at whole i = Ok seg) [0..<segment_count w]"])
      (auto intro: someI_ex)
  then show thesis using that by (auto simp: wrapper_segments_def out_map_Ok)
qed

lemma data_for_no_panic:
  assumes "wrapper_parse whole = Ok w"
  shows "no_panic (data_for_program_header w whole i)"
proof -
  obtain segs where "wrapper_segments w whole = Ok segs" using segments_total [OF assms] .
  then show ?thesis
    by (auto simp: data_for_program_header_def Let_def split: option.splits prod.splits)
qed

lemma segment_range_order: "segment_range seg = (a, b) \<Longrightarrow> a \<le> U64_MAX \<Longrightarrow> a \<le> b"
  by (auto simp: segment_range_def saturating_add_def)

text \<open>What a descriptor finds: its own bytes of the file.\<close>

lemma data_for_SomeD:
  assumes "data_for_program_header w whole i = Ok (Some d)" "length whole \<le> ISIZE_MAX"
  obtains segs seg where "wrapper_segments w whole = Ok segs" "serving i segs = Some seg"
    "d = take (ws_stored_size seg) (drop (ws_offset seg) whole)"
    "ws_offset seg + ws_stored_size seg \<le> length whole"
proof -
  obtain segs seg where s: "wrapper_segments w whole = Ok segs" "serving i segs = Some seg"
    and le: "saturating_add (ws_offset seg) (ws_stored_size seg) \<le> length whole"
    and d: "d = take (saturating_add (ws_offset seg) (ws_stored_size seg) - ws_offset seg) (drop (ws_offset seg) whole)"
    using assms(1)
    by (auto simp: data_for_program_header_def ok_iff segment_range_def Let_def split: option.splits if_splits)
  have "saturating_add (ws_offset seg) (ws_stored_size seg) = ws_offset seg + ws_stored_size seg"
    using le ISIZE_MAX_less [OF assms(2)] by (auto simp: saturating_add_def min_def split: if_splits)
  with s le d that show thesis by simp
qed

section \<open>Addresses\<close>

lemma find_map_None: "find_map f xs = None \<longleftrightarrow> (\<forall>i < length xs. f (xs ! i) = None)"
  by (induction xs) (auto simp: nth_Cons less_Suc_eq_0_disj split: option.splits nat.splits)

lemma find_map_Some:
  assumes "find_map f xs = Some y"
  shows "\<exists>i < length xs. f (xs ! i) = Some y \<and> (\<forall>j < i. f (xs ! j) = None)"
  using assms
proof (induction xs)
  case Nil
  then show ?case by simp
next
  case (Cons a xs)
  show ?case
  proof (cases "f a")
    case (Some z)
    then show ?thesis using Cons.prems by (intro exI [of _ 0]) auto
  next
    case None
    then obtain i where "i < length xs" "f (xs ! i) = Some y" "\<forall>j < i. f (xs ! j) = None"
      using Cons by auto
    then show ?thesis using None
      by (intro exI [of _ "Suc i"]) (auto simp: less_Suc_eq_0_disj)
  qed
qed

lemma find_map_filter: "find_map f (filter P xs) = find_map (\<lambda>x. if P x then f x else None) xs"
  by (induction xs) (auto split: option.splits)

text \<open>Where a header's data has an address.\<close>

definition place_of ::
  "Container \<Rightarrow> byte list \<Rightarrow> Elf64ProgramHeader list \<Rightarrow> u64 \<Rightarrow> nat \<Rightarrow> nat \<Rightarrow> bool" where
  "place_of c whole headers vaddr i at \<longleftrightarrow>
     i < length headers \<and> covers vaddr (headers ! i) \<and> at < length whole \<and>
     (case c_wrapper c of
        None \<Rightarrow> at = p_offset (headers ! i) + (vaddr - p_vaddr (headers ! i))
      | Some w \<Rightarrow> (\<exists>start d. data_for_program_header w whole i = Ok (Some d) \<and>
          d = take (length d) (drop start whole) \<and> vaddr - p_vaddr (headers ! i) < length d \<and>
          at = start + (vaddr - p_vaddr (headers ! i))))"

text \<open>Which header answers first: the earliest, and in a bare file the loaded ones before the rest.\<close>

definition prefers :: "Container \<Rightarrow> Elf64ProgramHeader list \<Rightarrow> nat \<Rightarrow> nat \<Rightarrow> bool" where
  "prefers c headers i j \<longleftrightarrow>
     (if c_wrapper c = None \<and> (p_type (headers ! i) = PT_LOAD) \<noteq> (p_type (headers ! j) = PT_LOAD)
      then p_type (headers ! i) = PT_LOAD else i \<le> j)"

lemma covering_offset_Some: "covering_offset whole vaddr ph = Some at \<longleftrightarrow>
    covers vaddr ph \<and> at = p_offset ph + (vaddr - p_vaddr ph) \<and> at < length whole \<and> at \<le> U64_MAX"
  by (auto simp: covering_offset_def split: option.splits if_splits)

lemma bare_place:
  assumes "c_wrapper c = None" "length whole \<le> ISIZE_MAX" "i < length headers"
  shows "place_of c whole headers vaddr i at \<longleftrightarrow> covering_offset whole vaddr (headers ! i) = Some at"
  using assms ISIZE_MAX_less [OF assms(2)] by (auto simp: place_of_def covering_offset_Some)

lemma bare_vaddr_to_offset_exact:
  assumes bare: "c_wrapper c = None" and len: "length whole \<le> ISIZE_MAX"
    and h: "program_headers c = Ok headers" and r: "bare_vaddr_to_offset c whole vaddr = Ok r"
  shows "case r of
      Some at \<Rightarrow> \<exists>i. place_of c whole headers vaddr i at \<and>
        (\<forall>j at'. place_of c whole headers vaddr j at' \<longrightarrow> prefers c headers i j)
    | None \<Rightarrow> \<forall>i at. \<not> place_of c whole headers vaddr i at"
proof -
  let ?f = "covering_offset whole vaddr" let ?load = "\<lambda>ph. if p_type ph = PT_LOAD then ?f ph else None"
  have place: "place_of c whole headers vaddr j at \<longleftrightarrow> j < length headers \<and> ?f (headers ! j) = Some at" for j at
    using bare_place [OF bare len, of j headers vaddr at] by (auto simp: place_of_def)
  have r': "r = (case find_map ?load headers of Some at \<Rightarrow> Some at | None \<Rightarrow> find_map ?f headers)"
    using r by (auto simp: bare_vaddr_to_offset_def h find_map_filter split: option.splits)
  show ?thesis
  proof (cases "find_map ?load headers")
    case (Some at)
    obtain i where i: "i < length headers" "?load (headers ! i) = Some at" "\<forall>j < i. ?load (headers ! j) = None"
      using find_map_Some [OF Some] by blast
    then have "place_of c whole headers vaddr i at" "p_type (headers ! i) = PT_LOAD"
      by (auto simp: place split: if_splits)
    moreover have "prefers c headers i j" if j: "place_of c whole headers vaddr j at'" for j at'
    proof -
      have "i \<le> j" if "p_type (headers ! j) = PT_LOAD"
      proof (rule ccontr)
        assume "\<not> i \<le> j"
        then have "?load (headers ! j) = None" using i(3) by (simp only: not_le)
        then show False using that j by (simp add: place)
      qed
      then show ?thesis using calculation(2) bare by (simp add: prefers_def)
    qed
    ultimately show ?thesis unfolding r' Some by auto
  next
    case None
    then have none: "\<forall>j < length headers. p_type (headers ! j) = PT_LOAD \<longrightarrow> ?f (headers ! j) = None"
      by (auto simp: find_map_None split: if_splits)
    show ?thesis
    proof (cases "find_map ?f headers")
      case (Some at)
      obtain i where i: "i < length headers" "?f (headers ! i) = Some at" "\<forall>j < i. ?f (headers ! j) = None"
        using find_map_Some [OF Some] by blast
      have "prefers c headers i j" if "place_of c whole headers vaddr j at'" for j at'
      proof -
        have "p_type (headers ! i) \<noteq> PT_LOAD" "p_type (headers ! j) \<noteq> PT_LOAD" "i \<le> j"
          using that i none by (auto simp: place not_le [symmetric])
        then show ?thesis by (simp add: prefers_def)
      qed
      then show ?thesis unfolding r' None Some using i by (auto simp: place)
    next
      case None
      then have "r = None" using r' \<open>find_map ?load headers = None\<close> by simp
      moreover have "\<forall>i at. \<not> place_of c whole headers vaddr i at"
        using None by (simp add: place find_map_None)
      ultimately show ?thesis by simp
    qed
  qed
qed

lemma wrapped_offset_eq:
  "wrapped_offset w whole vaddr headers phs =
     (if \<exists>ph \<in> set phs. covers vaddr ph then backed_offset w whole vaddr headers else Ok None)"
proof (induction phs)
  case Nil
  then show ?case by simp
next
  case (Cons ph phs)
  then show ?case
    by (cases "backed_offset w whole vaddr headers") (auto split: option.splits)
qed

lemma backed_offset_skip:
  "\<forall>x \<in> set hs. \<not> covers vaddr (snd x) \<Longrightarrow> backed_offset w whole vaddr hs = Ok None"
  by (induction hs) auto

lemma vaddr_to_offset_wrapped:
  assumes "c_wrapper c = Some w" "program_headers c = Ok headers"
  shows "vaddr_to_offset c whole vaddr = backed_offset w whole vaddr (enumerate 0 headers)"
proof -
  have "backed_offset w whole vaddr (enumerate 0 headers) = Ok None" if "\<forall>ph \<in> set headers. \<not> covers vaddr ph"
    using that by (intro backed_offset_skip) (auto simp: in_set_enumerate_eq)
  then show ?thesis using assms by (auto simp: vaddr_to_offset_def wrapped_offset_eq)
qed

text \<open>Whether a header's data has the address, in a wrapped file.\<close>

definition backs :: "Wrapper \<Rightarrow> byte list \<Rightarrow> u64 \<Rightarrow> nat \<times> Elf64ProgramHeader \<Rightarrow> bool" where
  "backs w whole vaddr iph \<longleftrightarrow> covers vaddr (snd iph) \<and>
     (\<exists>d. data_for_program_header w whole (fst iph) = Ok (Some d) \<and> vaddr - p_vaddr (snd iph) < length d)"

lemma backed_offset_step:
  assumes w: "wrapper_parse whole = Ok w" and len: "length whole \<le> ISIZE_MAX"
    and b: "backs w whole vaddr (i, ph)"
  shows "\<exists>start d. data_for_program_header w whole i = Ok (Some d) \<and>
      d = take (length d) (drop start whole) \<and> vaddr - p_vaddr ph < length d \<and>
      start + (vaddr - p_vaddr ph) < length whole \<and>
      backed_offset w whole vaddr ((i, ph) # rest) = Ok (Some (start + (vaddr - p_vaddr ph)))"
proof -
  let ?k = "vaddr - p_vaddr ph"
  obtain d where d: "covers vaddr ph" "data_for_program_header w whole i = Ok (Some d)" "?k < length d"
    using b by (auto simp: backs_def)
  obtain segs seg where s: "wrapper_segments w whole = Ok segs" "serving i segs = Some seg"
    "d = take (ws_stored_size seg) (drop (ws_offset seg) whole)"
    "ws_offset seg + ws_stored_size seg \<le> length whole"
    using data_for_SomeD [OF d(2) len] by blast
  have l: "length d = ws_stored_size seg" using s(3,4) by simp
  then have k: "ws_offset seg + ?k < length whole" using d(3) s(4) by linarith
  then have "ws_offset seg + ?k \<le> U64_MAX" using ISIZE_MAX_less [OF len] by linarith
  then have "backed_offset w whole vaddr ((i, ph) # rest) = Ok (Some (ws_offset seg + ?k))"
    using d s(1,2) by (simp add: Let_def segment_range_def plain_add_def)
  then show ?thesis using d k l s(3) by (intro exI [of _ "ws_offset seg"] exI [of _ d]) simp
qed

lemma backed_offset_next:
  assumes "\<not> backs w whole vaddr (i, ph)"
    "backed_offset w whole vaddr ((i, ph) # rest) = Ok r"
  shows "backed_offset w whole vaddr rest = Ok r"
  using assms by (auto simp: backs_def ok_iff Let_def split: if_splits option.splits)

lemma backed_offset_exact:
  assumes w: "wrapper_parse whole = Ok w" and len: "length whole \<le> ISIZE_MAX"
    and r: "backed_offset w whole vaddr hs = Ok r"
  shows "case r of
      Some at \<Rightarrow> \<exists>n i ph start d. n < length hs \<and> hs ! n = (i, ph) \<and> covers vaddr ph \<and>
        data_for_program_header w whole i = Ok (Some d) \<and> d = take (length d) (drop start whole) \<and>
        vaddr - p_vaddr ph < length d \<and> at = start + (vaddr - p_vaddr ph) \<and> at < length whole \<and>
        (\<forall>m < n. \<not> backs w whole vaddr (hs ! m))
    | None \<Rightarrow> \<forall>x \<in> set hs. \<not> backs w whole vaddr x"
  using r
proof (induction hs)
  case Nil
  then show ?case by simp
next
  case (Cons x hs)
  obtain i ph where x: "x = (i, ph)" by fastforce
  show ?case
  proof (cases "backs w whole vaddr x")
    case True
    then obtain start d where d: "data_for_program_header w whole i = Ok (Some d)"
      "d = take (length d) (drop start whole)" "vaddr - p_vaddr ph < length d"
      "start + (vaddr - p_vaddr ph) < length whole" "r = Some (start + (vaddr - p_vaddr ph))"
      using backed_offset_step [OF w len, of vaddr i ph hs] Cons.prems x by auto
    moreover have "covers vaddr ph" using True x by (simp add: backs_def)
    ultimately show ?thesis using x
      by (simp, intro exI [of _ 0] exI [of _ i] exI [of _ ph] exI [of _ start] exI [of _ d]) simp
  next
    case False
    then have "backed_offset w whole vaddr hs = Ok r"
      using backed_offset_next [of w whole vaddr i ph hs r] Cons.prems x by blast
    note IH = Cons.IH [OF this]
    show ?thesis
    proof (cases r)
      case None
      then show ?thesis using IH False by simp
    next
      case (Some at)
      then obtain n i' ph' start d where n: "n < length hs" "hs ! n = (i', ph')" "covers vaddr ph'"
        "data_for_program_header w whole i' = Ok (Some d)" "d = take (length d) (drop start whole)"
        "vaddr - p_vaddr ph' < length d" "at = start + (vaddr - p_vaddr ph')" "at < length whole"
        "\<forall>m < n. \<not> backs w whole vaddr (hs ! m)"
        using IH by auto
      have "\<forall>m < Suc n. \<not> backs w whole vaddr ((x # hs) ! m)"
        using n(9) False by (auto simp: less_Suc_eq_0_disj)
      then show ?thesis
        using n(1-8) Some
        by (simp only: option.case, intro exI [of _ "Suc n"] exI [of _ i'] exI [of _ ph'] exI [of _ start] exI [of _ d]) simp
    qed
  qed
qed

lemma wrapped_place:
  assumes "c_wrapper c = Some w" "place_of c whole headers vaddr i at"
  shows "i < length headers" "backs w whole vaddr (enumerate 0 headers ! i)"
  using assms by (auto simp: place_of_def backs_def nth_enumerate_eq)

lemma wrapped_vaddr_to_offset_exact:
  assumes w: "c_wrapper c = Some w" "wrapper_parse whole = Ok w" and len: "length whole \<le> ISIZE_MAX"
    and h: "program_headers c = Ok headers" and r: "vaddr_to_offset c whole vaddr = Ok r"
  shows "case r of
      Some at \<Rightarrow> \<exists>i. place_of c whole headers vaddr i at \<and>
        (\<forall>j at'. place_of c whole headers vaddr j at' \<longrightarrow> prefers c headers i j)
    | None \<Rightarrow> \<forall>i at. \<not> place_of c whole headers vaddr i at"
proof -
  let ?hs = "enumerate 0 headers"
  have "backed_offset w whole vaddr ?hs = Ok r"
    using r vaddr_to_offset_wrapped [OF w(1) h] by simp
  note exact = backed_offset_exact [OF w(2) len this]
  show ?thesis
  proof (cases r)
    case None
    then have "\<forall>x \<in> set ?hs. \<not> backs w whole vaddr x" using exact by simp
    moreover have "?hs ! i \<in> set ?hs" if "i < length headers" for i using that by (intro nth_mem) simp
    ultimately have "\<not> place_of c whole headers vaddr i at" for i at
      using wrapped_place [OF w(1), of whole headers vaddr i at] by blast
    then show ?thesis using None by simp
  next
    case (Some at)
    then obtain i ph start d where i: "i < length headers" "ph = headers ! i" "covers vaddr ph"
      "data_for_program_header w whole i = Ok (Some d)" "d = take (length d) (drop start whole)"
      "vaddr - p_vaddr ph < length d" "at = start + (vaddr - p_vaddr ph)" "at < length whole"
      "\<forall>m < i. \<not> backs w whole vaddr (?hs ! m)"
      using exact by (auto simp: nth_enumerate_eq)
    have "place_of c whole headers vaddr i at"
      unfolding place_of_def using i(1-8) w(1) by auto
    moreover have "prefers c headers i j" if "place_of c whole headers vaddr j at'" for j at'
      using wrapped_place [OF w(1) that] i(9) w(1) by (auto simp: prefers_def not_le [symmetric])
    ultimately show ?thesis using Some by auto
  qed
qed

section \<open>Nothing panics\<close>

lemma backed_offset_no_panic:
  assumes w: "wrapper_parse whole = Ok w" and len: "length whole \<le> ISIZE_MAX"
  shows "no_panic (backed_offset w whole vaddr hs)"
proof (induction hs)
  case Nil
  then show ?case by simp
next
  case (Cons x hs)
  obtain i ph where x: "x = (i, ph)" by fastforce
  show ?case
  proof (cases "backs w whole vaddr x")
    case True
    then show ?thesis using backed_offset_step [OF w len, of vaddr i ph hs] x by auto
  next
    case False
    then show ?thesis
      using Cons.IH data_for_no_panic [OF w, of i]
      by (auto simp: x backs_def Let_def intro!: no_panic_bind split: option.splits)
  qed
qed

lemma vaddr_to_offset_no_panic:
  assumes "parsed whole c"
  shows "no_panic (vaddr_to_offset c whole vaddr)"
proof -
  have p: "container_parse whole = Ok c" "length whole \<le> ISIZE_MAX" using assms by (auto simp: parsed_def)
  have h: "no_panic (program_headers c)" by (rule program_headers_no_panic [OF assms])
  show ?thesis
    using p(1)
  proof (cases rule: container_parse_cases)
    case bare
    then show ?thesis using h
      by (auto simp: vaddr_to_offset_def bare_vaddr_to_offset_def intro!: no_panic_bind split: option.splits)
  next
    case (wrapped w)
    then show ?thesis
      using h backed_offset_no_panic [OF wrapped(2) p(2)]
      by (auto simp: vaddr_to_offset_def wrapped_offset_eq intro!: no_panic_bind)
  qed
qed

lemma segment_data_no_panic:
  assumes "parsed whole c"
  shows "no_panic (segment_data c whole i)"
proof -
  have "container_parse whole = Ok c" using assms by (simp add: parsed_def)
  then show ?thesis
  proof (cases rule: container_parse_cases)
    case bare
    then show ?thesis using program_headers_no_panic [OF assms]
      by (auto simp: segment_data_def Let_def intro!: no_panic_bind)
  next
    case (wrapped w)
    then show ?thesis using data_for_no_panic [OF wrapped(2)] by (simp add: segment_data_def)
  qed
qed

lemma vendor_data_offset_no_panic:
  assumes "parsed whole c"
  shows "no_panic (vendor_data_offset ty c whole)"
proof -
  have "container_parse whole = Ok c" using assms by (simp add: parsed_def)
  moreover have "no_panic (wrapper_segments w whole)" if "wrapper_parse whole = Ok w" for w
    using segments_total [OF that] by (metis no_panic.simps(1))
  ultimately show ?thesis
    using program_headers_no_panic [OF assms]
    by (cases rule: container_parse_cases)
      (auto simp: vendor_data_offset_def intro!: no_panic_bind split: option.splits)
qed

text \<open>A stretch of the file.\<close>

definition in_file :: "byte list \<Rightarrow> byte list \<Rightarrow> bool" where
  "in_file whole d \<longleftrightarrow> (\<exists>start. start + length d \<le> length whole \<and> d = take (length d) (drop start whole))"

lemma in_file_take: "start + n \<le> length whole \<Longrightarrow> in_file whole (take n (drop start whole))"
  by (auto simp: in_file_def intro!: exI [of _ start])

lemma in_file_range: "get_range whole a b = Some d \<Longrightarrow> in_file whole d"
  by (auto simp: get_range_Some intro!: in_file_take)

lemma in_file_stretch: "stretch whole found n = Some d \<Longrightarrow> in_file whole d"
  by (auto simp: stretch_def intro: in_file_range split: option.splits)

lemma segment_data_in_file:
  assumes "parsed whole c" "segment_data c whole i = Ok (Some d)"
  shows "in_file whole d"
proof -
  have p: "container_parse whole = Ok c" "length whole \<le> ISIZE_MAX" using assms(1) by (auto simp: parsed_def)
  show ?thesis
  proof (cases "c_wrapper c")
    case None
    then show ?thesis
      using assms(2)
      by (auto simp: segment_data_def ok_iff Let_def intro: in_file_range split: if_splits)
  next
    case (Some w)
    then have "data_for_program_header w whole i = Ok (Some d)" using assms(2) by (simp add: segment_data_def)
    then show ?thesis by (rule data_for_SomeD [OF _ p(2)]) (simp add: in_file_take)
  qed
qed

end
