(* ===== verification/Elf_Symbols.thy ===== *)
theory Elf_Symbols
  imports Elf_Container "HOL-Library.Code_Target_Nat"
begin

text \<open>
  The dynamic table of a module and what it leads to (\<^verbatim>\<open>orbistoun-elf/src/dynamic.rs\<close>,
  \<^verbatim>\<open>reloc.rs\<close>, \<^verbatim>\<open>procparam.rs\<close>, \<^verbatim>\<open>sections.rs\<close> and the second half of \<^verbatim>\<open>lib.rs\<close>): the tags, the symbol,
  string and hash tables they locate, the symbols a module imports and exports, the libraries it
  names, its relocation entries, its process parameters and its named globals. The encoding of
  symbol names (\<^verbatim>\<open>orbistoun-nid\<close>) rests on another package, whose decoder and hash are arguments.

  The lemmas show that the tags are read as the last of their kind before the table's end and the
  vendor's set wins exactly when it is complete; that every named row of the symbol table is an
  import or an export and never both; that the size of a GNU hash table is found whenever the table
  is well formed; and, as an error path, that a file can make the symbol walk overflow.
\<close>

section \<open>Symbol names\<close>

text \<open>A module names its symbols by a hash, held here with its bytes in the reverse of the order the
  format's package holds them in.\<close>

definition swap_bytes :: "u64 \<Rightarrow> u64" where
  "swap_bytes v = le_nat (rev (to_le 8 v))"

record EncodedImport =
  enc_nid :: u64
  enc_library_id :: nat
  enc_module_id :: nat

text \<open>The package that owns the format: its decoder of symbol names and its hash.\<close>

record nid_package =
  selfish_decode :: "byte list \<Rightarrow> (u64 \<times> nat \<times> nat) option"
  selfish_hash :: "byte list \<Rightarrow> byte list \<Rightarrow> u64"

definition decode_symbol_name :: "nid_package \<Rightarrow> byte list \<Rightarrow> EncodedImport option" where
  "decode_symbol_name pkg name =
     (case selfish_decode pkg name of
        None \<Rightarrow> None
      | Some (nid, library, module) \<Rightarrow>
          Some \<lparr>enc_nid = swap_bytes nid, enc_library_id = library, enc_module_id = module\<rparr>)"

definition nid_hash :: "nid_package \<Rightarrow> byte list \<Rightarrow> byte list \<Rightarrow> u64" where
  "nid_hash pkg suffix name = swap_bytes (selfish_hash pkg name suffix)"

section \<open>The dynamic table\<close>

definition SYMBOL_SIZE :: nat where "SYMBOL_SIZE = 24"
definition DYNAMIC_ENTRY_SIZE :: nat where "DYNAMIC_ENTRY_SIZE = 16"
definition MAX_SYMBOLS :: nat where "MAX_SYMBOLS = 1000000"

abbreviation (input) DT_NEEDED :: u64 where "DT_NEEDED \<equiv> 1"
abbreviation (input) DT_HASH :: u64 where "DT_HASH \<equiv> 4"
abbreviation (input) DT_GNU_HASH :: u64 where "DT_GNU_HASH \<equiv> 0x6ffffef5"
abbreviation (input) DT_STRTAB :: u64 where "DT_STRTAB \<equiv> 5"
abbreviation (input) DT_SYMTAB :: u64 where "DT_SYMTAB \<equiv> 6"
abbreviation (input) DT_STRSZ :: u64 where "DT_STRSZ \<equiv> 10"
abbreviation (input) DT_SYMENT :: u64 where "DT_SYMENT \<equiv> 11"
abbreviation (input) DT_RELA :: u64 where "DT_RELA \<equiv> 7"
abbreviation (input) DT_RELASZ :: u64 where "DT_RELASZ \<equiv> 8"
abbreviation (input) DT_JMPREL :: u64 where "DT_JMPREL \<equiv> 23"
abbreviation (input) DT_PLTRELSZ :: u64 where "DT_PLTRELSZ \<equiv> 2"
abbreviation (input) DT_INIT :: u64 where "DT_INIT \<equiv> 12"
abbreviation (input) DT_INIT_ARRAY :: u64 where "DT_INIT_ARRAY \<equiv> 25"
abbreviation (input) DT_INIT_ARRAYSZ :: u64 where "DT_INIT_ARRAYSZ \<equiv> 27"
abbreviation (input) DT_PREINIT_ARRAY :: u64 where "DT_PREINIT_ARRAY \<equiv> 32"
abbreviation (input) DT_PREINIT_ARRAYSZ :: u64 where "DT_PREINIT_ARRAYSZ \<equiv> 33"
abbreviation (input) SCE_HASH :: u64 where "SCE_HASH \<equiv> 0x61000025"
abbreviation (input) SCE_STRTAB :: u64 where "SCE_STRTAB \<equiv> 0x61000035"
abbreviation (input) SCE_STRSZ :: u64 where "SCE_STRSZ \<equiv> 0x61000037"
abbreviation (input) SCE_SYMTAB :: u64 where "SCE_SYMTAB \<equiv> 0x61000039"
abbreviation (input) SCE_SYMENT :: u64 where "SCE_SYMENT \<equiv> 0x6100003B"
abbreviation (input) SCE_RELA :: u64 where "SCE_RELA \<equiv> 0x6100002F"
abbreviation (input) SCE_RELASZ :: u64 where "SCE_RELASZ \<equiv> 0x61000031"
abbreviation (input) SCE_JMPREL :: u64 where "SCE_JMPREL \<equiv> 0x61000029"
abbreviation (input) SCE_PLTRELSZ :: u64 where "SCE_PLTRELSZ \<equiv> 0x6100002D"
abbreviation (input) SCE_IMPORT_LIB :: u64 where "SCE_IMPORT_LIB \<equiv> 0x61000049"
abbreviation (input) SCE_IMPORT_MODULE :: u64 where "SCE_IMPORT_MODULE \<equiv> 0x61000045"

definition split_table_entry :: "u64 \<Rightarrow> nat \<times> nat" where
  "split_table_entry value = (take_bit 16 (drop_bit 48 value), value AND 0xFFFFFFFF)"

record DynamicInfo =
  di_strtab :: u64
  di_strsz :: u64
  di_symtab :: u64
  di_syment :: u64
  di_libraries :: "u64 list"
  di_modules :: "u64 list"
  di_hash :: u64
  di_gnu_hash :: u64
  di_needed :: "u64 list"
  di_rela :: u64
  di_relasz :: u64
  di_jmprel :: u64
  di_pltrelsz :: u64
  di_init :: u64
  di_init_array :: u64
  di_init_arraysz :: u64
  di_preinit_array :: u64
  di_preinit_arraysz :: u64
  di_vendor_tables :: bool

definition dynamic_default :: DynamicInfo where
  "dynamic_default = \<lparr>di_strtab = 0, di_strsz = 0, di_symtab = 0, di_syment = 0, di_libraries = [],
     di_modules = [], di_hash = 0, di_gnu_hash = 0, di_needed = [], di_rela = 0, di_relasz = 0,
     di_jmprel = 0, di_pltrelsz = 0, di_init = 0, di_init_array = 0, di_init_arraysz = 0,
     di_preinit_array = 0, di_preinit_arraysz = 0, di_vendor_tables = False\<rparr>"

text \<open>What the walk keeps: the standard set, the vendor's set, and the vendor's three tables apart,
  since an offset of zero is one of theirs.\<close>

record dynamic_scan =
  sc_info :: DynamicInfo
  sc_vendor :: DynamicInfo
  sc_strtab :: "u64 option"
  sc_symtab :: "u64 option"
  sc_hash :: "u64 option"

definition scan_default :: dynamic_scan where
  "scan_default = \<lparr>sc_info = dynamic_default, sc_vendor = dynamic_default,
     sc_strtab = None, sc_symtab = None, sc_hash = None\<rparr>"

abbreviation in_info :: "(DynamicInfo \<Rightarrow> DynamicInfo) \<Rightarrow> dynamic_scan \<Rightarrow> dynamic_scan" where
  "in_info f s \<equiv> s\<lparr>sc_info := f (sc_info s)\<rparr>"

abbreviation in_vendor :: "(DynamicInfo \<Rightarrow> DynamicInfo) \<Rightarrow> dynamic_scan \<Rightarrow> dynamic_scan" where
  "in_vendor f s \<equiv> s\<lparr>sc_vendor := f (sc_vendor s)\<rparr>"

definition dynamic_entry :: "u64 \<Rightarrow> u64 \<Rightarrow> dynamic_scan \<Rightarrow> dynamic_scan" where
  "dynamic_entry tag v s =
     (if tag = DT_NEEDED then in_info (\<lambda>i. i\<lparr>di_needed := di_needed i @ [v]\<rparr>) s
      else if tag = DT_STRTAB then in_info (\<lambda>i. i\<lparr>di_strtab := v\<rparr>) s
      else if tag = DT_STRSZ then in_info (\<lambda>i. i\<lparr>di_strsz := v\<rparr>) s
      else if tag = DT_SYMTAB then in_info (\<lambda>i. i\<lparr>di_symtab := v\<rparr>) s
      else if tag = DT_SYMENT then in_info (\<lambda>i. i\<lparr>di_syment := v\<rparr>) s
      else if tag = DT_HASH then in_info (\<lambda>i. i\<lparr>di_hash := v\<rparr>) s
      else if tag = DT_GNU_HASH then in_info (\<lambda>i. i\<lparr>di_gnu_hash := v\<rparr>) s
      else if tag = DT_RELA then in_info (\<lambda>i. i\<lparr>di_rela := v\<rparr>) s
      else if tag = DT_RELASZ then in_info (\<lambda>i. i\<lparr>di_relasz := v\<rparr>) s
      else if tag = DT_JMPREL then in_info (\<lambda>i. i\<lparr>di_jmprel := v\<rparr>) s
      else if tag = SCE_IMPORT_LIB then in_info (\<lambda>i. i\<lparr>di_libraries := di_libraries i @ [v]\<rparr>) s
      else if tag = SCE_IMPORT_MODULE then in_info (\<lambda>i. i\<lparr>di_modules := di_modules i @ [v]\<rparr>) s
      else if tag = DT_PLTRELSZ then in_info (\<lambda>i. i\<lparr>di_pltrelsz := v\<rparr>) s
      else if tag = DT_INIT then in_info (\<lambda>i. i\<lparr>di_init := v\<rparr>) s
      else if tag = DT_INIT_ARRAY then in_info (\<lambda>i. i\<lparr>di_init_array := v\<rparr>) s
      else if tag = DT_INIT_ARRAYSZ then in_info (\<lambda>i. i\<lparr>di_init_arraysz := v\<rparr>) s
      else if tag = DT_PREINIT_ARRAY then in_info (\<lambda>i. i\<lparr>di_preinit_array := v\<rparr>) s
      else if tag = DT_PREINIT_ARRAYSZ then in_info (\<lambda>i. i\<lparr>di_preinit_arraysz := v\<rparr>) s
      else if tag = SCE_HASH then s\<lparr>sc_hash := Some v\<rparr>
      else if tag = SCE_STRTAB then s\<lparr>sc_strtab := Some v\<rparr>
      else if tag = SCE_STRSZ then in_vendor (\<lambda>i. i\<lparr>di_strsz := v\<rparr>) s
      else if tag = SCE_SYMTAB then s\<lparr>sc_symtab := Some v\<rparr>
      else if tag = SCE_SYMENT then in_vendor (\<lambda>i. i\<lparr>di_syment := v\<rparr>) s
      else if tag = SCE_RELA then in_vendor (\<lambda>i. i\<lparr>di_rela := v\<rparr>) s
      else if tag = SCE_RELASZ then in_vendor (\<lambda>i. i\<lparr>di_relasz := v\<rparr>) s
      else if tag = SCE_JMPREL then in_vendor (\<lambda>i. i\<lparr>di_jmprel := v\<rparr>) s
      else if tag = SCE_PLTRELSZ then in_vendor (\<lambda>i. i\<lparr>di_pltrelsz := v\<rparr>) s
      else s)"

fun dynamic_scan_entries :: "byte list list \<Rightarrow> dynamic_scan \<Rightarrow> dynamic_scan" where
  "dynamic_scan_entries [] s = s"
| "dynamic_scan_entries (chunk # chunks) s =
     (let tag = field chunk 0 8
      in if tag = 0 then s else dynamic_scan_entries chunks (dynamic_entry tag (field chunk 8 8) s))"

definition dynamic_finish :: "dynamic_scan \<Rightarrow> DynamicInfo" where
  "dynamic_finish s =
     (case (sc_strtab s, sc_symtab s, sc_hash s) of
        (Some strtab, Some symtab, Some hash) \<Rightarrow>
          (sc_info s)\<lparr>di_strtab := strtab, di_strsz := di_strsz (sc_vendor s), di_symtab := symtab,
            di_syment := di_syment (sc_vendor s), di_hash := hash, di_rela := di_rela (sc_vendor s),
            di_relasz := di_relasz (sc_vendor s), di_jmprel := di_jmprel (sc_vendor s),
            di_pltrelsz := di_pltrelsz (sc_vendor s), di_vendor_tables := True\<rparr>
      | _ \<Rightarrow> sc_info s)"

definition dynamic_parse :: "byte list \<Rightarrow> DynamicInfo" where
  "dynamic_parse bs =
     dynamic_finish (dynamic_scan_entries (chunks_exact DYNAMIC_ENTRY_SIZE bs) scan_default)"

definition is_usable :: "DynamicInfo \<Rightarrow> bool" where
  "is_usable i \<longleftrightarrow> di_vendor_tables i \<or>
     di_strtab i \<noteq> 0 \<and> di_symtab i \<noteq> 0 \<and> (di_hash i \<noteq> 0 \<or> di_gnu_hash i \<noteq> 0)"

section \<open>Strings\<close>

text \<open>Which bytes are UTF-8, as the standard library tests them.\<close>

abbreviation cont :: "byte \<Rightarrow> bool" where "cont b \<equiv> 0x80 \<le> b \<and> b \<le> 0xBF"

fun utf8_valid :: "byte list \<Rightarrow> bool" where
  "utf8_valid [] = True"
| "utf8_valid (a # bs) =
     (if a < 0x80 then utf8_valid bs
      else if 0xC2 \<le> a \<and> a \<le> 0xDF
      then (case bs of b # r \<Rightarrow> cont b \<and> utf8_valid r | _ \<Rightarrow> False)
      else if 0xE0 \<le> a \<and> a \<le> 0xEF
      then (case bs of b # c # r \<Rightarrow>
              (if a = 0xE0 then 0xA0 \<le> b \<and> b \<le> 0xBF
               else if a = 0xED then 0x80 \<le> b \<and> b \<le> 0x9F else cont b) \<and> cont c \<and> utf8_valid r
            | _ \<Rightarrow> False)
      else if 0xF0 \<le> a \<and> a \<le> 0xF4
      then (case bs of b # c # d # r \<Rightarrow>
              (if a = 0xF0 then 0x90 \<le> b \<and> b \<le> 0xBF
               else if a = 0xF4 then 0x80 \<le> b \<and> b \<le> 0x8F else cont b) \<and> cont c \<and> cont d \<and> utf8_valid r
            | _ \<Rightarrow> False)
      else False)"

text \<open>The name at an offset of a string table, as its bytes.\<close>

definition table_cstr :: "byte list \<Rightarrow> nat \<Rightarrow> byte list option" where
  "table_cstr table offset =
     (case get_from table offset of
        None \<Rightarrow> None
      | Some rest \<Rightarrow>
          (let stop = (case position (\<lambda>b. b = 0) rest of Some n \<Rightarrow> n | None \<Rightarrow> length rest);
               name = take stop rest
           in if utf8_valid name then Some name else None))"

section \<open>The symbol table\<close>

datatype Kind = Function | Object | KindUnspecified

definition kind_from_info :: "byte \<Rightarrow> Kind" where
  "kind_from_info info =
     (if info AND 0xf = 1 then Object else if info AND 0xf = 2 then Function else KindUnspecified)"

datatype Binding = Local | Global | Weak | BindingUnspecified

definition binding_from_info :: "byte \<Rightarrow> Binding" where
  "binding_from_info info =
     (let b = drop_bit 4 info
      in if b = 0 then Local else if b = 1 then Global else if b = 2 then Weak else BindingUnspecified)"

datatype NameForm = Encoded nat nat | Plain

record RawImport =
  imp_symbol_index :: nat
  imp_nid :: u64
  imp_form :: NameForm
  imp_kind :: Kind
  imp_binding :: Binding
  imp_name :: "byte list"

record RawExport =
  exp_symbol_index :: nat
  exp_nid :: u64
  exp_form :: NameForm
  exp_kind :: Kind
  exp_name :: "byte list"
  exp_offset :: u64

definition import_library_id :: "RawImport \<Rightarrow> nat option" where
  "import_library_id i = (case imp_form i of Encoded library module \<Rightarrow> Some library | Plain \<Rightarrow> None)"

definition import_module_id :: "RawImport \<Rightarrow> nat option" where
  "import_module_id i = (case imp_form i of Encoded library module \<Rightarrow> Some module | Plain \<Rightarrow> None)"

definition U32_MAX :: nat where "U32_MAX = 2 ^ 32 - 1"

text \<open>What one row of the table gives the walk over imports, and the walk over exports.\<close>

definition name_nid :: "nid_package \<Rightarrow> byte list \<Rightarrow> byte list \<Rightarrow> u64 \<times> NameForm" where
  "name_nid pkg suffix name =
     (case decode_symbol_name pkg name of
        Some d \<Rightarrow> (enc_nid d, Encoded (enc_library_id d) (enc_module_id d))
      | None \<Rightarrow> (nid_hash pkg suffix name, Plain))"

definition import_row ::
  "nid_package \<Rightarrow> byte list \<Rightarrow> byte list \<Rightarrow> nat \<Rightarrow> byte list \<Rightarrow> RawImport option" where
  "import_row pkg suffix strings index entry =
     (let name_off = field entry 0 4; shndx = field entry 6 2
      in if shndx \<noteq> 0 \<or> name_off = 0 then None
         else case table_cstr strings name_off of
           None \<Rightarrow> None
         | Some name \<Rightarrow>
             (let (nid, form) = name_nid pkg suffix name
              in Some \<lparr>imp_symbol_index = min index U32_MAX, imp_nid = nid, imp_form = form,
                   imp_kind = kind_from_info (entry ! 4), imp_binding = binding_from_info (entry ! 4),
                   imp_name = name\<rparr>))"

definition export_row ::
  "nid_package \<Rightarrow> byte list \<Rightarrow> byte list \<Rightarrow> nat \<Rightarrow> byte list \<Rightarrow> RawExport option" where
  "export_row pkg suffix strings index entry =
     (let name_off = field entry 0 4; shndx = field entry 6 2
      in if shndx = 0 \<or> name_off = 0 then None
         else case table_cstr strings name_off of
           None \<Rightarrow> None
         | Some name \<Rightarrow>
             (let (nid, form) = name_nid pkg suffix name
              in Some \<lparr>exp_symbol_index = min index U32_MAX, exp_nid = nid, exp_form = form,
                   exp_kind = kind_from_info (entry ! 4), exp_name = name,
                   exp_offset = field entry 8 8\<rparr>))"

text \<open>The walk itself, which stops at the first row the table does not hold.\<close>

fun symbol_rows ::
  "(nat \<Rightarrow> byte list \<Rightarrow> 'r option) \<Rightarrow> byte list \<Rightarrow> nat \<Rightarrow> nat list \<Rightarrow> (ElfError, 'r list) outcome" where
  "symbol_rows row symbols stride [] = Ok []"
| "symbol_rows row symbols stride (index # indices) =
     (let at = saturating_mul index stride
      in out_bind (plain_add at SYMBOL_SIZE) (\<lambda>stop.
         case get_range symbols at stop of
           None \<Rightarrow> Ok []
         | Some entry \<Rightarrow>
             out_bind (symbol_rows row symbols stride indices) (\<lambda>out.
               Ok (case row index entry of None \<Rightarrow> out | Some r \<Rightarrow> r # out))))"

definition symbol_stride :: "nat \<Rightarrow> nat" where
  "symbol_stride syment = (if syment = 0 then SYMBOL_SIZE else syment)"

definition exports_from_symbols ::
  "nid_package \<Rightarrow> byte list \<Rightarrow> byte list \<Rightarrow> byte list \<Rightarrow> nat \<Rightarrow> nat \<Rightarrow> (ElfError, RawExport list) outcome" where
  "exports_from_symbols pkg suffix symbols strings count syment =
     (if count > MAX_SYMBOLS then Err (AbsurdSymbolCount count MAX_SYMBOLS)
      else symbol_rows (export_row pkg suffix strings) symbols (symbol_stride syment) [0..<count])"

definition imports_from_symbols ::
  "nid_package \<Rightarrow> byte list \<Rightarrow> byte list \<Rightarrow> byte list \<Rightarrow> nat \<Rightarrow> nat \<Rightarrow> (ElfError, RawImport list) outcome" where
  "imports_from_symbols pkg suffix symbols strings count syment =
     (if count > MAX_SYMBOLS then Err (AbsurdSymbolCount count MAX_SYMBOLS)
      else symbol_rows (import_row pkg suffix strings) symbols (symbol_stride syment) [0..<count])"

section \<open>The GNU hash table\<close>

definition table_word :: "byte list \<Rightarrow> nat \<Rightarrow> nat option" where
  "table_word table at = map_option le_nat (get_range table at (at + 4))"

definition gnu_truncated :: ElfError where
  "gnu_truncated = NoDynamicTable ''GNU hash table is truncated''"

fun highest_bucket :: "byte list \<Rightarrow> nat \<Rightarrow> nat list \<Rightarrow> nat \<Rightarrow> (ElfError, nat) outcome" where
  "highest_bucket table buckets_at [] highest = Ok highest"
| "highest_bucket table buckets_at (bucket # rest) highest =
     out_bind (ok_or gnu_truncated (table_word table (buckets_at + bucket * 4))) (\<lambda>value.
       highest_bucket table buckets_at rest (max highest value))"

function gnu_chain :: "byte list \<Rightarrow> nat \<Rightarrow> nat \<Rightarrow> nat \<Rightarrow> (ElfError, nat) outcome" where
  "gnu_chain table chain_at bias index =
     (case table_word table (chain_at + (index - bias) * 4) of
        None \<Rightarrow> Err gnu_truncated
      | Some entry \<Rightarrow>
          if odd entry then Ok (index + 1)
          else if index + 1 > U32_MAX then Err gnu_truncated
          else if index + 1 > MAX_SYMBOLS then Err (NoDynamicTable ''GNU hash chain has no end'')
          else gnu_chain table chain_at bias (index + 1))"
  by pat_completeness auto
termination
  by (relation "measure (\<lambda>(table, chain_at, bias, index). MAX_SYMBOLS - index)") auto

declare gnu_chain.simps [simp del]

definition symbol_count_from_gnu_hash :: "byte list \<Rightarrow> (ElfError, nat) outcome" where
  "symbol_count_from_gnu_hash table =
     out_bind (ok_or gnu_truncated (table_word table 0)) (\<lambda>buckets.
     out_bind (ok_or gnu_truncated (table_word table 4)) (\<lambda>bias.
     out_bind (ok_or gnu_truncated (table_word table 8)) (\<lambda>bloom_words.
       if buckets > MAX_SYMBOLS \<or> bloom_words > MAX_SYMBOLS
       then Err (NoDynamicTable ''GNU hash table declares an absurd size'')
       else let buckets_at = 16 + bloom_words * 8
       in out_bind (highest_bucket table buckets_at [0..<buckets] 0) (\<lambda>highest.
            if highest < bias then Ok bias
            else gnu_chain table (buckets_at + buckets * 4) bias highest))))"

section \<open>Locating the tables\<close>

text \<open>The dynamic table by file offset, inside the segment whose data holds it.\<close>

fun table_by_offset ::
  "Wrapper \<Rightarrow> byte list \<Rightarrow> u64 \<Rightarrow> nat \<Rightarrow> (nat \<times> Elf64ProgramHeader) list \<Rightarrow> (ElfError, byte list option) outcome" where
  "table_by_offset w whole off bytes [] = Ok None"
| "table_by_offset w whole off bytes ((i, outer) # rest) =
     (if p_filesz outer = 0 \<or> off < p_offset outer \<or> off \<ge> saturating_add (p_offset outer) (p_filesz outer)
      then table_by_offset w whole off bytes rest
      else out_bind (wrapper_segments w whole) (\<lambda>segs.
        case serving i segs of
          None \<Rightarrow> table_by_offset w whole off bytes rest
        | Some seg \<Rightarrow>
            (let start = saturating_add (fst (segment_range seg)) (off - p_offset outer)
             in Ok (stretch whole (Some start) bytes))))"

definition dynamic_bytes_by_offset ::
  "Container \<Rightarrow> byte list \<Rightarrow> u64 \<Rightarrow> nat \<Rightarrow> (ElfError, byte list option) outcome" where
  "dynamic_bytes_by_offset c whole off bytes =
     (case c_wrapper c of
        None \<Rightarrow> Ok None
      | Some w \<Rightarrow>
          out_bind (program_headers c) (\<lambda>headers. table_by_offset w whole off bytes (enumerate 0 headers)))"

abbreviation usable :: "byte list option \<Rightarrow> bool" where
  "usable b \<equiv> (case b of None \<Rightarrow> False | Some bs \<Rightarrow> is_usable (dynamic_parse bs))"

text \<open>The bytes at the address the header gives, unless they are no usable table and those at its
  file offset are.\<close>

definition dynamic_choice ::
  "Container \<Rightarrow> byte list \<Rightarrow> Elf64ProgramHeader \<Rightarrow> byte list option \<Rightarrow> (ElfError, byte list option) outcome" where
  "dynamic_choice c whole ph by_vaddr =
     (if c_wrapper c \<noteq> None \<and> \<not> usable by_vaddr
      then out_bind (dynamic_bytes_by_offset c whole (p_offset ph) (p_filesz ph)) (\<lambda>b.
             Ok (if usable b then b else by_vaddr))
      else Ok by_vaddr)"

definition dynamic_bytes :: "Container \<Rightarrow> byte list \<Rightarrow> (ElfError, byte list option) outcome" where
  "dynamic_bytes c whole =
     out_bind (program_headers c) (\<lambda>headers.
       case find (\<lambda>ph. p_type ph = PT_DYNAMIC) headers of
         None \<Rightarrow> Ok None
       | Some ph \<Rightarrow>
           out_bind (if c_wrapper c \<noteq> None then vaddr_to_offset c whole (p_vaddr ph) else Ok (Some (p_offset ph)))
             (\<lambda>at. dynamic_choice c whole ph (stretch whole at (p_filesz ph))))"

definition table_offset ::
  "nat \<Rightarrow> Container \<Rightarrow> byte list \<Rightarrow> DynamicInfo \<Rightarrow> u64 \<Rightarrow> (ElfError, nat option) outcome" where
  "table_offset ty c whole info v =
     (if di_vendor_tables info
      then out_bind (vendor_data_offset ty c whole) (\<lambda>found.
             Ok (case found of None \<Rightarrow> None | Some base \<Rightarrow> checked_add base v))
      else vaddr_to_offset c whole v)"

definition symbol_count_at :: "byte list \<Rightarrow> nat \<Rightarrow> (ElfError, nat) outcome" where
  "symbol_count_at whole hash_at =
     out_bind (plain_add hash_at 4) (\<lambda>a.
     out_bind (plain_add hash_at 8) (\<lambda>b.
       ok_or (NoDynamicTable ''hash table is truncated'') (map_option le_nat (get_range whole a b))))"

definition count_symbols ::
  "nat \<Rightarrow> Container \<Rightarrow> byte list \<Rightarrow> DynamicInfo \<Rightarrow> (ElfError, nat option) outcome" where
  "count_symbols ty c whole info =
     out_bind (if di_vendor_tables info \<or> di_hash info \<noteq> 0
               then table_offset ty c whole info (di_hash info) else Ok None) (\<lambda>found.
       case found of
         Some at \<Rightarrow> out_bind (symbol_count_at whole at) (\<lambda>n. Ok (Some n))
       | None \<Rightarrow>
           out_bind (if \<not> di_vendor_tables info \<and> di_gnu_hash info \<noteq> 0
                     then table_offset ty c whole info (di_gnu_hash info) else Ok None) (\<lambda>found.
             case found of
               Some at \<Rightarrow>
                 out_bind (symbol_count_from_gnu_hash
                     (case get_from whole at of Some table \<Rightarrow> table | None \<Rightarrow> [])) (\<lambda>n. Ok (Some n))
             | None \<Rightarrow> Ok None))"

definition string_table :: "byte list \<Rightarrow> nat \<Rightarrow> nat \<Rightarrow> (ElfError, byte list) outcome" where
  "string_table whole strtab_at strsz =
     out_bind (plain_add strtab_at strsz) (\<lambda>stop.
       Ok (case get_range whole strtab_at stop of Some strings \<Rightarrow> strings | None \<Rightarrow> []))"

definition symbol_tables ::
  "nat \<Rightarrow> Container \<Rightarrow> byte list \<Rightarrow> (ElfError, byte list \<times> byte list \<times> nat \<times> nat) outcome" where
  "symbol_tables ty c whole =
     out_bind (dynamic_bytes c whole) (\<lambda>found.
     out_bind (ok_or (NoDynamicTable ''no PT_DYNAMIC segment, or its address could not be located'') found) (\<lambda>dyn.
       let info = dynamic_parse dyn
       in if \<not> is_usable info
          then Err (NoDynamicTable ''dynamic table lacks a string table, symbol table, or hash table'')
          else
            out_bind (table_offset ty c whole info (di_strtab info)) (\<lambda>s.
            out_bind (ok_or (NoDynamicTable ''string table address is unmapped'') s) (\<lambda>strtab_at.
            out_bind (table_offset ty c whole info (di_symtab info)) (\<lambda>s.
            out_bind (ok_or (NoDynamicTable ''symbol table address is unmapped'') s) (\<lambda>symtab_at.
            out_bind (count_symbols ty c whole info) (\<lambda>n.
            out_bind (ok_or (NoDynamicTable ''hash table address is unmapped'') n) (\<lambda>nchain.
            out_bind (string_table whole strtab_at (di_strsz info)) (\<lambda>strings.
              Ok (case get_from whole symtab_at of Some symbols \<Rightarrow> symbols | None \<Rightarrow> [],
                  strings, nchain, di_syment info))))))))))"

definition raw_imports ::
  "nid_package \<Rightarrow> byte list \<Rightarrow> nat \<Rightarrow> Container \<Rightarrow> byte list \<Rightarrow> (ElfError, RawImport list) outcome" where
  "raw_imports pkg suffix ty c whole =
     out_bind (symbol_tables ty c whole) (\<lambda>(symbols, strings, nchain, syment).
       imports_from_symbols pkg suffix symbols strings nchain syment)"

definition raw_exports ::
  "nid_package \<Rightarrow> byte list \<Rightarrow> nat \<Rightarrow> Container \<Rightarrow> byte list \<Rightarrow> (ElfError, RawExport list) outcome" where
  "raw_exports pkg suffix ty c whole =
     out_bind (symbol_tables ty c whole) (\<lambda>(symbols, strings, nchain, syment).
       exports_from_symbols pkg suffix symbols strings nchain syment)"

definition symbol_count :: "nat \<Rightarrow> Container \<Rightarrow> byte list \<Rightarrow> (ElfError, nat) outcome" where
  "symbol_count ty c whole =
     out_bind (dynamic_bytes c whole) (\<lambda>found.
       case found of
         None \<Rightarrow> Ok 0
       | Some dyn \<Rightarrow>
           out_bind (count_symbols ty c whole (dynamic_parse dyn)) (\<lambda>n.
             Ok (case n of None \<Rightarrow> 0 | Some n \<Rightarrow> n)))"

text \<open>The vendor's tables of names; a later entry of an id replaces an earlier one.\<close>

definition vendor_name_table ::
  "nat \<Rightarrow> Container \<Rightarrow> byte list \<Rightarrow> (DynamicInfo \<Rightarrow> u64 list) \<Rightarrow> (ElfError, nat \<rightharpoonup> byte list) outcome" where
  "vendor_name_table ty c whole pick =
     out_bind (dynamic_bytes c whole) (\<lambda>found.
       case found of
         None \<Rightarrow> Ok Map.empty
       | Some dyn \<Rightarrow>
           (let info = dynamic_parse dyn
            in out_bind (table_offset ty c whole info (di_strtab info)) (\<lambda>s.
               case s of
                 None \<Rightarrow> Ok Map.empty
               | Some strtab_at \<Rightarrow>
                   out_bind (string_table whole strtab_at (di_strsz info)) (\<lambda>strings.
                     Ok (map_of (rev (List.map_filter (\<lambda>entry.
                       let (i, off) = split_table_entry entry
                       in map_option (Pair i) (table_cstr strings off)) (pick info))))))))"

definition import_libraries :: "nat \<Rightarrow> Container \<Rightarrow> byte list \<Rightarrow> (ElfError, nat \<rightharpoonup> byte list) outcome" where
  "import_libraries ty c whole = vendor_name_table ty c whole di_libraries"

definition import_modules :: "nat \<Rightarrow> Container \<Rightarrow> byte list \<Rightarrow> (ElfError, nat \<rightharpoonup> byte list) outcome" where
  "import_modules ty c whole = vendor_name_table ty c whole di_modules"

definition needed_libraries :: "nat \<Rightarrow> Container \<Rightarrow> byte list \<Rightarrow> (ElfError, byte list list) outcome" where
  "needed_libraries ty c whole =
     out_bind (dynamic_bytes c whole) (\<lambda>found.
       case found of
         None \<Rightarrow> Ok []
       | Some dyn \<Rightarrow>
           (let info = dynamic_parse dyn
            in out_bind (table_offset ty c whole info (di_strtab info)) (\<lambda>s.
               case s of
                 None \<Rightarrow> Ok []
               | Some strtab_at \<Rightarrow>
                   out_bind (string_table whole strtab_at (di_strsz info)) (\<lambda>strings.
                     Ok (List.map_filter (table_cstr strings) (di_needed info))))))"

section \<open>Relocation entries\<close>

definition RELA_SIZE :: nat where "RELA_SIZE = 24"

abbreviation (input) R_ABS64 :: nat where "R_ABS64 \<equiv> 1"
abbreviation (input) R_GLOB_DAT :: nat where "R_GLOB_DAT \<equiv> 6"
abbreviation (input) R_JUMP_SLOT :: nat where "R_JUMP_SLOT \<equiv> 7"
abbreviation (input) R_RELATIVE :: nat where "R_RELATIVE \<equiv> 8"
abbreviation (input) R_DTPMOD64 :: nat where "R_DTPMOD64 \<equiv> 16"
abbreviation (input) R_DTPOFF64 :: nat where "R_DTPOFF64 \<equiv> 17"
abbreviation (input) R_TPOFF64 :: nat where "R_TPOFF64 \<equiv> 18"

text \<open>The addend is signed in the file and used only for its 64 bits.\<close>

record Elf64Rela =
  rela_offset :: u64
  rela_info :: u64
  rela_addend :: u64

definition rela_kind :: "Elf64Rela \<Rightarrow> nat" where
  "rela_kind r = rela_info r AND 0xFFFFFFFF"

definition symbol_index :: "Elf64Rela \<Rightarrow> nat" where
  "symbol_index r = drop_bit 32 (rela_info r)"

definition is_supported :: "Elf64Rela \<Rightarrow> bool" where
  "is_supported r \<longleftrightarrow> rela_kind r \<in> {R_ABS64, R_GLOB_DAT, R_JUMP_SLOT, R_RELATIVE}"

definition is_tls :: "Elf64Rela \<Rightarrow> bool" where
  "is_tls r \<longleftrightarrow> rela_kind r \<in> {R_DTPMOD64, R_DTPOFF64, R_TPOFF64}"

definition read_rela :: "byte list \<Rightarrow> Elf64Rela" where
  "read_rela bs = \<lparr>rela_offset = field bs 0 8, rela_info = field bs 8 8, rela_addend = field bs 16 8\<rparr>"

definition parse_table :: "byte list \<Rightarrow> Elf64Rela list" where
  "parse_table bs = map read_rela (chunks_exact RELA_SIZE bs)"

record RelocationTally =
  tally_applied :: nat
  tally_weak_zero :: nat
  tally_tls_deferred :: nat
  tally_unsupported :: nat
  tally_unresolved :: nat

definition tally_default :: RelocationTally where
  "tally_default = \<lparr>tally_applied = 0, tally_weak_zero = 0, tally_tls_deferred = 0,
     tally_unsupported = 0, tally_unresolved = 0\<rparr>"

definition tally_total :: "RelocationTally \<Rightarrow> nat" where
  "tally_total t = tally_applied t + tally_weak_zero t + tally_tls_deferred t + tally_unsupported t + tally_unresolved t"

definition tally_complete :: "RelocationTally \<Rightarrow> bool" where
  "tally_complete t \<longleftrightarrow> tally_tls_deferred t = 0 \<and> tally_unsupported t = 0 \<and> tally_unresolved t = 0"

section \<open>Process parameters\<close>

record ProcParam =
  pp_size :: u64
  pp_magic :: nat
  pp_entry_count :: nat
  pp_sdk_version :: nat
  pp_sdk_version_second :: nat
  pp_libc_param :: u64
  pp_mem_param :: u64
  pp_third_param :: u64

definition PROC_MAGIC :: nat where "PROC_MAGIC = 0x4942524F"
definition MEM_PARAM_OFFSET :: nat where "MEM_PARAM_OFFSET = 0x40"

definition param_word :: "byte list \<Rightarrow> nat \<Rightarrow> nat \<Rightarrow> nat" where
  "param_word bs at n = (case get_range bs at (at + n) of Some s \<Rightarrow> le_nat s | None \<Rightarrow> 0)"

definition proc_param_parse :: "byte list \<Rightarrow> ProcParam option" where
  "proc_param_parse bs =
     (if length bs < 0x18 then None
      else Some \<lparr>pp_size = param_word bs 0 8, pp_magic = param_word bs 8 4,
        pp_entry_count = param_word bs 0xc 4, pp_sdk_version = param_word bs 0x10 4,
        pp_sdk_version_second = param_word bs 0x14 4, pp_libc_param = param_word bs 0x38 8,
        pp_mem_param = param_word bs MEM_PARAM_OFFSET 8, pp_third_param = param_word bs 0x48 8\<rparr>)"

definition magic_ok :: "ProcParam \<Rightarrow> bool" where
  "magic_ok p \<longleftrightarrow> pp_magic p = PROC_MAGIC"

section \<open>Sections and named globals\<close>

record Elf64SectionHeader =
  sh_name :: nat
  sh_type :: nat
  sh_flags :: u64
  sh_addr :: u64
  sh_offset :: u64
  sh_size :: u64
  sh_link :: nat
  sh_info :: nat
  sh_addralign :: u64
  sh_entsize :: u64

definition SECTION_HEADER_SIZE :: nat where "SECTION_HEADER_SIZE = 64"
definition SHT_SYMTAB :: nat where "SHT_SYMTAB = 2"
definition SHT_NOBITS :: nat where "SHT_NOBITS = 8"
definition SHF_WRITE :: nat where "SHF_WRITE = 1"

definition read_section_header :: "byte list \<Rightarrow> Elf64SectionHeader option" where
  "read_section_header bs =
     (if length bs < SECTION_HEADER_SIZE then None
      else Some \<lparr>sh_name = field bs 0 4, sh_type = field bs 4 4, sh_flags = field bs 8 8,
        sh_addr = field bs 16 8, sh_offset = field bs 24 8, sh_size = field bs 32 8,
        sh_link = field bs 40 4, sh_info = field bs 44 4, sh_addralign = field bs 48 8,
        sh_entsize = field bs 56 8\<rparr>)"

record Elf64Symbol =
  st_name :: nat
  st_info :: byte
  st_other :: byte
  st_shndx :: nat
  st_value :: u64
  st_size :: u64

definition read_symbol :: "byte list \<Rightarrow> Elf64Symbol option" where
  "read_symbol bs =
     (if length bs < SYMBOL_SIZE then None
      else Some \<lparr>st_name = field bs 0 4, st_info = bs ! 4, st_other = bs ! 5,
        st_shndx = field bs 6 2, st_value = field bs 8 8, st_size = field bs 16 8\<rparr>)"

definition inner_bytes :: "Container \<Rightarrow> byte list \<Rightarrow> byte list" where
  "inner_bytes c whole =
     (case c_wrapper c of None \<Rightarrow> whole | Some w \<Rightarrow> drop (min (w_elf_offset w) (length whole)) whole)"

definition section_at :: "byte list \<Rightarrow> nat \<Rightarrow> nat \<Rightarrow> nat \<Rightarrow> (ElfError, Elf64SectionHeader) outcome" where
  "section_at inner start entry index =
     out_bind (plain_add start (index * entry)) (\<lambda>at.
     out_bind (plain_add at SECTION_HEADER_SIZE) (\<lambda>stop.
       if stop > length inner then Err (Truncated at SECTION_HEADER_SIZE (saturating_sub (length inner) at))
       else ok_or UnsupportedFormat (read_section_header (drop at inner))))"

definition section_headers :: "Container \<Rightarrow> byte list \<Rightarrow> (ElfError, Elf64SectionHeader list) outcome" where
  "section_headers c whole =
     (let off = e_shoff (c_header c); count = e_shnum (c_header c); entry = e_shentsize (c_header c)
      in if off = 0 \<or> count = 0 \<or> entry < SECTION_HEADER_SIZE then Ok []
         else out_map (section_at (inner_bytes c whole) off entry) [0..<count])"

record NamedGlobal =
  ng_name :: "byte list"
  ng_address :: u64
  ng_size :: u64

definition global_row :: "nat list \<Rightarrow> byte list \<Rightarrow> Elf64Symbol \<Rightarrow> NamedGlobal option" where
  "global_row zero_filled strings symbol =
     (if st_info symbol AND 0xF \<noteq> 1 \<or> st_shndx symbol \<notin> set zero_filled then None
      else case table_cstr strings (st_name symbol) of
        None \<Rightarrow> None
      | Some name \<Rightarrow>
          if name = [] then None
          else Some \<lparr>ng_name = name, ng_address = st_value symbol, ng_size = st_size symbol\<rparr>)"

fun globals_of ::
  "nat list \<Rightarrow> byte list \<Rightarrow> byte list \<Rightarrow> nat \<Rightarrow> nat \<Rightarrow> nat list \<Rightarrow> (ElfError, NamedGlobal list) outcome" where
  "globals_of zero_filled strings inner table_at entry [] = Ok []"
| "globals_of zero_filled strings inner table_at entry (index # indices) =
     out_bind (plain_add table_at (index * entry)) (\<lambda>at.
     out_bind (plain_add at SYMBOL_SIZE) (\<lambda>stop.
       if stop > length inner then Ok []
       else case read_symbol (drop at inner) of
         None \<Rightarrow> Ok []
       | Some symbol \<Rightarrow>
           out_bind (globals_of zero_filled strings inner table_at entry indices) (\<lambda>out.
             Ok (case global_row zero_filled strings symbol of None \<Rightarrow> out | Some g \<Rightarrow> g # out))))"

definition globals_in ::
  "nat list \<Rightarrow> Elf64SectionHeader list \<Rightarrow> byte list \<Rightarrow> Elf64SectionHeader \<Rightarrow> (ElfError, NamedGlobal list) outcome" where
  "globals_in zero_filled sections inner table =
     (let entry = sh_entsize table
      in if entry < SYMBOL_SIZE \<or> length sections \<le> sh_link table then Ok []
         else let strings = sections ! sh_link table;
                  strings_end = saturating_add (sh_offset strings) (sh_size strings)
         in if strings_end > length inner then Ok []
            else globals_of zero_filled
                   (take (strings_end - sh_offset strings) (drop (sh_offset strings) inner))
                   inner (sh_offset table) entry [0..<sh_size table div entry])"

definition named_globals :: "Container \<Rightarrow> byte list \<Rightarrow> (ElfError, NamedGlobal list) outcome" where
  "named_globals c whole =
     out_bind (section_headers c whole) (\<lambda>sections.
       let zero_filled = [i \<leftarrow> [0..<length sections].
             sh_type (sections ! i) = SHT_NOBITS \<and> sh_flags (sections ! i) AND SHF_WRITE \<noteq> 0]
       in if zero_filled = [] then Ok []
          else out_bind (out_map (globals_in zero_filled sections (inner_bytes c whole))
                 (filter (\<lambda>s. sh_type s = SHT_SYMTAB) sections)) (\<lambda>gs. Ok (concat gs)))"

section \<open>Reading a parsed file does not panic\<close>

lemma table_by_offset_safe:
  assumes "wrapper_parse whole = Ok w"
  shows "no_panic (table_by_offset w whole off n hs) \<and>
    (\<forall>b. table_by_offset w whole off n hs = Ok (Some b) \<longrightarrow> in_file whole b)"
proof -
  obtain segs where segs: "wrapper_segments w whole = Ok segs" using segments_total [OF assms] .
  show ?thesis
  proof (induction hs)
    case Nil
    then show ?case by simp
  next
    case (Cons x hs)
    then show ?case
      by (cases x) (auto simp: segs Let_def intro: in_file_stretch split: option.splits)
  qed
qed

lemma dynamic_bytes_by_offset_safe:
  assumes "parsed whole c"
  shows "no_panic (dynamic_bytes_by_offset c whole off n) \<and>
    (\<forall>b. dynamic_bytes_by_offset c whole off n = Ok (Some b) \<longrightarrow> in_file whole b)"
proof -
  have "container_parse whole = Ok c" using assms by (simp add: parsed_def)
  then show ?thesis
  proof (cases rule: container_parse_cases)
    case bare
    then show ?thesis by (simp add: dynamic_bytes_by_offset_def)
  next
    case (wrapped w)
    then show ?thesis
      using program_headers_no_panic [OF assms] table_by_offset_safe [OF wrapped(2)]
      by (auto simp: dynamic_bytes_by_offset_def ok_iff intro!: no_panic_bind)
  qed
qed

lemma dynamic_choice_safe:
  assumes "parsed whole c"
  shows "no_panic (dynamic_choice c whole ph v)"
    "dynamic_choice c whole ph v = Ok (Some b) \<Longrightarrow> (\<And>d. v = Some d \<Longrightarrow> in_file whole d) \<Longrightarrow> in_file whole b"
  using dynamic_bytes_by_offset_safe [OF assms]
  by (auto simp: dynamic_choice_def out_bind_Ok simp del: no_panic_iff intro!: no_panic_bind split: if_splits)

lemma dynamic_bytes_safe:
  assumes "parsed whole c"
  shows "no_panic (dynamic_bytes c whole)" "dynamic_bytes c whole = Ok (Some b) \<Longrightarrow> in_file whole b"
proof -
  note safe = dynamic_choice_safe [OF assms]
  show "no_panic (dynamic_bytes c whole)"
    unfolding dynamic_bytes_def
    using program_headers_no_panic [OF assms] vaddr_to_offset_no_panic [OF assms] safe(1)
    by (auto intro!: no_panic_bind split: option.splits)
  assume "dynamic_bytes c whole = Ok (Some b)"
  then obtain ph at where "dynamic_choice c whole ph (stretch whole at (p_filesz ph)) = Ok (Some b)"
    unfolding dynamic_bytes_def by (auto simp: out_bind_Ok simp del: not_None_eq split: option.splits)
  then show "in_file whole b" by (rule safe(2)) (rule in_file_stretch)
qed

lemma table_offset_safe:
  assumes "parsed whole c"
  shows "no_panic (table_offset ty c whole info v)"
  using vendor_data_offset_no_panic [OF assms] vaddr_to_offset_no_panic [OF assms]
  by (auto simp: table_offset_def intro!: no_panic_bind)

lemma proc_param_bytes_safe:
  assumes "parsed whole c"
  shows "no_panic (proc_param_bytes ty c whole)"
    "proc_param_bytes ty c whole = Ok (Some b) \<Longrightarrow> in_file whole b"
proof -
  show "no_panic (proc_param_bytes ty c whole)"
    unfolding proc_param_bytes_def
    using program_headers_no_panic [OF assms] vaddr_to_offset_no_panic [OF assms]
    by (auto intro!: no_panic_bind split: option.splits)
  assume "proc_param_bytes ty c whole = Ok (Some b)"
  then show "in_file whole b"
    unfolding proc_param_bytes_def
    by (auto simp: out_bind_Ok simp del: not_None_eq intro: in_file_stretch split: option.splits)
qed


text \<open>An address is resolved to where the first program header that has it puts its byte, counting
  the loaded segments first in a bare file, and through the wrapper's descriptors in a wrapped one;
  nothing is answered only when no header has the address in the file.\<close>

theorem vaddr_to_offset_exact:
  assumes "parsed whole c" "program_headers c = Ok headers" "vaddr_to_offset c whole vaddr = Ok r"
  shows "case r of
      Some at \<Rightarrow> \<exists>i. place_of c whole headers vaddr i at \<and>
        (\<forall>j at'. place_of c whole headers vaddr j at' \<longrightarrow> prefers c headers i j)
    | None \<Rightarrow> \<forall>i at. \<not> place_of c whole headers vaddr i at"
proof -
  have p: "container_parse whole = Ok c" "length whole \<le> ISIZE_MAX" using assms(1) by (auto simp: parsed_def)
  show ?thesis
    using p(1)
  proof (cases rule: container_parse_cases)
    case bare
    then show ?thesis
      using bare_vaddr_to_offset_exact [OF bare(1) p(2) assms(2)] assms(3) by (simp add: vaddr_to_offset_def)
  next
    case (wrapped w)
    then show ?thesis using wrapped_vaddr_to_offset_exact [OF wrapped(1,2) p(2) assms(2,3)] by blast
  qed
qed

section \<open>Imports and exports\<close>

text \<open>The row of an index, whether the table holds it, and whether it has a name.\<close>

definition row_of :: "byte list \<Rightarrow> nat \<Rightarrow> nat \<Rightarrow> byte list" where
  "row_of symbols stride i = take SYMBOL_SIZE (drop (i * stride) symbols)"

definition row_held :: "byte list \<Rightarrow> nat \<Rightarrow> nat \<Rightarrow> bool" where
  "row_held symbols stride i \<longleftrightarrow> i * stride + SYMBOL_SIZE \<le> length symbols"

definition row_named :: "byte list \<Rightarrow> byte list \<Rightarrow> bool" where
  "row_named strings entry \<longleftrightarrow> field entry 0 4 \<noteq> 0 \<and> table_cstr strings (field entry 0 4) \<noteq> None"

definition row_undefined :: "byte list \<Rightarrow> bool" where
  "row_undefined entry \<longleftrightarrow> field entry 6 2 = 0"

lemma row_held_mono: "row_held symbols stride j \<Longrightarrow> i \<le> j \<Longrightarrow> row_held symbols stride i"
  unfolding row_held_def by (meson add_le_mono1 le_trans mult_le_mono1)

lemma symbol_rows_exact:
  assumes "symbol_rows row symbols stride is = Ok out" "sorted is"
  shows "out = List.map_filter (\<lambda>i. row i (row_of symbols stride i)) (filter (row_held symbols stride) is)"
  using assms
proof (induction "is" arbitrary: out)
  case Nil
  then show ?case by (simp add: List.map_filter_def)
next
  case (Cons i "is")
  have fits: "saturating_mul i stride + SYMBOL_SIZE \<le> U64_MAX"
    using Cons.prems(1) by (simp add: Let_def out_bind_Ok plain_add_Ok)
  then have at: "saturating_mul i stride = i * stride"
    by (auto simp: saturating_mul_def min_def SYMBOL_SIZE_def split: if_splits)
  show ?case
  proof (cases "row_held symbols stride i")
    case True
    then have "get_range symbols (i * stride) (i * stride + SYMBOL_SIZE) = Some (row_of symbols stride i)"
      by (simp add: get_range_def row_held_def row_of_def)
    then obtain out' where "symbol_rows row symbols stride is = Ok out'"
      "out = (case row i (row_of symbols stride i) of None \<Rightarrow> out' | Some r \<Rightarrow> r # out')"
      using Cons.prems(1) at by (auto simp: Let_def out_bind_Ok plain_add_Ok)
    then show ?thesis
      using Cons True by (auto simp: List.map_filter_def split: option.splits)
  next
    case False
    then have "get_range symbols (i * stride) (i * stride + SYMBOL_SIZE) = None"
      by (simp add: get_range_def row_held_def)
    then have "out = []" using Cons.prems(1) at by (auto simp: Let_def out_bind_Ok plain_add_Ok)
    moreover have "filter (row_held symbols stride) (i # is) = []"
      using False Cons.prems(2) row_held_mono by (auto simp: filter_empty_conv)
    ultimately show ?thesis by (simp add: List.map_filter_def)
  qed
qed

lemma import_row_Some:
  "import_row pkg suffix strings i entry = Some r \<Longrightarrow>
   row_undefined entry \<and> row_named strings entry \<and> imp_symbol_index r = min i U32_MAX"
  by (auto simp: import_row_def row_undefined_def row_named_def Let_def split: if_splits option.splits prod.splits)

lemma import_row_None:
  "import_row pkg suffix strings i entry = None \<longleftrightarrow> \<not> (row_undefined entry \<and> row_named strings entry)"
  by (auto simp: import_row_def row_undefined_def row_named_def Let_def split: if_splits option.splits prod.splits)

lemma export_row_Some:
  "export_row pkg suffix strings i entry = Some r \<Longrightarrow>
   \<not> row_undefined entry \<and> row_named strings entry \<and> exp_symbol_index r = min i U32_MAX"
  by (auto simp: export_row_def row_undefined_def row_named_def Let_def split: if_splits option.splits prod.splits)

lemma export_row_None:
  "export_row pkg suffix strings i entry = None \<longleftrightarrow> \<not> (\<not> row_undefined entry \<and> row_named strings entry)"
  by (auto simp: export_row_def row_undefined_def row_named_def Let_def split: if_splits option.splits prod.splits)

lemma map_filter_index:
  assumes "\<And>i r. i \<in> set is \<Longrightarrow> f i = Some r \<Longrightarrow> g r = i" "\<And>i. i \<in> set is \<Longrightarrow> f i = None \<longleftrightarrow> \<not> P i"
  shows "map g (List.map_filter f is) = filter P is"
  using assms
proof (induction "is")
  case Nil
  then show ?case by (simp add: List.map_filter_def)
next
  case (Cons i "is")
  have IH: "map g (List.map_filter f is) = filter P is" by (rule Cons.IH) (simp_all add: Cons.prems)
  show ?case
    using IH Cons.prems(1) [of i] Cons.prems(2) [of i] by (cases "f i") (auto simp: List.map_filter_simps)
qed

lemma imports_exact:
  assumes "imports_from_symbols pkg suffix symbols strings count syment = Ok is"
  shows "map imp_symbol_index is = [i \<leftarrow> [0..<count]. row_held symbols (symbol_stride syment) i \<and>
    row_named strings (row_of symbols (symbol_stride syment) i) \<and>
    row_undefined (row_of symbols (symbol_stride syment) i)]"
proof -
  let ?st = "symbol_stride syment"
  have c: "count \<le> MAX_SYMBOLS" "symbol_rows (import_row pkg suffix strings) symbols ?st [0..<count] = Ok is"
    using assms by (auto simp: imports_from_symbols_def split: if_splits)
  then have "map imp_symbol_index is = filter (\<lambda>i. row_undefined (row_of symbols ?st i) \<and> row_named strings (row_of symbols ?st i))
      (filter (row_held symbols ?st) [0..<count])"
    unfolding symbol_rows_exact [OF c(2) sorted_upt]
    by (intro map_filter_index)
      (auto simp: import_row_None U32_MAX_def MAX_SYMBOLS_def dest!: import_row_Some)
  then show ?thesis by (auto simp: filter_filter intro!: filter_cong)
qed

lemma exports_exact:
  assumes "exports_from_symbols pkg suffix symbols strings count syment = Ok es"
  shows "map exp_symbol_index es = [i \<leftarrow> [0..<count]. row_held symbols (symbol_stride syment) i \<and>
    row_named strings (row_of symbols (symbol_stride syment) i) \<and>
    \<not> row_undefined (row_of symbols (symbol_stride syment) i)]"
proof -
  let ?st = "symbol_stride syment"
  have c: "count \<le> MAX_SYMBOLS" "symbol_rows (export_row pkg suffix strings) symbols ?st [0..<count] = Ok es"
    using assms by (auto simp: exports_from_symbols_def split: if_splits)
  then have "map exp_symbol_index es = filter (\<lambda>i. \<not> row_undefined (row_of symbols ?st i) \<and> row_named strings (row_of symbols ?st i))
      (filter (row_held symbols ?st) [0..<count])"
    unfolding symbol_rows_exact [OF c(2) sorted_upt]
    by (intro map_filter_index)
      (auto simp: export_row_None U32_MAX_def MAX_SYMBOLS_def dest!: export_row_Some)
  then show ?thesis by (auto simp: filter_filter intro!: filter_cong)
qed

text \<open>The rows of a symbol table that are held in the file and have a readable name are divided
  between the imports and the exports: each such row is exactly one of them, an import when it names
  no section, every other row is neither, and each list is in the order of the table.\<close>

theorem symbols_divided:
  assumes "imports_from_symbols pkg suffix symbols strings count syment = Ok is"
    "exports_from_symbols pkg suffix symbols strings count syment = Ok es"
  shows "sorted_wrt (<) (map imp_symbol_index is) \<and> sorted_wrt (<) (map exp_symbol_index es) \<and>
    set (map imp_symbol_index is) \<inter> set (map exp_symbol_index es) = {} \<and>
    set (map imp_symbol_index is) \<union> set (map exp_symbol_index es) =
      {i. i < count \<and> row_held symbols (symbol_stride syment) i \<and>
          row_named strings (row_of symbols (symbol_stride syment) i)} \<and>
    (\<forall>r \<in> set is. row_undefined (row_of symbols (symbol_stride syment) (imp_symbol_index r)))"
proof -
  note e = imports_exact [OF assms(1)] exports_exact [OF assms(2)]
  have "imp_symbol_index r \<in> set (map imp_symbol_index is)" if "r \<in> set is" for r using that by simp
  then have "\<forall>r \<in> set is. row_undefined (row_of symbols (symbol_stride syment) (imp_symbol_index r))"
    unfolding e(1) by auto
  moreover have "sorted_wrt (<) (map imp_symbol_index is)" "sorted_wrt (<) (map exp_symbol_index es)"
    unfolding e by (intro sorted_wrt_filter sorted_wrt_upt)+
  ultimately show ?thesis unfolding e by auto
qed

section \<open>The size of a GNU hash table\<close>

text \<open>The table a linker writes: its header, the bloom filter, the buckets and the chain.\<close>

definition gnu_table :: "nat \<Rightarrow> nat \<Rightarrow> nat list \<Rightarrow> nat list \<Rightarrow> nat list \<Rightarrow> byte list" where
  "gnu_table bias shift bloom buckets chain =
     to_le 4 (length buckets) @ to_le 4 bias @ to_le 4 (length bloom) @ to_le 4 shift @
     concat (map (to_le 8) bloom) @ concat (map (to_le 4) buckets) @ concat (map (to_le 4) chain)"

lemma length_words: "length (concat (map (to_le n) ws)) = n * length ws"
  by (induction ws) auto

lemma words_nth: "i < length ws \<Longrightarrow> take n (drop (n * i) (concat (map (to_le n) ws) @ bs)) = to_le n (ws ! i)"
  by (induction ws arbitrary: i) (auto simp: nth_Cons split: nat.splits)

lemma table_word_nth:
  assumes "i < length ws" "ws ! i < 2 ^ 32"
  shows "table_word (as @ concat (map (to_le 4) ws) @ bs) (length as + 4 * i) = Some (ws ! i)"
proof -
  have "4 * i + 4 \<le> 4 * length ws" using assms(1) by linarith
  then have "get_range (as @ concat (map (to_le 4) ws) @ bs) (length as + 4 * i) (length as + 4 * i + 4)
      = Some (to_le 4 (ws ! i))"
    using words_nth [OF assms(1), of 4 bs] by (simp add: get_range_def length_words)
  then show ?thesis using assms(2) by (simp add: table_word_def le_nat_to_le)
qed

lemma highest_bucket_words:
  assumes "\<And>b. b \<in> set bs \<Longrightarrow> table_word table (at + b * 4) = Some (ws b)"
  shows "highest_bucket table at bs highest = Ok (fold max (map ws bs) highest)"
  using assms by (induction bs arbitrary: highest) (auto simp: ok_or_def max.commute)

lemma gnu_chain_words:
  assumes word: "\<And>i. i < length chain \<Longrightarrow> table_word table (at + i * 4) = Some (chain ! i)"
    and n: "i < length chain" "bias + length chain \<le> MAX_SYMBOLS"
    and even: "\<And>j. i \<le> j \<Longrightarrow> j + 1 < length chain \<Longrightarrow> even (chain ! j)"
    and odd: "odd (last chain)"
  shows "gnu_chain table at bias (bias + i) = Ok (bias + length chain)"
  using n(1) even
proof (induction "length chain - i" arbitrary: i rule: less_induct)
  case less
  show ?case
  proof (cases "i + 1 = length chain")
    case True
    then have "chain ! i = last chain" using less.prems(1) by (metis add_diff_cancel_right' last_conv_nth list.size(3) not_less0)
    then show ?thesis using word [OF less.prems(1)] odd True
      by (subst gnu_chain.simps) simp
  next
    case False
    then have i: "i + 1 < length chain" using less.prems(1) by simp
    then have e: "even (chain ! i)" using less.prems(2) by simp
    have "gnu_chain table at bias (bias + (i + 1)) = Ok (bias + length chain)"
      by (rule less.hyps) (use i less.prems in auto)
    moreover have "bias + i + 1 \<le> MAX_SYMBOLS" using i n(2) by simp
    ultimately show ?thesis using word [OF less.prems(1)] e
      by (subst gnu_chain.simps) (simp add: U32_MAX_def MAX_SYMBOLS_def)
  qed
qed

lemma gnu_table_words:
  assumes "length buckets \<le> MAX_SYMBOLS" "bias < 2 ^ 32" "length bloom \<le> MAX_SYMBOLS"
    "\<forall>w \<in> set buckets. w < 2 ^ 32" "\<forall>w \<in> set chain. w < 2 ^ 32"
    and table_def: "table = gnu_table bias shift bloom buckets chain @ rest"
  shows "table_word table 0 = Some (length buckets)" "table_word table 4 = Some bias"
    "table_word table 8 = Some (length bloom)"
    "i < length buckets \<Longrightarrow> table_word table (16 + length bloom * 8 + i * 4) = Some (buckets ! i)"
    "i < length chain \<Longrightarrow> table_word table (16 + length bloom * 8 + length buckets * 4 + i * 4) = Some (chain ! i)"
proof -
  let ?head = "[length buckets, bias, length bloom, shift mod 2 ^ 32]"
  have shift: "to_le 4 shift = to_le 4 (shift mod 2 ^ 32)"
    using to_le_le_nat [of "to_le 4 shift"] by (simp add: le_nat_to_le)
  have head: "table = [] @ concat (map (to_le 4) ?head) @ concat (map (to_le 8) bloom) @
      concat (map (to_le 4) buckets) @ concat (map (to_le 4) chain) @ rest"
    unfolding table_def gnu_table_def using shift by simp
  have small: "\<forall>w \<in> set ?head. w < 2 ^ 32" using assms(1-3) by (simp add: MAX_SYMBOLS_def)
  show "table_word table 0 = Some (length buckets)" "table_word table 4 = Some bias"
    "table_word table 8 = Some (length bloom)"
    unfolding head using small table_word_nth [of 0 ?head "[]"] table_word_nth [of 1 ?head "[]"]
      table_word_nth [of 2 ?head "[]"]
    by (simp_all only: list.size nth_Cons_0 nth_Cons_Suc One_nat_def Suc_1 numeral_2_eq_2) simp_all
  show "i < length buckets \<Longrightarrow> table_word table (16 + length bloom * 8 + i * 4) = Some (buckets ! i)"
    using table_word_nth [of i buckets "to_le 4 (length buckets) @ to_le 4 bias @ to_le 4 (length bloom) @
      to_le 4 shift @ concat (map (to_le 8) bloom)" "concat (map (to_le 4) chain) @ rest"] assms(4)
    by (simp add: table_def gnu_table_def length_words mult.commute)
  show "i < length chain \<Longrightarrow> table_word table (16 + length bloom * 8 + length buckets * 4 + i * 4) = Some (chain ! i)"
    using table_word_nth [of i chain "to_le 4 (length buckets) @ to_le 4 bias @ to_le 4 (length bloom) @
      to_le 4 shift @ concat (map (to_le 8) bloom) @ concat (map (to_le 4) buckets)" rest] assms(5)
    by (simp add: table_def gnu_table_def length_words mult.commute add.assoc)
qed

text \<open>The number of symbols is recovered from every well-formed GNU hash table, whatever follows it
  in the file: when the chain of the highest bucket ends with the last word of the chain, it is the
  bias and the length of the chain, and when no bucket names a symbol it is the bias.\<close>

theorem gnu_hash_counts:
  assumes "length buckets \<le> MAX_SYMBOLS" "length bloom \<le> MAX_SYMBOLS" "bias + length chain \<le> MAX_SYMBOLS"
    "\<forall>w \<in> set buckets. w < 2 ^ 32" "\<forall>w \<in> set chain. w < 2 ^ 32"
    "highest = fold max buckets 0" "highest < bias + length chain"
    "highest \<ge> bias \<longrightarrow> odd (last chain) \<and> (\<forall>j. highest - bias \<le> j \<and> j + 1 < length chain \<longrightarrow> even (chain ! j))"
  shows "symbol_count_from_gnu_hash (gnu_table bias shift bloom buckets chain @ rest) =
    Ok (if highest < bias then bias else bias + length chain)"
proof -
  let ?t = "gnu_table bias shift bloom buckets chain @ rest" let ?at = "16 + length bloom * 8"
  have bias: "bias < 2 ^ 32" using assms(3) by (simp add: MAX_SYMBOLS_def)
  note words = gnu_table_words [OF assms(1) bias assms(2,4,5) refl, where shift = shift and rest = rest]
  have "highest_bucket ?t ?at [0..<length buckets] 0 = Ok (fold max (map ((!) buckets) [0..<length buckets]) 0)"
    by (rule highest_bucket_words) (use words(4) in auto)
  then have highest: "highest_bucket ?t ?at [0..<length buckets] 0 = Ok highest"
    using assms(6) by (simp add: map_nth)
  have chain: "gnu_chain ?t (?at + length buckets * 4) bias highest = Ok (bias + length chain)" if "\<not> highest < bias"
    using gnu_chain_words [of chain ?t "?at + length buckets * 4" "highest - bias" bias] words(5) that assms(3,7,8)
    by auto
  show ?thesis
    using words(1-3) highest chain assms(1,2)
    by (simp add: symbol_count_from_gnu_hash_def ok_or_def Let_def)
qed

section \<open>The dynamic table read back\<close>

definition dynamic_encode :: "(u64 \<times> u64) list \<Rightarrow> byte list" where
  "dynamic_encode es = concat (map (\<lambda>(t, v). to_le 8 t @ to_le 8 v) es)"

abbreviation entries :: "(u64 \<times> u64) list \<Rightarrow> dynamic_scan \<Rightarrow> dynamic_scan" where
  "entries es s \<equiv> fold (\<lambda>(t, v). dynamic_entry t v) es s"

lemma dynamic_encode_Cons: "dynamic_encode ((t, v) # es) = (to_le 8 t @ to_le 8 v) @ dynamic_encode es"
  by (simp add: dynamic_encode_def)

lemma scan_encoded:
  assumes "\<forall>(t, v) \<in> set es. 0 < t \<and> t < 2 ^ 64 \<and> v < 2 ^ 64"
  shows "dynamic_scan_entries (chunks_exact DYNAMIC_ENTRY_SIZE (dynamic_encode es @ bs)) s =
    dynamic_scan_entries (chunks_exact DYNAMIC_ENTRY_SIZE bs) (entries es s)"
  using assms
proof (induction es arbitrary: s)
  case Nil
  then show ?case by (simp add: dynamic_encode_def)
next
  case (Cons e es)
  obtain t v where e: "e = (t, v)" by fastforce
  have tv: "0 < t" "t < 2 ^ 64" "v < 2 ^ 64" using Cons.prems e by auto
  have f: "field (to_le 8 t @ to_le 8 v) 0 8 = t" "field (to_le 8 t @ to_le 8 v) 8 8 = v"
    using tv(2,3) by (simp_all add: field_def le_nat_to_le)
  have "chunks_exact DYNAMIC_ENTRY_SIZE (dynamic_encode (e # es) @ bs) =
      (to_le 8 t @ to_le 8 v) # chunks_exact DYNAMIC_ENTRY_SIZE (dynamic_encode es @ bs)"
    unfolding e dynamic_encode_Cons append_assoc [of "to_le 8 t @ to_le 8 v"]
    by (rule chunks_exact_append) (simp_all add: DYNAMIC_ENTRY_SIZE_def)
  then show ?case using Cons f tv(1) by (simp add: e)
qed

lemma scan_end: "dynamic_scan_entries (chunks_exact DYNAMIC_ENTRY_SIZE (dynamic_encode [(0, v)] @ bs)) s = s"
proof -
  have "chunks_exact DYNAMIC_ENTRY_SIZE (dynamic_encode [(0, v)] @ bs) =
      (to_le 8 0 @ to_le 8 v) # chunks_exact DYNAMIC_ENTRY_SIZE (dynamic_encode [] @ bs)"
    unfolding dynamic_encode_Cons append_assoc [of "to_le 8 0 @ to_le 8 v"]
    by (rule chunks_exact_append) (simp_all add: DYNAMIC_ENTRY_SIZE_def)
  then show ?thesis by (simp add: field_def le_nat_to_le)
qed

lemma entries_last:
  assumes "\<And>t v s. g (dynamic_entry t v s) = (if t = T then h v else g s)"
  shows "g (entries es s) = (case map_of (rev es) T of None \<Rightarrow> g s | Some v \<Rightarrow> h v)"
  by (induction es rule: rev_induct) (auto simp: assms)

lemma entries_all:
  assumes "\<And>t v s. g (dynamic_entry t v s) = (if t = T then g s @ [v] else g s)"
  shows "g (entries es s) = g s @ map snd (filter (\<lambda>e. fst e = T) es)"
  by (induction es rule: rev_induct) (auto simp: assms)

lemma entry_info:
  "di_strtab (sc_info (dynamic_entry t v s)) = (if t = DT_STRTAB then v else di_strtab (sc_info s))"
  "di_strsz (sc_info (dynamic_entry t v s)) = (if t = DT_STRSZ then v else di_strsz (sc_info s))"
  "di_symtab (sc_info (dynamic_entry t v s)) = (if t = DT_SYMTAB then v else di_symtab (sc_info s))"
  "di_syment (sc_info (dynamic_entry t v s)) = (if t = DT_SYMENT then v else di_syment (sc_info s))"
  "di_hash (sc_info (dynamic_entry t v s)) = (if t = DT_HASH then v else di_hash (sc_info s))"
  "di_rela (sc_info (dynamic_entry t v s)) = (if t = DT_RELA then v else di_rela (sc_info s))"
  "di_relasz (sc_info (dynamic_entry t v s)) = (if t = DT_RELASZ then v else di_relasz (sc_info s))"
  "di_jmprel (sc_info (dynamic_entry t v s)) = (if t = DT_JMPREL then v else di_jmprel (sc_info s))"
  "di_pltrelsz (sc_info (dynamic_entry t v s)) = (if t = DT_PLTRELSZ then v else di_pltrelsz (sc_info s))"
  by (simp_all add: dynamic_entry_def)

lemma entry_vendor:
  "di_strsz (sc_vendor (dynamic_entry t v s)) = (if t = SCE_STRSZ then v else di_strsz (sc_vendor s))"
  "di_syment (sc_vendor (dynamic_entry t v s)) = (if t = SCE_SYMENT then v else di_syment (sc_vendor s))"
  "di_rela (sc_vendor (dynamic_entry t v s)) = (if t = SCE_RELA then v else di_rela (sc_vendor s))"
  "di_relasz (sc_vendor (dynamic_entry t v s)) = (if t = SCE_RELASZ then v else di_relasz (sc_vendor s))"
  "di_jmprel (sc_vendor (dynamic_entry t v s)) = (if t = SCE_JMPREL then v else di_jmprel (sc_vendor s))"
  "di_pltrelsz (sc_vendor (dynamic_entry t v s)) = (if t = SCE_PLTRELSZ then v else di_pltrelsz (sc_vendor s))"
  "sc_strtab (dynamic_entry t v s) = (if t = SCE_STRTAB then Some v else sc_strtab s)"
  "sc_symtab (dynamic_entry t v s) = (if t = SCE_SYMTAB then Some v else sc_symtab s)"
  "sc_hash (dynamic_entry t v s) = (if t = SCE_HASH then Some v else sc_hash s)"
  by (simp_all add: dynamic_entry_def)

lemma entry_lists:
  "di_needed (sc_info (dynamic_entry t v s)) = (if t = DT_NEEDED then di_needed (sc_info s) @ [v] else di_needed (sc_info s))"
  "di_libraries (sc_info (dynamic_entry t v s)) =
     (if t = SCE_IMPORT_LIB then di_libraries (sc_info s) @ [v] else di_libraries (sc_info s))"
  "di_vendor_tables (sc_info (dynamic_entry t v s)) = di_vendor_tables (sc_info s)"
  by (simp_all add: dynamic_entry_def)

definition last_value :: "(u64 \<times> u64) list \<Rightarrow> u64 \<Rightarrow> u64" where
  "last_value es t = (case map_of (rev es) t of None \<Rightarrow> 0 | Some v \<Rightarrow> v)"

definition vendor_complete :: "(u64 \<times> u64) list \<Rightarrow> bool" where
  "vendor_complete es \<longleftrightarrow> {SCE_STRTAB, SCE_SYMTAB, SCE_HASH} \<subseteq> fst ` set es"

lemma map_of_rev_None: "map_of (rev es) t = None \<longleftrightarrow> t \<notin> fst ` set es"
  by (simp add: map_of_eq_None_iff)

lemmas entries_facts =
  entry_info [THEN entries_last [where h = "\<lambda>v. v"]] entry_vendor(1-6) [THEN entries_last [where h = "\<lambda>v. v"]]
  entry_vendor(7-9) [THEN entries_last [where h = Some]] entry_lists(1,2) [THEN entries_all]

lemma entries_vendor_tables: "di_vendor_tables (sc_info (entries es s)) = di_vendor_tables (sc_info s)"
  by (induction es rule: rev_induct) (auto simp: entry_lists)

text \<open>Reading back a dynamic table: each table address and size is the value of the last tag of its
  kind before the terminator, of the vendor's kind exactly when the vendor's string table, symbol
  table and hash are all named, wherever in the table they stand; needed libraries and import
  libraries are kept in order; and what follows the terminator is ignored.\<close>

theorem dynamic_parse_exact:
  assumes "\<forall>(t, v) \<in> set es. 0 < t \<and> t < 2 ^ 64 \<and> v < 2 ^ 64"
    "info = dynamic_parse (dynamic_encode es @ dynamic_encode [(0, x)] @ rest)"
    "pick = (\<lambda>sce std. last_value es (if vendor_complete es then sce else std))"
  shows "di_vendor_tables info = vendor_complete es \<and>
    di_strtab info = pick SCE_STRTAB DT_STRTAB \<and> di_strsz info = pick SCE_STRSZ DT_STRSZ \<and>
    di_symtab info = pick SCE_SYMTAB DT_SYMTAB \<and> di_syment info = pick SCE_SYMENT DT_SYMENT \<and> di_hash info = pick SCE_HASH DT_HASH \<and>
    di_rela info = pick SCE_RELA DT_RELA \<and> di_relasz info = pick SCE_RELASZ DT_RELASZ \<and>
    di_jmprel info = pick SCE_JMPREL DT_JMPREL \<and> di_pltrelsz info = pick SCE_PLTRELSZ DT_PLTRELSZ \<and>
    di_needed info = map snd (filter (\<lambda>e. fst e = DT_NEEDED) es) \<and>
    di_libraries info = map snd (filter (\<lambda>e. fst e = SCE_IMPORT_LIB) es)"
proof -
  have info: "info = dynamic_finish (entries es scan_default)"
    unfolding assms(2) dynamic_parse_def scan_encoded [OF assms(1)] scan_end ..
  have zero: "sc_info scan_default = dynamic_default" "sc_vendor scan_default = dynamic_default"
    "sc_strtab scan_default = None" "sc_symtab scan_default = None" "sc_hash scan_default = None"
    by (simp_all add: scan_default_def)
  show ?thesis
  proof (cases "vendor_complete es")
    case True
    then obtain a b c where "map_of (rev es) SCE_STRTAB = Some a" "map_of (rev es) SCE_SYMTAB = Some b"
      "map_of (rev es) SCE_HASH = Some c"
      unfolding vendor_complete_def by (metis insert_subset map_of_rev_None not_None_eq)
    then show ?thesis
      using True unfolding info assms(3)
      by (simp add: dynamic_finish_def entries_facts zero last_value_def dynamic_default_def cong: option.case_cong)
  next
    case False
    then have "map_of (rev es) SCE_STRTAB = None \<or> map_of (rev es) SCE_SYMTAB = None \<or> map_of (rev es) SCE_HASH = None"
      unfolding vendor_complete_def map_of_rev_None by blast
    then have "dynamic_finish (entries es scan_default) = sc_info (entries es scan_default)"
      by (auto simp: dynamic_finish_def entries_facts zero split: option.splits)
    then show ?thesis
      using False unfolding info assms(3)
      by (simp add: entries_facts entries_vendor_tables zero last_value_def dynamic_default_def cong: option.case_cong)
  qed
qed

section \<open>A file to run on\<close>

text \<open>A bare file of two program headers and a dynamic table, whose symbol entries claim the largest
  size there is.\<close>

definition demo_header :: "byte list" where
  "demo_header = ELF_MAGIC @ [2, 1] @ replicate 10 0 @ to_le 2 2 @ to_le 2 62 @ to_le 4 1 @ to_le 8 0x1000 @
     to_le 8 64 @ to_le 8 0 @ to_le 4 0 @ to_le 2 64 @ to_le 2 56 @ to_le 2 2 @ to_le 2 0 @ to_le 2 0 @ to_le 2 0"

definition demo_program_header :: "nat \<Rightarrow> nat \<Rightarrow> nat \<Rightarrow> nat \<Rightarrow> byte list" where
  "demo_program_header ty off vaddr n =
     to_le 4 ty @ to_le 4 5 @ to_le 8 off @ to_le 8 vaddr @ to_le 8 0 @ to_le 8 n @ to_le 8 n @ to_le 8 16"

definition demo_dynamic :: "(u64 \<times> u64) list" where
  "demo_dynamic = [(DT_STRTAB, 0x1130), (DT_SYMTAB, 0x1118), (DT_HASH, 0x1110), (DT_STRSZ, 8), (DT_SYMENT, 2 ^ 64 - 1)]"

definition demo_file :: "byte list" where
  "demo_file = demo_header @ demo_program_header PT_LOAD 0 0x1000 312 @
     demo_program_header PT_DYNAMIC 176 0x10b0 96 @
     dynamic_encode demo_dynamic @ dynamic_encode [(0, 0)] @ to_le 4 0 @ to_le 4 2 @ replicate 32 0"

definition demo_elf_header :: Elf64Header where
  "demo_elf_header = \<lparr>e_ident = ELF_MAGIC @ [2, 1] @ replicate 10 0, e_type = 2, e_machine = 62,
     e_version = 1, e_entry = 0x1000, e_phoff = 64, e_shoff = 0, e_flags = 0, e_ehsize = 64,
     e_phentsize = 56, e_phnum = 2, e_shentsize = 0, e_shnum = 0, e_shstrndx = 0\<rparr>"

definition demo_container :: Container where
  "demo_container = \<lparr>c_bytes = demo_file, c_header = demo_elf_header, c_wrapper = None\<rparr>"

definition demo_load :: Elf64ProgramHeader where
  "demo_load = \<lparr>p_type = 1, p_flags = 5, p_offset = 0, p_vaddr = 0x1000, p_paddr = 0,
     p_filesz = 312, p_memsz = 312, p_align = 16\<rparr>"

definition demo_dyn :: Elf64ProgramHeader where
  "demo_dyn = \<lparr>p_type = 2, p_flags = 5, p_offset = 176, p_vaddr = 0x10b0, p_paddr = 0,
     p_filesz = 96, p_memsz = 96, p_align = 16\<rparr>"

lemma demo_length: "length demo_file = 312"
  by code_simp

lemma demo_parsed: "parsed demo_file demo_container"
proof -
  have "read_elf_header demo_file = Some demo_elf_header" "is_either_generation demo_file = False"
    by code_simp+
  then have "container_parse demo_file = Ok demo_container"
    by (simp add: container_parse_def parse_plain_def ok_or_def demo_container_def demo_elf_header_def ELF_MAGIC_def)
  then show ?thesis by (simp add: parsed_def demo_length ISIZE_MAX_def)
qed

lemma demo_headers: "program_headers demo_container = Ok [demo_load, demo_dyn]"
  by code_simp

lemma demo_bare [simp]: "c_wrapper demo_container = None"
  by (simp add: demo_container_def)

lemma demo_vaddr:
  "0x1000 \<le> v \<Longrightarrow> v < 0x1138 \<Longrightarrow> vaddr_to_offset demo_container demo_file v = Ok (Some (v - 0x1000))"
  by (simp add: vaddr_to_offset_def bare_vaddr_to_offset_def demo_headers demo_load_def
    demo_dyn_def covering_offset_def covers_def PT_LOAD_def demo_length saturating_add_def checked_add_def)

lemma demo_table: "get_range demo_file 176 272 = Some (dynamic_encode demo_dynamic @ dynamic_encode [(0, 0)])"
  by code_simp

lemma demo_dynamic_bytes:
  "dynamic_bytes demo_container demo_file = Ok (Some (dynamic_encode demo_dynamic @ dynamic_encode [(0, 0)]))"
proof -
  have "stretch demo_file (Some 176) 96 = Some (dynamic_encode demo_dynamic @ dynamic_encode [(0, 0)])"
    using demo_table by (simp add: stretch_def checked_add_def)
  then show ?thesis
    by (simp add: dynamic_bytes_def demo_headers PT_DYNAMIC_def demo_load_def demo_dyn_def dynamic_choice_def)
qed

text \<open>At the table of a bare file.\<close>

theorem dynamic_parse_exact_witness:
  "di_symtab (dynamic_parse (dynamic_encode demo_dynamic @ dynamic_encode [(0, 0)])) = 0x1118 \<and>
   di_syment (dynamic_parse (dynamic_encode demo_dynamic @ dynamic_encode [(0, 0)])) = 2 ^ 64 - 1"
proof -
  have "\<forall>(t, v) \<in> set demo_dynamic. 0 < t \<and> t < 2 ^ 64 \<and> v < 2 ^ 64"
    by (simp add: demo_dynamic_def)
  from dynamic_parse_exact [OF this refl refl, of 0 "[]"] show ?thesis
    by (simp add: vendor_complete_def last_value_def demo_dynamic_def)
qed

lemma demo_parse:
  "dynamic_parse (dynamic_encode demo_dynamic @ dynamic_encode [(0, 0)]) =
     dynamic_default\<lparr>di_strtab := 0x1130, di_symtab := 0x1118, di_hash := 0x1110, di_strsz := 8, di_syment := 2 ^ 64 - 1\<rparr>"
  by code_simp

lemma demo_count: "symbol_count_at demo_file 272 = Ok 2"
  by code_simp

lemma demo_symbol_tables:
  "symbol_tables ty demo_container demo_file =
     Ok (drop 280 demo_file, take 8 (drop 304 demo_file), 2, 2 ^ 64 - 1)"
proof -
  let ?info = "dynamic_default\<lparr>di_strtab := 0x1130, di_symtab := 0x1118, di_hash := 0x1110, di_strsz := 8,
    di_syment := 2 ^ 64 - 1\<rparr>"
  have t: "table_offset ty demo_container demo_file ?info v = Ok (Some (v - 0x1000))" if "0x1000 \<le> v" "v < 0x1138" for v
    using that by (simp add: table_offset_def demo_vaddr dynamic_default_def)
  have "count_symbols ty demo_container demo_file ?info = Ok (Some 2)"
    using t [of "0x1110"] demo_count by (simp add: count_symbols_def)
  then show ?thesis
    using t [of "0x1130"] t [of "0x1118"]
    by (simp add: symbol_tables_def Let_def demo_dynamic_bytes ok_or_def demo_parse is_usable_def string_table_def
      plain_add_def get_range_def get_from_def demo_length)
qed

lemma symbol_rows_overflow:
  "SYMBOL_SIZE \<le> length symbols \<Longrightarrow> symbol_rows row symbols (2 ^ 64 - 1) (0 # 1 # is) = Panic"
  by (simp add: Let_def saturating_mul_def plain_add_def get_range_def SYMBOL_SIZE_def)

text \<open>The walk over the symbols of a file can overflow: the size of an entry is taken from the file
  unchecked, the position of a row saturates, and the end of the row is computed by a plain sum. On a
  file that parses and whose tables are all found, reading the imports panics.\<close>

theorem symbol_walk_overflows:
  "parsed demo_file demo_container \<and> raw_imports pkg suffix ty demo_container demo_file = Panic"
proof -
  have "SYMBOL_SIZE \<le> length (drop 280 demo_file)" by (simp add: demo_length SYMBOL_SIZE_def)
  note rows = symbol_rows_overflow [OF this]
  have "[0..<2] = [0, 1 :: nat]" by (simp add: upt_rec)
  then show ?thesis
    using rows [of _ "[]"] demo_parsed
    by (simp add: raw_imports_def demo_symbol_tables imports_from_symbols_def symbol_stride_def MAX_SYMBOLS_def)
qed


text \<open>At an address of it.\<close>

theorem vaddr_to_offset_exact_witness:
  "\<exists>i. place_of demo_container demo_file [demo_load, demo_dyn] 0x1110 i 0x110"
  using vaddr_to_offset_exact [OF demo_parsed demo_headers demo_vaddr [of "0x1110"]] by auto

text \<open>At a table of two rows: an import and an export.\<close>

definition demo_package :: nid_package where
  "demo_package = \<lparr>selfish_decode = (\<lambda>name. None), selfish_hash = (\<lambda>name suffix. le_nat (name @ suffix) mod 2 ^ 64)\<rparr>"

definition demo_symbols :: "byte list" where
  "demo_symbols = to_le 4 1 @ [0x12, 0, 0, 0] @ replicate 16 0 @ to_le 4 3 @ [0x12, 0, 5, 0] @ replicate 16 0"

definition demo_strings :: "byte list" where
  "demo_strings = [0, 0x61, 0, 0x62, 0]"

lemma demo_imports:
  "imports_from_symbols demo_package [] demo_symbols demo_strings 2 0 =
     Ok [\<lparr>imp_symbol_index = 0, imp_nid = 0x6100000000000000, imp_form = Plain, imp_kind = Function,
          imp_binding = Global, imp_name = [0x61]\<rparr>]"
  by code_simp

lemma demo_exports:
  "exports_from_symbols demo_package [] demo_symbols demo_strings 2 0 =
     Ok [\<lparr>exp_symbol_index = 1, exp_nid = 0x6200000000000000, exp_form = Plain, exp_kind = Function,
          exp_name = [0x62], exp_offset = 0\<rparr>]"
  by code_simp

theorem symbols_divided_witness:
  "{0, 1} = {i. i < 2 \<and> row_held demo_symbols (symbol_stride 0) i \<and>
     row_named demo_strings (row_of demo_symbols (symbol_stride 0) i)}"
  using symbols_divided [OF demo_imports demo_exports] by auto

text \<open>At a table of two buckets.\<close>

theorem gnu_hash_counts_witness:
  "symbol_count_from_gnu_hash (gnu_table 5 6 [0] [5, 7] [2, 3, 4, 9] @ [1, 2, 3]) = Ok 9"
proof -
  have "odd (last [2, 3, 4, 9 :: nat]) \<and> (\<forall>j. 2 \<le> j \<and> j + 1 < 4 \<longrightarrow> even ([2, 3, 4, 9 :: nat] ! j))"
  proof -
    have "j = 2" if "2 \<le> j" "j + 1 < 4" for j :: nat using that by linarith
    then show ?thesis by auto
  qed
  then show ?thesis
    using gnu_hash_counts [of "[5, 7]" "[0]" 5 "[2, 3, 4, 9]" 7 6 "[1, 2, 3]"]
    by (simp add: MAX_SYMBOLS_def)
qed

end
