(* ===== verification/Host_Rewrite.thy ===== *)
theory Host_Rewrite
  imports Prelude "HOL-Library.Code_Target_Nat"
begin

text \<open>
  Instructions the host lacks, made to run on it (\<^verbatim>\<open>orbistoun-loader/src/rewrite.rs\<close>): what a host
  has, the forms of the instructions only one maker's processors execute, their meaning, the jumps and
  trampolines written for them, and the plan for a module's code. The instruction decoder is another
  package's and an argument: the forms it finds in a stretch of code, each with its address and
  length. What the processor itself reports is an argument too.

  The lemmas show the bits the two field instructions give and that what one inserts the other
  extracts; that a jump lands where it should, and is refused exactly when that is out of reach; and
  that every patch of a plan has the length of the instruction under it, and leads to a trampoline of
  its own that leads back behind it.
\<close>

section \<open>Hosts and forms\<close>

record Host =
  sse4a :: bool
  monitorx :: bool
  clzero :: bool
  rdpru :: bool
  mcommit :: bool
  rehearsal :: bool

definition HOST_FULL :: Host where
  "HOST_FULL = \<lparr>sse4a = True, monitorx = True, clzero = True, rdpru = True, mcommit = True, rehearsal = False\<rparr>"

definition HOST_BARE :: Host where
  "HOST_BARE = \<lparr>sse4a = False, monitorx = False, clzero = False, rdpru = False, mcommit = False, rehearsal = False\<rparr>"

datatype Field = Immediate nat nat | Register

datatype Form =
    Extrq nat nat Field
  | Insertq nat nat Field
  | Monitorx
  | Mwaitx
  | Clzero
  | Rdpru
  | Mcommit

definition has_all :: "Host \<Rightarrow> bool" where
  "has_all h \<longleftrightarrow> sse4a h \<and> monitorx h \<and> clzero h \<and> rdpru h \<and> mcommit h"

fun has :: "Host \<Rightarrow> Form \<Rightarrow> bool" where
  "has h (Extrq _ _ _) = sse4a h"
| "has h (Insertq _ _ _) = sse4a h"
| "has h Monitorx = monitorx h"
| "has h Mwaitx = monitorx h"
| "has h Clzero = clzero h"
| "has h Rdpru = rdpru h"
| "has h Mcommit = mcommit h"

definition rehearses :: "Host \<Rightarrow> Host \<Rightarrow> Form \<Rightarrow> bool" where
  "rehearses detected h form \<longleftrightarrow> rehearsal h \<and> \<not> has h form \<and> has detected form"

section \<open>What the instructions do\<close>

definition field_mask :: "nat \<Rightarrow> 64 word" where
  "field_mask len = drop_bit ((64 - len mod 64) mod 64) (- 1)"

definition extrq :: "128 word \<Rightarrow> nat \<Rightarrow> nat \<Rightarrow> 128 word" where
  "extrq dst len index = ucast (drop_bit (index mod 64) (ucast dst :: 64 word) AND field_mask len)"

definition insertq :: "128 word \<Rightarrow> 64 word \<Rightarrow> nat \<Rightarrow> nat \<Rightarrow> 128 word" where
  "insertq dst src len index =
     (let index = index mod 64; mask = push_bit index (field_mask len)
      in ucast ((ucast dst AND NOT mask) OR push_bit index (src AND field_mask len) :: 64 word))"

definition from_control :: "64 word \<Rightarrow> nat \<times> nat" where
  "from_control control = (unat (control AND 0x3f), unat (drop_bit 8 control AND 0x3f))"

text \<open>The sixteen registers of a faulting thread are a list; a refusal names its form.\<close>

definition emulate :: "Form \<Rightarrow> 128 word list \<Rightarrow> Form + 128 word list" where
  "emulate form xmm =
     (case form of
        Extrq dst src fld \<Rightarrow>
          (let (len, index) = (case fld of
                  Immediate len index \<Rightarrow> (len, index)
                | Register \<Rightarrow> from_control (ucast (xmm ! src)))
           in Inr (xmm[dst := extrq (xmm ! dst) len index]))
      | Insertq dst src fld \<Rightarrow>
          (let source = xmm ! src;
               (len, index) = (case fld of
                  Immediate len index \<Rightarrow> (len, index)
                | Register \<Rightarrow> from_control (ucast (drop_bit 64 source)))
           in Inr (xmm[dst := insertq (xmm ! dst) (ucast source) len index]))
      | Monitorx \<Rightarrow> Inr xmm
      | Mwaitx \<Rightarrow> Inr xmm
      | _ \<Rightarrow> Inl form)"

section \<open>Jumps and trampolines\<close>

definition JUMP :: nat where "JUMP = 5"

text \<open>The distance a jump has to cover, wrapped to 64 bits and read as signed.\<close>

definition distance :: "u64 \<Rightarrow> u64 \<Rightarrow> int" where
  "distance from to = sint (of_nat to - (of_nat from + of_nat JUMP) :: 64 word)"

definition jump :: "u64 \<Rightarrow> u64 \<Rightarrow> byte list option" where
  "jump from to =
     (let rel = distance from to
      in if - (2 ^ 31) \<le> rel \<and> rel < 2 ^ 31
         then Some (0xe9 # to_le 4 (nat (rel mod 2 ^ 32))) else None)"

definition DST :: nat where "DST = 0"
definition SRC :: nat where "SRC = 16"

definition xmm_frame :: "byte \<Rightarrow> nat \<Rightarrow> nat \<Rightarrow> byte list" where
  "xmm_frame opcode xmm disp =
     [0xf3] @ (if xmm \<ge> 8 then [0x44] else []) @
     [0x0f, opcode, 0x44 OR push_bit 3 (of_nat (xmm mod 8)), 0x24, of_nat disp]"

definition load_frame :: "nat \<Rightarrow> nat \<Rightarrow> byte list" where
  "load_frame reg disp = [0x48, 0x8b, 0x44 OR push_bit 3 (of_nat reg), 0x24, of_nat disp]"

definition length_code :: "Field \<Rightarrow> nat \<Rightarrow> byte list" where
  "length_code fld control =
     (case fld of
        Immediate len index \<Rightarrow> [0xb9, of_nat len, 0, 0, 0]
      | Register \<Rightarrow> load_frame 1 control @ [0x83, 0xe1, 0x3f])"

definition index_code :: "Field \<Rightarrow> nat \<Rightarrow> byte list" where
  "index_code fld control =
     (case fld of
        Immediate len index \<Rightarrow> [0xb9, of_nat index, 0, 0, 0]
      | Register \<Rightarrow> load_frame 1 control @ [0xc1, 0xe9, 0x08, 0x83, 0xe1, 0x3f])"

definition mask_code :: "byte list" where
  "mask_code = [0x48, 0xc7, 0xc2, 0xff, 0xff, 0xff, 0xff, 0xf7, 0xd9, 0x83, 0xe1, 0x3f, 0x48, 0xd3, 0xea]"

definition RED_ZONE :: "byte list" where
  "RED_ZONE = [0x48, 0x8d, 0x64, 0x24, 0x80]"

definition trampoline_body :: "bool \<Rightarrow> nat \<Rightarrow> nat \<Rightarrow> Field \<Rightarrow> byte list" where
  "trampoline_body extract dst src fld =
     RED_ZONE @ [0x9c, 0x50, 0x51, 0x52, 0x53] @ [0x48, 0x8d, 0x64, 0x24, 0xe0] @
     xmm_frame 0x7f dst DST @ xmm_frame 0x7f src SRC @ load_frame 0 DST @
     (if extract
      then index_code fld SRC @ [0x48, 0xd3, 0xe8] @ length_code fld SRC @ mask_code @ [0x48, 0x21, 0xd0]
      else load_frame 3 SRC @ length_code fld (SRC + 8) @ mask_code @ [0x48, 0x21, 0xd3] @
        index_code fld (SRC + 8) @
        [0x48, 0xd3, 0xe3, 0x48, 0xd3, 0xe2, 0x48, 0xf7, 0xd2, 0x48, 0x21, 0xd0, 0x48, 0x09, 0xd8]) @
     [0x48, 0x89, 0x44, 0x24, of_nat DST] @ [0x48, 0xc7, 0x44, 0x24, of_nat (DST + 8), 0, 0, 0, 0] @
     xmm_frame 0x6f dst DST @ [0x48, 0x8d, 0x64, 0x24, 0x20] @ [0x5b, 0x5a, 0x59, 0x58, 0x9d] @
     [0x48, 0x8d, 0xa4, 0x24, 0x80, 0, 0, 0]"

definition trampoline :: "Form \<Rightarrow> u64 \<Rightarrow> u64 \<Rightarrow> byte list option" where
  "trampoline form at resume =
     (let finish = (\<lambda>body. map_option ((@) body) (jump (wrapping_add at (length body)) resume))
      in case form of
           Extrq dst src fld \<Rightarrow> finish (trampoline_body True dst src fld)
         | Insertq dst src fld \<Rightarrow> finish (trampoline_body False dst src fld)
         | _ \<Rightarrow> None)"

section \<open>The plan for a module\<close>

datatype How = Trampoline | InPlace | AtFault | Refused

record Rewrite =
  rw_at :: u64
  rw_form :: Form
  rw_how :: How

record ModuleRewrite =
  mr_rewrites :: "Rewrite list"
  mr_patches :: "(u64 \<times> byte list) list"
  mr_room_at :: u64
  mr_room :: "byte list"
  mr_planted :: "(u64 \<times> Form \<times> nat) list"

definition rewrite_empty :: "u64 \<Rightarrow> ModuleRewrite" where
  "rewrite_empty room_at =
     \<lparr>mr_rewrites = [], mr_patches = [], mr_room_at = room_at, mr_room = [], mr_planted = []\<rparr>"

definition UD2 :: "byte list" where "UD2 = [0x0f, 0x0b]"

definition filled :: "nat \<Rightarrow> byte list \<Rightarrow> byte \<Rightarrow> byte list" where
  "filled len head fill = take len head @ replicate (len - length head) fill"

definition rewrite_one ::
  "Host \<Rightarrow> Host \<Rightarrow> Form \<Rightarrow> u64 \<Rightarrow> nat \<Rightarrow> ModuleRewrite \<Rightarrow> How \<times> ModuleRewrite" where
  "rewrite_one detected host form at len out =
     (let patched = (\<lambda>bytes o1. o1\<lparr>mr_patches := mr_patches o1 @ [(at, bytes)]\<rparr>);
          tramp =
            (let place = wrapping_add (mr_room_at out) (length (mr_room out));
                 resume = wrapping_add at len;
                 built = (if len \<ge> JUMP
                          then (case trampoline form place resume of
                                  None \<Rightarrow> None
                                | Some body \<Rightarrow> map_option (Pair body) (jump at place))
                          else None)
             in case built of
                  Some (body, entry) \<Rightarrow>
                    (Trampoline, patched (filled len entry 0xcc) (out\<lparr>mr_room := mr_room out @ body\<rparr>))
                | None \<Rightarrow>
                    (AtFault,
                     if rehearses detected host form
                     then (patched (filled len UD2 0xcc) out)\<lparr>mr_planted := mr_planted out @ [(at, form, len)]\<rparr>
                     else out))
      in case form of
           Monitorx \<Rightarrow> (InPlace, patched (filled len [0x0f, 0x1f, 0x00] 0x90) out)
         | Mwaitx \<Rightarrow> (InPlace, patched (filled len [0xf3, 0x90] 0x90) out)
         | Extrq _ _ _ \<Rightarrow> tramp
         | Insertq _ _ _ \<Rightarrow> tramp
         | _ \<Rightarrow> (Refused, out))"

text \<open>What the decoder finds in a stretch of code: forms with their addresses and lengths.\<close>

type_synonym decoder = "byte list \<Rightarrow> u64 \<Rightarrow> (Form option \<times> u64 \<times> nat) list"

fun rewrite_site :: "Host \<Rightarrow> Host \<Rightarrow> Form option \<times> u64 \<times> nat \<Rightarrow> ModuleRewrite \<Rightarrow> ModuleRewrite" where
  "rewrite_site detected host (None, at, len) out = out"
| "rewrite_site detected host (Some form, at, len) out =
     (if has host form then out
      else let (how, o1) = rewrite_one detected host form at len out
      in o1\<lparr>mr_rewrites := mr_rewrites o1 @ [\<lparr>rw_at = at, rw_form = form, rw_how = how\<rparr>]\<rparr>)"

definition rewrite_plan ::
  "decoder \<Rightarrow> Host \<Rightarrow> (byte list \<times> u64) list \<Rightarrow> Host \<Rightarrow> u64 \<Rightarrow> ModuleRewrite" where
  "rewrite_plan decode detected code host room_at =
     (if has_all host then rewrite_empty room_at
      else fold (rewrite_site detected host) (concat (map (\<lambda>(segment, start). decode segment start) code))
        (rewrite_empty room_at))"

text \<open>Sites a rehearsal planted, and what faulted.\<close>

definition register_planted :: "(u64 \<times> Form \<times> nat) list \<Rightarrow> (u64 \<rightharpoonup> Form \<times> nat) \<Rightarrow> (u64 \<rightharpoonup> Form \<times> nat)" where
  "register_planted sites planted = planted ++ map_of (rev sites)"

definition faulted ::
  "(byte list \<Rightarrow> u64 \<Rightarrow> (Form \<times> nat) option) \<Rightarrow> (u64 \<rightharpoonup> Form \<times> nat) \<Rightarrow> byte list \<Rightarrow> u64 \<Rightarrow> (Form \<times> nat) option" where
  "faulted decode_one planted code rip =
     (if take 2 code = UD2 then planted rip else decode_one code rip)"

section \<open>Fields\<close>

text \<open>How many bits a length of six bits stands for.\<close>

definition width :: "nat \<Rightarrow> nat" where
  "width len = (if len mod 64 = 0 then 64 else len mod 64)"

lemma width_bounds: "0 < width len" "width len \<le> 64"
  using mod_less_divisor [of 64 len] by (auto simp: width_def intro: less_imp_le)

lemma bit_field_mask: "bit (field_mask len) i \<longleftrightarrow> i < width len"
proof -
  have "bit (field_mask len) i \<longleftrightarrow> (64 - len mod 64) mod 64 + i < 64"
    unfolding field_mask_def bit_drop_bit_eq o_def bit_minus_1_iff possible_bit_word by simp
  also have "\<dots> \<longleftrightarrow> i < width len"
    using mod_less_divisor [of 64 len] by (cases "len mod 64 = 0") (auto simp: width_def)
  finally show ?thesis .
qed

lemma bit_extrq:
  "bit (extrq dst len index) i \<longleftrightarrow> i < width len \<and> i + index mod 64 < 64 \<and> bit dst (i + index mod 64)"
  using width_bounds(2) [of len] by (auto simp: extrq_def bit_simps bit_field_mask add.commute)

lemma bit_insertq:
  "bit (insertq dst src len index) i \<longleftrightarrow> i < 64 \<and>
     (if index mod 64 \<le> i \<and> i < index mod 64 + width len then bit src (i - index mod 64) else bit dst i)"
  using width_bounds(2) [of len] by (auto simp: insertq_def bit_simps bit_field_mask Let_def)

text \<open>The two field instructions, bit by bit: an extract gives the named field at the bottom of a
  cleared register, an insert replaces the named field of the low quadword and nothing else of it, the
  part of a field past bit 63 does not exist, and extracting the field just inserted gives the bits
  that were inserted.\<close>

theorem field_instructions:
  "(bit (extrq dst len index) i \<longleftrightarrow> i < width len \<and> i + index mod 64 < 64 \<and> bit dst (i + index mod 64)) \<and>
   (bit (insertq dst src len index) i \<longleftrightarrow> i < 64 \<and>
     (if index mod 64 \<le> i \<and> i < index mod 64 + width len then bit src (i - index mod 64) else bit dst i)) \<and>
   (bit (extrq (insertq dst src len index) len index) i \<longleftrightarrow>
     i < width len \<and> i + index mod 64 < 64 \<and> bit src i)"
  by (auto simp: bit_extrq bit_insertq)

section \<open>Jumps\<close>

lemma jump_Some:
  assumes "jump from to = Some bs"
  shows "bs = 0xe9 # to_le 4 (nat (distance from to mod 2 ^ 32))" "- (2 ^ 31) \<le> distance from to"
    "distance from to < 2 ^ 31"
  using assms by (auto simp: jump_def Let_def split: if_splits)

lemma jump_length: "jump from to = Some bs \<Longrightarrow> length bs = JUMP"
  by (auto simp: JUMP_def dest!: jump_Some(1))

text \<open>A jump of five bytes lands where it was made to: the address behind it plus the signed 32-bit
  offset it carries, wrapped to 64 bits, is the target. It is refused exactly when that offset does
  not fit.\<close>

theorem jump_lands:
  "case jump from to of
     Some bs \<Rightarrow> length bs = JUMP \<and> hd bs = 0xe9 \<and>
       of_nat from + of_nat (length bs) + (scast (of_nat (le_nat (tl bs)) :: 32 word) :: 64 word) = of_nat to
   | None \<Rightarrow> distance from to < - (2 ^ 31) \<or> distance from to \<ge> 2 ^ 31"
proof (cases "jump from to")
  case None
  then show ?thesis by (auto simp: jump_def Let_def split: if_splits)
next
  case (Some bs)
  let ?d = "distance from to"
  note j = jump_Some [OF Some]
  have "le_nat (tl bs) = nat (?d mod 2 ^ 32)"
    unfolding j(1) using pos_mod_bound [of "2 ^ 32" ?d]
    by (simp add: le_nat_to_le nat_less_iff)
  moreover have "(of_nat (nat (?d mod 2 ^ 32)) :: 32 word) = word_of_int (?d mod 2 ^ 32)"
    by (rule word_of_int_nat [symmetric]) simp
  moreover have "(word_of_int (?d mod 2 ^ 32) :: 32 word) = word_of_int ?d"
    by (simp add: word_of_int_eq_iff take_bit_eq_mod)
  ultimately have "(of_nat (le_nat (tl bs)) :: 32 word) = word_of_int ?d" by simp
  then have "(scast (of_nat (le_nat (tl bs)) :: 32 word) :: 64 word) = word_of_int (signed_take_bit 31 ?d)"
    by (simp add: signed_of_int)
  also have "signed_take_bit 31 ?d = ?d"
    using j(2,3) by (intro signed_take_bit_int_eq_self) auto
  also have "word_of_int ?d = (of_nat to - (of_nat from + of_nat JUMP) :: 64 word)"
    by (simp add: distance_def)
  finally show ?thesis using Some j(1) jump_length [OF Some] by simp
qed

section \<open>Plans\<close>

lemma length_filled [simp]: "length (filled len head fill) = len"
  by (simp add: filled_def)

text \<open>What a plan promises of one site: a patch of the site's own length, and for a trampoline a body
  in the room that the patch leads to and that leads back behind the site.\<close>

definition linked :: "u64 \<Rightarrow> ModuleRewrite \<Rightarrow> Rewrite \<Rightarrow> nat \<Rightarrow> bool" where
  "linked room_at out r len \<longleftrightarrow> (\<exists>off body entry.
     JUMP \<le> len \<and> off + length body \<le> length (mr_room out) \<and> take (length body) (drop off (mr_room out)) = body \<and>
     trampoline (rw_form r) (wrapping_add room_at off) (wrapping_add (rw_at r) len) = Some body \<and>
     jump (rw_at r) (wrapping_add room_at off) = Some entry \<and>
     (rw_at r, filled len entry 0xcc) \<in> set (mr_patches out))"

definition plan_ok :: "Host \<Rightarrow> u64 \<Rightarrow> (Form option \<times> u64 \<times> nat) list \<Rightarrow> ModuleRewrite \<Rightarrow> bool" where
  "plan_ok host room_at sites out \<longleftrightarrow> mr_room_at out = room_at \<and>
     (\<forall>(at, bs) \<in> set (mr_patches out). \<exists>form. (Some form, at, length bs) \<in> set sites \<and> \<not> has host form) \<and>
     (\<forall>r \<in> set (mr_rewrites out). \<not> has host (rw_form r) \<and>
        (\<exists>len. (Some (rw_form r), rw_at r, len) \<in> set sites \<and> (rw_how r = Trampoline \<longrightarrow> linked room_at out r len))) \<and>
     map (\<lambda>r. (Some (rw_form r), rw_at r)) (mr_rewrites out) =
       [(f, at). (f, at, len) \<leftarrow> sites, (case f of None \<Rightarrow> False | Some form \<Rightarrow> \<not> has host form)]"

lemma linked_mono:
  assumes "linked room_at out r len" "\<exists>more. mr_room out' = mr_room out @ more"
    "set (mr_patches out) \<subseteq> set (mr_patches out')"
  shows "linked room_at out' r len"
proof -
  obtain off body entry where l: "JUMP \<le> len" "off + length body \<le> length (mr_room out)"
    "take (length body) (drop off (mr_room out)) = body"
    "trampoline (rw_form r) (wrapping_add room_at off) (wrapping_add (rw_at r) len) = Some body"
    "jump (rw_at r) (wrapping_add room_at off) = Some entry" "(rw_at r, filled len entry 0xcc) \<in> set (mr_patches out)"
    using assms(1) by (auto simp: linked_def)
  have "off + length body \<le> length (mr_room out')" "take (length body) (drop off (mr_room out')) = body"
    using assms(2) l(2,3) by auto
  then show ?thesis using l assms(3) by (auto simp: linked_def)
qed

lemma rewrite_one_keeps:
  assumes "rewrite_one detected host form at len out = (how, out')"
  shows "mr_room_at out' = mr_room_at out" "\<exists>more. mr_room out' = mr_room out @ more"
    "set (mr_patches out) \<subseteq> set (mr_patches out')" "mr_rewrites out' = mr_rewrites out"
    "\<forall>p \<in> set (mr_patches out') - set (mr_patches out). fst p = at \<and> length (snd p) = len"
  using assms by (auto simp: rewrite_one_def Let_def split: Form.splits option.splits if_splits)

lemma trampoline_built:
  assumes "JUMP \<le> len" "trampoline form (wrapping_add (mr_room_at out) (length (mr_room out))) (wrapping_add at len) = Some body"
    "jump at (wrapping_add (mr_room_at out) (length (mr_room out))) = Some entry"
    "mr_room out' = mr_room out @ body" "(at, filled len entry 0xcc) \<in> set (mr_patches out')"
  shows "linked (mr_room_at out) out' \<lparr>rw_at = at, rw_form = form, rw_how = how\<rparr> len"
  unfolding linked_def
  by (rule exI [of _ "length (mr_room out)"], rule exI [of _ body], rule exI [of _ entry])
    (use assms in simp)

lemma rewrite_one_links:
  assumes "rewrite_one detected host form at len out = (Trampoline, out')"
  shows "linked (mr_room_at out) out' \<lparr>rw_at = at, rw_form = form, rw_how = how\<rparr> len"
proof -
  let ?place = "wrapping_add (mr_room_at out) (length (mr_room out))" let ?after = "wrapping_add at len"
  obtain body entry where "JUMP \<le> len" "trampoline form ?place ?after = Some body" "jump at ?place = Some entry"
    "mr_room out' = mr_room out @ body" "(at, filled len entry 0xcc) \<in> set (mr_patches out')"
    using assms
    by (auto simp: rewrite_one_def Let_def split: Form.splits option.splits if_splits)
  then show ?thesis by (rule trampoline_built)
qed

lemma plan_ok_site:
  assumes "plan_ok host room_at sites out"
  shows "plan_ok host room_at (sites @ [site]) (rewrite_site detected host site out)"
proof -
  obtain f at len where site: "site = (f, at, len)" by (cases site)
  show ?thesis
  proof (cases "\<exists>form. f = Some form \<and> \<not> has host form")
    case False
    then have "rewrite_site detected host site out = out" by (cases f) (auto simp: site)
    then show ?thesis using assms False by (fastforce simp: plan_ok_def site split: option.splits)
  next
    case True
    then obtain form where form: "f = Some form" "\<not> has host form" by blast
    obtain how o1 where one: "rewrite_one detected host form at len out = (how, o1)" by fastforce
    note keeps = rewrite_one_keeps [OF one]
    let ?r = "\<lparr>rw_at = at, rw_form = form, rw_how = how\<rparr>"
    let ?o = "o1\<lparr>mr_rewrites := mr_rewrites o1 @ [?r]\<rparr>"
    have o: "rewrite_site detected host site out = ?o" using form one by (simp add: site)
    have room: "mr_room_at out = room_at" using assms by (simp add: plan_ok_def)
    have new: "linked room_at ?o ?r len" if "how = Trampoline"
    proof -
      have "linked (mr_room_at out) o1 ?r len" using one unfolding that by (rule rewrite_one_links)
      then show ?thesis unfolding room by (rule linked_mono) simp_all
    qed
    have old: "linked room_at ?o r n" if "linked room_at out r n" for r n
      using that by (rule linked_mono) (use keeps(2,3) in auto)
    have patches: "\<exists>form. (Some form, fst p, length (snd p)) \<in> set (sites @ [site]) \<and> \<not> has host form"
      if "p \<in> set (mr_patches ?o)" for p
    proof (cases "p \<in> set (mr_patches out)")
      case True
      then show ?thesis using assms by (fastforce simp: plan_ok_def)
    next
      case False
      then have "fst p = at" "length (snd p) = len" using that keeps(5) by auto
      then show ?thesis using form by (auto simp: site)
    qed
    have sites: "\<exists>n. (Some (rw_form r), rw_at r, n) \<in> set (sites @ [site]) \<and> (rw_how r = Trampoline \<longrightarrow> linked room_at ?o r n)"
      "\<not> has host (rw_form r)" if r: "r \<in> set (mr_rewrites ?o)" for r
    proof -
      have "(\<exists>n. (Some (rw_form r), rw_at r, n) \<in> set sites \<and> (rw_how r = Trampoline \<longrightarrow> linked room_at out r n)) \<and>
          \<not> has host (rw_form r) \<or> r = ?r"
        using r keeps(4) assms by (auto simp: plan_ok_def)
      then show "\<exists>n. (Some (rw_form r), rw_at r, n) \<in> set (sites @ [site]) \<and> (rw_how r = Trampoline \<longrightarrow> linked room_at ?o r n)"
      proof (elim disjE conjE exE)
        fix n
        assume "(Some (rw_form r), rw_at r, n) \<in> set sites" "rw_how r = Trampoline \<longrightarrow> linked room_at out r n"
        then show ?thesis using old by (intro exI [of _ n]) simp
      next
        assume "r = ?r"
        then show ?thesis using new form by (intro exI [of _ len]) (simp add: site)
      qed
      show "\<not> has host (rw_form r)" using r keeps(4) assms form by (auto simp: plan_ok_def)
    qed
    have "map (\<lambda>r. (Some (rw_form r), rw_at r)) (mr_rewrites ?o) =
       [(f, at). (f, at, len) \<leftarrow> sites @ [site], (case f of None \<Rightarrow> False | Some form \<Rightarrow> \<not> has host form)]"
      using assms form by (simp add: plan_ok_def site keeps(4))
    then show ?thesis
      unfolding o plan_ok_def using patches sites room keeps(1) by auto
  qed
qed

lemma plan_ok_all: "plan_ok host room_at sites (fold (rewrite_site detected host) sites (rewrite_empty room_at))"
proof (induction sites rule: rev_induct)
  case Nil
  then show ?case by (simp add: plan_ok_def rewrite_empty_def)
next
  case (snoc site sites)
  then show ?case using plan_ok_site by simp
qed

lemma lacks_some: "\<not> has host form \<Longrightarrow> \<not> has_all host"
  by (cases form) (auto simp: has_all_def)

lemma plan_sites:
  assumes "(at, bs) \<in> set (mr_patches (rewrite_plan decode detected code host room_at))"
  shows "\<exists>form. (Some form, at, length bs) \<in> set (concat (map (\<lambda>(segment, start). decode segment start) code))"
proof (cases "has_all host")
  case True
  then show ?thesis using assms by (simp add: rewrite_plan_def rewrite_empty_def)
next
  case False
  then have "plan_ok host room_at (concat (map (\<lambda>(segment, start). decode segment start) code))
      (rewrite_plan decode detected code host room_at)"
    unfolding rewrite_plan_def using plan_ok_all by simp
  then show ?thesis using assms unfolding plan_ok_def by (blast dest: bspec)
qed

text \<open>The plan for a module's code lists, in order, exactly the instructions the host lacks. Every
  patch lies over one of them and has its length, so nothing beside it is written. And each one made
  to jump leads to a trampoline that lies whole in the room and ends in a jump back behind it.\<close>

theorem rewrite_plan_links:
  assumes "sites = concat (map (\<lambda>(segment, start). decode segment start) code)"
    "out = rewrite_plan decode detected code host room_at"
  shows "map (\<lambda>r. (Some (rw_form r), rw_at r)) (mr_rewrites out) =
      [(f, at). (f, at, len) \<leftarrow> sites, (case f of None \<Rightarrow> False | Some form \<Rightarrow> \<not> has host form)] \<and>
    (\<forall>(at, bs) \<in> set (mr_patches out). \<exists>form. (Some form, at, length bs) \<in> set sites \<and> \<not> has host form) \<and>
    (\<forall>r \<in> set (mr_rewrites out). rw_how r = Trampoline \<longrightarrow>
       (\<exists>len. (Some (rw_form r), rw_at r, len) \<in> set sites \<and> linked room_at out r len))"
proof (cases "has_all host")
  case True
  then have "has host form" for form using lacks_some by blast
  then show ?thesis
    using True assms(2)
    by (auto simp: rewrite_plan_def rewrite_empty_def map_concat o_def split: option.splits)
next
  case False
  then have "plan_ok host room_at sites out"
    unfolding assms(2) rewrite_plan_def assms(1) [symmetric] using plan_ok_all by simp
  then show ?thesis by (auto simp: plan_ok_def)
qed

text \<open>At one instruction of six bytes, on a host without it.\<close>

theorem rewrite_plan_links_witness:
  "rw_how (hd (mr_rewrites (rewrite_plan (\<lambda>segment start. [(Some (Extrq 2 2 (Immediate 8 4)), start, 6)])
      HOST_BARE [([], 0x1000)] HOST_BARE 0x2000))) = Trampoline \<and>
   linked 0x2000 (rewrite_plan (\<lambda>segment start. [(Some (Extrq 2 2 (Immediate 8 4)), start, 6)])
      HOST_BARE [([], 0x1000)] HOST_BARE 0x2000) \<lparr>rw_at = 0x1000, rw_form = Extrq 2 2 (Immediate 8 4), rw_how = Trampoline\<rparr> 6"
proof -
  let ?d = "\<lambda>segment start. [(Some (Extrq 2 2 (Immediate 8 4)), start, 6)]"
  let ?out = "rewrite_plan ?d HOST_BARE [([], 0x1000)] HOST_BARE 0x2000"
  have "mr_rewrites ?out = [\<lparr>rw_at = 0x1000, rw_form = Extrq 2 2 (Immediate 8 4), rw_how = Trampoline\<rparr>]"
    by code_simp
  then show ?thesis
    using rewrite_plan_links [OF refl refl, where decode = ?d and code = "[([], 0x1000)]" and detected = HOST_BARE
      and host = HOST_BARE and room_at = "0x2000"] by auto
qed

end
