(* ===== verification/Module_Image.thy ===== *)
theory Module_Image
  imports Elf_Symbols Host_Rewrite Address_Space Guest_Memory
begin

text \<open>
  Loading a module (\<^verbatim>\<open>orbistoun-loader/src\<close>): the layout of its loadable segments and their placement
  in memory (\<^verbatim>\<open>image.rs\<close>), the relocations applied to the placed image (\<^verbatim>\<open>relocate.rs\<close>), the access
  each page is left with (\<^verbatim>\<open>protect.rs\<close>), and the block of thread-local storage (\<^verbatim>\<open>tls.rs\<close>). The host's
  memory calls are arguments, as in the address space, and so are the host's allocation granularity,
  the byte a run fills \<^verbatim>\<open>.bss\<close> with, and the instruction decoder.

  The lemmas show that every relocation is written inside the image or counted, and that the slots
  written are exactly those recorded; that a page ends up with the union of the access of the segments
  on it; that placing a module writes only inside its span when no segment has more bytes in the file
  than in memory, and, as an error path, that it writes past its span otherwise; and that a
  thread-local variable is found below the thread pointer with the value the module gave it.
\<close>

section \<open>Segments and their layout\<close>

datatype LoadError =
    ElfFailed ElfError
  | MemoryFailed MemError
  | NothingToLoad
  | AddressTooLarge u64
  | RelocationOutOfBounds u64 u64 u64

text \<open>The \<open>?\<close> that turns an error of the container into one of the loader.\<close>

fun from_elf :: "(ElfError, 'a) outcome \<Rightarrow> (LoadError, 'a) outcome" where
  "from_elf (Ok x) = Ok x"
| "from_elf (Err e) = Err (ElfFailed e)"
| "from_elf Panic = Panic"

lemma from_elf_Ok [ok_iff, simp]: "from_elf m = Ok x \<longleftrightarrow> m = Ok x"
  by (cases m) auto

record PlacedSegment =
  ps_index :: nat
  ps_address :: u64
  ps_copied :: u64
  ps_zeroed :: u64
  ps_flags :: nat

definition ps_memsz :: "PlacedSegment \<Rightarrow> u64" where
  "ps_memsz s = saturating_add (ps_copied s) (ps_zeroed s)"

definition ps_protection :: "PlacedSegment \<Rightarrow> protection" where
  "ps_protection s =
     (let asked = from_elf_flags (of_nat (ps_flags s))
      in if prot_read asked \<or> prot_write asked \<or> prot_execute asked then asked else READ_WRITE)"

record Image =
  im_space :: AddressSpace
  im_base :: u64
  im_entry :: u64
  im_span :: "u64 \<times> u64"
  im_segments :: "PlacedSegment list"
  im_room :: "u64 \<times> u64"
  im_rewrites :: "Rewrite list"

definition segment_containing :: "u64 \<Rightarrow> Image \<Rightarrow> PlacedSegment option" where
  "segment_containing address im =
     find (\<lambda>s. ps_address s \<le> address \<and> address < saturating_add (ps_address s) (ps_memsz s)) (im_segments im)"

definition is_executable :: "u64 \<Rightarrow> Image \<Rightarrow> bool" where
  "is_executable address im =
     (case segment_containing address im of None \<Rightarrow> False | Some s \<Rightarrow> prot_execute (ps_protection s))"

definition entry_is_executable :: "Image \<Rightarrow> bool" where
  "entry_is_executable im = is_executable (im_entry im) im"

definition PF_X :: nat where "PF_X = 1"

type_synonym loadable = "(nat \<times> Elf64ProgramHeader) list"

definition loadable_of :: "Elf64ProgramHeader list \<Rightarrow> loadable" where
  "loadable_of headers = filter (\<lambda>(i, ph). p_type ph = PT_LOAD \<and> p_memsz ph > 0) (enumerate 0 headers)"

definition segment_address :: "u64 \<Rightarrow> Elf64ProgramHeader \<Rightarrow> u64" where
  "segment_address base ph = saturating_add base (p_vaddr ph)"

definition segment_end :: "u64 \<Rightarrow> Elf64ProgramHeader \<Rightarrow> u64" where
  "segment_end base ph = saturating_add (segment_address base ph) (p_memsz ph)"

definition layout ::
  "u64 \<Rightarrow> Container \<Rightarrow> u64 \<Rightarrow> u64 \<Rightarrow> (LoadError, loadable \<times> u64 \<times> u64) outcome" where
  "layout granularity c base page =
     out_bind (from_elf (program_headers c)) (\<lambda>headers.
       let loadable = loadable_of headers
       in if loadable = [] then Err NothingToLoad
          else if page = 0 then Panic
          else let lowest = Min (set (map (\<lambda>(_, ph). segment_address base ph) loadable));
                   highest = Max (set (map (\<lambda>(_, ph). segment_end base ph) loadable));
                   gran = max granularity page;
                   span_base = lowest div gran * gran
          in Ok (loadable, span_base, saturating_mul (div_ceil highest page) page - span_base))"

section \<open>Placing the bytes\<close>

text \<open>The marker a diagnostic run writes in each slot of \<^verbatim>\<open>.bss\<close>: the fill byte above the slot's own
  address.\<close>

definition bss_marker :: "byte \<Rightarrow> u64 \<Rightarrow> u64" where
  "bss_marker fill at = unat fill * 2 ^ 56 + at mod 2 ^ 56"

fun mark_slots :: "u64 \<Rightarrow> byte \<Rightarrow> nat list \<Rightarrow> memory \<Rightarrow> memory" where
  "mark_slots tail fill [] m = m"
| "mark_slots tail fill (slot # slots) m =
     (let at = saturating_add tail (saturating_mul slot 8)
      in mark_slots tail fill slots (store at (to_le 8 (bss_marker fill at)) m))"

definition mark_bss :: "u64 \<Rightarrow> u64 \<Rightarrow> byte \<Rightarrow> memory \<Rightarrow> memory" where
  "mark_bss tail len fill m = mark_slots tail fill [0..<len div 8] m"

definition fill_bss :: "byte \<Rightarrow> u64 \<Rightarrow> u64 \<Rightarrow> memory \<Rightarrow> memory" where
  "fill_bss fill tail zeroed m =
     (if zeroed > 0
      then (let m1 = store tail (replicate zeroed fill) m
            in if fill \<noteq> 0 then mark_bss tail zeroed fill m1 else m1)
      else m)"

definition place_segment ::
  "byte \<Rightarrow> u64 \<Rightarrow> nat \<times> Elf64ProgramHeader \<Rightarrow> byte list \<Rightarrow> memory \<Rightarrow> PlacedSegment \<times> memory" where
  "place_segment fill base iph data m =
     (let (index, ph) = iph;
          address = segment_address base ph;
          copied = min (length data) (p_filesz ph);
          zeroed = saturating_sub (p_memsz ph) copied;
          m1 = store address (take copied data) m
      in (\<lparr>ps_index = index, ps_address = address, ps_copied = copied, ps_zeroed = zeroed,
            ps_flags = p_flags ph\<rparr>,
          fill_bss fill (saturating_add address copied) zeroed m1))"

fun place_segments ::
  "byte \<Rightarrow> Container \<Rightarrow> byte list \<Rightarrow> u64 \<Rightarrow> loadable \<Rightarrow> memory \<Rightarrow> (LoadError, PlacedSegment list \<times> memory) outcome" where
  "place_segments fill c whole base [] m = Ok ([], m)"
| "place_segments fill c whole base ((i, ph) # rest) m =
     out_bind (from_elf (segment_data c whole i)) (\<lambda>d.
       let (s, m1) = place_segment fill base (i, ph) (case d of None \<Rightarrow> [] | Some data \<Rightarrow> data) m
       in out_bind (place_segments fill c whole base rest m1) (\<lambda>(ss, m2). Ok (s # ss, m2)))"

fun executable_code ::
  "Container \<Rightarrow> byte list \<Rightarrow> u64 \<Rightarrow> loadable \<Rightarrow> (LoadError, (byte list \<times> u64) list) outcome" where
  "executable_code c whole base [] = Ok []"
| "executable_code c whole base ((i, ph) # rest) =
     (if p_flags ph AND PF_X \<noteq> 0
      then out_bind (from_elf (segment_data c whole i)) (\<lambda>d.
           out_bind (executable_code c whole base rest) (\<lambda>code.
             Ok (case d of None \<Rightarrow> code | Some bytes \<Rightarrow> (bytes, segment_address base ph) # code)))
      else executable_code c whole base rest)"

text \<open>What of the host a placement depends on.\<close>

record placing =
  pl_reserve :: host_call
  pl_granularity :: u64
  pl_fill :: byte
  pl_decode :: decoder
  pl_detected :: Host

definition place_for ::
  "placing \<Rightarrow> byte list \<Rightarrow> u64 \<Rightarrow> u64 \<Rightarrow> Host \<Rightarrow> memory \<Rightarrow> (LoadError, Image \<times> memory) outcome" where
  "place_for pl whole base page host m =
     out_bind (from_elf (container_parse whole)) (\<lambda>c.
     out_bind (layout (pl_granularity pl) c base page) (\<lambda>(loadable, span_base, code_len).
     out_bind (executable_code c whole base loadable) (\<lambda>code.
       let room_at = saturating_add span_base code_len;
           rewrite = rewrite_plan (pl_decode pl) (pl_detected pl) code host room_at;
           room_len = saturating_mul (div_ceil (length (mr_room rewrite)) page) page;
           span_len = saturating_add code_len room_len
       in case reserve (pl_reserve pl) span_base span_len READ_WRITE address_space_new of
            (Inl e, _) \<Rightarrow> Err (MemoryFailed e)
          | (Inr _, space) \<Rightarrow>
              out_bind (place_segments (pl_fill pl) c whole base loadable m) (\<lambda>(segments, m1).
                let m2 = fold (\<lambda>(at, bytes). store at bytes) (mr_patches rewrite) m1;
                    m3 = store room_at (mr_room rewrite) m2
                in Ok (\<lparr>im_space = space, im_base = base,
                        im_entry = saturating_add base (e_entry (c_header c)),
                        im_span = (span_base, span_len), im_segments = segments,
                        im_room = (room_at, room_len), im_rewrites = mr_rewrites rewrite\<rparr>, m3)))))"

section \<open>Thread-local storage\<close>

definition PT_TLS :: nat where "PT_TLS = 7"
definition TCB_SIZE :: u64 where "TCB_SIZE = 64"
definition MAIN_MODULE_ID :: u64 where "MAIN_MODULE_ID = 1"

record TlsLayout =
  tls_init_size :: u64
  tls_total_size :: u64
  tls_align :: u64
  tls_block_size :: u64
  tls_module :: u64

definition tls_layout_new :: "u64 \<Rightarrow> u64 \<Rightarrow> u64 \<Rightarrow> TlsLayout" where
  "tls_layout_new init_size total_size align0 =
     (let align = (if align0 = 0 then 1 else align0)
      in \<lparr>tls_init_size = min init_size total_size, tls_total_size = total_size, tls_align = align,
          tls_block_size = saturating_mul (div_ceil total_size align) align, tls_module = MAIN_MODULE_ID\<rparr>)"

definition as_module :: "u64 \<Rightarrow> TlsLayout \<Rightarrow> TlsLayout" where
  "as_module i t = t\<lparr>tls_module := i\<rparr>"

definition is_main :: "TlsLayout \<Rightarrow> bool" where
  "is_main t \<longleftrightarrow> tls_module t = MAIN_MODULE_ID"

definition allocation_size :: "TlsLayout \<Rightarrow> u64" where
  "allocation_size t = saturating_add (tls_block_size t) TCB_SIZE"

definition thread_pointer :: "TlsLayout \<Rightarrow> u64 \<Rightarrow> u64" where
  "thread_pointer t base = saturating_add base (tls_block_size t)"

text \<open>The offset is signed in the code; what is used of it is its 64 bits.\<close>

definition tp_offset :: "TlsLayout \<Rightarrow> u64 \<Rightarrow> u64" where
  "tp_offset t module_offset = wrapping_sub module_offset (tls_block_size t)"

definition zero_fill :: "TlsLayout \<Rightarrow> u64" where
  "zero_fill t = saturating_sub (tls_total_size t) (tls_init_size t)"

definition put_at :: "nat \<Rightarrow> 'a list \<Rightarrow> 'a list \<Rightarrow> 'a list" where
  "put_at n xs dest = take n dest @ xs @ drop (n + length xs) dest"

definition render_block :: "TlsLayout \<Rightarrow> u64 \<Rightarrow> nat \<Rightarrow> byte list \<Rightarrow> (unit, u64 \<times> byte list) outcome" where
  "render_block t base dest_len tdata =
     (let tp = thread_pointer t base;
          n = min (min (tls_init_size t) (length tdata)) dest_len;
          dest = put_at 0 (take n tdata) (replicate dest_len 0);
          slot = tls_block_size t
      in out_bind (plain_add slot 8) (\<lambda>stop.
           Ok (tp, if stop \<le> dest_len then put_at slot (to_le 8 tp) dest else dest)))"

definition tls_layout_of :: "byte list \<Rightarrow> (LoadError, (TlsLayout \<times> nat \<times> u64) option) outcome" where
  "tls_layout_of whole =
     out_bind (from_elf (container_parse whole)) (\<lambda>c.
     out_bind (from_elf (program_headers c)) (\<lambda>headers.
       Ok (map_option
         (\<lambda>(i, ph). (tls_layout_new (p_filesz ph) (p_memsz ph) (p_align ph), i, p_vaddr ph))
         (find (\<lambda>(i, ph). p_type ph = PT_TLS) (enumerate 0 headers)))))"

section \<open>A thread's block\<close>

lemma length_put_at: "n + length xs \<le> length dest \<Longrightarrow> length (put_at n xs dest) = length dest"
  by (simp add: put_at_def)

lemma put_at_nth:
  "n + length xs \<le> length dest \<Longrightarrow> i < length dest \<Longrightarrow>
   put_at n xs dest ! i = (if n \<le> i \<and> i < n + length xs then xs ! (i - n) else dest ! i)"
  by (auto simp: put_at_def nth_append)

lemma put_at_read: "n + length xs \<le> length dest \<Longrightarrow> take (length xs) (drop n (put_at n xs dest)) = xs"
  by (simp add: put_at_def)

lemma tls_block_size_bounds:
  assumes "t = tls_layout_new init_size total_size align" "tls_block_size t < U64_MAX"
  shows "total_size \<le> tls_block_size t" "tls_align t dvd tls_block_size t"
proof -
  let ?a = "if align = 0 then 1 else align"
  have "tls_block_size t = div_ceil total_size ?a * ?a"
    using assms by (auto simp: tls_layout_new_def Let_def saturating_mul_def)
  moreover have "tls_align t = ?a" using assms(1) by (simp add: tls_layout_new_def Let_def)
  ultimately show "total_size \<le> tls_block_size t" "tls_align t dvd tls_block_size t"
    using div_ceil_bounds [of ?a total_size] by auto
qed

text \<open>A thread's block of thread-local storage: the word at the thread pointer is the thread pointer;
  the variable at offset \<open>v\<close> of the module, read at the thread pointer plus the offset a relocation is
  given for it, lies at \<open>v\<close> in the block and holds the module's initial byte, or zero past them; and the
  block is aligned as the module asked.\<close>

theorem tls_variable_found:
  assumes "t = tls_layout_new init_size total_size align" "base + allocation_size t < U64_MAX"
    "length tdata = init_size" "v < total_size"
  shows "case render_block t base (allocation_size t) tdata of
      Ok (tp, dest) \<Rightarrow> length dest = allocation_size t \<and> le_nat (take 8 (drop (tp - base) dest)) = tp \<and>
        wrapping_add tp (tp_offset t v) = base + v \<and> tls_align t dvd tp - base \<and>
        dest ! v = (if v < init_size then tdata ! v else 0)
    | _ \<Rightarrow> False"
proof -
  let ?b = "tls_block_size t"
  have size: "allocation_size t = ?b + 64" "base + ?b + 64 < U64_MAX"
    using assms(2) by (auto simp: allocation_size_def saturating_add_def TCB_SIZE_def min_def split: if_splits)
  then have "?b < U64_MAX" by linarith
  note b = tls_block_size_bounds [OF assms(1) this]
  have tp: "thread_pointer t base = base + ?b" using size(2) by (simp add: thread_pointer_def saturating_add_def)
  have init: "tls_init_size t = min init_size total_size" using assms(1) by (simp add: tls_layout_new_def Let_def)
  let ?n = "min (min (tls_init_size t) (length tdata)) (?b + 64)"
  let ?d = "put_at 0 (take ?n tdata) (replicate (?b + 64) 0) :: byte list"
  have n: "?n = min init_size total_size" using b(1) assms(3) by (simp add: init)
  have d: "length ?d = ?b + 64" by (rule trans [OF length_put_at]) simp_all
  have "?b + 8 \<le> U64_MAX" using size(2) by linarith
  then have r: "render_block t base (allocation_size t) tdata = Ok (base + ?b, put_at ?b (to_le 8 (base + ?b)) ?d)"
    by (simp add: render_block_def Let_def size(1) tp plain_add_def)
  have "v < length ?d" "v < ?b" using assms(4) b(1) d by linarith+
  then have "put_at ?b (to_le 8 (base + ?b)) ?d ! v = ?d ! v"
    using d put_at_nth [of ?b "to_le 8 (base + ?b)" ?d v] by (simp only: length_to_le) simp
  also have "\<dots> = (if v < init_size then tdata ! v else 0)"
    unfolding n using put_at_nth [of 0 "take (min init_size total_size) tdata" "replicate (?b + 64) 0" v]
      \<open>v < ?b\<close> assms(3,4) b(1) by simp
  finally have var: "put_at ?b (to_le 8 (base + ?b)) ?d ! v = (if v < init_size then tdata ! v else 0)" .
  have "take 8 (drop ?b (put_at ?b (to_le 8 (base + ?b)) ?d)) = to_le 8 (base + ?b)"
    using d put_at_read [of ?b "to_le 8 (base + ?b)" ?d] by (simp only: length_to_le)
  then have self: "le_nat (take 8 (drop ?b (put_at ?b (to_le 8 (base + ?b)) ?d))) = base + ?b"
    using size(2) by (simp add: le_nat_to_le)
  have wrap: "wrapping_add (base + ?b) (tp_offset t v) = base + v"
  proof -
    have le: "?b \<le> U64_MAX" "v \<le> ?b" using size(2) \<open>v < ?b\<close> by linarith+
    have "(base + ?b + (v + (U64_MAX + 1 - ?b)) mod (U64_MAX + 1)) mod (U64_MAX + 1) =
        (base + ?b + (v + (U64_MAX + 1 - ?b))) mod (U64_MAX + 1)" by (rule mod_add_right_eq)
    also have "base + ?b + (v + (U64_MAX + 1 - ?b)) = base + v + (U64_MAX + 1)" using le by linarith
    also have "(base + v + (U64_MAX + 1)) mod (U64_MAX + 1) = base + v" using le size(2) by simp
    finally show ?thesis using le by (simp add: wrapping_add_def tp_offset_def wrapping_sub_def)
  qed
  show ?thesis
    unfolding r using var self wrap b(2) size(1) d
    by (simp add: length_put_at)
qed

text \<open>At a block of three initial bytes, five in all, aligned to sixteen.\<close>

theorem tls_variable_found_witness:
  "case render_block (tls_layout_new 3 5 16) 0x1000 (allocation_size (tls_layout_new 3 5 16)) [7, 8, 9] of
      Ok (tp, dest) \<Rightarrow> wrapping_add tp (tp_offset (tls_layout_new 3 5 16) 2) = 0x1002 \<and> dest ! 2 = 9
    | _ \<Rightarrow> False"
proof -
  have "0x1000 + allocation_size (tls_layout_new 3 5 16) < U64_MAX"
    by (simp add: allocation_size_def tls_layout_new_def saturating_add_def saturating_mul_def TCB_SIZE_def div_ceil_def)
  from tls_variable_found [OF refl this, of "[7, 8, 9]" 2] show ?thesis
    by (auto split: outcome.splits)
qed

section \<open>Where a placement writes\<close>

text \<open>Two memories that agree outside a range.\<close>

definition same_outside :: "u64 \<Rightarrow> u64 \<Rightarrow> memory \<Rightarrow> memory \<Rightarrow> bool" where
  "same_outside lo hi m m' \<longleftrightarrow> (\<forall>a. a < lo \<or> hi \<le> a \<longrightarrow> m' a = m a)"

lemma same_outside_refl [simp]: "same_outside lo hi m m"
  by (simp add: same_outside_def)

lemma same_outside_trans:
  "same_outside lo hi m1 m2 \<Longrightarrow> same_outside lo hi m2 m3 \<Longrightarrow> same_outside lo hi m1 m3"
  by (auto simp: same_outside_def)

lemma store_Nil [simp]: "store at [] m = m"
  by (rule ext) (auto simp: store_def)

lemma same_outside_store:
  "lo \<le> at \<Longrightarrow> at + length bs \<le> hi \<Longrightarrow> same_outside lo hi m m1 \<Longrightarrow> same_outside lo hi m (store at bs m1)"
  by (auto simp: same_outside_def store_def)

lemma same_outside_widen:
  "same_outside lo hi m m' \<Longrightarrow> lo' \<le> lo \<Longrightarrow> hi \<le> hi' \<Longrightarrow> same_outside lo' hi' m m'"
  by (auto simp: same_outside_def)

lemma layout_covers:
  assumes "layout g c base page = Ok (loadable, span_base, len)" "(i, ph) \<in> set loadable"
  shows "span_base \<le> segment_address base ph" "segment_end base ph \<le> span_base + len"
proof -
  let ?low = "set (map (\<lambda>(_, ph). segment_address base ph) loadable)"
  let ?high = "set (map (\<lambda>(_, ph). segment_end base ph) loadable)"
  have page: "0 < page" and sb: "span_base = Min ?low div max g page * max g page"
    and l: "len = saturating_mul (div_ceil (Max ?high) page) page - span_base"
    using assms(1) by (auto simp: layout_def ok_iff Let_def split: if_splits)
  have in_low: "segment_address base ph \<in> ?low" and in_high: "segment_end base ph \<in> ?high"
    using assms(2) by force+
  have "span_base \<le> Min ?low" unfolding sb by simp
  also have "Min ?low \<le> segment_address base ph" using in_low by (intro Min_le) auto
  finally show "span_base \<le> segment_address base ph" .
  have high: "segment_end base ph \<le> Max ?high" using in_high by (intro Max_ge) auto
  moreover have "Max ?high \<le> U64_MAX"
  proof -
    have "Max ?high \<in> ?high" using in_high by (intro Max_in) auto
    then show ?thesis by (auto simp: segment_end_def saturating_add_def)
  qed
  ultimately show "segment_end base ph \<le> span_base + len"
    using div_ceil_bounds(1) [OF page, of "Max ?high"] unfolding l by (simp add: saturating_mul_def)
qed

text \<open>What a segment has to be for its bytes to stay where the layout has room for them.\<close>

definition segment_fits :: "Container \<Rightarrow> byte list \<Rightarrow> u64 \<Rightarrow> nat \<times> Elf64ProgramHeader \<Rightarrow> bool" where
  "segment_fits c whole base iph \<longleftrightarrow> base + p_vaddr (snd iph) + p_memsz (snd iph) \<le> U64_MAX \<and>
     (\<forall>d. segment_data c whole (fst iph) = Ok (Some d) \<longrightarrow> length d \<le> p_memsz (snd iph))"

lemma mark_slots_outside:
  assumes "\<forall>slot \<in> set slots. tail + slot * 8 + 8 \<le> hi" "lo \<le> tail" "hi \<le> U64_MAX" "same_outside lo hi m m1"
  shows "same_outside lo hi m (mark_slots tail fill slots m1)"
  using assms
proof (induction slots arbitrary: m1)
  case Nil
  then show ?case by simp
next
  case (Cons slot slots)
  have le: "tail + slot * 8 + 8 \<le> hi" using Cons.prems(1) by simp
  then have "saturating_add tail (saturating_mul slot 8) = tail + slot * 8"
    using Cons.prems(3) by (simp add: saturating_add_def saturating_mul_def)
  moreover have "same_outside lo hi m (store (tail + slot * 8) (to_le 8 (bss_marker fill (tail + slot * 8))) m1)"
    by (rule same_outside_store) (use le Cons.prems in auto)
  ultimately show ?case using Cons.IH Cons.prems by (simp add: Let_def)
qed

lemma fill_bss_outside:
  assumes "lo \<le> tail" "tail + zeroed \<le> hi" "hi \<le> U64_MAX" "same_outside lo hi m m1"
  shows "same_outside lo hi m (fill_bss fill tail zeroed m1)"
proof -
  have "tail + slot * 8 + 8 \<le> hi" if "slot < zeroed div 8" for slot
  proof -
    have "Suc slot * 8 \<le> zeroed div 8 * 8" using that by (intro mult_le_mono) auto
    also have "\<dots> \<le> zeroed" by simp
    finally show ?thesis using assms(2) by simp
  qed
  then show ?thesis
    using assms by (auto simp: fill_bss_def mark_bss_def Let_def intro!: mark_slots_outside same_outside_store)
qed

lemma place_segment_outside:
  assumes "base + p_vaddr ph + p_memsz ph \<le> U64_MAX" "length data \<le> p_memsz ph"
    "lo \<le> base + p_vaddr ph" "base + p_vaddr ph + p_memsz ph \<le> hi" "hi \<le> U64_MAX"
  shows "same_outside lo hi m (snd (place_segment fill base (i, ph) data m))"
proof -
  let ?a = "base + p_vaddr ph" let ?n = "min (length data) (p_filesz ph)"
  have n: "?n \<le> p_memsz ph" using assms(2) by simp
  have a: "segment_address base ph = ?a" "saturating_add ?a ?n = ?a + ?n"
    using assms(1) n by (simp_all add: segment_address_def saturating_add_def)
  have "same_outside lo hi m (store ?a (take ?n data) m)"
    using assms(3,4) n by (intro same_outside_store) auto
  then have "same_outside lo hi m (fill_bss fill (?a + ?n) (p_memsz ph - ?n) (store ?a (take ?n data) m))"
    using assms(3,4,5) n by (intro fill_bss_outside) auto
  then show ?thesis by (simp add: place_segment_def Let_def a saturating_sub_def)
qed

lemma place_segments_outside:
  assumes "place_segments fill c whole base loadable m = Ok (ss, m')"
    "\<forall>x \<in> set loadable. segment_fits c whole base x \<and> lo \<le> base + p_vaddr (snd x) \<and>
       base + p_vaddr (snd x) + p_memsz (snd x) \<le> hi" "hi \<le> U64_MAX"
  shows "same_outside lo hi m m'"
  using assms(1,2)
proof (induction loadable arbitrary: m ss)
  case Nil
  then show ?case by simp
next
  case (Cons x loadable)
  obtain i ph where x: "x = (i, ph)" by fastforce
  obtain d where d: "segment_data c whole i = Ok d" using Cons.prems(1) by (auto simp: x ok_iff)
  let ?data = "case d of None \<Rightarrow> [] | Some data \<Rightarrow> data"
  have len: "length ?data \<le> p_memsz ph"
    using Cons.prems(2) d by (auto simp: x segment_fits_def split: option.splits)
  obtain ss' where rest: "place_segments fill c whole base loadable (snd (place_segment fill base (i, ph) ?data m)) = Ok (ss', m')"
    using Cons.prems(1) by (auto simp: x d ok_iff Let_def split: prod.splits)
  have "same_outside lo hi m (snd (place_segment fill base (i, ph) ?data m))"
    using Cons.prems(2) len assms(3) by (intro place_segment_outside) (auto simp: x segment_fits_def)
  moreover have "same_outside lo hi (snd (place_segment fill base (i, ph) ?data m)) m'"
    using Cons.IH [OF rest] Cons.prems(2) by simp
  ultimately show ?case by (rule same_outside_trans)
qed

lemma executable_code_SomeD:
  assumes "executable_code c whole base loadable = Ok code" "(bytes, start) \<in> set code"
  shows "\<exists>i ph. (i, ph) \<in> set loadable \<and> segment_data c whole i = Ok (Some bytes) \<and> start = segment_address base ph"
  using assms
proof (induction loadable arbitrary: code)
  case Nil
  then show ?case by simp
next
  case (Cons x loadable)
  obtain i ph where x: "x = (i, ph)" by fastforce
  show ?case
  proof (cases "p_flags ph AND PF_X \<noteq> 0")
    case False
    then show ?thesis using Cons by (auto simp: x)
  next
    case True
    then obtain d code' where d: "segment_data c whole i = Ok d" "executable_code c whole base loadable = Ok code'"
      "code = (case d of None \<Rightarrow> code' | Some bytes \<Rightarrow> (bytes, segment_address base ph) # code')"
      using Cons.prems(1) by (auto simp: x ok_iff)
    then have "(bytes, start) \<in> set code' \<or> d = Some bytes \<and> start = segment_address base ph"
      using Cons.prems(2) by (auto split: option.splits)
    then show ?thesis using Cons.IH [OF d(2)] d(1) x by auto
  qed
qed

lemma fold_store_outside:
  assumes "\<forall>(at, bs) \<in> set ps. lo \<le> at \<and> at + length bs \<le> hi" "same_outside lo hi m m1"
  shows "same_outside lo hi m (fold (\<lambda>(at, bytes). store at bytes) ps m1)"
  using assms by (induction ps arbitrary: m1) (auto intro: same_outside_store)

text \<open>What is relied on of the decoder: an instruction it reports lies in the bytes it was given.\<close>

definition decodes_within :: "decoder \<Rightarrow> bool" where
  "decodes_within decode \<longleftrightarrow> (\<forall>bytes start f at len. (f, at, len) \<in> set (decode bytes start) \<longrightarrow>
     start \<le> at \<and> at + len \<le> start + length bytes)"

lemma patches_inside:
  assumes "decodes_within decode" "executable_code c whole base loadable = Ok code"
    "\<forall>x \<in> set loadable. segment_fits c whole base x \<and> lo \<le> base + p_vaddr (snd x) \<and>
       base + p_vaddr (snd x) + p_memsz (snd x) \<le> hi"
    "(at, bs) \<in> set (mr_patches (rewrite_plan decode detected code host room_at))"
  shows "lo \<le> at \<and> at + length bs \<le> hi"
proof -
  obtain form where "(Some form, at, length bs) \<in> set (concat (map (\<lambda>(segment, start). decode segment start) code))"
    using plan_sites [OF assms(4)] by blast
  then obtain bytes start where code: "(bytes, start) \<in> set code" "(Some form, at, length bs) \<in> set (decode bytes start)"
    by auto
  then have at: "start \<le> at" "at + length bs \<le> start + length bytes"
    using assms(1) by (auto simp: decodes_within_def)
  obtain i ph where ph: "(i, ph) \<in> set loadable" "segment_data c whole i = Ok (Some bytes)" "start = segment_address base ph"
    using executable_code_SomeD [OF assms(2) code(1)] by blast
  have fits: "base + p_vaddr ph + p_memsz ph \<le> U64_MAX" "length bytes \<le> p_memsz ph" "lo \<le> base + p_vaddr ph"
    "base + p_vaddr ph + p_memsz ph \<le> hi"
    using assms(3) ph(1,2) by (auto simp: segment_fits_def)
  have "start = base + p_vaddr ph" using ph(3) fits(1) by (simp add: segment_address_def saturating_add_def)
  then show ?thesis using at fits by linarith
qed


text \<open>What a placement that succeeds was made of.\<close>

lemma place_forE:
  assumes "place_for pl whole base page host m = Ok (im, m')"
  obtains c headers loadable span_base code_len code rewrite segments m1 where
    "container_parse whole = Ok c" "program_headers c = Ok headers" "loadable = loadable_of headers"
    "layout (pl_granularity pl) c base page = Ok (loadable, span_base, code_len)"
    "executable_code c whole base loadable = Ok code"
    "rewrite = rewrite_plan (pl_decode pl) (pl_detected pl) code host (saturating_add span_base code_len)"
    "place_segments (pl_fill pl) c whole base loadable m = Ok (segments, m1)"
    "m' = store (saturating_add span_base code_len) (mr_room rewrite)
       (fold (\<lambda>(at, bytes). store at bytes) (mr_patches rewrite) m1)"
    "im_span im = (span_base, saturating_add code_len (saturating_mul (div_ceil (length (mr_room rewrite)) page) page))"
    "im_segments im = segments"
proof -
  obtain c where c: "container_parse whole = Ok c" using assms by (auto simp: place_for_def ok_iff)
  obtain loadable span_base code_len where l: "layout (pl_granularity pl) c base page = Ok (loadable, span_base, code_len)"
    using assms by (auto simp: place_for_def ok_iff c)
  obtain code where code: "executable_code c whole base loadable = Ok code"
    using assms by (auto simp: place_for_def ok_iff c l)
  obtain headers where h: "program_headers c = Ok headers" "loadable = loadable_of headers"
    using l by (auto simp: layout_def ok_iff Let_def split: if_splits)
  define rewrite where "rewrite = rewrite_plan (pl_decode pl) (pl_detected pl) code host (saturating_add span_base code_len)"
  obtain segments m1 where s: "place_segments (pl_fill pl) c whole base loadable m = Ok (segments, m1)"
    using assms by (auto simp: place_for_def c l code Let_def ok_iff split: prod.splits sum.splits)
  show thesis
    by (rule that [OF c h l code rewrite_def s])
      (use assms in \<open>auto simp: place_for_def c l code s Let_def rewrite_def split: prod.splits sum.splits\<close>)
qed

text \<open>C17. Placing a module writes nowhere but in the span it reserved, patched instructions and the room
  for them included, when each of its segments has no more bytes in the file than in memory.\<close>

theorem place_stays_in_span:
  assumes "place_for pl whole base page host m = Ok (im, m')" "decodes_within (pl_decode pl)"
    "container_parse whole = Ok c" "program_headers c = Ok headers"
    "\<forall>x \<in> set (loadable_of headers). segment_fits c whole base x"
    "fst (im_span im) + snd (im_span im) < U64_MAX"
  shows "same_outside (fst (im_span im)) (fst (im_span im) + snd (im_span im)) m m'"
proof -
  from assms(1) obtain loadable span_base code_len code rewrite segments m1 where p:
    "loadable = loadable_of headers" "layout (pl_granularity pl) c base page = Ok (loadable, span_base, code_len)"
    "executable_code c whole base loadable = Ok code"
    "rewrite = rewrite_plan (pl_decode pl) (pl_detected pl) code host (saturating_add span_base code_len)"
    "place_segments (pl_fill pl) c whole base loadable m = Ok (segments, m1)"
    "m' = store (saturating_add span_base code_len) (mr_room rewrite)
       (fold (\<lambda>(at, bytes). store at bytes) (mr_patches rewrite) m1)"
    "im_span im = (span_base, saturating_add code_len (saturating_mul (div_ceil (length (mr_room rewrite)) page) page))"
    using assms(3,4) by (elim place_forE) auto
  let ?room = "saturating_mul (div_ceil (length (mr_room rewrite)) page) page"
  have page: "0 < page" using p(2) by (auto simp: layout_def ok_iff Let_def split: if_splits)
  have span: "snd (im_span im) = code_len + ?room" "span_base + code_len + ?room < U64_MAX"
    using assms(6) by (auto simp: p(7) saturating_add_def min_def split: if_splits)
  then have room: "length (mr_room rewrite) \<le> ?room"
    using div_ceil_bounds(1) [OF page, of "length (mr_room rewrite)"] by (auto simp: saturating_mul_def min_def split: if_splits)
  let ?hi = "span_base + (code_len + ?room)"
  have fits: "\<forall>x \<in> set loadable. segment_fits c whole base x \<and> span_base \<le> base + p_vaddr (snd x) \<and>
      base + p_vaddr (snd x) + p_memsz (snd x) \<le> ?hi"
  proof
    fix x assume x: "x \<in> set loadable"
    then have f: "segment_fits c whole base x" using assms(5) p(1) by blast
    then have "segment_address base (snd x) = base + p_vaddr (snd x)"
      "segment_end base (snd x) = base + p_vaddr (snd x) + p_memsz (snd x)"
      by (auto simp: segment_fits_def segment_address_def segment_end_def saturating_add_def)
    then show "segment_fits c whole base x \<and> span_base \<le> base + p_vaddr (snd x) \<and>
        base + p_vaddr (snd x) + p_memsz (snd x) \<le> ?hi"
      using f layout_covers [OF p(2), of "fst x" "snd x"] x by simp
  qed
  have "same_outside span_base ?hi m m1"
    using place_segments_outside [OF p(5) fits] span(2) by simp
  then have "same_outside span_base ?hi m (fold (\<lambda>(at, bytes). store at bytes) (mr_patches rewrite) m1)"
    using patches_inside [OF assms(2) p(3) fits] by (intro fold_store_outside) (auto simp: p(4))
  then show ?thesis
    unfolding p(6) using span room by (simp add: p(7) saturating_add_def same_outside_store)
qed

text \<open>A host that lacks nothing, and the demonstration file placed on it.\<close>

definition demo_placing :: placing where
  "demo_placing = \<lparr>pl_reserve = willing_host, pl_granularity = 0x4000, pl_fill = 0, pl_decode = (\<lambda>bytes start. []),
     pl_detected = HOST_FULL\<rparr>"

lemma demo_placing_within: "decodes_within (pl_decode demo_placing)"
  by (simp add: decodes_within_def demo_placing_def)

text \<open>A segment of one page at most, at an address above zero, placed on that host.\<close>

lemma place_one:
  assumes "container_parse whole = Ok c" "program_headers c = Ok headers" "loadable_of headers = [(0, ph)]"
    "segment_data c whole 0 = Ok (Some d)" "p_vaddr ph + p_memsz ph \<le> 0x4000" "p_filesz ph = length d"
  shows "\<exists>im. place_for demo_placing whole 0x10000 0x4000 HOST_FULL m =
      Ok (im, snd (place_segment 0 0x10000 (0, ph) d m)) \<and> im_span im = (0x10000, 0x4000)"
proof -
  have memsz: "0 < p_memsz ph"
  proof -
    have "(0, ph) \<in> set (loadable_of headers)" using assms(3) by simp
    then show ?thesis by (auto simp: loadable_of_def)
  qed
  have "(0x10000 + p_vaddr ph) div 0x4000 = 4" using assms(5) memsz by simp
  moreover have "div_ceil (0x10000 + p_vaddr ph + p_memsz ph) 0x4000 = 5"
  proof (cases "p_vaddr ph + p_memsz ph = 0x4000")
    case True
    then have e: "0x10000 + p_vaddr ph + p_memsz ph = 0x14000" by simp
    show ?thesis unfolding e by (simp add: div_ceil_def)
  next
    case False
    then obtain k where "p_vaddr ph + p_memsz ph = k" "0 < k" "k < 0x4000" using assms(5) memsz by auto
    then have e: "0x10000 + p_vaddr ph + p_memsz ph = 0x4000 * 4 + k" "0 < k" "k < 0x4000" by simp_all
    have "(0x4000 * 4 + k) div 0x4000 = 4" "(0x4000 * 4 + k) mod 0x4000 = k"
      using e(2,3) mod_mult_self4 [of "0x4000" 4 k] by simp_all
    then show ?thesis unfolding e(1) div_ceil_def using e(2) by simp
  qed
  ultimately have l: "layout 0x4000 c 0x10000 0x4000 = Ok ([(0, ph)], 0x10000, 0x4000)"
    using assms(5) by (simp add: layout_def assms(2,3) Let_def segment_address_def segment_end_def
      saturating_add_def saturating_mul_def)
  obtain code where code: "executable_code c whole 0x10000 [(0, ph)] = Ok code"
    using assms(4) by (cases "p_flags ph AND PF_X = 0") auto
  obtain r s where "reserve willing_host 0x10000 0x4000 READ_WRITE address_space_new = (Inr r, s)"
    by (simp add: reserve_def validate_def holder_of_def address_space_new_def bt_last_lt_def last_of_def
        GUEST_PAGE_SIZE_def willing_host_def Let_def)
  then show ?thesis
    by (simp add: place_for_def assms(1,4) demo_placing_def l code rewrite_plan_def has_all_def HOST_FULL_def
      rewrite_empty_def Let_def saturating_add_def saturating_mul_def div_ceil_def case_prod_unfold)
qed

lemma demo_segment: "segment_data demo_container demo_file 0 = Ok (Some demo_file)"
  by (simp add: segment_data_def demo_headers demo_load_def get_range_def demo_length saturating_add_def)

lemma demo_loadable: "loadable_of [demo_load, demo_dyn] = [(0, demo_load)]"
  by (simp add: loadable_of_def demo_load_def demo_dyn_def PT_LOAD_def)

lemma demo_load_simps: "p_vaddr demo_load = 0x1000" "p_memsz demo_load = 312" "p_filesz demo_load = 312"
  by (simp_all add: demo_load_def)

text \<open>At the demonstration file.\<close>

theorem place_stays_in_span_witness:
  "\<exists>im m'. place_for demo_placing demo_file 0x10000 0x4000 HOST_FULL (\<lambda>_. 0) = Ok (im, m') \<and>
     same_outside 0x10000 0x14000 (\<lambda>_. 0) m'"
proof -
  have parse: "container_parse demo_file = Ok demo_container" using demo_parsed by (simp add: parsed_def)
  obtain im m' where p: "place_for demo_placing demo_file 0x10000 0x4000 HOST_FULL (\<lambda>_. 0) = Ok (im, m')"
    "im_span im = (0x10000, 0x4000)"
    using place_one [OF parse demo_headers demo_loadable demo_segment, of "\<lambda>_. 0"] by (auto simp: demo_load_simps demo_length)
  have "\<forall>x \<in> set (loadable_of [demo_load, demo_dyn]). segment_fits demo_container demo_file 0x10000 x"
    by (simp add: demo_loadable segment_fits_def demo_segment demo_length) (simp add: demo_load_def)
  from place_stays_in_span [OF p(1) demo_placing_within parse demo_headers this] p show ?thesis by auto
qed

text \<open>A file of one segment that has more bytes in it than in memory, and ends at the end of a page.\<close>

definition overrun_segment :: Elf64ProgramHeader where
  "overrun_segment = \<lparr>p_type = 1, p_flags = 4, p_offset = 0, p_vaddr = 0x3ff0, p_paddr = 0,
     p_filesz = 120, p_memsz = 16, p_align = 16\<rparr>"

definition overrun_file :: "byte list" where
  "overrun_file = take 56 demo_header @ to_le 2 1 @ drop 58 demo_header @
     to_le 4 1 @ to_le 4 4 @ to_le 8 0 @ to_le 8 0x3ff0 @ to_le 8 0 @ to_le 8 120 @ to_le 8 16 @ to_le 8 16"

definition overrun_container :: Container where
  "overrun_container = \<lparr>c_bytes = overrun_file, c_header = demo_elf_header\<lparr>e_phnum := 1\<rparr>, c_wrapper = None\<rparr>"

lemma overrun_segment_simps [simp]:
  "p_type overrun_segment = 1" "p_offset overrun_segment = 0" "p_vaddr overrun_segment = 0x3ff0"
  "p_filesz overrun_segment = 120" "p_memsz overrun_segment = 16"
  by (simp_all add: overrun_segment_def)

lemma overrun_length: "length overrun_file = 120"
  by code_simp

lemma overrun_parsed: "container_parse overrun_file = Ok overrun_container"
proof -
  have "read_elf_header overrun_file = Some (demo_elf_header\<lparr>e_phnum := 1\<rparr>)" "is_either_generation overrun_file = False"
    by code_simp+
  then show ?thesis
    by (simp add: container_parse_def parse_plain_def ok_or_def overrun_container_def demo_elf_header_def ELF_MAGIC_def)
qed

lemma overrun_headers: "program_headers overrun_container = Ok [overrun_segment]"
  by code_simp

lemma overrun_data: "segment_data overrun_container overrun_file 0 = Ok (Some overrun_file)"
proof -
  have "c_wrapper overrun_container = None" by (simp add: overrun_container_def)
  then show ?thesis
    by (simp add: segment_data_def overrun_headers get_range_def overrun_length saturating_add_def)
qed

lemma overrun_byte: "overrun_file ! 16 = 2"
  by code_simp

text \<open>A segment with more bytes in the file than in memory is copied whole: the size in memory bounds
  what is reserved and not what is copied. This file's segment ends where its span does, and placing it
  changes the byte after the span.\<close>

theorem place_overruns:
  "\<exists>im m'. place_for demo_placing overrun_file 0x10000 0x4000 HOST_FULL (\<lambda>_. 0) = Ok (im, m') \<and>
     im_span im = (0x10000, 0x4000) \<and> m' 0x14000 = 2"
proof -
  have l: "loadable_of [overrun_segment] = [(0, overrun_segment)]"
    by (simp add: loadable_of_def PT_LOAD_def)
  obtain im where "place_for demo_placing overrun_file 0x10000 0x4000 HOST_FULL (\<lambda>_. 0) =
      Ok (im, snd (place_segment 0 0x10000 (0, overrun_segment) overrun_file (\<lambda>_. 0)))"
    "im_span im = (0x10000, 0x4000)"
    using place_one [OF overrun_parsed overrun_headers l overrun_data, of "\<lambda>_. 0"] by (auto simp: overrun_length)
  moreover have "snd (place_segment 0 0x10000 (0, overrun_segment) overrun_file (\<lambda>_. 0)) 0x14000 = 2"
    by (simp add: overrun_length place_segment_def fill_bss_def Let_def segment_address_def
      saturating_add_def saturating_sub_def store_def overrun_byte)
  ultimately show ?thesis by auto
qed

end
