(* ===== verification/Module_Link.thy ===== *)
theory Module_Link
  imports Module_Image
begin

text \<open>
  Linking a placed module (\<^verbatim>\<open>orbistoun-loader/src\<close>): its relocations (\<^verbatim>\<open>relocate.rs\<close>), the access each page
  is left with (\<^verbatim>\<open>protect.rs\<close>), and what is recorded of the link (\<^verbatim>\<open>plan.rs\<close>). Stub and data tables answer
  an index with an address, and are arguments.

  The trait \<^verbatim>\<open>SymbolResolver\<close> is a locale: its two methods agree. Every resolver of the source is an
  interpretation of it, and what a relocation writes is shown once, for any resolver.
\<close>

section \<open>Resolving a symbol\<close>

datatype Resolution = Address u64 | WeakZero | Unresolved

text \<open>The trait's own body of \<open>resolve_symbol\<close>.\<close>

definition resolve_symbol_default :: "(nat \<Rightarrow> u64 option) \<Rightarrow> nat \<Rightarrow> Resolution" where
  "resolve_symbol_default resolve i = (case resolve i of Some addr \<Rightarrow> Address addr | None \<Rightarrow> Unresolved)"

record ImportResolver =
  ir_thunks :: "nat \<Rightarrow> u64 option"
  ir_data :: "nat \<Rightarrow> u64 option"
  ir_refuse :: "nat set option"
  ir_weak_zero :: "nat set option"

definition listed :: "nat set option \<Rightarrow> nat \<Rightarrow> bool" where
  "listed s i = (case s of None \<Rightarrow> False | Some is \<Rightarrow> i \<in> is)"

definition import_resolve_symbol :: "ImportResolver \<Rightarrow> nat \<Rightarrow> Resolution" where
  "import_resolve_symbol r i =
     (if listed (ir_refuse r) i then Unresolved
      else if listed (ir_weak_zero r) i then WeakZero
      else case (case ir_data r i of Some addr \<Rightarrow> Some addr | None \<Rightarrow> ir_thunks r i) of
          Some addr \<Rightarrow> Address addr
        | None \<Rightarrow> Unresolved)"

definition import_resolve :: "ImportResolver \<Rightarrow> nat \<Rightarrow> u64 option" where
  "import_resolve r i =
     (case import_resolve_symbol r i of Address addr \<Rightarrow> Some addr | WeakZero \<Rightarrow> None | Unresolved \<Rightarrow> None)"

definition title_resolve :: "(nat, u64) btree \<Rightarrow> (nat \<Rightarrow> u64 option) \<Rightarrow> nat \<Rightarrow> u64 option" where
  "title_resolve bound inner i = (case bt_get bound i of Some addr \<Rightarrow> Some addr | None \<Rightarrow> inner i)"

definition title_resolve_symbol :: "(nat, u64) btree \<Rightarrow> (nat \<Rightarrow> Resolution) \<Rightarrow> nat \<Rightarrow> Resolution" where
  "title_resolve_symbol bound inner i = (case bt_get bound i of Some addr \<Rightarrow> Address addr | None \<Rightarrow> inner i)"

definition shifted :: "nat \<Rightarrow> nat \<Rightarrow> nat option" where
  "shifted offset i = (if offset \<le> U32_MAX \<and> offset + i \<le> U32_MAX then Some (offset + i) else None)"

definition offset_resolve :: "nat \<Rightarrow> (nat \<Rightarrow> u64 option) \<Rightarrow> nat \<Rightarrow> u64 option" where
  "offset_resolve offset inner i = Option.bind (shifted offset i) inner"

definition offset_resolve_symbol :: "nat \<Rightarrow> (nat \<Rightarrow> Resolution) \<Rightarrow> nat \<Rightarrow> Resolution" where
  "offset_resolve_symbol offset inner i = (case shifted offset i of None \<Rightarrow> Unresolved | Some j \<Rightarrow> inner j)"

definition single_resolve :: "u64 \<Rightarrow> nat \<Rightarrow> u64 option" where
  "single_resolve target i = Some target"

section \<open>Relocations\<close>

datatype RelocValue = RelocAddress u64 | RelocWeakZero u64

fun reloc_value :: "RelocValue \<Rightarrow> u64" where
  "reloc_value (RelocAddress addr) = addr"
| "reloc_value (RelocWeakZero addr) = addr"

datatype Outcome = TlsDeferred | Unsupported | UnresolvedSymbol

definition tls_value_for :: "Elf64Rela \<Rightarrow> u64 \<Rightarrow> TlsLayout option \<Rightarrow> Outcome + u64" where
  "tls_value_for entry addend tls =
     (case tls of
        None \<Rightarrow> Inl TlsDeferred
      | Some lay \<Rightarrow>
          if symbol_index entry \<noteq> 0 then Inl TlsDeferred
          else if rela_kind entry = R_DTPMOD64 then Inr (tls_module lay)
          else if rela_kind entry = R_DTPOFF64 then Inr addend
          else if rela_kind entry = R_TPOFF64
            then if is_main lay then Inr (tp_offset lay addend) else Inl TlsDeferred
          else Inl Unsupported)"

definition value_for :: "Elf64Rela \<Rightarrow> u64 \<Rightarrow> (nat \<Rightarrow> Resolution) \<Rightarrow> TlsLayout option \<Rightarrow> Outcome + RelocValue" where
  "value_for entry base resolve_symbol tls =
     (let addend = rela_addend entry; k = rela_kind entry
      in if k = R_RELATIVE then Inr (RelocAddress (wrapping_add base addend))
         else if k = R_ABS64 then
           (case resolve_symbol (symbol_index entry) of
              Address s \<Rightarrow> Inr (RelocAddress (wrapping_add s addend))
            | WeakZero \<Rightarrow> Inr (RelocWeakZero addend)
            | Unresolved \<Rightarrow> Inl UnresolvedSymbol)
         else if k = R_GLOB_DAT \<or> k = R_JUMP_SLOT then
           (case resolve_symbol (symbol_index entry) of
              Address s \<Rightarrow> Inr (RelocAddress s)
            | WeakZero \<Rightarrow> Inr (RelocWeakZero 0)
            | Unresolved \<Rightarrow> Inl UnresolvedSymbol)
         else if is_tls entry then map_sum id RelocAddress (tls_value_for entry addend tls)
         else Inl Unsupported)"

record SlotWrite =
  sw_at :: u64
  sw_value :: u64

record Applied =
  ap_tally :: RelocationTally
  ap_writes :: "SlotWrite list"

definition applied_default :: Applied where
  "applied_default = \<lparr>ap_tally = tally_default, ap_writes = []\<rparr>"

fun count_refused :: "Outcome \<Rightarrow> RelocationTally \<Rightarrow> RelocationTally" where
  "count_refused TlsDeferred t = t\<lparr>tally_tls_deferred := tally_tls_deferred t + 1\<rparr>"
| "count_refused Unsupported t = t\<lparr>tally_unsupported := tally_unsupported t + 1\<rparr>"
| "count_refused UnresolvedSymbol t = t\<lparr>tally_unresolved := tally_unresolved t + 1\<rparr>"

fun count_written :: "RelocValue \<Rightarrow> RelocationTally \<Rightarrow> RelocationTally" where
  "count_written (RelocAddress _) t = t\<lparr>tally_applied := tally_applied t + 1\<rparr>"
| "count_written (RelocWeakZero _) t = t\<lparr>tally_weak_zero := tally_weak_zero t + 1\<rparr>"

text \<open>One table. An entry outside the span ends the link with an error, and what was written before it
  stays written, so the memory is returned beside the result.\<close>

fun apply_table ::
  "Elf64Rela list \<Rightarrow> Image \<Rightarrow> (nat \<Rightarrow> Resolution) \<Rightarrow> TlsLayout option \<Rightarrow> Applied \<Rightarrow> memory \<Rightarrow>
     (LoadError, Applied) outcome \<times> memory" where
  "apply_table [] im resolve_symbol tls ap m = (Ok ap, m)"
| "apply_table (entry # table) im resolve_symbol tls ap m =
     (let (span_base, span_len) = im_span im; base = im_base im
      in case value_for entry base resolve_symbol tls of
           Inl why \<Rightarrow> apply_table table im resolve_symbol tls (ap\<lparr>ap_tally := count_refused why (ap_tally ap)\<rparr>) m
         | Inr v \<Rightarrow>
             let target = wrapping_add base (rela_offset entry)
             in if target < span_base \<or> saturating_add target 8 > saturating_add span_base span_len
                then (Err (RelocationOutOfBounds target span_base span_len), m)
                else apply_table table im resolve_symbol tls
                       (ap\<lparr>ap_writes := ap_writes ap @ [\<lparr>sw_at = target, sw_value = reloc_value v\<rparr>],
                           ap_tally := count_written v (ap_tally ap)\<rparr>)
                       (store target (to_le 8 (reloc_value v)) m))"

text \<open>The entries of one of the two tables, none if the file does not hold it.\<close>

definition table_entries ::
  "nat \<Rightarrow> Container \<Rightarrow> byte list \<Rightarrow> DynamicInfo \<Rightarrow> u64 \<times> u64 \<Rightarrow> (LoadError, Elf64Rela list) outcome" where
  "table_entries ty c whole info place =
     (let (addr, len) = place
      in if addr = 0 \<or> len = 0 then Ok []
         else out_bind (from_elf (table_offset ty c whole info addr)) (\<lambda>off.
           Ok (case Option.bind off (\<lambda>at. get_range whole at (saturating_add at len)) of
                 None \<Rightarrow> [] | Some bytes \<Rightarrow> parse_table bytes)))"

fun apply_tables ::
  "nat \<Rightarrow> Container \<Rightarrow> byte list \<Rightarrow> DynamicInfo \<Rightarrow> (u64 \<times> u64) list \<Rightarrow> Image \<Rightarrow> (nat \<Rightarrow> Resolution) \<Rightarrow>
     TlsLayout option \<Rightarrow> Applied \<Rightarrow> memory \<Rightarrow> (LoadError, Applied) outcome \<times> memory" where
  "apply_tables ty c whole info [] im resolve_symbol tls ap m = (Ok ap, m)"
| "apply_tables ty c whole info (place # places) im resolve_symbol tls ap m =
     (case table_entries ty c whole info place of
        Panic \<Rightarrow> (Panic, m)
      | Err e \<Rightarrow> (Err e, m)
      | Ok table \<Rightarrow>
          (case apply_table table im resolve_symbol tls ap m of
             (Ok ap', m') \<Rightarrow> apply_tables ty c whole info places im resolve_symbol tls ap' m'
           | stopped \<Rightarrow> stopped))"

definition apply_recorded ::
  "nat \<Rightarrow> Image \<Rightarrow> byte list \<Rightarrow> (nat \<Rightarrow> Resolution) \<Rightarrow> TlsLayout option \<Rightarrow> memory \<Rightarrow>
     (LoadError, Applied) outcome \<times> memory" where
  "apply_recorded ty im whole resolve_symbol tls m =
     (case out_bind (from_elf (container_parse whole)) (\<lambda>c.
           out_bind (from_elf (dynamic_bytes c whole)) (\<lambda>dyn. Ok (c, dyn))) of
        Panic \<Rightarrow> (Panic, m)
      | Err e \<Rightarrow> (Err e, m)
      | Ok (c, None) \<Rightarrow> (Ok applied_default, m)
      | Ok (c, Some dyn_bytes) \<Rightarrow>
          let info = dynamic_parse dyn_bytes
          in apply_tables ty c whole info [(di_rela info, di_relasz info), (di_jmprel info, di_pltrelsz info)]
               im resolve_symbol tls applied_default m)"

section \<open>Any resolver\<close>

locale symbol_resolver =
  fixes resolve :: "nat \<Rightarrow> u64 option"
    and resolve_symbol :: "nat \<Rightarrow> Resolution"
  assumes agree: "resolve i = Some a \<longleftrightarrow> resolve_symbol i = Address a"
begin

lemma resolve_None: "resolve i = None \<longleftrightarrow> resolve_symbol i = WeakZero \<or> resolve_symbol i = Unresolved"
  using agree [of i] by (cases "resolve_symbol i"; cases "resolve i") auto

lemma slot_address:
  assumes "rela_kind e = R_GLOB_DAT \<or> rela_kind e = R_JUMP_SLOT"
  shows "value_for e base resolve_symbol tls = Inr (RelocAddress a) \<longleftrightarrow> resolve (symbol_index e) = Some a"
  using assms agree [of "symbol_index e" a]
  by (cases "resolve_symbol (symbol_index e)") (auto simp: value_for_def Let_def)

lemma slot_other:
  assumes "rela_kind e = R_GLOB_DAT \<or> rela_kind e = R_JUMP_SLOT" "resolve (symbol_index e) = None"
  shows "value_for e base resolve_symbol tls \<in> {Inr (RelocWeakZero 0), Inl UnresolvedSymbol}"
  using assms resolve_None [of "symbol_index e"] by (auto simp: value_for_def Let_def)

lemma abs_address:
  assumes "rela_kind e = R_ABS64" "resolve (symbol_index e) = Some s"
  shows "value_for e base resolve_symbol tls = Inr (RelocAddress (wrapping_add s (rela_addend e)))"
  using assms agree [of "symbol_index e" s] by (simp add: value_for_def Let_def)

end

locale offset_resolver = symbol_resolver +
  fixes offset :: nat

sublocale offset_resolver \<subseteq> shifted: symbol_resolver "offset_resolve offset resolve" "offset_resolve_symbol offset resolve_symbol"
  by unfold_locales (auto simp: offset_resolve_def offset_resolve_symbol_def agree split: option.splits)

locale title_resolver = symbol_resolver +
  fixes bound :: "(nat, u64) btree"

sublocale title_resolver \<subseteq> title: symbol_resolver "title_resolve bound resolve" "title_resolve_symbol bound resolve_symbol"
  by unfold_locales (auto simp: title_resolve_def title_resolve_symbol_def agree split: option.splits)

interpretation default_resolver: symbol_resolver resolve "resolve_symbol_default resolve" for resolve
  by unfold_locales (auto simp: resolve_symbol_default_def split: option.splits)

interpretation import_resolver: symbol_resolver "import_resolve r" "import_resolve_symbol r" for r
  by unfold_locales (auto simp: import_resolve_def split: Resolution.splits)

interpretation shifted_imports: offset_resolver "import_resolve r" "import_resolve_symbol r" offset for r offset
  by unfold_locales

interpretation linked_imports: title_resolver "offset_resolve offset (import_resolve r)"
    "offset_resolve_symbol offset (import_resolve_symbol r)" bound for offset r bound
  by unfold_locales

section \<open>What relocating writes\<close>

text \<open>The recorded writes, made in order.\<close>

definition written :: "SlotWrite list \<Rightarrow> memory \<Rightarrow> memory" where
  "written ws m = fold (\<lambda>w. store (sw_at w) (to_le 8 (sw_value w))) ws m"

definition in_span :: "Image \<Rightarrow> SlotWrite \<Rightarrow> bool" where
  "in_span im w \<longleftrightarrow> fst (im_span im) \<le> sw_at w \<and> sw_at w + 8 \<le> fst (im_span im) + snd (im_span im)"

text \<open>What holds of a link at every point: the memory is the recorded writes made in order, all of them
  in the span, and every entry met is counted once.\<close>

definition link_ok :: "Image \<Rightarrow> memory \<Rightarrow> nat \<Rightarrow> Applied \<Rightarrow> memory \<Rightarrow> bool" where
  "link_ok im m0 n ap m \<longleftrightarrow> m = written (ap_writes ap) m0 \<and> (\<forall>w \<in> set (ap_writes ap). in_span im w) \<and>
     tally_total (ap_tally ap) = n \<and>
     length (ap_writes ap) = tally_applied (ap_tally ap) + tally_weak_zero (ap_tally ap)"

lemma link_ok_start: "link_ok im m 0 applied_default m"
  by (simp add: link_ok_def applied_default_def written_def tally_default_def tally_total_def)

lemma link_ok_refused:
  "link_ok im m0 n ap m \<Longrightarrow> link_ok im m0 (Suc n) (ap\<lparr>ap_tally := count_refused why (ap_tally ap)\<rparr>) m"
  by (cases why) (auto simp: link_ok_def tally_total_def)

lemma link_ok_written:
  assumes "link_ok im m0 n ap m" "in_span im \<lparr>sw_at = target, sw_value = reloc_value v\<rparr>"
  shows "link_ok im m0 (Suc n) (ap\<lparr>ap_writes := ap_writes ap @ [\<lparr>sw_at = target, sw_value = reloc_value v\<rparr>],
      ap_tally := count_written v (ap_tally ap)\<rparr>) (store target (to_le 8 (reloc_value v)) m)"
  using assms by (cases v) (auto simp: link_ok_def tally_total_def written_def)

lemma written_outside:
  assumes "\<forall>w \<in> set ws. in_span im w"
  shows "same_outside (fst (im_span im)) (fst (im_span im) + snd (im_span im)) m (written ws m)"
proof -
  have "written ws m = fold (\<lambda>(at, bytes). store at bytes) (map (\<lambda>w. (sw_at w, to_le 8 (sw_value w))) ws) m"
    by (simp add: written_def fold_map comp_def)
  then show ?thesis using assms by (auto simp: in_span_def intro!: fold_store_outside)
qed

lemma in_span_guard:
  assumes "fst (im_span im) + snd (im_span im) < U64_MAX"
    "\<not> (target < fst (im_span im) \<or> saturating_add target 8 > saturating_add (fst (im_span im)) (snd (im_span im)))"
  shows "in_span im \<lparr>sw_at = target, sw_value = v\<rparr>"
  using assms by (auto simp: in_span_def saturating_add_def min_def split: if_splits)

lemma apply_table_ok:
  assumes "apply_table table im rs tls ap m = (out, m')" "link_ok im m0 n ap m"
    "fst (im_span im) + snd (im_span im) < U64_MAX"
  shows "same_outside (fst (im_span im)) (fst (im_span im) + snd (im_span im)) m0 m' \<and> out \<noteq> Panic \<and>
    (\<forall>ap'. out = Ok ap' \<longrightarrow> link_ok im m0 (n + length table) ap' m')"
  using assms(1,2)
proof (induction table arbitrary: ap m n)
  case Nil
  then show ?case using written_outside [of "ap_writes ap" im m0] by (auto simp: link_ok_def)
next
  case (Cons e table)
  show ?case
  proof (cases "value_for e (im_base im) rs tls")
    case (Inl why)
    then show ?thesis
      using Cons.prems(1) Cons.IH [OF _ link_ok_refused [OF Cons.prems(2)], of why] by (simp add: case_prod_unfold Let_def)
  next
    case (Inr v)
    let ?t = "wrapping_add (im_base im) (rela_offset e)"
    show ?thesis
    proof (cases "?t < fst (im_span im) \<or> saturating_add ?t 8 > saturating_add (fst (im_span im)) (snd (im_span im))")
      case True
      then show ?thesis
        using Cons.prems Inr written_outside [of "ap_writes ap" im m0] by (auto simp: link_ok_def case_prod_unfold Let_def)
    next
      case False
      then show ?thesis
        using Cons.prems(1) Inr Cons.IH [OF _ link_ok_written [OF Cons.prems(2) in_span_guard [OF assms(3) False]], of v]
        by (simp add: case_prod_unfold Let_def)
    qed
  qed
qed

lemma apply_tables_ok:
  assumes "apply_tables ty c whole info places im rs tls ap m = (out, m')" "link_ok im m0 n ap m"
    "fst (im_span im) + snd (im_span im) < U64_MAX"
  shows "same_outside (fst (im_span im)) (fst (im_span im) + snd (im_span im)) m0 m' \<and>
    (\<forall>ap'. out = Ok ap' \<longrightarrow> (\<exists>tables. map (table_entries ty c whole info) places = map Ok tables \<and>
       link_ok im m0 (n + length (concat tables)) ap' m'))"
  using assms(1,2)
proof (induction places arbitrary: ap m n)
  case Nil
  then show ?case using written_outside [of "ap_writes ap" im m0] by (auto simp: link_ok_def)
next
  case (Cons place places)
  have base: "same_outside (fst (im_span im)) (fst (im_span im) + snd (im_span im)) m0 m"
    using written_outside [of "ap_writes ap" im m0] Cons.prems(2) by (auto simp: link_ok_def)
  show ?case
  proof (cases "table_entries ty c whole info place")
    case (Ok table)
    obtain out1 m1 where one: "apply_table table im rs tls ap m = (out1, m1)" by fastforce
    note ok = apply_table_ok [OF one Cons.prems(2) assms(3)]
    show ?thesis
    proof (cases out1)
      case (Ok ap1)
      then have rest: "apply_tables ty c whole info places im rs tls ap1 m1 = (out, m')"
        and l: "link_ok im m0 (n + length table) ap1 m1"
        using Cons.prems(1) \<open>table_entries ty c whole info place = Ok table\<close> one ok by auto
      show ?thesis
      proof (intro conjI allI impI)
        show "same_outside (fst (im_span im)) (fst (im_span im) + snd (im_span im)) m0 m'"
          using Cons.IH [OF rest l] by blast
        fix ap' assume "out = Ok ap'"
        then obtain tables where "map (table_entries ty c whole info) places = map Ok tables"
          "link_ok im m0 (n + length table + length (concat tables)) ap' m'"
          using Cons.IH [OF rest l] by blast
        then show "\<exists>tables. map (table_entries ty c whole info) (place # places) = map Ok tables \<and>
            link_ok im m0 (n + length (concat tables)) ap' m'"
          using \<open>table_entries ty c whole info place = Ok table\<close>
          by (intro exI [of _ "table # tables"]) (simp add: add.assoc)
      qed
    qed (use Cons.prems(1) Ok one ok in auto)
  qed (use Cons.prems(1) base in auto)
qed

text \<open>C18. Relocating a module, whatever the resolver: no byte outside the image's span changes, also when
  the link ends in an error; and a link that succeeds made exactly the writes it recorded, in order, one
  for each entry of the two tables that it counts as applied or bound to zero, and counted every entry
  once.\<close>

theorem relocations_recorded:
  assumes "apply_recorded ty im whole resolve_symbol tls m = (out, m')"
    "fst (im_span im) + snd (im_span im) < U64_MAX"
  shows "same_outside (fst (im_span im)) (fst (im_span im) + snd (im_span im)) m m' \<and>
    (\<forall>ap. out = Ok ap \<longrightarrow> m' = written (ap_writes ap) m \<and>
       length (ap_writes ap) = tally_applied (ap_tally ap) + tally_weak_zero (ap_tally ap) \<and>
       (\<forall>c dyn. container_parse whole = Ok c \<longrightarrow> dynamic_bytes c whole = Ok (Some dyn) \<longrightarrow>
          (let info = dynamic_parse dyn
           in \<exists>rela jmprel. table_entries ty c whole info (di_rela info, di_relasz info) = Ok rela \<and>
                table_entries ty c whole info (di_jmprel info, di_pltrelsz info) = Ok jmprel \<and>
                tally_total (ap_tally ap) = length rela + length jmprel)))"
proof (cases "container_parse whole")
  case (Ok c)
  show ?thesis
  proof (cases "dynamic_bytes c whole")
    case (Ok dyn)
    show ?thesis
    proof (cases dyn)
      case None
      then show ?thesis using assms(1) Ok \<open>container_parse whole = Ok c\<close>
        by (auto simp: apply_recorded_def applied_default_def written_def tally_default_def)
    next
      case (Some bytes)
      let ?info = "dynamic_parse bytes"
      have "apply_tables ty c whole ?info [(di_rela ?info, di_relasz ?info), (di_jmprel ?info, di_pltrelsz ?info)]
          im resolve_symbol tls applied_default m = (out, m')"
        using assms(1) Ok \<open>container_parse whole = Ok c\<close> Some by (simp add: apply_recorded_def Let_def)
      note this = apply_tables_ok [OF this link_ok_start assms(2)]
      then show ?thesis
        using Ok \<open>container_parse whole = Ok c\<close> Some
        by (auto simp: Let_def link_ok_def map_eq_Cons_conv Cons_eq_map_conv)
    qed
  qed (use assms(1) \<open>container_parse whole = Ok c\<close> in \<open>auto simp: apply_recorded_def\<close>)
qed (use assms(1) in \<open>auto simp: apply_recorded_def\<close>)

text \<open>A file of two relocations, and a title that supplies the second one's symbol.\<close>

definition link_file :: "byte list" where
  "link_file = demo_header @ demo_program_header PT_LOAD 0 0x1000 272 @ demo_program_header PT_DYNAMIC 176 0x10b0 48 @
     dynamic_encode [(DT_RELA, 0x10e0), (DT_RELASZ, 48), (0, 0)] @
     to_le 8 0x1008 @ to_le 8 8 @ to_le 8 0x1020 @ to_le 8 0x1010 @ to_le 8 (2 ^ 32 + 7) @ to_le 8 0"

definition link_container :: Container where
  "link_container = \<lparr>c_bytes = link_file, c_header = demo_elf_header, c_wrapper = None\<rparr>"

definition link_image :: Image where
  "link_image = \<lparr>im_space = address_space_new, im_base = 0x10000, im_entry = 0x11000, im_span = (0x10000, 0x4000),
     im_segments = [], im_room = (0x14000, 0), im_rewrites = []\<rparr>"

definition link_imports :: ImportResolver where
  "link_imports = \<lparr>ir_thunks = (\<lambda>i. Some (0x9000 + i * 16)), ir_data = Map.empty, ir_refuse = None, ir_weak_zero = None\<rparr>"

definition link_resolver :: "nat \<Rightarrow> Resolution" where
  "link_resolver = title_resolve_symbol [(1, 0x50001234)] (offset_resolve_symbol 64 (import_resolve_symbol link_imports))"

lemma link_length: "length link_file = 272"
  by code_simp

lemma link_parsed: "container_parse link_file = Ok link_container"
proof -
  have "read_elf_header link_file = Some demo_elf_header" "is_either_generation link_file = False"
    by code_simp+
  then show ?thesis
    by (simp add: container_parse_def parse_plain_def ok_or_def link_container_def demo_elf_header_def ELF_MAGIC_def)
qed

lemma link_dynamic:
  "dynamic_bytes link_container link_file = Ok (Some (dynamic_encode [(DT_RELA, 0x10e0), (DT_RELASZ, 48), (0, 0)]))"
  by code_simp

definition link_table :: DynamicInfo where
  "link_table = dynamic_default\<lparr>di_rela := 0x10e0, di_relasz := 48\<rparr>"

lemma link_table_simps [simp]:
  "di_rela link_table = 0x10e0" "di_relasz link_table = 48" "di_jmprel link_table = 0" "di_vendor_tables link_table = False"
  by (simp_all add: link_table_def dynamic_default_def)

lemma link_info: "dynamic_parse (dynamic_encode [(7, 0x10e0), (8, 48), (0, 0)]) = link_table"
  by code_simp

lemma link_entries:
  "table_entries ty link_container link_file link_table (0x10e0, 48) =
     Ok [\<lparr>rela_offset = 0x1008, rela_info = 8, rela_addend = 0x1020\<rparr>,
         \<lparr>rela_offset = 0x1010, rela_info = 4294967303, rela_addend = 0\<rparr>]"
proof -
  have "vaddr_to_offset link_container link_file 0x10e0 = Ok (Some 224)" by code_simp
  moreover have "map_option parse_table (get_range link_file 224 272) =
      Some [\<lparr>rela_offset = 0x1008, rela_info = 8, rela_addend = 0x1020\<rparr>,
        \<lparr>rela_offset = 0x1010, rela_info = 2 ^ 32 + 7, rela_addend = 0\<rparr>]" by code_simp
  ultimately show ?thesis
    by (auto simp: table_entries_def table_offset_def saturating_add_def split: option.splits)
qed

lemma link_values:
  "value_for \<lparr>rela_offset = 0x1008, rela_info = 8, rela_addend = 0x1020\<rparr> 0x10000 link_resolver None = Inr (RelocAddress 0x11020)"
  "value_for \<lparr>rela_offset = 0x1010, rela_info = 4294967303, rela_addend = 0\<rparr> 0x10000 link_resolver None =
     Inr (RelocAddress 0x50001234)"
  by code_simp+

lemma table_entries_none [simp]: "table_entries ty c whole info (0, len) = Ok []"
  by (simp add: table_entries_def)

lemma link_run:
  "\<exists>ap m'. apply_recorded ty link_image link_file link_resolver None m = (Ok ap, m') \<and>
     ap_writes ap = [\<lparr>sw_at = 0x11008, sw_value = 0x11020\<rparr>, \<lparr>sw_at = 0x11010, sw_value = 0x50001234\<rparr>] \<and>
     tally_complete (ap_tally ap)"
proof -
  have im: "im_span link_image = (0x10000, 0x4000)" "im_base link_image = 0x10000" by (simp_all add: link_image_def)
  show ?thesis
    by (simp add: apply_recorded_def link_parsed link_dynamic link_info link_entries link_values im applied_default_def wrapping_add_def saturating_add_def tally_complete_def tally_default_def)
qed

text \<open>At that file: both relocations applied, the second bound to the module the title ships.\<close>

theorem relocations_recorded_witness:
  "\<exists>ap m'. apply_recorded 0 link_image link_file link_resolver None (\<lambda>_. 0) = (Ok ap, m') \<and>
     same_outside 0x10000 0x14000 (\<lambda>_. 0) m' \<and> m' = written (ap_writes ap) (\<lambda>_. 0) \<and> tally_total (ap_tally ap) = 2"
proof -
  obtain ap m' where run: "apply_recorded 0 link_image link_file link_resolver None (\<lambda>_. 0) = (Ok ap, m')"
    using link_run by blast
  have im: "im_span link_image = (0x10000, 0x4000)" by (simp add: link_image_def)
  have "same_outside 0x10000 0x14000 (\<lambda>_. 0) m'" "m' = written (ap_writes ap) (\<lambda>_. 0)" "tally_total (ap_tally ap) = 2"
    using relocations_recorded [OF run] link_parsed link_dynamic
    by (auto simp: im Let_def link_info link_entries)
  then show ?thesis using run by blast
qed

text \<open>What a function slot or a global's slot of a module is linked to, through the resolvers as a run
  stacks them: the address the title's own modules bind the symbol to; else, at the symbol's place in
  the shared table, the storage or the stub kept there, unless the import is refused or bound to zero;
  and never an address when the place does not fit in 32 bits.\<close>

theorem import_slot_order:
  assumes "rela_kind e = R_GLOB_DAT \<or> rela_kind e = R_JUMP_SLOT" "i = symbol_index e"
  shows "value_for e base (title_resolve_symbol bound (offset_resolve_symbol offset (import_resolve_symbol r))) tls =
      Inr (RelocAddress a) \<longleftrightarrow>
    bt_get bound i = Some a \<or>
    bt_get bound i = None \<and> offset + i \<le> U32_MAX \<and> \<not> listed (ir_refuse r) (offset + i) \<and>
      \<not> listed (ir_weak_zero r) (offset + i) \<and>
      (ir_data r (offset + i) = Some a \<or> ir_data r (offset + i) = None \<and> ir_thunks r (offset + i) = Some a)"
proof -
  have "value_for e base (title_resolve_symbol bound (offset_resolve_symbol offset (import_resolve_symbol r))) tls =
      Inr (RelocAddress a) \<longleftrightarrow> title_resolve bound (offset_resolve offset (import_resolve r)) i = Some a"
    using linked_imports.title.slot_address [OF assms(1)] assms(2) by simp
  also have "\<dots> \<longleftrightarrow> bt_get bound i = Some a \<or> bt_get bound i = None \<and> offset + i \<le> U32_MAX \<and>
      import_resolve_symbol r (offset + i) = Address a"
    by (auto simp: title_resolve_def offset_resolve_def shifted_def import_resolver.agree split: option.splits if_splits)
  finally show ?thesis by (auto simp: import_resolve_symbol_def split: option.splits)
qed

text \<open>At the second relocation of that file.\<close>

theorem import_slot_order_witness:
  "value_for \<lparr>rela_offset = 0x1010, rela_info = 4294967303, rela_addend = 0\<rparr> 0x10000 link_resolver None =
     Inr (RelocAddress 0x50001234)"
  unfolding link_resolver_def
  by (rule iffD2 [OF import_slot_order [OF _ refl]]) (simp_all add: rela_kind_def symbol_index_def bt_get_def)

section \<open>The access of each page\<close>

record ProtectionRun =
  run_base :: u64
  run_len :: u64
  run_protection :: protection

record ProtectionTally =
  pt_runs :: nat
  pt_executable :: u64
  pt_writable :: u64
  pt_writable_and_executable :: u64

definition add_page :: "protection \<Rightarrow> u64 \<Rightarrow> (u64, protection) btree \<Rightarrow> (u64, protection) btree" where
  "add_page p index paged =
     bt_insert index (case bt_get paged index of None \<Rightarrow> p | Some q \<Rightarrow> prot_union q p) paged"

definition add_segment :: "u64 \<Rightarrow> PlacedSegment \<Rightarrow> (u64, protection) btree \<Rightarrow> (u64, protection) btree" where
  "add_segment page seg paged =
     (let memsz = ps_memsz seg
      in if memsz = 0 then paged
         else let first = ps_address seg div page;
                  final = saturating_add (ps_address seg) (memsz - 1) div page
         in fold (add_page (ps_protection seg)) [first ..< final + 1] paged)"

definition push_run :: "u64 \<Rightarrow> u64 \<times> protection \<Rightarrow> ProtectionRun list \<Rightarrow> ProtectionRun list" where
  "push_run page entry runs =
     (let (index, p) = entry; base = saturating_mul index page
      in case last_of runs of
           Some run \<Rightarrow>
             if run_protection run = p \<and> saturating_add (run_base run) (run_len run) = base
             then butlast runs @ [run\<lparr>run_len := saturating_add (run_len run) page\<rparr>]
             else runs @ [\<lparr>run_base = base, run_len = page, run_protection = p\<rparr>]
         | None \<Rightarrow> runs @ [\<lparr>run_base = base, run_len = page, run_protection = p\<rparr>])"

definition page_protections :: "PlacedSegment list \<Rightarrow> u64 \<Rightarrow> ProtectionRun list" where
  "page_protections segments page =
     (if page = 0 then []
      else fold (push_run page) (fold (add_segment page) segments []) [])"

definition count_run :: "ProtectionRun \<Rightarrow> ProtectionTally \<Rightarrow> ProtectionTally" where
  "count_run run t =
     \<lparr>pt_runs = pt_runs t + 1,
      pt_executable = (if prot_execute (run_protection run) then saturating_add (pt_executable t) (run_len run) else pt_executable t),
      pt_writable = (if prot_write (run_protection run) then saturating_add (pt_writable t) (run_len run) else pt_writable t),
      pt_writable_and_executable =
        (if is_writable_and_executable (run_protection run)
         then saturating_add (pt_writable_and_executable t) (run_len run) else pt_writable_and_executable t)\<rparr>"

fun protect_runs ::
  "host_call \<Rightarrow> ProtectionRun list \<Rightarrow> ProtectionTally \<Rightarrow> AddressSpace \<Rightarrow> (LoadError + ProtectionTally) \<times> AddressSpace" where
  "protect_runs hp [] t s = (Inr t, s)"
| "protect_runs hp (run # runs) t s =
     (case protect hp (run_base run) (run_len run) (run_protection run) s of
        (Inl e, s') \<Rightarrow> (Inl (MemoryFailed e), s')
      | (Inr _, s') \<Rightarrow> protect_runs hp runs (count_run run t) s')"

definition protect_image :: "host_call \<Rightarrow> Image \<Rightarrow> u64 \<Rightarrow> (LoadError + ProtectionTally) \<times> Image" where
  "protect_image hp im page =
     (case protect_runs hp (page_protections (im_segments im) page)
             \<lparr>pt_runs = 0, pt_executable = 0, pt_writable = 0, pt_writable_and_executable = 0\<rparr> (im_space im) of
        (Inl e, s) \<Rightarrow> (Inl e, im\<lparr>im_space := s\<rparr>)
      | (Inr t, s) \<Rightarrow>
          (let (room, room_len) = im_room im
           in if room_len > 0
              then (case protect hp room room_len READ_EXECUTE s of
                      (Inl e, s') \<Rightarrow> (Inl (MemoryFailed e), im\<lparr>im_space := s'\<rparr>)
                    | (Inr _, s') \<Rightarrow>
                        (Inr (t\<lparr>pt_runs := pt_runs t + 1, pt_executable := saturating_add (pt_executable t) room_len\<rparr>),
                         im\<lparr>im_space := s'\<rparr>))
              else (Inr t, im\<lparr>im_space := s\<rparr>)))"

subsection \<open>The pages of the segments\<close>

definition touches :: "u64 \<Rightarrow> u64 \<Rightarrow> PlacedSegment \<Rightarrow> bool" where
  "touches page k seg \<longleftrightarrow> 0 < ps_memsz seg \<and> ps_address seg < (k + 1) * page \<and> k * page < ps_address seg + ps_memsz seg"

text \<open>What a page should be left with: the access any segment on it asks for.\<close>

definition access_of :: "PlacedSegment list \<Rightarrow> u64 \<Rightarrow> u64 \<Rightarrow> protection option" where
  "access_of segments page k =
     (let on = filter (touches page k) segments
      in if on = [] then None
         else Some \<lparr>prot_read = list_ex (\<lambda>s. prot_read (ps_protection s)) on,
                    prot_write = list_ex (\<lambda>s. prot_write (ps_protection s)) on,
                    prot_execute = list_ex (\<lambda>s. prot_execute (ps_protection s)) on\<rparr>)"

lemma bt_get_add_page:
  "bt_get (add_page p i paged) k =
     (if k = i then Some (case bt_get paged k of None \<Rightarrow> p | Some q \<Rightarrow> prot_union q p) else bt_get paged k)"
  by (simp add: add_page_def bt_get_insert)

lemma bt_get_add_pages:
  "distinct is \<Longrightarrow> bt_get (fold (add_page p) is paged) k =
     (if k \<in> set is then Some (case bt_get paged k of None \<Rightarrow> p | Some q \<Rightarrow> prot_union q p) else bt_get paged k)"
  by (induction "is" arbitrary: paged) (auto simp: bt_get_add_page)

lemma bt_wf_add_pages: "bt_wf paged \<Longrightarrow> bt_wf (fold (add_page p) is paged)"
  by (induction "is" arbitrary: paged) (auto simp: add_page_def)

lemma touches_range:
  assumes "0 < page" "0 < ps_memsz seg" "ps_address seg + ps_memsz seg \<le> U64_MAX"
  shows "touches page k seg \<longleftrightarrow>
    k \<in> set [ps_address seg div page ..< saturating_add (ps_address seg) (ps_memsz seg - 1) div page + 1]"
proof -
  have "saturating_add (ps_address seg) (ps_memsz seg - 1) = ps_address seg + ps_memsz seg - 1"
    using assms(2,3) by (simp add: saturating_add_def)
  moreover have "ps_address seg < (k + 1) * page \<longleftrightarrow> ps_address seg div page \<le> k"
    using assms(1) by (simp add: less_eq_Suc_le [symmetric] div_less_iff_less_mult less_Suc_eq_le [symmetric] mult.commute)
  moreover have "k * page < ps_address seg + ps_memsz seg \<longleftrightarrow> k \<le> (ps_address seg + ps_memsz seg - 1) div page"
    using assms(1,2) by (auto simp: less_eq_div_iff_mult_less_eq)
  ultimately show ?thesis using assms(2) by (auto simp: touches_def less_Suc_eq_le)
qed

lemma access_of_snoc:
  "access_of (segs @ [s]) page k =
     (if touches page k s
      then Some (case access_of segs page k of None \<Rightarrow> ps_protection s | Some q \<Rightarrow> prot_union q (ps_protection s))
      else access_of segs page k)"
  by (auto simp: access_of_def Let_def prot_union_def)

lemma segment_pages:
  assumes "0 < page" "\<forall>s \<in> set segs. ps_address s + ps_memsz s \<le> U64_MAX"
  shows "bt_wf (fold (add_segment page) segs []) \<and>
    bt_get (fold (add_segment page) segs []) k = access_of segs page k"
  using assms(2)
proof (induction segs rule: rev_induct)
  case Nil
  then show ?case by (simp add: access_of_def)
next
  case (snoc s segs)
  show ?case
  proof (cases "ps_memsz s = 0")
    case True
    then show ?thesis using snoc by (simp add: add_segment_def access_of_snoc touches_def)
  next
    case False
    then have "touches page k s \<longleftrightarrow>
        k \<in> set [ps_address s div page ..< saturating_add (ps_address s) (ps_memsz s - 1) div page + 1]"
      using snoc.prems assms(1) by (intro touches_range) auto
    then show ?thesis
      using False snoc by (simp add: add_segment_def Let_def access_of_snoc bt_get_add_pages bt_wf_add_pages del: upt_Suc)
  qed
qed

subsection \<open>Merging them into runs\<close>

definition run_pages :: "u64 \<Rightarrow> ProtectionRun \<Rightarrow> (u64 \<times> protection) list" where
  "run_pages page run = map (\<lambda>i. (run_base run div page + i, run_protection run)) [0 ..< run_len run div page]"

definition run_ok :: "u64 \<Rightarrow> ProtectionRun \<Rightarrow> bool" where
  "run_ok page run \<longleftrightarrow> page dvd run_base run \<and> page dvd run_len run \<and> 0 < run_len run \<and>
     run_base run + run_len run \<le> U64_MAX"

definition joins :: "ProtectionRun \<Rightarrow> ProtectionRun \<Rightarrow> bool" where
  "joins r s \<longleftrightarrow> run_protection r = run_protection s \<and> run_base r + run_len r = run_base s"

definition runs_of :: "u64 \<Rightarrow> (u64 \<times> protection) list \<Rightarrow> ProtectionRun list \<Rightarrow> bool" where
  "runs_of page ps runs \<longleftrightarrow> (\<forall>r \<in> set runs. run_ok page r) \<and> concat (map (run_pages page) runs) = ps \<and>
     successively (\<lambda>r s. \<not> joins r s) runs"

lemma run_pages_grow:
  assumes "0 < page" "run_ok page r"
  shows "run_pages page (r\<lparr>run_len := run_len r + page\<rparr>) =
    run_pages page r @ [((run_base r + run_len r) div page, run_protection r)]"
  using assms by (auto simp: run_pages_def run_ok_def elim!: dvdE simp flip: distrib_left simp del: mult_Suc_right)

lemma push_run_ok:
  assumes "0 < page" "runs_of page ps runs" "(k + 1) * page \<le> U64_MAX"
  shows "runs_of page (ps @ [(k, p)]) (push_run page (k, p) runs)"
proof -
  let ?new = "\<lparr>run_base = k * page, run_len = page, run_protection = p\<rparr>"
  have base: "saturating_mul k page = k * page" using assms(3) by (simp add: saturating_mul_def)
  have new: "run_ok page ?new" "run_pages page ?new = [(k, p)]"
    using assms(1,3) by (auto simp: run_ok_def run_pages_def)
  have fresh: "runs_of page (ps @ [(k, p)]) (runs @ [?new])" if "runs = [] \<or> \<not> joins (last runs) ?new"
    using that assms(2) new by (auto simp: runs_of_def successively_append_iff)
  show ?thesis
  proof (cases runs rule: rev_cases)
    case Nil
    then show ?thesis using fresh base by (simp add: push_run_def last_of_def Let_def)
  next
    case (snoc init r)
    have ok: "run_ok page r" using assms(2) snoc by (simp add: runs_of_def)
    then have sum: "saturating_add (run_base r) (run_len r) = run_base r + run_len r"
      by (simp add: run_ok_def saturating_add_def)
    show ?thesis
    proof (cases "run_protection r = p \<and> run_base r + run_len r = k * page")
      case False
      then have "\<not> joins (last runs) ?new" by (auto simp: joins_def snoc)
      then show ?thesis using fresh False base sum by (auto simp: push_run_def last_of_def Let_def snoc)
    next
      case True
      let ?r = "r\<lparr>run_len := run_len r + page\<rparr>"
      have grown: "saturating_add (run_len r) page = run_len r + page"
        using True assms(3) by (simp add: saturating_add_def)
      have "run_ok page ?r" using ok True assms(1,3) by (auto simp: run_ok_def)
      moreover have "run_pages page ?r = run_pages page r @ [(k, p)]"
        using run_pages_grow [OF assms(1) ok] True assms(1) by simp
      moreover have "joins q ?r \<longleftrightarrow> joins q r" for q by (simp add: joins_def)
      ultimately have "runs_of page (ps @ [(k, p)]) (init @ [?r])"
        using assms(2) by (auto simp: runs_of_def snoc successively_append_iff)
      then show ?thesis using True base sum grown by (simp add: push_run_def last_of_def Let_def snoc)
    qed
  qed
qed

lemma push_runs_ok:
  assumes "0 < page" "\<forall>(k, p) \<in> set qs. (k + 1) * page \<le> U64_MAX"
  shows "runs_of page qs (fold (push_run page) qs [])"
  using assms(2)
proof (induction qs rule: rev_induct)
  case Nil
  then show ?case by (simp add: runs_of_def)
next
  case (snoc q qs)
  then show ?case using push_run_ok [OF assms(1), of qs _ "fst q" "snd q"] by (auto simp: case_prod_unfold)
qed

text \<open>C19. The access a linked module's pages are left with. The runs are whole pages, in order and apart;
  each page a segment has a byte on is in exactly one run, whose access is everything any segment on
  that page asks for, and no other page is in a run; and no two neighbouring runs could be one.\<close>

theorem page_protections_exact:
  assumes "0 < page" "\<forall>s \<in> set segs. ps_address s + ps_memsz s + page \<le> U64_MAX"
  shows "let runs = page_protections segs page; ps = concat (map (run_pages page) runs)
    in sorted_wrt (<) (map fst ps) \<and> (\<forall>k. map_of ps k = access_of segs page k) \<and>
       (\<forall>r \<in> set runs. run_ok page r) \<and> successively (\<lambda>r s. \<not> joins r s) runs"
proof -
  let ?ps = "fold (add_segment page) segs []"
  have fits: "\<forall>s \<in> set segs. ps_address s + ps_memsz s \<le> U64_MAX" using assms(2) by (auto intro: add_leD1)
  note pages = segment_pages [OF assms(1) fits]
  have "(k + 1) * page \<le> U64_MAX" if "(k, p) \<in> set ?ps" for k p
  proof -
    have "access_of segs page k = Some p" using that pages [of k] bt_get_mem [of ?ps k p] by simp
    then obtain s where s: "s \<in> set segs" "touches page k s"
      by (auto simp: access_of_def Let_def filter_empty_conv split: if_splits)
    then have "(k + 1) * page \<le> ps_address s + ps_memsz s + page" by (simp add: touches_def)
    also have "\<dots> \<le> U64_MAX" using assms(2) s(1) by blast
    finally show ?thesis .
  qed
  then have "runs_of page ?ps (page_protections segs page)"
    using push_runs_ok [OF assms(1), of ?ps] assms(1) by (auto simp: page_protections_def)
  then show ?thesis
    using pages by (auto simp: runs_of_def Let_def bt_wf_def bt_get_def)
qed

text \<open>At a segment of code and one of data that begins on its last page.\<close>

theorem page_protections_exact_witness:
  "page_protections [\<lparr>ps_index = 0, ps_address = 0x10000, ps_copied = 0x1800, ps_zeroed = 0, ps_flags = 5\<rparr>,
      \<lparr>ps_index = 1, ps_address = 0x11800, ps_copied = 0x100, ps_zeroed = 0x1000, ps_flags = 6\<rparr>] 0x1000 =
     [\<lparr>run_base = 0x10000, run_len = 0x1000, run_protection = READ_EXECUTE\<rparr>,
      \<lparr>run_base = 0x11000, run_len = 0x1000, run_protection = \<lparr>prot_read = True, prot_write = True, prot_execute = True\<rparr>\<rparr>,
      \<lparr>run_base = 0x12000, run_len = 0x1000, run_protection = READ_WRITE\<rparr>] \<and>
   map_of (concat (map (run_pages 0x1000) (page_protections
     [\<lparr>ps_index = 0, ps_address = 0x10000, ps_copied = 0x1800, ps_zeroed = 0, ps_flags = 5\<rparr>,
      \<lparr>ps_index = 1, ps_address = 0x11800, ps_copied = 0x100, ps_zeroed = 0x1000, ps_flags = 6\<rparr>] 0x1000))) 0x11 =
     Some \<lparr>prot_read = True, prot_write = True, prot_execute = True\<rparr>"
proof -
  let ?segs = "[\<lparr>ps_index = 0, ps_address = 0x10000, ps_copied = 0x1800, ps_zeroed = 0, ps_flags = 5\<rparr>,
      \<lparr>ps_index = 1, ps_address = 0x11800, ps_copied = 0x100, ps_zeroed = 0x1000, ps_flags = 6\<rparr>]"
  have "map_of (concat (map (run_pages 0x1000) (page_protections ?segs 0x1000))) 0x11 = access_of ?segs 0x1000 0x11"
    using page_protections_exact [of "0x1000" ?segs] by (simp add: Let_def ps_memsz_def saturating_add_def)
  moreover have "access_of ?segs 0x1000 0x11 = Some \<lparr>prot_read = True, prot_write = True, prot_execute = True\<rparr>"
    by code_simp
  moreover have "page_protections ?segs 0x1000 =
     [\<lparr>run_base = 0x10000, run_len = 0x1000, run_protection = READ_EXECUTE\<rparr>,
      \<lparr>run_base = 0x11000, run_len = 0x1000, run_protection = \<lparr>prot_read = True, prot_write = True, prot_execute = True\<rparr>\<rparr>,
      \<lparr>run_base = 0x12000, run_len = 0x1000, run_protection = READ_WRITE\<rparr>]"
    by code_simp
  ultimately show ?thesis by simp
qed

end
