(* ===== verification/Link_Plan.thy ===== *)
theory Link_Plan
  imports Module_Link "HOL-Library.List_Lexorder" "HOL-Library.Product_Lexorder"
begin

text \<open>
  The link plan (\<^verbatim>\<open>orbistoun-loader/src/plan.rs\<close>): what linking decided about a title as data, how two
  plans differ, and how a fresh plan stands against the one stored. Names are their bytes, compared
  byte by byte. The stored file is a value here, absent when it cannot be read; writing it is a
  parameter that may fail. Its digest is left out, being a hash of the same data.

  The lemmas show that the merge of two write lists finds exactly the slots written differently; that
  two plans differ in nothing exactly when every module agrees on its placement, its listed sites and
  its writes; that a stored plan under an equal key is never replaced except on purpose; and, as a
  divergence, a fresh plan that is a mismatch and differs in nothing.
\<close>

section \<open>Plans\<close>

record SegmentPlan =
  sp_address :: u64
  sp_size :: u64
  sp_flags :: nat

record ModulePlan =
  mp_library :: "byte list"
  mp_base :: u64
  mp_span :: "u64 \<times> u64"
  mp_segments :: "SegmentPlan list"
  mp_writes :: "SlotWrite list"
  mp_syscalls :: "u64 list"
  mp_amd_only :: "(u64 \<times> string) list"
  mp_counter_reads :: "u64 list"
  mp_rewrites :: "(u64 \<times> string) list"

fun mnemonic :: "Form \<Rightarrow> string" where
  "mnemonic (Extrq _ _ _) = ''extrq''"
| "mnemonic (Insertq _ _ _) = ''insertq''"
| "mnemonic Monitorx = ''monitorx''"
| "mnemonic Mwaitx = ''mwaitx''"
| "mnemonic Clzero = ''clzero''"
| "mnemonic Rdpru = ''rdpru''"
| "mnemonic Mcommit = ''mcommit''"

fun how_word :: "How \<Rightarrow> string" where
  "how_word Trampoline = ''trampoline''"
| "how_word InPlace = ''in-place''"
| "how_word AtFault = ''at-fault''"
| "how_word Refused = ''refused''"

definition sort_writes :: "SlotWrite list \<Rightarrow> SlotWrite list" where
  "sort_writes = sort_key (\<lambda>w. (sw_at w, sw_value w))"

definition module_plan_of :: "byte list \<Rightarrow> Image \<Rightarrow> SlotWrite list \<Rightarrow> ModulePlan" where
  "module_plan_of library im writes =
     \<lparr>mp_library = library, mp_base = im_base im, mp_span = im_span im,
      mp_segments = map (\<lambda>s. \<lparr>sp_address = ps_address s, sp_size = ps_memsz s, sp_flags = ps_flags s\<rparr>) (im_segments im),
      mp_writes = sort_writes writes, mp_syscalls = [], mp_amd_only = [], mp_counter_reads = [],
      mp_rewrites = map (\<lambda>r. (rw_at r, mnemonic (rw_form r) @ '' '' @ how_word (rw_how r))) (im_rewrites im)\<rparr>"

definition with_counter_reads :: "u64 list \<Rightarrow> ModulePlan \<Rightarrow> ModulePlan" where
  "with_counter_reads sites p = p\<lparr>mp_counter_reads := sort sites\<rparr>"

definition with_syscalls :: "u64 list \<Rightarrow> ModulePlan \<Rightarrow> ModulePlan" where
  "with_syscalls sites p = p\<lparr>mp_syscalls := sort sites\<rparr>"

type_synonym LinkPlan = "ModulePlan list"

record SlotDifference =
  sd_library :: "byte list"
  sd_at :: u64
  sd_stored :: "u64 option"
  sd_fresh :: "u64 option"

record PlanDifference =
  pd_placements :: "byte list list"
  pd_syscalls :: "byte list list"
  pd_slots :: "SlotDifference list"

definition pd_is_empty :: "PlanDifference \<Rightarrow> bool" where
  "pd_is_empty d \<longleftrightarrow> pd_placements d = [] \<and> pd_syscalls d = [] \<and> pd_slots d = []"

definition slot_difference :: "byte list \<Rightarrow> SlotWrite option \<Rightarrow> SlotWrite option \<Rightarrow> SlotDifference" where
  "slot_difference library stored fresh =
     \<lparr>sd_library = library,
      sd_at = (case stored of Some w \<Rightarrow> sw_at w | None \<Rightarrow> (case fresh of Some w \<Rightarrow> sw_at w | None \<Rightarrow> 0)),
      sd_stored = map_option sw_value stored, sd_fresh = map_option sw_value fresh\<rparr>"

fun slot_differences :: "byte list \<Rightarrow> SlotWrite list \<Rightarrow> SlotWrite list \<Rightarrow> SlotDifference list" where
  "slot_differences library [] [] = []"
| "slot_differences library (a # was) [] = slot_difference library (Some a) None # slot_differences library was []"
| "slot_differences library [] (b # now) = slot_difference library None (Some b) # slot_differences library [] now"
| "slot_differences library (a # was) (b # now) =
     (if sw_at a = sw_at b
      then if sw_value a = sw_value b then slot_differences library was now
           else slot_difference library (Some a) (Some b) # slot_differences library was now
      else if sw_at a < sw_at b
      then slot_difference library (Some a) None # slot_differences library was (b # now)
      else slot_difference library None (Some b) # slot_differences library (a # was) now)"

definition find_module :: "byte list \<Rightarrow> LinkPlan \<Rightarrow> ModulePlan option" where
  "find_module library plan = find (\<lambda>m. mp_library m = library) plan"

definition ordered_libraries :: "LinkPlan \<Rightarrow> LinkPlan \<Rightarrow> byte list list" where
  "ordered_libraries stored fresh =
     sort_key (\<lambda>library. library \<noteq> []) (sort (remdups (map mp_library (stored @ fresh))))"

definition module_placed :: "ModulePlan \<Rightarrow> u64 \<times> (u64 \<times> u64) \<times> SegmentPlan list" where
  "module_placed m = (mp_base m, mp_span m, mp_segments m)"

definition module_sites :: "ModulePlan \<Rightarrow> u64 list \<times> (u64 \<times> string) list \<times> (u64 \<times> string) list" where
  "module_sites m = (mp_syscalls m, mp_amd_only m, mp_rewrites m)"

definition module_differences :: "LinkPlan \<Rightarrow> LinkPlan \<Rightarrow> byte list \<Rightarrow> PlanDifference \<Rightarrow> PlanDifference" where
  "module_differences stored fresh library d =
     (let was = find_module library stored; now = find_module library fresh
      in \<lparr>pd_placements = pd_placements d @ (if map_option module_placed was \<noteq> map_option module_placed now then [library] else []),
          pd_syscalls = pd_syscalls d @ (if map_option module_sites was \<noteq> map_option module_sites now then [library] else []),
          pd_slots = pd_slots d @ slot_differences library
            (case was of None \<Rightarrow> [] | Some m \<Rightarrow> mp_writes m) (case now of None \<Rightarrow> [] | Some m \<Rightarrow> mp_writes m)\<rparr>)"

definition plan_differences :: "LinkPlan \<Rightarrow> LinkPlan \<Rightarrow> PlanDifference" where
  "plan_differences stored fresh =
     fold (module_differences stored fresh) (ordered_libraries stored fresh)
       \<lparr>pd_placements = [], pd_syscalls = [], pd_slots = []\<rparr>"

definition write_count :: "LinkPlan \<Rightarrow> nat" where
  "write_count plan = sum_list (map (\<lambda>m. length (mp_writes m)) plan)"

section \<open>The stored plan\<close>

record PlanKey =
  pk_executable :: string
  pk_build :: string
  pk_host :: string
  pk_modules :: string

record StoredPlan =
  st_key :: PlanKey
  st_plan :: LinkPlan

datatype Standing = New | Match | Mismatch

definition standing_against :: "StoredPlan option \<Rightarrow> PlanKey \<Rightarrow> LinkPlan \<Rightarrow> Standing" where
  "standing_against stored key plan =
     (case stored of
        Some s \<Rightarrow> if st_key s = key \<and> st_plan s = plan then Match else if st_key s = key then Mismatch else New
      | None \<Rightarrow> New)"

text \<open>The file is what can be read of it, and \<open>writes\<close> is whether a write of it succeeds.\<close>

definition settle ::
  "bool \<Rightarrow> PlanKey \<Rightarrow> LinkPlan \<Rightarrow> StoredPlan option \<Rightarrow> (Standing \<times> StoredPlan option) option \<times> StoredPlan option" where
  "settle writes key plan file =
     (let standing = standing_against file key plan
      in if standing = New
         then if writes then (Some (standing, file), Some \<lparr>st_key = key, st_plan = plan\<rparr>) else (None, file)
         else (Some (standing, file), file))"

definition relink ::
  "bool \<Rightarrow> PlanKey \<Rightarrow> LinkPlan \<Rightarrow> StoredPlan option \<Rightarrow> (Standing \<times> StoredPlan option) option \<times> StoredPlan option" where
  "relink writes key plan file =
     (if writes then (Some (standing_against file key plan, file), Some \<lparr>st_key = key, st_plan = plan\<rparr>) else (None, file))"

section \<open>Slots written differently\<close>

text \<open>What a list of writes leaves in each slot, and the slots two such maps disagree on.\<close>

definition slot_in :: "SlotWrite list \<Rightarrow> u64 \<rightharpoonup> u64" where
  "slot_in ws = map_of (map (\<lambda>w. (sw_at w, sw_value w)) ws)"

definition disagreements :: "byte list \<Rightarrow> (u64 \<rightharpoonup> u64) \<Rightarrow> (u64 \<rightharpoonup> u64) \<Rightarrow> SlotDifference set" where
  "disagreements library f g =
     (\<lambda>at. \<lparr>sd_library = library, sd_at = at, sd_stored = f at, sd_fresh = g at\<rparr>) ` {at. f at \<noteq> g at}"

lemma slot_in_Nil [simp]: "slot_in [] = Map.empty"
  by (simp add: slot_in_def)

lemma slot_in_Cons [simp]: "slot_in (w # ws) = (slot_in ws)(sw_at w \<mapsto> sw_value w)"
  by (simp add: slot_in_def)

lemma dom_slot_in: "dom (slot_in ws) = sw_at ` set ws"
  by (simp add: slot_in_def dom_map_of_conv_image_fst image_image)

lemma disagreements_upd:
  assumes "f x = None" "g x = None"
  shows "disagreements library (f(x := u)) (g(x := v)) =
    (if u = v then disagreements library f g
     else insert \<lparr>sd_library = library, sd_at = x, sd_stored = u, sd_fresh = v\<rparr> (disagreements library f g))"
proof -
  have sub: "{at. (f(x := u)) at \<noteq> (g(x := v)) at} = (if u = v then {} else {x}) \<union> {at. f at \<noteq> g at}"
    using assms by auto
  have "(\<lambda>at. \<lparr>sd_library = library, sd_at = at, sd_stored = (f(x := u)) at, sd_fresh = (g(x := v)) at\<rparr>) ` {at. f at \<noteq> g at} =
      disagreements library f g"
    unfolding disagreements_def using assms by (intro image_cong) auto
  then show ?thesis unfolding disagreements_def [of _ "f(x := u)"] sub image_Un by simp
qed

lemma disagreements_upd_one:
  assumes "f x = None" "g x = None"
  shows "disagreements library (f(x \<mapsto> u)) g =
      insert \<lparr>sd_library = library, sd_at = x, sd_stored = Some u, sd_fresh = None\<rparr> (disagreements library f g)"
    "disagreements library f (g(x \<mapsto> u)) =
      insert \<lparr>sd_library = library, sd_at = x, sd_stored = None, sd_fresh = Some u\<rparr> (disagreements library f g)"
  using disagreements_upd [of f x g library "Some u" None] disagreements_upd [of f x g library None "Some u"] assms
  by (simp_all add: fun_upd_idem)

lemma disagreements_at: "d \<in> disagreements library f g \<Longrightarrow> sd_at d \<in> dom f \<union> dom g"
  by (auto simp: disagreements_def)

lemma slot_in_None: "x \<notin> sw_at ` set ws \<Longrightarrow> slot_in ws x = None"
  using dom_slot_in [of ws] by (metis domIff)

lemma slot_differences_at:
  assumes "sorted_wrt (<) (map sw_at was)" "sorted_wrt (<) (map sw_at now)"
  shows "sorted_wrt (<) (map sd_at (slot_differences library was now)) \<and>
    set (slot_differences library was now) = disagreements library (slot_in was) (slot_in now)"
  using assms
proof (induction library was now rule: slot_differences.induct)
  case (1 library)
  then show ?case by (simp add: disagreements_def)
next
  case (2 library a was)
  have none: "slot_in was (sw_at a) = None" using "2.prems" by (intro slot_in_None) auto
  have "sw_at a < sd_at d" if "d \<in> disagreements library (slot_in was) Map.empty" for d
    using disagreements_at [OF that] "2.prems" by (auto simp: dom_slot_in)
  then show ?case
    using 2 disagreements_upd_one(1) [of "slot_in was" "sw_at a" Map.empty] none by (simp add: slot_difference_def del: fun_upd_apply)
next
  case (3 library b now)
  have none: "slot_in now (sw_at b) = None" using "3.prems" by (intro slot_in_None) auto
  have "sw_at b < sd_at d" if "d \<in> disagreements library Map.empty (slot_in now)" for d
    using disagreements_at [OF that] "3.prems" by (auto simp: dom_slot_in)
  then show ?case
    using 3 disagreements_upd_one(2) [of Map.empty "sw_at b" "slot_in now"] none by (simp add: slot_difference_def del: fun_upd_apply)
next
  case (4 library a was b now)
  have tails: "sorted_wrt (<) (map sw_at was)" "sorted_wrt (<) (map sw_at now)"
    "\<forall>w \<in> set was. sw_at a < sw_at w" "\<forall>w \<in> set now. sw_at b < sw_at w"
    using "4.prems" by auto
  have none: "slot_in was (sw_at a) = None" "slot_in now (sw_at b) = None"
    using tails by (auto intro!: slot_in_None)
  consider (same) "sw_at a = sw_at b" | (less) "sw_at a < sw_at b" | (more) "sw_at b < sw_at a" by linarith
  then show ?case
  proof cases
    case same
    have "sw_at b < sd_at d" if "d \<in> disagreements library (slot_in was) (slot_in now)" for d
      using disagreements_at [OF that] tails same by (auto simp: dom_slot_in)
    then show ?thesis
      using 4 same tails none disagreements_upd [of "slot_in was" "sw_at b" "slot_in now" library "Some (sw_value a)" "Some (sw_value b)"]
      by (auto simp: slot_difference_def simp del: fun_upd_apply)
  next
    case less
    have "sw_at a < sd_at d" if "d \<in> disagreements library (slot_in was) (slot_in (b # now))" for d
      using disagreements_at [OF that] tails less by (auto simp: dom_slot_in)
    moreover have "slot_in (b # now) (sw_at a) = None" using tails less by (intro slot_in_None) auto
    ultimately show ?thesis
      using 4 less tails disagreements_upd_one(1) [of "slot_in was" "sw_at a" "slot_in (b # now)"] none by (simp add: slot_difference_def del: fun_upd_apply)
  next
    case more
    have "sw_at b < sd_at d" if "d \<in> disagreements library (slot_in (a # was)) (slot_in now)" for d
      using disagreements_at [OF that] tails more by (auto simp: dom_slot_in)
    moreover have "slot_in (a # was) (sw_at b) = None" using tails more by (intro slot_in_None) auto
    ultimately show ?thesis
      using 4 more tails disagreements_upd_one(2) [of "slot_in (a # was)" "sw_at b" "slot_in now"] none by (simp add: slot_difference_def del: fun_upd_apply)
  qed
qed

section \<open>Plans that differ\<close>

lemma slot_differences_Nil: "slot_differences library was now = [] \<longleftrightarrow> was = now"
  by (induction library was now rule: slot_differences.induct) auto

lemma set_ordered_libraries: "set (ordered_libraries stored fresh) = mp_library ` set (stored @ fresh)"
  by (simp add: ordered_libraries_def image_Un)

text \<open>The writes of a module of a plan, none if the plan has no such module.\<close>

definition module_writes :: "byte list \<Rightarrow> LinkPlan \<Rightarrow> SlotWrite list" where
  "module_writes library plan = (case find_module library plan of None \<Rightarrow> [] | Some m \<Rightarrow> mp_writes m)"

definition differs :: "(ModulePlan \<Rightarrow> 'a) \<Rightarrow> LinkPlan \<Rightarrow> LinkPlan \<Rightarrow> byte list \<Rightarrow> bool" where
  "differs f stored fresh library \<longleftrightarrow> map_option f (find_module library stored) \<noteq> map_option f (find_module library fresh)"

lemma module_differences_fold:
  "fold (module_differences stored fresh) ls d =
     \<lparr>pd_placements = pd_placements d @ filter (differs module_placed stored fresh) ls,
      pd_syscalls = pd_syscalls d @ filter (differs module_sites stored fresh) ls,
      pd_slots = pd_slots d @ concat (map (\<lambda>l. slot_differences l (module_writes l stored) (module_writes l fresh)) ls)\<rparr>"
  by (induction ls arbitrary: d) (auto simp: module_differences_def module_writes_def differs_def Let_def)

lemma absent_module:
  assumes "library \<notin> set (ordered_libraries stored fresh)"
  shows "find_module library stored = None" "find_module library fresh = None"
  using assms by (auto simp: set_ordered_libraries find_module_def find_None_iff)

lemma differs_listed: "{l \<in> set (ordered_libraries stored fresh). differs f stored fresh l} = {l. differs f stored fresh l}"
  using absent_module by (fastforce simp: differs_def)

text \<open>What differs between a stored plan and a fresh one, each module's writes in order of address:
  exactly the modules placed differently, the modules whose listed sites differ, and for each module the
  slots that the two plans leave different values in, or that only one writes. Nothing differs exactly
  when the plans have the same modules and agree on the placement, the sites and the writes of each.\<close>

theorem plan_differences_exact:
  assumes "\<forall>m \<in> set (stored @ fresh). sorted_wrt (<) (map sw_at (mp_writes m))"
    "d = plan_differences stored fresh"
  shows "set (pd_placements d) = {l. differs module_placed stored fresh l} \<and>
    set (pd_syscalls d) = {l. differs module_sites stored fresh l} \<and>
    set (pd_slots d) = (\<Union>l. disagreements l (slot_in (module_writes l stored)) (slot_in (module_writes l fresh))) \<and>
    (pd_is_empty d \<longleftrightarrow> (\<forall>l. \<not> differs (\<lambda>m. (module_placed m, module_sites m, mp_writes m)) stored fresh l))"
proof -
  let ?ls = "ordered_libraries stored fresh"
  let ?w = "\<lambda>l. module_writes l"
  have d: "d = \<lparr>pd_placements = filter (differs module_placed stored fresh) ?ls,
      pd_syscalls = filter (differs module_sites stored fresh) ?ls,
      pd_slots = concat (map (\<lambda>l. slot_differences l (?w l stored) (?w l fresh)) ?ls)\<rparr>"
    by (simp add: assms(2) plan_differences_def module_differences_fold)
  have absent: "?w l stored = []" "?w l fresh = []" if "l \<notin> set ?ls" for l
    using absent_module [OF that] by (simp_all add: module_writes_def)
  have sorted: "sorted_wrt (<) (map sw_at (?w l plan))" if "plan = stored \<or> plan = fresh" for l plan
  proof (cases "find_module l plan")
    case (Some m)
    then have "m \<in> set plan" by (auto simp: find_module_def find_Some_iff)
    then show ?thesis using Some that assms(1) by (auto simp: module_writes_def)
  qed (simp add: module_writes_def)
  have "set (pd_slots d) = (\<Union>l \<in> set ?ls. disagreements l (slot_in (?w l stored)) (slot_in (?w l fresh)))"
    using slot_differences_at [OF sorted sorted] by (simp add: d)
  also have "\<dots> = (\<Union>l. disagreements l (slot_in (?w l stored)) (slot_in (?w l fresh)))"
  proof -
    have "disagreements l (slot_in (?w l stored)) (slot_in (?w l fresh)) = {}" if "l \<notin> set ?ls" for l
      using absent [OF that] by (simp add: disagreements_def)
    then show ?thesis by blast
  qed
  finally have slots: "set (pd_slots d) = (\<Union>l. disagreements l (slot_in (?w l stored)) (slot_in (?w l fresh)))" .
  have "pd_is_empty d \<longleftrightarrow> (\<forall>l \<in> set ?ls. \<not> differs module_placed stored fresh l \<and> \<not> differs module_sites stored fresh l \<and>
      ?w l stored = ?w l fresh)"
    by (auto simp: pd_is_empty_def d filter_empty_conv slot_differences_Nil)
  also have "\<dots> \<longleftrightarrow> (\<forall>l. \<not> differs (\<lambda>m. (module_placed m, module_sites m, mp_writes m)) stored fresh l)"
  proof -
    have "\<not> differs module_placed stored fresh l \<and> \<not> differs module_sites stored fresh l \<and> ?w l stored = ?w l fresh \<longleftrightarrow>
        \<not> differs (\<lambda>m. (module_placed m, module_sites m, mp_writes m)) stored fresh l" for l
      by (cases "find_module l stored"; cases "find_module l fresh") (auto simp: differs_def module_writes_def)
    moreover have "\<not> differs (\<lambda>m. (module_placed m, module_sites m, mp_writes m)) stored fresh l" if "l \<notin> set ?ls" for l
      using absent_module [OF that] by (simp add: differs_def)
    ultimately show ?thesis by blast
  qed
  finally show ?thesis using slots by (simp add: d differs_listed)
qed

section \<open>Settling a plan\<close>

lemma settle_keeps: "file = Some s \<Longrightarrow> st_key s = key \<Longrightarrow> snd (settle writes key plan file) = file"
  by (simp add: settle_def standing_against_def Let_def)

lemma settle_again:
  assumes "settle True key plan file = (Some (New, old), file')"
  shows "settle True key plan file' = (Some (Match, file'), file')"
proof -
  have "file' = Some \<lparr>st_key = key, st_plan = plan\<rparr>"
    using assms by (auto simp: settle_def Let_def split: if_splits)
  then show ?thesis by (simp add: settle_def standing_against_def)
qed

definition demo_module :: "u64 list \<Rightarrow> u64 \<Rightarrow> ModulePlan" where
  "demo_module reads v = \<lparr>mp_library = [], mp_base = 0, mp_span = (0, 0x4000), mp_segments = [],
     mp_writes = [\<lparr>sw_at = 8, sw_value = v\<rparr>], mp_syscalls = [], mp_amd_only = [], mp_counter_reads = reads, mp_rewrites = []\<rparr>"

text \<open>A mismatch nothing describes. Reads of the time-stamp counter are listed in a plan and said not to
  be part of its identity, and the listing of differences leaves them out; the comparison of a fresh plan
  with the stored one does not.\<close>

theorem mismatch_undescribed:
  "\<exists>key stored fresh. standing_against (Some \<lparr>st_key = key, st_plan = stored\<rparr>) key fresh = Mismatch \<and>
     pd_is_empty (plan_differences stored fresh)"
proof (intro exI conjI)
  let ?key = "\<lparr>pk_executable = [], pk_build = [], pk_host = [], pk_modules = []\<rparr>"
  show "standing_against (Some \<lparr>st_key = ?key, st_plan = [demo_module [] 1]\<rparr>) ?key [demo_module [16] 1] = Mismatch"
    by (simp add: standing_against_def demo_module_def)
  show "pd_is_empty (plan_differences [demo_module [] 1] [demo_module [16] 1])"
    by (simp add: plan_differences_def module_differences_fold pd_is_empty_def filter_empty_conv slot_differences_Nil
        differs_def module_writes_def find_module_def set_ordered_libraries)
      (simp add: demo_module_def module_placed_def module_sites_def)
qed

text \<open>At two plans that write one slot differently.\<close>

theorem plan_differences_exact_witness:
  "set (pd_slots (plan_differences [demo_module [] 1] [demo_module [] 2])) =
     {\<lparr>sd_library = [], sd_at = 8, sd_stored = Some 1, sd_fresh = Some 2\<rparr>}"
proof -
  have "\<forall>m \<in> set ([demo_module [] 1] @ [demo_module [] 2]). sorted_wrt (<) (map sw_at (mp_writes m))"
    by (simp add: demo_module_def)
  from plan_differences_exact [OF this refl]
  have "set (pd_slots (plan_differences [demo_module [] 1] [demo_module [] 2])) =
      (\<Union>l. disagreements l (slot_in (module_writes l [demo_module [] 1])) (slot_in (module_writes l [demo_module [] 2])))"
    by blast
  also have "\<dots> = {\<lparr>sd_library = [], sd_at = 8, sd_stored = Some 1, sd_fresh = Some 2\<rparr>}"
    by (auto simp: module_writes_def find_module_def demo_module_def disagreements_def split: if_splits)
  finally show ?thesis .
qed

end
