(* ===== verification/Process_Stack.thy ===== *)
theory Process_Stack
  imports Module_Image
begin

text \<open>
  What a starting program finds (\<^verbatim>\<open>orbistoun-loader/src/process.rs\<close>): the initial stack of a process, with
  its arguments, environment and auxiliary vector; and where its unwind tables are (\<^verbatim>\<open>unwind.rs\<close>).
  Strings are their bytes. A write outside the buffer is a panic, as a slice out of range is.

  The lemmas show that the stack reads back: the words from the stack pointer up are the count, the
  argument pointers, the environment pointers and the auxiliary vector, each vector ended by its null,
  and each pointer leads to its string; and that the build neither panics nor leaves the room given.
\<close>

section \<open>The initial stack\<close>

definition ENTRY_ALIGN :: u64 where "ENTRY_ALIGN = 16"

record AuxEntry =
  aux_kind :: u64
  aux_value :: u64

record Description =
  de_arguments :: "byte list list"
  de_environment :: "byte list list"
  de_auxiliary :: "AuxEntry list"

record StackImage =
  si_stack_pointer :: u64
  si_bytes :: "byte list"

text \<open>\<open>value & !mask\<close> is \<open>value - (value & mask)\<close>.\<close>

definition align_down :: "u64 \<Rightarrow> u64 \<Rightarrow> u64" where
  "align_down v a = v - (v AND (a - 1))"

text \<open>\<open>bytes[at..at + len].copy_from_slice(..)\<close>.\<close>

definition copy_at :: "nat \<Rightarrow> byte list \<Rightarrow> byte list \<Rightarrow> (unit, byte list) outcome" where
  "copy_at at bs dest = (if at + length bs \<le> length dest then Ok (put_at at bs dest) else Panic)"

definition put_word :: "u64 \<Rightarrow> u64 \<Rightarrow> u64 \<Rightarrow> byte list \<Rightarrow> (unit, byte list) outcome" where
  "put_word sp address v bytes = copy_at (address - sp) (to_le 8 v) bytes"

fun put_words :: "u64 \<Rightarrow> u64 \<Rightarrow> u64 list \<Rightarrow> byte list \<Rightarrow> (unit, byte list) outcome" where
  "put_words sp at [] bytes = Ok bytes"
| "put_words sp at (v # vs) bytes = out_bind (put_word sp at v bytes) (put_words sp (at + 8) vs)"

fun put_aux :: "u64 \<Rightarrow> u64 \<Rightarrow> AuxEntry list \<Rightarrow> byte list \<Rightarrow> (unit, byte list) outcome" where
  "put_aux sp at [] bytes = Ok bytes"
| "put_aux sp at (e # es) bytes =
     out_bind (put_word sp at (aux_kind e) bytes) (\<lambda>bytes.
     out_bind (put_word sp (at + 8) (aux_value e) bytes) (put_aux sp (at + 16) es))"

fun put_strings :: "u64 \<Rightarrow> (byte list \<times> u64) list \<Rightarrow> byte list \<Rightarrow> (unit, byte list) outcome" where
  "put_strings sp [] bytes = Ok bytes"
| "put_strings sp ((blob, address) # rest) bytes = out_bind (copy_at (address - sp) blob bytes) (put_strings sp rest)"

fun string_addresses :: "u64 \<Rightarrow> byte list list \<Rightarrow> u64 list" where
  "string_addresses cursor [] = []"
| "string_addresses cursor (blob # blobs) = cursor # string_addresses (cursor + length blob) blobs"

definition stack_blobs :: "Description \<Rightarrow> byte list list" where
  "stack_blobs d = map (\<lambda>text. text @ [0]) (de_arguments d @ de_environment d)"

definition stack_words :: "Description \<Rightarrow> nat" where
  "stack_words d = 1 + length (de_arguments d) + 1 + length (de_environment d) + 1 + (length (de_auxiliary d) + 1) * 2"

definition fill_stack :: "Description \<Rightarrow> u64 \<Rightarrow> u64 list \<Rightarrow> byte list \<Rightarrow> (unit, byte list) outcome" where
  "fill_stack d sp addresses bytes =
     (let argc = length (de_arguments d); envc = length (de_environment d)
      in out_bind (put_word sp sp argc bytes) (\<lambda>bytes.
         out_bind (put_words sp (sp + 8) (take argc addresses) bytes) (\<lambda>bytes.
         out_bind (put_words sp (sp + 8 + 8 * argc + 8) (drop argc addresses) bytes) (\<lambda>bytes.
         out_bind (put_aux sp (sp + 8 + 8 * argc + 8 + 8 * envc + 8) (de_auxiliary d) bytes) (\<lambda>bytes.
           put_strings sp (zip (stack_blobs d) addresses) bytes)))))"

definition stack_build :: "u64 \<Rightarrow> u64 \<Rightarrow> Description \<Rightarrow> (unit, StackImage option) outcome" where
  "stack_build limit available d =
     (let strings_len = sum_list (map length (stack_blobs d))
      in case checked_sub limit strings_len of
           None \<Rightarrow> Ok None
         | Some low \<Rightarrow>
             let strings_base = align_down low 8;
                 addresses = string_addresses strings_base (stack_blobs d)
             in (case checked_sub strings_base (stack_words d * 8) of
                   None \<Rightarrow> Ok None
                 | Some low \<Rightarrow>
                     let sp = align_down low ENTRY_ALIGN
                     in if limit - sp > available then Ok None
                        else out_bind (fill_stack d sp addresses (replicate (limit - sp) 0))
                               (\<lambda>bytes. Ok (Some \<lparr>si_stack_pointer = sp, si_bytes = bytes\<rparr>))))"

section \<open>Filling it in\<close>

lemma align_down_power: "align_down v (2 ^ n) = v div 2 ^ n * 2 ^ n"
proof -
  have "v AND (2 ^ n - 1) = v mod 2 ^ n" unfolding take_bit_eq_mod [symmetric] take_bit_eq_mask mask_eq_exp_minus_1 ..
  then show ?thesis by (simp add: align_down_def minus_mod_eq_div_mult)
qed

lemma align_down_8: "align_down v 8 = v div 8 * 8" and align_down_16: "align_down v 16 = v div 16 * 16"
  using align_down_power [of v 3] align_down_power [of v 4] by simp_all

lemma copy_at_middle:
  "length old = length bs \<Longrightarrow> copy_at (length pre) bs (pre @ old @ suf) = Ok (pre @ bs @ suf)"
  by (simp add: copy_at_def put_at_def)

abbreviation words_le :: "u64 list \<Rightarrow> byte list" where
  "words_le ws \<equiv> concat (map (to_le 8) ws)"

lemma length_words_le [simp]: "length (words_le ws) = 8 * length ws"
  by (induction ws) auto

lemma put_word_middle:
  "at = sp + length pre \<Longrightarrow> put_word sp at v (pre @ replicate 8 0 @ suf) = Ok (pre @ to_le 8 v @ suf)"
  using copy_at_middle [of "replicate 8 0" "to_le 8 v" pre suf] by (simp add: put_word_def)

lemma put_words_middle:
  "at = sp + length pre \<Longrightarrow> put_words sp at vs (pre @ replicate (8 * length vs) 0 @ suf) = Ok (pre @ words_le vs @ suf)"
proof (induction vs arbitrary: at pre)
  case Nil
  then show ?case by simp
next
  case (Cons v vs)
  have "replicate (8 * length (v # vs)) (0 :: byte) = replicate 8 0 @ replicate (8 * length vs) 0"
    by (simp add: replicate_add [symmetric])
  then show ?case
    using put_word_middle [OF Cons.prems, of v "replicate (8 * length vs) 0 @ suf"] Cons.IH [of "at + 8" "pre @ to_le 8 v"] Cons.prems
    by simp
qed

lemma put_aux_words: "put_aux sp at es bytes = put_words sp at (concat (map (\<lambda>e. [aux_kind e, aux_value e]) es)) bytes"
proof (induction es arbitrary: at bytes)
  case Nil
  then show ?case by simp
next
  case (Cons e es)
  then have "put_words sp (at + 8) (aux_value e # concat (map (\<lambda>e. [aux_kind e, aux_value e]) es)) =
      (\<lambda>bytes. out_bind (put_word sp (at + 8) (aux_value e) bytes) (put_aux sp (at + 16) es))"
    by (auto simp: fun_eq_iff add.assoc intro!: arg_cong [where f = "out_bind _"])
  then show ?case by simp
qed

lemma put_strings_middle:
  "a = sp + length pre \<Longrightarrow>
   put_strings sp (zip blobs (string_addresses a blobs)) (pre @ replicate (length (concat blobs)) 0 @ suf) =
     Ok (pre @ concat blobs @ suf)"
proof (induction blobs arbitrary: a pre)
  case Nil
  then show ?case by simp
next
  case (Cons b blobs)
  have "copy_at (a - sp) b (pre @ replicate (length b) 0 @ replicate (length (concat blobs)) 0 @ suf) =
      Ok (pre @ b @ replicate (length (concat blobs)) 0 @ suf)"
    using copy_at_middle [of "replicate (length b) 0" b pre] Cons.prems by simp
  then show ?case using Cons.IH [of "a + length b" "pre @ b"] Cons.prems by (simp add: replicate_add)
qed

text \<open>The words from the stack pointer up.\<close>

definition vector_words :: "Description \<Rightarrow> u64 list \<Rightarrow> u64 list" where
  "vector_words d addresses =
     length (de_arguments d) # take (length (de_arguments d)) addresses @ 0 # drop (length (de_arguments d)) addresses @
     0 # concat (map (\<lambda>e. [aux_kind e, aux_value e]) (de_auxiliary d)) @ [0, 0]"

lemma length_string_addresses [simp]: "length (string_addresses a blobs) = length blobs"
  by (induction blobs arbitrary: a) auto

lemma length_stack_blobs [simp]: "length (stack_blobs d) = length (de_arguments d) + length (de_environment d)"
  by (simp add: stack_blobs_def)

lemma length_aux_words: "length (concat (map (\<lambda>e. [aux_kind e, aux_value e]) es)) = 2 * length es"
  by (induction es) auto

lemma length_vector_words:
  "length addresses = length (stack_blobs d) \<Longrightarrow> length (vector_words d addresses) = stack_words d"
  by (simp add: vector_words_def stack_words_def length_aux_words)

lemma to_le_zero: "to_le n 0 = replicate n 0"
  by (induction n) simp_all

lemma fill_stack_layout:
  assumes "length addresses = length (stack_blobs d)" "addresses = string_addresses (sp + 8 * stack_words d + gap) (stack_blobs d)"
  shows "fill_stack d sp addresses (replicate (8 * stack_words d + gap + length (concat (stack_blobs d)) + rest) 0) =
    Ok (words_le (vector_words d addresses) @ replicate gap 0 @ concat (stack_blobs d) @ replicate rest 0)"
proof -
  let ?argc = "length (de_arguments d)" let ?envc = "length (de_environment d)"
  let ?args = "take ?argc addresses" let ?envs = "drop ?argc addresses"
  let ?aux = "concat (map (\<lambda>e. [aux_kind e, aux_value e]) (de_auxiliary d))"
  let ?tail = "replicate 8 0 @ replicate 8 0 @ replicate gap 0 @ replicate (length (concat (stack_blobs d))) 0 @ replicate rest 0 :: byte list"
  let ?z = "\<lambda>n. replicate n 0 :: byte list"
  have len: "length ?args = ?argc" "length ?envs = ?envc" "length ?aux = 2 * length (de_auxiliary d)"
    using assms(1) by (simp_all add: length_aux_words)
  have start: "?z (8 * stack_words d + gap + length (concat (stack_blobs d)) + rest) =
      [] @ ?z 8 @ ?z (8 * length ?args) @ ?z 8 @ ?z (8 * length ?envs) @ ?z 8 @ ?z (8 * length ?aux) @ ?tail"
    unfolding len by (simp add: stack_words_def replicate_add [symmetric] algebra_simps)
  have w1: "put_word sp sp ?argc (?z (8 * stack_words d + gap + length (concat (stack_blobs d)) + rest)) =
      Ok (to_le 8 ?argc @ ?z (8 * length ?args) @ ?z 8 @ ?z (8 * length ?envs) @ ?z 8 @ ?z (8 * length ?aux) @ ?tail)"
    unfolding start by (subst put_word_middle) simp_all
  have w2: "put_words sp (sp + 8) ?args
        (to_le 8 ?argc @ ?z (8 * length ?args) @ ?z 8 @ ?z (8 * length ?envs) @ ?z 8 @ ?z (8 * length ?aux) @ ?tail) =
      Ok ((to_le 8 ?argc @ words_le ?args @ ?z 8) @ ?z (8 * length ?envs) @ ?z 8 @ ?z (8 * length ?aux) @ ?tail)"
    by (subst put_words_middle) simp_all
  have w3: "put_words sp (sp + 8 + 8 * ?argc + 8) ?envs
        ((to_le 8 ?argc @ words_le ?args @ ?z 8) @ ?z (8 * length ?envs) @ ?z 8 @ ?z (8 * length ?aux) @ ?tail) =
      Ok ((to_le 8 ?argc @ words_le ?args @ ?z 8 @ words_le ?envs @ ?z 8) @ ?z (8 * length ?aux) @ ?tail)"
    using assms(1) by (subst put_words_middle) (simp_all add: len)
  have w4: "put_aux sp (sp + 8 + 8 * ?argc + 8 + 8 * ?envc + 8) (de_auxiliary d)
        ((to_le 8 ?argc @ words_le ?args @ ?z 8 @ words_le ?envs @ ?z 8) @ ?z (8 * length ?aux) @ ?tail) =
      Ok (words_le (vector_words d addresses) @ ?z gap @ ?z (length (concat (stack_blobs d))) @ ?z rest)"
  proof -
    show ?thesis
      unfolding put_aux_words using assms(1)
      by (subst put_words_middle) (simp_all add: len vector_words_def to_le_zero replicate_add)
  qed
  have w5: "put_strings sp (zip (stack_blobs d) addresses)
        (words_le (vector_words d addresses) @ ?z gap @ ?z (length (concat (stack_blobs d))) @ ?z rest) =
      Ok (words_le (vector_words d addresses) @ ?z gap @ concat (stack_blobs d) @ ?z rest)"
    using put_strings_middle [of "sp + 8 * stack_words d + gap" sp "words_le (vector_words d addresses) @ ?z gap" "stack_blobs d" "?z rest"]
      assms length_vector_words [OF assms(1)] by simp
  show ?thesis unfolding fill_stack_def Let_def w1 out_bind.simps w2 w3 w4 w5 ..
qed

section \<open>Reading it back\<close>

definition read_words :: "StackImage \<Rightarrow> u64 \<Rightarrow> nat \<Rightarrow> u64 list" where
  "read_words im at n =
     map (\<lambda>i. le_nat (take 8 (drop (at + 8 * i - si_stack_pointer im) (si_bytes im)))) [0 ..< n]"

text \<open>A string of the image: its bytes and the zero that ends it, above the vectors.\<close>

definition string_held :: "StackImage \<Rightarrow> u64 \<Rightarrow> u64 \<Rightarrow> byte list \<Rightarrow> bool" where
  "string_held im low a text \<longleftrightarrow> low \<le> a \<and>
     take (length text + 1) (drop (a - si_stack_pointer im) (si_bytes im)) = text @ [0]"

lemma words_le_read:
  "map (\<lambda>i. le_nat (take 8 (drop (8 * i) (words_le ws @ suf)))) [0 ..< length ws] = map (\<lambda>w. w mod 2 ^ 64) ws"
proof (induction ws)
  case Nil
  then show ?case by simp
next
  case (Cons w ws)
  have "[0 ..< length (w # ws)] = 0 # map Suc [0 ..< length ws]" by (simp add: upt_conv_Cons map_Suc_upt del: upt_Suc)
  then show ?case using Cons.IH by (simp add: comp_def le_nat_to_le del: upt_Suc)
qed

lemma string_addresses_hold:
  "list_all2 (\<lambda>a b. base + length pre \<le> a \<and> a + length b \<le> base + length pre + length (concat blobs) \<and>
      take (length b) (drop (a - base) (pre @ concat blobs @ suf)) = b)
     (string_addresses (base + length pre) blobs) blobs"
proof (induction blobs arbitrary: pre)
  case Nil
  then show ?case by simp
next
  case (Cons b blobs)
  show ?case using Cons.IH [of "pre @ b"] by (auto simp: add.assoc elim!: list_all2_mono)
qed

lemma vector_words_bounded:
  assumes "list_all2 (\<lambda>a b. a + length b \<le> limit) addresses (stack_blobs d)" "limit \<le> U64_MAX"
    "length (concat (stack_blobs d)) \<le> limit" "\<forall>e \<in> set (de_auxiliary d). aux_kind e \<le> U64_MAX \<and> aux_value e \<le> U64_MAX"
  shows "map (\<lambda>w. w mod 2 ^ 64) (vector_words d addresses) = vector_words d addresses"
proof -
  have "length (de_arguments d) \<le> length (concat (stack_blobs d))"
    by (induction "de_arguments d" arbitrary: d) (auto simp: stack_blobs_def length_concat comp_def sum_list_Suc)
  moreover have "a \<le> U64_MAX" if "a \<in> set addresses" for a
    using that assms(1,2) by (auto simp: list_all2_conv_all_nth in_set_conv_nth intro: order_trans [OF add_leD1])
  ultimately have "w < 2 ^ 64" if "w \<in> set (vector_words d addresses)" for w
    using that assms(2,3,4) by (fastforce simp: vector_words_def dest: in_set_takeD in_set_dropD)
  then show ?thesis by (intro map_idI) simp
qed

lemma hold_strings:
  assumes "list_all2 (\<lambda>a b. base \<le> a \<and> a + length b \<le> hi \<and> take (length b) (drop (a - sp) bytes) = b)
      as blobs" "blobs = map (\<lambda>text. text @ [0]) texts" "low \<le> base"
  shows "list_all2 (string_held \<lparr>si_stack_pointer = sp, si_bytes = bytes\<rparr> low) as texts"
  using assms by (auto simp: list_all2_map2 string_held_def elim!: list_all2_mono)

text \<open>The image as its four stretches: vectors, a gap, strings, a gap.\<close>

definition stack_bytes :: "Description \<Rightarrow> u64 \<Rightarrow> nat \<Rightarrow> nat \<Rightarrow> byte list" where
  "stack_bytes d base gap rest =
     words_le (vector_words d (string_addresses base (stack_blobs d))) @ replicate gap 0 @ concat (stack_blobs d) @ replicate rest 0"

lemma stack_bytes_read:
  assumes "base = sp + 8 * stack_words d + gap" "limit = base + length (concat (stack_blobs d)) + rest" "limit \<le> U64_MAX"
    "\<forall>e \<in> set (de_auxiliary d). aux_kind e \<le> U64_MAX \<and> aux_value e \<le> U64_MAX"
    "im = \<lparr>si_stack_pointer = sp, si_bytes = stack_bytes d base gap rest\<rparr>"
  shows "\<exists>argv envp. length argv = length (de_arguments d) \<and>
      read_words im sp (stack_words d) =
        length argv # argv @ 0 # envp @ 0 # concat (map (\<lambda>e. [aux_kind e, aux_value e]) (de_auxiliary d)) @ [0, 0] \<and>
      list_all2 (string_held im (sp + 8 * stack_words d)) (argv @ envp) (de_arguments d @ de_environment d)"
proof -
  let ?as = "string_addresses base (stack_blobs d)"
  let ?a = "take (length (de_arguments d)) ?as" let ?e = "drop (length (de_arguments d)) ?as"
  have lw: "length (vector_words d ?as) = stack_words d" by (rule length_vector_words) simp
  have pre: "sp + length (words_le (vector_words d ?as) @ replicate gap 0) = base"
    unfolding length_append length_words_le lw length_replicate using assms(1) by simp
  have hold: "list_all2 (\<lambda>a b. base \<le> a \<and> a + length b \<le> base + length (concat (stack_blobs d)) \<and>
      take (length b) (drop (a - sp) (stack_bytes d base gap rest)) = b) ?as (stack_blobs d)"
    using string_addresses_hold [of sp "words_le (vector_words d ?as) @ replicate gap 0" "stack_blobs d" "replicate rest 0"]
    unfolding pre append_assoc stack_bytes_def .
  have words: "map (\<lambda>w. w mod 2 ^ 64) (vector_words d ?as) = vector_words d ?as"
    by (rule vector_words_bounded [OF list_all2_mono [OF hold] assms(3) _ assms(4)]) (use assms(2) in auto)
  have "read_words im sp (stack_words d) = vector_words d ?as"
    using words_le_read [of "vector_words d ?as" "replicate gap 0 @ concat (stack_blobs d) @ replicate rest 0"]
    unfolding read_words_def lw words assms(5) stack_bytes_def by simp
  also have "\<dots> = length ?a # ?a @ 0 # ?e @ 0 # concat (map (\<lambda>e. [aux_kind e, aux_value e]) (de_auxiliary d)) @ [0, 0]"
    by (simp add: vector_words_def)
  finally show ?thesis
    using hold_strings [OF hold stack_blobs_def, of "sp + 8 * stack_words d"] assms(1)
    unfolding assms(5) [symmetric] by (intro exI [of _ ?a] exI [of _ ?e] conjI) simp_all
qed

text \<open>C20. The initial stack of a process. Building it never panics; it is refused only when the strings
  and vectors, with the padding that aligns them, do not fit; and when it is built, the stack pointer is
  aligned, the image fills the room up to the limit, the words from the stack pointer up are the count,
  the arguments, a null, the environment, a null and the auxiliary vector with its end, and each pointer
  leads to its own string above the vectors.\<close>

theorem process_stack_reads_back:
  assumes "limit \<le> U64_MAX" "\<forall>e \<in> set (de_auxiliary d). aux_kind e \<le> U64_MAX \<and> aux_value e \<le> U64_MAX"
    "needed = length (concat (stack_blobs d)) + 8 * stack_words d"
  shows "case stack_build limit available d of
      Ok (Some im) \<Rightarrow> 16 dvd si_stack_pointer im \<and> si_stack_pointer im + length (si_bytes im) = limit \<and>
        length (si_bytes im) \<le> available \<and>
        (\<exists>argv envp. length argv = length (de_arguments d) \<and>
           read_words im (si_stack_pointer im) (stack_words d) =
             length argv # argv @ 0 # envp @ 0 # concat (map (\<lambda>e. [aux_kind e, aux_value e]) (de_auxiliary d)) @ [0, 0] \<and>
           list_all2 (string_held im (si_stack_pointer im + 8 * stack_words d)) (argv @ envp) (de_arguments d @ de_environment d))
    | Ok None \<Rightarrow> limit < needed + 7 \<or> available < needed + 22
    | _ \<Rightarrow> False"
proof -
  let ?S = "length (concat (stack_blobs d))" let ?W = "8 * stack_words d"
  define base where "base = (limit - ?S) div 8 * 8"
  define sp where "sp = (base - ?W) div 16 * 16"
  have base: "base \<le> limit - ?S" "limit - ?S < base + 8"
    unfolding base_def using div_times_less_eq_dividend dividend_less_div_times [of 8 "limit - ?S"] by auto
  have sp: "sp \<le> base - ?W" "base - ?W < sp + 16" "16 dvd sp"
    unfolding sp_def using div_times_less_eq_dividend dividend_less_div_times [of 16 "base - ?W"] by auto
  have build: "stack_build limit available d =
      (if ?S \<le> limit \<and> ?W \<le> base \<and> limit - sp \<le> available
       then out_bind (fill_stack d sp (string_addresses base (stack_blobs d)) (replicate (limit - sp) 0))
              (\<lambda>bytes. Ok (Some \<lparr>si_stack_pointer = sp, si_bytes = bytes\<rparr>))
       else Ok None)"
    by (simp add: stack_build_def Let_def checked_sub_def align_down_8 align_down_16 ENTRY_ALIGN_def base_def sp_def
        length_concat mult.commute)
  show ?thesis
  proof (cases "?S \<le> limit \<and> ?W \<le> base \<and> limit - sp \<le> available")
    case False
    then show ?thesis unfolding build if_not_P [OF False] using base sp(1,2) assms(3) by auto
  next
    case True
    define gap rest where "gap = base - ?W - sp" and "rest = limit - (base + ?S)"
    have split: "base = sp + ?W + gap" "limit = base + ?S + rest" "limit - sp = ?W + gap + ?S + rest"
      using True base sp(1) unfolding gap_def rest_def by linarith+
    have "fill_stack d sp (string_addresses base (stack_blobs d)) (replicate (limit - sp) 0) = Ok (stack_bytes d base gap rest)"
      unfolding split(3) stack_bytes_def by (rule fill_stack_layout) (simp_all add: split(1))
    then obtain im where im: "stack_build limit available d = Ok (Some im)"
      "im = \<lparr>si_stack_pointer = sp, si_bytes = stack_bytes d base gap rest\<rparr>"
      unfolding build if_P [OF True] by simp
    have "length (vector_words d (string_addresses base (stack_blobs d))) = stack_words d"
      by (rule length_vector_words) simp
    then have "length (stack_bytes d base gap rest) = limit - sp"
      unfolding stack_bytes_def length_append length_words_le split(3) by simp
    then show ?thesis
      using stack_bytes_read [OF split(1,2) assms(1,2) im(2)] sp True base unfolding im(1) by (simp add: im(2))
  qed
qed

text \<open>At a program with one argument.\<close>

theorem process_stack_reads_back_witness:
  "case stack_build 0x8000 0x1000 \<lparr>de_arguments = [[0x61]], de_environment = [], de_auxiliary = [\<lparr>aux_kind = 6, aux_value = 0x4000\<rparr>]\<rparr> of
      Ok (Some im) \<Rightarrow> 16 dvd si_stack_pointer im \<and> length (si_bytes im) \<le> 0x1000
    | _ \<Rightarrow> False"
  using process_stack_reads_back [of "0x8000" "\<lparr>de_arguments = [[0x61]], de_environment = [],
      de_auxiliary = [\<lparr>aux_kind = 6, aux_value = 0x4000\<rparr>]\<rparr>" _ "0x1000", OF _ _ refl]
  by (auto simp: stack_blobs_def stack_words_def split: outcome.splits option.splits)

section \<open>Unwind tables\<close>

definition PT_GNU_EH_FRAME :: nat where "PT_GNU_EH_FRAME = 0x6474e550"
definition HDR_VERSION :: byte where "HDR_VERSION = 1"
definition PCREL_SDATA4 :: byte where "PCREL_SDATA4 = 0x1b"
definition DATAREL_SDATA4 :: byte where "DATAREL_SDATA4 = 0x3b"
definition ABSOLUTE_8 :: "byte list" where "ABSOLUTE_8 = [4, 0]"

record UnwindSections =
  us_eh_frame_hdr :: u64
  us_eh_frame :: u64
  us_eh_frame_len :: u64
  us_text :: u64
  us_text_len :: u64

text \<open>\<open>wrapping_add_signed\<close> of a signed value of four bytes.\<close>

definition add_signed32 :: "u64 \<Rightarrow> nat \<Rightarrow> u64" where
  "add_signed32 a raw = (if raw < 2 ^ 31 then wrapping_add a raw else wrapping_sub a (2 ^ 32 - raw))"

definition eh_frame_from_hdr :: "u64 \<Rightarrow> byte list \<Rightarrow> u64 option" where
  "eh_frame_from_hdr hdr bytes =
     (if length bytes < 4 \<or> bytes ! 0 \<noteq> HDR_VERSION then None
      else let encoding = bytes ! 1
      in if encoding = PCREL_SDATA4
         then map_option (\<lambda>raw. add_signed32 (wrapping_add hdr 4) (le_nat raw)) (get_range bytes 4 8)
         else if encoding = DATAREL_SDATA4
         then map_option (\<lambda>raw. add_signed32 hdr (le_nat raw)) (get_range bytes 4 8)
         else if encoding \<in> set ABSOLUTE_8 then map_option le_nat (get_range bytes 4 12)
         else None)"

text \<open>\<open>.ok()?\<close> on a result of the container: an error answers nothing.\<close>

fun ok_then :: "('e, 'a) outcome \<Rightarrow> ('a \<Rightarrow> (unit, 'b option) outcome) \<Rightarrow> (unit, 'b option) outcome" where
  "ok_then (Ok x) f = f x"
| "ok_then (Err _) f = Ok None"
| "ok_then Panic f = Panic"

definition eh_frame_extent :: "u64 \<Rightarrow> u64 \<Rightarrow> (u64 \<times> u64) list \<Rightarrow> u64 option" where
  "eh_frame_extent eh_frame hdr loads =
     (if eh_frame < hdr then Some (hdr - eh_frame)
      else map_option (\<lambda>(start, len). saturating_add start len - eh_frame)
             (find (\<lambda>(start, len). start \<le> eh_frame \<and> eh_frame < saturating_add start len) loads))"

definition sections_of :: "memory \<Rightarrow> Image \<Rightarrow> byte list \<Rightarrow> (unit, UnwindSections option) outcome" where
  "sections_of memory im whole =
     ok_then (container_parse whole) (\<lambda>c. ok_then (program_headers c) (\<lambda>headers. Ok (
       Option.bind (find (\<lambda>h. p_type h = PT_GNU_EH_FRAME) headers) (\<lambda>frame.
         let hdr = saturating_add (im_base im) (p_vaddr frame);
             loads = map (\<lambda>h. (saturating_add (im_base im) (p_vaddr h), p_memsz h)) (filter (\<lambda>h. p_type h = PT_LOAD) headers)
         in case loads of
              [] \<Rightarrow> None
            | (code, code_len) # _ \<Rightarrow>
                Option.bind (read memory hdr 12 (im_space im)) (\<lambda>bytes.
                Option.bind (eh_frame_from_hdr hdr bytes) (\<lambda>eh_frame.
                Option.bind (eh_frame_extent eh_frame hdr loads) (\<lambda>len.
                  Some \<lparr>us_eh_frame_hdr = hdr, us_eh_frame = eh_frame, us_eh_frame_len = len,
                        us_text = code, us_text_len = code_len\<rparr>)))))))"

text \<open>A signed offset of four bytes, either way.\<close>

lemma add_signed32_exact:
  assumes "raw < 2 ^ 32" "a \<le> U64_MAX"
  shows "int (add_signed32 a raw) = (int a + (if raw < 2 ^ 31 then int raw else int raw - 2 ^ 32)) mod 2 ^ 64"
proof (cases "raw < 2 ^ 31")
  case True
  then show ?thesis by (simp add: add_signed32_def wrapping_add_def zmod_int)
next
  case False
  then have "int (a + (U64_MAX + 1 - (2 ^ 32 - raw))) = (int a + (int raw - 2 ^ 32)) + 2 ^ 64" using assms(1) by simp
  then have "int ((a + (U64_MAX + 1 - (2 ^ 32 - raw))) mod 2 ^ 64) = ((int a + (int raw - 2 ^ 32)) + 2 ^ 64) mod 2 ^ 64"
    by (simp only: zmod_int of_nat_power of_nat_numeral)
  then have "int ((a + (U64_MAX + 1 - (2 ^ 32 - raw))) mod 2 ^ 64) = (int a + (int raw - 2 ^ 32)) mod 2 ^ 64"
    by (simp only: mod_add_self2)
  moreover have "U64_MAX + 1 = 2 ^ 64" "(2 ^ 32 - raw) mod (U64_MAX + 1) = 2 ^ 32 - raw" using assms(1) False by simp_all
  ultimately show ?thesis using False by (simp only: add_signed32_def wrapping_sub_def if_False)
qed

text \<open>The frames of a module that has any: some of them, and before the index or in a segment.\<close>

lemma eh_frame_extent_pos:
  assumes "eh_frame_extent eh_frame hdr loads = Some len"
  shows "0 < len \<and> (eh_frame + len = hdr \<or> (\<exists>(start, n) \<in> set loads. start \<le> eh_frame \<and> eh_frame + len = saturating_add start n))"
proof (cases "eh_frame < hdr")
  case True
  then show ?thesis using assms by (auto simp: eh_frame_extent_def)
next
  case False
  then obtain start n where "find (\<lambda>(start, len). start \<le> eh_frame \<and> eh_frame < saturating_add start len) loads = Some (start, n)"
    "len = saturating_add start n - eh_frame"
    using assms by (auto simp: eh_frame_extent_def)
  then show ?thesis by (auto simp: find_Some_iff intro!: bexI [of _ "(start, n)"] dest!: nth_mem)
qed

end
