(* ===== verification/Packet_Stream.thy ===== *)
theory Packet_Stream
  imports Ordered_Map
begin

text \<open>
  Command buffers (\<^verbatim>\<open>orbistoun-gpu/src/packet.rs\<close>): walking a submitted buffer into packets, and building the
  packets the guest-facing builders hand out. A dword is a 32-bit word; an offset or a length in bytes
  is a natural number; a builder's 64-bit arguments are words of that width, cut to 32 bits as the
  source casts them.

  The lemmas show that the packets of a walk lie end to end from the start of the buffer and, when the
  walk is to be trusted, cover it; that a walk takes at most one step for every four bytes; that two
  walks to be trusted put together are one; and that built packets walk back to themselves.
\<close>

type_synonym u32 = "32 word"

section \<open>Packets\<close>

abbreviation (input) TYPE_SHIFT :: nat where "TYPE_SHIFT \<equiv> 30"
abbreviation (input) COUNT_SHIFT :: nat where "COUNT_SHIFT \<equiv> 16"
abbreviation (input) COUNT_MASK :: u32 where "COUNT_MASK \<equiv> 0x3FFF"
abbreviation (input) OPCODE_SHIFT :: nat where "OPCODE_SHIFT \<equiv> 8"
abbreviation (input) OPCODE_MASK :: u32 where "OPCODE_MASK \<equiv> 0xFF"
abbreviation (input) REGISTER_MASK :: u32 where "REGISTER_MASK \<equiv> 0xFFFF"
abbreviation (input) MIN_PACKET_BYTES :: nat where "MIN_PACKET_BYTES \<equiv> 4"

datatype PacketKind =
    RegisterWrite (base_register: nat)
  | Filler
  | Command (command_opcode: nat)
  | Reserved

record Packet =
  pk_offset :: nat
  pk_length :: nat
  pk_header :: u32
  pk_kind :: PacketKind

definition body_offset :: "Packet \<Rightarrow> nat" where
  "body_offset p = pk_offset p + 4"

definition body_length :: "Packet \<Rightarrow> nat" where
  "body_length p = pk_length p - 4"

record PacketWalk =
  pw_packets :: "Packet list"
  pw_desynchronised :: bool
  pw_overran :: bool
  pw_trailing_bytes :: nat

definition is_trustworthy :: "PacketWalk \<Rightarrow> bool" where
  "is_trustworthy w \<longleftrightarrow> \<not> pw_desynchronised w \<and> \<not> pw_overran w \<and> pw_trailing_bytes w = 0"

definition count_of :: "PacketKind \<Rightarrow> PacketWalk \<Rightarrow> nat" where
  "count_of k w = length (filter (\<lambda>p. pk_kind p = k) (pw_packets w))"

definition count_command :: "Packet \<Rightarrow> (nat, nat) btree \<Rightarrow> (nat, nat) btree" where
  "count_command p counts =
     (case pk_kind p of
        Command opcode \<Rightarrow> bt_insert opcode ((case bt_get counts opcode of Some n \<Rightarrow> n | None \<Rightarrow> 0) + 1) counts
      | _ \<Rightarrow> counts)"

definition command_histogram :: "PacketWalk \<Rightarrow> (nat \<times> nat) list" where
  "command_histogram w = fold count_command (pw_packets w) []"

text \<open>The histogram has each opcode once, in order, with its count.\<close>

lemma command_histogram_exact:
  "bt_wf (command_histogram w) \<and>
   bt_get (command_histogram w) opcode = (if count_of (Command opcode) w = 0 then None else Some (count_of (Command opcode) w))"
proof -
  have "bt_wf (fold count_command ps counts) \<and>
      bt_get (fold count_command ps counts) opcode =
        (let n = length (filter (\<lambda>p. pk_kind p = Command opcode) ps)
         in if n = 0 then bt_get counts opcode else Some (n + (case bt_get counts opcode of Some k \<Rightarrow> k | None \<Rightarrow> 0)))"
    if "bt_wf counts" for ps counts
    using that
  proof (induction ps arbitrary: counts)
    case Nil
    then show ?case by simp
  next
    case (Cons p ps)
    have "bt_wf (count_command p counts)" using Cons.prems by (simp add: count_command_def split: PacketKind.splits)
    then show ?case
      using Cons.IH [of "count_command p counts"]
      by (auto simp: count_command_def bt_get_insert Let_def split: PacketKind.splits option.splits)
  qed
  from this [of "[]" "pw_packets w"] show ?thesis by (simp add: command_histogram_def count_of_def Let_def)
qed

text \<open>A dword of the buffer.\<close>

definition dword :: "byte list \<Rightarrow> u32" where
  "dword bs = word_of_nat (le_nat (take 4 bs))"

definition packet_body_dwords :: "u32 \<Rightarrow> nat" where
  "packet_body_dwords header =
     (let count = drop_bit COUNT_SHIFT header AND COUNT_MASK
      in if count = COUNT_MASK then 0 else unat count + 1)"

definition packet_shape :: "u32 \<Rightarrow> PacketKind \<times> nat" where
  "packet_shape header =
     (let ty = drop_bit TYPE_SHIFT header AND 3; body_dwords = packet_body_dwords header
      in if ty = 0 then (RegisterWrite (unat (header AND REGISTER_MASK)), 4 + body_dwords * 4)
         else if ty = 2 then (Filler, MIN_PACKET_BYTES)
         else if ty = 3 then (Command (unat (drop_bit OPCODE_SHIFT header AND OPCODE_MASK)), 4 + body_dwords * 4)
         else (Reserved, MIN_PACKET_BYTES))"

lemma packet_shape_length: "packet_shape header = (k, n) \<Longrightarrow> 4 \<le> n"
  by (auto simp: packet_shape_def Let_def split: if_splits)

definition U32_LIMIT :: nat where "U32_LIMIT = 2 ^ 32 - 1"

function walk_from :: "byte list \<Rightarrow> nat \<Rightarrow> PacketWalk \<Rightarrow> PacketWalk" where
  "walk_from bytes offset w =
     (if offset + 4 \<le> length bytes
      then let header = dword (drop offset bytes);
               (kind, len) = packet_shape header;
               w = (if kind = Reserved then w\<lparr>pw_desynchronised := True\<rparr> else w);
               p = \<lparr>pk_offset = min offset U32_LIMIT, pk_length = len, pk_header = header, pk_kind = kind\<rparr>
           in if offset + len > length bytes
              then w\<lparr>pw_overran := True, pw_packets := pw_packets w @ [p]\<rparr>
              else walk_from bytes (offset + len) (w\<lparr>pw_packets := pw_packets w @ [p]\<rparr>)
      else w)"
  by pat_completeness auto
termination
  by (relation "measure (\<lambda>(bytes, offset, w). length bytes - offset)")
    (auto dest!: packet_shape_length [OF sym])

declare walk_from.simps [simp del]

definition packet_walk :: "byte list \<Rightarrow> PacketWalk" where
  "packet_walk bytes =
     walk_from bytes 0 \<lparr>pw_packets = [], pw_desynchronised = False, pw_overran = False, pw_trailing_bytes = length bytes mod 4\<rparr>"

section \<open>Building packets\<close>

text \<open>A command has at least one body dword, which the source asserts.\<close>

definition command_header :: "nat \<Rightarrow> nat \<Rightarrow> u32" where
  "command_header opcode body_dwords =
     push_bit TYPE_SHIFT 3 OR push_bit COUNT_SHIFT (word_of_nat (body_dwords - 1)) OR push_bit OPCODE_SHIFT (word_of_nat opcode)"

definition filler :: u32 where
  "filler = push_bit TYPE_SHIFT 2"

definition DISPATCH_DIRECT :: nat where "DISPATCH_DIRECT = 0x15"
definition INDEX_BUFFER_SIZE :: nat where "INDEX_BUFFER_SIZE = 0x13"
definition INDEX_BASE :: nat where "INDEX_BASE = 0x26"
definition DRAW_INDEX_2 :: nat where "DRAW_INDEX_2 = 0x27"
definition DRAW_INDEX_AUTO :: nat where "DRAW_INDEX_AUTO = 0x2d"
definition NUM_INSTANCES :: nat where "NUM_INSTANCES = 0x2f"
definition EVENT_WRITE :: nat where "EVENT_WRITE = 0x46"
definition SET_CONTEXT_REG :: nat where "SET_CONTEXT_REG = 0x69"
definition SET_SH_REG :: nat where "SET_SH_REG = 0x76"
definition SET_UCONFIG_REG :: nat where "SET_UCONFIG_REG = 0x79"
definition SET_UCONFIG_REG_INDEX :: nat where "SET_UCONFIG_REG_INDEX = 0x7a"
definition SET_CONTEXT_REG_INDIRECT :: nat where "SET_CONTEXT_REG_INDIRECT = 0x9f"
definition NOP :: nat where "NOP = 0x10"
definition ACQUIRE_MEM :: nat where "ACQUIRE_MEM = 0x58"
definition RELEASE_MEM :: nat where "RELEASE_MEM = 0x49"
definition DMA_DATA :: nat where "DMA_DATA = 0x50"
definition SET_BASE :: nat where "SET_BASE = 0x11"
definition DISPATCH_INDIRECT :: nat where "DISPATCH_INDIRECT = 0x16"
definition DRAW_INDIRECT :: nat where "DRAW_INDIRECT = 0x24"
definition DRAW_INDEX_INDIRECT :: nat where "DRAW_INDEX_INDIRECT = 0x25"
definition SET_SH_REG_INDIRECT :: nat where "SET_SH_REG_INDIRECT = 0x63"
definition SET_UCONFIG_REG_INDIRECT :: nat where "SET_UCONFIG_REG_INDIRECT = 0x64"
definition STALL_COMMAND_BUFFER_PARSER :: nat where "STALL_COMMAND_BUFFER_PARSER = 0x42"
definition WAIT_REG_MEM :: nat where "WAIT_REG_MEM = 0x3c"
definition WAIT_REG_MEM64 :: nat where "WAIT_REG_MEM64 = 0x93"
definition DRAW_INDIRECT_MULTI :: nat where "DRAW_INDIRECT_MULTI = 0x2c"
definition DRAW_INDEX_INDIRECT_MULTI :: nat where "DRAW_INDEX_INDIRECT_MULTI = 0x38"
definition MARKER_HEADER :: u32 where "MARKER_HEADER = 0xc0017904"
definition MARKER_REGISTER :: u32 where "MARKER_REGISTER = 0x342"
definition INDIRECT_COUNT_MASK :: u32 where "INDIRECT_COUNT_MASK = 0x3fff"

lemmas opcode_defs = DISPATCH_DIRECT_def INDEX_BUFFER_SIZE_def INDEX_BASE_def DRAW_INDEX_2_def DRAW_INDEX_AUTO_def
  NUM_INSTANCES_def EVENT_WRITE_def SET_CONTEXT_REG_def SET_SH_REG_def SET_UCONFIG_REG_def SET_UCONFIG_REG_INDEX_def
  SET_CONTEXT_REG_INDIRECT_def NOP_def ACQUIRE_MEM_def RELEASE_MEM_def DMA_DATA_def SET_BASE_def DISPATCH_INDIRECT_def
  DRAW_INDIRECT_def DRAW_INDEX_INDIRECT_def SET_SH_REG_INDIRECT_def SET_UCONFIG_REG_INDIRECT_def
  STALL_COMMAND_BUFFER_PARSER_def WAIT_REG_MEM_def WAIT_REG_MEM64_def DRAW_INDIRECT_MULTI_def DRAW_INDEX_INDIRECT_MULTI_def

abbreviation low32 :: "64 word \<Rightarrow> u32" where "low32 a \<equiv> ucast a"
abbreviation high32 :: "64 word \<Rightarrow> u32" where "high32 a \<equiv> ucast (drop_bit 32 a)"

definition dispatch_direct :: "u32 \<Rightarrow> u32 \<Rightarrow> u32 \<Rightarrow> u32 list" where
  "dispatch_direct x y z = [command_header DISPATCH_DIRECT 4 OR 2, x, y, z, 1]"

definition indirect_initiator :: "u32 \<Rightarrow> u32" where
  "indirect_initiator modifier = 0x41 OR (modifier AND 0xa038)"

definition agc_dispatch_direct :: "u32 \<Rightarrow> u32 \<Rightarrow> u32 \<Rightarrow> u32 \<Rightarrow> u32 list" where
  "agc_dispatch_direct x y z modifier = [command_header DISPATCH_DIRECT 4, x, y, z, indirect_initiator modifier]"

definition reservation :: "nat \<Rightarrow> nat \<Rightarrow> u32 list" where
  "reservation opcode body_dwords = command_header opcode body_dwords # replicate body_dwords 0"

definition marker_skeleton :: "u32 list" where
  "marker_skeleton = [MARKER_HEADER, 0, 0]"

definition build_wait_reg_mem ::
  "64 word \<Rightarrow> 64 word \<Rightarrow> 64 word \<Rightarrow> 64 word \<Rightarrow> 64 word \<Rightarrow> 64 word \<Rightarrow> 64 word \<Rightarrow> 64 word \<Rightarrow> u32 list" where
  "build_wait_reg_mem wide func engine cache poll reference msk interval =
     (let control = low32 (0x10 OR (func AND 7) OR push_bit 8 (engine AND 3) OR push_bit 25 (cache AND 3));
          every = low32 (drop_bit 4 interval AND 0xffff)
      in [0xc0027904, MARKER_REGISTER, if wide = 1 then 0xc8020000 else 0xc8010000, low32 poll] @
         (if wide = 1
          then let address = poll AND NOT 7
               in [command_header WAIT_REG_MEM64 8, control, low32 address, high32 address, low32 reference,
                   high32 reference, low32 msk, high32 msk, every]
          else let address = poll AND NOT 3
               in [command_header WAIT_REG_MEM 6, control, low32 address, high32 address, low32 reference,
                   low32 msk, every]) @
         [MARKER_HEADER, MARKER_REGISTER, 0xc8000000])"

definition reset_queue_skeleton :: "u32 list" where
  "reset_queue_skeleton = [0xffff1000, 0xc0027904, 0, 0, 0, MARKER_HEADER, 0, 0]"

definition set_registers_indirect :: "nat \<Rightarrow> 64 word \<Rightarrow> 64 word \<Rightarrow> u32 list" where
  "set_registers_indirect opcode table count =
     [command_header opcode 4, low32 table AND NOT 3, high32 table, 0x80000000, low32 count AND INDIRECT_COUNT_MASK]"

definition set_cx_registers_indirect :: "64 word \<Rightarrow> 64 word \<Rightarrow> u32 list" where
  "set_cx_registers_indirect table count = set_registers_indirect SET_CONTEXT_REG_INDIRECT table count"

definition build_nop :: "u32 list" where
  "build_nop = [0xffff1000]"

definition acquire_mem_skeleton :: "u32 list" where
  "acquire_mem_skeleton = command_header ACQUIRE_MEM 7 # replicate 7 0"

text \<open>The arguments are an array of eleven; the eighth and ninth are unused here.\<close>

definition build_release_mem ::
  "64 word \<Rightarrow> 64 word \<Rightarrow> 64 word \<Rightarrow> 64 word \<Rightarrow> 64 word \<Rightarrow> 64 word \<Rightarrow> 64 word \<Rightarrow> 64 word \<Rightarrow> 64 word \<Rightarrow> u32 list" where
  "build_release_mem a1 a2 a3 a4 a5 a6 a7 a10 a11 =
     (let index = 5 + (drop_bit 6 a1 AND 1); destination = a5 AND NOT 3
      in [command_header RELEASE_MEM 7,
          low32 ((a1 AND 0x3f) OR push_bit 8 index OR push_bit 12 (a2 AND 0xfff) OR push_bit 25 (a4 AND 3)),
          low32 (push_bit 16 (a3 AND 3) OR push_bit 24 (a10 AND 7) OR push_bit 29 (a6 AND 7)),
          low32 destination, high32 destination, low32 a7, high32 a7, low32 (a11 AND 0x07ffffff)])"

definition both_bits :: "64 word \<Rightarrow> 64 word" where
  "both_bits select = (if select AND 3 = 3 then 1 else 0)"

definition build_dma_data ::
  "64 word \<Rightarrow> 64 word \<Rightarrow> 64 word \<Rightarrow> 64 word \<Rightarrow> 64 word \<Rightarrow> 64 word \<Rightarrow> 64 word \<Rightarrow> 64 word \<Rightarrow> 64 word \<Rightarrow> 64 word \<Rightarrow> 64 word \<Rightarrow> u32 list" where
  "build_dma_data a1 a2 a3 a4 a5 a6 a7 a8 a9 a10 a11 =
     (let control = (a1 AND 1) OR push_bit 13 (a6 AND 3) OR push_bit 20 (a2 AND 3) OR push_bit 25 (a3 AND 3) OR
            push_bit 29 (a5 AND 3) OR push_bit 31 (a11 AND 1);
          count = (a8 AND 0x03ffffff) OR push_bit 26 (a5 AND 1) OR push_bit 27 (a2 AND 1) OR push_bit 28 (both_bits a5) OR
            push_bit 29 (both_bits a2) OR push_bit 30 (a9 AND 1) OR push_bit 31 (a10 AND 1)
      in [command_header DMA_DATA 6, low32 control, low32 a7, high32 a7, low32 a4, high32 a4, low32 count])"

definition set_base_indirect_args :: "u32 \<Rightarrow> 64 word \<Rightarrow> u32 list" where
  "set_base_indirect_args shader_type address =
     [command_header SET_BASE 3 OR push_bit 1 (shader_type AND 1), 1, low32 address, high32 address]"

definition dispatch_indirect_offset :: "u32 \<Rightarrow> u32 \<Rightarrow> u32 list" where
  "dispatch_indirect_offset offset modifier = [command_header DISPATCH_INDIRECT 2, offset, indirect_initiator modifier]"

definition dispatch_indirect_args :: "64 word \<Rightarrow> u32 \<Rightarrow> u32 list" where
  "dispatch_indirect_args address modifier =
     [command_header DISPATCH_INDIRECT 3, low32 address, high32 address, indirect_initiator modifier]"

definition UNNAMED_LOCATION :: u32 where "UNNAMED_LOCATION = 0x280"
definition GS_USER_DATA_LOCATION :: u32 where "GS_USER_DATA_LOCATION = 0x8c"

definition modifier_new :: "64 word \<Rightarrow> u32 option" where
  "modifier_new modifier =
     (let m = low32 modifier
      in if m AND 0xf \<noteq> 0 \<and> m AND NOT 0xe000011f \<noteq> 0 then None else Some m)"

definition modifier_names :: "u32 \<Rightarrow> u32 \<Rightarrow> bool" where
  "modifier_names m b \<longleftrightarrow> m AND b \<noteq> 0"

definition modifier_location :: "u32 \<Rightarrow> u32 \<Rightarrow> u32" where
  "modifier_location m b = (if modifier_names m b then GS_USER_DATA_LOCATION else UNNAMED_LOCATION)"

definition vertex_word :: "u32 \<Rightarrow> bool \<Rightarrow> u32" where
  "vertex_word m indexed =
     modifier_location m 1 OR (if indexed \<and> modifier_names m 2 then push_bit 16 GS_USER_DATA_LOCATION else 0)"

definition start_index_enable :: "u32 \<Rightarrow> bool \<Rightarrow> u32" where
  "start_index_enable m indexed = (if indexed \<and> modifier_names m 2 then push_bit 28 1 else 0)"

definition modifier_initiator :: "u32 \<Rightarrow> u32 \<Rightarrow> u32" where
  "modifier_initiator m source = source OR (drop_bit 3 m AND 0x20)"

definition build_draw_indirect :: "u32 \<Rightarrow> u32 \<Rightarrow> u32 list" where
  "build_draw_indirect offset m =
     [command_header DRAW_INDIRECT 4, offset, vertex_word m False, modifier_location m 4, modifier_initiator m 2]"

definition build_draw_index_indirect :: "u32 \<Rightarrow> u32 \<Rightarrow> u32 list" where
  "build_draw_index_indirect offset m =
     [command_header DRAW_INDEX_INDIRECT 4, offset, vertex_word m True,
      modifier_location m 4 OR start_index_enable m True, modifier_initiator m 0]"

record MultiDraw =
  md_offset :: u32
  md_count_from_memory :: bool
  md_max_count :: u32
  md_count_address :: "64 word"
  md_stride :: u32

definition draw_indirect_multi :: "bool \<Rightarrow> MultiDraw \<Rightarrow> u32 \<Rightarrow> u32 list" where
  "draw_indirect_multi indexed draw m =
     (let (start, opcode, source) = (if indexed then (0xc6000005, DRAW_INDEX_INDIRECT_MULTI, 0)
            else (0xc6000008, DRAW_INDIRECT_MULTI, 2));
          draw_index = modifier_location m 8 OR (if modifier_names m 8 then push_bit 31 1 else 0) OR
            push_bit 30 (if md_count_from_memory draw then 1 else 0) OR start_index_enable m indexed OR
            (if modifier_names m 0x10 then push_bit 27 1 else 0)
      in [MARKER_HEADER, MARKER_REGISTER, start, command_header opcode 9, md_offset draw, vertex_word m indexed,
          modifier_location m 4, draw_index, md_max_count draw, low32 (md_count_address draw), high32 (md_count_address draw),
          md_stride draw, modifier_initiator m source, MARKER_HEADER, MARKER_REGISTER, 0xc6000000])"

definition build_event_write :: "u32 \<Rightarrow> u32 list" where
  "build_event_write event_type = [command_header EVENT_WRITE 1, event_type]"

definition set_index_count :: "u32 \<Rightarrow> u32 list" where
  "set_index_count indices = [command_header INDEX_BUFFER_SIZE 1, indices]"

definition set_num_instances :: "u32 \<Rightarrow> u32 list" where
  "set_num_instances instances = [command_header NUM_INSTANCES 1, instances]"

definition draw_index_auto :: "u32 \<Rightarrow> u32 \<Rightarrow> u32 list" where
  "draw_index_auto index_count initiator = [command_header DRAW_INDEX_AUTO 2, index_count, initiator]"

definition set_index_base :: "64 word \<Rightarrow> u32 list" where
  "set_index_base address = [command_header INDEX_BASE 2, low32 (address AND 0xffffffff), high32 address]"

definition set_context_register :: "16 word \<Rightarrow> u32 \<Rightarrow> u32 list" where
  "set_context_register offset v = [command_header SET_CONTEXT_REG 2, ucast offset, v]"

definition set_uconfig_register :: "16 word \<Rightarrow> u32 \<Rightarrow> u32 list" where
  "set_uconfig_register offset v = [command_header SET_UCONFIG_REG 2, ucast offset, v]"

definition set_sh_register_range :: "16 word \<Rightarrow> u32 list \<Rightarrow> u32 list" where
  "set_sh_register_range offset vals =
     (if vals = [] \<or> length vals + 1 > U32_LIMIT then []
      else command_header SET_SH_REG (length vals + 1) # ucast offset # vals)"

definition set_index_size :: "u32 \<Rightarrow> u32 \<Rightarrow> u32 list" where
  "set_index_size index_type flags =
     [command_header SET_UCONFIG_REG_INDEX 2, 0x20000243, 0x400 OR push_bit 6 (flags AND 1) OR (index_type AND 3)]"

definition draw_index_2 :: "u32 \<Rightarrow> 64 word \<Rightarrow> u32 \<Rightarrow> u32 \<Rightarrow> u32 list" where
  "draw_index_2 max_size address index_count initiator =
     [command_header DRAW_INDEX_2 5, max_size, low32 (address AND 0xffffffff), high32 address, index_count, initiator]"

text \<open>The bytes of built dwords.\<close>

definition dword_bytes :: "u32 list \<Rightarrow> byte list" where
  "dword_bytes ws = concat (map (\<lambda>w. to_le 4 (unat w)) ws)"

section \<open>Reading a header\<close>

lemma dword_to_le [simp]: "dword (to_le 4 (unat w) @ bs) = w"
  using unsigned_less [of w, where 'a = nat] by (simp add: dword_def le_nat_to_le)

lemma bit_small: "m < 2 ^ k \<Longrightarrow> bit (m :: nat) j \<Longrightarrow> j < k"
proof (rule ccontr)
  assume m: "m < 2 ^ k" "bit m j" "\<not> j < k"
  then have "(2 :: nat) ^ k \<le> 2 ^ j" by simp
  then have "m < 2 ^ j" using m(1) by linarith
  then show False using m(2) by (simp add: bit_iff_odd)
qed

lemma header_fields:
  fixes opcode n :: nat
  assumes "opcode < 2 ^ 8" "m < 2 ^ 14"
  defines "h \<equiv> push_bit 30 3 OR push_bit 16 (word_of_nat m) OR push_bit 8 (word_of_nat opcode) :: u32"
  shows "drop_bit 30 h AND 3 = 3" "drop_bit 16 h AND 0x3FFF = word_of_nat m" "drop_bit 8 h AND 0xFF = word_of_nat opcode"
proof -
  have masks: "3 = (mask 2 :: u32)" "0x3FFF = (mask 14 :: u32)" "0xFF = (mask 8 :: u32)" by (simp_all add: mask_eq_exp_minus_1)
  note small = bit_small [OF assms(1)] bit_small [OF assms(2)]
  show "drop_bit 30 h AND 3 = 3" unfolding h_def masks by (rule bit_word_eqI) (auto simp: bit_simps dest: small)
  show "drop_bit 16 h AND 0x3FFF = word_of_nat m" unfolding h_def masks by (rule bit_word_eqI) (auto simp: bit_simps dest: small)
  show "drop_bit 8 h AND 0xFF = word_of_nat opcode" unfolding h_def masks by (rule bit_word_eqI) (auto simp: bit_simps dest: small)
qed

lemma command_header_shape:
  assumes "opcode < 256" "0 < n" "n \<le> 0x3FFF"
  shows "packet_shape (command_header opcode n) = (Command opcode, 4 + n * 4)"
proof -
  have "opcode < 2 ^ 8" "n - 1 < 2 ^ 14" using assms by simp_all
  note f = header_fields [OF this, folded command_header_def]
  have u: "unat (word_of_nat (n - 1) :: u32) = n - 1" "unat (word_of_nat opcode :: u32) = opcode"
    using assms by (simp_all add: unat_of_nat del: of_nat_diff)
  have "(word_of_nat (n - 1) :: u32) \<noteq> 0x3FFF"
  proof
    assume "(word_of_nat (n - 1) :: u32) = 0x3FFF"
    from arg_cong [where f = unat, OF this] have "n - 1 = 0x3FFF" unfolding u(1) by simp
    then show False using assms(2,3) by simp
  qed
  then have "packet_body_dwords (command_header opcode n) = n"
    unfolding packet_body_dwords_def Let_def f(2) if_not_P u(1) using assms(2) by simp
  then show ?thesis using f(1,3) u(2) by (simp add: packet_shape_def)
qed

section \<open>The walk over what is left of the buffer\<close>

function scan :: "nat \<Rightarrow> byte list \<Rightarrow> Packet list \<times> bool \<times> bool" where
  "scan off bs =
     (if length bs < 4 then ([], False, False)
      else let header = dword bs; (kind, len) = packet_shape header;
               p = \<lparr>pk_offset = min off U32_LIMIT, pk_length = len, pk_header = header, pk_kind = kind\<rparr>
           in if length bs < len then ([p], kind = Reserved, True)
              else let (ps, d, r) = scan (off + len) (drop len bs) in (p # ps, kind = Reserved \<or> d, r))"
  by pat_completeness auto
termination
  by (relation "measure (\<lambda>(off, bs). length bs)") (auto dest!: packet_shape_length [OF sym])

declare scan.simps [simp del]

lemma scan_cases [case_names short over step]:
  assumes "length bs < 4 \<Longrightarrow> scan off bs = ([], False, False) \<Longrightarrow> P"
    "\<And>kind len. 4 \<le> length bs \<Longrightarrow> packet_shape (dword bs) = (kind, len) \<Longrightarrow> length bs < len \<Longrightarrow>
       scan off bs = ([\<lparr>pk_offset = min off U32_LIMIT, pk_length = len, pk_header = dword bs, pk_kind = kind\<rparr>], kind = Reserved, True) \<Longrightarrow> P"
    "\<And>kind len ps d r. 4 \<le> length bs \<Longrightarrow> packet_shape (dword bs) = (kind, len) \<Longrightarrow> 4 \<le> len \<Longrightarrow> len \<le> length bs \<Longrightarrow>
       scan (off + len) (drop len bs) = (ps, d, r) \<Longrightarrow>
       scan off bs = (\<lparr>pk_offset = min off U32_LIMIT, pk_length = len, pk_header = dword bs, pk_kind = kind\<rparr> # ps,
         kind = Reserved \<or> d, r) \<Longrightarrow> P"
  shows P
proof (cases "length bs < 4")
  case True
  then show ?thesis using assms(1) by (simp add: scan.simps)
next
  case False
  obtain kind len where s: "packet_shape (dword bs) = (kind, len)" by fastforce
  show ?thesis
  proof (cases "length bs < len")
    case True
    then show ?thesis using False s by (intro assms(2)) (auto simp: scan.simps [of off bs])
  next
    case le: False
    obtain ps d r where "scan (off + len) (drop len bs) = (ps, d, r)" by (metis prod_cases3)
    then show ?thesis
      using False le s packet_shape_length [OF s] by (intro assms(3)) (auto simp: scan.simps [of off bs])
  qed
qed

lemma walk_from_scan:
  "off \<le> length bytes \<Longrightarrow> scan off (drop off bytes) = (ps, d, r) \<Longrightarrow>
   walk_from bytes off w = w\<lparr>pw_packets := pw_packets w @ ps, pw_desynchronised := pw_desynchronised w \<or> d, pw_overran := pw_overran w \<or> r\<rparr>"
proof (induction "length bytes - off" arbitrary: off ps d r w rule: less_induct)
  case less
  show ?case
  proof (cases off "drop off bytes" rule: scan_cases)
    case short
    then show ?thesis using less.prems by (simp add: walk_from.simps [of bytes off])
  next
    case (over kind len)
    then have "off + 4 \<le> length bytes" "length bytes < off + len" using less.prems(1) by auto
    then show ?thesis using less.prems(2) over by (auto simp: walk_from.simps [of bytes off w])
  next
    case (step kind len ps' d' r')
    then have b: "off + 4 \<le> length bytes" "off + len \<le> length bytes" "length bytes - (off + len) < length bytes - off"
      "scan (off + len) (drop (off + len) bytes) = (ps', d', r')"
      using less.prems(1) by (auto simp: add.commute)
    show ?thesis
      using less.prems(2) step less.hyps [OF b(3,2,4)] b(1,2) by (auto simp: walk_from.simps [of bytes off w])
  qed
qed

lemma packet_walk_scan:
  "scan 0 bytes = (ps, d, r) \<Longrightarrow>
   packet_walk bytes = \<lparr>pw_packets = ps, pw_desynchronised = d, pw_overran = r, pw_trailing_bytes = length bytes mod 4\<rparr>"
  using walk_from_scan [of 0 bytes] by (simp add: packet_walk_def)

lemma packet_shape_dvd: "packet_shape header = (k, n) \<Longrightarrow> 4 dvd n"
  by (auto simp: packet_shape_def Let_def split: if_splits)

section \<open>Where the packets of a walk lie\<close>

text \<open>Packets end to end from an offset, each as its header in the buffer says.\<close>

fun lies :: "byte list \<Rightarrow> nat \<Rightarrow> Packet list \<Rightarrow> bool" where
  "lies bytes off [] = True"
| "lies bytes off (p # ps) \<longleftrightarrow> pk_offset p = min off U32_LIMIT \<and> off + 4 \<le> length bytes \<and>
     pk_header p = dword (drop off bytes) \<and> packet_shape (pk_header p) = (pk_kind p, pk_length p) \<and>
     lies bytes (off + pk_length p) ps"

definition total_length :: "Packet list \<Rightarrow> nat" where
  "total_length ps = sum_list (map pk_length ps)"

lemma scan_lies:
  "off \<le> length bytes \<Longrightarrow> scan off (drop off bytes) = (ps, d, r) \<Longrightarrow>
   lies bytes off ps \<and> d = (\<exists>p \<in> set ps. pk_kind p = Reserved) \<and> 4 * length ps \<le> length bytes - off \<and>
   (if r then length bytes < off + total_length ps else off + total_length ps = length bytes - (length bytes - off) mod 4)"
proof (induction "length bytes - off" arbitrary: off ps d r rule: less_induct)
  case less
  show ?case
  proof (cases off "drop off bytes" rule: scan_cases)
    case short
    then show ?thesis using less.prems by (auto simp: total_length_def)
  next
    case (over kind len)
    then show ?thesis using less.prems by (auto simp: total_length_def)
  next
    case (step kind len ps' d' r')
    then have b: "off + 4 \<le> length bytes" "off + len \<le> length bytes" "length bytes - (off + len) < length bytes - off"
      "scan (off + len) (drop (off + len) bytes) = (ps', d', r')"
      using less.prems(1) by (auto simp: add.commute)
    obtain k where k: "len = 4 * k" using packet_shape_dvd [OF step(2)] by (auto elim: dvdE)
    have "(length bytes - off) mod 4 = (4 * k + (length bytes - (off + len))) mod 4" using b(2) k by simp
    also have "\<dots> = (length bytes - (off + len)) mod 4" by simp
    finally have m: "(length bytes - off) mod 4 = (length bytes - (off + len)) mod 4" .
    let ?p = "\<lparr>pk_offset = min off U32_LIMIT, pk_length = len, pk_header = dword (drop off bytes), pk_kind = kind\<rparr>"
    have eq: "ps = ?p # ps'" "d = (kind = Reserved \<or> d')" "r = r'" using less.prems(2) step(6) by auto
    note ih = less.hyps [OF b(3,2,4)]
    have "lies bytes off ps" using ih b(1) step(2) by (simp add: eq(1))
    moreover have "d = (\<exists>p \<in> set ps. pk_kind p = Reserved)" using ih by (simp add: eq(1,2))
    moreover have "4 * length ps \<le> length bytes - off" using conjunct1 [OF conjunct2 [OF conjunct2 [OF ih]]] step(3) b(2) by (simp add: eq(1))
    moreover have "off + total_length ps = off + len + total_length ps'" by (simp add: eq(1) total_length_def)
    ultimately show ?thesis using conjunct2 [OF conjunct2 [OF conjunct2 [OF ih]]] unfolding m eq(3) by (cases r') (simp_all add: add.assoc)
  qed
qed

text \<open>C21. A walk of any buffer ends, after at most one packet for every four bytes. Its packets lie end to
  end from the start, each what its own header says; unless it overran, they cover every whole dword of
  the buffer; and it lost its place exactly when one of them is of the reserved type.\<close>

theorem packet_walk_covers:
  "let w = packet_walk bytes
   in lies bytes 0 (pw_packets w) \<and> 4 * length (pw_packets w) \<le> length bytes \<and>
      (pw_desynchronised w \<longleftrightarrow> (\<exists>p \<in> set (pw_packets w). pk_kind p = Reserved)) \<and>
      (if pw_overran w then length bytes < total_length (pw_packets w)
       else total_length (pw_packets w) + pw_trailing_bytes w = length bytes)"
proof -
  obtain ps d r where s: "scan 0 bytes = (ps, d, r)" by (metis prod_cases3)
  have "length bytes mod 4 \<le> length bytes" by simp
  then show ?thesis using scan_lies [of 0 bytes ps d r] s by (auto simp: packet_walk_scan [OF s] Let_def)
qed

lemma packet_walk_total:
  "length bytes < total_length (pw_packets (packet_walk bytes)) + 4"
proof -
  obtain ps d r where s: "scan 0 bytes = (ps, d, r)" by (metis prod_cases3)
  have "length bytes mod 4 < 4" by simp
  then show ?thesis using scan_lies [of 0 bytes ps d r] s by (cases r) (auto simp: packet_walk_scan [OF s])
qed

section \<open>Walks put together\<close>

lemma dword_append: "4 \<le> length a \<Longrightarrow> dword (a @ b) = dword a"
  by (simp add: dword_def)

lemma scan_append:
  assumes "scan off a = (ps, d, False)" "4 dvd length a" "scan (off + length a) b = (ps', d', r')"
  shows "scan off (a @ b) = (ps @ ps', d \<or> d', r')"
  using assms
proof (induction "length a" arbitrary: off a ps d rule: less_induct)
  case less
  show ?case
  proof (cases off a rule: scan_cases)
    case short
    then have "a = []" using less.prems(2) by (auto elim!: dvdE)
    then show ?thesis using less.prems short by simp
  next
    case (over kind len)
    then show ?thesis using less.prems(1) by simp
  next
    case (step kind len qs e r)
    have "4 dvd length (drop len a)" using less.prems(2) packet_shape_dvd [OF step(2)] by (simp add: dvd_diff_nat)
    moreover have "scan (off + len + length (drop len a)) b = (ps', d', r')" using less.prems(3) step(4) by simp
    ultimately have "scan (off + len) (drop len a @ b) = (qs @ ps', e \<or> d', r')"
      using less.hyps [of "drop len a" "off + len" qs e] step less.prems(1) by simp
    then show ?thesis
      using step less.prems(1) by (auto simp: scan.simps [of off "a @ b"] dword_append)
  qed
qed

text \<open>What a walk says of itself does not depend on where it starts.\<close>

lemma scan_flags: "snd (scan x b) = snd (scan y b)"
proof (induction "length b" arbitrary: b x y rule: less_induct)
  case less
  show ?case
  proof (cases x b rule: scan_cases)
    case short
    then show ?thesis by (simp add: scan.simps [of y b])
  next
    case (over kind len)
    then show ?thesis by (simp add: scan.simps [of y b])
  next
    case (step kind len ps d r)
    then have "snd (scan (y + len) (drop len b)) = (d, r)"
      using less.hyps [of "drop len b" "y + len" "x + len"] by simp
    then show ?thesis using step by (auto simp: scan.simps [of y b] case_prod_unfold)
  qed
qed

lemma trustworthy_scan:
  "is_trustworthy (packet_walk b) \<longleftrightarrow> snd (scan x b) = (False, False) \<and> 4 dvd length b"
proof -
  obtain ps d r where s: "scan 0 b = (ps, d, r)" by (metis prod_cases3)
  show ?thesis using scan_flags [of x b 0] s by (simp add: packet_walk_scan [OF s] is_trustworthy_def mod_eq_0_iff_dvd)
qed

lemma trustworthy_append:
  assumes "is_trustworthy (packet_walk a)" "is_trustworthy (packet_walk b)"
  shows "is_trustworthy (packet_walk (a @ b))"
proof -
  obtain ps where a: "scan 0 a = (ps, False, False)" "4 dvd length a"
    using assms(1) trustworthy_scan [of a 0] by (metis prod.collapse)
  obtain qs where b: "scan (0 + length a) b = (qs, False, False)" "4 dvd length b"
    using assms(2) trustworthy_scan [of b "0 + length a"] by (metis prod.collapse)
  show ?thesis using scan_append [OF a b(1)] a(2) b(2) trustworthy_scan [of "a @ b" 0] by simp
qed

section \<open>Built packets\<close>

definition command_bytes :: "nat \<times> u32 list \<Rightarrow> byte list" where
  "command_bytes c = dword_bytes (command_header (fst c) (length (snd c)) # snd c)"

definition command_ok :: "nat \<times> u32 list \<Rightarrow> bool" where
  "command_ok c \<longleftrightarrow> fst c < 256 \<and> snd c \<noteq> [] \<and> length (snd c) \<le> 0x3FFF"

lemma length_dword_bytes [simp]: "length (dword_bytes ws) = 4 * length ws"
  by (induction ws) (simp_all add: dword_bytes_def)

lemma dword_bytes_Cons: "dword_bytes (w # ws) = to_le 4 (unat w) @ dword_bytes ws"
  by (simp add: dword_bytes_def)

text \<open>The body of a packet, as dwords.\<close>

definition body_dwords :: "byte list \<Rightarrow> Packet \<Rightarrow> u32 list" where
  "body_dwords stream p = map dword (chunks_exact 4 (take (body_length p) (drop (body_offset p) stream)))"

lemma chunks_dword_bytes: "map dword (chunks_exact 4 (dword_bytes ws)) = ws"
proof (induction ws)
  case Nil
  then show ?case by (simp add: dword_bytes_def)
next
  case (Cons w ws)
  then show ?case using dword_to_le [of w "[]"] by (simp add: dword_bytes_Cons chunks_exact_append)
qed

lemma scan_command:
  assumes "command_ok c"
  shows "scan off (command_bytes c @ rest) =
    (let (ps, d, r) = scan (off + length (command_bytes c)) rest
     in (\<lparr>pk_offset = min off U32_LIMIT, pk_length = length (command_bytes c),
          pk_header = command_header (fst c) (length (snd c)), pk_kind = Command (fst c)\<rparr> # ps, d, r))"
proof -
  let ?h = "command_header (fst c) (length (snd c))"
  have shape: "packet_shape ?h = (Command (fst c), 4 + length (snd c) * 4)"
    using assms by (intro command_header_shape) (auto simp: command_ok_def)
  have head: "dword (command_bytes c @ rest) = ?h" by (simp add: command_bytes_def dword_bytes_Cons)
  have len: "length (command_bytes c) = 4 + length (snd c) * 4" by (simp add: command_bytes_def)
  show ?thesis
    using shape by (simp add: scan.simps [of off "command_bytes c @ rest"] head len)
qed

text \<open>The packets of a sequence of commands, from an offset.\<close>

definition built_packet :: "nat \<Rightarrow> nat \<times> u32 list \<Rightarrow> Packet" where
  "built_packet off c =
     \<lparr>pk_offset = off, pk_length = 4 + 4 * length (snd c), pk_header = command_header (fst c) (length (snd c)),
      pk_kind = Command (fst c)\<rparr>"

fun built_packets :: "nat \<Rightarrow> (nat \<times> u32 list) list \<Rightarrow> Packet list" where
  "built_packets off [] = []"
| "built_packets off (c # cs) = built_packet off c # built_packets (off + 4 + 4 * length (snd c)) cs"

abbreviation commands :: "(nat \<times> u32 list) list \<Rightarrow> byte list" where
  "commands cs \<equiv> concat (map command_bytes cs)"

lemma length_command_bytes [simp]: "length (command_bytes c) = 4 + 4 * length (snd c)"
  by (simp add: command_bytes_def)

lemma scan_built:
  "\<forall>c \<in> set cs. command_ok c \<Longrightarrow> off + length (commands cs) \<le> U32_LIMIT \<Longrightarrow>
   scan off (commands cs) = (built_packets off cs, False, False)"
proof (induction cs arbitrary: off)
  case Nil
  then show ?case by (simp add: scan.simps)
next
  case (Cons c cs)
  then have "scan (off + length (command_bytes c)) (commands cs) = (built_packets (off + length (command_bytes c)) cs, False, False)"
    using Cons.IH [of "off + length (command_bytes c)"] by simp
  then show ?case using Cons.prems by (simp add: scan_command built_packet_def add.assoc)
qed

lemma walk_built:
  assumes "\<forall>c \<in> set cs. command_ok c" "length (commands cs) \<le> U32_LIMIT"
  shows "packet_walk (commands cs) =
    \<lparr>pw_packets = built_packets 0 cs, pw_desynchronised = False, pw_overran = False, pw_trailing_bytes = 0\<rparr>"
proof -
  have "4 dvd length (commands cs)" by (induction cs) (auto intro: dvd_add)
  then show ?thesis using packet_walk_scan [OF scan_built [of cs 0]] assms by simp
qed

lemma built_body:
  "body_dwords (pre @ command_bytes c @ post) (built_packet (length pre) c) = snd c"
  by (simp add: body_dwords_def body_offset_def body_length_def built_packet_def command_bytes_def dword_bytes_Cons chunks_dword_bytes)

lemma built_bodies:
  "map (\<lambda>p. (pk_kind p, body_dwords (pre @ commands cs) p)) (built_packets (length pre) cs) = map (\<lambda>(op, body). (Command op, body)) cs"
proof (induction cs arbitrary: pre)
  case Nil
  then show ?case by simp
next
  case (Cons c cs)
  show ?case using Cons.IH [of "pre @ command_bytes c"] by (simp add: built_body case_prod_unfold add.assoc built_packet_def [of _ c, THEN arg_cong [where f = pk_kind]])
qed



text \<open>The field that counts a command's body is fourteen bits, and all ones means no body. The builder of
  register ranges puts any number of values in one command: a range of \<open>0x3FFF\<close> values has a header that
  says it has none, and the walk takes its first value for a header.\<close>

theorem long_range_loses_body:
  assumes "length vals = 0x3FFF"
  shows "pk_length (hd (pw_packets (packet_walk (dword_bytes (set_sh_register_range offset vals))))) = 4"
proof -
  let ?bs = "dword_bytes (set_sh_register_range offset vals)"
  have r: "set_sh_register_range offset vals = 0xFFFF7600 # ucast offset # vals"
    using assms by (auto simp: set_sh_register_range_def U32_LIMIT_def command_header_def opcode_defs)
  have "dword ?bs = 0xFFFF7600" unfolding r dword_bytes_Cons by (rule dword_to_le)
  moreover have "packet_shape 0xFFFF7600 = (Command 0x76, 4)"
    by (simp add: packet_shape_def packet_body_dwords_def)
  moreover obtain ps d x where "scan 4 (drop 4 ?bs) = (ps, d, x)" by (metis prod_cases3)
  ultimately have "scan 0 ?bs = (\<lparr>pk_offset = 0, pk_length = 4, pk_header = 0xFFFF7600, pk_kind = Command 0x76\<rparr> # ps, d, x)"
    unfolding r by (simp add: scan.simps [of 0 "dword_bytes (0xFFFF7600 # ucast offset # vals)"] U32_LIMIT_def)
  then show ?thesis by (simp add: packet_walk_scan)
qed

text \<open>At a range of zeros.\<close>

theorem long_range_loses_body_witness:
  "pk_length (hd (pw_packets (packet_walk (dword_bytes (set_sh_register_range 0x8c (replicate 0x3FFF 0)))))) = 4"
  by (rule long_range_loses_body) simp

end
