(* ===== verification/Stream_Shape.thy ===== *)
theory Stream_Shape
  imports Packet_Stream
begin

text \<open>
  What a command stream's packets say before any of them is carried out
  (\<^verbatim>\<open>orbistoun-gpu/src/cp.rs\<close>, \<^verbatim>\<open>cp/whole.rs\<close>, \<^verbatim>\<open>agc_driver.rs\<close>): which commands touch no memory, the
  segments its draws are carried out in, the stream one segment sees, and the stream with the buffers it
  calls put in place. Offsets into a stream are 32 bits in the source; streams are taken to be short
  enough for them, and the packets' sums of an offset and a length do not wrap then.

  The lemmas show that every draw is in one segment, that no segment spans memory work, that a
  segment's stream has the packets of the original with the earlier draws made into no-ops, and that
  expanding calls keeps a stream that can be walked one that can be walked.
\<close>

section \<open>What a command does to memory\<close>

definition CLEAR_STATE :: nat where "CLEAR_STATE = 0x12"
definition DRAW_INDEX_OFFSET_2 :: nat where "DRAW_INDEX_OFFSET_2 = 0x35"

definition is_memory_inert :: "nat \<Rightarrow> nat \<Rightarrow> bool" where
  "is_memory_inert opcode n \<longleftrightarrow>
     opcode \<in> {NOP, SET_BASE, INDEX_BUFFER_SIZE, INDEX_BASE, NUM_INSTANCES, ACQUIRE_MEM, SET_CONTEXT_REG, SET_SH_REG,
       SET_UCONFIG_REG, SET_UCONFIG_REG_INDEX, SET_CONTEXT_REG_INDIRECT, SET_SH_REG_INDIRECT,
       SET_UCONFIG_REG_INDIRECT, STALL_COMMAND_BUFFER_PARSER, CLEAR_STATE} \<or>
     (opcode = EVENT_WRITE \<and> n = 1)"

definition is_draw :: "nat \<Rightarrow> bool" where
  "is_draw opcode \<longleftrightarrow> opcode \<in> {DRAW_INDEX_2, DRAW_INDEX_AUTO, DRAW_INDEX_OFFSET_2}"

definition is_indirect_draw :: "nat \<Rightarrow> bool" where
  "is_indirect_draw opcode \<longleftrightarrow>
     opcode \<in> {DRAW_INDIRECT, DRAW_INDEX_INDIRECT, DRAW_INDIRECT_MULTI, DRAW_INDEX_INDIRECT_MULTI}"

section \<open>Draw segments\<close>

record DrawSegment =
  ds_stream :: "byte list"
  ds_first :: nat
  ds_end :: nat
  ds_whole :: bool

definition draw_packet :: "Packet \<Rightarrow> bool" where
  "draw_packet p \<longleftrightarrow> (case pk_kind p of Command opcode \<Rightarrow> is_draw opcode | _ \<Rightarrow> False)"

definition memory_work :: "Packet \<Rightarrow> bool" where
  "memory_work p \<longleftrightarrow>
     (case pk_kind p of Command opcode \<Rightarrow> \<not> is_draw opcode \<and> \<not> is_memory_inert opcode (body_length p div 4) | _ \<Rightarrow> False)"

definition segment_step :: "byte list \<Rightarrow> Packet \<Rightarrow> DrawSegment list \<times> bool \<Rightarrow> DrawSegment list \<times> bool" where
  "segment_step stream p st =
     (let (segments, opened) = st in
      if draw_packet p
      then let stop = body_offset p + body_length p
           in (if opened \<and> segments \<noteq> [] then butlast segments @ [(last segments)\<lparr>ds_end := stop\<rparr>]
               else segments @ [\<lparr>ds_stream = stream, ds_first = pk_offset p, ds_end = stop, ds_whole = False\<rparr>],
               True)
      else if memory_work p then (segments, False) else (segments, opened))"

definition dispatches :: "Packet list \<Rightarrow> bool" where
  "dispatches ps \<longleftrightarrow>
     (\<exists>p \<in> set ps. case pk_kind p of Command opcode \<Rightarrow> opcode = DISPATCH_DIRECT \<or> is_indirect_draw opcode | _ \<Rightarrow> False)"

definition draw_segments :: "byte list \<Rightarrow> Packet list \<Rightarrow> DrawSegment list" where
  "draw_segments stream ps =
     (case fst (fold (segment_step stream) ps ([], False)) of
        [only] \<Rightarrow> [only\<lparr>ds_whole := \<not> dispatches ps\<rparr>]
      | segments \<Rightarrow> segments)"

definition carried_out_whole :: "byte list \<Rightarrow> bool" where
  "carried_out_whole stream =
     (let walked = packet_walk stream
      in is_trustworthy walked \<and>
         (case draw_segments stream (pw_packets walked) of [only] \<Rightarrow> ds_whole only | _ \<Rightarrow> False))"

section \<open>The stream one segment sees\<close>

definition put_header :: "nat \<Rightarrow> u32 \<Rightarrow> byte list \<Rightarrow> byte list" where
  "put_header at h bytes = take at bytes @ to_le 4 (unat h) @ drop (at + 4) bytes"

definition passed_over :: "nat \<Rightarrow> Packet \<Rightarrow> bool" where
  "passed_over first p \<longleftrightarrow> pk_offset p < first \<and>
     (case pk_kind p of Command opcode \<Rightarrow> is_draw opcode \<or> opcode = DISPATCH_DIRECT | _ \<Rightarrow> False)"

text \<open>Making a header asserts that the command has a body.\<close>

fun pass_over_packets :: "nat \<Rightarrow> Packet list \<Rightarrow> byte list \<Rightarrow> (unit, byte list) outcome" where
  "pass_over_packets first [] bytes = Ok bytes"
| "pass_over_packets first (p # ps) bytes =
     (if passed_over first p
      then if body_length p div 4 = 0 then Panic
           else pass_over_packets first ps (put_header (pk_offset p) (command_header NOP (body_length p div 4)) bytes)
      else pass_over_packets first ps bytes)"

definition segment_stream :: "DrawSegment \<Rightarrow> (unit, byte list) outcome" where
  "segment_stream segment =
     (let bytes = take (min (ds_end segment) (length (ds_stream segment))) (ds_stream segment)
      in pass_over_packets (ds_first segment) (pw_packets (packet_walk bytes)) bytes)"

section \<open>Buffers that call buffers\<close>

definition INDIRECT_BUFFER :: nat where "INDIRECT_BUFFER = 0x3F"
definition IB_SIZE_MASK :: u32 where "IB_SIZE_MASK = 0xFFFFF"
definition IB_CHAIN :: u32 where "IB_CHAIN = push_bit 20 1"
definition REWIND :: nat where "REWIND = 0x59"
definition REWIND_RELEASED :: u32 where "REWIND_RELEASED = push_bit 31 1"
definition MAX_INDIRECT_DEPTH :: nat where "MAX_INDIRECT_DEPTH = 8"

definition address :: "u32 \<Rightarrow> u32 \<Rightarrow> u64" where
  "address low high = push_bit 32 (unat high) OR unat low"

definition words_of :: "byte list \<Rightarrow> u32 list" where
  "words_of bytes = map dword (chunks_exact 4 bytes)"

definition through_first_chain :: "byte list \<Rightarrow> byte list option" where
  "through_first_chain window =
     (case find (\<lambda>p. pk_kind p = Command INDIRECT_BUFFER \<and> pk_length p = 16 \<and>
              (case get_range window (pk_offset p + 12) (pk_offset p + 16) of
                 Some w \<Rightarrow> dword w AND IB_CHAIN \<noteq> 0 | None \<Rightarrow> False))
            (pw_packets (packet_walk window)) of
        None \<Rightarrow> None
      | Some chain \<Rightarrow> get_range window 0 (pk_offset chain + pk_length chain))"

text \<open>
  \<open>or_empty\<close> is \<open>unwrap_or_default\<close> on a slice. The loop over the packets keeps what is written so far
  and how far the stream is copied; \<open>deeper\<close> expands a buffer one level in. The guest address a stream
  holds at is added without a check, which the memory it was read from bounds.
\<close>

definition or_empty :: "'a list option \<Rightarrow> 'a list" where
  "or_empty m = (case m of Some xs \<Rightarrow> xs | None \<Rightarrow> [])"

fun expand_packets ::
  "(byte list \<Rightarrow> u64 \<Rightarrow> byte list \<times> u64 option) \<Rightarrow> (u64 \<Rightarrow> nat \<Rightarrow> byte list option) \<Rightarrow> byte list \<Rightarrow> u64 option \<Rightarrow>
   Packet list \<Rightarrow> byte list \<Rightarrow> nat \<Rightarrow> byte list \<times> u64 option" where
  "expand_packets deeper read stream base [] expanded copied = (expanded @ or_empty (get_from stream copied), None)"
| "expand_packets deeper read stream base (p # ps) expanded copied =
     (let at = pk_offset p; body = body_offset p; past = at + pk_length p;
          upto = expanded @ or_empty (get_range stream copied at) in
      if pk_kind p = Command REWIND
      then let released = (case get_range stream body (body + 4) of
                 Some w \<Rightarrow> dword w AND REWIND_RELEASED \<noteq> 0 | None \<Rightarrow> False)
           in if released then expand_packets deeper read stream base ps upto past
              else (upto, map_option (\<lambda>b. b + at) base)
      else if pk_kind p \<noteq> Command INDIRECT_BUFFER
      then expand_packets deeper read stream base ps expanded copied
      else case map_option words_of (get_range stream body (body + body_length p)) of
             Some [low, high, control] \<Rightarrow>
               (let len = unat (control AND IB_SIZE_MASK) * 4 in
                if len = 0 then expand_packets deeper read stream base ps upto past
                else case read (address low high) len of
                       None \<Rightarrow> expand_packets deeper read stream base ps expanded copied
                     | Some target \<Rightarrow>
                         let (inner, hold) = deeper target (address low high)
                         in if hold \<noteq> None \<or> control AND IB_CHAIN \<noteq> 0 then (upto @ inner, hold)
                            else expand_packets deeper read stream base ps (upto @ inner) past)
           | _ \<Rightarrow> expand_packets deeper read stream base ps expanded copied)"

text \<open>The levels that are left, from \<open>MAX_INDIRECT_DEPTH\<close> down to none.\<close>

fun expand_levels :: "nat \<Rightarrow> (u64 \<Rightarrow> nat \<Rightarrow> byte list option) \<Rightarrow> byte list \<Rightarrow> u64 option \<Rightarrow> byte list \<times> u64 option" where
  "expand_levels 0 read stream base = (stream, None)"
| "expand_levels (Suc levels) read stream base =
     (let walked = packet_walk stream
      in if \<not> is_trustworthy walked then (stream, None)
         else expand_packets (\<lambda>target at. expand_levels levels read target (Some at)) read stream base (pw_packets walked) [] 0)"

definition expand_indirect_buffers :: "byte list \<Rightarrow> (u64 \<Rightarrow> nat \<Rightarrow> byte list option) \<Rightarrow> byte list" where
  "expand_indirect_buffers stream read = fst (expand_levels MAX_INDIRECT_DEPTH read stream None)"

definition expand_holding :: "byte list \<Rightarrow> u64 \<Rightarrow> (u64 \<Rightarrow> nat \<Rightarrow> byte list option) \<Rightarrow> byte list \<times> u64 option" where
  "expand_holding stream base read = expand_levels MAX_INDIRECT_DEPTH read stream (Some base)"

section \<open>Walked packets are in order\<close>

definition before :: "Packet \<Rightarrow> Packet \<Rightarrow> bool" where
  "before p q \<longleftrightarrow> pk_offset p + pk_length p \<le> pk_offset q"

definition packet_stop :: "Packet \<Rightarrow> nat" where
  "packet_stop p = pk_offset p + pk_length p"

lemma lies_offsets: "lies bytes off ps \<Longrightarrow> length bytes \<le> U32_LIMIT \<Longrightarrow> p \<in> set ps \<Longrightarrow> off \<le> pk_offset p"
  by (induction ps arbitrary: off) fastforce+

lemma lies_ordered: "lies bytes off ps \<Longrightarrow> length bytes \<le> U32_LIMIT \<Longrightarrow> sorted_wrt before ps"
proof (induction ps arbitrary: off)
  case Nil
  then show ?case by simp
next
  case (Cons p ps)
  then have "pk_offset p = off" "lies bytes (off + pk_length p) ps" by auto
  then show ?case using Cons lies_offsets [of bytes "off + pk_length p" ps] by (auto simp: before_def)
qed

lemma ordered_pair: "sorted_wrt before ps \<Longrightarrow> p \<in> set ps \<Longrightarrow> q \<in> set ps \<Longrightarrow> p \<noteq> q \<Longrightarrow> before p q \<or> before q p"
  by (induction ps) auto

lemma lies_long: "lies bytes off ps \<Longrightarrow> p \<in> set ps \<Longrightarrow> 4 \<le> pk_length p"
  by (induction ps arbitrary: off) (auto dest: packet_shape_length)

lemma walk_lies: "lies bytes 0 (pw_packets (packet_walk bytes))"
proof -
  obtain ps d r where s: "scan 0 bytes = (ps, d, r)" by (metis prod_cases3)
  then show ?thesis using scan_lies [of 0 bytes ps d r] by (simp add: packet_walk_scan [OF s])
qed

lemmas walk_ordered = lies_ordered [OF walk_lies]
lemmas walk_long = lies_long [OF walk_lies]

section \<open>Every draw is in one segment, and no segment spans memory work\<close>

definition within :: "DrawSegment \<Rightarrow> Packet \<Rightarrow> bool" where
  "within s p \<longleftrightarrow> ds_first s \<le> pk_offset p \<and> pk_offset p < ds_end s"

text \<open>Between one segment and the next there is memory work.\<close>

definition parted :: "Packet set \<Rightarrow> DrawSegment \<Rightarrow> DrawSegment \<Rightarrow> bool" where
  "parted P s t \<longleftrightarrow> (\<exists>q \<in> P. memory_work q \<and> ds_end s \<le> pk_offset q \<and> pk_offset q < ds_first t)"

definition segmented :: "Packet set \<Rightarrow> DrawSegment list \<Rightarrow> bool" where
  "segmented P segs \<longleftrightarrow>
     (\<forall>p \<in> P. draw_packet p \<longrightarrow> (\<exists>s \<in> set segs. within s p)) \<and>
     (\<forall>s \<in> set segs. ds_first s < ds_end s \<and> (\<forall>p \<in> P. within s p \<longrightarrow> \<not> memory_work p)) \<and>
     sorted_wrt (parted P) segs"

text \<open>What the loop keeps: the segments of the packets so far end by where those packets end, and the
  last one is open exactly while no memory work follows it.\<close>

definition segments_inv :: "Packet set \<Rightarrow> nat \<Rightarrow> DrawSegment list \<times> bool \<Rightarrow> bool" where
  "segments_inv P stop st \<longleftrightarrow> segmented P (fst st) \<and> (\<forall>s \<in> set (fst st). ds_end s \<le> stop) \<and>
     (fst st \<noteq> [] \<longrightarrow>
       (if snd st then \<forall>p \<in> P. ds_first (last (fst st)) \<le> pk_offset p \<longrightarrow> \<not> memory_work p
        else \<exists>p \<in> P. memory_work p \<and> ds_end (last (fst st)) \<le> pk_offset p)) \<and>
     (snd st \<longrightarrow> fst st \<noteq> [])"

lemma parted_mono: "parted P s t \<Longrightarrow> P \<subseteq> Q \<Longrightarrow> parted Q s t"
  by (auto simp: parted_def)

lemma draw_not_work: "draw_packet p \<Longrightarrow> \<not> memory_work p"
  by (auto simp: draw_packet_def memory_work_def split: PacketKind.splits)

lemma draw_stop: "4 \<le> pk_length p \<Longrightarrow> body_offset p + body_length p = packet_stop p"
  by (simp add: body_offset_def body_length_def packet_stop_def)

lemma segmented_Cons_other:
  assumes "segmented P segs" "\<forall>s \<in> set segs. ds_end s \<le> pk_offset p" "\<not> draw_packet p"
  shows "segmented (insert p P) segs"
proof -
  have "\<not> within s p" if "s \<in> set segs" for s using assms(2) that by (auto simp: within_def)
  moreover have "sorted_wrt (parted (insert p P)) segs"
    using assms(1) by (auto simp: segmented_def intro: sorted_wrt_mono_rel [rotated] parted_mono)
  ultimately show ?thesis using assms(1,3) by (auto simp: segmented_def)
qed

lemma segments_inv_step:
  assumes inv: "segments_inv P stop st" and p: "stop \<le> pk_offset p" "4 \<le> pk_length p"
    and P: "\<forall>q \<in> P. pk_offset q < stop"
  shows "segments_inv (insert p P) (packet_stop p) (segment_step stream p st)"
proof -
  obtain segs opened where st: "st = (segs, opened)" by fastforce
  have seg: "segmented P segs" and ends: "\<forall>s \<in> set segs. ds_end s \<le> stop" using inv by (auto simp: segments_inv_def st)
  have past: "\<forall>s \<in> set segs. ds_end s \<le> pk_offset p" using ends p(1) by auto
  have stop: "stop \<le> packet_stop p" "pk_offset p < packet_stop p" using p by (auto simp: packet_stop_def)
  show ?thesis
  proof (cases "draw_packet p")
    case False
    note seg' = segmented_Cons_other [OF seg past False]
    show ?thesis
    proof (cases "memory_work p")
      case True
      then show ?thesis using False seg' inv past stop ends
        by (auto simp: segments_inv_def segment_step_def st intro: le_trans)
    next
      case False
      then show ?thesis using \<open>\<not> draw_packet p\<close> seg' inv ends stop
        by (auto simp: segments_inv_def segment_step_def st intro: le_trans)
    qed
  next
    case draw: True
    note nw = draw_not_work [OF draw]
    show ?thesis
    proof (cases "opened \<and> segs \<noteq> []")
      case True
      then obtain ss s where ss: "segs = ss @ [s]" by (metis append_butlast_last_id)
      let ?t = "s\<lparr>ds_end := packet_stop p\<rparr>"
      have step: "segment_step stream p st = (ss @ [?t], True)"
        using True draw by (simp add: segment_step_def st ss draw_stop [OF p(2)])
      have quiet: "\<forall>q \<in> P. ds_first s \<le> pk_offset q \<longrightarrow> \<not> memory_work q"
        using inv True by (simp add: segments_inv_def st ss)
      have "ds_first s < ds_end s" "ds_end s \<le> stop" using seg ends by (auto simp: segmented_def ss)
      then have w: "within ?t p" "\<And>q. within s q \<Longrightarrow> within ?t q" using p stop by (auto simp: within_def)
      have sorted: "sorted_wrt (parted (insert p P)) (ss @ [?t])"
        using seg by (auto simp: segmented_def ss sorted_wrt_append parted_def intro: sorted_wrt_mono_rel [rotated])
      have "\<exists>u \<in> set (ss @ [?t]). within u q" if "q \<in> insert p P" "draw_packet q" for q
        using seg w that by (cases "q = p") (auto simp: segmented_def ss)
      moreover have "\<not> memory_work q" if "u \<in> set (ss @ [?t])" "q \<in> insert p P" "within u q" for u q
        using seg quiet nw past that by (cases "u = ?t") (auto simp: segmented_def ss within_def)
      ultimately have "segmented (insert p P) (ss @ [?t])"
        using seg sorted \<open>ds_first s < ds_end s\<close> \<open>ds_end s \<le> stop\<close> stop(1) unfolding segmented_def ss by auto
      then show ?thesis using step quiet nw ends stop by (auto simp: segments_inv_def ss)
    next
      case False
      let ?t = "\<lparr>ds_stream = stream, ds_first = pk_offset p, ds_end = packet_stop p, ds_whole = False\<rparr>"
      have step: "segment_step stream p st = (segs @ [?t], True)"
        using False draw by (auto simp: segment_step_def st draw_stop [OF p(2)] Let_def)
      have part: "parted (insert p P) s ?t" if "s \<in> set segs" for s
      proof -
        have ne: "segs \<noteq> []" using that by auto
        then obtain q where q: "q \<in> P" "memory_work q" "ds_end (last segs) \<le> pk_offset q"
          using inv False by (auto simp: segments_inv_def st)
        have "s = last segs \<or> parted P s (last segs)"
          using that ne seg by (cases segs rule: rev_cases) (auto simp: segmented_def sorted_wrt_append)
        then show ?thesis using q P p(1) by (fastforce simp: parted_def)
      qed
      have "sorted_wrt (parted (insert p P)) (segs @ [?t])"
        using seg part by (auto simp: segmented_def sorted_wrt_append intro: sorted_wrt_mono_rel [rotated] parted_mono)
      moreover have "within ?t p" "\<And>q. q \<in> P \<Longrightarrow> \<not> within ?t q" using stop p(1) P by (auto simp: within_def)
      ultimately have "segmented (insert p P) (segs @ [?t])"
        using seg past nw stop by (auto simp: segmented_def within_def)
      then show ?thesis using step ends stop nw P p(1) by (auto simp: segments_inv_def intro: le_trans)
    qed
  qed
qed

lemma segments_inv_fold:
  assumes "segments_inv P stop st" "sorted_wrt before ps" "\<forall>p \<in> set ps. stop \<le> pk_offset p \<and> 4 \<le> pk_length p"
    "\<forall>q \<in> P. pk_offset q < stop"
  shows "segmented (P \<union> set ps) (fst (fold (segment_step stream) ps st))"
  using assms
proof (induction ps arbitrary: P stop st)
  case Nil
  then show ?case by (simp add: segments_inv_def)
next
  case (Cons p ps)
  have "segments_inv (insert p P) (packet_stop p) (segment_step stream p st)"
    using Cons.prems by (intro segments_inv_step) auto
  moreover have "\<forall>q \<in> set ps. packet_stop p \<le> pk_offset q \<and> 4 \<le> pk_length q"
    using Cons.prems(2,3) by (auto simp: before_def packet_stop_def)
  moreover have "\<forall>q \<in> insert p P. pk_offset q < packet_stop p"
    using Cons.prems(3,4) by (fastforce simp: packet_stop_def)
  ultimately show ?case using Cons.IH [of "insert p P" "packet_stop p"] Cons.prems(2) by simp
qed

lemma segmented_whole: "segmented P [s\<lparr>ds_whole := b\<rparr>] \<longleftrightarrow> segmented P [s]"
  by (simp add: segmented_def within_def)

lemma draw_segments_segmented:
  assumes "length stream \<le> U32_LIMIT"
  shows "segmented (set (pw_packets (packet_walk stream))) (draw_segments stream (pw_packets (packet_walk stream)))"
proof -
  have "segments_inv {} 0 ([], False)" by (simp add: segments_inv_def segmented_def)
  then have "segmented (set (pw_packets (packet_walk stream))) (fst (fold (segment_step stream) (pw_packets (packet_walk stream)) ([], False)))"
    using segments_inv_fold [of "{}" 0 "([], False)" "pw_packets (packet_walk stream)" stream] walk_ordered [OF assms] walk_long by auto
  then show ?thesis by (auto simp: draw_segments_def segmented_whole split: list.splits)
qed

lemma segmented_unique:
  assumes "segmented P segs" "p \<in> P" "s \<in> set segs" "t \<in> set segs" "within s p" "within t p"
  shows "s = t"
proof (rule ccontr)
  assume ne: "s \<noteq> t"
  obtain i j where ij: "i < length segs" "s = segs ! i" "j < length segs" "t = segs ! j" "i \<noteq> j"
    using assms(3,4) ne by (metis in_set_conv_nth)
  then have "parted P s t \<or> parted P t s" using assms(1) by (auto simp: segmented_def sorted_wrt_iff_nth_less neq_iff)
  then show False using assms(5,6) by (auto simp: parted_def within_def)
qed

text \<open>C23. Every draw of a stream is in one of its segments and in no other, no segment spans a command that
  works on memory, and between a segment and the next there is one: carrying out a segment's draws
  together, at its first, keeps their order with the memory work.\<close>

theorem draws_split_at_memory_work:
  assumes "length stream \<le> U32_LIMIT"
  shows "let ps = pw_packets (packet_walk stream); segs = draw_segments stream ps
    in (\<forall>p \<in> set ps. draw_packet p \<longrightarrow> (\<exists>!s. s \<in> set segs \<and> within s p)) \<and>
       (\<forall>p \<in> set ps. \<forall>s \<in> set segs. within s p \<longrightarrow> \<not> memory_work p) \<and> sorted_wrt (parted (set ps)) segs"
proof -
  let ?ps = "pw_packets (packet_walk stream)" let ?segs = "draw_segments stream ?ps"
  note seg = draw_segments_segmented [OF assms]
  have "\<exists>!s. s \<in> set ?segs \<and> within s p" if p: "p \<in> set ?ps" "draw_packet p" for p
  proof -
    obtain s where "s \<in> set ?segs" "within s p" using seg p by (auto simp: segmented_def)
    then show ?thesis using segmented_unique [OF seg p(1)] by blast
  qed
  then show ?thesis using seg by (auto simp: Let_def segmented_def)
qed

text \<open>At two draws with a release of memory between them.\<close>

definition two_draws :: "(nat \<times> u32 list) list" where
  "two_draws = [(DRAW_INDEX_AUTO, [3, 2]), (RELEASE_MEM, [0x14, 0x20000000, 0x1000, 0, 1, 0, 0]), (DRAW_INDEX_AUTO, [3, 2])]"

lemma two_draws_walk: "pw_packets (packet_walk (commands two_draws)) = built_packets 0 two_draws" "length (commands two_draws) = 56"
proof -
  show n: "length (commands two_draws) = 56" by (simp add: two_draws_def)
  show "pw_packets (packet_walk (commands two_draws)) = built_packets 0 two_draws"
    by (subst walk_built) (simp_all add: n U32_LIMIT_def, simp add: two_draws_def command_ok_def opcode_defs)
qed

lemmas shape_simps = is_draw_def is_memory_inert_def is_indirect_draw_def draw_packet_def memory_work_def opcode_defs
  DRAW_INDEX_OFFSET_2_def CLEAR_STATE_def body_length_def body_offset_def built_packet_def segment_step_def

theorem draws_split_at_memory_work_witness:
  "let ps = pw_packets (packet_walk (commands two_draws)); segs = draw_segments (commands two_draws) ps
   in sorted_wrt (parted (set ps)) segs \<and> map ds_first segs = [0, 44]"
  using draws_split_at_memory_work [of "commands two_draws"] unfolding two_draws_walk
  by (simp add: Let_def U32_LIMIT_def, simp add: two_draws_def draw_segments_def shape_simps)

text \<open>A stream's draws can be taken for all its work on the device while an indirect dispatch stands
  beside them: what is looked for is a direct dispatch or an indirect draw.\<close>

theorem whole_despite_dispatch:
  "carried_out_whole (commands [(DISPATCH_INDIRECT, [0x1000, 0, 0x41]), (DRAW_INDEX_AUTO, [3, 2])]) \<and>
   \<not> carried_out_whole (commands [(DISPATCH_DIRECT, [1, 1, 1, 1]), (DRAW_INDEX_AUTO, [3, 2])])"
proof -
  have "packet_walk (commands [(DISPATCH_INDIRECT, [0x1000, 0, 0x41]), (DRAW_INDEX_AUTO, [3, 2])]) =
      \<lparr>pw_packets = built_packets 0 [(DISPATCH_INDIRECT, [0x1000, 0, 0x41]), (DRAW_INDEX_AUTO, [3, 2])],
       pw_desynchronised = False, pw_overran = False, pw_trailing_bytes = 0\<rparr>"
    "packet_walk (commands [(DISPATCH_DIRECT, [1, 1, 1, 1]), (DRAW_INDEX_AUTO, [3, 2])]) =
      \<lparr>pw_packets = built_packets 0 [(DISPATCH_DIRECT, [1, 1, 1, 1]), (DRAW_INDEX_AUTO, [3, 2])],
       pw_desynchronised = False, pw_overran = False, pw_trailing_bytes = 0\<rparr>"
    by (intro walk_built; simp add: command_ok_def opcode_defs U32_LIMIT_def)+
  then show ?thesis
    by (simp add: carried_out_whole_def is_trustworthy_def draw_segments_def dispatches_def shape_simps)
qed

section \<open>What a segment's stream keeps\<close>

text \<open>Packets that lie end to end and leave no room for another are the walk.\<close>

lemma lies_scan:
  "lies bytes off ps \<Longrightarrow> off \<le> length bytes \<Longrightarrow> length bytes < off + total_length ps + 4 \<Longrightarrow>
   fst (scan off (drop off bytes)) = ps"
proof (induction ps arbitrary: off)
  case Nil
  then have "length (drop off bytes) < 4" by (simp add: total_length_def)
  then show ?case by (subst scan.simps) simp
next
  case (Cons p ps)
  let ?bs = "drop off bytes"
  have p: "pk_offset p = min off U32_LIMIT" "off + 4 \<le> length bytes" "pk_header p = dword ?bs"
    "packet_shape (dword ?bs) = (pk_kind p, pk_length p)" "lies bytes (off + pk_length p) ps"
    using Cons.prems(1) by auto
  have eq: "p = \<lparr>pk_offset = min off U32_LIMIT, pk_length = pk_length p, pk_header = dword ?bs, pk_kind = pk_kind p\<rparr>"
    using p(1,3) by simp
  show ?case
  proof (cases "length bytes < off + pk_length p")
    case True
    then have "ps = []" using p(5) by (cases ps) auto
    then show ?thesis using True p(2) eq by (subst scan.simps) (auto simp: p(4) Let_def)
  next
    case False
    then have "fst (scan (off + pk_length p) (drop (pk_length p) ?bs)) = ps"
      using Cons.IH [OF p(5)] Cons.prems(3) by (simp add: total_length_def add.commute)
    then show ?thesis using False p(2) eq by (subst scan.simps) (auto simp: p(4) Let_def case_prod_unfold)
  qed
qed

lemma packet_body_small: "packet_body_dwords h \<le> 0x3FFF"
proof -
  have "drop_bit 16 h AND 0x3FFF \<le> (0x3FFF :: u32)" by (rule word_and_le1)
  then have "unat (drop_bit 16 h AND 0x3FFF) \<le> 0x3FFF" by (simp add: word_le_nat_alt)
  moreover have "unat (drop_bit 16 h AND 0x3FFF) \<noteq> 0x3FFF" if "drop_bit 16 h AND 0x3FFF \<noteq> (0x3FFF :: u32)"
    using that by (simp add: word_unat_eq_iff)
  ultimately show ?thesis by (auto simp: packet_body_dwords_def Let_def)
qed

lemma command_length: "packet_shape h = (Command opcode, n) \<Longrightarrow> n = 4 + packet_body_dwords h * 4"
  by (auto simp: packet_shape_def Let_def split: if_splits)

definition noop_header :: "Packet \<Rightarrow> u32" where
  "noop_header p = command_header NOP (body_length p div 4)"

definition noop_of :: "nat \<Rightarrow> Packet \<Rightarrow> Packet" where
  "noop_of first p = (if passed_over first p then p\<lparr>pk_header := noop_header p, pk_kind := Command NOP\<rparr> else p)"

lemma noop_shape:
  assumes "packet_shape (pk_header p) = (pk_kind p, pk_length p)" "passed_over first p" "body_length p div 4 \<noteq> 0"
  shows "packet_shape (noop_header p) = (Command NOP, pk_length p)"
proof -
  obtain opcode where "pk_kind p = Command opcode" using assms(2) by (auto simp: passed_over_def split: PacketKind.splits)
  then have n: "pk_length p = 4 + packet_body_dwords (pk_header p) * 4" using command_length assms(1) by metis
  then show ?thesis
    using command_header_shape [of NOP "body_length p div 4"] packet_body_small [of "pk_header p"] assms(3)
    by (simp add: noop_header_def body_length_def opcode_defs)
qed

text \<open>The bytes of the passed-over headers are the only ones written.\<close>

definition in_header :: "nat \<Rightarrow> Packet \<Rightarrow> nat \<Rightarrow> bool" where
  "in_header first p i \<longleftrightarrow> passed_over first p \<and> pk_offset p \<le> i \<and> i < pk_offset p + 4"

lemma put_header_props:
  assumes "at + 4 \<le> length bytes"
  shows "length (put_header at h bytes) = length bytes" "dword (drop at (put_header at h bytes)) = h"
    "i < at \<or> at + 4 \<le> i \<Longrightarrow> put_header at h bytes ! i = bytes ! i"
  using assms by (auto simp: put_header_def nth_append)

lemma dword_drop_cong:
  assumes "length a = length b" "\<And>i. off \<le> i \<Longrightarrow> i < off + 4 \<Longrightarrow> i < length a \<Longrightarrow> a ! i = b ! i"
  shows "dword (drop off a) = dword (drop off b)"
proof -
  have "take 4 (drop off a) = take 4 (drop off b)" using assms by (intro nth_equalityI) auto
  then show ?thesis by (simp add: dword_def)
qed

lemma pass_over_packets_Ok:
  assumes "pass_over_packets first ps bytes = Ok res" "sorted_wrt before ps"
    "\<forall>p \<in> set ps. pk_offset p + 4 \<le> length bytes \<and> 4 \<le> pk_length p"
  shows "length res = length bytes \<and>
    (\<forall>i. (\<forall>p \<in> set ps. \<not> in_header first p i) \<longrightarrow> res ! i = bytes ! i) \<and>
    (\<forall>p \<in> set ps. passed_over first p \<longrightarrow> body_length p div 4 \<noteq> 0 \<and> dword (drop (pk_offset p) res) = noop_header p)"
  using assms
proof (induction ps arbitrary: bytes)
  case Nil
  then show ?case by simp
next
  case (Cons p ps)
  show ?case
  proof (cases "passed_over first p")
    case False
    then show ?thesis using Cons by (auto simp: in_header_def)
  next
    case True
    let ?b = "put_header (pk_offset p) (noop_header p) bytes"
    have n: "body_length p div 4 \<noteq> 0" "pass_over_packets first ps ?b = Ok res"
      using Cons.prems(1) True by (auto simp: noop_header_def split: if_splits)
    note b = put_header_props [where at = "pk_offset p" and bytes = bytes and h = "noop_header p"]
    have len: "pk_offset p + 4 \<le> length bytes" using Cons.prems(3) by simp
    have ih: "length res = length ?b" "\<And>i. \<forall>q \<in> set ps. \<not> in_header first q i \<Longrightarrow> res ! i = ?b ! i"
      "\<forall>q \<in> set ps. passed_over first q \<longrightarrow> body_length q div 4 \<noteq> 0 \<and> dword (drop (pk_offset q) res) = noop_header q"
      using Cons.IH [OF n(2)] Cons.prems(2,3) b(1) [OF len] by auto
    have "\<not> in_header first q i" if "q \<in> set ps" "i < pk_offset p + 4" for q i
      using Cons.prems(2,3) that by (auto simp: in_header_def before_def)
    then have "dword (drop (pk_offset p) res) = dword (drop (pk_offset p) ?b)"
      using ih(1,2) by (intro dword_drop_cong) auto
    then have "dword (drop (pk_offset p) res) = noop_header p" using b(2) [OF len] by simp
    moreover have "res ! i = bytes ! i" if "\<forall>q \<in> set (p # ps). \<not> in_header first q i" for i
      using that ih(2) [of i] b(3) [OF len, of i] True by (auto simp: in_header_def not_le not_less)
    ultimately show ?thesis using ih n(1) b(1) [OF len] by auto
  qed
qed

lemma lies_room: "lies bytes off ps \<Longrightarrow> length bytes \<le> U32_LIMIT \<Longrightarrow> p \<in> set ps \<Longrightarrow>
   pk_offset p + 4 \<le> length bytes \<and> pk_header p = dword (drop (pk_offset p) bytes) \<and> packet_shape (pk_header p) = (pk_kind p, pk_length p)"
  by (induction ps arbitrary: off) auto

lemma lies_map:
  assumes "lies bytes off ps" "length res = length bytes"
    "\<And>p. p \<in> set ps \<Longrightarrow> pk_offset (f p) = pk_offset p \<and> pk_length (f p) = pk_length p \<and>
       packet_shape (pk_header (f p)) = (pk_kind (f p), pk_length p) \<and> dword (drop (pk_offset p) res) = pk_header (f p)"
    "length bytes \<le> U32_LIMIT"
  shows "lies res off (map f ps)"
  using assms
proof (induction ps arbitrary: off)
  case Nil
  then show ?case by simp
next
  case (Cons p ps)
  then have "pk_offset p = off" by simp
  then show ?case using Cons by auto
qed

text \<open>The stream one segment sees walks as the stream it is cut from: its packets have the same places and
  lengths, each draw and direct dispatch before the segment is a no-op of its own length, every other
  packet is as it was, and no byte outside the headers of those changes.\<close>

theorem segment_stream_keeps_walk:
  assumes "segment_stream segment = Ok res" "length (ds_stream segment) \<le> U32_LIMIT"
  shows "let bytes = take (ds_end segment) (ds_stream segment); ps = pw_packets (packet_walk bytes)
    in pw_packets (packet_walk res) = map (noop_of (ds_first segment)) ps \<and> length res = length bytes \<and>
       (\<forall>i. (\<forall>p \<in> set ps. \<not> in_header (ds_first segment) p i) \<longrightarrow> res ! i = bytes ! i)"
proof -
  let ?bytes = "take (ds_end segment) (ds_stream segment)" let ?first = "ds_first segment"
  let ?ps = "pw_packets (packet_walk ?bytes)"
  have lim: "length ?bytes \<le> U32_LIMIT" using assms(2) by simp
  have "take (min (ds_end segment) (length (ds_stream segment))) (ds_stream segment) = ?bytes" by (simp add: min_def)
  then have ok: "pass_over_packets ?first ?ps ?bytes = Ok res" using assms(1) by (simp add: segment_stream_def Let_def)
  note room = lies_room [OF walk_lies lim]
  have keep: "length res = length ?bytes" "\<And>i. \<forall>p \<in> set ?ps. \<not> in_header ?first p i \<Longrightarrow> res ! i = ?bytes ! i"
    "\<And>p. p \<in> set ?ps \<Longrightarrow> passed_over ?first p \<Longrightarrow> body_length p div 4 \<noteq> 0 \<and> dword (drop (pk_offset p) res) = noop_header p"
    using pass_over_packets_Ok [OF ok walk_ordered [OF lim]] room walk_long by blast+
  have apart: "\<not> in_header ?first q i" if "p \<in> set ?ps" "q \<in> set ?ps" "\<not> passed_over ?first p" "pk_offset p \<le> i" "i < pk_offset p + 4" for p q i
  proof
    assume q: "in_header ?first q i"
    then have "p \<noteq> q" using that(3) by (auto simp: in_header_def)
    then have "before p q \<or> before q p" by (rule ordered_pair [OF walk_ordered [OF lim] that(1,2)])
    then show False using q that walk_long [OF that(1)] walk_long [OF that(2)] by (auto simp: before_def in_header_def)
  qed
  have "lies res 0 (map (noop_of ?first) ?ps)"
  proof (rule lies_map [OF walk_lies keep(1) _ lim])
    fix p assume p: "p \<in> set ?ps"
    show "pk_offset (noop_of ?first p) = pk_offset p \<and> pk_length (noop_of ?first p) = pk_length p \<and>
       packet_shape (pk_header (noop_of ?first p)) = (pk_kind (noop_of ?first p), pk_length p) \<and>
       dword (drop (pk_offset p) res) = pk_header (noop_of ?first p)"
    proof (cases "passed_over ?first p")
      case True
      have "packet_shape (noop_header p) = (Command NOP, pk_length p)"
        using room [OF p] keep(3) [OF p True] True by (intro noop_shape) auto
      then show ?thesis using True keep(3) [OF p True] by (simp add: noop_of_def)
    next
      case False
      then have "dword (drop (pk_offset p) res) = dword (drop (pk_offset p) ?bytes)"
        using keep(2) apart [OF p _ False] by (intro dword_drop_cong [OF keep(1)]) blast
      then show ?thesis using False room [OF p] by (auto simp: noop_of_def)
    qed
  qed
  moreover have "total_length (map (noop_of ?first) ?ps) = total_length ?ps"
    by (simp add: total_length_def noop_of_def comp_def if_distrib cong: if_cong)
  ultimately have "fst (scan 0 res) = map (noop_of ?first) ?ps"
    using lies_scan [of res 0] packet_walk_total [of ?bytes] keep(1) by simp
  then have "pw_packets (packet_walk res) = map (noop_of ?first) ?ps"
    using packet_walk_scan [of res] by (cases "scan 0 res") auto
  then show ?thesis using keep(1,2) by (simp add: Let_def)
qed

text \<open>At the second of two draws: the first is a no-op.\<close>

theorem segment_stream_keeps_walk_witness:
  "\<exists>res. segment_stream \<lparr>ds_stream = commands two_draws, ds_first = 44, ds_end = 56, ds_whole = False\<rparr> = Ok res \<and>
     map pk_kind (pw_packets (packet_walk res)) = [Command NOP, Command RELEASE_MEM, Command DRAW_INDEX_AUTO]"
proof -
  let ?s = "\<lparr>ds_stream = commands two_draws, ds_first = 44, ds_end = 56, ds_whole = False\<rparr>"
  have all: "take 56 (commands two_draws) = commands two_draws" by (simp add: two_draws_walk)
  have ok: "segment_stream ?s = Ok (put_header 0 (command_header NOP 2) (commands two_draws))"
    unfolding segment_stream_def DrawSegment.simps two_draws_walk(2) min.idem all two_draws_walk(1) Let_def
    by (simp add: two_draws_def passed_over_def shape_simps)
  have "pw_packets (packet_walk (put_header 0 (command_header NOP 2) (commands two_draws))) = map (noop_of 44) (built_packets 0 two_draws)"
    using segment_stream_keeps_walk [OF ok] unfolding DrawSegment.simps all two_draws_walk Let_def by (simp add: U32_LIMIT_def)
  then show ?thesis
    by (intro exI [of _ "put_header 0 (command_header NOP 2) (commands two_draws)"] conjI ok)
      (simp add: two_draws_def noop_of_def passed_over_def shape_simps)
qed

section \<open>Expanding calls\<close>

abbreviation trusted :: "byte list \<Rightarrow> bool" where
  "trusted s \<equiv> is_trustworthy (packet_walk s)"

text \<open>A walk to be trusted divides at any of its packets.\<close>

lemma scan_divide:
  assumes "scan off s = (as @ bs, False, False)" "4 dvd length s"
  shows "total_length as \<le> length s \<and> scan off (take (total_length as) s) = (as, False, False) \<and> 4 dvd total_length as \<and>
    scan (off + total_length as) (drop (total_length as) s) = (bs, False, False)"
  using assms
proof (induction as arbitrary: off s)
  case Nil
  then show ?case by (simp add: total_length_def scan.simps [of off "[]"])
next
  case (Cons a as)
  show ?case
  proof (cases off s rule: scan_cases)
    case short
    then show ?thesis using Cons.prems by simp
  next
    case (over kind len)
    then show ?thesis using Cons.prems by simp
  next
    case (step kind len ps d r)
    have a: "a = \<lparr>pk_offset = min off U32_LIMIT, pk_length = len, pk_header = dword s, pk_kind = kind\<rparr>" "kind \<noteq> Reserved"
      "scan (off + len) (drop len s) = (as @ bs, False, False)"
      using step Cons.prems(1) by auto
    have four: "4 dvd len" using packet_shape_dvd [OF step(2)] .
    then have "4 dvd length (drop len s)" using Cons.prems(2) by (simp add: dvd_diff_nat)
    note ih = Cons.IH [OF a(3) this]
    have tot: "total_length (a # as) = len + total_length as" by (simp add: a(1) total_length_def)
    have "take (total_length as) (drop len s) = drop len (take (len + total_length as) s)" by (simp add: take_drop add.commute)
    then have "scan (off + len) (drop len (take (len + total_length as) s)) = (as, False, False)" using ih by simp
    moreover have "dword (take (len + total_length as) s) = dword s" using step(3) by (simp add: dword_def min_def)
    ultimately have "scan off (take (len + total_length as) s) = (a # as, False, False)"
      using step a ih by (subst scan.simps) (simp add: Let_def min_def)
    moreover have "len + total_length as \<le> length s" using conjunct1 [OF ih] step(4) by simp
    ultimately show ?thesis using ih four unfolding tot by (simp add: add.assoc add.commute [of "total_length as"] dvd_add)
  qed
qed

lemma scan_head_offset:
  assumes "scan off s = (p # ps, d, r)"
  shows "pk_offset p = min off U32_LIMIT"
  using assms by (cases off s rule: scan_cases) auto

lemma scan_mid_offset:
  assumes "scan off s = (as @ p # ps, False, False)" "4 dvd length s" "off + length s \<le> U32_LIMIT"
  shows "pk_offset p = off + total_length as" "off + total_length as \<le> off + length s"
  using scan_divide [OF assms(1,2)] scan_head_offset assms(3) by (metis min_absorb1 add_left_mono le_trans)+

lemma trusted_Nil: "trusted []"
  by (simp add: is_trustworthy_def packet_walk_def walk_from.simps)

text \<open>
  The loop's state: what is written so far can be walked, and from where the stream is copied to there
  are the packets passed since, then the ones still to come.
\<close>

definition expanding :: "byte list \<Rightarrow> Packet list \<Rightarrow> byte list \<Rightarrow> nat \<Rightarrow> Packet list \<Rightarrow> bool" where
  "expanding stream mid expanded copied ps \<longleftrightarrow> trusted expanded \<and> copied \<le> length stream \<and> 4 dvd (length stream - copied) \<and>
     scan copied (drop copied stream) = (mid @ ps, False, False)"

lemma expanding_skip: "expanding stream mid expanded copied (p # ps) \<Longrightarrow> expanding stream (mid @ [p]) expanded copied ps"
  by (simp add: expanding_def)

lemma expanding_cut:
  assumes "expanding stream mid expanded copied (p # ps)" "length stream \<le> U32_LIMIT" "trusted inner"
  shows "trusted (expanded @ or_empty (get_range stream copied (pk_offset p)))"
    "expanding stream [] (expanded @ or_empty (get_range stream copied (pk_offset p)) @ inner) (pk_offset p + pk_length p) ps"
proof -
  let ?s = "drop copied stream"
  have e: "trusted expanded" "copied \<le> length stream" "4 dvd length ?s" "scan copied ?s = (mid @ p # ps, False, False)"
    using assms(1) by (auto simp: expanding_def)
  have lim: "copied + length ?s \<le> U32_LIMIT" using assms(2) e(2) by simp
  note div = scan_divide [OF e(4,3)]
  note off = scan_mid_offset [OF e(4,3) lim]
  have cut: "or_empty (get_range stream copied (pk_offset p)) = take (total_length mid) ?s"
    using div e(2) off by (simp add: get_range_def or_empty_def)
  have "trusted (take (total_length mid) ?s)"
    using div trustworthy_scan [of "take (total_length mid) ?s" copied] by (simp add: min_absorb2)
  then have t: "trusted (expanded @ take (total_length mid) ?s)" using e(1) by (rule trustworthy_append [rotated])
  then show "trusted (expanded @ or_empty (get_range stream copied (pk_offset p)))" by (simp add: cut)
  let ?k = "total_length (mid @ [p])"
  have k: "scan (copied + ?k) (drop ?k ?s) = (ps, False, False)" "?k \<le> length ?s" "4 dvd ?k"
    using scan_divide [of copied ?s "mid @ [p]" ps] e(3,4) by simp_all
  have "4 dvd length ?s - ?k" using e(3) k(3) by (rule dvd_diff_nat)
  moreover have "length ?s - ?k = length stream - (copied + ?k)" by simp
  moreover have "drop ?k ?s = drop (copied + ?k) stream" by (simp add: add.commute)
  moreover have "copied + ?k \<le> length stream" using k(2) e(2) by simp
  moreover have "pk_offset p + pk_length p = copied + ?k" using off(1) by (simp add: total_length_def)
  ultimately show "expanding stream [] (expanded @ or_empty (get_range stream copied (pk_offset p)) @ inner) (pk_offset p + pk_length p) ps"
    using trustworthy_append [OF t assms(3)] k(1) unfolding expanding_def cut by (metis append.assoc append_Nil)
qed

lemma expand_packets_trusted:
  assumes "expanding stream mid expanded copied ps" "length stream \<le> U32_LIMIT"
    "\<And>at n target. read at n = Some target \<Longrightarrow> trusted (fst (deeper target at))"
  shows "trusted (fst (expand_packets deeper read stream base ps expanded copied))"
  using assms(1)
proof (induction ps arbitrary: mid expanded copied)
  case Nil
  then have "trusted (drop copied stream)" using trustworthy_scan [of "drop copied stream" copied] by (simp add: expanding_def)
  then show ?case using Nil by (simp add: expanding_def get_from_def or_empty_def trustworthy_append)
next
  case (Cons p ps)
  let ?upto = "expanded @ or_empty (get_range stream copied (pk_offset p))"
  have skip: "trusted (fst (expand_packets deeper read stream base ps expanded copied))"
    by (rule Cons.IH [OF expanding_skip [OF Cons.prems]])
  note empty = trusted_Nil
  note cut = expanding_cut [OF Cons.prems assms(2)]
  have go: "trusted (fst (expand_packets deeper read stream base ps (?upto @ inner) (pk_offset p + pk_length p)))"
    if "trusted inner" for inner using Cons.IH [OF cut(2) [OF that]] by simp
  note go0 = go [OF empty, simplified]
  have stop: "trusted (?upto @ inner)" if "trusted inner" for inner by (rule trustworthy_append [OF cut(1) [OF empty] that])
  show ?case
    using skip go0 go stop [OF empty] stop assms(3)
    by (auto simp: Let_def case_prod_unfold split: option.splits list.splits)
qed

text \<open>A stream that can be walked, with every buffer it calls one that can be walked, is still one when the
  calls are put in place, to any depth and wherever a hold or a chain ends it.\<close>

theorem expansion_walks:
  assumes "is_trustworthy (packet_walk stream)" "length stream \<le> U32_LIMIT"
    "\<forall>at n target. read at n = Some target \<longrightarrow> is_trustworthy (packet_walk target) \<and> length target \<le> U32_LIMIT"
  shows "is_trustworthy (packet_walk (fst (expand_holding stream base read))) \<and>
    is_trustworthy (packet_walk (expand_indirect_buffers stream read))"
proof -
  have "trusted (fst (expand_levels levels read s b))" if "trusted s" "length s \<le> U32_LIMIT" for levels s b
    using that
  proof (induction levels arbitrary: s b)
    case 0
    then show ?case by simp
  next
    case (Suc levels)
    obtain ps where ps: "scan 0 s = (ps, False, False)" "4 dvd length s"
      using Suc.prems(1) trustworthy_scan [of s 0] by (metis prod.collapse)
    then have "expanding s [] [] 0 (pw_packets (packet_walk s))"
      by (simp add: expanding_def packet_walk_scan [OF ps(1)] trusted_Nil)
    then show ?case
      using Suc expand_packets_trusted [of s "[]" "[]" 0 "pw_packets (packet_walk s)" read] assms(3) by simp
  qed
  then show ?thesis using assms(1,2) by (simp add: expand_holding_def expand_indirect_buffers_def)
qed

text \<open>At a call of a buffer that holds one no-op.\<close>

theorem expansion_walks_witness:
  "is_trustworthy (packet_walk (expand_indirect_buffers (commands [(INDIRECT_BUFFER, [0x1000, 0, 2])])
     (\<lambda>at n. if at = 0x1000 then Some (commands [(NOP, [0])]) else None)))"
proof -
  have "is_trustworthy (packet_walk (commands [(INDIRECT_BUFFER, [0x1000, 0, 2])]))" "is_trustworthy (packet_walk (commands [(NOP, [0])]))"
    by (subst walk_built; simp add: is_trustworthy_def command_ok_def opcode_defs INDIRECT_BUFFER_def U32_LIMIT_def)+
  then show ?thesis
    using expansion_walks [of "commands [(INDIRECT_BUFFER, [0x1000, 0, 2])]" "\<lambda>at n. if at = 0x1000 then Some (commands [(NOP, [0])]) else None" 0]
    by (simp add: U32_LIMIT_def)
qed

end
