(* ===== verification/Command_Processor.thy ===== *)
theory Command_Processor
  imports Stream_Shape Guest_Memory Ordered_Map
begin

text \<open>
  The command processor's own memory work (\<^verbatim>\<open>orbistoun-gpu/src/cp.rs\<close>, \<^verbatim>\<open>cp/indirect_draw.rs\<close>, the packet
  side of \<^verbatim>\<open>streamout.rs\<close>): fills, copies, releases, waits, writes, events, dispatches and indirect
  draws, carried out in the order of the stream over a memory the caller supplies.

  The memory is the trait \<^verbatim>\<open>CpMemory\<close>: a record of functions over a state. What a memory promises of its
  bytes is a locale; the guest's own memory (\<^verbatim>\<open>agc_driver.rs\<close>, with nothing deferred and no frame
  pending on the device) is shown to keep it. Drawing and dispatching are the caller's: they are
  arguments. Counters of packets and bytes are natural numbers. An address computed by a plain sum that
  does not fit is a panic, as in a checked build. The ranges watched by \<^verbatim>\<open>ORBISTOUN_WATCH_GPU\<close> and the
  timing spans are left out.
\<close>

section \<open>The memory it works on\<close>

record Dispatch =
  di_stream :: "byte list"
  di_offset :: nat
  di_groups :: "u32 list"
  di_initiator :: u32

text \<open>The offsets of the four streamout buffers; an edit of them also says what it found.\<close>

type_synonym Offsets = "u32 option list"

record 'm CpMemory =
  cm_read :: "'m \<Rightarrow> u64 \<Rightarrow> nat \<Rightarrow> byte list option"
  cm_write :: "u64 \<Rightarrow> byte list \<Rightarrow> 'm \<Rightarrow> bool \<times> 'm"
  cm_timestamp :: "'m \<Rightarrow> u64 \<times> 'm"
  cm_released :: "u64 \<Rightarrow> u32 \<Rightarrow> 'm \<Rightarrow> 'm"
  cm_fill :: "u64 \<Rightarrow> u32 \<Rightarrow> nat \<Rightarrow> 'm \<Rightarrow> bool \<times> 'm"
  cm_copy :: "u64 \<Rightarrow> u64 \<Rightarrow> nat \<Rightarrow> 'm \<Rightarrow> bool \<times> 'm"
  cm_run_draws :: "DrawSegment \<Rightarrow> 'm \<Rightarrow> bool \<times> 'm"
  cm_run_dispatch :: "Dispatch \<Rightarrow> 'm \<Rightarrow> bool \<times> 'm"
  cm_unready_dispatch :: "'m \<Rightarrow> u64 option \<times> 'm"
  cm_dispatch_program :: "byte list \<Rightarrow> nat \<Rightarrow> 'm \<Rightarrow> u64 option \<times> 'm"
  cm_samples_passed :: "'m \<Rightarrow> u64 option \<times> 'm"
  cm_streamout_stats :: "nat \<Rightarrow> 'm \<Rightarrow> (u64 \<times> u64) option \<times> 'm"
  cm_with_streamout :: "(Offsets \<Rightarrow> Offsets \<times> u32 option) \<Rightarrow> 'm \<Rightarrow> u32 option option \<times> 'm"

definition pattern_bytes :: "u32 \<Rightarrow> nat \<Rightarrow> byte list" where
  "pattern_bytes pattern count = take count (concat (replicate (div_ceil count 4) (to_le 4 (unat pattern))))"

text \<open>What a memory that supplies only reads, writes and a clock has for the rest.\<close>

definition default_fill :: "(u64 \<Rightarrow> byte list \<Rightarrow> 'm \<Rightarrow> bool \<times> 'm) \<Rightarrow> u64 \<Rightarrow> u32 \<Rightarrow> nat \<Rightarrow> 'm \<Rightarrow> bool \<times> 'm" where
  "default_fill wr at pattern count m = wr at (pattern_bytes pattern count) m"

definition default_copy ::
  "('m \<Rightarrow> u64 \<Rightarrow> nat \<Rightarrow> byte list option) \<Rightarrow> (u64 \<Rightarrow> byte list \<Rightarrow> 'm \<Rightarrow> bool \<times> 'm) \<Rightarrow> u64 \<Rightarrow> u64 \<Rightarrow> nat \<Rightarrow> 'm \<Rightarrow> bool \<times> 'm" where
  "default_copy rd wr source destination count m =
     (case rd m source count of Some bytes \<Rightarrow> wr destination bytes m | None \<Rightarrow> (False, m))"

definition default_memory ::
  "('m \<Rightarrow> u64 \<Rightarrow> nat \<Rightarrow> byte list option) \<Rightarrow> (u64 \<Rightarrow> byte list \<Rightarrow> 'm \<Rightarrow> bool \<times> 'm) \<Rightarrow> ('m \<Rightarrow> u64 \<times> 'm) \<Rightarrow> 'm CpMemory" where
  "default_memory rd wr clock =
     \<lparr>cm_read = rd, cm_write = wr, cm_timestamp = clock, cm_released = (\<lambda>at context m. m),
      cm_fill = default_fill wr, cm_copy = default_copy rd wr,
      cm_run_draws = (\<lambda>segment m. (False, m)), cm_run_dispatch = (\<lambda>dispatch m. (False, m)),
      cm_unready_dispatch = (\<lambda>m. (None, m)), cm_dispatch_program = (\<lambda>stream offset m. (None, m)),
      cm_samples_passed = (\<lambda>m. (None, m)), cm_streamout_stats = (\<lambda>stream m. (None, m)),
      cm_with_streamout = (\<lambda>edit m. (None, m))\<rparr>"

section \<open>What execution keeps\<close>

datatype Stop = StopNeedsGpu | StopOutOfBounds u64 | StopWait u64 u64 u64 | StopMalformed

datatype Stopped =
    Completed
  | NeedsGpu nat nat
  | OutOfBounds nat nat u64
  | WaitNeverSatisfied nat u64 u64 u64
  | Malformed nat

fun stopped_offset :: "Stopped \<Rightarrow> nat option" where
  "stopped_offset Completed = None"
| "stopped_offset (NeedsGpu at opcode) = Some at"
| "stopped_offset (OutOfBounds at opcode a) = Some at"
| "stopped_offset (WaitNeverSatisfied at a reference observed) = Some at"
| "stopped_offset (Malformed at) = Some at"

record CpExecution =
  ex_fills :: nat
  ex_copies :: nat
  ex_releases :: nat
  ex_waits :: nat
  ex_draws :: nat
  ex_dispatches :: nat
  ex_bytes_written :: nat
  ex_stopped :: Stopped
  ex_stopped_body :: "u32 list"

definition STOPPED_BODY_WORDS :: nat where "STOPPED_BODY_WORDS = 6"

definition cp_execution_default :: CpExecution where
  "cp_execution_default =
     \<lparr>ex_fills = 0, ex_copies = 0, ex_releases = 0, ex_waits = 0, ex_draws = 0, ex_dispatches = 0, ex_bytes_written = 0,
      ex_stopped = Completed, ex_stopped_body = replicate STOPPED_BODY_WORDS 0\<rparr>"

definition body_head :: "byte list \<Rightarrow> u32 list" where
  "body_head bytes = take STOPPED_BODY_WORDS (words_of bytes @ replicate STOPPED_BODY_WORDS 0)"

text \<open>What the run keeps for its report: grids that were empty, where copies and fills landed, the labels
  releases wrote, and how many packets completed.\<close>

datatype DmaSource = Copied u64 | Filled u32

record CpReports =
  re_empty_indirect :: "((u64 \<times> u64 option) \<times> nat) list"
  re_landings :: "(u64, u64 \<times> DmaSource) btree"
  re_released :: "(u64, u64 \<times> nat) btree"
  re_packets_done :: nat

record 'm Cp =
  cp_memory :: 'm
  cp_result :: CpExecution
  cp_reports :: CpReports

type_synonym 'm handler = "'m Cp \<Rightarrow> 'm Cp \<times> (Stop, unit) outcome"

definition carried :: "(CpExecution \<Rightarrow> CpExecution) \<Rightarrow> 'm Cp \<Rightarrow> 'm Cp \<times> (Stop, unit) outcome" where
  "carried f cp = (cp\<lparr>cp_result := f (cp_result cp)\<rparr>, Ok ())"

definition EMPTY_INDIRECT_MOST :: nat where "EMPTY_INDIRECT_MOST = 64"

definition note_empty_indirect :: "u64 \<Rightarrow> u64 option \<Rightarrow> CpReports \<Rightarrow> CpReports" where
  "note_empty_indirect at program r =
     (let key = (at, program); es = re_empty_indirect r
      in if key \<in> fst ` set es then r\<lparr>re_empty_indirect := map (\<lambda>(k, n). (k, if k = key then n + 1 else n)) es\<rparr>
         else if length es < EMPTY_INDIRECT_MOST then r\<lparr>re_empty_indirect := es @ [(key, 1)]\<rparr> else r)"

definition dma_landed_at :: "u64 \<Rightarrow> CpReports \<Rightarrow> DmaSource option" where
  "dma_landed_at at r =
     (case bt_last_le at (re_landings r) of
        None \<Rightarrow> None
      | Some (start, stop, source) \<Rightarrow>
          if stop \<le> at then None
          else Some (case source of Filled w \<Rightarrow> Filled w | Copied from \<Rightarrow> Copied (from + (at - start))))"

definition note_release :: "u64 \<Rightarrow> u64 \<Rightarrow> CpReports \<Rightarrow> CpReports" where
  "note_release destination v r =
     (let n = (case bt_get (re_released r) destination of Some (_, n) \<Rightarrow> n | None \<Rightarrow> 0)
      in r\<lparr>re_released := bt_insert destination (v, n + 1) (re_released r)\<rparr>)"

definition after_packet :: "bool \<Rightarrow> 'm Cp \<Rightarrow> 'm Cp" where
  "after_packet done cp =
     (if done then cp\<lparr>cp_reports := (cp_reports cp)\<lparr>re_packets_done := re_packets_done (cp_reports cp) + 1\<rparr>\<rparr> else cp)"

section \<open>Fills and copies\<close>

definition SRC_SEL_DATA :: u32 where "SRC_SEL_DATA = 2"
definition SRC_SEL_ADDRESS :: "u32 list" where "SRC_SEL_ADDRESS = [0, 3]"
definition DST_SEL_ADDRESS :: "u32 list" where "DST_SEL_ADDRESS = [0, 3]"
definition DST_SEL_NOWHERE :: u32 where "DST_SEL_NOWHERE = 2"
definition BYTE_COUNT_MASK :: u32 where "BYTE_COUNT_MASK = 0x03ffffff"
definition SOURCE_HOLD :: u32 where "SOURCE_HOLD = push_bit 28 1"
definition DESTINATION_HOLD :: u32 where "DESTINATION_HOLD = push_bit 29 1"
definition SOURCE_IN_REGISTERS :: u32 where "SOURCE_IN_REGISTERS = push_bit 26 1"

record DmaData =
  dm_src_sel :: u32
  dm_src_low :: u32
  dm_src_high :: u32
  dm_destination :: u64
  dm_count :: nat
  dm_source_held :: bool

definition decode_dma_data :: "u32 list \<Rightarrow> (Stop, DmaData) outcome" where
  "decode_dma_data body =
     (if length body < 6 then Err StopMalformed
      else let control = body ! 0; src_low = body ! 1; src_high = body ! 2; command = body ! 5;
               dst_sel = drop_bit 20 control AND 3; src_sel = drop_bit 29 control AND 3;
               register_source = (src_sel = 0 \<and> command AND SOURCE_IN_REGISTERS \<noteq> 0);
               dma = \<lparr>dm_src_sel = src_sel, dm_src_low = src_low, dm_src_high = src_high,
                      dm_destination = address (body ! 3) (body ! 4), dm_count = unat (command AND BYTE_COUNT_MASK),
                      dm_source_held = (command AND SOURCE_HOLD \<noteq> 0)\<rparr>
           in if dst_sel \<notin> set DST_SEL_ADDRESS \<or> register_source then Err StopNeedsGpu
              else if command AND DESTINATION_HOLD \<noteq> 0 \<and> dm_count dma > 4
              then let last_word = wrapping_add (address src_low src_high) (dm_count dma - 4);
                       dma = (if src_sel \<noteq> SRC_SEL_DATA \<and> \<not> dm_source_held dma
                              then dma\<lparr>dm_src_low := word_of_nat last_word, dm_src_high := word_of_nat (last_word div 2 ^ 32)\<rparr>
                              else dma)
                   in Ok (dma\<lparr>dm_count := 4\<rparr>)
              else Ok dma)"

record Fill =
  fi_destination :: u64
  fi_pattern :: u32
  fi_count :: u64

definition fill_of :: "u32 list \<Rightarrow> Fill option" where
  "fill_of body =
     (case decode_dma_data body of
        Ok dma \<Rightarrow> if dm_src_sel dma = SRC_SEL_DATA
          then Some \<lparr>fi_destination = dm_destination dma, fi_pattern = dm_src_low dma, fi_count = dm_count dma\<rparr> else None
      | _ \<Rightarrow> None)"

definition dma_prefetch :: "'m CpMemory \<Rightarrow> u32 list \<Rightarrow> 'm \<Rightarrow> (Stop, unit) outcome option" where
  "dma_prefetch ops body m =
     (if length body < 6 \<or> drop_bit 20 (body ! 0) AND 3 \<noteq> DST_SEL_NOWHERE then None
      else if drop_bit 29 (body ! 0) AND 3 \<notin> set SRC_SEL_ADDRESS then Some (Err StopNeedsGpu)
      else let count = unat (body ! 5 AND BYTE_COUNT_MASK); source = address (body ! 1) (body ! 2)
           in Some (if count = 0 \<or> cm_read ops m source count \<noteq> None then Ok () else Err (StopOutOfBounds source)))"

text \<open>The fill or copy itself: whether it was done, and the memory; nothing for a source it does not read.\<close>

definition dma_move :: "'m CpMemory \<Rightarrow> DmaData \<Rightarrow> 'm \<Rightarrow> (bool \<times> 'm) option" where
  "dma_move ops dma m =
     (let source = address (dm_src_low dma) (dm_src_high dma) in
      if dm_count dma = 0 then Some (True, m)
      else if dm_src_sel dma = SRC_SEL_DATA then Some (cm_fill ops (dm_destination dma) (dm_src_low dma) (dm_count dma) m)
      else if dm_src_sel dma \<in> set SRC_SEL_ADDRESS \<and> dm_source_held dma
      then Some (case cm_read ops m source 4 of
                   Some w \<Rightarrow> cm_fill ops (dm_destination dma) (dword w) (dm_count dma) m | None \<Rightarrow> (False, m))
      else if dm_src_sel dma \<in> set SRC_SEL_ADDRESS then Some (cm_copy ops source (dm_destination dma) (dm_count dma) m)
      else None)"

definition note_landing :: "DmaData \<Rightarrow> 'm Cp \<Rightarrow> 'm Cp \<times> (Stop, unit) outcome" where
  "note_landing dma cp =
     (if dm_count dma = 0 then (cp, Ok ())
      else let source = (if dm_src_sel dma = SRC_SEL_DATA then Filled (dm_src_low dma)
                         else Copied (address (dm_src_low dma) (dm_src_high dma)));
               stop = dm_destination dma + dm_count dma
           in if U64_MAX < stop then (cp, Panic)
              else (cp\<lparr>cp_reports := (cp_reports cp)\<lparr>re_landings :=
                      bt_insert (dm_destination dma) (stop, source) (re_landings (cp_reports cp))\<rparr>\<rparr>, Ok ()))"

definition dma_data :: "'m CpMemory \<Rightarrow> u32 list \<Rightarrow> 'm handler" where
  "dma_data ops body cp =
     (case dma_prefetch ops body (cp_memory cp) of
        Some prefetched \<Rightarrow> (cp, prefetched)
      | None \<Rightarrow>
          (case decode_dma_data body of
             Err e \<Rightarrow> (cp, Err e)
           | Panic \<Rightarrow> (cp, Panic)
           | Ok dma \<Rightarrow>
               (case dma_move ops dma (cp_memory cp) of
                  None \<Rightarrow> (cp, Err StopNeedsGpu)
                | Some (done, m) \<Rightarrow>
                    (let cp = cp\<lparr>cp_memory := m\<rparr>; source = address (dm_src_low dma) (dm_src_high dma) in
                     if \<not> done
                     then (cp, Err (StopOutOfBounds
                            (if dm_src_sel dma \<in> set SRC_SEL_ADDRESS \<and> cm_read ops m source (dm_count dma) = None
                             then source else dm_destination dma)))
                     else let (cp, noted) = note_landing dma cp
                          in if noted \<noteq> Ok () then (cp, noted)
                             else carried (\<lambda>r. (if dm_src_sel dma = SRC_SEL_DATA then r\<lparr>ex_fills := ex_fills r + 1\<rparr>
                                     else r\<lparr>ex_copies := ex_copies r + 1\<rparr>)
                                    \<lparr>ex_bytes_written := ex_bytes_written r + dm_count dma\<rparr>) cp))))"

section \<open>Releases, writes and waits\<close>

definition DATA_SEL_DISCARD :: u32 where "DATA_SEL_DISCARD = 0"
definition DATA_SEL_VALUE_32BIT :: u32 where "DATA_SEL_VALUE_32BIT = 1"
definition DATA_SEL_VALUE_64BIT :: u32 where "DATA_SEL_VALUE_64BIT = 2"
definition DATA_SEL_TIMESTAMP :: u32 where "DATA_SEL_TIMESTAMP = 3"

definition value_mask :: "u32 \<Rightarrow> u64" where
  "value_mask data_sel = (if data_sel = DATA_SEL_VALUE_32BIT then 0xFFFFFFFF else U64_MAX)"

text \<open>What a release writes, and the memory once a time stamp was taken.\<close>

definition released_bytes :: "'m CpMemory \<Rightarrow> u32 \<Rightarrow> u32 \<Rightarrow> u32 \<Rightarrow> 'm \<Rightarrow> (byte list \<times> 'm) option" where
  "released_bytes ops sel low high m =
     (if sel = DATA_SEL_DISCARD then Some ([], m)
      else if sel = DATA_SEL_VALUE_32BIT then Some (to_le 4 (unat low), m)
      else if sel = DATA_SEL_VALUE_64BIT then Some (to_le 8 (address low high), m)
      else if sel = DATA_SEL_TIMESTAMP then let (t, m) = cm_timestamp ops m in Some (to_le 8 t, m)
      else None)"

definition release_mem :: "'m CpMemory \<Rightarrow> u32 list \<Rightarrow> 'm handler" where
  "release_mem ops body cp =
     (if length body < 6 then (cp, Err StopMalformed)
      else let selectors = body ! 1; sel = drop_bit 29 selectors; destination = address (body ! 2) (body ! 3)
           in case released_bytes ops sel (body ! 4) (body ! 5) (cp_memory cp) of
                None \<Rightarrow> (cp, Err StopNeedsGpu)
              | Some (written, m) \<Rightarrow>
                  (let (ok, m) = (if written \<noteq> [] then cm_write ops destination written m else (True, m)) in
                   if \<not> ok then (cp\<lparr>cp_memory := m\<rparr>, Err (StopOutOfBounds destination))
                   else let noted = (if sel = DATA_SEL_VALUE_32BIT \<or> sel = DATA_SEL_VALUE_64BIT
                                     then note_release destination (address (body ! 4) (body ! 5) AND value_mask sel) (cp_reports cp)
                                     else cp_reports cp);
                            m = (if drop_bit 24 selectors AND 7 \<noteq> 0
                                 then cm_released ops destination (if 6 < length body then body ! 6 else 0) m else m)
                        in carried (\<lambda>r. r\<lparr>ex_releases := ex_releases r + 1, ex_bytes_written := ex_bytes_written r + length written\<rparr>)
                             (cp\<lparr>cp_memory := m, cp_reports := noted\<rparr>)))"

definition CONTEXT_CONTROL_SHADOW_ENABLES :: u32 where "CONTEXT_CONTROL_SHADOW_ENABLES = 0x1018003"
definition CONTEXT_CONTROL_UPDATE_SHADOW_ENABLES :: u32 where "CONTEXT_CONTROL_UPDATE_SHADOW_ENABLES = push_bit 31 1"

definition context_control :: "u32 list \<Rightarrow> 'm handler" where
  "context_control body cp =
     (if length body < 2 then (cp, Err StopMalformed)
      else if body ! 1 AND CONTEXT_CONTROL_UPDATE_SHADOW_ENABLES \<noteq> 0 \<and> body ! 1 AND CONTEXT_CONTROL_SHADOW_ENABLES \<noteq> 0
      then (cp, Err StopNeedsGpu) else (cp, Ok ()))"

definition WRITE_DATA_DST_SEL_MEMORY :: "u32 list" where "WRITE_DATA_DST_SEL_MEMORY = [1, 2, 5]"
definition WRITE_DATA_DST_SEL_REGISTER :: u32 where "WRITE_DATA_DST_SEL_REGISTER = 0"
definition WRITE_DATA_NO_INCREMENT :: u32 where "WRITE_DATA_NO_INCREMENT = push_bit 16 1"

definition write_data :: "'m CpMemory \<Rightarrow> u32 list \<Rightarrow> 'm handler" where
  "write_data ops body cp =
     (if length body < 3 then (cp, Err StopMalformed)
      else let control = body ! 0; dst_sel = drop_bit 8 control AND 0xf; data = drop 3 body in
           if dst_sel = WRITE_DATA_DST_SEL_REGISTER then (cp, Ok ())
           else if dst_sel \<notin> set WRITE_DATA_DST_SEL_MEMORY then (cp, Err StopNeedsGpu)
           else let destination = address (body ! 1 AND NOT 3) (body ! 2);
                    written = (if control AND WRITE_DATA_NO_INCREMENT \<noteq> 0 then (if data = [] then [] else [last data]) else data);
                    bytes = dword_bytes written;
                    (ok, m) = (if bytes \<noteq> [] then cm_write ops destination bytes (cp_memory cp) else (True, cp_memory cp))
                in if \<not> ok then (cp\<lparr>cp_memory := m\<rparr>, Err (StopOutOfBounds destination))
                   else carried (\<lambda>r. r\<lparr>ex_bytes_written := ex_bytes_written r + length bytes\<rparr>) (cp\<lparr>cp_memory := m\<rparr>))"

definition WAIT_EQUAL :: u32 where "WAIT_EQUAL = 3"
definition WAIT_NOT_EQUAL :: u32 where "WAIT_NOT_EQUAL = 4"
definition WAIT_GREATER_OR_EQUAL :: u32 where "WAIT_GREATER_OR_EQUAL = 5"
definition WAIT_MEM_SPACE :: u32 where "WAIT_MEM_SPACE = push_bit 4 1"
definition CP_STRMOUT_CNTL :: u32 where "CP_STRMOUT_CNTL = drop_bit 2 0x300fc"
definition OFFSET_UPDATE_DONE :: u32 where "OFFSET_UPDATE_DONE = 1"

definition is_streamout_flush_wait :: "u32 \<Rightarrow> u32 \<Rightarrow> u32 \<Rightarrow> u32 \<Rightarrow> bool" where
  "is_streamout_flush_wait function register reference msk \<longleftrightarrow>
     function AND 7 = WAIT_EQUAL \<and> register = CP_STRMOUT_CNTL \<and> reference = OFFSET_UPDATE_DONE \<and> msk = OFFSET_UPDATE_DONE"

text \<open>Whether a wait's condition holds; nothing for a function that is not checked.\<close>

definition wait_holds :: "u32 \<Rightarrow> nat \<Rightarrow> nat \<Rightarrow> bool option" where
  "wait_holds function v reference =
     (if function AND 7 = WAIT_EQUAL then Some (v = reference)
      else if function AND 7 = WAIT_NOT_EQUAL then Some (v \<noteq> reference)
      else if function AND 7 = WAIT_GREATER_OR_EQUAL then Some (reference \<le> v)
      else None)"

definition wait_on :: "u32 \<Rightarrow> u64 \<Rightarrow> nat \<Rightarrow> nat \<Rightarrow> 'm handler" where
  "wait_on function polled v reference cp =
     (case wait_holds function v reference of
        None \<Rightarrow> (cp, Err StopNeedsGpu)
      | Some holds \<Rightarrow>
          if holds then carried (\<lambda>r. r\<lparr>ex_waits := ex_waits r + 1\<rparr>) cp
          else (cp, Err (StopWait polled reference v)))"

definition wait_reg_mem :: "'m CpMemory \<Rightarrow> u32 list \<Rightarrow> 'm handler" where
  "wait_reg_mem ops body cp =
     (if length body < 5 then (cp, Err StopMalformed)
      else if body ! 0 AND WAIT_MEM_SPACE = 0
      then if is_streamout_flush_wait (body ! 0) (body ! 1) (body ! 3) (body ! 4)
           then carried (\<lambda>r. r\<lparr>ex_waits := ex_waits r + 1\<rparr>) cp else (cp, Err StopNeedsGpu)
      else let polled = address (body ! 1 AND NOT 3) (body ! 2)
           in case cm_read ops (cp_memory cp) polled 4 of
                None \<Rightarrow> (cp, Err (StopOutOfBounds polled))
              | Some w \<Rightarrow> wait_on (body ! 0) polled (unat (dword w AND body ! 4)) (unat (body ! 3)) cp)"

definition wait_reg_mem64 :: "'m CpMemory \<Rightarrow> u32 list \<Rightarrow> 'm handler" where
  "wait_reg_mem64 ops body cp =
     (if length body < 7 then (cp, Err StopMalformed)
      else if body ! 0 AND WAIT_MEM_SPACE = 0 then (cp, Err StopNeedsGpu)
      else let polled = address (body ! 1 AND NOT 7) (body ! 2)
           in case cm_read ops (cp_memory cp) polled 8 of
                None \<Rightarrow> (cp, Err (StopOutOfBounds polled))
              | Some w \<Rightarrow> wait_on (body ! 0) polled (le_nat w AND address (body ! 5) (body ! 6)) (address (body ! 3) (body ! 4)) cp)"

section \<open>Events and streamout\<close>

definition ZPASS_DONE :: u32 where "ZPASS_DONE = 21"
definition ZPASS_BACKENDS :: nat where "ZPASS_BACKENDS = 16"
definition ZPASS_VALID :: u64 where "ZPASS_VALID = 2 ^ 63"

definition stats_event_stream :: "u32 \<Rightarrow> nat option" where
  "stats_event_stream initiator =
     (if drop_bit 8 initiator AND 0xF \<noteq> 3 then None
      else let event = unat (initiator AND 0x3F)
           in if event = 32 then Some 0 else if 1 \<le> event \<and> event \<le> 3 then Some event else None)"

text \<open>Eight-byte values written one after another, up to the first refused.\<close>

fun write_slots :: "'m CpMemory \<Rightarrow> (u64 \<times> u64) list \<Rightarrow> 'm handler" where
  "write_slots ops [] cp = (cp, Ok ())"
| "write_slots ops ((at, v) # slots) cp =
     (let (ok, m) = cm_write ops at (to_le 8 v) (cp_memory cp); cp = cp\<lparr>cp_memory := m\<rparr>
      in if \<not> ok then (cp, Err (StopOutOfBounds at))
         else write_slots ops slots (fst (carried (\<lambda>r. r\<lparr>ex_bytes_written := ex_bytes_written r + 8\<rparr>) cp)))"

definition event_write :: "'m CpMemory \<Rightarrow> u32 list \<Rightarrow> 'm handler" where
  "event_write ops body cp =
     (if length body < 3 then (cp, Err StopNeedsGpu)
      else let destination = address (body ! 1 AND NOT 7) (body ! 2 AND 0xFFFF)
           in case stats_event_stream (body ! 0) of
                Some stream \<Rightarrow>
                  (let (stats, m) = cm_streamout_stats ops stream (cp_memory cp); cp = cp\<lparr>cp_memory := m\<rparr>
                   in case stats of
                        None \<Rightarrow> (cp, Err StopNeedsGpu)
                      | Some (written, needed) \<Rightarrow>
                          write_slots ops [(destination, written OR ZPASS_VALID), (destination + 8, needed OR ZPASS_VALID)] cp)
              | None \<Rightarrow>
                  (if body ! 0 AND 0x3F \<noteq> ZPASS_DONE then (cp, Err StopNeedsGpu)
                   else let (passed, m) = cm_samples_passed ops (cp_memory cp); cp = cp\<lparr>cp_memory := m\<rparr>
                        in case passed of
                             None \<Rightarrow> (cp, Err StopNeedsGpu)
                           | Some count \<Rightarrow>
                               write_slots ops (map (\<lambda>backend. (destination + backend * 16, (if backend = 0 then count else 0) OR ZPASS_VALID))
                                 [0..<ZPASS_BACKENDS]) cp))"

definition STRMOUT_BUFFER_UPDATE :: nat where "STRMOUT_BUFFER_UPDATE = 0x34"

datatype OffsetSource = FromPacket u32 | FromMemory u64 | Keep

record Update =
  up_buffer :: nat
  up_source :: OffsetSource
  up_store_to :: "u64 option"

definition decode_update :: "u32 list \<Rightarrow> Update option" where
  "decode_update body =
     (if length body < 5 then None
      else let control = body ! 0; stores = (control AND 1 \<noteq> 0); sel = drop_bit 1 control AND 3;
               source = (if sel = 0 then (if body ! 3 = 0 then Some (FromPacket 0) else None)
                         else if sel = 1 then None
                         else if sel = 2 then Some (FromMemory (address (body ! 3 AND NOT 3) (body ! 4)))
                         else Some Keep)
           in case source of
                None \<Rightarrow> None
              | Some src \<Rightarrow>
                  if stores \<and> src \<noteq> Keep then None
                  else Some \<lparr>up_buffer = unat (drop_bit 8 control AND 3), up_source = src,
                             up_store_to = (if stores then Some (address (body ! 1 AND NOT 3) (body ! 2)) else None)\<rparr>)"

definition edit_offsets :: "nat \<Rightarrow> u32 option \<Rightarrow> Offsets \<Rightarrow> Offsets \<times> u32 option" where
  "edit_offsets buffer new offsets =
     (let offsets = (case new of Some bytes \<Rightarrow> offsets[buffer := Some bytes] | None \<Rightarrow> offsets) in (offsets, offsets ! buffer))"

definition offset_to_set :: "'m CpMemory \<Rightarrow> OffsetSource \<Rightarrow> 'm \<Rightarrow> (Stop, u32 option) outcome" where
  "offset_to_set ops source m =
     (case source of
        FromPacket bytes \<Rightarrow> Ok (Some bytes)
      | FromMemory at \<Rightarrow> out_bind (ok_or (StopOutOfBounds at) (cm_read ops m at 4)) (\<lambda>bytes. Ok (Some (dword bytes)))
      | Keep \<Rightarrow> Ok None)"

definition streamout_update :: "'m CpMemory \<Rightarrow> u32 list \<Rightarrow> 'm handler" where
  "streamout_update ops body cp =
     (case decode_update body of
        None \<Rightarrow> (cp, Err StopNeedsGpu)
      | Some update \<Rightarrow>
          (case offset_to_set ops (up_source update) (cp_memory cp) of
             Err e \<Rightarrow> (cp, Err e)
           | Panic \<Rightarrow> (cp, Panic)
           | Ok new \<Rightarrow>
               (let (found, m) = cm_with_streamout ops (edit_offsets (up_buffer update) new) (cp_memory cp); cp = cp\<lparr>cp_memory := m\<rparr>
                in case found of
                     None \<Rightarrow> (cp, Err StopNeedsGpu)
                   | Some hold \<Rightarrow>
                       (case up_store_to update of
                          None \<Rightarrow> (cp, Ok ())
                        | Some at \<Rightarrow>
                            (case hold of
                               None \<Rightarrow> (cp, Err StopNeedsGpu)
                             | Some filled \<Rightarrow>
                                 let (ok, m) = cm_write ops at (to_le 4 (unat filled)) (cp_memory cp); cp = cp\<lparr>cp_memory := m\<rparr>
                                 in if \<not> ok then (cp, Err (StopOutOfBounds at))
                                    else carried (\<lambda>r. r\<lparr>ex_bytes_written := ex_bytes_written r + 4\<rparr>) cp)))))"

section \<open>Dispatches\<close>

definition run_dispatch :: "'m CpMemory \<Rightarrow> Dispatch \<Rightarrow> 'm Cp \<Rightarrow> bool \<times> 'm Cp" where
  "run_dispatch ops dispatch cp = (let (ran, m) = cm_run_dispatch ops dispatch (cp_memory cp) in (ran, cp\<lparr>cp_memory := m\<rparr>))"

definition count_dispatch :: "'m handler" where
  "count_dispatch = carried (\<lambda>r. r\<lparr>ex_dispatches := ex_dispatches r + 1\<rparr>)"

definition cp_dispatch_direct :: "'m CpMemory \<Rightarrow> byte list \<Rightarrow> nat \<Rightarrow> u32 list \<Rightarrow> 'm handler" where
  "cp_dispatch_direct ops stream offset body cp =
     (if length body < 4 then (cp, Err StopMalformed)
      else let (ran, cp) = run_dispatch ops \<lparr>di_stream = stream, di_offset = offset, di_groups = take 3 body, di_initiator = body ! 3\<rparr> cp
           in if ran then count_dispatch cp
              else let (unready, m) = cm_unready_dispatch ops (cp_memory cp); cp = cp\<lparr>cp_memory := m\<rparr>
                   in case unready of Some a \<Rightarrow> (cp, Err (StopWait a 1 0)) | None \<Rightarrow> (cp, Err StopNeedsGpu))"

definition stream_word :: "byte list \<Rightarrow> nat \<Rightarrow> u32 option" where
  "stream_word stream at = map_option dword (get_range stream at (at + 4))"

definition base_set :: "byte list \<Rightarrow> Packet \<Rightarrow> u64 option" where
  "base_set stream p =
     (let start = body_offset p
      in case (stream_word stream start, stream_word stream (start + 4), stream_word stream (start + 8)) of
           (Some which, Some low, Some high) \<Rightarrow> if which = 1 then Some (address low high) else None
         | _ \<Rightarrow> None)"

text \<open>The packets of an opcode before an offset, in order.\<close>

definition earlier :: "byte list \<Rightarrow> nat \<Rightarrow> nat \<Rightarrow> Packet list" where
  "earlier stream opcode bound =
     filter (\<lambda>p. pk_kind p = Command opcode) (takeWhile (\<lambda>p. pk_offset p < bound) (pw_packets (packet_walk stream)))"

definition indirect_base :: "byte list \<Rightarrow> nat \<Rightarrow> u64 option" where
  "indirect_base stream bound = last_of (List.map_filter (base_set stream) (earlier stream SET_BASE bound))"

definition grid_at :: "byte list \<Rightarrow> nat \<Rightarrow> u32 list \<Rightarrow> (Stop, u64 \<times> u32) outcome" where
  "grid_at stream offset body =
     (case body of
        [past, initiator] \<Rightarrow>
          out_bind (ok_or StopMalformed (indirect_base stream offset)) (\<lambda>b.
            out_bind (plain_add b (unat past)) (\<lambda>at. Ok (at, initiator)))
      | [low, high, initiator] \<Rightarrow> Ok (address low high, initiator)
      | _ \<Rightarrow> Err StopMalformed)"

definition dispatch_indirect :: "'m CpMemory \<Rightarrow> byte list \<Rightarrow> nat \<Rightarrow> u32 list \<Rightarrow> 'm handler" where
  "dispatch_indirect ops stream offset body cp =
     (case out_bind (grid_at stream offset body) (\<lambda>(at, initiator).
             out_bind (ok_or (StopOutOfBounds at) (cm_read ops (cp_memory cp) at 12)) (\<lambda>bytes.
               Ok (at, initiator, take 3 (words_of bytes @ [0, 0, 0])))) of
        Err e \<Rightarrow> (cp, Err e)
      | Panic \<Rightarrow> (cp, Panic)
      | Ok (at, initiator, groups) \<Rightarrow>
          if 0 \<in> set groups
          then let (program, m) = cm_dispatch_program ops stream offset (cp_memory cp)
               in (cp\<lparr>cp_memory := m, cp_reports := note_empty_indirect at program (cp_reports cp)\<rparr>, Ok ())
          else let (ran, cp) = run_dispatch ops \<lparr>di_stream = stream, di_offset = offset, di_groups = groups, di_initiator = initiator\<rparr> cp
               in if ran then count_dispatch cp else (cp, Err StopNeedsGpu))"

section \<open>Indirect draws\<close>

definition START_INDEX_ENABLE :: u32 where "START_INDEX_ENABLE = push_bit 28 1"
definition TASK_SHADER_MODE :: u32 where "TASK_SHADER_MODE = push_bit 25 1"
definition USE_VGPRS :: u32 where "USE_VGPRS = push_bit 27 1"
definition COUNT_INDIRECT_ENABLE :: u32 where "COUNT_INDIRECT_ENABLE = push_bit 30 1"
definition DRAW_INDEX_ENABLE :: u32 where "DRAW_INDEX_ENABLE = push_bit 31 1"

datatype Count = PacketCount u32 | MemoryCount u32 u64

record IndirectDraw =
  id_indexed :: bool
  id_data_offset :: u32
  id_vertex_location :: u32
  id_index_location :: "u32 option"
  id_instance_location :: u32
  id_draw_index_location :: "u32 option"
  id_count :: Count
  id_stride :: u32
  id_initiator :: u32

definition some_if :: "bool \<Rightarrow> 'a \<Rightarrow> 'a option" where
  "some_if b x = (if b then Some x else None)"

definition decode_single :: "bool \<Rightarrow> u32 list \<Rightarrow> IndirectDraw" where
  "decode_single indexed body =
     \<lparr>id_indexed = indexed, id_data_offset = body ! 0, id_vertex_location = body ! 1 AND 0xffff,
      id_index_location = some_if (indexed \<and> body ! 2 AND START_INDEX_ENABLE \<noteq> 0) (drop_bit 16 (body ! 1)),
      id_instance_location = body ! 2 AND 0xffff, id_draw_index_location = None,
      id_count = PacketCount 1, id_stride = 0, id_initiator = body ! 3\<rparr>"

definition decode_multi :: "bool \<Rightarrow> u32 list \<Rightarrow> IndirectDraw" where
  "decode_multi indexed body =
     (let draw_index = body ! 3 in
      \<lparr>id_indexed = indexed, id_data_offset = body ! 0, id_vertex_location = body ! 1 AND 0xffff,
       id_index_location = some_if (indexed \<and> draw_index AND START_INDEX_ENABLE \<noteq> 0) (drop_bit 16 (body ! 1)),
       id_instance_location = body ! 2 AND 0xffff,
       id_draw_index_location = some_if (draw_index AND DRAW_INDEX_ENABLE \<noteq> 0) (draw_index AND 0xffff),
       id_count = (if draw_index AND COUNT_INDIRECT_ENABLE \<noteq> 0
                   then MemoryCount (body ! 4) (address (body ! 5 AND NOT 3) (body ! 6)) else PacketCount (body ! 4)),
       id_stride = body ! 7, id_initiator = body ! 8\<rparr>)"

definition decode_draw :: "nat \<Rightarrow> u32 list \<Rightarrow> (Stop, IndirectDraw) outcome" where
  "decode_draw opcode body =
     (if opcode \<in> {DRAW_INDIRECT, DRAW_INDEX_INDIRECT} \<and> length body = 4
      then Ok (decode_single (opcode = DRAW_INDEX_INDIRECT) body)
      else if opcode \<in> {DRAW_INDIRECT_MULTI, DRAW_INDEX_INDIRECT_MULTI} \<and> length body = 9
      then if body ! 3 AND (TASK_SHADER_MODE OR USE_VGPRS) \<noteq> 0 then Err StopNeedsGpu
           else Ok (decode_multi (opcode = DRAW_INDEX_INDIRECT_MULTI) body)
      else if is_indirect_draw opcode then Err StopMalformed else Err StopNeedsGpu)"

definition record_bytes :: "IndirectDraw \<Rightarrow> nat" where
  "record_bytes d = (if id_indexed d then 20 else 16)"

definition index_buffer_size :: "byte list \<Rightarrow> nat \<Rightarrow> u32" where
  "index_buffer_size stream bound =
     (case last_of (List.map_filter (\<lambda>p. stream_word stream (body_offset p)) (earlier stream INDEX_BUFFER_SIZE bound)) of
        Some v \<Rightarrow> v | None \<Rightarrow> 0)"

definition set_location :: "u32 \<Rightarrow> u32 \<Rightarrow> u32 list" where
  "set_location location v = (if location \<noteq> 0 then set_sh_register_range (ucast location) [v] else [])"

definition record_fields :: "u32 list \<Rightarrow> (u32 \<times> u32 \<times> u32 \<times> u32 \<times> u32) option" where
  "record_fields rec =
     (case rec of
        [count, instances, first_vertex, first_instance] \<Rightarrow> Some (count, instances, 0, first_vertex, first_instance)
      | [count, instances, first_index, vertex_offset, first_instance] \<Rightarrow>
          Some (count, instances, first_index, vertex_offset, first_instance)
      | _ \<Rightarrow> None)"

definition draw_words :: "IndirectDraw \<Rightarrow> u32 list \<Rightarrow> u32 \<Rightarrow> u32 \<Rightarrow> u32 list option" where
  "draw_words d rec draw_index max_size =
     (case record_fields rec of
        None \<Rightarrow> None
      | Some (count, instances, first, vertex, first_instance) \<Rightarrow>
          if count = 0 \<or> instances = 0 then None
          else Some (set_location (id_vertex_location d) vertex @
                 (case id_index_location d of Some l \<Rightarrow> set_location l first | None \<Rightarrow> []) @
                 set_location (id_instance_location d) first_instance @
                 (case id_draw_index_location d of Some l \<Rightarrow> set_location l draw_index | None \<Rightarrow> []) @
                 set_num_instances instances @
                 (if id_indexed d
                  then [command_header DRAW_INDEX_OFFSET_2 4, max_size, first, count, id_initiator d]
                  else draw_index_auto count (id_initiator d))))"

text \<open>The packets every record is drawn as, and how many records draw something.\<close>

fun records_words ::
  "(u64 \<Rightarrow> nat \<Rightarrow> byte list option) \<Rightarrow> IndirectDraw \<Rightarrow> u64 \<Rightarrow> u32 \<Rightarrow> nat list \<Rightarrow> (Stop, u32 list \<times> nat) outcome" where
  "records_words read d base max_size [] = Ok ([], 0)"
| "records_words read d base max_size (index # rest) =
     out_bind (plain_add base (index * unat (id_stride d))) (\<lambda>at.
       out_bind (ok_or (StopOutOfBounds at) (read at (record_bytes d))) (\<lambda>bytes.
         out_bind (records_words read d base max_size rest) (\<lambda>(ws, drawn).
           case draw_words d (words_of bytes) (word_of_nat index) max_size of
             None \<Rightarrow> Ok (ws, drawn)
           | Some w \<Rightarrow> Ok (w @ ws, drawn + 1))))"

definition draw_count :: "(u64 \<Rightarrow> nat \<Rightarrow> byte list option) \<Rightarrow> Count \<Rightarrow> (Stop, nat) outcome" where
  "draw_count read c =
     (case c of
        PacketCount n \<Rightarrow> Ok (unat n)
      | MemoryCount most at \<Rightarrow> out_bind (ok_or (StopOutOfBounds at) (read at 4)) (\<lambda>bytes. Ok (min (unat (dword bytes)) (unat most))))"

definition indirect_words ::
  "(u64 \<Rightarrow> nat \<Rightarrow> byte list option) \<Rightarrow> byte list \<Rightarrow> nat \<Rightarrow> nat \<Rightarrow> u32 list \<Rightarrow> (Stop, u32 list \<times> nat) outcome" where
  "indirect_words read stream offset opcode body =
     out_bind (decode_draw opcode body) (\<lambda>d.
       out_bind (ok_or StopMalformed (indirect_base stream offset)) (\<lambda>b.
         out_bind (plain_add b (unat (id_data_offset d))) (\<lambda>base.
           out_bind (draw_count read (id_count d)) (\<lambda>count.
             records_words read d base (if id_indexed d then index_buffer_size stream offset else 0) [0..<count]))))"

definition indirect_draw_run :: "'m CpMemory \<Rightarrow> byte list \<Rightarrow> nat \<Rightarrow> nat \<Rightarrow> u32 list \<Rightarrow> 'm handler" where
  "indirect_draw_run ops stream offset opcode body cp =
     (case indirect_words (cm_read ops (cp_memory cp)) stream offset opcode body of
        Err e \<Rightarrow> (cp, Err e)
      | Panic \<Rightarrow> (cp, Panic)
      | Ok (ws, drawn) \<Rightarrow>
          if drawn = 0 then (cp, Ok ())
          else case get_range stream 0 offset of
                 None \<Rightarrow> (cp, Err StopMalformed)
               | Some prefix \<Rightarrow>
                   let drawn_stream = prefix @ dword_bytes ws in
                   if U32_LIMIT < length drawn_stream then (cp, Err StopMalformed)
                   else let (ran, m) = cm_run_draws ops
                              \<lparr>ds_stream = drawn_stream, ds_first = offset, ds_end = length drawn_stream, ds_whole = False\<rparr> (cp_memory cp);
                            cp = cp\<lparr>cp_memory := m\<rparr>
                        in if ran then carried (\<lambda>r. r\<lparr>ex_draws := ex_draws r + drawn\<rparr>) cp else (cp, Err StopNeedsGpu))"

section \<open>Carrying a stream out\<close>

definition CONTEXT_CONTROL :: nat where "CONTEXT_CONTROL = 0x28"
definition WRITE_DATA :: nat where "WRITE_DATA = 0x37"

definition carry_out :: "'m CpMemory \<Rightarrow> byte list \<Rightarrow> nat \<Rightarrow> nat \<Rightarrow> u32 list \<Rightarrow> 'm handler" where
  "carry_out ops stream offset opcode body =
     (if opcode = DMA_DATA then dma_data ops body
      else if opcode = RELEASE_MEM then release_mem ops body
      else if opcode = WAIT_REG_MEM then wait_reg_mem ops body
      else if opcode = WAIT_REG_MEM64 then wait_reg_mem64 ops body
      else if opcode = CONTEXT_CONTROL then context_control body
      else if opcode = DISPATCH_DIRECT then cp_dispatch_direct ops stream offset body
      else if opcode = DISPATCH_INDIRECT then dispatch_indirect ops stream offset body
      else if opcode = WRITE_DATA then write_data ops body
      else if opcode = EVENT_WRITE then event_write ops body
      else if opcode = STRMOUT_BUFFER_UPDATE then streamout_update ops body
      else indirect_draw_run ops stream offset opcode body)"

definition stopped_at :: "nat \<Rightarrow> nat \<Rightarrow> Stop \<Rightarrow> Stopped" where
  "stopped_at offset opcode stop =
     (case stop of
        StopNeedsGpu \<Rightarrow> NeedsGpu offset opcode
      | StopOutOfBounds a \<Rightarrow> OutOfBounds offset opcode a
      | StopWait a reference observed \<Rightarrow> WaitNeverSatisfied offset a reference observed
      | StopMalformed \<Rightarrow> Malformed offset)"

definition halt :: "Stopped \<Rightarrow> byte list \<Rightarrow> 'm Cp \<Rightarrow> 'm Cp" where
  "halt stop bytes cp =
     cp\<lparr>cp_result := (cp_result cp)\<lparr>ex_stopped := stop,
          ex_stopped_body := (case stop of NeedsGpu _ _ \<Rightarrow> body_head bytes | _ \<Rightarrow> ex_stopped_body (cp_result cp))\<rparr>\<rparr>"

definition packet_bytes :: "byte list \<Rightarrow> Packet \<Rightarrow> byte list" where
  "packet_bytes stream p = or_empty (get_range stream (body_offset p) (body_offset p + body_length p))"

text \<open>The next segment is carried out at its first draw; a later draw of it is already drawn.\<close>

definition run_segment :: "'m CpMemory \<Rightarrow> DrawSegment list \<Rightarrow> nat \<Rightarrow> 'm \<Rightarrow> DrawSegment list \<times> bool \<times> 'm" where
  "run_segment ops segments offset m =
     (case segments of
        s # rest \<Rightarrow> if ds_first s = offset then (rest, cm_run_draws ops s m) else (segments, True, m)
      | [] \<Rightarrow> (segments, True, m))"

text \<open>The loop over the packets: the segments not yet drawn, the packets to come.\<close>

fun run_packets ::
  "'m CpMemory \<Rightarrow> byte list \<Rightarrow> DrawSegment list \<Rightarrow> Packet list \<Rightarrow> 'm Cp \<Rightarrow> (unit, 'm Cp) outcome" where
  "run_packets ops stream segments [] cp = Ok cp"
| "run_packets ops stream segments (p # ps) cp =
     (let offset = pk_offset p; bytes = packet_bytes stream p in
      case pk_kind p of
        RegisterWrite _ \<Rightarrow> run_packets ops stream segments ps cp
      | Filler \<Rightarrow> run_packets ops stream segments ps cp
      | Reserved \<Rightarrow> Ok (halt (Malformed offset) bytes cp)
      | Command opcode \<Rightarrow>
          if is_memory_inert opcode (length bytes div 4) then run_packets ops stream segments ps cp
          else if is_draw opcode
          then let (segments, ran, m) = run_segment ops segments offset (cp_memory cp);
                   cp = cp\<lparr>cp_memory := m\<rparr>
               in if \<not> ran then Ok (halt (NeedsGpu offset opcode) bytes cp)
                  else run_packets ops stream segments ps
                         (fst (carried (\<lambda>r. r\<lparr>ex_draws := ex_draws r + 1\<rparr>) (after_packet True cp)))
          else let (cp, step) = carry_out ops stream offset opcode (words_of bytes) cp
               in case step of
                    Ok _ \<Rightarrow> run_packets ops stream segments ps (after_packet True cp)
                  | Err stop \<Rightarrow> Ok (halt (stopped_at offset opcode stop) bytes (after_packet False cp))
                  | Panic \<Rightarrow> Panic)"

definition execute_from :: "'m CpMemory \<Rightarrow> byte list \<Rightarrow> nat \<Rightarrow> 'm \<Rightarrow> CpReports \<Rightarrow> (unit, 'm Cp) outcome" where
  "execute_from ops stream from m reports =
     (let cp = \<lparr>cp_memory = m, cp_result = cp_execution_default, cp_reports = reports\<rparr>; walked = packet_walk stream
      in if \<not> is_trustworthy walked then Ok (halt (Malformed 0) [] cp)
         else run_packets ops stream (dropWhile (\<lambda>s. ds_first s < from) (draw_segments stream (pw_packets walked)))
                (filter (\<lambda>p. from \<le> pk_offset p) (pw_packets walked)) cp)"

definition execute :: "'m CpMemory \<Rightarrow> byte list \<Rightarrow> 'm \<Rightarrow> CpReports \<Rightarrow> (unit, 'm Cp) outcome" where
  "execute ops stream m reports = execute_from ops stream 0 m reports"

section \<open>What a stream writes, from its packets alone\<close>

record HeldWrite =
  hw_offset :: nat
  hw_opcode :: nat
  hw_address :: u64

definition held_write_of :: "byte list \<Rightarrow> Packet \<Rightarrow> HeldWrite option" where
  "held_write_of stream p =
     (case (pk_kind p, map_option words_of (get_range stream (body_offset p) (body_offset p + body_length p))) of
        (Command opcode, Some body) \<Rightarrow>
          if opcode = RELEASE_MEM \<and> 4 \<le> length body \<and> drop_bit 29 (body ! 1) \<noteq> DATA_SEL_DISCARD
          then Some \<lparr>hw_offset = pk_offset p, hw_opcode = opcode, hw_address = address (body ! 2) (body ! 3)\<rparr>
          else if opcode = WRITE_DATA \<and> 3 \<le> length body \<and> drop_bit 8 (body ! 0) AND 0xf \<in> set WRITE_DATA_DST_SEL_MEMORY
          then Some \<lparr>hw_offset = pk_offset p, hw_opcode = opcode, hw_address = address (body ! 1 AND NOT 3) (body ! 2)\<rparr>
          else None
      | _ \<Rightarrow> None)"

definition held_writes :: "byte list \<Rightarrow> nat \<Rightarrow> HeldWrite list" where
  "held_writes stream from =
     (let walked = packet_walk stream
      in if \<not> is_trustworthy walked then []
         else List.map_filter (held_write_of stream) (filter (\<lambda>p. from \<le> pk_offset p) (pw_packets walked)))"

definition command_span :: "nat \<Rightarrow> u32 list \<Rightarrow> (u64 \<times> u64) option" where
  "command_span opcode body =
     (if opcode = WRITE_DATA
      then if 3 \<le> length body \<and> drop_bit 8 (body ! 0) AND 0xf \<in> set WRITE_DATA_DST_SEL_MEMORY
           then let data = drop 3 body;
                    n = (if body ! 0 AND WRITE_DATA_NO_INCREMENT \<noteq> 0 then min (length data) 1 else length data)
                in Some (address (body ! 1 AND NOT 3) (body ! 2), n * 4)
           else None
      else if opcode = DMA_DATA
      then case decode_dma_data body of Ok dma \<Rightarrow> Some (dm_destination dma, dm_count dma) | _ \<Rightarrow> None
      else if opcode = RELEASE_MEM
      then if 4 \<le> length body
           then let sel = drop_bit 29 (body ! 1) in
                if sel = DATA_SEL_VALUE_32BIT then Some (address (body ! 2) (body ! 3), 4)
                else if sel = DATA_SEL_VALUE_64BIT \<or> sel = DATA_SEL_TIMESTAMP then Some (address (body ! 2) (body ! 3), 8)
                else None
           else None
      else None)"

definition packet_span :: "byte list \<Rightarrow> Packet \<Rightarrow> (u64 \<times> u64) option" where
  "packet_span stream p =
     (case (pk_kind p, map_option words_of (get_range stream (body_offset p) (body_offset p + body_length p))) of
        (Command opcode, Some body) \<Rightarrow>
          (case command_span opcode body of Some span \<Rightarrow> if 0 < snd span then Some span else None | None \<Rightarrow> None)
      | _ \<Rightarrow> None)"

definition written_spans :: "byte list \<Rightarrow> (u64 \<times> u64) list" where
  "written_spans stream =
     (let walked = packet_walk stream
      in if \<not> is_trustworthy walked then [] else List.map_filter (packet_span stream) (pw_packets walked))"

end
