(* ===== verification/Command_Work.thy ===== *)
theory Command_Work
  imports Command_Processor
begin

text \<open>
  What carrying a stream out does to memory. The first part is the contract a memory keeps with the
  command processor, as locales over the record of \<^verbatim>\<open>CpMemory\<close>; the second is guest memory as the driver
  has it (\<^verbatim>\<open>orbistoun-gpu/src/agc_driver.rs\<close>: \<^verbatim>\<open>GuestCp\<close>, \<^verbatim>\<open>MappedRegions\<close>), shown to keep it; then the
  properties that rest on it.
\<close>

section \<open>What a memory promises\<close>

text \<open>A memory with bytes to read and write. It answers a read with the bytes there, and a write it does not
  refuse changes those bytes and no other.\<close>

locale cp_bytes =
  fixes rd :: "'m \<Rightarrow> u64 \<Rightarrow> nat \<Rightarrow> byte list option"
    and wr :: "u64 \<Rightarrow> byte list \<Rightarrow> 'm \<Rightarrow> bool \<times> 'm"
    and clock :: "'m \<Rightarrow> u64 \<times> 'm"
    and view :: "'m \<Rightarrow> memory"
  assumes rd_view: "rd m at n = Some bs \<Longrightarrow> bs = map (view m) [at ..< at + n]"
    and wr_view: "wr at bs m = (ok, m') \<Longrightarrow> view m' = (if ok then store at bs (view m) else view m)"
    and clock_view: "clock m = (t, m') \<Longrightarrow> view m' = view m"

text \<open>A whole memory: fills and copies besides, and the rest leaves its bytes alone.\<close>

locale cp_store =
  fixes ops :: "'m CpMemory" and view :: "'m \<Rightarrow> memory"
  assumes read_view: "cm_read ops m at n = Some bs \<Longrightarrow> bs = map (view m) [at ..< at + n]"
    and write_view: "cm_write ops at bs m = (ok, m') \<Longrightarrow> view m' = (if ok then store at bs (view m) else view m)"
    and fill_view: "cm_fill ops at p n m = (ok, m') \<Longrightarrow> view m' = (if ok then store at (pattern_bytes p n) (view m) else view m)"
    and copy_view: "cm_copy ops from to n m = (ok, m') \<Longrightarrow>
          view m' = (if ok then store to (map (view m) [from ..< from + n]) (view m) else view m)"
    and stamp_view: "cm_timestamp ops m = (t, m') \<Longrightarrow> view m' = view m"
    and released_view: "view (cm_released ops at c m) = view m"

context cp_bytes
begin

lemma default_fill_view:
  "default_fill wr at p n m = (ok, m') \<Longrightarrow> view m' = (if ok then store at (pattern_bytes p n) (view m) else view m)"
  unfolding default_fill_def by (rule wr_view)

lemma default_copy_view:
  "default_copy rd wr from to n m = (ok, m') \<Longrightarrow>
   view m' = (if ok then store to (map (view m) [from ..< from + n]) (view m) else view m)"
  unfolding default_copy_def by (auto split: option.splits dest!: rd_view dest: wr_view)

end

sublocale cp_bytes \<subseteq> dflt: cp_store "default_memory rd wr clock" view
  by unfold_locales (simp_all add: default_memory_def rd_view wr_view clock_view default_fill_view default_copy_view)

section \<open>What a command of the processor's own changes\<close>

definition covers :: "(u64 \<times> u64) option \<Rightarrow> u64 \<Rightarrow> bool" where
  "covers span a \<longleftrightarrow> (case span of Some (at, n) \<Rightarrow> at \<le> a \<and> a < at + n | None \<Rightarrow> False)"

definition own_opcode :: "nat \<Rightarrow> bool" where
  "own_opcode opcode \<longleftrightarrow> opcode \<notin> {DISPATCH_DIRECT, DISPATCH_INDIRECT, EVENT_WRITE, STRMOUT_BUFFER_UPDATE} \<and>
     \<not> is_draw opcode \<and> \<not> is_indirect_draw opcode"

definition own_work :: "byte list \<Rightarrow> Packet \<Rightarrow> bool" where
  "own_work stream p \<longleftrightarrow>
     (case pk_kind p of Command opcode \<Rightarrow> own_opcode opcode \<or> is_memory_inert opcode (length (packet_bytes stream p) div 4) | _ \<Rightarrow> True)"

lemma length_pattern_bytes [simp]: "length (pattern_bytes p n) = n"
proof -
  have "n \<le> div_ceil n 4 * 4" using div_ceil_bounds(1) [of 4 n] by simp
  moreover have "length (concat (replicate k (to_le 4 (unat p)))) = k * 4" for k by (induction k) auto
  ultimately show ?thesis by (simp add: pattern_bytes_def)
qed

lemma covers_None [simp]: "\<not> covers None a"
  by (simp add: covers_def)

lemma command_span_Nil: "command_span opcode (words_of []) = None"
  by (simp add: command_span_def words_of_def decode_dma_data_def)

lemma covers_positive:
  "covers (case span of Some s \<Rightarrow> if 0 < snd s then Some s else None | None \<Rightarrow> None) a \<longleftrightarrow> covers span a"
  by (auto simp: covers_def split: option.splits)

lemma packet_span_covers:
  "pk_kind p = Command opcode \<Longrightarrow> covers (packet_span stream p) a \<longleftrightarrow> covers (command_span opcode (words_of (packet_bytes stream p))) a"
  by (cases "get_range stream (body_offset p) (body_offset p + body_length p)")
    (simp_all add: packet_span_def packet_bytes_def or_empty_def command_span_Nil covers_positive)

lemma carried_memory [simp]: "cp_memory (fst (carried f cp)) = cp_memory cp" "snd (carried f cp) = Ok ()"
  by (simp_all add: carried_def)

lemma note_landing_memory: "cp_memory (fst (note_landing dma cp)) = cp_memory cp"
  by (simp add: note_landing_def Let_def)

lemma wait_on_memory [simp]: "cp_memory (fst (wait_on f a v r cp)) = cp_memory cp"
  by (simp add: wait_on_def split: option.splits)

context cp_store
begin

lemma store_outside: "\<not> covers (Some (at, length bs)) a \<Longrightarrow> store at bs m a = m a"
  by (auto simp: covers_def store_def)

lemma dma_move_frame:
  assumes "dma_move ops dma m = Some (ok, m')" "\<not> covers (Some (dm_destination dma, dm_count dma)) a"
  shows "view m' a = view m a"
proof -
  have s: "store (dm_destination dma) bs (view m) a = view m a" if "length bs = dm_count dma" for bs
    using assms(2) that by (intro store_outside) simp
  show ?thesis
    using assms(1) s
    by (auto simp: dma_move_def Let_def split: if_splits option.splits dest!: fill_view copy_view)
qed

lemma dma_frame:
  assumes "\<not> covers (command_span DMA_DATA body) a"
  shows "view (cp_memory (fst (dma_data ops body cp))) a = view (cp_memory cp) a"
proof (cases "dma_prefetch ops body (cp_memory cp)")
  case None
  show ?thesis
  proof (cases "decode_dma_data body")
    case (Ok dma)
    have out: "\<not> covers (Some (dm_destination dma, dm_count dma)) a"
      using assms Ok by (simp add: command_span_def opcode_defs WRITE_DATA_def)
    show ?thesis
    proof (cases "dma_move ops dma (cp_memory cp)")
      case None
      then show ?thesis using Ok \<open>dma_prefetch ops body (cp_memory cp) = None\<close> by (simp add: dma_data_def)
    next
      case (Some res)
      obtain ok m' where d: "res = (ok, m')" by fastforce
      have "cp_memory (fst (dma_data ops body cp)) = m'"
        using Ok Some d \<open>dma_prefetch ops body (cp_memory cp) = None\<close> note_landing_memory [of dma "cp\<lparr>cp_memory := m'\<rparr>"]
        by (auto simp: dma_data_def Let_def case_prod_unfold)
      then show ?thesis using dma_move_frame [OF Some [unfolded d] out] by simp
    qed
  qed (simp_all add: dma_data_def None)
qed (simp add: dma_data_def)

lemma released_bytes_view:
  assumes "released_bytes ops sel low high m = Some (bs, m')"
  shows "view m' = view m"
    "length bs = (if sel = DATA_SEL_DISCARD then 0 else if sel = DATA_SEL_VALUE_32BIT then 4 else 8)"
    "sel \<in> {DATA_SEL_DISCARD, DATA_SEL_VALUE_32BIT, DATA_SEL_VALUE_64BIT, DATA_SEL_TIMESTAMP}"
  using assms by (auto simp: released_bytes_def Let_def case_prod_unfold stamp_view [OF prod.collapse [symmetric]] split: if_splits)

lemma release_frame:
  assumes "\<not> covers (command_span RELEASE_MEM body) a"
  shows "view (cp_memory (fst (release_mem ops body cp))) a = view (cp_memory cp) a"
proof (cases "length body < 6")
  case True
  then show ?thesis by (simp add: release_mem_def)
next
  case False
  let ?sel = "drop_bit 29 (body ! 1)" let ?at = "address (body ! 2) (body ! 3)"
  show ?thesis
  proof (cases "released_bytes ops ?sel (body ! 4) (body ! 5) (cp_memory cp)")
    case None
    then show ?thesis using False by (simp add: release_mem_def)
  next
    case (Some res)
    obtain bs m where r: "res = (bs, m)" by fastforce
    note v = released_bytes_view [OF Some [unfolded r]]
    obtain ok m' where w: "(if bs \<noteq> [] then cm_write ops ?at bs m else (True, m)) = (ok, m')" by fastforce
    have "view (cp_memory (fst (release_mem ops body cp))) = view m'"
      using False Some r w by (auto simp: release_mem_def Let_def released_view)
    moreover have "view m' a = view m a"
    proof (cases "bs = []")
      case True
      then show ?thesis using w by simp
    next
      case False
      then have "\<not> covers (Some (?at, length bs)) a"
        using assms \<open>\<not> length body < 6\<close> v(2,3)
        by (auto simp: command_span_def opcode_defs WRITE_DATA_def Let_def DATA_SEL_DISCARD_def DATA_SEL_VALUE_32BIT_def
            DATA_SEL_VALUE_64BIT_def DATA_SEL_TIMESTAMP_def split: if_splits)
      then show ?thesis using w False write_view [of ?at bs m ok m'] store_outside by simp
    qed
    ultimately show ?thesis using v(1) by simp
  qed
qed

lemma write_data_frame:
  assumes "\<not> covers (command_span WRITE_DATA body) a"
  shows "view (cp_memory (fst (write_data ops body cp))) a = view (cp_memory cp) a"
proof (cases "length body < 3 \<or> drop_bit 8 (body ! 0) AND 0xf = WRITE_DATA_DST_SEL_REGISTER \<or>
    drop_bit 8 (body ! 0) AND 0xf \<notin> set WRITE_DATA_DST_SEL_MEMORY")
  case True
  then show ?thesis by (auto simp: write_data_def Let_def)
next
  case False
  let ?data = "drop 3 body" let ?at = "address (body ! 1 AND NOT 3) (body ! 2)"
  let ?ws = "if body ! 0 AND WRITE_DATA_NO_INCREMENT \<noteq> 0 then (if ?data = [] then [] else [last ?data]) else ?data"
  obtain ok m' where w: "(if dword_bytes ?ws \<noteq> [] then cm_write ops ?at (dword_bytes ?ws) (cp_memory cp) else (True, cp_memory cp)) = (ok, m')"
    by fastforce
  have "cp_memory (fst (write_data ops body cp)) = m'"
    using False w by (auto simp: write_data_def Let_def split: if_splits)
  moreover have len: "length (dword_bytes ?ws) = (if body ! 0 AND WRITE_DATA_NO_INCREMENT \<noteq> 0 then min (length ?data) 1 else length ?data) * 4"
    by (cases "?data = []") (auto simp: Suc_le_eq)
  have "\<not> covers (Some (?at, length (dword_bytes ?ws))) a"
    unfolding len using assms False by (simp add: command_span_def Let_def)
  then have "view m' a = view (cp_memory cp) a"
    using w write_view [of ?at "dword_bytes ?ws" "cp_memory cp" ok m'] store_outside by (simp split: if_splits)
  ultimately show ?thesis by simp
qed

lemma carry_out_frame:
  assumes "own_opcode opcode" "\<not> covers (command_span opcode body) a"
  shows "view (cp_memory (fst (carry_out ops stream offset opcode body cp))) a = view (cp_memory cp) a"
proof -
  have "decode_draw opcode body = Err StopNeedsGpu"
    using assms(1) by (auto simp: own_opcode_def decode_draw_def is_indirect_draw_def)
  then have "indirect_draw_run ops stream offset opcode body cp = (cp, Err StopNeedsGpu)"
    by (simp add: indirect_draw_run_def indirect_words_def)
  moreover have "cp_memory (fst (wait_reg_mem ops body cp)) = cp_memory cp" "cp_memory (fst (wait_reg_mem64 ops body cp)) = cp_memory cp"
    "cp_memory (fst (context_control body cp)) = cp_memory cp"
    by (simp_all add: wait_reg_mem_def wait_reg_mem64_def context_control_def Let_def split: option.splits)
  ultimately show ?thesis
    using assms dma_frame [of body a cp] release_frame [of body a cp] write_data_frame [of body a cp]
    by (auto simp: carry_out_def own_opcode_def)
qed

lemma run_packets_frame:
  assumes "run_packets ops stream segments ps cp = Ok cp'" "\<forall>p \<in> set ps. own_work stream p"
    "\<forall>span \<in> set (List.map_filter (packet_span stream) ps). \<not> covers (Some span) a"
  shows "view (cp_memory cp') a = view (cp_memory cp) a"
  using assms
proof (induction ps arbitrary: segments cp)
  case Nil
  then show ?case by simp
next
  case (Cons p ps)
  have rest: "\<forall>p \<in> set ps. own_work stream p" "\<forall>span \<in> set (List.map_filter (packet_span stream) ps). \<not> covers (Some span) a"
    using Cons.prems by (auto simp: map_filter_simps split: option.splits)
  show ?case
  proof (cases "pk_kind p")
    case (Command opcode)
    let ?bytes = "packet_bytes stream p" let ?body = "words_of ?bytes"
    show ?thesis
    proof (cases "is_memory_inert opcode (length ?bytes div 4)")
      case True
      then show ?thesis using Cons.IH [OF _ rest] Cons.prems(1) Command by simp
    next
      case False
      then have own: "own_opcode opcode" "\<not> is_draw opcode" using Cons.prems(2) Command by (auto simp: own_work_def own_opcode_def)
      have out: "\<not> covers (command_span opcode ?body) a"
        using Cons.prems(3) packet_span_covers [of p opcode stream a] Command by (auto simp: map_filter_simps split: option.splits)
      obtain cp1 step where step: "carry_out ops stream (pk_offset p) opcode ?body cp = (cp1, step)" by fastforce
      have same: "view (cp_memory cp1) a = view (cp_memory cp) a" using carry_out_frame [OF own(1) out, of stream "pk_offset p" cp] step by simp
      then show ?thesis
        using Cons.IH [OF _ rest, of segments "after_packet True cp1"] Cons.prems(1) Command False own(2) step
        by (cases step) (auto simp: Let_def halt_def after_packet_def)
    qed
  qed (use Cons.IH [OF _ rest] Cons.prems(1) in \<open>auto simp: halt_def\<close>)
qed

lemma execute_frame:
  assumes "execute_from ops stream from m reports = Ok cp" "\<forall>p \<in> set (pw_packets (packet_walk stream)). own_work stream p"
    "\<forall>span \<in> set (written_spans stream). \<not> covers (Some span) a"
  shows "view (cp_memory cp) a = view m a"
proof (cases "is_trustworthy (packet_walk stream)")
  case False
  then show ?thesis using assms(1) by (auto simp: execute_from_def halt_def)
next
  case True
  have "\<forall>span \<in> set (List.map_filter (packet_span stream) (filter (\<lambda>p. from \<le> pk_offset p) (pw_packets (packet_walk stream)))). \<not> covers (Some span) a"
    using assms(3) True by (auto simp: written_spans_def List.map_filter_def)
  then show ?thesis
    using run_packets_frame [OF assms(1) [unfolded execute_from_def Let_def if_not_P [OF True [THEN not_not [THEN iffD2]]]]] assms(2) by simp
qed

end

section \<open>Guest memory\<close>

text \<open>
  What the host installs: the regions set at entry, the lookups that vouch for a range to be read or
  written, the clock, the device's sample counter, and what draws and dispatches do. Copies and fills put
  off and frames still on the device are not modelled, so each access is the plain one the source comes to
  when there are none; page protections put back before a write change no byte.
\<close>

record GuestCp =
  gc_memory :: memory
  gc_stamps :: nat
  gc_released :: "(u64 \<times> u32) list"
  gc_offsets :: Offsets
  gc_written :: "u64 list"
  gc_needed :: "u64 list"

record Host =
  ho_regions :: "(u64 \<times> u64) list"
  ho_region_lookup :: "(u64 \<Rightarrow> u64 \<Rightarrow> bool) option"
  ho_write_lookup :: "(u64 \<Rightarrow> u64 \<Rightarrow> bool) option"
  ho_elapsed :: "nat \<Rightarrow> nat"
  ho_samples :: "GuestCp \<Rightarrow> u64 option"
  ho_draw :: "DrawSegment \<Rightarrow> GuestCp \<Rightarrow> bool \<times> GuestCp"
  ho_dispatch :: "Dispatch \<Rightarrow> GuestCp \<Rightarrow> bool \<times> GuestCp"
  ho_unready :: "GuestCp \<Rightarrow> u64 option \<times> GuestCp"
  ho_program :: "byte list \<Rightarrow> nat \<Rightarrow> u64 option"

definition vouched :: "(u64 \<Rightarrow> u64 \<Rightarrow> bool) option \<Rightarrow> u64 \<Rightarrow> u64 \<Rightarrow> bool" where
  "vouched lookup at n = (case lookup of Some allows \<Rightarrow> allows at n | None \<Rightarrow> False)"

definition regions_contain :: "Host \<Rightarrow> u64 \<Rightarrow> nat \<Rightarrow> bool" where
  "regions_contain h at n =
     (case checked_add at n of
        None \<Rightarrow> False
      | Some stop \<Rightarrow> (\<exists>(start, region_stop) \<in> set (ho_regions h). start \<le> at \<and> stop \<le> region_stop) \<or> vouched (ho_region_lookup h) at n)"

definition mapped_read :: "Host \<Rightarrow> memory \<Rightarrow> u64 \<Rightarrow> nat \<Rightarrow> byte list option" where
  "mapped_read h m at n = (if n = 0 \<or> \<not> regions_contain h at n then None else Some (map m [at ..< at + n]))"

definition write_guest :: "Host \<Rightarrow> u64 \<Rightarrow> byte list \<Rightarrow> memory \<Rightarrow> bool \<times> memory" where
  "write_guest h at bs m = (if \<not> vouched (ho_write_lookup h) at (length bs) then (False, m) else (True, store at bs m))"

text \<open>Whole words first, then what is left of the pattern's bytes.\<close>

definition fill_guest :: "Host \<Rightarrow> u64 \<Rightarrow> u64 \<Rightarrow> u32 \<Rightarrow> memory \<Rightarrow> bool \<times> memory" where
  "fill_guest h at n pattern m =
     (if \<not> vouched (ho_write_lookup h) at n then (False, m)
      else let whole = n - n mod 4; bytes = to_le 4 (unat pattern)
           in (True, store (at + whole) (take (n mod 4) bytes) (store at (concat (replicate (whole div 4) bytes)) m)))"

definition copy_guest :: "Host \<Rightarrow> u64 \<Rightarrow> u64 \<Rightarrow> nat \<Rightarrow> memory \<Rightarrow> bool \<times> memory" where
  "copy_guest h from to n m =
     (if \<not> vouched (ho_write_lookup h) to n then (False, m)
      else case mapped_read h m from n of None \<Rightarrow> (False, m) | Some bytes \<Rightarrow> (True, store to bytes m))"

definition on_memory :: "(memory \<Rightarrow> bool \<times> memory) \<Rightarrow> GuestCp \<Rightarrow> bool \<times> GuestCp" where
  "on_memory f g = (let (ok, m) = f (gc_memory g) in (ok, g\<lparr>gc_memory := m\<rparr>))"

definition guest_timestamp :: "Host \<Rightarrow> GuestCp \<Rightarrow> u64 \<times> GuestCp" where
  "guest_timestamp h g =
     (let nanos = ho_elapsed h (gc_stamps g)
      in (saturating_add (if nanos \<le> U64_MAX then nanos else U64_MAX - 1) 1, g\<lparr>gc_stamps := gc_stamps g + 1\<rparr>))"

definition guest_streamout_stats :: "nat \<Rightarrow> GuestCp \<Rightarrow> (u64 \<times> u64) option \<times> GuestCp" where
  "guest_streamout_stats stream g =
     (if stream < length (gc_written g) \<and> stream < length (gc_needed g)
      then Some (gc_written g ! stream, gc_needed g ! stream) else None, g)"

definition guest_with_streamout :: "(Offsets \<Rightarrow> Offsets \<times> u32 option) \<Rightarrow> GuestCp \<Rightarrow> u32 option option \<times> GuestCp" where
  "guest_with_streamout edit g = (let (offsets, found) = edit (gc_offsets g) in (Some found, g\<lparr>gc_offsets := offsets\<rparr>))"

definition guest_cp :: "Host \<Rightarrow> GuestCp CpMemory" where
  "guest_cp h =
     \<lparr>cm_read = (\<lambda>g. mapped_read h (gc_memory g)), cm_write = (\<lambda>at bs. on_memory (write_guest h at bs)),
      cm_timestamp = guest_timestamp h, cm_released = (\<lambda>at c g. g\<lparr>gc_released := gc_released g @ [(at, c)]\<rparr>),
      cm_fill = (\<lambda>at p n. on_memory (fill_guest h at n p)), cm_copy = (\<lambda>from to n. on_memory (copy_guest h from to n)),
      cm_run_draws = ho_draw h, cm_run_dispatch = ho_dispatch h, cm_unready_dispatch = ho_unready h,
      cm_dispatch_program = (\<lambda>stream offset g. (ho_program h stream offset, g)),
      cm_samples_passed = (\<lambda>g. (ho_samples h g, g)), cm_streamout_stats = guest_streamout_stats,
      cm_with_streamout = guest_with_streamout\<rparr>"

lemma mapped_read_Some: "mapped_read h m at n = Some bs \<Longrightarrow> bs = map m [at ..< at + n]"
  by (auto simp: mapped_read_def split: if_splits)

interpretation gbytes: cp_bytes "\<lambda>g. mapped_read h (gc_memory g)" "\<lambda>at bs. on_memory (write_guest h at bs)" "guest_timestamp h" gc_memory
  for h
  by unfold_locales
    (auto simp: on_memory_def write_guest_def guest_timestamp_def Let_def dest: mapped_read_Some split: if_splits)

lemma store_store: "store (at + length a) b (store at a m) = store at (a @ b) m"
  by (rule ext) (auto simp: store_def nth_append)

lemma pattern_bytes_split:
  "pattern_bytes p n = concat (replicate (n div 4) (to_le 4 (unat p))) @ take (n mod 4) (to_le 4 (unat p))"
proof -
  let ?b = "to_le 4 (unat p)"
  have len: "length (concat (replicate k ?b)) = k * 4" for k by (induction k) auto
  have two: "concat (replicate (Suc k) ?b) = concat (replicate k ?b) @ ?b" for k by (induction k) auto
  show ?thesis
  proof (cases "n mod 4 = 0")
    case True
    then have "n = n div 4 * 4" using div_mult_mod_eq [of n 4] by simp
    then show ?thesis using True len [of "n div 4"] by (simp add: pattern_bytes_def div_ceil_def)
  next
    case False
    then have "n - n div 4 * 4 = n mod 4" by (simp add: minus_div_mult_eq_mod)
    then show ?thesis using False len [of "n div 4"] two [of "n div 4"] by (simp add: pattern_bytes_def div_ceil_def del: replicate_Suc)
  qed
qed

lemma fill_guest_write: "fill_guest h at n p = write_guest h at (pattern_bytes p n)"
proof
  fix m
  let ?w = "concat (replicate (n div 4) (to_le 4 (unat p)))"
  have "length (concat (replicate k (to_le 4 (unat p)))) = k * 4" for k by (induction k) auto
  then have "length ?w = n - n mod 4" by (simp add: minus_mod_eq_div_mult)
  moreover have "(n - n mod 4) div 4 = n div 4" by (simp add: minus_mod_eq_div_mult)
  ultimately show "fill_guest h at n p m = write_guest h at (pattern_bytes p n) m"
    using store_store [of at ?w "take (n mod 4) (to_le 4 (unat p))" m]
    by (simp add: fill_guest_def write_guest_def pattern_bytes_split [symmetric])
qed

lemma copy_guest_default:
  "on_memory (copy_guest h from to n) g =
   default_copy (\<lambda>g. mapped_read h (gc_memory g)) (\<lambda>at bs. on_memory (write_guest h at bs)) from to n g"
  by (auto simp: default_copy_def copy_guest_def write_guest_def on_memory_def dest: mapped_read_Some split: option.splits)

interpretation guest: cp_store "guest_cp h" gc_memory
  for h
proof
  fix m :: GuestCp and at n src dst c p bs ok m' t
  show "cm_read (guest_cp h) m at n = Some bs \<Longrightarrow> bs = map (gc_memory m) [at ..< at + n]"
    by (simp add: guest_cp_def mapped_read_Some)
  show "cm_write (guest_cp h) at bs m = (ok, m') \<Longrightarrow> gc_memory m' = (if ok then store at bs (gc_memory m) else gc_memory m)"
    unfolding guest_cp_def CpMemory.simps by (rule gbytes.wr_view)
  show "cm_fill (guest_cp h) at p n m = (ok, m') \<Longrightarrow> gc_memory m' = (if ok then store at (pattern_bytes p n) (gc_memory m) else gc_memory m)"
    unfolding guest_cp_def CpMemory.simps fill_guest_write by (rule gbytes.wr_view)
  show "cm_copy (guest_cp h) src dst n m = (ok, m') \<Longrightarrow>
      gc_memory m' = (if ok then store dst (map (gc_memory m) [src ..< src + n]) (gc_memory m) else gc_memory m)"
    unfolding guest_cp_def CpMemory.simps copy_guest_default by (rule gbytes.default_copy_view)
  show "cm_timestamp (guest_cp h) m = (t, m') \<Longrightarrow> gc_memory m' = gc_memory m"
    unfolding guest_cp_def CpMemory.simps by (rule gbytes.clock_view)
  show "gc_memory (cm_released (guest_cp h) at c m) = gc_memory m" by (simp add: guest_cp_def)
qed

section \<open>Properties\<close>

text \<open>Guest memory fills and copies in place just as it would by building the bytes and writing them: the
  same ranges are refused, and the same bytes are left.\<close>

theorem in_place_is_default:
  "cm_fill (guest_cp h) at p n g = default_fill (cm_write (guest_cp h)) at p n g \<and>
   cm_copy (guest_cp h) from to n g = default_copy (cm_read (guest_cp h)) (cm_write (guest_cp h)) from to n g"
  by (simp add: guest_cp_def default_fill_def fill_guest_write copy_guest_default)


section \<open>Carrying out built commands\<close>

lemma to_le_empty [simp]: "to_le n v = [] \<longleftrightarrow> n = 0"
  by (cases n) simp_all

lemma to_le_nth: "i < n \<Longrightarrow> to_le n v ! i = of_nat (v div 256 ^ i mod 256)"
proof (induction n arbitrary: i v)
  case 0
  then show ?case by simp
next
  case (Suc n)
  then show ?case by (cases i) (simp_all add: div_mult2_eq)
qed

lemma words_of_dword_bytes [simp]: "words_of (dword_bytes ws) = ws"
  by (simp add: words_of_def chunks_dword_bytes)

lemma packet_bytes_built:
  "packet_bytes (pre @ command_bytes c @ post) (built_packet (length pre) c) = dword_bytes (snd c)"
  by (simp add: packet_bytes_def built_packet_def body_offset_def body_length_def get_range_def or_empty_def command_bytes_def dword_bytes_Cons)

definition start :: "'m \<Rightarrow> CpReports \<Rightarrow> 'm Cp" where
  "start m reports = \<lparr>cp_memory = m, cp_result = cp_execution_default, cp_reports = reports\<rparr>"

lemma execute_built:
  assumes "\<forall>c \<in> set cs. command_ok c" "length (commands cs) \<le> U32_LIMIT"
  shows "execute ops (commands cs) m reports =
    run_packets ops (commands cs) (draw_segments (commands cs) (built_packets 0 cs)) (built_packets 0 cs) (start m reports)"
  by (simp add: execute_def execute_from_def walk_built [OF assms] is_trustworthy_def start_def Let_def)

definition settle_step :: "nat \<Rightarrow> nat \<Rightarrow> byte list \<Rightarrow> 'm Cp \<times> (Stop, unit) outcome \<Rightarrow> (unit, 'm Cp) outcome" where
  "settle_step offset opcode bytes res =
     (case snd res of
        Ok _ \<Rightarrow> Ok (after_packet True (fst res))
      | Err stop \<Rightarrow> Ok (halt (stopped_at offset opcode stop) bytes (after_packet False (fst res)))
      | Panic \<Rightarrow> Panic)"

lemma execute_one:
  assumes "command_ok (opcode, body)" "\<not> is_memory_inert opcode (length body)" "\<not> is_draw opcode"
  shows "execute ops (command_bytes (opcode, body)) m reports =
    settle_step 0 opcode (dword_bytes body) (carry_out ops (command_bytes (opcode, body)) 0 opcode body (start m reports))"
proof -
  have small: "length (commands [(opcode, body)]) \<le> U32_LIMIT" using assms(1) by (simp add: command_ok_def U32_LIMIT_def)
  have "execute ops (commands [(opcode, body)]) m reports =
      settle_step 0 opcode (dword_bytes body) (carry_out ops (commands [(opcode, body)]) 0 opcode body (start m reports))"
    using assms packet_bytes_built [of "[]" "(opcode, body)" "[]"]
    by (subst execute_built [OF _ small])
      (auto simp: Let_def built_packet_def settle_step_def case_prod_unfold split: outcome.splits)
  then show ?thesis by simp
qed

lemma execute_after_inert:
  assumes "command_ok c" "command_ok (opcode, body)" "is_memory_inert (fst c) (length (snd c))"
    "\<not> is_memory_inert opcode (length body)" "\<not> is_draw opcode"
  shows "execute ops (command_bytes c @ command_bytes (opcode, body)) m reports =
    settle_step (length (command_bytes c)) opcode (dword_bytes body)
      (carry_out ops (command_bytes c @ command_bytes (opcode, body)) (length (command_bytes c)) opcode body (start m reports))"
proof -
  let ?cs = "[c, (opcode, body)]" let ?s = "command_bytes c @ command_bytes (opcode, body)"
  have small: "length (commands ?cs) \<le> U32_LIMIT" using assms(1,2) by (simp add: command_ok_def U32_LIMIT_def)
  have b: "packet_bytes ?s (built_packet 0 c) = dword_bytes (snd c)"
    "packet_bytes ?s (built_packet (4 + 4 * length (snd c)) (opcode, body)) = dword_bytes body"
    using packet_bytes_built [of "[]" c "command_bytes (opcode, body)"] packet_bytes_built [of "command_bytes c" "(opcode, body)" "[]"] by simp_all
  have k: "pk_kind (built_packet off c) = Command (fst c)" "pk_offset (built_packet off c) = off" for off c
    by (simp_all add: built_packet_def)
  have "execute ops (commands ?cs) m reports =
    settle_step (length (command_bytes c)) opcode (dword_bytes body) (carry_out ops ?s (length (command_bytes c)) opcode body (start m reports))"
    using assms by (subst execute_built [OF _ small])
      (auto simp: Let_def k b settle_step_def case_prod_unfold split: outcome.splits)
  then show ?thesis by simp
qed

section \<open>Built packets, carried out\<close>

lemma address_split [simp]: "address (low32 d) (high32 d) = unat d"
proof (rule bit_eqI)
  fix n
  show "bit (address (low32 d) (high32 d)) n = bit (unat d) n"
    using bit_imp_le_length [of d n] by (auto simp: address_def bit_simps)
qed

lemma release_selectors:
  fixes a3 a6 a10 :: "64 word"
  defines "s \<equiv> low32 (push_bit 16 (a3 AND 3) OR push_bit 24 (a10 AND 7) OR push_bit 29 (a6 AND 7))"
  shows "drop_bit 29 s = low32 (a6 AND 7)" "drop_bit 24 s AND 7 = low32 (a10 AND 7)"
proof -
  have m: "(3 :: 64 word) = mask 2" "(7 :: 64 word) = mask 3" "(7 :: u32) = mask 3" by (simp_all add: mask_eq_exp_minus_1)
  show "drop_bit 29 s = low32 (a6 AND 7)" unfolding s_def m by (rule bit_word_eqI) (auto simp: bit_simps)
  show "drop_bit 24 s AND 7 = low32 (a10 AND 7)" unfolding s_def m by (rule bit_word_eqI) (auto simp: bit_simps)
qed

lemma low32_and7: "low32 (x AND 7) = 0 \<longleftrightarrow> x AND 7 = 0"
proof
  assume z: "low32 (x AND 7) = 0"
  have m: "(7 :: 64 word) = mask 3" by (simp add: mask_eq_exp_minus_1)
  show "x AND 7 = 0"
  proof (rule bit_word_eqI)
    fix n assume "n < LENGTH(64)"
    have "\<not> bit (low32 (x AND 7)) n" by (simp add: z)
    then show "bit (x AND 7) n = bit (0 :: 64 word) n" unfolding m by (auto simp: bit_simps)
  qed
qed simp


text \<open>A host that allows every access and counted five samples, and a guest with nothing in memory.\<close>

definition open_host :: Host where
  "open_host =
     \<lparr>ho_regions = [(0, U64_MAX)], ho_region_lookup = None, ho_write_lookup = Some (\<lambda>at n. True), ho_elapsed = (\<lambda>n. n),
      ho_samples = (\<lambda>g. Some 5), ho_draw = (\<lambda>s g. (False, g)), ho_dispatch = (\<lambda>d g. (False, g)), ho_unready = (\<lambda>g. (None, g)),
      ho_program = (\<lambda>s n. None)\<rparr>"

definition blank :: GuestCp where
  "blank = \<lparr>gc_memory = (\<lambda>a. 0), gc_stamps = 0, gc_released = [], gc_offsets = replicate 4 None,
     gc_written = replicate 4 0, gc_needed = replicate 4 0\<rparr>"

definition no_reports :: CpReports where
  "no_reports = \<lparr>re_empty_indirect = [], re_landings = [], re_released = [], re_packets_done = 0\<rparr>"

lemma open_write [simp]: "cm_write (guest_cp open_host) at bs g = (True, g\<lparr>gc_memory := store at bs (gc_memory g)\<rparr>)"
  by (simp add: guest_cp_def on_memory_def write_guest_def open_host_def vouched_def)

lemma start_simps [simp]: "cp_memory (start m r) = m" "cp_result (start m r) = cp_execution_default" "cp_reports (start m r) = r"
  by (simp_all add: start_def)

lemma dword_bytes_empty [simp]: "dword_bytes ws = [] \<longleftrightarrow> ws = []"
  by (metis length_dword_bytes length_0_conv mult_is_0 zero_neq_numeral)

lemma open_slots:
  "\<exists>cp'. write_slots (guest_cp open_host) slots cp = (cp', Ok ()) \<and> ex_stopped (cp_result cp') = ex_stopped (cp_result cp) \<and>
     ex_bytes_written (cp_result cp') = ex_bytes_written (cp_result cp) + 8 * length slots \<and>
     gc_memory (cp_memory cp') = fold (\<lambda>(at, v). store at (to_le 8 v)) slots (gc_memory (cp_memory cp))"
proof (induction slots arbitrary: cp)
  case Nil
  then show ?case by simp
next
  case (Cons slot slots)
  obtain at v where slot: "slot = (at, v)" by fastforce
  let ?cp = "fst (carried (\<lambda>r. r\<lparr>ex_bytes_written := ex_bytes_written r + 8\<rparr>)
    (cp\<lparr>cp_memory := (cp_memory cp)\<lparr>gc_memory := store at (to_le 8 v) (gc_memory (cp_memory cp))\<rparr>\<rparr>))"
  show ?case using Cons.IH [of ?cp] by (auto simp: slot carried_def)
qed

lemma slots_beyond:
  "\<forall>slot \<in> set slots. a < fst slot \<Longrightarrow> fold (\<lambda>(at, v). store at (to_le 8 v)) slots m a = m a"
proof (induction slots arbitrary: m)
  case Nil
  then show ?case by simp
next
  case (Cons slot slots)
  then show ?case by (cases slot) (simp add: store_other)
qed

lemma walk_one:
  "command_ok c \<Longrightarrow> packet_walk (command_bytes c) =
   \<lparr>pw_packets = [built_packet 0 c], pw_desynchronised = False, pw_overran = False, pw_trailing_bytes = 0\<rparr>"
  using walk_built [of "[c]"] by (simp add: command_ok_def U32_LIMIT_def)

lemma spans_one:
  assumes "command_ok c"
  shows "written_spans (command_bytes c) =
    (case command_span (fst c) (snd c) of Some span \<Rightarrow> if 0 < snd span then [span] else [] | None \<Rightarrow> [])"
proof -
  have "get_range (command_bytes c) (body_offset (built_packet 0 c)) (body_offset (built_packet 0 c) + body_length (built_packet 0 c)) = Some (dword_bytes (snd c))"
    by (simp add: get_range_def built_packet_def body_offset_def body_length_def command_bytes_def dword_bytes_Cons)
  moreover have "pk_kind (built_packet 0 c) = Command (fst c)" by (simp add: built_packet_def)
  ultimately show ?thesis
    by (simp add: written_spans_def walk_one [OF assms] is_trustworthy_def packet_span_def List.map_filter_def split: option.splits)
qed



text \<open>The spans read off a stream leave out what its events write: a stream whose one command dumps the depth
  counters writes sixteen of them when it is carried out, and is said to write nothing.\<close>

theorem event_writes_outside_spans:
  "\<exists>cp. execute (guest_cp open_host) (command_bytes (EVENT_WRITE, [0x115, 0x1000, 0])) blank no_reports = Ok cp \<and>
     ex_stopped (cp_result cp) = Completed \<and> ex_bytes_written (cp_result cp) = 128 \<and> gc_memory (cp_memory cp) 0x1000 = 5 \<and>
     gc_memory (cp_memory cp) 0x1007 = 0x80 \<and> written_spans (command_bytes (EVENT_WRITE, [0x115, 0x1000, 0])) = []"
proof -
  let ?c = "(EVENT_WRITE, [0x115, 0x1000, 0]) :: nat \<times> u32 list" let ?s = "command_bytes ?c"
  have ok: "command_ok ?c" by (simp add: command_ok_def opcode_defs)
  have ex: "execute (guest_cp open_host) ?s blank no_reports =
      settle_step 0 EVENT_WRITE (dword_bytes (snd ?c)) (event_write (guest_cp open_host) (snd ?c) (start blank no_reports))"
    using ok by (subst execute_one) (auto simp: shape_simps WRITE_DATA_def CONTEXT_CONTROL_def carry_out_def)
  have "cm_samples_passed (guest_cp open_host) blank = (Some 5, blank)" by (simp add: guest_cp_def open_host_def)
  then have ev: "event_write (guest_cp open_host) (snd ?c) (start blank no_reports) =
      write_slots (guest_cp open_host) (map (\<lambda>backend. (0x1000 + backend * 16, (if backend = 0 then 5 else 0) OR ZPASS_VALID)) [0..<16]) (start blank no_reports)"
    by (simp add: event_write_def stats_event_stream_def ZPASS_DONE_def ZPASS_BACKENDS_def address_def Let_def start_def del: upt_rec_numeral)
  define rest :: "(u64 \<times> u64) list" where
    "rest = map (\<lambda>backend. (0x1000 + backend * 16, (if backend = 0 then 5 else 0) OR ZPASS_VALID)) [1..<16]"
  have slots: "map (\<lambda>backend. (0x1000 + backend * 16, (if backend = 0 then 5 else 0) OR ZPASS_VALID)) [0..<16] = (0x1000, 5 OR ZPASS_VALID) # rest"
    by (subst upt_conv_Cons) (simp_all add: rest_def del: upt.simps upt_rec_numeral)
  have rest: "length rest = 15" "\<forall>slot \<in> set rest. 0x1007 < fst slot" by (auto simp: rest_def simp del: upt_rec_numeral)
  obtain cp where cp: "event_write (guest_cp open_host) (snd ?c) (start blank no_reports) = (cp, Ok ())" "ex_stopped (cp_result cp) = Completed"
    "ex_bytes_written (cp_result cp) = 128"
    "gc_memory (cp_memory cp) = fold (\<lambda>(at, v). store at (to_le 8 v)) rest (store 0x1000 (to_le 8 (5 OR ZPASS_VALID)) (gc_memory blank))"
    using open_slots [of "(0x1000, 5 OR ZPASS_VALID) # rest" "start blank no_reports"] ev rest(1) unfolding slots
    by (auto simp: cp_execution_default_def)
  have "gc_memory (cp_memory cp) a = store 0x1000 (to_le 8 (5 OR ZPASS_VALID)) (gc_memory blank) a" if "a \<le> 0x1007" for a
    unfolding cp(4) using rest(2) that by (intro slots_beyond) (auto intro: le_less_trans)
  then have "gc_memory (cp_memory cp) 0x1000 = 5" "gc_memory (cp_memory cp) 0x1007 = 0x80"
    by (simp_all add: store_def ZPASS_VALID_def to_le_nth)
  moreover have "written_spans ?s = []" unfolding spans_one [OF ok] by (simp add: command_span_def opcode_defs WRITE_DATA_def)
  ultimately show ?thesis using ex cp by (simp add: settle_step_def after_packet_def)
qed

section \<open>Waits\<close>

text \<open>No handler writes where execution stopped; only the loop does, when it stops.\<close>

lemma carried_stopped:
  "(\<And>r. ex_stopped (f r) = ex_stopped r) \<Longrightarrow> ex_stopped (cp_result (fst (carried f cp))) = ex_stopped (cp_result cp)"
  by (simp add: carried_def)

lemma note_landing_result [simp]: "cp_result (fst (note_landing dma cp)) = cp_result cp"
  by (simp add: note_landing_def Let_def)

lemma write_slots_stopped: "ex_stopped (cp_result (fst (write_slots ops slots cp))) = ex_stopped (cp_result cp)"
proof (induction slots arbitrary: cp)
  case Nil
  then show ?case by simp
next
  case (Cons slot slots)
  show ?case by (cases slot) (simp add: Cons.IH Let_def case_prod_unfold carried_def)
qed

lemma wait_on_stopped: "ex_stopped (cp_result (fst (wait_on f a v r cp))) = ex_stopped (cp_result cp)"
  by (simp add: wait_on_def carried_def split: option.splits)

lemmas handler_stopped = carried_stopped write_slots_stopped wait_on_stopped

lemma dma_data_stopped: "ex_stopped (cp_result (fst (dma_data ops body cp))) = ex_stopped (cp_result cp)"
  by (simp add: dma_data_def Let_def case_prod_unfold handler_stopped split: option.splits outcome.splits)

lemma release_mem_stopped: "ex_stopped (cp_result (fst (release_mem ops body cp))) = ex_stopped (cp_result cp)"
  by (simp add: release_mem_def Let_def case_prod_unfold handler_stopped split: option.splits)

lemma streamout_update_stopped: "ex_stopped (cp_result (fst (streamout_update ops body cp))) = ex_stopped (cp_result cp)"
  by (simp add: streamout_update_def Let_def case_prod_unfold handler_stopped split: option.splits outcome.splits)

lemma event_write_stopped: "ex_stopped (cp_result (fst (event_write ops body cp))) = ex_stopped (cp_result cp)"
  by (simp add: event_write_def Let_def case_prod_unfold handler_stopped split: option.splits)

lemma dispatch_stopped:
  "ex_stopped (cp_result (fst (cp_dispatch_direct ops stream off body cp))) = ex_stopped (cp_result cp)"
  "ex_stopped (cp_result (fst (dispatch_indirect ops stream off body cp))) = ex_stopped (cp_result cp)"
  by (simp_all add: cp_dispatch_direct_def dispatch_indirect_def run_dispatch_def count_dispatch_def Let_def case_prod_unfold handler_stopped
      split: option.splits outcome.splits)

lemma indirect_draw_stopped: "ex_stopped (cp_result (fst (indirect_draw_run ops stream off opcode body cp))) = ex_stopped (cp_result cp)"
  by (simp add: indirect_draw_run_def Let_def case_prod_unfold handler_stopped split: option.splits outcome.splits)

lemma wait_stopped:
  "ex_stopped (cp_result (fst (wait_reg_mem ops body cp))) = ex_stopped (cp_result cp)"
  "ex_stopped (cp_result (fst (wait_reg_mem64 ops body cp))) = ex_stopped (cp_result cp)"
  "ex_stopped (cp_result (fst (write_data ops body cp))) = ex_stopped (cp_result cp)"
  "ex_stopped (cp_result (fst (context_control body cp))) = ex_stopped (cp_result cp)"
  by (simp_all add: wait_reg_mem_def wait_reg_mem64_def write_data_def context_control_def Let_def case_prod_unfold handler_stopped
      split: option.splits)

lemma carry_out_stopped: "ex_stopped (cp_result (fst (carry_out ops stream off opcode body cp))) = ex_stopped (cp_result cp)"
  by (simp add: carry_out_def dma_data_stopped release_mem_stopped streamout_update_stopped event_write_stopped dispatch_stopped
      indirect_draw_stopped wait_stopped)

lemma run_packets_wait:
  assumes "run_packets ops stream segments ps cp = Ok cp'" "ex_stopped (cp_result cp) = Completed"
    "ex_stopped (cp_result cp') = WaitNeverSatisfied off a r obs"
  shows "\<exists>p \<in> set ps. \<exists>opcode cp0 cp1. pk_offset p = off \<and> pk_kind p = Command opcode \<and>
    \<not> is_memory_inert opcode (length (packet_bytes stream p) div 4) \<and> \<not> is_draw opcode \<and>
    carry_out ops stream off opcode (words_of (packet_bytes stream p)) cp0 = (cp1, Err (StopWait a r obs)) \<and> cp_memory cp' = cp_memory cp1"
  using assms(1,2)
proof (induction ps arbitrary: segments cp)
  case Nil
  then show ?case using assms(3) by simp
next
  case (Cons p ps)
  show ?case
  proof (cases "pk_kind p")
    case (Command opcode)
    let ?bytes = "packet_bytes stream p"
    show ?thesis
    proof (cases "is_memory_inert opcode (length ?bytes div 4) \<or> is_draw opcode")
      case True
      then show ?thesis
      proof (cases "is_memory_inert opcode (length ?bytes div 4)")
        case True
        then show ?thesis using Cons Command by auto
      next
        case False
        obtain segs' ran m where seg: "run_segment ops segments (pk_offset p) (cp_memory cp) = (segs', ran, m)" by (metis prod_cases3)
        have ran
        proof (rule ccontr)
          assume "\<not> ran"
          then have "cp' = halt (NeedsGpu (pk_offset p) opcode) ?bytes (cp\<lparr>cp_memory := m\<rparr>)"
            using Cons.prems(1) False True Command seg by (simp add: Let_def)
          then show False using assms(3) by (simp add: halt_def)
        qed
        then show ?thesis
          using Cons.IH [of segs' "fst (carried (\<lambda>r. r\<lparr>ex_draws := ex_draws r + 1\<rparr>) (after_packet True (cp\<lparr>cp_memory := m\<rparr>)))"]
            Cons.prems False True Command seg by (auto simp: Let_def carried_def after_packet_def)
      qed
    next
      case False
      obtain cp1 step where step: "carry_out ops stream (pk_offset p) opcode (words_of ?bytes) cp = (cp1, step)" by fastforce
      have c: "ex_stopped (cp_result cp1) = Completed" using carry_out_stopped [of ops stream "pk_offset p" opcode "words_of ?bytes" cp] step Cons.prems(2) by simp
      show ?thesis
      proof (cases step)
        case (Ok u)
        then show ?thesis using Cons.IH [of segments "after_packet True cp1"] Cons.prems(1) False Command step c
          by (auto simp: Let_def after_packet_def)
      next
        case (Err stop)
        then have "cp' = halt (stopped_at (pk_offset p) opcode stop) ?bytes (after_packet False cp1)"
          using Cons.prems(1) False Command step by (auto simp: Let_def)
        moreover from this have "stop = StopWait a r obs" "pk_offset p = off"
          using assms(3) by (auto simp: halt_def stopped_at_def split: Stop.splits)
        ultimately show ?thesis
          using Command False step Err by (intro bexI [of _ p] exI [of _ opcode] exI [of _ cp] exI [of _ cp1]) (auto simp: halt_def after_packet_def)
      next
        case Panic
        then show ?thesis using Cons.prems(1) False Command step by (auto simp: Let_def)
      qed
    qed
  qed (use Cons assms(3) in \<open>auto simp: halt_def Let_def\<close>)
qed

definition is_wait :: "nat \<Rightarrow> bool" where
  "is_wait opcode \<longleftrightarrow> opcode = WAIT_REG_MEM \<or> opcode = WAIT_REG_MEM64"

lemma wait_on_err: "wait_on f p v r cp0 = (cp1, Err e) \<Longrightarrow> cp1 = cp0 \<and> wait_on f p v r cp2 = (cp2, Err e)"
  by (auto simp: wait_on_def carried_def split: option.splits if_splits)

lemma wait_reg_mem_err:
  "wait_reg_mem ops body cp0 = (cp1, Err e) \<Longrightarrow> cp_memory cp2 = cp_memory cp0 \<Longrightarrow> cp1 = cp0 \<and> wait_reg_mem ops body cp2 = (cp2, Err e)"
  by (auto simp: wait_reg_mem_def carried_def Let_def split: option.splits if_splits dest: wait_on_err)

lemma wait_reg_mem64_err:
  "wait_reg_mem64 ops body cp0 = (cp1, Err e) \<Longrightarrow> cp_memory cp2 = cp_memory cp0 \<Longrightarrow> cp1 = cp0 \<and> wait_reg_mem64 ops body cp2 = (cp2, Err e)"
  by (auto simp: wait_reg_mem64_def carried_def Let_def split: option.splits if_splits dest: wait_on_err)

lemma wait_err:
  assumes "is_wait opcode" "carry_out ops stream off opcode body cp0 = (cp1, Err e)" "cp_memory cp2 = cp_memory cp0"
  shows "cp1 = cp0" "carry_out ops stream off opcode body cp2 = (cp2, Err e)"
proof -
  have "carry_out ops stream off opcode body = (if opcode = WAIT_REG_MEM then wait_reg_mem ops body else wait_reg_mem64 ops body)"
    using assms(1) by (auto simp: is_wait_def carry_out_def opcode_defs)
  then show "cp1 = cp0" "carry_out ops stream off opcode body cp2 = (cp2, Err e)"
    using assms(2,3) wait_reg_mem_err [of ops body cp0 cp1 e cp2] wait_reg_mem64_err [of ops body cp0 cp1 e cp2]
    by (cases "opcode = WAIT_REG_MEM"; simp)+
qed

lemma ordered_filter_head:
  assumes "sorted_wrt before ps" "\<forall>q \<in> set ps. 4 \<le> pk_length q" "p \<in> set ps"
  shows "\<exists>post. filter (\<lambda>q. pk_offset p \<le> pk_offset q) ps = p # post"
  using assms
proof (induction ps)
  case Nil
  then show ?case by simp
next
  case (Cons q ps)
  show ?case
  proof (cases "q = p")
    case False
    then have "pk_offset q < pk_offset p" using Cons.prems by (fastforce simp: before_def)
    then show ?thesis using Cons False by auto
  qed simp
qed

text \<open>A queue standing at a wait that does not hold polls it without effect: tried again from where it
  stopped, with memory as it was, the stream stops at the same wait for the same value, memory is as it
  was, and nothing is counted or reported.\<close>

theorem wait_polls_again:
  assumes "execute_from ops stream from m reports = Ok cp" "length stream \<le> U32_LIMIT"
    "ex_stopped (cp_result cp) = WaitNeverSatisfied off a r obs"
    "\<forall>p \<in> set (pw_packets (packet_walk stream)). pk_offset p = off \<longrightarrow> pk_kind p \<in> {Command WAIT_REG_MEM, Command WAIT_REG_MEM64}"
  shows "execute_from ops stream off (cp_memory cp) reports' =
    Ok \<lparr>cp_memory = cp_memory cp, cp_result = cp_execution_default\<lparr>ex_stopped := WaitNeverSatisfied off a r obs\<rparr>, cp_reports = reports'\<rparr>"
proof -
  let ?ps = "pw_packets (packet_walk stream)"
  have trust: "is_trustworthy (packet_walk stream)"
    using assms(1,3) by (auto simp: execute_from_def halt_def Let_def split: if_splits)
  obtain p opcode cp0 cp1 where p: "p \<in> set ?ps" "pk_offset p = off" "pk_kind p = Command opcode"
    "\<not> is_memory_inert opcode (length (packet_bytes stream p) div 4)" "\<not> is_draw opcode"
    "carry_out ops stream off opcode (words_of (packet_bytes stream p)) cp0 = (cp1, Err (StopWait a r obs))" "cp_memory cp = cp_memory cp1"
    using run_packets_wait [OF assms(1) [unfolded execute_from_def Let_def if_not_P [OF trust [THEN not_not [THEN iffD2]]]] _ assms(3)]
    by (auto simp: cp_execution_default_def)
  have w: "is_wait opcode" using assms(4) p(1,2,3) by (auto simp: is_wait_def)
  obtain post where post: "filter (\<lambda>q. off \<le> pk_offset q) ?ps = p # post"
    using ordered_filter_head [OF walk_ordered [OF assms(2)] _ p(1)] walk_long p(2) by auto
  let ?cp = "\<lparr>cp_memory = cp_memory cp, cp_result = cp_execution_default, cp_reports = reports'\<rparr>"
  have "carry_out ops stream off opcode (words_of (packet_bytes stream p)) ?cp = (?cp, Err (StopWait a r obs))"
    using wait_err [OF w p(6)] p(7) by simp
  then show ?thesis
    using trust post p(2,3,4,5) by (simp add: execute_from_def halt_def after_packet_def stopped_at_def Let_def)
qed

text \<open>At a wait for a word to be one.\<close>

theorem wait_polls_again_witness:
  "\<exists>cp. execute_from (guest_cp open_host) (command_bytes (WAIT_REG_MEM, [0x13, 0x1000, 0, 1, 0xFFFFFFFF, 0])) 0 blank no_reports = Ok cp \<and>
     execute_from (guest_cp open_host) (command_bytes (WAIT_REG_MEM, [0x13, 0x1000, 0, 1, 0xFFFFFFFF, 0])) 0 (cp_memory cp) no_reports =
       Ok \<lparr>cp_memory = cp_memory cp, cp_result = cp_execution_default\<lparr>ex_stopped := WaitNeverSatisfied 0 0x1000 1 0\<rparr>, cp_reports = no_reports\<rparr>"
proof -
  let ?c = "(WAIT_REG_MEM, [0x13, 0x1000, 0, 1, 0xFFFFFFFF, 0]) :: nat \<times> u32 list" let ?s = "command_bytes ?c"
  have ok: "command_ok ?c" by (simp add: command_ok_def opcode_defs)
  have ex: "execute (guest_cp open_host) ?s blank no_reports =
      settle_step 0 WAIT_REG_MEM (dword_bytes (snd ?c)) (wait_reg_mem (guest_cp open_host) (snd ?c) (start blank no_reports))"
    using ok by (subst execute_one) (auto simp: shape_simps carry_out_def)
  have "cm_read (guest_cp open_host) blank 0x1000 4 = Some [0, 0, 0, 0]"
    by (simp add: guest_cp_def mapped_read_def regions_contain_def open_host_def blank_def checked_add_def upt_rec_numeral)
  then have "wait_reg_mem (guest_cp open_host) (snd ?c) (start blank no_reports) = (start blank no_reports, Err (StopWait 0x1000 1 0))"
    by (simp add: wait_reg_mem_def WAIT_MEM_SPACE_def address_def wait_on_def wait_holds_def WAIT_EQUAL_def dword_def)
  then obtain cp where cp: "execute_from (guest_cp open_host) ?s 0 blank no_reports = Ok cp" "ex_stopped (cp_result cp) = WaitNeverSatisfied 0 0x1000 1 0"
    using ex by (simp add: execute_def settle_step_def halt_def stopped_at_def after_packet_def)
  have "\<forall>p \<in> set (pw_packets (packet_walk ?s)). pk_offset p = 0 \<longrightarrow> pk_kind p \<in> {Command WAIT_REG_MEM, Command WAIT_REG_MEM64}"
    unfolding walk_one [OF ok] by (simp add: built_packet_def)
  then show ?thesis using wait_polls_again [OF cp(1) _ cp(2)] cp(1) by (auto simp: U32_LIMIT_def)
qed

section \<open>Where a stream goes wrong\<close>

lemma stream_word_built:
  assumes "i < length (snd c)"
  shows "stream_word (pre @ command_bytes c @ post) (length pre + 4 + 4 * i) = Some (snd c ! i)"
proof -
  have split: "snd c = take i (snd c) @ snd c ! i # drop (Suc i) (snd c)" using assms by (simp add: id_take_nth_drop)
  have bytes: "dword_bytes (snd c) = dword_bytes (take i (snd c)) @ to_le 4 (unat (snd c ! i)) @ dword_bytes (drop (Suc i) (snd c))"
    by (subst split) (simp add: dword_bytes_def)
  have "length (dword_bytes (take i (snd c))) = 4 * i" using assms by simp
  then have "take 4 (drop (length pre + 4 + 4 * i) (pre @ command_bytes c @ post)) = to_le 4 (unat (snd c ! i))"
    using bytes by (simp add: command_bytes_def dword_bytes_Cons)
  moreover have "dword (to_le 4 (unat (snd c ! i))) = snd c ! i" using dword_to_le [of "snd c ! i" "[]"] by simp
  ultimately show ?thesis using assms by (simp add: stream_word_def get_range_def)
qed

text \<open>A stream can make the address of an indirect draw's arguments overflow: the base it sets and the
  offset of the draw are added with no check, though every other address it names is checked when it is
  read.\<close>

theorem indirect_base_overflows:
  "execute (guest_cp h) (command_bytes (SET_BASE, [1, 0xFFFFFFFF, 0xFFFFFFFF]) @ command_bytes (DRAW_INDIRECT, [16, 0, 0, 2])) g reports = Panic"
proof -
  let ?b = "(SET_BASE, [1, 0xFFFFFFFF, 0xFFFFFFFF]) :: nat \<times> u32 list" let ?d = "(DRAW_INDIRECT, [16, 0, 0, 2]) :: nat \<times> u32 list"
  let ?s = "command_bytes ?b @ command_bytes ?d"
  have ok: "command_ok ?b" "command_ok ?d" by (simp_all add: command_ok_def opcode_defs)
  have "pw_packets (packet_walk ?s) = [built_packet 0 ?b, built_packet 16 ?d]"
    using walk_built [of "[?b, ?d]"] ok by (simp add: U32_LIMIT_def)
  moreover have "base_set ?s (built_packet 0 ?b) = Some U64_MAX"
    using stream_word_built [of 0 ?b "[]" "command_bytes ?d"] stream_word_built [of 1 ?b "[]" "command_bytes ?d"]
      stream_word_built [of 2 ?b "[]" "command_bytes ?d"]
    by (simp add: base_set_def built_packet_def body_offset_def address_def)
  ultimately have "indirect_base ?s 16 = Some U64_MAX"
    by (simp add: indirect_base_def earlier_def List.map_filter_def last_of_def built_packet_def opcode_defs)
  then have "indirect_draw_run (guest_cp h) ?s 16 DRAW_INDIRECT (snd ?d) (start g reports) = (start g reports, Panic)"
    by (simp add: indirect_draw_run_def indirect_words_def decode_draw_def decode_single_def plain_add_def ok_or_def)
  then have "carry_out (guest_cp h) ?s 16 DRAW_INDIRECT (snd ?d) (start g reports) = (start g reports, Panic)"
    by (simp add: carry_out_def opcode_defs CONTEXT_CONTROL_def WRITE_DATA_def STRMOUT_BUFFER_UPDATE_def)
  then show ?thesis
    using execute_after_inert [OF ok, of "guest_cp h" g reports] by (simp add: shape_simps settle_step_def)
qed

text \<open>What is answered for where a fill landed forgets part of it when another lands inside: an address past
  the second is in the first, and nothing is said to have filled it.\<close>

theorem landing_hidden:
  "let fill = (\<lambda>at n. \<lparr>dm_src_sel = 2, dm_src_low = 7, dm_src_high = 0, dm_destination = at, dm_count = n, dm_source_held = False\<rparr>);
       outer = fst (note_landing (fill 0x1000 0x100) (start g no_reports)); inner = fst (note_landing (fill 0x1010 0x10) outer)
   in dma_landed_at 0x1050 (cp_reports outer) = Some (Filled 7) \<and> dma_landed_at 0x1050 (cp_reports inner) = None"
  by (simp add: note_landing_def dma_landed_at_def no_reports_def SRC_SEL_DATA_def bt_last_le_def last_of_def)

end
