(* ===== verification/Guest_Paths.thy ===== *)
theory Guest_Paths
  imports Ordered_Map "HOL-Library.List_Lexorder" "HOL-Library.Char_ord" "HOL-Library.Sublist"
begin

text \<open>
  Where a guest path lands on the host (\<^verbatim>\<open>orbistoun-fs/src/mount.rs\<close>): the mount table with its layers, the
  writable prefixes and the hidden files, and the resolvers for reading, writing, creating and removing.

  Guest paths are strings of bytes. A host path is the list of its components, as \<^verbatim>\<open>PathBuf\<close> compares
  them, and the disk is a map from host paths to files and directories, without links and on a
  case-sensitive host: the branch of the source for such hosts is the one modelled. What the host lets
  be written is an argument.

  The lemmas show that no path leaves its mount, that the most specific mount answers, that the top
  layer shadows the ones below, and that writing touches the top layer alone.
\<close>

type_synonym host_path = "string list"

datatype node = Dir | File "byte list"

type_synonym disk = "host_path \<Rightarrow> node option"

record Mounts =
  mt_mounts :: "(string, host_path list) btree"
  mt_writable :: "string set"
  mt_hidden :: "host_path set"

section \<open>Strings\<close>

fun split_slash :: "string \<Rightarrow> string list" where
  "split_slash [] = [[]]"
| "split_slash (c # cs) =
     (if c = CHR ''/'' then [] # split_slash cs
      else case split_slash cs of w # ws \<Rightarrow> (c # w) # ws | [] \<Rightarrow> [[c]])"

fun join_slash :: "string list \<Rightarrow> string" where
  "join_slash [] = []"
| "join_slash [w] = w"
| "join_slash (w # ws) = w @ CHR ''/'' # join_slash ws"

definition forward_slashes :: "string \<Rightarrow> string" where
  "forward_slashes s = map (\<lambda>c. if c = CHR 0x5C then CHR ''/'' else c) s"

definition strip_prefix :: "string \<Rightarrow> string \<Rightarrow> string option" where
  "strip_prefix p s = (if take (length p) s = p then Some (drop (length p) s) else None)"

definition slash_first :: "string \<Rightarrow> bool" where
  "slash_first s \<longleftrightarrow> (case s of c # _ \<Rightarrow> c = CHR ''/'' | [] \<Rightarrow> False)"

text \<open>The components of a path, as \<^verbatim>\<open>Path::components\<close> has them on a host whose separator is the slash.\<close>

datatype Component = RootDir | CurDir | ParentDir | Normal string

definition named_parts :: "string \<Rightarrow> string list" where
  "named_parts s = filter (\<lambda>c. c \<noteq> [] \<and> c \<noteq> ''.'') (split_slash s)"

definition components :: "string \<Rightarrow> Component list" where
  "components s =
     (if slash_first s then [RootDir] else if hd (split_slash s) = ''.'' then [CurDir] else []) @
     map (\<lambda>c. if c = ''..'' then ParentDir else Normal c) (named_parts s)"

text \<open>A path pushed onto another: an absolute one replaces it.\<close>

definition join_path :: "host_path \<Rightarrow> string \<Rightarrow> host_path" where
  "join_path root rest = (if slash_first rest then named_parts rest else root @ named_parts rest)"

section \<open>The mount table\<close>

definition mount :: "string \<Rightarrow> host_path \<Rightarrow> Mounts \<Rightarrow> Mounts" where
  "mount pre root st = st\<lparr>mt_mounts := bt_insert pre [root] (mt_mounts st)\<rparr>"

definition layer :: "string \<Rightarrow> host_path \<Rightarrow> Mounts \<Rightarrow> Mounts" where
  "layer pre root st =
     st\<lparr>mt_mounts := bt_insert pre (root # (case bt_get (mt_mounts st) pre of Some roots \<Rightarrow> roots | None \<Rightarrow> [])) (mt_mounts st)\<rparr>"

definition APP_MOUNT :: string where "APP_MOUNT = ''/app0''"
definition DATA_MOUNT :: string where "DATA_MOUNT = ''/data''"
definition RAGE_HOST_APP_MOUNT :: string where "RAGE_HOST_APP_MOUNT = ''/host//ap''"
definition STAGING_MOUNT :: string where "STAGING_MOUNT = ''/data/homebrew''"

text \<open>The directory a path is in; a root has none.\<close>

definition parent :: "host_path \<Rightarrow> host_path option" where
  "parent p = (if p = [] then None else Some (butlast p))"

definition mount_title :: "host_path \<Rightarrow> Mounts \<Rightarrow> Mounts" where
  "mount_title module st =
     (case parent module of
        Some directory \<Rightarrow> layer RAGE_HOST_APP_MOUNT directory (layer APP_MOUNT directory st)
      | None \<Rightarrow> st)"

definition allow_writes :: "string \<Rightarrow> Mounts \<Rightarrow> Mounts" where
  "allow_writes pre st = st\<lparr>mt_writable := insert pre (mt_writable st)\<rparr>"

text \<open>Making a directory and those above it fails where a file is in the way or the host refuses.\<close>

definition create_dir_all :: "(host_path \<Rightarrow> bool) \<Rightarrow> host_path \<Rightarrow> disk \<Rightarrow> disk option" where
  "create_dir_all allows p d =
     (let above = map (\<lambda>k. take k p) [0..<length p + 1] in
      if (\<exists>q \<in> set above. case d q of Some (File _) \<Rightarrow> True | Some Dir \<Rightarrow> False | None \<Rightarrow> \<not> allows q) then None
      else Some (\<lambda>q. if q \<in> set above \<and> d q = None then Some Dir else d q))"

definition or_same :: "disk \<Rightarrow> disk option \<Rightarrow> disk" where
  "or_same d made = (case made of Some d' \<Rightarrow> d' | None \<Rightarrow> d)"

definition stage_title :: "(host_path \<Rightarrow> bool) \<Rightarrow> host_path \<Rightarrow> host_path \<Rightarrow> string \<Rightarrow> Mounts \<Rightarrow> disk \<Rightarrow> Mounts \<times> disk" where
  "stage_title allows module overlay ident st d =
     (case parent module of
        None \<Rightarrow> (st, d)
      | Some directory \<Rightarrow>
          let writable = join_path (join_path (join_path overlay ''data'') ''homebrew'') ident;
              staged = STAGING_MOUNT @ ''/'' @ ident
          in (allow_writes APP_MOUNT (layer APP_MOUNT writable (layer staged writable (layer staged directory st))),
              or_same d (create_dir_all allows writable d)))"

definition mount_data :: "(host_path \<Rightarrow> bool) \<Rightarrow> host_path \<Rightarrow> Mounts \<Rightarrow> disk \<Rightarrow> Mounts \<times> disk" where
  "mount_data allows root st d = (mount DATA_MOUNT root st, or_same d (create_dir_all allows root d))"

definition below_prefix :: "string \<Rightarrow> string \<Rightarrow> bool" where
  "below_prefix pre path \<longleftrightarrow> (case strip_prefix pre path of Some rest \<Rightarrow> rest = [] \<or> slash_first rest | None \<Rightarrow> False)"

definition is_writable :: "Mounts \<Rightarrow> string \<Rightarrow> bool" where
  "is_writable st guest_path = (let path = forward_slashes guest_path in \<exists>pre \<in> mt_writable st. below_prefix pre path)"

definition hide :: "host_path \<Rightarrow> Mounts \<Rightarrow> Mounts" where
  "hide host st = st\<lparr>mt_hidden := insert host (mt_hidden st)\<rparr>"

definition is_hidden :: "Mounts \<Rightarrow> host_path \<Rightarrow> host_path \<Rightarrow> bool" where
  "is_hidden st root host \<longleftrightarrow> (\<exists>h \<in> mt_hidden st. prefix root h \<and> h \<noteq> root \<and> prefix h host)"

definition unmount :: "string \<Rightarrow> Mounts \<Rightarrow> Mounts" where
  "unmount pre st = st\<lparr>mt_writable := mt_writable st - {pre}, mt_mounts := bt_remove pre (mt_mounts st)\<rparr>"

definition mounts_clear :: "Mounts \<Rightarrow> Mounts" where
  "mounts_clear st = \<lparr>mt_mounts = [], mt_writable = {}, mt_hidden = {}\<rparr>"

section \<open>Resolving a path\<close>

definition is_contained :: "string \<Rightarrow> bool" where
  "is_contained relative \<longleftrightarrow>
     relative \<noteq> [] \<and> (\<forall>c \<in> set (components relative). case c of Normal part \<Rightarrow> part \<noteq> [] | _ \<Rightarrow> False)"

definition exists_case_sensitive :: "Mounts \<Rightarrow> disk \<Rightarrow> host_path \<Rightarrow> string \<Rightarrow> bool" where
  "exists_case_sensitive st d root rest \<longleftrightarrow> \<not> is_hidden st root (join_path root rest) \<and> d (join_path root rest) \<noteq> None"

definition without_current_dir :: "string \<Rightarrow> string" where
  "without_current_dir rest = join_slash (filter (\<lambda>c. c \<noteq> [] \<and> c \<noteq> ''.'') (split_slash rest))"

definition first_of :: "'a list \<Rightarrow> 'a option" where
  "first_of xs = (case xs of x # _ \<Rightarrow> Some x | [] \<Rightarrow> None)"

definition trim_start :: "string \<Rightarrow> string" where
  "trim_start s = dropWhile (\<lambda>c. c = CHR ''/'') s"

text \<open>The first layer that has the path; the top layer's place where none has it and a place is wanted.\<close>

definition first_layer :: "Mounts \<Rightarrow> disk \<Rightarrow> host_path list \<Rightarrow> string \<Rightarrow> bool \<Rightarrow> host_path option" where
  "first_layer st d roots rest fallback =
     (case find (\<lambda>root. exists_case_sensitive st d root rest) roots of
        Some root \<Rightarrow> Some (join_path root rest)
      | None \<Rightarrow> if fallback then map_option (\<lambda>root. join_path root rest) (first_of roots) else None)"

fun resolve_in :: "Mounts \<Rightarrow> disk \<Rightarrow> string \<Rightarrow> bool \<Rightarrow> (string \<times> host_path list) list \<Rightarrow> host_path option" where
  "resolve_in st d path fallback [] = None"
| "resolve_in st d path fallback ((pre, roots) # ms) =
     (case strip_prefix pre path of
        None \<Rightarrow> resolve_in st d path fallback ms
      | Some after \<Rightarrow>
          if trim_start after = [] then first_of roots
          else if \<not> slash_first after then resolve_in st d path fallback ms
          else let rest = without_current_dir (trim_start after) in
               if rest = [] then first_of roots
               else if \<not> is_contained rest then None
               else first_layer st d roots rest fallback)"

definition resolve_walk :: "Mounts \<Rightarrow> disk \<Rightarrow> string \<Rightarrow> bool \<Rightarrow> host_path option" where
  "resolve_walk st d guest_path fallback = resolve_in st d (forward_slashes guest_path) fallback (rev (mt_mounts st))"

definition next_name :: "string \<Rightarrow> string \<Rightarrow> string option" where
  "next_name here pre =
     (case strip_prefix here pre of
        None \<Rightarrow> None
      | Some after \<Rightarrow>
          (case strip_prefix ''/'' after of
             None \<Rightarrow> None
           | Some rest \<Rightarrow> let w = hd (split_slash rest) in if w = [] then None else Some w))"

definition trim_end :: "string \<Rightarrow> string" where
  "trim_end s = rev (trim_start (rev s))"

definition mounts_under :: "Mounts \<Rightarrow> string \<Rightarrow> string set" where
  "mounts_under st guest_path =
     (let path = forward_slashes guest_path
      in if \<not> slash_first path then {}
         else set (List.map_filter (next_name (trim_end path)) (map fst (mt_mounts st))))"

definition ends_with :: "string \<Rightarrow> string \<Rightarrow> bool" where
  "ends_with e s = suffix e s"

function strip_trailing :: "string \<Rightarrow> string" where
  "strip_trailing s =
     (if ends_with ''/.'' s then strip_trailing (take (length s - 2) s)
      else if ends_with ''/'' s then strip_trailing (take (length s - 1) s)
      else s)"
  by pat_completeness auto
termination
  by (relation "measure length") (auto simp: ends_with_def suffix_def)

declare strip_trailing.simps [simp del]

text \<open>The inner call of the source asks the same of a path without a trailing slash, which is at once no.\<close>

definition names_file_as_directory :: "Mounts \<Rightarrow> disk \<Rightarrow> string \<Rightarrow> bool" where
  "names_file_as_directory st d guest_path =
     (let path = forward_slashes guest_path in
      if \<not> (ends_with ''/'' path \<or> ends_with ''/.'' path) then False
      else let base = strip_trailing path in
           if base = [] \<or> mounts_under st base \<noteq> {} then False
           else case resolve_walk st d base False of
                  Some host \<Rightarrow> (case d host of Some (File _) \<Rightarrow> True | _ \<Rightarrow> False)
                | None \<Rightarrow> False)"

definition resolve_inner :: "Mounts \<Rightarrow> disk \<Rightarrow> string \<Rightarrow> bool \<Rightarrow> host_path option" where
  "resolve_inner st d guest_path fallback =
     (if names_file_as_directory st d guest_path then None else resolve_walk st d guest_path fallback)"

definition resolve :: "Mounts \<Rightarrow> disk \<Rightarrow> string \<Rightarrow> host_path option" where
  "resolve st d guest_path = resolve_inner st d guest_path True"

definition resolve_existing :: "Mounts \<Rightarrow> disk \<Rightarrow> string \<Rightarrow> host_path option" where
  "resolve_existing st d guest_path = resolve_inner st d guest_path False"

fun top_in :: "string \<Rightarrow> (string \<times> host_path list) list \<Rightarrow> host_path option" where
  "top_in path [] = None"
| "top_in path ((pre, roots) # ms) =
     (case strip_prefix pre path of
        None \<Rightarrow> top_in path ms
      | Some after \<Rightarrow>
          if after \<noteq> [] \<and> \<not> slash_first after then top_in path ms
          else let rest = without_current_dir after
               in case first_of roots of
                    None \<Rightarrow> None
                  | Some root \<Rightarrow> if rest = [] then Some root else if is_contained rest then Some (join_path root rest) else None)"

definition resolve_top :: "Mounts \<Rightarrow> string \<Rightarrow> host_path option" where
  "resolve_top st guest_path = top_in (forward_slashes guest_path) (rev (mt_mounts st))"

definition locate_for_write :: "Mounts \<Rightarrow> disk \<Rightarrow> string \<Rightarrow> (host_path \<times> host_path option) option" where
  "locate_for_write st d guest_path =
     (if \<not> is_writable st guest_path then None
      else case resolve_top st guest_path of
             None \<Rightarrow> None
           | Some upper \<Rightarrow>
               Some (upper, case resolve_existing st d guest_path of Some found \<Rightarrow> if found \<noteq> upper then Some found else None | None \<Rightarrow> None))"

definition copy_file :: "(host_path \<Rightarrow> bool) \<Rightarrow> host_path \<Rightarrow> host_path \<Rightarrow> disk \<Rightarrow> disk option" where
  "copy_file allows from to d =
     (case d from of
        Some (File b) \<Rightarrow>
          if d to \<noteq> Some Dir \<and> (case parent to of Some p \<Rightarrow> d p = Some Dir | None \<Rightarrow> False) \<and> allows to
          then Some (d(to \<mapsto> File b)) else None
      | _ \<Rightarrow> None)"

definition copy_up :: "(host_path \<Rightarrow> bool) \<Rightarrow> host_path \<Rightarrow> host_path \<Rightarrow> disk \<Rightarrow> disk option" where
  "copy_up allows lower upper d =
     (case (case parent upper of Some p \<Rightarrow> create_dir_all allows p d | None \<Rightarrow> Some d) of
        None \<Rightarrow> None
      | Some d' \<Rightarrow> if d' lower = Some Dir then create_dir_all allows upper d' else copy_file allows lower upper d')"

definition resolve_for_write :: "(host_path \<Rightarrow> bool) \<Rightarrow> Mounts \<Rightarrow> disk \<Rightarrow> string \<Rightarrow> (host_path \<times> disk) option" where
  "resolve_for_write allows st d guest_path =
     (case locate_for_write st d guest_path of
        None \<Rightarrow> None
      | Some (upper, None) \<Rightarrow> Some (upper, d)
      | Some (upper, Some lower) \<Rightarrow> map_option (Pair upper) (copy_up allows lower upper d))"

definition resolve_for_create :: "Mounts \<Rightarrow> disk \<Rightarrow> string \<Rightarrow> host_path option" where
  "resolve_for_create st d guest_path = map_option fst (locate_for_write st d guest_path)"

fun lower_holds_in :: "Mounts \<Rightarrow> disk \<Rightarrow> host_path \<Rightarrow> string \<Rightarrow> (string \<times> host_path list) list \<Rightarrow> bool" where
  "lower_holds_in st d upper path [] = False"
| "lower_holds_in st d upper path ((pre, roots) # ms) =
     (case strip_prefix pre path of
        None \<Rightarrow> lower_holds_in st d upper path ms
      | Some after \<Rightarrow>
          if after \<noteq> [] \<and> \<not> slash_first after then lower_holds_in st d upper path ms
          else let rest = without_current_dir after
               in rest \<noteq> [] \<and> is_contained rest \<and>
                  (\<exists>root \<in> set (drop 1 roots). join_path root rest \<noteq> upper \<and> exists_case_sensitive st d root rest))"

definition lower_layer_holds :: "Mounts \<Rightarrow> disk \<Rightarrow> string \<Rightarrow> bool" where
  "lower_layer_holds st d guest_path =
     (case resolve_top st guest_path of
        None \<Rightarrow> False
      | Some upper \<Rightarrow> lower_holds_in st d upper (forward_slashes guest_path) (rev (mt_mounts st)))"

definition resolve_for_removal :: "Mounts \<Rightarrow> disk \<Rightarrow> string \<Rightarrow> host_path option" where
  "resolve_for_removal st d guest_path =
     (case locate_for_write st d guest_path of
        None \<Rightarrow> None
      | Some (upper, _) \<Rightarrow> if lower_layer_holds st d guest_path then None else Some upper)"

fun directories_in :: "Mounts \<Rightarrow> disk \<Rightarrow> string \<Rightarrow> (string \<times> host_path list) list \<Rightarrow> host_path list" where
  "directories_in st d path [] = []"
| "directories_in st d path ((pre, roots) # ms) =
     (case strip_prefix pre path of
        None \<Rightarrow> directories_in st d path ms
      | Some after \<Rightarrow>
          if after \<noteq> [] \<and> \<not> slash_first after then directories_in st d path ms
          else let rest = without_current_dir (trim_start after) in
               if rest \<noteq> [] \<and> \<not> is_contained rest then []
               else filter (\<lambda>p. d p = Some Dir)
                      (map (\<lambda>root. join_path root rest) (filter (\<lambda>root. rest = [] \<or> exists_case_sensitive st d root rest) roots)))"

definition existing_directories :: "Mounts \<Rightarrow> disk \<Rightarrow> string \<Rightarrow> host_path list" where
  "existing_directories st d guest_path =
     (if names_file_as_directory st d guest_path then []
      else directories_in st d (forward_slashes guest_path) (rev (mt_mounts st)))"

definition is_directory :: "Mounts \<Rightarrow> disk \<Rightarrow> string \<Rightarrow> bool" where
  "is_directory st d guest_path \<longleftrightarrow>
     mounts_under st guest_path \<noteq> {} \<or>
     (case resolve_existing st d guest_path of Some host \<Rightarrow> d host = Some Dir | None \<Rightarrow> False)"

section \<open>Splitting and joining\<close>

lemma split_slash_ne [simp]: "split_slash s \<noteq> []"
  by (cases s) (auto split: list.splits)

lemma split_slash_words: "w \<in> set (split_slash s) \<Longrightarrow> CHR ''/'' \<notin> set w \<and> set w \<subseteq> set s"
proof (induction s arbitrary: w)
  case Nil
  then show ?case by simp
next
  case (Cons c s)
  show ?case
  proof (cases "c = CHR ''/''")
    case True
    then show ?thesis using Cons by auto
  next
    case False
    obtain v vs where v: "split_slash s = v # vs" using split_slash_ne list.exhaust by metis
    then have "w = c # v \<or> w \<in> set vs" using Cons.prems False by auto
    then show ?thesis using Cons.IH [of v] Cons.IH [of w] v False by auto
  qed
qed

lemma split_slash_word: "CHR ''/'' \<notin> set w \<Longrightarrow> split_slash w = [w]"
  by (induction w) auto

lemma split_slash_append: "CHR ''/'' \<notin> set w \<Longrightarrow> split_slash (w @ CHR ''/'' # s) = w # split_slash s"
  by (induction w) auto

lemma split_join: "ws \<noteq> [] \<Longrightarrow> \<forall>w \<in> set ws. CHR ''/'' \<notin> set w \<Longrightarrow> split_slash (join_slash ws) = ws"
  by (induction ws rule: join_slash.induct) (simp_all add: split_slash_word split_slash_append)

lemma join_slash_Nil: "\<forall>w \<in> set ws. w \<noteq> [] \<Longrightarrow> join_slash ws = [] \<longleftrightarrow> ws = []"
  by (cases ws rule: join_slash.cases) auto

lemma named_parts_words:
  "c \<in> set (named_parts s) \<Longrightarrow> c \<noteq> [] \<and> c \<noteq> ''.'' \<and> CHR ''/'' \<notin> set c \<and> set c \<subseteq> set s"
  using split_slash_words [of c s] by (auto simp: named_parts_def)

lemma without_current_dir_alt: "without_current_dir s = join_slash (named_parts s)"
  by (simp add: without_current_dir_def named_parts_def)

lemma without_current_dir_empty: "without_current_dir s = [] \<longleftrightarrow> named_parts s = []"
  using named_parts_words [of _ s] by (simp add: without_current_dir_alt join_slash_Nil)

lemma named_parts_without: "named_parts (without_current_dir s) = named_parts s"
proof (cases "named_parts s = []")
  case True
  then show ?thesis by (simp add: without_current_dir_alt named_parts_def)
next
  case False
  then have "split_slash (join_slash (named_parts s)) = named_parts s"
    using named_parts_words [of _ s] by (intro split_join) auto
  then have "named_parts (join_slash (named_parts s)) = filter (\<lambda>c. c \<noteq> [] \<and> c \<noteq> ''.'') (named_parts s)"
    by (simp add: named_parts_def)
  also have "\<dots> = named_parts s" by (simp add: named_parts_def)
  finally show ?thesis by (simp add: without_current_dir_alt)
qed

lemma slash_first_without: "\<not> slash_first (without_current_dir s)"
proof (cases "named_parts s" rule: join_slash.cases)
  case 1
  then show ?thesis by (simp add: without_current_dir_alt slash_first_def)
next
  case (2 w)
  then have "w \<noteq> []" "CHR ''/'' \<notin> set w" using named_parts_words [of w s] by auto
  then show ?thesis using 2 by (cases w) (auto simp: without_current_dir_alt slash_first_def)
next
  case (3 w v ws)
  then have "w \<noteq> []" "CHR ''/'' \<notin> set w" using named_parts_words [of w s] by auto
  then show ?thesis using 3 by (cases w) (auto simp: without_current_dir_alt slash_first_def)
qed

section \<open>No path leaves its mount\<close>

text \<open>A component that names an entry of the directory it is looked up in, on any host.\<close>

definition plain_name :: "string \<Rightarrow> bool" where
  "plain_name c \<longleftrightarrow> c \<noteq> [] \<and> c \<noteq> ''.'' \<and> c \<noteq> ''..'' \<and> CHR ''/'' \<notin> set c \<and> CHR 0x5C \<notin> set c"

lemma contained_names:
  assumes "is_contained (without_current_dir s)" "CHR 0x5C \<notin> set s" "c \<in> set (named_parts s)"
  shows "plain_name c"
proof -
  have "c \<noteq> ''..''"
    using assms(1,3) by (auto simp: is_contained_def components_def named_parts_without)
  then show ?thesis using named_parts_words [OF assms(3)] assms(2) by (auto simp: plain_name_def)
qed

lemma contained_iff: "is_contained (without_current_dir s) \<longleftrightarrow> named_parts s \<noteq> [] \<and> ''..'' \<notin> set (named_parts s)"
proof (cases "named_parts s = []")
  case True
  then show ?thesis using without_current_dir_empty [of s] by (simp add: is_contained_def)
next
  case False
  then have "split_slash (without_current_dir s) = named_parts s"
    using named_parts_words [of _ s] by (subst without_current_dir_alt, intro split_join) auto
  moreover have "hd (named_parts s) \<noteq> ''.''" using False named_parts_words [of "hd (named_parts s)" s] by simp
  ultimately have "components (without_current_dir s) = map (\<lambda>c. if c = ''..'' then ParentDir else Normal c) (named_parts s)"
    by (simp add: components_def slash_first_without named_parts_without)
  then show ?thesis
    using False without_current_dir_empty [of s] named_parts_words [of _ s] by (auto simp: is_contained_def)
qed

lemma join_without: "join_path root (without_current_dir s) = root @ named_parts s"
  by (simp add: join_path_def slash_first_without named_parts_without)

text \<open>A host path inside a layer of a mount that a guest path is under.\<close>

definition in_layer :: "host_path list \<Rightarrow> host_path \<Rightarrow> bool" where
  "in_layer roots host \<longleftrightarrow> (\<exists>root \<in> set roots. \<exists>parts. host = root @ parts \<and> (\<forall>c \<in> set parts. plain_name c))"

definition inside :: "Mounts \<Rightarrow> string \<Rightarrow> host_path \<Rightarrow> bool" where
  "inside st guest_path host \<longleftrightarrow>
     (\<exists>m \<in> set (mt_mounts st). below_prefix (fst m) (forward_slashes guest_path) \<and> in_layer (snd m) host)"

lemma in_layerI: "root \<in> set roots \<Longrightarrow> \<forall>c \<in> set parts. plain_name c \<Longrightarrow> in_layer roots (root @ parts)"
  by (auto simp: in_layer_def)

lemma forward_slashes_set: "CHR 0x5C \<notin> set (forward_slashes s)"
  by (auto simp: forward_slashes_def)

lemma strip_prefix_Some: "strip_prefix p s = Some r \<longleftrightarrow> s = p @ r"
  by (auto simp: strip_prefix_def) (metis append_take_drop_id)

lemma trim_start_named [simp]: "named_parts (trim_start s) = named_parts s"
  by (induction s) (auto simp: trim_start_def named_parts_def)

lemma trim_start_Nil: "trim_start s = [] \<Longrightarrow> s = [] \<or> slash_first s"
  by (cases s) (auto simp: trim_start_def slash_first_def split: if_splits)

lemma trim_start_set: "set (trim_start s) \<subseteq> set s"
  by (auto simp: trim_start_def dest: set_dropWhileD)

lemma first_of_Some: "first_of xs = Some x \<Longrightarrow> x \<in> set xs"
  by (auto simp: first_of_def split: list.splits)

lemma find_mem: "find P xs = Some x \<Longrightarrow> x \<in> set xs \<and> P x"
  by (induction xs) (auto split: if_splits)

lemma first_layer_inside:
  assumes "first_layer st d roots (without_current_dir s) fallback = Some host" "is_contained (without_current_dir s)" "CHR 0x5C \<notin> set s"
  shows "in_layer roots host"
proof -
  obtain root where "root \<in> set roots" "host = join_path root (without_current_dir s)"
    using assms(1) by (auto simp: first_layer_def split: option.splits if_splits dest!: find_mem first_of_Some)
  then show ?thesis using contained_names [OF assms(2,3)] by (simp add: join_without in_layerI)
qed

lemma first_of_layer: "first_of roots = Some host \<Longrightarrow> in_layer roots host"
  using in_layerI [of host roots "[]"] by (auto dest!: first_of_Some)

text \<open>The mount that answers: the first, from the last down, that the path is under.\<close>

definition mount_of :: "string \<Rightarrow> (string \<times> host_path list) list \<Rightarrow> (string \<times> host_path list) option" where
  "mount_of path ms = find (\<lambda>m. below_prefix (fst m) path) ms"

definition after_mount :: "string \<Rightarrow> string \<Rightarrow> string" where
  "after_mount pre path = drop (length pre) path"

definition resolve_at :: "Mounts \<Rightarrow> disk \<Rightarrow> string \<Rightarrow> bool \<Rightarrow> string \<times> host_path list \<Rightarrow> host_path option" where
  "resolve_at st d path fallback m =
     (let rest = without_current_dir (trim_start (after_mount (fst m) path)) in
      if rest = [] then first_of (snd m)
      else if is_contained rest then first_layer st d (snd m) rest fallback else None)"

lemma below_prefix_rest: "below_prefix pre path \<Longrightarrow> strip_prefix pre path = Some (after_mount pre path) \<and>
    (after_mount pre path = [] \<or> slash_first (after_mount pre path))"
  by (auto simp: below_prefix_def after_mount_def strip_prefix_def split: option.splits if_splits)

lemma resolve_in_mount:
  "resolve_in st d path fallback ms = Option.bind (mount_of path ms) (resolve_at st d path fallback)"
proof (induction ms)
  case Nil
  then show ?case by (simp add: mount_of_def)
next
  case (Cons m ms)
  obtain pre roots where m: "m = (pre, roots)" by fastforce
  show ?case
  proof (cases "below_prefix pre path")
    case True
    note rest = below_prefix_rest [OF this]
    have here: "mount_of path (m # ms) = Some m" using True by (simp add: m mount_of_def)
    show ?thesis
    proof (cases "trim_start (after_mount pre path) = []")
      case True
      then show ?thesis using rest here by (simp add: m resolve_at_def without_current_dir_def)
    next
      case False
      then have "slash_first (after_mount pre path)" using rest by (auto simp: trim_start_def)
      then show ?thesis using rest here False by (simp add: m resolve_at_def Let_def)
    qed
  next
    case False
    then have "resolve_in st d path fallback (m # ms) = resolve_in st d path fallback ms"
      by (cases "strip_prefix pre path") (auto simp: m below_prefix_def dest: trim_start_Nil)
    then show ?thesis using Cons False by (simp add: m mount_of_def)
  qed
qed

definition top_at :: "string \<Rightarrow> string \<times> host_path list \<Rightarrow> host_path option" where
  "top_at path m =
     (let rest = without_current_dir (after_mount (fst m) path)
      in case first_of (snd m) of
           None \<Rightarrow> None
         | Some root \<Rightarrow> if rest = [] then Some root else if is_contained rest then Some (join_path root rest) else None)"

lemma top_in_mount: "top_in path ms = Option.bind (mount_of path ms) (top_at path)"
proof (induction ms)
  case Nil
  then show ?case by (simp add: mount_of_def)
next
  case (Cons m ms)
  obtain pre roots where m: "m = (pre, roots)" by fastforce
  show ?case
  proof (cases "below_prefix pre path")
    case True
    then show ?thesis using below_prefix_rest [OF True] by (auto simp: m mount_of_def top_at_def)
  next
    case False
    then have "top_in path (m # ms) = top_in path ms"
      by (cases "strip_prefix pre path") (auto simp: m below_prefix_def)
    then show ?thesis using Cons False by (simp add: m mount_of_def)
  qed
qed

lemma mount_of_Some: "mount_of path ms = Some m \<Longrightarrow> m \<in> set ms \<and> below_prefix (fst m) path"
  by (auto simp: mount_of_def dest: find_mem)

lemma after_mount_clean: "CHR 0x5C \<notin> set path \<Longrightarrow> CHR 0x5C \<notin> set (after_mount pre path)"
  by (auto simp: after_mount_def dest: in_set_dropD)

lemma trim_clean: "c \<notin> set s \<Longrightarrow> c \<notin> set (trim_start s)"
  using trim_start_set [of s] by auto

lemma resolve_at_inside:
  assumes "resolve_at st d path fallback m = Some host" "CHR 0x5C \<notin> set path"
  shows "in_layer (snd m) host"
  using assms first_layer_inside [OF _ _ trim_clean [OF after_mount_clean [OF assms(2)]]]
  by (auto simp: resolve_at_def Let_def split: if_splits dest: first_of_layer)

lemma top_at_inside:
  assumes "top_at path m = Some host" "CHR 0x5C \<notin> set path"
  shows "snd m \<noteq> [] \<and> (\<exists>parts. host = hd (snd m) @ parts \<and> (\<forall>c \<in> set parts. plain_name c))"
proof -
  obtain root where root: "first_of (snd m) = Some root" using assms(1) by (auto simp: top_at_def Let_def split: option.splits)
  then have "snd m \<noteq> []" "hd (snd m) = root" by (auto simp: first_of_def split: list.splits)
  moreover have "\<exists>parts. host = root @ parts \<and> (\<forall>c \<in> set parts. plain_name c)"
    using assms(1) root contained_names [OF _ after_mount_clean [OF assms(2)]]
    by (auto simp: top_at_def Let_def join_without split: if_splits)
  ultimately show ?thesis by blast
qed

lemma directories_inside:
  assumes "host \<in> set (directories_in st d path ms)" "CHR 0x5C \<notin> set path"
  shows "\<exists>m \<in> set ms. below_prefix (fst m) path \<and> in_layer (snd m) host"
  using assms(1)
proof (induction ms)
  case Nil
  then show ?case by simp
next
  case (Cons m ms)
  obtain pre roots where m: "m = (pre, roots)" by fastforce
  show ?case
  proof (cases "below_prefix pre path")
    case False
    then have "directories_in st d path (m # ms) = directories_in st d path ms"
      by (cases "strip_prefix pre path") (auto simp: m below_prefix_def)
    then show ?thesis using Cons by auto
  next
    case True
    let ?rest = "trim_start (after_mount pre path)" let ?w = "without_current_dir ?rest"
    have "?w = [] \<or> is_contained ?w" "host \<in> (\<lambda>root. join_path root ?w) ` set roots"
      using Cons.prems below_prefix_rest [OF True] by (auto simp: m Let_def split: if_splits)
    then obtain root where root: "root \<in> set roots" "host = root @ named_parts ?rest" by (auto simp: join_without)
    have "\<forall>c \<in> set (named_parts ?rest). plain_name c"
    proof (cases "?w = []")
      case True
      then show ?thesis by (simp add: without_current_dir_empty)
    next
      case False
      then have "is_contained ?w" using \<open>?w = [] \<or> is_contained ?w\<close> by simp
      then show ?thesis using contained_names trim_clean [OF after_mount_clean [OF assms(2)]] by blast
    qed
    then show ?thesis using True root in_layerI [of root roots] by (auto simp: m simp del: trim_start_named)
  qed
qed

text \<open>A title staged over its library copy: the top layer takes the writes, and the copy holds the save.\<close>

definition example_mounts :: Mounts where
  "example_mounts = \<lparr>mt_mounts = [(''/app0'', [[''over''], [''lib'']]), (''/app0/save'', [[''over'', ''s'']])],
     mt_writable = {''/app0''}, mt_hidden = {}\<rparr>"

definition example_disk :: disk where
  "example_disk = [[] \<mapsto> Dir, [''lib''] \<mapsto> Dir, [''lib'', ''x''] \<mapsto> File [7]]"

text \<open>C26. No guest path leaves its mount: whatever it is, and whichever way it is resolved, for reading, writing,
  creating, removing or listing, the host path is one of the mount's layers with components after it that
  each name an entry, none of them the directory itself, the one above or a separator.\<close>

theorem paths_stay_in_mount:
  assumes "resolve st d guest_path = Some host \<or> resolve_existing st d guest_path = Some host \<or>
    resolve_for_create st d guest_path = Some host \<or> resolve_for_removal st d guest_path = Some host \<or>
    map_option fst (resolve_for_write allows st d guest_path) = Some host \<or> host \<in> set (existing_directories st d guest_path)"
  shows "inside st guest_path host"
proof -
  note clean = forward_slashes_set [of guest_path]
  have walk: "inside st guest_path host" if w: "resolve_walk st d guest_path fb = Some host" for fb
  proof -
    obtain m where m: "mount_of (forward_slashes guest_path) (rev (mt_mounts st)) = Some m"
      "resolve_at st d (forward_slashes guest_path) fb m = Some host"
      using w by (auto simp: resolve_walk_def resolve_in_mount bind_eq_Some_conv)
    have "in_layer (snd m) host" using resolve_at_inside [OF m(2) clean] .
    then show ?thesis using mount_of_Some [OF m(1)] by (auto simp: inside_def)
  qed
  have upper: "inside st guest_path host" if t: "resolve_top st guest_path = Some host"
  proof -
    obtain m where m: "mount_of (forward_slashes guest_path) (rev (mt_mounts st)) = Some m" "top_at (forward_slashes guest_path) m = Some host"
      using t by (auto simp: resolve_top_def top_in_mount bind_eq_Some_conv)
    then have "in_layer (snd m) host" using top_at_inside [OF m(2) clean] in_layerI [of "hd (snd m)" "snd m"] by auto
    then show ?thesis using mount_of_Some [OF m(1)] by (auto simp: inside_def)
  qed
  have listed: "inside st guest_path host" if "host \<in> set (existing_directories st d guest_path)"
    using directories_inside [OF _ clean, of host st d "rev (mt_mounts st)"] that by (auto simp: existing_directories_def inside_def split: if_splits)
  have located: "resolve_top st guest_path = Some u" if "locate_for_write st d guest_path = Some (u, l)" for u l
    using that by (auto simp: locate_for_write_def split: option.splits if_splits)
  have read: "inside st guest_path host" if "resolve_inner st d guest_path fb = Some host" for fb
    using walk that by (simp add: resolve_inner_def split: if_splits)
  have create: "resolve_top st guest_path = Some host" if "resolve_for_create st d guest_path = Some host"
    using located that by (auto simp: resolve_for_create_def)
  have remove: "resolve_top st guest_path = Some host" if "resolve_for_removal st d guest_path = Some host"
    using located that by (auto simp: resolve_for_removal_def split: option.splits if_splits)
  have wr: "resolve_top st guest_path = Some host" if "map_option fst (resolve_for_write allows st d guest_path) = Some host"
    using located that by (auto simp: resolve_for_write_def split: option.splits)
  show ?thesis
    using assms read upper [OF create] upper [OF remove] upper [OF wr] listed unfolding resolve_def resolve_existing_def by blast
qed

theorem paths_stay_in_mount_witness:
  "resolve example_mounts example_disk ''/app0/./x'' = Some [''lib'', ''x''] \<and>
   inside example_mounts ''/app0/./x'' [''lib'', ''x'']"
proof -
  have "resolve example_mounts example_disk ''/app0/./x'' = Some [''lib'', ''x'']" by code_simp
  then show ?thesis using paths_stay_in_mount [of example_mounts example_disk "''/app0/./x''" "[''lib'', ''x'']"] by blast
qed

section \<open>The most specific mount answers\<close>

lemma prefix_less:
  assumes "strict_prefix p q"
  shows "p < (q :: string)"
proof -
  obtain c cs where "q = p @ c # cs" using assms by (rule strict_prefixE')
  then show ?thesis by (auto simp: list_less_def intro: lexord_append_rightI)
qed

lemma below_prefix_prefix: "below_prefix pre path \<Longrightarrow> prefix pre path"
  by (auto simp: below_prefix_def strip_prefix_Some split: option.splits)

lemma mount_of_longest:
  assumes "bt_wf ms" "mount_of path (rev ms) = Some m" "m' \<in> set ms" "below_prefix (fst m') path"
  shows "prefix (fst m') (fst m)"
proof -
  obtain xs ys where split: "rev ms = xs @ m # ys" "\<forall>y \<in> set xs. \<not> below_prefix (fst y) path"
    using find_split [of "\<lambda>m. below_prefix (fst m) path" "rev ms" m] assms(2) by (auto simp: mount_of_def)
  have "ms = rev ys @ m # rev xs" using arg_cong [OF split(1), of rev] by simp
  then have "m' = m \<or> fst m' < fst m" using assms(1,3,4) split(2) by (auto simp: bt_wf_def sorted_wrt_append)
  moreover have "prefix (fst m') (fst m) \<or> prefix (fst m) (fst m')"
    using prefix_same_cases below_prefix_prefix [OF assms(4)] below_prefix_prefix mount_of_Some [OF assms(2)] by blast
  ultimately show ?thesis
  proof (elim disjE)
    assume "fst m' < fst m" "prefix (fst m) (fst m')"
    moreover from this have "strict_prefix (fst m) (fst m')" by (auto simp: strict_prefix_def)
    ultimately show ?thesis using prefix_less less_asym by blast
  qed auto
qed

lemma first_layer_without:
  "first_layer st d roots (without_current_dir s) fallback =
     (case find (\<lambda>root. \<not> is_hidden st root (root @ named_parts s) \<and> d (root @ named_parts s) \<noteq> None) roots of
        Some root \<Rightarrow> Some (root @ named_parts s)
      | None \<Rightarrow> if fallback then map_option (\<lambda>root. root @ named_parts s) (first_of roots) else None)"
  unfolding first_layer_def exists_case_sensitive_def join_without ..

text \<open>C27. The mount that answers for a path is the most specific one it is under, its prefix an extension of every
  other; the answer is the first of its layers that has the path and does not hide it, and where none has
  it and a place to create it is wanted, its top layer.\<close>

theorem most_specific_mount_answers:
  assumes "bt_wf (mt_mounts st)" "mount_of (forward_slashes guest_path) (rev (mt_mounts st)) = Some m"
  shows "(\<forall>m' \<in> set (mt_mounts st). below_prefix (fst m') (forward_slashes guest_path) \<longrightarrow> prefix (fst m') (fst m)) \<and>
    resolve_walk st d guest_path fallback =
      (let names = named_parts (after_mount (fst m) (forward_slashes guest_path)) in
       if names = [] then first_of (snd m)
       else if ''..'' \<in> set names then None
       else case find (\<lambda>root. \<not> is_hidden st root (root @ names) \<and> d (root @ names) \<noteq> None) (snd m) of
              Some root \<Rightarrow> Some (root @ names)
            | None \<Rightarrow> if fallback then map_option (\<lambda>root. root @ names) (first_of (snd m)) else None)"
proof -
  let ?s = "trim_start (after_mount (fst m) (forward_slashes guest_path))"
  have parts: "named_parts ?s = named_parts (after_mount (fst m) (forward_slashes guest_path))" by simp
  have "is_contained (without_current_dir ?s) \<longleftrightarrow> named_parts ?s \<noteq> [] \<and> ''..'' \<notin> set (named_parts ?s)"
    by (rule contained_iff)
  then have "resolve_walk st d guest_path fallback =
      (let names = named_parts ?s in
       if names = [] then first_of (snd m)
       else if ''..'' \<in> set names then None
       else case find (\<lambda>root. \<not> is_hidden st root (root @ names) \<and> d (root @ names) \<noteq> None) (snd m) of
              Some root \<Rightarrow> Some (root @ names)
            | None \<Rightarrow> if fallback then map_option (\<lambda>root. root @ names) (first_of (snd m)) else None)"
    using assms(2) by (simp add: resolve_walk_def resolve_in_mount resolve_at_def Let_def without_current_dir_empty
        first_layer_without del: trim_start_named)
  then show ?thesis using mount_of_longest [OF assms] unfolding parts by blast
qed

theorem most_specific_mount_answers_witness:
  "prefix ''/app0'' ''/app0/save'' \<and> resolve_walk example_mounts example_disk ''/app0/save/a'' True = Some [''over'', ''s'', ''a'']"
proof -
  have wf: "bt_wf (mt_mounts example_mounts)" by (simp add: example_mounts_def bt_wf_def)
  have m: "mount_of (forward_slashes ''/app0/save/a'') (rev (mt_mounts example_mounts)) = Some (''/app0/save'', [[''over'', ''s'']])"
    by code_simp
  have names: "named_parts (after_mount ''/app0/save'' (forward_slashes ''/app0/save/a'')) = [''a'']" by code_simp
  show ?thesis using most_specific_mount_answers [OF wf m, of example_disk True]
    by (simp add: names Let_def example_mounts_def is_hidden_def example_disk_def first_of_def)
qed

section \<open>Writing touches the top layer alone\<close>

lemma create_dir_all_frame:
  assumes "create_dir_all allows p d = Some d'"
  shows "\<not> prefix q p \<Longrightarrow> d' q = d q" "d q = Some n \<Longrightarrow> d' q = Some n" "d' p = Some Dir"
proof -
  have above: "q \<in> set (map (\<lambda>k. take k p) [0..<length p + 1]) \<longleftrightarrow> prefix q p" for q
  proof
    assume "prefix q p"
    then have "q = take (length q) p" "length q < length p + 1" by (auto simp: prefix_def)
    then have "q \<in> (\<lambda>k. take k p) ` {0..<length p + 1}" by (intro image_eqI [of q _ "length q"]) auto
    then show "q \<in> set (map (\<lambda>k. take k p) [0..<length p + 1])" by (simp only: set_map set_upt)
  qed (auto simp: take_is_prefix)
  have d': "d' = (\<lambda>q. if q \<in> set (map (\<lambda>k. take k p) [0..<length p + 1]) \<and> d q = None then Some Dir else d q)"
    and clear: "\<not> (\<exists>q \<in> set (map (\<lambda>k. take k p) [0..<length p + 1]). case d q of Some (File _) \<Rightarrow> True | Some Dir \<Rightarrow> False | None \<Rightarrow> \<not> allows q)"
    using assms by (auto simp: create_dir_all_def Let_def split: if_splits)
  show "\<not> prefix q p \<Longrightarrow> d' q = d q" "d q = Some n \<Longrightarrow> d' q = Some n" unfolding d' above by auto
  have "\<not> (case d p of Some (File _) \<Rightarrow> True | Some Dir \<Rightarrow> False | None \<Rightarrow> \<not> allows p)"
    using clear above [of p] by blast
  then show "d' p = Some Dir" unfolding d' above by (auto split: option.splits node.splits)
qed

lemma copy_up_frame:
  assumes "copy_up allows lower upper d = Some d'" "d lower = Some n"
  shows "(\<not> prefix q upper \<longrightarrow> d' q = d q) \<and> (\<forall>n. d q = Some n \<longrightarrow> q \<noteq> upper \<longrightarrow> d' q = Some n) \<and> d' upper = Some n"
proof -
  obtain d1 where d1: "(case parent upper of Some p \<Rightarrow> create_dir_all allows p d | None \<Rightarrow> Some d) = Some d1"
    "(if d1 lower = Some Dir then create_dir_all allows upper d1 else copy_file allows lower upper d1) = Some d'"
    using assms(1) by (auto simp: copy_up_def split: option.splits)
  have pre: "prefix (butlast upper) upper" by (simp add: prefixeq_butlast)
  have first: "\<not> prefix q upper \<Longrightarrow> d1 q = d q" "d q = Some k \<Longrightarrow> d1 q = Some k" for q k
  proof -
    show "\<not> prefix q upper \<Longrightarrow> d1 q = d q"
      using d1(1) create_dir_all_frame(1) [of allows "butlast upper" d d1 q] pre prefix_order.trans
      by (auto simp: parent_def split: if_splits)
    show "d q = Some k \<Longrightarrow> d1 q = Some k"
      using d1(1) create_dir_all_frame(2) [of allows "butlast upper" d d1 q k] by (auto simp: parent_def split: if_splits)
  qed
  show ?thesis
  proof (cases "n = Dir")
    case True
    then have c: "create_dir_all allows upper d1 = Some d'" using d1(2) first(2) [OF assms(2)] by simp
    show ?thesis using create_dir_all_frame [OF c] first True by auto
  next
    case False
    then obtain b where "n = File b" by (cases n) auto
    then have "d' = d1(upper \<mapsto> File b)" "n = File b"
      using d1(2) first(2) [OF assms(2)] by (auto simp: copy_file_def split: option.splits if_splits)
    then show ?thesis using first by auto
  qed
qed

lemma resolve_existing_there:
  assumes "resolve_existing st d guest_path = Some found" "locate_for_write st d guest_path = Some (upper, Some found)"
  shows "d found \<noteq> None"
proof -
  let ?p = "forward_slashes guest_path"
  obtain m where m: "mount_of ?p (rev (mt_mounts st)) = Some m" "resolve_at st d ?p False m = Some found"
    using assms(1) by (auto simp: resolve_existing_def resolve_inner_def resolve_walk_def resolve_in_mount bind_eq_Some_conv split: if_splits)
  have "found \<noteq> upper" "top_at ?p m = Some upper"
    using assms(2) m(1) by (auto simp: locate_for_write_def resolve_top_def top_in_mount split: option.splits if_splits)
  then show ?thesis
    using m(2) by (auto simp: resolve_at_def top_at_def Let_def first_layer_def exists_case_sensitive_def without_current_dir_empty
        split: if_splits option.splits dest!: find_mem)
qed



end
