(* ===== verification/Shader_Tables.thy ===== *)
theory Shader_Tables
  imports Ordered_Map "HOL-Library.List_Lexorder" "HOL-Library.Char_ord" "HOL-Library.Multiset"
begin

text \<open>
  The tables a shader is decoded with (\<^verbatim>\<open>orbistoun-shader/src/encoding.rs\<close>, \<^verbatim>\<open>operand.rs\<close>, \<^verbatim>\<open>mnemonics.rs\<close>,
  \<^verbatim>\<open>formats.rs\<close>): the encoding families, each matching masked bits of an instruction's first word; the operand
  layouts solved per opcode; the instruction names; the source-operand space; the typed-buffer formats.

  A table is loaded from a file that a library parses; the parsed file is the argument here, and the load
  refuses what the source refuses, the texts of its messages aside. A shift past a word, and a sum or a
  product past 32 bits, is a panic, as in a checked build: no load refuses such a field.

  The lemmas show what every loaded table has: that the most specific family that matches a word answers
  for it whatever the order of the file, that a name leads to the opcode that has it, and that a code is
  in one range at most.
\<close>

unbundle bit_operations_syntax

type_synonym dword32 = "32 word"

definition fits_u32 :: "nat \<Rightarrow> (unit, nat) outcome" where
  "fits_u32 n = (if n < 2 ^ 32 then Ok n else Panic)"

definition shift_right :: "dword32 \<Rightarrow> nat \<Rightarrow> (unit, dword32) outcome" where
  "shift_right w n = (if n < 32 then Ok (drop_bit n w) else Panic)"

definition nth_word :: "'a list \<Rightarrow> nat \<Rightarrow> 'a option" where
  "nth_word xs i = (if i < length xs then Some (xs ! i) else None)"

definition u16_or_max :: "nat \<Rightarrow> nat" where
  "u16_or_max n = (if n \<le> 65535 then n else 65535)"

section \<open>Operand fields and slots\<close>

record OperandField =
  of_shift :: nat
  of_width :: nat
  of_word :: nat

definition bits_mask :: "nat \<Rightarrow> dword32" where
  "bits_mask width = (if 32 \<le> width then - 1 else push_bit width 1 - 1)"

definition field_extract :: "OperandField \<Rightarrow> dword32 \<Rightarrow> (unit, dword32) outcome" where
  "field_extract f w = out_bind (shift_right w (of_shift f)) (\<lambda>v. Ok (v AND bits_mask (of_width f)))"

definition LITERAL_MARKER :: dword32 where "LITERAL_MARKER = 255"

definition MODIFIER_MARKERS :: "dword32 list" where "MODIFIER_MARKERS = [233, 234, 249, 250]"

definition field_selects_literal :: "OperandField \<Rightarrow> dword32 list \<Rightarrow> (unit, bool) outcome" where
  "field_selects_literal f words =
     (case nth_word words (of_word f) of
        Some w \<Rightarrow> out_bind (field_extract f w) (\<lambda>v. Ok (v = LITERAL_MARKER))
      | None \<Rightarrow> Ok False)"

datatype SlotKind = Source | Vgpr | Immediate_slot | Implicit

record OperandSlot =
  sl_name :: string
  sl_word :: nat
  sl_shift :: nat
  sl_width :: nat
  sl_kind :: SlotKind
  sl_scale :: "nat option"
  sl_implicit :: "string option"

definition slot_extract :: "OperandSlot \<Rightarrow> dword32 \<Rightarrow> (unit, dword32) outcome" where
  "slot_extract s w =
     out_bind (shift_right w (sl_shift s)) (\<lambda>v.
       let raw = v AND bits_mask (sl_width s)
       in Ok (case sl_scale s of Some factor \<Rightarrow> raw * word_of_nat factor | None \<Rightarrow> raw))"

section \<open>Encoding families\<close>

record Encoding =
  en_name :: string
  en_mask :: dword32
  en_value :: dword32
  en_opcode :: OperandField
  en_opcode_extension :: "OperandField option"
  en_width_bytes :: nat
  en_extra_dwords :: "OperandField option"
  en_literal_operands :: "OperandField list"
  en_modifier_operands :: "OperandField list"
  en_operands :: "OperandSlot list option"

definition matches :: "Encoding \<Rightarrow> dword32 \<Rightarrow> bool" where
  "matches e w \<longleftrightarrow> w AND en_mask e = en_value e"

definition specificity :: "Encoding \<Rightarrow> nat" where
  "specificity e = length (filter (bit (en_mask e)) [0..<32])"

definition opcode_of :: "Encoding \<Rightarrow> dword32 list \<Rightarrow> (unit, dword32) outcome" where
  "opcode_of e words =
     out_bind (case nth_word words 0 of Some w \<Rightarrow> field_extract (en_opcode e) w | None \<Rightarrow> Ok 0) (\<lambda>low.
       case en_opcode_extension e of
         Some f \<Rightarrow>
           (case nth_word words (of_word f) of
              Some w \<Rightarrow>
                out_bind (field_extract f w) (\<lambda>high.
                  if of_width (en_opcode e) < 32 then Ok (low OR push_bit (of_width (en_opcode e)) high) else Panic)
            | None \<Rightarrow> Ok low)
       | None \<Rightarrow> Ok low)"

fun any_literal :: "OperandField list \<Rightarrow> dword32 list \<Rightarrow> (unit, bool) outcome" where
  "any_literal [] words = Ok False"
| "any_literal (f # fs) words = out_bind (field_selects_literal f words) (\<lambda>b. if b then Ok True else any_literal fs words)"

fun find_modifier :: "OperandField list \<Rightarrow> dword32 list \<Rightarrow> (unit, dword32 option) outcome" where
  "find_modifier [] words = Ok None"
| "find_modifier (f # fs) words =
     (case nth_word words (of_word f) of
        None \<Rightarrow> find_modifier fs words
      | Some w \<Rightarrow>
          out_bind (field_extract f w) (\<lambda>code.
            if code \<in> set MODIFIER_MARKERS then Ok (Some code) else find_modifier fs words))"

definition modifier_selected :: "Encoding \<Rightarrow> dword32 list \<Rightarrow> (unit, dword32 option) outcome" where
  "modifier_selected e words = find_modifier (en_modifier_operands e) words"

definition extra_bytes :: "Encoding \<Rightarrow> dword32 list \<Rightarrow> (unit, nat) outcome" where
  "extra_bytes e words =
     (case en_extra_dwords e of
        None \<Rightarrow> Ok 0
      | Some f \<Rightarrow>
          (case nth_word words (of_word f) of
             None \<Rightarrow> Ok 0
           | Some w \<Rightarrow> out_bind (field_extract f w) (\<lambda>v. fits_u32 (unat v * 4))))"

definition length_bytes :: "Encoding \<Rightarrow> dword32 list \<Rightarrow> (unit, nat) outcome" where
  "length_bytes e words =
     out_bind (any_literal (en_literal_operands e) words) (\<lambda>literal.
     out_bind (extra_bytes e words) (\<lambda>extra.
     out_bind (modifier_selected e words) (\<lambda>modifier.
       fits_u32 (en_width_bytes e + extra + (if literal \<or> modifier \<noteq> None then 4 else 0)))))"

section \<open>The encoding table\<close>

datatype ShaderError =
  NoEncodings
| ValueOutsideMask string
| PartialDwords string
| OtherTarget string
| NoTarget
| TooFewSamples string dword32
| NamedTwice string dword32
| NamesDrifted string dword32
| NoRanges
| InvertedRange nat nat
| UnnamedRange nat nat
| OverlappingRanges nat nat
| FormatTwice nat

type_synonym 'v by_family = "(string, (dword32, 'v) btree) btree"

definition by_family_get :: "'v by_family \<Rightarrow> string \<Rightarrow> dword32 \<Rightarrow> 'v option" where
  "by_family_get m family opcode = (case bt_get m family of Some ops \<Rightarrow> bt_get ops opcode | None \<Rightarrow> None)"

definition by_family_insert :: "string \<Rightarrow> dword32 \<Rightarrow> 'v \<Rightarrow> 'v by_family \<Rightarrow> 'v by_family" where
  "by_family_insert family opcode v m =
     bt_insert family (bt_insert opcode v (case bt_get m family of Some ops \<Rightarrow> ops | None \<Rightarrow> [])) m"

definition by_family_iter :: "'v by_family \<Rightarrow> (string \<times> dword32 \<times> 'v) list" where
  "by_family_iter m = concat (map (\<lambda>(family, ops). map (\<lambda>(opcode, v). (family, opcode, v)) ops) m)"

definition by_family_len :: "'v by_family \<Rightarrow> nat" where
  "by_family_len m = sum_list (map (\<lambda>(_, ops). length ops) m)"

record EncodingTable =
  et_encodings :: "Encoding list"
  et_per_opcode :: "OperandSlot list by_family"
  et_names :: "string by_family"
  et_by_name :: "(string, string \<times> dword32) btree"
  et_target :: string

record OpcodeOperands =
  oo_family :: string
  oo_opcode :: dword32
  oo_mnemonic :: string
  oo_samples :: nat
  oo_operands :: "OperandSlot list"

text \<open>The first entry the load refuses, and why.\<close>

fun refused_encoding :: "Encoding list \<Rightarrow> ShaderError option" where
  "refused_encoding [] = None"
| "refused_encoding (e # es) =
     (if en_value e AND NOT (en_mask e) \<noteq> 0 then Some (ValueOutsideMask (en_name e))
      else if en_width_bytes e = 0 \<or> en_width_bytes e mod 4 \<noteq> 0 then Some (PartialDwords (en_name e))
      else refused_encoding es)"

definition load_encodings :: "string \<Rightarrow> Encoding list \<Rightarrow> ShaderError + EncodingTable" where
  "load_encodings target file =
     (if file = [] then Inl NoEncodings
      else case refused_encoding file of
             Some e \<Rightarrow> Inl e
           | None \<Rightarrow>
               Inr \<lparr>et_encodings = sort_key (\<lambda>e. - int (specificity e)) file, et_per_opcode = [], et_names = [],
                    et_by_name = [], et_target = target\<rparr>)"

definition is_blank :: "char \<Rightarrow> bool" where
  "is_blank c \<longleftrightarrow> c \<in> set [CHR '' '', CHR 0x09, CHR 0x0A, CHR 0x0B, CHR 0x0C, CHR 0x0D]"

definition trim :: "string \<Rightarrow> string" where
  "trim s = rev (dropWhile is_blank (rev (dropWhile is_blank s)))"

definition require_same_target :: "EncodingTable \<Rightarrow> string \<Rightarrow> ShaderError option" where
  "require_same_target t other = (if trim other = trim (et_target t) then None else Some (OtherTarget (trim other)))"

definition add_operands :: "OpcodeOperands \<Rightarrow> EncodingTable \<Rightarrow> EncodingTable" where
  "add_operands entry t =
     t\<lparr>et_names := by_family_insert (oo_family entry) (oo_opcode entry) (oo_mnemonic entry) (et_names t),
       et_by_name := bt_insert (oo_mnemonic entry) (oo_family entry, oo_opcode entry) (et_by_name t),
       et_per_opcode := by_family_insert (oo_family entry) (oo_opcode entry) (oo_operands entry) (et_per_opcode t)\<rparr>"

fun add_all_operands :: "OpcodeOperands list \<Rightarrow> EncodingTable \<Rightarrow> ShaderError + EncodingTable" where
  "add_all_operands [] t = Inr t"
| "add_all_operands (entry # es) t =
     (if oo_samples entry < 2 \<and> oo_operands entry \<noteq> [] then Inl (TooFewSamples (oo_family entry) (oo_opcode entry))
      else add_all_operands es (add_operands entry t))"

definition load_opcode_operands :: "string \<Rightarrow> OpcodeOperands list \<Rightarrow> EncodingTable \<Rightarrow> ShaderError + EncodingTable" where
  "load_opcode_operands target file t =
     (case require_same_target t target of Some e \<Rightarrow> Inl e | None \<Rightarrow> add_all_operands file t)"

section \<open>Instruction names\<close>

type_synonym mnemonic_entry = "string \<times> dword32 \<times> string"

record MnemonicTable =
  mn_names :: "mnemonic_entry list"
  mn_target :: string

text \<open>The names are kept by family and opcode, in that order; a key named twice is refused.\<close>

fun put_mnemonic :: "mnemonic_entry \<Rightarrow> mnemonic_entry list \<Rightarrow> mnemonic_entry list option" where
  "put_mnemonic (f, oc, n) [] = Some [(f, oc, n)]"
| "put_mnemonic (f, oc, n) ((f', oc', n') # es) =
     (if f = f' \<and> oc = oc' then None
      else if f < f' \<or> (f = f' \<and> oc < oc') then Some ((f, oc, n) # (f', oc', n') # es)
      else map_option ((#) (f', oc', n')) (put_mnemonic (f, oc, n) es))"

fun put_mnemonics :: "mnemonic_entry list \<Rightarrow> mnemonic_entry list \<Rightarrow> ShaderError + mnemonic_entry list" where
  "put_mnemonics [] names = Inr names"
| "put_mnemonics (e # es) names =
     (case put_mnemonic e names of
        None \<Rightarrow> Inl (NamedTwice (fst e) (fst (snd e)))
      | Some names' \<Rightarrow> put_mnemonics es names')"

definition load_mnemonics :: "string \<Rightarrow> mnemonic_entry list \<Rightarrow> ShaderError + MnemonicTable" where
  "load_mnemonics target file =
     (case put_mnemonics file [] of Inl e \<Rightarrow> Inl e | Inr names \<Rightarrow> Inr \<lparr>mn_names = names, mn_target = target\<rparr>)"

definition mnemonic_name :: "MnemonicTable \<Rightarrow> string \<Rightarrow> dword32 \<Rightarrow> string option" where
  "mnemonic_name t family opcode =
     map_option (snd \<circ> snd) (find (\<lambda>e. fst e = family \<and> fst (snd e) = opcode) (mn_names t))"

definition note_name :: "string \<Rightarrow> dword32 \<Rightarrow> string \<Rightarrow> EncodingTable \<Rightarrow> EncodingTable" where
  "note_name family opcode name t =
     t\<lparr>et_names := by_family_insert family opcode name (et_names t),
       et_by_name := (if bt_get (et_by_name t) name = None then bt_insert name (family, opcode) (et_by_name t) else et_by_name t)\<rparr>"

fun add_each_name :: "mnemonic_entry list \<Rightarrow> EncodingTable \<Rightarrow> ShaderError + EncodingTable" where
  "add_each_name [] t = Inr t"
| "add_each_name ((family, opcode, name) # es) t =
     (if by_family_get (et_names t) family opcode \<notin> {None, Some name} then Inl (NamesDrifted family opcode)
      else add_each_name es (note_name family opcode name t))"

definition add_names :: "string \<Rightarrow> mnemonic_entry list \<Rightarrow> EncodingTable \<Rightarrow> ShaderError + EncodingTable" where
  "add_names target file t =
     (case load_mnemonics target file of
        Inl e \<Rightarrow> Inl e
      | Inr m \<Rightarrow> (case require_same_target t (mn_target m) of Some e \<Rightarrow> Inl e | None \<Rightarrow> add_each_name (mn_names m) t))"

text \<open>The built-in table, from the three files it is read from, each with the target it declares.\<close>

definition builtin_table ::
    "string \<times> Encoding list \<Rightarrow> string \<times> OpcodeOperands list \<Rightarrow> string \<times> mnemonic_entry list \<Rightarrow> ShaderError + EncodingTable" where
  "builtin_table encodings layouts names =
     (case load_encodings (fst encodings) (snd encodings) of
        Inl e \<Rightarrow> Inl e
      | Inr t \<Rightarrow>
          if trim (et_target t) = [] then Inl NoTarget
          else case load_opcode_operands (fst layouts) (snd layouts) t of
                 Inl e \<Rightarrow> Inl e
               | Inr t' \<Rightarrow> add_names (fst names) (snd names) t')"

definition operands_for :: "EncodingTable \<Rightarrow> string \<Rightarrow> dword32 \<Rightarrow> OperandSlot list option" where
  "operands_for t family opcode = by_family_get (et_per_opcode t) family opcode"

definition mnemonic_for :: "EncodingTable \<Rightarrow> string \<Rightarrow> dword32 \<Rightarrow> string option" where
  "mnemonic_for t family opcode = by_family_get (et_names t) family opcode"

definition find_by_name :: "EncodingTable \<Rightarrow> string \<Rightarrow> (string \<times> dword32) option" where
  "find_by_name t mnemonic = bt_get (et_by_name t) mnemonic"

definition table_names :: "EncodingTable \<Rightarrow> (string \<times> dword32 \<times> string) list" where
  "table_names t = by_family_iter (et_names t)"

definition solved_opcode_count :: "EncodingTable \<Rightarrow> nat" where
  "solved_opcode_count t = by_family_len (et_per_opcode t)"

definition lookup_encoding :: "EncodingTable \<Rightarrow> dword32 \<Rightarrow> (nat \<times> Encoding) option" where
  "lookup_encoding t w =
     (case position (\<lambda>e. matches e w) (et_encodings t) of
        Some i \<Rightarrow> if i \<le> 65535 then Some (i, et_encodings t ! i) else None
      | None \<Rightarrow> None)"

section \<open>The source-operand space\<close>

datatype Operand =
  Scalar nat
| Vector nat
| Named string
| Integer int
| Literal dword32
| Immediate int
| Unrecognised nat

datatype RangeKind = SgprRange | VgprRange | NamedRange | IntegerRange | NegativeIntegerRange | LiteralRange

record CodeRange =
  cr_first :: nat
  cr_last :: nat
  cr_kind :: RangeKind
  cr_name :: "string option"
  cr_origin :: "nat option"

type_synonym OperandTable = "CodeRange list"

fun refused_range :: "CodeRange list \<Rightarrow> ShaderError option" where
  "refused_range [] = None"
| "refused_range (r # rs) =
     (if cr_first r > cr_last r then Some (InvertedRange (cr_first r) (cr_last r))
      else if cr_kind r = NamedRange \<and> cr_name r = None then Some (UnnamedRange (cr_first r) (cr_last r))
      else refused_range rs)"

fun overlapping_pair :: "CodeRange list \<Rightarrow> ShaderError option" where
  "overlapping_pair (a # b # rs) =
     (if cr_last a \<ge> cr_first b then Some (OverlappingRanges (cr_first a) (cr_first b)) else overlapping_pair (b # rs))"
| "overlapping_pair _ = None"

definition load_operands :: "CodeRange list \<Rightarrow> ShaderError + OperandTable" where
  "load_operands file =
     (if file = [] then Inl NoRanges
      else case refused_range file of
             Some e \<Rightarrow> Inl e
           | None \<Rightarrow>
               let ranges = sort_key cr_first file
               in case overlapping_pair ranges of Some e \<Rightarrow> Inl e | None \<Rightarrow> Inr ranges)"

definition range_for :: "OperandTable \<Rightarrow> nat \<Rightarrow> CodeRange option" where
  "range_for t code = find (\<lambda>r. cr_first r \<le> code \<and> code \<le> cr_last r) t"

definition selects_literal :: "OperandTable \<Rightarrow> nat \<Rightarrow> bool" where
  "selects_literal t code = (case range_for t code of Some r \<Rightarrow> cr_kind r = LiteralRange | None \<Rightarrow> False)"

definition from_origin :: "nat \<Rightarrow> nat \<Rightarrow> (unit, nat) outcome" where
  "from_origin code origin = (if origin \<le> code then Ok (u16_or_max (code - origin)) else Panic)"

definition classify_in :: "CodeRange \<Rightarrow> nat \<Rightarrow> dword32 option \<Rightarrow> (unit, Operand) outcome" where
  "classify_in r code literal =
     (let origin = (case cr_origin r of Some n \<Rightarrow> n | None \<Rightarrow> cr_first r)
      in case cr_kind r of
           SgprRange \<Rightarrow> out_bind (from_origin code origin) (\<lambda>n. Ok (Scalar n))
         | VgprRange \<Rightarrow> out_bind (from_origin code origin) (\<lambda>n. Ok (Vector n))
         | NamedRange \<Rightarrow> Ok (case cr_name r of Some n \<Rightarrow> Named n | None \<Rightarrow> Unrecognised 65535)
         | IntegerRange \<Rightarrow> Ok (Integer (int code - int origin))
         | NegativeIntegerRange \<Rightarrow> Ok (Integer (- (int code - int origin)))
         | LiteralRange \<Rightarrow> Ok (case literal of Some w \<Rightarrow> Literal w | None \<Rightarrow> Unrecognised (u16_or_max code)))"

definition classify :: "OperandTable \<Rightarrow> nat \<Rightarrow> dword32 option \<Rightarrow> (unit, Operand) outcome" where
  "classify t code literal =
     (case range_for t code of None \<Rightarrow> Ok (Unrecognised (u16_or_max code)) | Some r \<Rightarrow> classify_in r code literal)"

section \<open>Typed-buffer formats\<close>

datatype ComponentKind = Unorm | Snorm | Uscaled | Sscaled | Uint | Sint | FloatKind | Srgb

record BufferFormat =
  bf_code :: nat
  bf_name :: string
  bf_widths :: "nat list"
  bf_kind :: ComponentKind

definition is_plain_words :: "BufferFormat \<Rightarrow> bool" where
  "is_plain_words f \<longleftrightarrow> bf_widths f \<noteq> [] \<and> (\<forall>w \<in> set (bf_widths f). w = 32)"

definition format_components :: "BufferFormat \<Rightarrow> nat" where
  "format_components f = length (bf_widths f)"

fun format_twice :: "BufferFormat list \<Rightarrow> ShaderError option" where
  "format_twice (a # b # fs) = (if bf_code a = bf_code b then Some (FormatTwice (bf_code a)) else format_twice (b # fs))"
| "format_twice _ = None"

definition load_formats :: "BufferFormat list \<Rightarrow> ShaderError + BufferFormat list" where
  "load_formats file =
     (let formats = sort_key bf_code file
      in case format_twice formats of Some e \<Rightarrow> Inl e | None \<Rightarrow> Inr formats)"

definition FORMAT_SHIFT :: nat where "FORMAT_SHIFT = 19"
definition FORMAT_WIDTH :: nat where "FORMAT_WIDTH = 7"

definition format_field :: "dword32 \<Rightarrow> dword32" where
  "format_field w = drop_bit FORMAT_SHIFT w AND (push_bit FORMAT_WIDTH 1 - 1)"

text \<open>The search halves the formats that are left, those from one index up to another.\<close>

function search_format :: "BufferFormat list \<Rightarrow> nat \<Rightarrow> nat \<Rightarrow> nat \<Rightarrow> BufferFormat option" where
  "search_format fs code low high =
     (if low < high then
        let mid = low + (high - low) div 2; f = fs ! mid
        in if bf_code f = code then Some f
           else if bf_code f < code then search_format fs code (mid + 1) high
           else search_format fs code low mid
      else None)"
  by pat_completeness auto
termination
  by (relation "measure (\<lambda>(fs, code, low, high). high - low)") auto

declare search_format.simps [simp del]

definition get_format :: "BufferFormat list \<Rightarrow> nat \<Rightarrow> BufferFormat option" where
  "get_format fs code = search_format fs code 0 (length fs)"

section \<open>The most specific family answers\<close>

lemma position_before: "position p xs = Some i \<Longrightarrow> j < i \<Longrightarrow> \<not> p (xs ! j)"
  by (induction xs arbitrary: i j) (auto split: if_splits simp: less_Suc_eq_0_disj)

lemma option_eqI: "(\<And>x. a = Some x \<longleftrightarrow> b = Some x) \<Longrightarrow> a = b"
  by (cases a; cases b) auto

lemma refused_encoding_None:
  "refused_encoding es = None \<longleftrightarrow>
     (\<forall>e \<in> set es. en_value e AND NOT (en_mask e) = 0 \<and> 0 < en_width_bytes e \<and> en_width_bytes e mod 4 = 0)"
  by (induction es) auto

text \<open>What every loaded table has: whole dwords, values within their masks, the most specific first.\<close>

definition encodings_ok :: "Encoding list \<Rightarrow> bool" where
  "encodings_ok es \<longleftrightarrow>
     (\<forall>e \<in> set es. en_value e AND NOT (en_mask e) = 0 \<and> 0 < en_width_bytes e \<and> en_width_bytes e mod 4 = 0) \<and>
     sorted_wrt (\<lambda>a b. specificity b \<le> specificity a) es"

lemma load_encodings_Inr:
  assumes "load_encodings target file = Inr t"
  shows "mset (et_encodings t) = mset file" "encodings_ok (et_encodings t)" "et_names t = []" "et_by_name t = []" "et_target t = target"
proof -
  have t: "t = \<lparr>et_encodings = sort_key (\<lambda>e. - int (specificity e)) file, et_per_opcode = [], et_names = [], et_by_name = [], et_target = target\<rparr>"
    and r: "refused_encoding file = None"
    using assms by (auto simp: load_encodings_def split: if_splits option.splits)
  have "sorted (map (\<lambda>e. - int (specificity e)) (et_encodings t))" by (simp add: t)
  then have "sorted_wrt (\<lambda>a b. specificity b \<le> specificity a) (et_encodings t)" by (simp add: sorted_map)
  then show "encodings_ok (et_encodings t)" using r unfolding encodings_ok_def refused_encoding_None by (simp add: t)
  show "mset (et_encodings t) = mset file" "et_names t = []" "et_by_name t = []" "et_target t = target" by (simp_all add: t)
qed

lemma lookup_encoding_Some:
  assumes "lookup_encoding t w = Some (i, e)" "encodings_ok (et_encodings t)"
  shows "i < length (et_encodings t)" "et_encodings t ! i = e" "matches e w"
    "e' \<in> set (et_encodings t) \<Longrightarrow> matches e' w \<Longrightarrow> specificity e' \<le> specificity e"
proof -
  have p: "position (\<lambda>e. matches e w) (et_encodings t) = Some i" "e = et_encodings t ! i"
    using assms(1) by (auto simp: lookup_encoding_def split: option.splits if_splits)
  then show i: "i < length (et_encodings t)" "et_encodings t ! i = e" "matches e w" using position_Some [OF p(1)] by auto
  assume e': "e' \<in> set (et_encodings t)" "matches e' w"
  then obtain j where j: "j < length (et_encodings t)" "e' = et_encodings t ! j" by (auto simp: in_set_conv_nth)
  have "\<not> j < i" using position_before [OF p(1)] j e'(2) by auto
  then have "j = i \<or> i < j" by auto
  then show "specificity e' \<le> specificity e"
    using assms(2) j i(1,2) by (auto simp: encodings_ok_def sorted_wrt_iff_nth_less)
qed

lemma lookup_encoding_None:
  assumes "lookup_encoding t w = None" "length (et_encodings t) \<le> 65536" "e \<in> set (et_encodings t)"
  shows "\<not> matches e w"
proof
  assume "matches e w"
  then obtain i where i: "position (\<lambda>e. matches e w) (et_encodings t) = Some i"
    using assms(3) position_None [of "\<lambda>e. matches e w" "et_encodings t"] by fastforce
  then have "i \<le> 65535" using position_Some [OF i] assms(2) by auto
  then show False using i assms(1) by (simp add: lookup_encoding_def)
qed

text \<open>Whatever order a file lists its families in, a word is read as the most specific family that matches it, and
  as none only when none matches: two files with the same families answer alike for a word, unless two
  families match it equally closely.\<close>

theorem family_is_most_specific:
  assumes "load_encodings target file = Inr t" "load_encodings target' file' = Inr t'" "mset file' = mset file"
    "length file \<le> 65536"
    "\<forall>a \<in> set file. \<forall>b \<in> set file. matches a w \<longrightarrow> matches b w \<longrightarrow> specificity a = specificity b \<longrightarrow> a = b"
  shows "(map_option snd (lookup_encoding t w) = Some e \<longleftrightarrow>
      e \<in> set file \<and> matches e w \<and> (\<forall>e' \<in> set file. matches e' w \<longrightarrow> specificity e' \<le> specificity e)) \<and>
    map_option snd (lookup_encoding t' w) = map_option snd (lookup_encoding t w)"
proof -
  have exact: "map_option snd (lookup_encoding u w) = Some x \<longleftrightarrow>
      x \<in> set file \<and> matches x w \<and> (\<forall>e' \<in> set file. matches e' w \<longrightarrow> specificity e' \<le> specificity x)"
    if u: "mset (et_encodings u) = mset file" "encodings_ok (et_encodings u)" for u x
  proof (cases "lookup_encoding u w")
    case None
    then show ?thesis using lookup_encoding_None [OF None] assms(4) mset_eq_setD [OF u(1)] mset_eq_length [OF u(1)] by auto
  next
    case (Some p)
    obtain i y where p: "p = (i, y)" by fastforce
    note y = lookup_encoding_Some [OF Some [unfolded p] u(2)]
    have "y \<in> set file" using y(1,2) mset_eq_setD [OF u(1)] nth_mem by blast
    moreover have "\<forall>e' \<in> set file. matches e' w \<longrightarrow> specificity e' \<le> specificity y" using y(4) mset_eq_setD [OF u(1)] by auto
    ultimately show ?thesis using y(3) assms(5) Some p by (metis (no_types, lifting) le_antisym option.map(2) option.inject snd_conv)
  qed
  have t: "mset (et_encodings t) = mset file" "encodings_ok (et_encodings t)" using load_encodings_Inr [OF assms(1)] by auto
  have t': "mset (et_encodings t') = mset file" "encodings_ok (et_encodings t')" using load_encodings_Inr [OF assms(2)] assms(3) by auto
  show ?thesis
  proof (intro conjI exact [OF t])
    show "map_option snd (lookup_encoding t' w) = map_option snd (lookup_encoding t w)"
      by (rule option_eqI) (simp only: exact [OF t] exact [OF t'])
  qed
qed

text \<open>Two families of the published set, the broad one listed first.\<close>

definition plain_encoding :: "string \<Rightarrow> dword32 \<Rightarrow> dword32 \<Rightarrow> OperandField \<Rightarrow> nat \<Rightarrow> Encoding" where
  "plain_encoding name m v oc width =
     \<lparr>en_name = name, en_mask = m, en_value = v, en_opcode = oc, en_opcode_extension = None, en_width_bytes = width,
      en_extra_dwords = None, en_literal_operands = [], en_modifier_operands = [], en_operands = None\<rparr>"

definition example_field :: "nat \<Rightarrow> nat \<Rightarrow> OperandField" where
  "example_field shift width = \<lparr>of_shift = shift, of_width = width, of_word = 0\<rparr>"

definition example_sop2 :: Encoding where
  "example_sop2 = (plain_encoding ''SOP2'' 0xC0000000 0x80000000 (example_field 23 7) 4)
     \<lparr>en_literal_operands := [example_field 0 8, example_field 8 8]\<rparr>"

definition example_sopp :: Encoding where
  "example_sopp = plain_encoding ''SOPP'' 0xFF800000 0xBF800000 (example_field 16 7) 4"

theorem family_is_most_specific_witness:
  "map_option snd (lookup_encoding (projr (load_encodings ''gfx10'' [example_sop2, example_sopp])) 0xBF810000) = Some example_sopp \<and>
   map_option snd (lookup_encoding (projr (load_encodings ''gfx10'' [example_sopp, example_sop2])) 0xBF810000) = Some example_sopp"
proof -
  let ?f = "[example_sop2, example_sopp]" let ?g = "[example_sopp, example_sop2]"
  have r: "refused_encoding ?f = None" "refused_encoding ?g = None" by code_simp+
  then have "load_encodings ''gfx10'' ?f = Inr (projr (load_encodings ''gfx10'' ?f))"
    "load_encodings ''gfx10'' ?g = Inr (projr (load_encodings ''gfx10'' ?g))" by (simp_all add: load_encodings_def)
  moreover have spec: "specificity example_sop2 = 2" "specificity example_sopp = 9" by code_simp+
  moreover have "matches example_sopp 0xBF810000" by code_simp
  ultimately show ?thesis
    using family_is_most_specific [of "''gfx10''" ?f _ "''gfx10''" ?g _ "0xBF810000" example_sopp] by (auto simp: add_mset_commute)
qed

section \<open>Names\<close>

lemma by_family_get_insert:
  "by_family_get (by_family_insert f oc v m) f' oc' = (if f' = f \<and> oc' = oc then Some v else by_family_get m f' oc')"
  by (auto simp: by_family_get_def by_family_insert_def bt_get_insert split: option.splits)

text \<open>Each name leads to an opcode that has it, and each name an opcode has leads somewhere.\<close>

definition agree :: "('k \<Rightarrow> 'n option) \<Rightarrow> ('n \<Rightarrow> 'k option) \<Rightarrow> bool" where
  "agree name at \<longleftrightarrow> (\<forall>n k. at n = Some k \<longrightarrow> name k = Some n) \<and> (\<forall>n k. name k = Some n \<longrightarrow> at n \<noteq> None)"

definition names_agree :: "EncodingTable \<Rightarrow> bool" where
  "names_agree t \<longleftrightarrow> agree (\<lambda>(f, oc). mnemonic_for t f oc) (find_by_name t)"

lemma names_agree_alt: "names_agree t \<longleftrightarrow> agree (\<lambda>(f, oc). by_family_get (et_names t) f oc) (bt_get (et_by_name t))"
proof -
  have "find_by_name t = bt_get (et_by_name t)" by (rule ext) (simp add: find_by_name_def)
  then show ?thesis by (simp add: names_agree_def mnemonic_for_def)
qed

lemma agree_put: "agree name at \<Longrightarrow> name k = None \<Longrightarrow> agree (name(k \<mapsto> n)) (at(n \<mapsto> k))"
  unfolding agree_def by (auto split: if_splits)

lemma agree_note: "agree name at \<Longrightarrow> name k \<in> {None, Some n} \<Longrightarrow> at n \<noteq> None \<Longrightarrow> agree (name(k \<mapsto> n)) at"
  unfolding agree_def by auto

lemma mnemonic_insert:
  "(\<lambda>(f', oc'). by_family_get (by_family_insert f oc n m) f' oc') = (\<lambda>(f', oc'). by_family_get m f' oc')((f, oc) \<mapsto> n)"
  by (auto simp: by_family_get_insert fun_eq_iff)

lemma add_operands_agree:
  assumes "names_agree t" "mnemonic_for t (oo_family e) (oo_opcode e) = None"
  shows "names_agree (add_operands e t)"
  using agree_put [OF assms(1) [unfolded names_agree_alt], of "(oo_family e, oo_opcode e)" "oo_mnemonic e"] assms(2)
  by (simp add: names_agree_alt mnemonic_for_def add_operands_def mnemonic_insert bt_get_insert)

lemma note_name_agree:
  assumes "names_agree t" "mnemonic_for t f oc \<in> {None, Some n}"
  shows "names_agree (note_name f oc n t)"
proof (cases "bt_get (et_by_name t) n = None")
  case True
  then have "mnemonic_for t f oc \<noteq> Some n" using assms(1) by (force simp: names_agree_alt agree_def mnemonic_for_def)
  then have "mnemonic_for t f oc = None" using assms(2) by simp
  then show ?thesis using agree_put [OF assms(1) [unfolded names_agree_alt], of "(f, oc)" n] True
    by (simp add: names_agree_alt mnemonic_for_def note_name_def mnemonic_insert bt_get_insert)
next
  case False
  then show ?thesis using agree_note [OF assms(1) [unfolded names_agree_alt], of "(f, oc)" n] assms(2)
    by (auto simp: names_agree_alt mnemonic_for_def note_name_def mnemonic_insert)
qed

lemma add_all_operands_agree:
  assumes "add_all_operands es t = Inr t'" "names_agree t" "distinct (map (\<lambda>e. (oo_family e, oo_opcode e)) es)"
    "\<forall>e \<in> set es. mnemonic_for t (oo_family e) (oo_opcode e) = None"
  shows "names_agree t' \<and> et_encodings t' = et_encodings t"
  using assms
proof (induction es arbitrary: t)
  case (Cons e es)
  have "mnemonic_for (add_operands e t) (oo_family x) (oo_opcode x) = None" if "x \<in> set es" for x
  proof -
    have "(oo_family x, oo_opcode x) \<noteq> (oo_family e, oo_opcode e)" using that Cons.prems(3) by (metis (no_types, lifting) distinct.simps(2) image_eqI list.set_map list.simps(9))
    then show ?thesis using that Cons.prems(4) by (auto simp: mnemonic_for_def add_operands_def by_family_get_insert)
  qed
  then show ?case using Cons.IH [of "add_operands e t"] Cons.prems add_operands_agree [of t e]
    by (auto simp: add_operands_def split: if_splits)
qed simp

lemma add_each_name_agree:
  "add_each_name es t = Inr t' \<Longrightarrow> names_agree t \<Longrightarrow> names_agree t' \<and> et_encodings t' = et_encodings t"
proof (induction es t rule: add_each_name.induct)
  case (2 f oc n es t)
  then show ?case using note_name_agree [of t f oc n] by (auto simp: mnemonic_for_def note_name_def split: if_splits)
qed simp

text \<open>C29. A table built from its three files has families that are whole dwords with values inside their masks, the
  most specific first; and where no opcode's layout is given twice, each name leads to an opcode that has
  that name and no other, and every name an opcode has leads to one.\<close>

theorem built_table_ok:
  assumes "builtin_table encodings layouts names = Inr t" "distinct (map (\<lambda>e. (oo_family e, oo_opcode e)) (snd layouts))"
  shows "mset (et_encodings t) = mset (snd encodings) \<and> encodings_ok (et_encodings t) \<and> names_agree t"
proof -
  obtain t0 t1 where t0: "load_encodings (fst encodings) (snd encodings) = Inr t0"
    and t1: "load_opcode_operands (fst layouts) (snd layouts) t0 = Inr t1"
    and t: "add_names (fst names) (snd names) t1 = Inr t"
    using assms(1) by (auto simp: builtin_table_def split: sum.splits if_splits)
  note l = load_encodings_Inr [OF t0]
  have empty: "mnemonic_for t0 f oc = None" "find_by_name t0 n = None" for f oc n
    by (simp_all add: mnemonic_for_def find_by_name_def by_family_get_def l)
  then have "names_agree t0" by (simp add: names_agree_def agree_def)
  moreover have "add_all_operands (snd layouts) t0 = Inr t1"
    using t1 by (auto simp: load_opcode_operands_def split: option.splits)
  ultimately have "names_agree t1 \<and> et_encodings t1 = et_encodings t0" using add_all_operands_agree assms(2) empty by blast
  moreover obtain m where "add_each_name m t1 = Inr t" using t by (auto simp: add_names_def split: sum.splits option.splits)
  ultimately show ?thesis using add_each_name_agree l(1,2) by metis
qed

theorem built_table_ok_witness:
  "\<exists>t. builtin_table (''g'', [example_sop2, example_sopp])
       (''g'', [\<lparr>oo_family = ''SOPP'', oo_opcode = 1, oo_mnemonic = ''s_endpgm'', oo_samples = 1, oo_operands = []\<rparr>])
       (''g'', [(''SOPP'', 2, ''s_branch'')]) = Inr t \<and> names_agree t \<and> encodings_ok (et_encodings t)"
proof -
  let ?l = "[\<lparr>oo_family = ''SOPP'', oo_opcode = 1, oo_mnemonic = ''s_endpgm'', oo_samples = 1, oo_operands = []\<rparr>]"
  have "isl (builtin_table (''g'', [example_sop2, example_sopp]) (''g'', ?l) (''g'', [(''SOPP'', 2, ''s_branch'')])) = False" by code_simp
  then obtain t where "builtin_table (''g'', [example_sop2, example_sopp]) (''g'', ?l) (''g'', [(''SOPP'', 2, ''s_branch'')]) = Inr t"
    by (cases "builtin_table (''g'', [example_sop2, example_sopp]) (''g'', ?l) (''g'', [(''SOPP'', 2, ''s_branch'')])") auto
  then show ?thesis using built_table_ok [of "(''g'', [example_sop2, example_sopp])" "(''g'', ?l)"] by auto
qed

section \<open>Operand codes and formats\<close>

lemma refused_range_None: "refused_range rs = None \<Longrightarrow> r \<in> set rs \<Longrightarrow> cr_first r \<le> cr_last r"
  by (induction rs) (auto split: if_splits)

lemma overlapping_pair_None:
  assumes "overlapping_pair rs = None" "\<forall>r \<in> set rs. cr_first r \<le> cr_last r"
  shows "sorted_wrt (\<lambda>a b. cr_last a < cr_first b) rs"
  using assms
proof (induction rs rule: overlapping_pair.induct)
  case (1 a b rs)
  then have s: "sorted_wrt (\<lambda>a b. cr_last a < cr_first b) (b # rs)" "cr_last a < cr_first b" by (auto split: if_splits)
  then have "cr_last a < cr_first r" if "r \<in> set rs" for r using that 1(3) by fastforce
  then show ?case using s by auto
qed auto

lemma load_operands_range:
  assumes "load_operands file = Inr t"
  shows "range_for t code = Some r \<longleftrightarrow> r \<in> set file \<and> cr_first r \<le> code \<and> code \<le> cr_last r"
proof -
  have t: "t = sort_key cr_first file" "refused_range file = None" "overlapping_pair t = None"
    using assms by (auto simp: load_operands_def Let_def split: if_splits option.splits)
  then have sorted: "sorted_wrt (\<lambda>a b. cr_last a < cr_first b) t"
    using refused_range_None [OF t(2)] by (intro overlapping_pair_None) auto
  have once: "a = b" if ab: "a \<in> set t" "b \<in> set t" "cr_first a \<le> code" "code \<le> cr_last a" "cr_first b \<le> code" "code \<le> cr_last b" for a b
  proof -
    obtain i j where ij: "i < length t" "a = t ! i" "j < length t" "b = t ! j" using ab(1,2) by (auto simp: in_set_conv_nth)
    have "\<not> i < j" "\<not> j < i" using sorted ij ab by (fastforce simp: sorted_wrt_iff_nth_less)+
    then show ?thesis using ij by simp
  qed
  have "range_for t code = Some r \<longleftrightarrow> r \<in> set t \<and> cr_first r \<le> code \<and> code \<le> cr_last r"
  proof (cases "range_for t code")
    case None
    then have "\<forall>r \<in> set t. \<not> (cr_first r \<le> code \<and> code \<le> cr_last r)" unfolding range_for_def find_None_iff by blast
    then show ?thesis using None by auto
  next
    case (Some q)
    then have "q \<in> set t \<and> cr_first q \<le> code \<and> code \<le> cr_last q" by (auto simp: range_for_def find_Some_iff in_set_conv_nth)
    then show ?thesis using Some once [of q r] by auto
  qed
  then show ?thesis by (simp add: t(1))
qed

text \<open>A loaded operand table gives a code the one range of its file that holds the code, whatever order the file
  lists them in, and reads a code that none holds as unrecognised.\<close>

theorem operand_range_exact:
  assumes "load_operands file = Inr t" "load_operands file' = Inr t'" "mset file' = mset file"
  shows "(range_for t code = Some r \<longleftrightarrow> r \<in> set file \<and> cr_first r \<le> code \<and> code \<le> cr_last r) \<and>
    classify t' code literal = classify t code literal \<and>
    ((\<forall>r \<in> set file. \<not> (cr_first r \<le> code \<and> code \<le> cr_last r)) \<longrightarrow> classify t code literal = Ok (Unrecognised (u16_or_max code)))"
proof -
  have same: "range_for t' code = range_for t code"
    by (rule option_eqI) (simp only: load_operands_range [OF assms(1)] load_operands_range [OF assms(2)] mset_eq_setD [OF assms(3)])
  have "range_for t code = None" if "\<forall>r \<in> set file. \<not> (cr_first r \<le> code \<and> code \<le> cr_last r)"
    using that load_operands_range [OF assms(1)] by (metis option.exhaust)
  then show ?thesis using load_operands_range [OF assms(1)] by (simp add: classify_def same)
qed

lemma format_twice_None: "format_twice fs = None \<Longrightarrow> sorted (map bf_code fs) \<Longrightarrow> sorted_wrt (\<lambda>a b. bf_code a < bf_code b) fs"
proof (induction fs rule: format_twice.induct)
  case (1 a b fs)
  then have s: "sorted_wrt (\<lambda>a b. bf_code a < bf_code b) (b # fs)" "bf_code a < bf_code b" by (auto split: if_splits)
  then show ?case by auto
qed auto

lemma search_format_step:
  "low < high \<Longrightarrow> search_format fs code low high =
     (let mid = low + (high - low) div 2 in if bf_code (fs ! mid) = code then Some (fs ! mid)
      else if bf_code (fs ! mid) < code then search_format fs code (mid + 1) high else search_format fs code low mid)"
  by (subst search_format.simps) (simp only: Let_def if_True)

lemma search_format_exact:
  assumes "sorted_wrt (\<lambda>a b. bf_code a < bf_code b) fs" "high \<le> length fs"
  shows "search_format fs code low high = Some f \<longleftrightarrow> (\<exists>i. low \<le> i \<and> i < high \<and> fs ! i = f \<and> bf_code f = code)"
  using assms(2)
proof (induction "high - low" arbitrary: low high rule: less_induct)
  case less
  have order: "bf_code (fs ! i) < bf_code (fs ! j)" if "i < j" "j < length fs" for i j
    using that assms(1) by (simp add: sorted_wrt_iff_nth_less)
  show ?case
  proof (cases "low < high")
    case False
    then show ?thesis by (subst search_format.simps) auto
  next
    case True
    define mid where "mid = low + (high - low) div 2"
    have mid: "low \<le> mid" "mid < high" "mid < length fs" using True less.prems by (auto simp: mid_def)
    note step = search_format_step [OF True, of fs code, folded mid_def, unfolded Let_def]
    have at: "(bf_code (fs ! mid) = code \<longrightarrow> i = mid) \<and> (bf_code (fs ! mid) < code \<longrightarrow> mid < i) \<and> (code < bf_code (fs ! mid) \<longrightarrow> i < mid)"
      if i: "i < high" "bf_code (fs ! i) = code" for i
    proof (cases i mid rule: linorder_cases)
      case less
      from order [OF this mid(3)] show ?thesis using i less by simp
    next
      case greater
      from order [OF this] show ?thesis using i greater \<open>high \<le> length fs\<close> by simp
    qed (use i in simp)
    consider "bf_code (fs ! mid) = code" | "bf_code (fs ! mid) < code" | "code < bf_code (fs ! mid)" by linarith
    then show ?thesis
    proof cases
      case 1
      then show ?thesis using step at mid by (metis option.inject)
    next
      case 2
      then have "search_format fs code low high = search_format fs code (mid + 1) high" using step by simp
      also have "\<dots> = Some f \<longleftrightarrow> (\<exists>i. mid + 1 \<le> i \<and> i < high \<and> fs ! i = f \<and> bf_code f = code)"
        using less.hyps [of high "mid + 1"] mid less.prems by simp
      also have "\<dots> \<longleftrightarrow> (\<exists>i. low \<le> i \<and> i < high \<and> fs ! i = f \<and> bf_code f = code)"
        using at 2 mid(1) by (metis Suc_eq_plus1 Suc_leD Suc_leI le_trans)
      finally show ?thesis .
    next
      case 3
      then have "search_format fs code low high = search_format fs code low mid" using step by simp
      also have "\<dots> = Some f \<longleftrightarrow> (\<exists>i. low \<le> i \<and> i < mid \<and> fs ! i = f \<and> bf_code f = code)"
        using less.hyps [of mid low] mid less.prems by simp
      also have "\<dots> \<longleftrightarrow> (\<exists>i. low \<le> i \<and> i < high \<and> fs ! i = f \<and> bf_code f = code)"
        using at 3 mid(2) by (metis less_trans)
      finally show ?thesis .
    qed
  qed
qed

lemma get_format_exact:
  assumes "load_formats file = Inr fs"
  shows "get_format fs code = Some f \<longleftrightarrow> f \<in> set file \<and> bf_code f = code"
proof -
  have fs: "fs = sort_key bf_code file" "format_twice fs = None" using assms by (auto simp: load_formats_def Let_def split: option.splits)
  then have "sorted_wrt (\<lambda>a b. bf_code a < bf_code b) fs" using format_twice_None by simp
  from search_format_exact [OF this order_refl, of code 0 f] show ?thesis
    by (simp add: get_format_def fs(1)) (metis in_set_conv_nth length_sort set_sort)
qed

theorem operand_range_exact_witness:
  "\<exists>t. load_operands [\<lparr>cr_first = 128, cr_last = 192, cr_kind = IntegerRange, cr_name = None, cr_origin = Some 128\<rparr>,
         \<lparr>cr_first = 0, cr_last = 105, cr_kind = SgprRange, cr_name = None, cr_origin = None\<rparr>] = Inr t \<and>
     classify t 129 None = Ok (Integer 1) \<and> classify t 37 None = Ok (Scalar 37) \<and> classify t 120 None = Ok (Unrecognised 120)"
proof -
  let ?i = "\<lparr>cr_first = 128, cr_last = 192, cr_kind = IntegerRange, cr_name = None, cr_origin = Some 128\<rparr>"
  let ?s = "\<lparr>cr_first = 0, cr_last = 105, cr_kind = SgprRange, cr_name = None, cr_origin = None\<rparr>"
  have l: "load_operands [?i, ?s] = Inr [?s, ?i]" by code_simp
  have "range_for [?s, ?i] 129 = Some ?i" "range_for [?s, ?i] 37 = Some ?s"
    using operand_range_exact [OF l l refl, of 129 ?i] operand_range_exact [OF l l refl, of 37 ?s] by auto
  moreover have "classify [?s, ?i] 120 None = Ok (Unrecognised 120)"
    using operand_range_exact [OF l l refl, of 120 ?s None] by (simp add: u16_or_max_def)
  ultimately show ?thesis using l by (simp add: classify_def classify_in_def from_origin_def u16_or_max_def)
qed

end
