(* ===== verification/Shader_Decode.thy ===== *)
theory Shader_Decode
  imports Shader_Tables "HOL-Library.Code_Target_Nat"
begin

text \<open>
  Walking a shader binary into instructions (\<^verbatim>\<open>orbistoun-shader/src/decode.rs\<close>). An instruction's length comes
  from its family, the literal or modifier its sources select and its operand layout; one no family claims
  is passed by the least length, and the walk says so. The walk of a shader with no declared length stops at
  the instruction that ends a program, unless a branch reaches past it.

  A step of the walk is a function, and the walk its iteration, undefined where a table would have it stand
  still. The lemmas show that with loaded tables the walk ends, that its instructions lie end to end, and
  that what follows a program's end does not change what is read of it.
\<close>

definition MIN_INSTRUCTION_BYTES :: nat where "MIN_INSTRUCTION_BYTES = 4"

record Instruction =
  in_offset :: nat
  in_length :: nat
  in_word :: dword32
  in_second_word :: "dword32 option"
  in_words :: "dword32 list"
  in_encoding :: "nat option"
  in_opcode :: dword32
  in_operands :: "Operand list"
  in_operands_decoded :: bool

definition is_known :: "Instruction \<Rightarrow> bool" where
  "is_known i \<longleftrightarrow> in_encoding i \<noteq> None"

record Decode =
  dc_instructions :: "Instruction list"
  dc_desynchronised :: bool
  dc_overran :: bool
  dc_trailing_bytes :: nat
  dc_terminated :: bool
  dc_consumed :: nat

definition known :: "Decode \<Rightarrow> nat" where
  "known d = length (filter is_known (dc_instructions d))"

definition unknown :: "Decode \<Rightarrow> nat" where
  "unknown d = length (dc_instructions d) - known d"

definition decode_trustworthy :: "Decode \<Rightarrow> bool" where
  "decode_trustworthy d \<longleftrightarrow> \<not> dc_desynchronised d \<and> \<not> dc_overran d \<and> dc_trailing_bytes d = 0"

definition read_word :: "byte list \<Rightarrow> nat \<Rightarrow> dword32 option" where
  "read_word bytes at = map_option (\<lambda>s. word_of_nat (le_nat s)) (get_range bytes at (at + 4))"

section \<open>One instruction\<close>

record Recognised =
  rc_length :: nat
  rc_encoding :: "nat option"
  rc_opcode :: dword32
  rc_operands :: "Operand list"
  rc_has_layout :: bool
  rc_second_word :: "dword32 option"

text \<open>The bytes a layout reaches over.\<close>

definition slot_reach :: "OperandSlot \<Rightarrow> (unit, nat) outcome" where
  "slot_reach s = fits_u32 ((sl_word s + 1) * 4)"

definition laid_out :: "OperandSlot list option \<Rightarrow> (unit, nat) outcome" where
  "laid_out slots =
     (case slots of
        None \<Rightarrow> Ok 0
      | Some ss \<Rightarrow> out_bind (out_map slot_reach (filter (\<lambda>s. sl_kind s \<noteq> Implicit) ss)) (\<lambda>rs. Ok (foldr max rs 0)))"

definition source_word :: "byte list \<Rightarrow> nat \<Rightarrow> dword32 \<Rightarrow> nat \<Rightarrow> OperandSlot \<Rightarrow> dword32 option" where
  "source_word bytes offset w fixed s =
     (if sl_word s = 0 then Some w
      else if sl_word s * 4 < fixed then read_word bytes (offset + sl_word s * 4)
      else None)"

definition decode_slot ::
    "OperandTable \<Rightarrow> byte list \<Rightarrow> nat \<Rightarrow> dword32 \<Rightarrow> nat \<Rightarrow> dword32 option \<Rightarrow> OperandSlot \<Rightarrow> (unit, Operand) outcome" where
  "decode_slot operands bytes offset w fixed literal s =
     (if sl_kind s = Implicit then Ok (case sl_implicit s of None \<Rightarrow> Unrecognised 65535 | Some n \<Rightarrow> Named n)
      else case source_word bytes offset w fixed s of
             None \<Rightarrow> Ok (Unrecognised 65535)
           | Some v \<Rightarrow>
               out_bind (slot_extract s v) (\<lambda>code.
                 case sl_kind s of
                   Source \<Rightarrow> classify operands (unat code) literal
                 | Vgpr \<Rightarrow> Ok (Vector (u16_or_max (unat code)))
                 | Immediate_slot \<Rightarrow> Ok (Immediate (uint code))
                 | Implicit \<Rightarrow> Ok (Unrecognised 65535)))"

definition layout_of :: "EncodingTable \<Rightarrow> Encoding \<Rightarrow> dword32 \<Rightarrow> OperandSlot list option" where
  "layout_of table found opcode =
     (case operands_for table (en_name found) opcode of Some s \<Rightarrow> Some s | None \<Rightarrow> en_operands found)"

definition recognise_known ::
    "byte list \<Rightarrow> nat \<Rightarrow> dword32 \<Rightarrow> EncodingTable \<Rightarrow> OperandTable \<Rightarrow> nat \<Rightarrow> Encoding \<Rightarrow> (unit, Recognised) outcome" where
  "recognise_known bytes offset w table operands index found =
     (let words = w # (case read_word bytes (offset + 4) of Some v \<Rightarrow> [v] | None \<Rightarrow> [])
      in out_bind (opcode_of found words) (\<lambda>opcode.
         let slots = layout_of table found opcode
         in out_bind (laid_out slots) (\<lambda>laid.
            out_bind (length_bytes found words) (\<lambda>len.
            out_bind (modifier_selected found words) (\<lambda>modifier.
            let literal = (if max len laid > en_width_bytes found \<and> modifier = None
                           then read_word bytes (offset + en_width_bytes found) else None)
            in out_bind (case slots of
                           None \<Rightarrow> Ok []
                         | Some ss \<Rightarrow> out_map (decode_slot operands bytes offset w (max (en_width_bytes found) laid) literal) ss)
               (\<lambda>decoded. Ok
                  \<lparr>rc_length = max len laid, rc_encoding = Some index, rc_opcode = opcode, rc_operands = decoded,
                   rc_has_layout = (slots \<noteq> None),
                   rc_second_word = (if 8 \<le> en_width_bytes found \<or> modifier \<noteq> None then read_word bytes (offset + 4) else None)\<rparr>))))))"

definition recognise :: "byte list \<Rightarrow> nat \<Rightarrow> dword32 \<Rightarrow> EncodingTable \<Rightarrow> OperandTable \<Rightarrow> (unit, Recognised) outcome" where
  "recognise bytes offset w table operands =
     (case lookup_encoding table w of
        Some (index, found) \<Rightarrow> recognise_known bytes offset w table operands index found
      | None \<Rightarrow>
          Ok \<lparr>rc_length = MIN_INSTRUCTION_BYTES, rc_encoding = None, rc_opcode = 0, rc_operands = [],
              rc_has_layout = False, rc_second_word = None\<rparr>)"

section \<open>The walk\<close>

definition PROGRAM_END :: string where "PROGRAM_END = ''s_endpgm''"
definition PADDING :: string where "PADDING = ''s_code_end''"

text \<open>The words of an instruction, as far as the buffer holds them.\<close>

fun words_from :: "byte list \<Rightarrow> nat \<Rightarrow> nat \<Rightarrow> dword32 list" where
  "words_from bytes at 0 = []"
| "words_from bytes at (Suc n) = (case read_word bytes at of Some w \<Rightarrow> w # words_from bytes (at + 4) n | None \<Rightarrow> [])"

definition instruction_at :: "byte list \<Rightarrow> nat \<Rightarrow> dword32 \<Rightarrow> Recognised \<Rightarrow> Instruction" where
  "instruction_at bytes offset w r =
     \<lparr>in_offset = (if offset < 2 ^ 32 then offset else 2 ^ 32 - 1), in_length = rc_length r, in_word = w,
      in_second_word = rc_second_word r, in_words = words_from bytes offset ((rc_length r + 3) div 4),
      in_encoding = rc_encoding r, in_opcode = rc_opcode r, in_operands = rc_operands r,
      in_operands_decoded = rc_has_layout r\<rparr>"

definition name_of :: "EncodingTable \<Rightarrow> Recognised \<Rightarrow> string option" where
  "name_of table r =
     (case rc_encoding r of
        None \<Rightarrow> None
      | Some index \<Rightarrow>
          if index < length (et_encodings table)
          then mnemonic_for table (en_name (et_encodings table ! index)) (rc_opcode r)
          else None)"

definition is_branch_name :: "string \<Rightarrow> bool" where
  "is_branch_name n \<longleftrightarrow> n = ''s_branch'' \<or> take 10 n = ''s_cbranch_''"

text \<open>Where a branch goes: a signed count of words in the low half, from the instruction after it.\<close>

definition branch_reach :: "nat \<Rightarrow> dword32 \<Rightarrow> int" where
  "branch_reach after w = int after + sint (ucast w :: 16 word) * 4"

definition furthest :: "string option \<Rightarrow> nat \<Rightarrow> dword32 \<Rightarrow> nat \<Rightarrow> nat" where
  "furthest named after w so_far =
     (case named of
        Some n \<Rightarrow> if is_branch_name n \<and> 0 \<le> branch_reach after w then max so_far (nat (branch_reach after w)) else so_far
      | None \<Rightarrow> so_far)"

datatype walk = Finished Decode | Going nat nat Decode

definition decode_step :: "byte list \<Rightarrow> EncodingTable \<Rightarrow> OperandTable \<Rightarrow> bool \<Rightarrow> nat \<Rightarrow> nat \<Rightarrow> Decode \<Rightarrow> (unit, walk) outcome" where
  "decode_step bytes table operands stop_at_end offset branch result =
     (case read_word bytes offset of
        None \<Rightarrow> Ok (Finished (result\<lparr>dc_consumed := offset\<rparr>))
      | Some w \<Rightarrow>
          out_bind (recognise bytes offset w table operands) (\<lambda>r.
            let seen = result\<lparr>dc_desynchronised := dc_desynchronised result \<or> rc_encoding r = None\<rparr>;
                pushed = seen\<lparr>dc_instructions := dc_instructions seen @ [instruction_at bytes offset w r]\<rparr>;
                after = offset + rc_length r;
                named = name_of table r;
                branch' = furthest named after w branch
            in Ok (if after > length bytes then Finished (pushed\<lparr>dc_overran := True, dc_consumed := offset\<rparr>)
                   else if named = Some PADDING then Finished (seen\<lparr>dc_consumed := offset, dc_trailing_bytes := 0\<rparr>)
                   else if named = Some PROGRAM_END then
                     (if stop_at_end \<and> branch' < after
                      then Finished (pushed\<lparr>dc_terminated := True, dc_trailing_bytes := 0, dc_consumed := after\<rparr>)
                      else Going after branch' (pushed\<lparr>dc_terminated := True\<rparr>))
                   else Going after branch' pushed)))"

partial_function (option) decode_from ::
    "byte list \<Rightarrow> EncodingTable \<Rightarrow> OperandTable \<Rightarrow> bool \<Rightarrow> nat \<Rightarrow> nat \<Rightarrow> Decode \<Rightarrow> (unit, Decode) outcome option" where
  "decode_from bytes table operands stop_at_end offset branch result =
     (case decode_step bytes table operands stop_at_end offset branch result of
        Ok (Finished d) \<Rightarrow> Some (Ok d)
      | Ok (Going offset' branch' d) \<Rightarrow> decode_from bytes table operands stop_at_end offset' branch' d
      | Err e \<Rightarrow> Some (Err e)
      | Panic \<Rightarrow> Some Panic)"

declare decode_from.simps [code]

definition decode_inner :: "byte list \<Rightarrow> EncodingTable \<Rightarrow> OperandTable \<Rightarrow> bool \<Rightarrow> (unit, Decode) outcome option" where
  "decode_inner bytes table operands stop_at_end =
     decode_from bytes table operands stop_at_end 0 0
       \<lparr>dc_instructions = [], dc_desynchronised = False, dc_overran = False, dc_trailing_bytes = length bytes mod 4,
        dc_terminated = False, dc_consumed = 0\<rparr>"

definition decode :: "byte list \<Rightarrow> EncodingTable \<Rightarrow> OperandTable \<Rightarrow> (unit, Decode) outcome option" where
  "decode bytes table operands = decode_inner bytes table operands False"

definition decode_program :: "byte list \<Rightarrow> EncodingTable \<Rightarrow> OperandTable \<Rightarrow> (unit, Decode) outcome option" where
  "decode_program bytes table operands = decode_inner bytes table operands True"

section \<open>Tables that fit their words\<close>

text \<open>What a table needs for no shift or sum to leave 32 bits, and for each field an instruction's length depends on
  to lie in its fixed part.\<close>

definition field_fits :: "nat \<Rightarrow> OperandField \<Rightarrow> bool" where
  "field_fits width f \<longleftrightarrow> of_shift f < 32 \<and> of_word f * 4 < width"

definition slot_fits :: "OperandSlot \<Rightarrow> bool" where
  "slot_fits s \<longleftrightarrow> sl_kind s = Implicit \<or> sl_shift s < 32 \<and> sl_word s < 2 ^ 16"

definition encoding_fits :: "Encoding \<Rightarrow> bool" where
  "encoding_fits e \<longleftrightarrow>
     en_width_bytes e < 2 ^ 16 \<and> of_shift (en_opcode e) < 32 \<and>
     (case en_opcode_extension e of None \<Rightarrow> True | Some f \<Rightarrow> field_fits (en_width_bytes e) f \<and> of_width (en_opcode e) < 32) \<and>
     (case en_extra_dwords e of None \<Rightarrow> True | Some f \<Rightarrow> field_fits (en_width_bytes e) f \<and> of_width f \<le> 16) \<and>
     list_all (field_fits (en_width_bytes e)) (en_literal_operands e) \<and>
     list_all (field_fits (en_width_bytes e)) (en_modifier_operands e) \<and>
     (case en_operands e of None \<Rightarrow> True | Some ss \<Rightarrow> list_all slot_fits ss)"

definition table_fits :: "EncodingTable \<Rightarrow> bool" where
  "table_fits t \<longleftrightarrow>
     list_all encoding_fits (et_encodings t) \<and>
     list_all (\<lambda>(_, _, ss). list_all slot_fits ss) (by_family_iter (et_per_opcode t))"

definition range_fits :: "CodeRange \<Rightarrow> bool" where
  "range_fits r \<longleftrightarrow>
     (cr_kind r = SgprRange \<or> cr_kind r = VgprRange \<longrightarrow> (case cr_origin r of Some n \<Rightarrow> n \<le> cr_first r | None \<Rightarrow> True))"

lemma by_family_get_iter: "by_family_get m f oc = Some v \<Longrightarrow> (f, oc, v) \<in> set (by_family_iter m)"
  unfolding by_family_get_def by_family_iter_def bt_get_def
  by (auto split: option.splits dest!: map_of_SomeD intro!: bexI)

lemma layout_fits: "table_fits t \<Longrightarrow> encoding_fits e \<Longrightarrow> layout_of t e oc = Some ss \<Longrightarrow> s \<in> set ss \<Longrightarrow> slot_fits s"
  by (auto simp: layout_of_def operands_for_def table_fits_def encoding_fits_def list_all_iff split: option.splits dest!: by_family_get_iter)

section \<open>Lengths\<close>

lemma fits_u32_Ok [ok_iff]: "fits_u32 n = Ok m \<longleftrightarrow> n < 2 ^ 32 \<and> m = n"
  by (auto simp: fits_u32_def)

lemma length_bytes_Ok:
  assumes "length_bytes e words = Ok len" "modifier_selected e words = Ok m"
  shows "en_width_bytes e \<le> len" "en_width_bytes e mod 4 = 0 \<Longrightarrow> 4 dvd len" "m \<noteq> None \<Longrightarrow> en_width_bytes e + 4 \<le> len"
proof -
  obtain b x where "extra_bytes e words = Ok x" and len: "len = en_width_bytes e + x + (if b \<or> m \<noteq> None then 4 else 0)"
    using assms by (auto simp: length_bytes_def ok_iff)
  then have "4 dvd x" by (auto simp: extra_bytes_def ok_iff split: option.splits)
  then show "en_width_bytes e \<le> len" "en_width_bytes e mod 4 = 0 \<Longrightarrow> 4 dvd len" "m \<noteq> None \<Longrightarrow> en_width_bytes e + 4 \<le> len"
    unfolding len by (auto simp: mod_eq_0_iff_dvd)
qed

lemma foldr_max_dvd: "\<forall>n \<in> set ns. 4 dvd n \<Longrightarrow> 4 dvd foldr max ns (0 :: nat)"
  by (induction ns) (auto simp: max_def)

lemma foldr_max_ge: "n \<in> set ns \<Longrightarrow> n \<le> foldr max ns (0 :: nat)"
  by (induction ns) auto

lemma laid_out_Ok:
  assumes "laid_out slots = Ok n"
  shows "4 dvd n" "slots = Some ss \<Longrightarrow> s \<in> set ss \<Longrightarrow> sl_kind s \<noteq> Implicit \<Longrightarrow> (sl_word s + 1) * 4 \<le> n"
proof -
  have reach: "out_map slot_reach xs = Ok rs \<Longrightarrow> rs = map (\<lambda>s. (sl_word s + 1) * 4) xs" for xs rs
    by (induction xs arbitrary: rs) (auto simp: slot_reach_def ok_iff)
  then show "4 dvd n" using assms by (auto simp: laid_out_def ok_iff intro!: foldr_max_dvd split: option.splits dest!: reach)
  show "(sl_word s + 1) * 4 \<le> n" if "slots = Some ss" "s \<in> set ss" "sl_kind s \<noteq> Implicit"
    using assms that by (auto simp: laid_out_def ok_iff intro!: foldr_max_ge dest!: reach)
qed

lemma recognise_known_Ok:
  assumes "recognise_known bytes offset w table operands index found = Ok r"
  obtains words opcode laid len modifier where
    "words = w # (case read_word bytes (offset + 4) of Some v \<Rightarrow> [v] | None \<Rightarrow> [])"
    "opcode_of found words = Ok opcode" "laid_out (layout_of table found opcode) = Ok laid"
    "length_bytes found words = Ok len" "modifier_selected found words = Ok modifier" "rc_length r = max len laid"
    "rc_encoding r = Some index"
  using assms unfolding recognise_known_def Let_def ok_iff by fastforce

lemma recognise_length:
  assumes "encodings_ok (et_encodings table)" "recognise bytes offset w table operands = Ok r"
  shows "4 \<le> rc_length r \<and> 4 dvd rc_length r"
proof (cases "lookup_encoding table w")
  case None
  then show ?thesis using assms(2) by (auto simp: recognise_def MIN_INSTRUCTION_BYTES_def)
next
  case (Some p)
  obtain i e where p: "p = (i, e)" by fastforce
  then have "recognise_known bytes offset w table operands i e = Ok r" using assms(2) Some by (simp add: recognise_def)
  then obtain words opcode laid len modifier where r: "laid_out (layout_of table e opcode) = Ok laid"
    "length_bytes e words = Ok len" "modifier_selected e words = Ok modifier" "rc_length r = max len laid"
    by (rule recognise_known_Ok)
  have "e \<in> set (et_encodings table)" using lookup_encoding_Some(1,2) [OF Some [unfolded p] assms(1)] by auto
  then have e: "0 < en_width_bytes e" "en_width_bytes e mod 4 = 0" using assms(1) by (auto simp: encodings_ok_def)
  have "4 dvd len" "4 dvd laid" "4 \<le> len"
    using length_bytes_Ok [OF r(2,3)] laid_out_Ok(1) [OF r(1)] e by (auto simp: mod_eq_0_iff_dvd dest!: dvd_imp_le)
  then show ?thesis by (auto simp: r(4) max_def)
qed

section \<open>No panic\<close>

lemma field_extract_fits: "of_shift f < 32 \<Longrightarrow> field_extract f w = Ok (drop_bit (of_shift f) w AND bits_mask (of_width f))"
  by (simp add: field_extract_def shift_right_def)

lemma unat_and_mask: "n \<le> 16 \<Longrightarrow> unat (v AND bits_mask n) < 2 ^ 16"
proof -
  assume n: "n \<le> 16"
  have "bits_mask n = mask n" using n by (simp add: bits_mask_def mask_eq_decr_exp push_bit_eq_mult)
  then have "unat (v AND bits_mask n) = take_bit n (unat v)"
    by (simp add: take_bit_eq_mask [symmetric] unsigned_take_bit_eq)
  also have "\<dots> < 2 ^ n" by simp
  also have "\<dots> \<le> 2 ^ 16" using n by (rule power_increasing) simp
  finally show ?thesis .
qed

lemma any_literal_safe: "list_all (field_fits k) fs \<Longrightarrow> \<exists>b. any_literal fs words = Ok b"
  by (induction fs) (auto simp: field_selects_literal_def field_fits_def field_extract_fits split: option.splits)

lemma find_modifier_safe: "list_all (field_fits k) fs \<Longrightarrow> \<exists>m. find_modifier fs words = Ok m"
  by (induction fs) (auto simp: field_fits_def field_extract_fits split: option.splits)

lemma extra_bytes_safe:
  assumes "encoding_fits e"
  shows "\<exists>x. extra_bytes e words = Ok x \<and> x < 2 ^ 18"
proof (cases "en_extra_dwords e")
  case None
  then show ?thesis by (simp add: extra_bytes_def)
next
  case (Some f)
  then have f: "of_shift f < 32" "of_width f \<le> 16" using assms by (auto simp: encoding_fits_def field_fits_def)
  have small: "unat (drop_bit (of_shift f) w AND bits_mask (of_width f)) * 4 < 2 ^ 18" for w
    using unat_and_mask [OF f(2), of "drop_bit (of_shift f) w"] by simp
  then have "fits_u32 (unat (drop_bit (of_shift f) w AND bits_mask (of_width f)) * 4) = Ok (unat (drop_bit (of_shift f) w AND bits_mask (of_width f)) * 4)" for w
    using less_trans [OF small, of "2 ^ 32"] by (simp add: fits_u32_def)
  then show ?thesis using small by (auto simp: extra_bytes_def Some field_extract_fits [OF f(1)] split: option.splits)
qed

lemma length_bytes_safe:
  assumes "encoding_fits e"
  shows "\<exists>len. length_bytes e words = Ok len"
proof -
  have lists: "list_all (field_fits (en_width_bytes e)) (en_literal_operands e)" "list_all (field_fits (en_width_bytes e)) (en_modifier_operands e)"
    using assms by (simp_all add: encoding_fits_def)
  obtain b where b: "any_literal (en_literal_operands e) words = Ok b" using any_literal_safe [OF lists(1)] by blast
  obtain x where x: "extra_bytes e words = Ok x" "x < 2 ^ 18" using extra_bytes_safe [OF assms] by blast
  obtain m where m: "modifier_selected e words = Ok m" using find_modifier_safe [OF lists(2)] unfolding modifier_selected_def by blast
  have "en_width_bytes e < 2 ^ 16" using assms by (simp add: encoding_fits_def)
  then have "en_width_bytes e + x + (if b \<or> m \<noteq> None then 4 else 0) < 2 ^ 32" using x(2) by simp
  then show ?thesis by (simp add: length_bytes_def b x(1) m fits_u32_def)
qed

lemma opcode_of_safe: "encoding_fits e \<Longrightarrow> \<exists>oc. opcode_of e words = Ok oc"
  by (auto simp: opcode_of_def encoding_fits_def field_fits_def field_extract_fits split: option.splits)

lemma out_map_safe: "(\<And>x. x \<in> set xs \<Longrightarrow> \<exists>y. f x = Ok y) \<Longrightarrow> \<exists>ys. out_map f xs = Ok ys"
  by (induction xs) fastforce+

lemma laid_out_safe: "(\<And>ss s. slots = Some ss \<Longrightarrow> s \<in> set ss \<Longrightarrow> slot_fits s) \<Longrightarrow> \<exists>n. laid_out slots = Ok n"
proof (cases slots)
  case (Some ss)
  assume fits: "\<And>ss s. slots = Some ss \<Longrightarrow> s \<in> set ss \<Longrightarrow> slot_fits s"
  have "\<exists>y. slot_reach s = Ok y" if "s \<in> set (filter (\<lambda>s. sl_kind s \<noteq> Implicit) ss)" for s
  proof -
    have "sl_word s < 2 ^ 16" using fits [OF Some, of s] that by (auto simp: slot_fits_def)
    then have "(sl_word s + 1) * 4 < 2 ^ 32" by simp
    then show ?thesis by (simp add: slot_reach_def fits_u32_def)
  qed
  then obtain rs where "out_map slot_reach (filter (\<lambda>s. sl_kind s \<noteq> Implicit) ss) = Ok rs" using out_map_safe by blast
  then show ?thesis by (simp add: laid_out_def Some)
qed (simp add: laid_out_def)

lemma classify_safe: "list_all range_fits operands \<Longrightarrow> \<exists>x. classify operands code literal = Ok x"
proof (cases "range_for operands code")
  case (Some r)
  assume "list_all range_fits operands"
  then have "range_fits r" "cr_first r \<le> code" using Some by (auto simp: range_for_def list_all_iff find_Some_iff)
  then show ?thesis by (auto simp: classify_def Some classify_in_def Let_def range_fits_def from_origin_def split: RangeKind.splits option.splits)
qed (simp add: classify_def)

lemma decode_slot_safe:
  assumes "list_all range_fits operands" "slot_fits s"
  shows "\<exists>x. decode_slot operands bytes offset w fixed literal s = Ok x"
  using assms classify_safe [OF assms(1)]
  by (auto simp: decode_slot_def slot_fits_def slot_extract_def shift_right_def Let_def split: option.splits SlotKind.splits)

lemma recognise_safe:
  assumes "table_fits table" "list_all range_fits operands"
  shows "\<exists>r. recognise bytes offset w table operands = Ok r"
proof (cases "lookup_encoding table w")
  case None
  then show ?thesis by (simp add: recognise_def)
next
  case (Some p)
  obtain i e where p: "p = (i, e)" by fastforce
  then have "e \<in> set (et_encodings table)" using Some by (auto simp: lookup_encoding_def split: option.splits if_splits dest!: position_Some)
  then have e: "encoding_fits e" using assms(1) by (auto simp: table_fits_def list_all_iff)
  define words where "words = w # (case read_word bytes (offset + 4) of Some v \<Rightarrow> [v] | None \<Rightarrow> [])"
  obtain oc where oc: "opcode_of e words = Ok oc" using opcode_of_safe [OF e] by blast
  obtain laid where laid: "laid_out (layout_of table e oc) = Ok laid"
    using laid_out_safe [of "layout_of table e oc"] layout_fits [OF assms(1) e] by blast
  obtain len where len: "length_bytes e words = Ok len" using length_bytes_safe [OF e] by blast
  obtain m where m: "modifier_selected e words = Ok m" using find_modifier_safe [of "en_width_bytes e" "en_modifier_operands e"] e
    unfolding encoding_fits_def modifier_selected_def by blast
  have slots: "\<exists>os. (case layout_of table e oc of None \<Rightarrow> Ok [] | Some ss \<Rightarrow> out_map (decode_slot operands bytes offset w k literal) ss) = Ok os"
    for k literal
    using out_map_safe [of _ "decode_slot operands bytes offset w k literal"] decode_slot_safe [OF assms(2) layout_fits [OF assms(1) e]]
    by (auto split: option.splits)
  show ?thesis using slots
    by (simp add: recognise_def Some p recognise_known_def words_def [symmetric] oc laid len m Let_def) (metis out_bind.simps(1))
qed

section \<open>The walk covers its buffer\<close>

text \<open>The name of a decoded instruction, and where it goes when it is a branch.\<close>

definition instruction_name :: "EncodingTable \<Rightarrow> Instruction \<Rightarrow> string option" where
  "instruction_name table i =
     (case in_encoding i of
        None \<Rightarrow> None
      | Some index \<Rightarrow>
          if index < length (et_encodings table)
          then mnemonic_for table (en_name (et_encodings table ! index)) (in_opcode i)
          else None)"

definition branches_to :: "EncodingTable \<Rightarrow> Instruction \<Rightarrow> int option" where
  "branches_to table i =
     (case instruction_name table i of
        Some n \<Rightarrow> if is_branch_name n then Some (branch_reach (in_offset i + in_length i) (in_word i)) else None
      | None \<Rightarrow> None)"

definition branches_before :: "EncodingTable \<Rightarrow> Instruction list \<Rightarrow> nat \<Rightarrow> bool" where
  "branches_before table is n \<longleftrightarrow> list_all (\<lambda>i. case branches_to table i of Some b \<Rightarrow> b < int n | None \<Rightarrow> True) is"

text \<open>Instructions that lie end to end from one offset to another, each with the words the buffer has there.\<close>

fun end_to_end :: "byte list \<Rightarrow> nat \<Rightarrow> Instruction list \<Rightarrow> nat \<Rightarrow> bool" where
  "end_to_end bytes at [] until \<longleftrightarrow> at = until"
| "end_to_end bytes at (i # is) until \<longleftrightarrow>
     in_offset i = at \<and> 4 \<le> in_length i \<and> in_length i mod 4 = 0 \<and> read_word bytes at = Some (in_word i) \<and>
     in_words i = words_from bytes at (in_length i div 4) \<and> end_to_end bytes (at + in_length i) is until"

text \<open>The program ended: at the instruction that ends one, with no branch to it or past it.\<close>

definition ended :: "EncodingTable \<Rightarrow> Decode \<Rightarrow> bool" where
  "ended table d \<longleftrightarrow>
     dc_instructions d \<noteq> [] \<and> instruction_name table (last (dc_instructions d)) = Some PROGRAM_END \<and>
     branches_before table (dc_instructions d) (dc_consumed d) \<and> \<not> dc_overran d"

lemma end_to_end_append: "end_to_end bytes at (is @ js) until \<longleftrightarrow> (\<exists>m. end_to_end bytes at is m \<and> end_to_end bytes m js until)"
  by (induction "is" arbitrary: at) auto

lemma branches_before_append [simp]:
  "branches_before table (is @ js) n \<longleftrightarrow> branches_before table is n \<and> branches_before table js n"
  by (simp add: branches_before_def)

lemma read_word_Some: "(\<exists>w. read_word bytes at = Some w) \<longleftrightarrow> at + 4 \<le> length bytes"
  by (auto simp: read_word_def get_range_def)

lemma instruction_at_sel [simp]:
  "in_length (instruction_at bytes off w r) = rc_length r" "in_word (instruction_at bytes off w r) = w"
  "in_encoding (instruction_at bytes off w r) = rc_encoding r" "in_opcode (instruction_at bytes off w r) = rc_opcode r"
  "in_words (instruction_at bytes off w r) = words_from bytes off ((rc_length r + 3) div 4)"
  "off < 2 ^ 32 \<Longrightarrow> in_offset (instruction_at bytes off w r) = off"
  by (simp_all add: instruction_at_def)

lemma instruction_name_at: "instruction_name table (instruction_at bytes off w r) = name_of table r"
  by (simp add: instruction_name_def name_of_def split: option.split)

lemma branches_at:
  "off < 2 ^ 32 \<Longrightarrow> branches_to table (instruction_at bytes off w r) =
     (case name_of table r of Some n \<Rightarrow> if is_branch_name n then Some (branch_reach (off + rc_length r) w) else None | None \<Rightarrow> None)"
  by (simp add: branches_to_def instruction_name_at split: option.split)

lemma furthest_before:
  assumes "0 < n" "off < 2 ^ 32" "br < n \<longleftrightarrow> branches_before table is n"
  shows "furthest (name_of table r) (off + rc_length r) w br < n \<longleftrightarrow> branches_before table (is @ [instruction_at bytes off w r]) n"
  using assms by (auto simp: furthest_def branches_before_def branches_at nat_less_iff split: option.splits)

text \<open>What holds at every step of the walk.\<close>

definition walk_inv :: "byte list \<Rightarrow> EncodingTable \<Rightarrow> bool \<Rightarrow> nat \<Rightarrow> nat \<Rightarrow> Decode \<Rightarrow> bool" where
  "walk_inv bytes table stop off br d \<longleftrightarrow>
     off \<le> length bytes \<and> end_to_end bytes 0 (dc_instructions d) off \<and> \<not> dc_overran d \<and>
     (dc_desynchronised d \<longleftrightarrow> unknown d \<noteq> 0) \<and>
     (\<forall>n > 0. br < n \<longleftrightarrow> branches_before table (dc_instructions d) n) \<and>
     (stop \<longrightarrow> \<not> ended table (d\<lparr>dc_consumed := off\<rparr>))"

text \<open>How a walk ends: it overran, fewer bytes than a word are left, padding stands next, or the program ended.\<close>

definition walk_done :: "byte list \<Rightarrow> EncodingTable \<Rightarrow> OperandTable \<Rightarrow> bool \<Rightarrow> Decode \<Rightarrow> bool" where
  "walk_done bytes table operands stop d \<longleftrightarrow>
     dc_consumed d \<le> length bytes \<and> (dc_desynchronised d \<longleftrightarrow> unknown d \<noteq> 0) \<and>
     end_to_end bytes 0 (if dc_overran d then butlast (dc_instructions d) else dc_instructions d) (dc_consumed d) \<and>
     (dc_overran d \<longrightarrow> dc_instructions d \<noteq> [] \<and> in_offset (last (dc_instructions d)) = dc_consumed d \<and>
        length bytes < dc_consumed d + in_length (last (dc_instructions d))) \<and>
     (dc_overran d \<or> length bytes < dc_consumed d + 4 \<or>
      (\<exists>w r. read_word bytes (dc_consumed d) = Some w \<and> recognise bytes (dc_consumed d) w table operands = Ok r \<and>
        name_of table r = Some PADDING) \<or>
      stop \<and> ended table d)"

lemma unknown_append: "unknown (d\<lparr>dc_instructions := dc_instructions d @ [i]\<rparr>) = unknown d + (if is_known i then 0 else 1)"
  by (simp add: unknown_def known_def Suc_diff_le)

lemma decode_from_inv:
  assumes "encodings_ok (et_encodings table)" "table_fits table" "list_all range_fits operands"
    and "I off br d" "off \<le> length bytes"
    and going: "\<And>off br d off' br' d'. I off br d \<Longrightarrow> off \<le> length bytes \<Longrightarrow>
      decode_step bytes table operands stop off br d = Ok (Going off' br' d') \<Longrightarrow> I off' br' d'"
    and finished: "\<And>off br d d'. I off br d \<Longrightarrow> off \<le> length bytes \<Longrightarrow>
      decode_step bytes table operands stop off br d = Ok (Finished d') \<Longrightarrow> Q d'"
  shows "\<exists>d'. decode_from bytes table operands stop off br d = Some (Ok d') \<and> Q d'"
  using assms(4,5)
proof (induction "length bytes - off" arbitrary: off br d rule: less_induct)
  case less
  obtain x where x: "decode_step bytes table operands stop off br d = Ok x"
  proof (cases "read_word bytes off")
    case (Some w)
    obtain r where "recognise bytes off w table operands = Ok r" using recognise_safe [OF assms(2,3)] by blast
    then show ?thesis using that by (simp add: decode_step_def Some Let_def)
  qed (simp add: decode_step_def)
  show ?case
  proof (cases x)
    case (Finished d')
    then show ?thesis using finished [OF less.prems] x by (subst decode_from.simps) simp
  next
    case (Going off' br' d')
    have step: "decode_step bytes table operands stop off br d = Ok (Going off' br' d')" using x Going by simp
    then obtain w r where w: "read_word bytes off = Some w" "recognise bytes off w table operands = Ok r"
      "off' = off + rc_length r" "off' \<le> length bytes"
      by (auto simp: decode_step_def Let_def ok_iff split: option.splits if_splits)
    then have "off < off'" using recognise_length [OF assms(1) w(2)] by simp
    then have "\<exists>d''. decode_from bytes table operands stop off' br' d' = Some (Ok d'') \<and> Q d''"
      using less.hyps [of off' br' d'] going [OF less.prems step] w(4) by simp
    then show ?thesis by (subst decode_from.simps) (simp add: step)
  qed
qed

lemma decode_step_Going:
  assumes "decode_step bytes table operands stop off br d = Ok (Going off' br' d')"
  obtains w r where "read_word bytes off = Some w" "recognise bytes off w table operands = Ok r"
    "off' = off + rc_length r" "off' \<le> length bytes" "br' = furthest (name_of table r) off' w br"
    "name_of table r \<noteq> Some PADDING" "stop \<longrightarrow> name_of table r = Some PROGRAM_END \<longrightarrow> off' \<le> br'"
    "d' = d\<lparr>dc_desynchronised := dc_desynchronised d \<or> rc_encoding r = None,
           dc_instructions := dc_instructions d @ [instruction_at bytes off w r],
           dc_terminated := dc_terminated d \<or> name_of table r = Some PROGRAM_END\<rparr>"
proof -
  obtain w r where w: "read_word bytes off = Some w" "recognise bytes off w table operands = Ok r"
    using assms by (auto simp: decode_step_def ok_iff split: option.splits)
  note step = assms [unfolded decode_step_def w option.case w out_bind.simps Let_def]
  show thesis
  proof (cases "name_of table r = Some PROGRAM_END")
    case True
    then have "off' = off + rc_length r" "off' \<le> length bytes" "br' = furthest (name_of table r) off' w br"
      "name_of table r \<noteq> Some PADDING" "stop \<longrightarrow> off' \<le> br'"
      "d' = d\<lparr>dc_desynchronised := dc_desynchronised d \<or> rc_encoding r = None,
           dc_instructions := dc_instructions d @ [instruction_at bytes off w r], dc_terminated := True\<rparr>"
      using step by (auto split: if_splits)
    then show thesis using that [OF w] True by simp
  next
    case False
    then have "off' = off + rc_length r" "off' \<le> length bytes" "br' = furthest (name_of table r) off' w br"
      "name_of table r \<noteq> Some PADDING" "d' = d\<lparr>dc_desynchronised := dc_desynchronised d \<or> rc_encoding r = None,
           dc_instructions := dc_instructions d @ [instruction_at bytes off w r]\<rparr>"
      using step by (auto split: if_splits)
    then show thesis using that [OF w] False by simp
  qed
qed

lemma decode_step_Finished:
  assumes "decode_step bytes table operands stop off br d = Ok (Finished d')"
  obtains
    (short) "length bytes < off + 4" "d' = d\<lparr>dc_consumed := off\<rparr>"
  | (over) w r where "read_word bytes off = Some w" "recognise bytes off w table operands = Ok r" "length bytes < off + rc_length r"
      "d' = d\<lparr>dc_desynchronised := dc_desynchronised d \<or> rc_encoding r = None,
             dc_instructions := dc_instructions d @ [instruction_at bytes off w r], dc_overran := True, dc_consumed := off\<rparr>"
  | (padding) w r where "read_word bytes off = Some w" "recognise bytes off w table operands = Ok r" "name_of table r = Some PADDING"
      "off + rc_length r \<le> length bytes" "d' = d\<lparr>dc_consumed := off, dc_trailing_bytes := 0\<rparr>"
  | (end_found) w r where "stop" "read_word bytes off = Some w" "recognise bytes off w table operands = Ok r"
      "off + rc_length r \<le> length bytes" "name_of table r = Some PROGRAM_END"
      "furthest (name_of table r) (off + rc_length r) w br < off + rc_length r"
      "d' = d\<lparr>dc_instructions := dc_instructions d @ [instruction_at bytes off w r], dc_terminated := True,
             dc_trailing_bytes := 0, dc_consumed := off + rc_length r\<rparr>"
proof (cases "read_word bytes off")
  case None
  then have "\<not> off + 4 \<le> length bytes" using read_word_Some [of bytes off] by auto
  then show ?thesis using assms None short by (simp add: decode_step_def)
next
  case (Some w)
  then obtain r where r: "recognise bytes off w table operands = Ok r" using assms by (auto simp: decode_step_def ok_iff)
  have named: "rc_encoding r \<noteq> None" if "name_of table r = Some n" for n using that by (auto simp: name_of_def split: option.splits)
  show ?thesis
    using assms Some r over [OF Some r] padding [OF Some r] end_found [OF _ Some r] named
    by (auto simp: decode_step_def Let_def split: if_splits)
qed

lemma walk_inv_going:
  assumes "encodings_ok (et_encodings table)" "length bytes < 2 ^ 32" "walk_inv bytes table stop off br d"
    "decode_step bytes table operands stop off br d = Ok (Going off' br' d')"
  shows "walk_inv bytes table stop off' br' d'"
proof -
  obtain w r where r: "read_word bytes off = Some w" "recognise bytes off w table operands = Ok r"
    "off' = off + rc_length r" "off' \<le> length bytes" "br' = furthest (name_of table r) off' w br"
    "stop \<longrightarrow> name_of table r = Some PROGRAM_END \<longrightarrow> off' \<le> br'"
    and d': "d' = d\<lparr>dc_desynchronised := dc_desynchronised d \<or> rc_encoding r = None,
           dc_instructions := dc_instructions d @ [instruction_at bytes off w r],
           dc_terminated := dc_terminated d \<or> name_of table r = Some PROGRAM_END\<rparr>"
    using assms(4) by (rule decode_step_Going)
  note len = recognise_length [OF assms(1) r(2)]
  have off: "off < 2 ^ 32" "0 < off'" using assms(2) r(3,4) len by auto
  have tile: "end_to_end bytes off [instruction_at bytes off w r] off'" using len off r(1,3) by (auto simp: elim!: dvdE)
  have br: "br' < n \<longleftrightarrow> branches_before table (dc_instructions d') n" if "0 < n" for n
    using furthest_before [OF that off(1), of br table "dc_instructions d" r w bytes] assms(3) that
    by (simp add: walk_inv_def r(3,5) d')
  have "unknown d' = unknown d + (if rc_encoding r \<noteq> None then 0 else 1)"
    using unknown_append [of d "instruction_at bytes off w r"] by (simp add: d' unknown_def known_def is_known_def)
  moreover have "\<not> ended table (d'\<lparr>dc_consumed := off'\<rparr>)" if stop
    using br [OF off(2)] r(6) that by (auto simp: ended_def d' instruction_name_at)
  ultimately show ?thesis using assms(3) br tile r(4)
    by (auto simp: walk_inv_def d' end_to_end_append)
qed

lemma walk_done_finished:
  assumes "encodings_ok (et_encodings table)" "length bytes < 2 ^ 32" "walk_inv bytes table stop off br d"
    "decode_step bytes table operands stop off br d = Ok (Finished d')"
  shows "walk_done bytes table operands stop d'"
  using assms(4)
proof (cases rule: decode_step_Finished)
  case short
  then show ?thesis using assms(3) by (auto simp: walk_inv_def walk_done_def unknown_def known_def)
next
  case (over w r)
  have "off < 2 ^ 32" using assms(2) over(1) read_word_Some [of bytes off] by auto
  moreover have "unknown d' = unknown d + (if rc_encoding r \<noteq> None then 0 else 1)"
    using unknown_append [of d "instruction_at bytes off w r"] by (simp add: over(4) unknown_def known_def is_known_def)
  ultimately show ?thesis using assms(3) over by (auto simp: walk_inv_def walk_done_def)
next
  case (padding w r)
  then show ?thesis using assms(3) by (auto simp: walk_inv_def walk_done_def unknown_def known_def)
next
  case (end_found w r)
  note len = recognise_length [OF assms(1) end_found(3)]
  have off: "off < 2 ^ 32" "0 < off + rc_length r" using assms(2) end_found(4) len by auto
  have tile: "end_to_end bytes off [instruction_at bytes off w r] (off + rc_length r)" using len off end_found(2) by (auto elim!: dvdE)
  have "rc_encoding r \<noteq> None" using end_found(5) by (auto simp: name_of_def split: option.splits)
  then have known: "unknown d' = unknown d"
    using unknown_append [of d "instruction_at bytes off w r"] by (simp add: end_found(7) unknown_def known_def is_known_def)
  have "branches_before table (dc_instructions d') (off + rc_length r)"
    using furthest_before [OF off(2,1), of br table "dc_instructions d" r w bytes] assms(3) off(2) end_found(6)
    by (simp add: walk_inv_def end_found(7))
  then have "ended table d'" using assms(3) end_found(5) by (auto simp: ended_def end_found(7) walk_inv_def instruction_name_at)
  then show ?thesis using assms(3) tile known end_found(1,4)
    by (auto simp: walk_inv_def walk_done_def end_found(7) end_to_end_append)
qed


text \<open>A table of two families with a branch and an end, and a program of one of each.\<close>

definition example_table :: EncodingTable where
  "example_table =
     \<lparr>et_encodings = [example_sopp, example_sop2],
      et_per_opcode = [(''SOPP'', [(2, [\<lparr>sl_name = [], sl_word = 0, sl_shift = 0, sl_width = 16, sl_kind = Immediate_slot,
                                     sl_scale = None, sl_implicit = None\<rparr>])])],
      et_names = [(''SOPP'', [(1, ''s_endpgm''), (2, ''s_branch'')])],
      et_by_name = [(''s_branch'', ''SOPP'', 2), (''s_endpgm'', ''SOPP'', 1)], et_target = ''gfx10''\<rparr>"

definition example_operands :: OperandTable where
  "example_operands = [\<lparr>cr_first = 0, cr_last = 105, cr_kind = SgprRange, cr_name = None, cr_origin = None\<rparr>]"

definition example_program :: "byte list" where
  "example_program = [0, 0, 0x82, 0xBF, 0, 0, 0x81, 0xBF]"

lemma example_fits:
  "encodings_ok (et_encodings example_table)" "table_fits example_table" "list_all range_fits example_operands"
  by code_simp+


section \<open>What follows a program does not matter\<close>

lemma read_word_local:
  assumes "take k bytes' = take k bytes" "at + 4 \<le> k"
  shows "read_word bytes' at = read_word bytes at"
proof -
  have len: "at + 4 \<le> length bytes' \<longleftrightarrow> at + 4 \<le> length bytes"
    using arg_cong [OF assms(1), of length] assms(2) by (auto simp: min_def split: if_splits)
  have "take 4 (drop at bs) = take 4 (drop at (take k bs))" for bs :: "byte list" using assms(2) by (simp add: drop_take min_def)
  then show ?thesis using assms(1) len by (metis (no_types, lifting) get_range_def read_word_def add_diff_cancel_left')
qed

lemma words_from_local: "take k bytes' = take k bytes \<Longrightarrow> at + 4 * n \<le> k \<Longrightarrow> words_from bytes' at n = words_from bytes at n"
  by (induction n arbitrary: at) (auto simp: read_word_local split: option.splits)

text \<open>Word lists that agree over a family's fixed part give the same opcode, literal, extra words and modifier.\<close>

definition agree_over :: "nat \<Rightarrow> dword32 list \<Rightarrow> dword32 list \<Rightarrow> bool" where
  "agree_over width ws ws' \<longleftrightarrow> (\<forall>i. i * 4 < width \<longrightarrow> nth_word ws i = nth_word ws' i)"

lemma any_literal_local: "agree_over k ws ws' \<Longrightarrow> list_all (field_fits k) fs \<Longrightarrow> any_literal fs ws' = any_literal fs ws"
  by (induction fs) (simp_all add: field_selects_literal_def agree_over_def field_fits_def cong: if_cong)

lemma find_modifier_local: "agree_over k ws ws' \<Longrightarrow> list_all (field_fits k) fs \<Longrightarrow> find_modifier fs ws' = find_modifier fs ws"
  by (induction fs) (simp_all add: agree_over_def field_fits_def cong: if_cong option.case_cong)

lemma fixed_part_local:
  assumes "agree_over (en_width_bytes e) ws ws'" "encoding_fits e" "0 < en_width_bytes e"
  shows "opcode_of e ws' = opcode_of e ws" "length_bytes e ws' = length_bytes e ws" "modifier_selected e ws' = modifier_selected e ws"
proof -
  show m: "modifier_selected e ws' = modifier_selected e ws"
    using assms find_modifier_local unfolding modifier_selected_def encoding_fits_def by blast
  have l: "any_literal (en_literal_operands e) ws' = any_literal (en_literal_operands e) ws"
    using assms any_literal_local unfolding encoding_fits_def by blast
  have at: "nth_word ws' i = nth_word ws i" if "i * 4 < en_width_bytes e" for i using assms(1) that by (simp add: agree_over_def)
  have x: "extra_bytes e ws' = extra_bytes e ws"
    using assms(2) at by (auto simp: extra_bytes_def encoding_fits_def field_fits_def split: option.split)
  show "length_bytes e ws' = length_bytes e ws" by (simp add: length_bytes_def m l x)
  show "opcode_of e ws' = opcode_of e ws"
    using assms(2,3) at by (auto simp: opcode_of_def encoding_fits_def field_fits_def split: option.split)
qed

lemma out_map_cong: "(\<And>x. x \<in> set xs \<Longrightarrow> f x = g x) \<Longrightarrow> out_map f xs = out_map g xs"
  by (induction xs) auto

lemma decode_slot_local:
  assumes "take k bytes' = take k bytes" "off + fixed \<le> k" "4 dvd fixed"
  shows "decode_slot operands bytes' off w fixed literal s = decode_slot operands bytes off w fixed literal s"
proof -
  have "read_word bytes' (off + sl_word s * 4) = read_word bytes (off + sl_word s * 4)" if "sl_word s * 4 < fixed"
  proof -
    have "sl_word s * 4 + 4 \<le> fixed" using that assms(3) by (auto elim!: dvdE)
    then show ?thesis using read_word_local [OF assms(1)] assms(2) by simp
  qed
  then show ?thesis by (simp add: decode_slot_def source_word_def)
qed

lemma recognise_known_local:
  assumes "encoding_fits e" "0 < en_width_bytes e" "4 dvd en_width_bytes e" "take k bytes' = take k bytes"
    "recognise_known bytes off w table operands i e = Ok r" "off + rc_length r \<le> k"
  shows "recognise_known bytes' off w table operands i e = Ok r"
proof -
  obtain words opcode laid len modifier where
    words: "words = w # (case read_word bytes (off + 4) of Some v \<Rightarrow> [v] | None \<Rightarrow> [])"
    and r: "opcode_of e words = Ok opcode" "laid_out (layout_of table e opcode) = Ok laid"
    "length_bytes e words = Ok len" "modifier_selected e words = Ok modifier" "rc_length r = max len laid"
    using assms(5) by (rule recognise_known_Ok)
  define words' where "words' = w # (case read_word bytes' (off + 4) of Some v \<Rightarrow> [v] | None \<Rightarrow> [])"
  have dvd: "4 dvd len" "4 dvd laid" and width: "en_width_bytes e \<le> len" "modifier \<noteq> None \<Longrightarrow> en_width_bytes e + 4 \<le> len"
    using length_bytes_Ok [OF r(3,4)] laid_out_Ok(1) [OF r(2)] assms(3) by (simp_all add: mod_eq_0_iff_dvd)
  have k: "off + len \<le> k" "off + laid \<le> k" using assms(6) r(5) by simp_all
  have second: "read_word bytes' (off + 4) = read_word bytes (off + 4)" if "8 \<le> len"
    using read_word_local [OF assms(4), of "off + 4"] that k(1) by simp
  have "nth_word words j = nth_word words' j" if "j * 4 < en_width_bytes e" for j
  proof (cases "j = 0")
    case False
    then have "4 < en_width_bytes e" using that by simp
    then have "8 \<le> len" using width(1) assms(3) by (auto elim!: dvdE)
    then show ?thesis using second by (simp add: words words'_def)
  qed (simp add: words words'_def nth_word_def)
  then have "agree_over (en_width_bytes e) words words'" by (simp add: agree_over_def)
  note fixed = fixed_part_local [OF this assms(1,2)]
  have literal: "read_word bytes' (off + en_width_bytes e) = read_word bytes (off + en_width_bytes e)" if "max len laid > en_width_bytes e"
  proof -
    have "4 dvd max len laid" using dvd by (simp add: max_def)
    then have "en_width_bytes e + 4 \<le> max len laid" using that assms(3) by (auto elim!: dvdE)
    then show ?thesis using read_word_local [OF assms(4), of "off + en_width_bytes e"] assms(6) r(5) by simp
  qed
  have "off + max (en_width_bytes e) laid \<le> k" "4 dvd max (en_width_bytes e) laid"
    using width(1) k dvd(2) assms(3) by (auto simp: max_def)
  note slots = decode_slot_local [OF assms(4) this]
  have late: "(if 8 \<le> en_width_bytes e \<or> modifier \<noteq> None then read_word bytes' (off + 4) else None) =
    (if 8 \<le> en_width_bytes e \<or> modifier \<noteq> None then read_word bytes (off + 4) else None)"
    using second width assms(2,3) by (auto elim!: dvdE)
  have lit: "(if max len laid > en_width_bytes e \<and> modifier = None then read_word bytes' (off + en_width_bytes e) else None) =
    (if max len laid > en_width_bytes e \<and> modifier = None then read_word bytes (off + en_width_bytes e) else None)"
    using literal by simp
  have "recognise_known bytes' off w table operands i e = recognise_known bytes off w table operands i e"
    unfolding recognise_known_def words [symmetric] words'_def [symmetric] Let_def fixed
    unfolding r out_bind.simps late lit slots ..
  then show ?thesis using assms(5) by simp
qed

lemma recognise_local:
  assumes "encodings_ok (et_encodings table)" "table_fits table" "take k bytes' = take k bytes"
    "recognise bytes off w table operands = Ok r" "off + rc_length r \<le> k"
  shows "recognise bytes' off w table operands = Ok r"
proof (cases "lookup_encoding table w")
  case None
  then show ?thesis using assms(4) by (simp add: recognise_def)
next
  case (Some p)
  obtain i e where p: "p = (i, e)" by fastforce
  have e: "e \<in> set (et_encodings table)" using lookup_encoding_Some(1,2) [OF Some [unfolded p] assms(1)] by auto
  have ok: "encoding_fits e" "0 < en_width_bytes e" "4 dvd en_width_bytes e"
    using assms(1,2) e by (auto simp: encodings_ok_def table_fits_def list_all_iff mod_eq_0_iff_dvd)
  have "recognise_known bytes off w table operands i e = Ok r" using assms(4) by (simp add: recognise_def Some p)
  from recognise_known_local [OF ok assms(3) this assms(5)] show ?thesis by (simp add: recognise_def Some p)
qed

lemma decode_step_local:
  assumes "encodings_ok (et_encodings table)" "table_fits table" "take k bytes' = take k bytes" "k \<le> length bytes" "k \<le> length bytes'"
    "read_word bytes off = Some w" "recognise bytes off w table operands = Ok r" "off + rc_length r \<le> k"
  shows "decode_step bytes' table operands stop off br d = decode_step bytes table operands stop off br d"
proof -
  note len = recognise_length [OF assms(1,7)]
  have w: "read_word bytes' off = Some w" using read_word_local [OF assms(3), of off] assms(6,8) len by simp
  have r: "recognise bytes' off w table operands = Ok r" using recognise_local [OF assms(1,2,3,7,8)] .
  have "4 * ((rc_length r + 3) div 4) = rc_length r" using len by (auto elim!: dvdE)
  then have "words_from bytes' off ((rc_length r + 3) div 4) = words_from bytes off ((rc_length r + 3) div 4)"
    using words_from_local [OF assms(3), of off "(rc_length r + 3) div 4"] assms(8) by simp
  then have i: "instruction_at bytes' off w r = instruction_at bytes off w r" by (simp add: instruction_at_def)
  show ?thesis using assms(4,5,8) by (simp add: decode_step_def w r assms(6,7) i Let_def)
qed

lemma decode_from_cases:
  assumes "decode_from bytes table operands stop off br d0 = Some (Ok d)"
  obtains "decode_step bytes table operands stop off br d0 = Ok (Finished d)"
  | off' br' d1 where "decode_step bytes table operands stop off br d0 = Ok (Going off' br' d1)"
      "decode_from bytes table operands stop off' br' d1 = Some (Ok d)"
  using assms by (subst (asm) decode_from.simps) (auto split: outcome.splits walk.splits)

lemma decode_from_going:
  "decode_step bytes table operands stop off br d0 = Ok (Going off' br' d1) \<Longrightarrow>
   decode_from bytes table operands stop off br d0 = decode_from bytes table operands stop off' br' d1"
  by (subst decode_from.simps) simp

lemma decode_from_consumed:
  assumes "encodings_ok (et_encodings table)" "decode_from bytes table operands stop off br d0 = Some (Ok d)"
  shows "off \<le> dc_consumed d"
  using assms(2)
proof (induction "length bytes - off" arbitrary: off br d0 rule: less_induct)
  case less
  from less.prems show ?case
  proof (cases rule: decode_from_cases)
    case 1
    then show ?thesis by (cases rule: decode_step_Finished) auto
  next
    case (2 off' br' d1)
    from 2(1) obtain w r where "recognise bytes off w table operands = Ok r" "off' = off + rc_length r" "off' \<le> length bytes"
      by (rule decode_step_Going)
    then have "off < off'" "off' \<le> length bytes" using recognise_length [OF assms(1)] by fastforce+
    then show ?thesis using less.hyps [OF _ 2(2)] by linarith
  qed
qed

lemma decode_step_trailing:
  "decode_step bytes table operands stop off br d = Ok (Going off' br' d1) \<Longrightarrow>
     decode_step bytes table operands stop off br (d\<lparr>dc_trailing_bytes := n\<rparr>) = Ok (Going off' br' (d1\<lparr>dc_trailing_bytes := n\<rparr>))"
  "decode_step bytes table operands stop off br d = Ok (Finished d1) \<Longrightarrow> ended table d1 \<Longrightarrow>
     \<not> ended table (d\<lparr>dc_consumed := off\<rparr>) \<Longrightarrow>
     decode_step bytes table operands stop off br (d\<lparr>dc_trailing_bytes := n\<rparr>) = Ok (Finished d1)"
proof -
  assume "decode_step bytes table operands stop off br d = Ok (Going off' br' d1)"
  then obtain w r where r: "read_word bytes off = Some w" "recognise bytes off w table operands = Ok r"
    "off' = off + rc_length r" "off' \<le> length bytes" "br' = furthest (name_of table r) off' w br"
    "name_of table r \<noteq> Some PADDING" "stop \<longrightarrow> name_of table r = Some PROGRAM_END \<longrightarrow> off' \<le> br'"
    and d1: "d1 = d\<lparr>dc_desynchronised := dc_desynchronised d \<or> rc_encoding r = None,
           dc_instructions := dc_instructions d @ [instruction_at bytes off w r],
           dc_terminated := dc_terminated d \<or> name_of table r = Some PROGRAM_END\<rparr>"
    by (rule decode_step_Going)
  have "\<not> length bytes < off + rc_length r" "\<not> (stop \<and> name_of table r = Some PROGRAM_END \<and> br' < off')" using r(3,4,7) by auto
  then show "decode_step bytes table operands stop off br (d\<lparr>dc_trailing_bytes := n\<rparr>) = Ok (Going off' br' (d1\<lparr>dc_trailing_bytes := n\<rparr>))"
    unfolding decode_step_def r(1) option.case r(2) out_bind.simps Let_def r(3) [symmetric] r(5) [symmetric]
    using r(3,6) by (cases "name_of table r = Some PROGRAM_END") (auto simp: d1)
next
  assume fin: "decode_step bytes table operands stop off br d = Ok (Finished d1)" and e: "ended table d1"
    and u: "\<not> ended table (d\<lparr>dc_consumed := off\<rparr>)"
  from fin show "decode_step bytes table operands stop off br (d\<lparr>dc_trailing_bytes := n\<rparr>) = Ok (Finished d1)"
  proof (cases rule: decode_step_Finished)
    case (end_found w r)
    have "rc_encoding r \<noteq> None" using end_found(5) by (auto simp: name_of_def split: option.splits)
    then show ?thesis using end_found by (auto simp: decode_step_def Let_def PROGRAM_END_def PADDING_def)
  qed (use e u in \<open>auto simp: ended_def\<close>)
qed

lemma decode_from_window:
  assumes "encodings_ok (et_encodings table)" "table_fits table" "length bytes < 2 ^ 32"
    "take (dc_consumed d) bytes' = take (dc_consumed d) bytes" "dc_consumed d \<le> length bytes" "dc_consumed d \<le> length bytes'" "ended table d"
    and "walk_inv bytes table True off br d0" "decode_from bytes table operands True off br d0 = Some (Ok d)"
  shows "decode_from bytes' table operands True off br (d0\<lparr>dc_trailing_bytes := n\<rparr>) = Some (Ok d)"
  using assms(8,9)
proof (induction "length bytes - off" arbitrary: off br d0 rule: less_induct)
  case less
  note same = decode_step_local [OF assms(1,2,4,5,6)]
  have unfinished: "\<not> ended table (d0\<lparr>dc_consumed := off\<rparr>)" using less.prems(1) by (simp add: walk_inv_def)
  from less.prems(2) show ?case
  proof (cases rule: decode_from_cases)
    case fin: 1
    then have "decode_step bytes' table operands True off br d0 = decode_step bytes table operands True off br d0"
    proof (cases rule: decode_step_Finished)
      case (end_found w r)
      then show ?thesis using same [OF end_found(2,3)] by simp
    qed (use unfinished assms(7) in \<open>auto simp: ended_def\<close>)
    then have "decode_step bytes' table operands True off br (d0\<lparr>dc_trailing_bytes := n\<rparr>) = Ok (Finished d)"
      using fin decode_step_trailing(2) [OF _ assms(7) unfinished] by simp
    then show ?thesis by (subst decode_from.simps) simp
  next
    case (2 off' br' d1)
    from 2(1) obtain w r where w: "read_word bytes off = Some w" "recognise bytes off w table operands = Ok r" "off' = off + rc_length r" "off' \<le> length bytes"
      by (rule decode_step_Going)
    have "off' \<le> dc_consumed d" using decode_from_consumed [OF assms(1) 2(2)] .
    then have "decode_step bytes' table operands True off br d0 = Ok (Going off' br' d1)" using same [OF w(1,2)] w(3) 2(1) by simp
    note step = decode_step_trailing(1) [OF this, of n]
    have "off < off'" using recognise_length [OF assms(1) w(2)] w(3) by simp
    then have "decode_from bytes' table operands True off' br' (d1\<lparr>dc_trailing_bytes := n\<rparr>) = Some (Ok d)"
      using less.hyps [of off' br' d1] walk_inv_going [OF assms(1,3) less.prems(1) 2(1)] 2(2) w(4) by simp
    then show ?thesis using decode_from_going [OF step] by simp
  qed
qed

text \<open>C31. A program read from a window that holds its end is read the same from any other window that holds those
  bytes, whatever follows them: its instructions, its length and every flag.\<close>

theorem program_window_irrelevant:
  assumes "encodings_ok (et_encodings table)" "table_fits table" "list_all range_fits operands" "length bytes < 2 ^ 32"
    "decode_program bytes table operands = Some (Ok d)" "ended table d"
    "take (dc_consumed d) bytes' = take (dc_consumed d) bytes" "dc_consumed d \<le> length bytes'"
  shows "decode_program bytes' table operands = Some (Ok d)"
proof -
  define start where "start n = \<lparr>dc_instructions = [], dc_desynchronised = False, dc_overran = False, dc_trailing_bytes = n,
    dc_terminated = False, dc_consumed = 0\<rparr>" for n
  have inner: "decode_program bs table operands = decode_from bs table operands True 0 0 (start (length bs mod 4))" for bs
    by (simp add: decode_program_def decode_inner_def start_def)
  have init: "walk_inv bytes table True 0 0 (start n)" "start m = (start n)\<lparr>dc_trailing_bytes := m\<rparr>" for m n
    by (simp_all add: start_def walk_inv_def unknown_def known_def branches_before_def ended_def)
  have "\<exists>d'. decode_from bytes table operands True 0 0 (start (length bytes mod 4)) = Some (Ok d') \<and> walk_done bytes table operands True d'"
    by (rule decode_from_inv [OF assms(1,2,3), where I = "walk_inv bytes table True"])
      (use init(1) walk_inv_going [OF assms(1,4)] walk_done_finished [OF assms(1,4)] in auto)
  then have "dc_consumed d \<le> length bytes" using assms(5) by (auto simp: inner walk_done_def)
  from decode_from_window [OF assms(1,2,4,7) this assms(8,6) init(1) assms(5) [unfolded inner], of "length bytes' mod 4"]
  show ?thesis unfolding inner using init(2) [of "length bytes' mod 4" "length bytes mod 4"] by simp
qed

theorem program_window_irrelevant_witness:
  "\<exists>d. decode_program example_program example_table example_operands = Some (Ok d) \<and> dc_consumed d = 8 \<and>
     decode_program (example_program @ [1, 2, 3, 4, 5]) example_table example_operands = Some (Ok d)"
proof -
  have "case decode_program example_program example_table example_operands of Some (Ok d) \<Rightarrow> ended example_table d \<and> dc_consumed d = 8 | _ \<Rightarrow> False"
    by code_simp
  then obtain d where d: "decode_program example_program example_table example_operands = Some (Ok d)" "ended example_table d" "dc_consumed d = 8"
    by (auto split: option.splits outcome.splits)
  have "take 8 (example_program @ [1, 2, 3, 4, 5]) = take 8 example_program" "length example_program < 2 ^ 32" "8 \<le> length (example_program @ [1, 2, 3, 4, 5])"
    by (simp_all add: example_program_def)
  then show ?thesis using program_window_irrelevant [OF example_fits _ d(1,2), of "example_program @ [1, 2, 3, 4, 5]"] d(1,3) by auto
qed

end
