(* ===== verification/Shader_Blocks.thy ===== *)
theory Shader_Blocks
  imports Shader_Decode
begin

text \<open>
  A decoded shader as basic blocks and the loop that dispatches them (\<^verbatim>\<open>orbistoun-translate/src/blocks.rs\<close>,
  \<^verbatim>\<open>control.rs\<close>). The guest's flow is flat: instructions in a row, branches to byte offsets. The translator cuts it
  into blocks, and every block becomes an arm of one switch on a program counter, each arm naming the arm that
  runs next; a budget of backward jumps cuts a loop that does not end.

  What the module's instructions do to the state of a wave, and when a condition holds, are arguments of the two
  machines defined here: the flat one, which is what the guest's program means, and the dispatching one, which
  is what the emitted loop does. The lemmas relate them, and show where they differ: an end of the program
  inside a block is dropped.
\<close>

section \<open>Blocks\<close>

datatype TranslateError = Unsupported nat | NotTranslated nat

datatype Terminator = End_here | Jump_to nat | Branch_to nat nat | Fallthrough nat

record Block =
  bl_start :: nat
  bl_first :: nat
  bl_end :: nat
  bl_terminator :: Terminator

definition BARRIER :: dword32 where "BARRIER = 10"
definition ENDPGM :: dword32 where "ENDPGM = 1"

definition is_barrier :: "Instruction \<Rightarrow> string \<Rightarrow> bool" where
  "is_barrier i family \<longleftrightarrow> family = ''SOPP'' \<and> in_opcode i = BARRIER"

datatype Condition =
  Always
| ScalarConditionClear
| ScalarConditionSet
| ConditionMaskZero
| ConditionMaskNonZero
| ExecutionMaskZero
| ExecutionMaskNonZero

definition BRANCHES :: "(dword32 \<times> Condition) list" where
  "BRANCHES = [(2, Always), (4, ScalarConditionClear), (5, ScalarConditionSet), (6, ConditionMaskZero),
     (7, ConditionMaskNonZero), (8, ExecutionMaskZero), (9, ExecutionMaskNonZero)]"

definition branch_condition :: "Instruction \<Rightarrow> string \<Rightarrow> Condition option" where
  "branch_condition i family = (if family \<noteq> ''SOPP'' then None else map_of BRANCHES (in_opcode i))"

definition sign_extend16 :: "int \<Rightarrow> int" where
  "sign_extend16 raw = (let low = raw mod 65536 in if low \<le> 32767 then low else low - 65536)"

definition branch_target :: "Instruction \<Rightarrow> (TranslateError, nat) outcome" where
  "branch_target i =
     (case in_operands i of
        Immediate raw # _ \<Rightarrow>
          let target = int (in_offset i) + int (in_length i) + sign_extend16 raw * 4
          in if 0 \<le> target \<and> target < 2 ^ 32 then Ok (nat target) else Err (Unsupported (in_offset i))
      | _ \<Rightarrow> Err (Unsupported (in_offset i)))"

type_synonym families = "Instruction \<Rightarrow> string option"

definition condition_of :: "families \<Rightarrow> Instruction \<Rightarrow> Condition option" where
  "condition_of family_of i = (case family_of i of Some f \<Rightarrow> branch_condition i f | None \<Rightarrow> None)"

text \<open>The instruction at a byte offset; of two at one offset the map keeps the later.\<close>

definition index_of :: "Instruction list \<Rightarrow> nat \<Rightarrow> nat option" where
  "index_of is target = map_of (rev (zip (map in_offset is) [0..<length is])) target"

definition after_index :: "Instruction list \<Rightarrow> nat \<Rightarrow> nat list" where
  "after_index is i = (if i + 1 < length is then [i + 1] else [])"

definition starts_of :: "families \<Rightarrow> bool \<Rightarrow> Instruction list \<Rightarrow> nat \<Rightarrow> (TranslateError, nat list) outcome" where
  "starts_of family_of at_barriers is i =
     (case family_of (is ! i) of
        None \<Rightarrow> Ok []
      | Some family \<Rightarrow>
          if at_barriers \<and> is_barrier (is ! i) family then Ok (after_index is i)
          else case branch_condition (is ! i) family of
                 None \<Rightarrow> Ok []
               | Some _ \<Rightarrow>
                   out_bind (branch_target (is ! i)) (\<lambda>target.
                     case index_of is target of
                       None \<Rightarrow> Err (NotTranslated (in_offset (is ! i)))
                     | Some at \<Rightarrow> Ok (at # after_index is i)))"

definition end_offset :: "Instruction \<Rightarrow> (TranslateError, nat) outcome" where
  "end_offset i = (if in_offset i + in_length i < 2 ^ 32 then Ok (in_offset i + in_length i) else Panic)"

definition is_end :: "families \<Rightarrow> Instruction \<Rightarrow> bool" where
  "is_end family_of i \<longleftrightarrow> family_of i = Some ''SOPP'' \<and> in_opcode i = ENDPGM"

definition terminator_of :: "families \<Rightarrow> Instruction list \<Rightarrow> nat \<Rightarrow> (TranslateError, Terminator) outcome" where
  "terminator_of family_of is end_at =
     (let final = is ! (end_at - 1) in
      case condition_of family_of final of
        Some Always \<Rightarrow> out_bind (branch_target final) (\<lambda>t. Ok (Jump_to t))
      | Some _ \<Rightarrow> out_bind (branch_target final) (\<lambda>t. out_bind (end_offset final) (\<lambda>n. Ok (Branch_to t n)))
      | None \<Rightarrow>
          if is_end family_of final then Ok End_here
          else if end_at = length is then Ok End_here
          else out_bind (end_offset final) (\<lambda>n. Ok (Fallthrough n)))"

definition make_block :: "families \<Rightarrow> Instruction list \<Rightarrow> nat \<times> nat \<Rightarrow> (TranslateError, Block) outcome" where
  "make_block family_of is b =
     out_bind (terminator_of family_of is (snd b)) (\<lambda>t.
       Ok \<lparr>bl_start = in_offset (is ! fst b), bl_first = fst b, bl_end = snd b, bl_terminator = t\<rparr>)"

definition boundaries :: "nat \<Rightarrow> nat list \<Rightarrow> nat list" where
  "boundaries n starts = filter (\<lambda>i. i \<in> set starts) [0..<n]"

definition split_at_barriers :: "Instruction list \<Rightarrow> families \<Rightarrow> bool \<Rightarrow> (TranslateError, Block list) outcome" where
  "split_at_barriers is family_of at_barriers =
     (if is = [] then Ok []
      else out_bind (out_map (starts_of family_of at_barriers is) [0..<length is]) (\<lambda>ss.
             let bs = boundaries (length is) (0 # concat ss)
             in out_map (make_block family_of is) (zip bs (tl bs @ [length is]))))"

definition split_blocks :: "Instruction list \<Rightarrow> families \<Rightarrow> (TranslateError, Block list) outcome" where
  "split_blocks is family_of = split_at_barriers is family_of False"

definition block_at :: "Block list \<Rightarrow> nat \<Rightarrow> nat option" where
  "block_at blocks offset = position (\<lambda>b. bl_start b = offset) blocks"

section \<open>The dispatch loop\<close>

text \<open>What a block leaves in the program counter: one value, or one of two by its branch's condition.\<close>

datatype Next = Goes nat | Chooses Condition nat nat

definition arm_index :: "Block list \<Rightarrow> Block \<Rightarrow> nat \<Rightarrow> (TranslateError, nat) outcome" where
  "arm_index all b offset = (case block_at all offset of Some i \<Rightarrow> if i < 2 ^ 32 then Ok i else Err (Unsupported (bl_start b)) | None \<Rightarrow> Err (Unsupported (bl_start b)))"

definition successor :: "Instruction list \<Rightarrow> Block \<Rightarrow> Block list \<Rightarrow> nat \<Rightarrow> (TranslateError, Next) outcome" where
  "successor is b all exit =
     (case bl_terminator b of
        End_here \<Rightarrow> Ok (Goes exit)
      | Jump_to target \<Rightarrow> out_bind (arm_index all b target) (\<lambda>i. Ok (Goes i))
      | Fallthrough next \<Rightarrow> out_bind (arm_index all b next) (\<lambda>i. Ok (Goes i))
      | Branch_to target fallthrough \<Rightarrow>
          out_bind (arm_index all b target) (\<lambda>taken.
          out_bind (arm_index all b fallthrough) (\<lambda>not_taken.
            case map_of BRANCHES (in_opcode (is ! (bl_end b - 1))) of
              None \<Rightarrow> Err (Unsupported (in_offset (is ! (bl_end b - 1))))
            | Some Always \<Rightarrow> Err (Unsupported (in_offset (is ! (bl_end b - 1))))
            | Some c \<Rightarrow> Ok (Chooses c taken not_taken))))"

definition is_terminator :: "families \<Rightarrow> Instruction \<Rightarrow> bool" where
  "is_terminator family_of i \<longleftrightarrow> condition_of family_of i \<noteq> None \<or> is_end family_of i"

definition jumps_back :: "Block \<Rightarrow> Block list \<Rightarrow> nat \<Rightarrow> bool" where
  "jumps_back b all index \<longleftrightarrow>
     (case bl_terminator b of
        Jump_to target \<Rightarrow> (case block_at all target of Some to \<Rightarrow> to \<le> index | None \<Rightarrow> False)
      | Branch_to target _ \<Rightarrow> (case block_at all target of Some to \<Rightarrow> to \<le> index | None \<Rightarrow> False)
      | _ \<Rightarrow> False)"

definition LOOP_CAP :: nat where "LOOP_CAP = 2 ^ 20"

text \<open>An arm: the instructions it emits, where it goes next, and whether its jump is counted against the budget.\<close>

record Arm =
  arm_code :: "Instruction list"
  arm_next :: Next
  arm_capped :: bool

definition block_code :: "families \<Rightarrow> Instruction list \<Rightarrow> Block \<Rightarrow> Instruction list" where
  "block_code family_of is b = filter (\<lambda>i. \<not> is_terminator family_of i) (take (bl_end b - bl_first b) (drop (bl_first b) is))"

definition emit_arm :: "families \<Rightarrow> Instruction list \<Rightarrow> Block list \<Rightarrow> nat \<Rightarrow> (TranslateError, Arm) outcome" where
  "emit_arm family_of is all index =
     out_bind (successor is (all ! index) all (length all)) (\<lambda>n.
       Ok \<lparr>arm_code = block_code family_of is (all ! index), arm_next = n, arm_capped = jumps_back (all ! index) all index\<rparr>)"

definition emit_dispatch :: "families \<Rightarrow> Instruction list \<Rightarrow> (TranslateError, Arm list) outcome" where
  "emit_dispatch family_of is =
     out_bind (split_at_barriers is family_of False) (\<lambda>all.
       if length all < 2 ^ 32 then out_map (emit_arm family_of is all) [0..<length all] else Err (Unsupported 0))"

section \<open>Segments between barriers\<close>

definition ends_at_barrier :: "families \<Rightarrow> Instruction list \<Rightarrow> Block \<Rightarrow> bool" where
  "ends_at_barrier family_of is b \<longleftrightarrow>
     (case family_of (is ! (bl_end b - 1)) of Some f \<Rightarrow> is_barrier (is ! (bl_end b - 1)) f | None \<Rightarrow> False)"

fun cut_segments :: "(nat \<Rightarrow> bool) \<Rightarrow> nat \<Rightarrow> nat list \<Rightarrow> nat \<Rightarrow> (nat \<times> nat) list" where
  "cut_segments ends start [] n = (if start < n then [(start, n)] else [])"
| "cut_segments ends start (i # is) n =
     (if ends i then (start, i + 1) # cut_segments ends (i + 1) is n else cut_segments ends start is n)"

definition segment_targets :: "Block list \<Rightarrow> nat \<times> nat \<Rightarrow> nat \<Rightarrow> nat list" where
  "segment_targets all seg i =
     (case bl_terminator (all ! i) of
        End_here \<Rightarrow> []
      | Fallthrough next \<Rightarrow> if i + 1 = snd seg then [] else [next]
      | Jump_to target \<Rightarrow> [target]
      | Branch_to target fallthrough \<Rightarrow> [target, fallthrough])"

definition crosses :: "Block list \<Rightarrow> nat \<times> nat \<Rightarrow> nat \<Rightarrow> bool" where
  "crosses all seg i \<longleftrightarrow>
     (\<exists>t \<in> set (segment_targets all seg i). case block_at all t of None \<Rightarrow> True | Some to \<Rightarrow> \<not> (fst seg \<le> to \<and> to < snd seg))"

definition segments :: "families \<Rightarrow> Instruction list \<Rightarrow> Block list \<Rightarrow> (TranslateError, (nat \<times> nat) list) outcome" where
  "segments family_of is all =
     (let segs = cut_segments (\<lambda>i. ends_at_barrier family_of is (all ! i)) 0 [0..<length all] (length all)
      in case find (\<lambda>(seg, i). crosses all seg i) (concat (map (\<lambda>seg. map (Pair seg) [fst seg..<snd seg]) segs)) of
           Some (_, i) \<Rightarrow> Err (Unsupported (bl_start (all ! i)))
         | None \<Rightarrow> Ok segs)"

section \<open>The two machines\<close>

text \<open>The guest's program: one instruction at a time, in the order the flow has them.\<close>

datatype 's flat = At nat 's | Stopped 's | Lost

definition goto :: "Instruction list \<Rightarrow> Instruction \<Rightarrow> 's \<Rightarrow> 's flat" where
  "goto is i s =
     (case branch_target i of
        Ok t \<Rightarrow> (case index_of is t of Some j \<Rightarrow> At j s | None \<Rightarrow> Lost)
      | _ \<Rightarrow> Lost)"

fun flat_step :: "families \<Rightarrow> (Instruction \<Rightarrow> 's \<Rightarrow> 's) \<Rightarrow> (Condition \<Rightarrow> 's \<Rightarrow> bool) \<Rightarrow> Instruction list \<Rightarrow> 's flat \<Rightarrow> 's flat" where
  "flat_step family_of exec holds is (At i s) =
     (if i < length is then
        case condition_of family_of (is ! i) of
          Some Always \<Rightarrow> goto is (is ! i) s
        | Some c \<Rightarrow> if holds c s then goto is (is ! i) s else At (i + 1) s
        | None \<Rightarrow> if is_end family_of (is ! i) then Stopped s else At (i + 1) (exec (is ! i) s)
      else Stopped s)"
| "flat_step family_of exec holds is (Stopped s) = Stopped s"
| "flat_step family_of exec holds is Lost = Lost"

text \<open>The emitted loop: the arm the counter names, then the counter it leaves, with the jumps back counted.\<close>

record 's wave =
  wv_counter :: nat
  wv_budget :: nat
  wv_state :: 's

definition next_counter :: "(Condition \<Rightarrow> 's \<Rightarrow> bool) \<Rightarrow> Next \<Rightarrow> 's \<Rightarrow> nat" where
  "next_counter holds n s = (case n of Goes i \<Rightarrow> i | Chooses c taken not_taken \<Rightarrow> if holds c s then taken else not_taken)"

definition run_arm :: "(Instruction \<Rightarrow> 's \<Rightarrow> 's) \<Rightarrow> (Condition \<Rightarrow> 's \<Rightarrow> bool) \<Rightarrow> nat option \<Rightarrow> Arm list \<Rightarrow> 's wave \<Rightarrow> 's wave" where
  "run_arm exec holds cap arms v =
     (if wv_counter v < length arms then
        let arm = arms ! wv_counter v;
            s = fold exec (arm_code arm) (wv_state v);
            n = next_counter holds (arm_next arm) s
        in case cap of
             None \<Rightarrow> v\<lparr>wv_counter := n, wv_state := s\<rparr>
           | Some c \<Rightarrow>
               if arm_capped arm then
                 let spent = wv_budget v + (if n \<le> wv_counter v then 1 else 0)
                 in \<lparr>wv_counter = (if spent > c then length arms else n), wv_budget = spent, wv_state = s\<rparr>
               else v\<lparr>wv_counter := n, wv_state := s\<rparr>
      else v)"

section \<open>Blocks partition the program\<close>

text \<open>Instructions one after another, as a walk that covers its buffer has them.\<close>

definition contiguous :: "Instruction list \<Rightarrow> bool" where
  "contiguous is \<longleftrightarrow>
     (\<forall>i < length is. 0 < in_length (is ! i)) \<and>
     (\<forall>i. Suc i < length is \<longrightarrow> in_offset (is ! Suc i) = in_offset (is ! i) + in_length (is ! i))"

lemma contiguous_Cons:
  "contiguous (i # is) \<longleftrightarrow> 0 < in_length i \<and> (is \<noteq> [] \<longrightarrow> in_offset (hd is) = in_offset i + in_length i) \<and> contiguous is"
  unfolding contiguous_def by (auto simp: nth_Cons hd_conv_nth less_Suc_eq_0_disj split: nat.splits)

lemma end_to_end_contiguous: "end_to_end bytes at is until \<Longrightarrow> contiguous is"
proof (induction "is" arbitrary: at)
  case (Cons i "is")
  have "is \<noteq> [] \<Longrightarrow> in_offset (hd is) = at + in_length i" using Cons.prems by (cases "is") auto
  then show ?case using Cons by (auto simp: contiguous_Cons)
qed (simp add: contiguous_def)

lemma contiguous_mono:
  assumes "contiguous is" "i < j" "j < length is"
  shows "in_offset (is ! i) + in_length (is ! i) \<le> in_offset (is ! j)"
  using assms(2,3)
proof (induction j)
  case (Suc j)
  have next_at: "in_offset (is ! Suc j) = in_offset (is ! j) + in_length (is ! j)" using assms(1) Suc.prems(2) by (simp add: contiguous_def)
  show ?case using Suc next_at by (cases "i = j") auto
qed simp

lemma contiguous_inj:
  assumes "contiguous is" "i < length is" "j < length is" "in_offset (is ! i) = in_offset (is ! j)"
  shows "i = j"
proof -
  have "0 < in_length (is ! k)" if "k < length is" for k using assms(1) that by (simp add: contiguous_def)
  then show ?thesis using contiguous_mono [OF assms(1), of i j] contiguous_mono [OF assms(1), of j i] assms(2,3,4)
    by (cases i j rule: linorder_cases) fastforce+
qed

lemma index_of_exact:
  assumes "contiguous is"
  shows "index_of is t = Some j \<longleftrightarrow> j < length is \<and> in_offset (is ! j) = t"
proof -
  have "distinct (map fst (rev (zip (map in_offset is) [0..<length is])))"
  proof -
    have "distinct (map in_offset is)" using contiguous_inj [OF assms] by (auto simp: distinct_conv_nth)
    then show ?thesis by (simp add: rev_map [symmetric])
  qed
  then have "index_of is t = Some j \<longleftrightarrow> (t, j) \<in> set (zip (map in_offset is) [0..<length is])"
    unfolding index_of_def by (simp add: map_of_eq_Some_iff)
  also have "\<dots> \<longleftrightarrow> j < length is \<and> in_offset (is ! j) = t"
    by (auto simp: set_zip) (metis add_0 nth_map nth_upt)
  finally show ?thesis .
qed

text \<open>What a split gives: blocks end to end over the instructions, each ending where its terminator says, with
  every branch last in its block and every target first in one.\<close>

definition block_starts :: "Block list \<Rightarrow> nat set" where
  "block_starts all = bl_first ` set all"

definition blocks_ok :: "families \<Rightarrow> Instruction list \<Rightarrow> Block list \<Rightarrow> bool" where
  "blocks_ok family_of is all \<longleftrightarrow>
     all \<noteq> [] \<and> bl_first (all ! 0) = 0 \<and> bl_end (last all) = length is \<and>
     (\<forall>c. Suc c < length all \<longrightarrow> bl_end (all ! c) = bl_first (all ! Suc c)) \<and>
     (\<forall>c < length all. bl_first (all ! c) < bl_end (all ! c) \<and> bl_end (all ! c) \<le> length is \<and>
        bl_start (all ! c) = in_offset (is ! bl_first (all ! c)) \<and>
        terminator_of family_of is (bl_end (all ! c)) = Ok (bl_terminator (all ! c)) \<and>
        (\<forall>i. bl_first (all ! c) \<le> i \<longrightarrow> Suc i < bl_end (all ! c) \<longrightarrow> condition_of family_of (is ! i) = None))"

lemma boundaries_facts:
  assumes "0 < n" "0 \<in> set xs"
  shows "boundaries n xs \<noteq> []" "boundaries n xs ! 0 = 0" "sorted_wrt (<) (boundaries n xs)" "set (boundaries n xs) = {i \<in> set xs. i < n}"
proof -
  show "sorted_wrt (<) (boundaries n xs)" "set (boundaries n xs) = {i \<in> set xs. i < n}"
    by (auto simp: boundaries_def intro!: sorted_wrt_filter)
  have "[0..<n] = 0 # [1..<n]" using assms(1) by (simp add: upt_rec)
  then show "boundaries n xs \<noteq> []" "boundaries n xs ! 0 = 0" using assms(2) by (auto simp: boundaries_def)
qed

lemma make_block_Ok:
  "make_block family_of is (a, b) = Ok bl \<longleftrightarrow>
     (\<exists>t. terminator_of family_of is b = Ok t \<and> bl = \<lparr>bl_start = in_offset (is ! a), bl_first = a, bl_end = b, bl_terminator = t\<rparr>)"
  by (auto simp: make_block_def ok_iff)

lemma starts_of_Ok:
  assumes "starts_of family_of False is i = Ok ss" "condition_of family_of (is ! i) \<noteq> None" "Suc i < length is"
  shows "Suc i \<in> set ss"
  using assms by (auto simp: starts_of_def condition_of_def after_index_def ok_iff split: option.splits)

lemma split_blocks_ok:
  assumes "split_at_barriers is family_of False = Ok all" "is \<noteq> []"
  shows "blocks_ok family_of is all"
proof -
  obtain ss where ss: "out_map (starts_of family_of False is) [0..<length is] = Ok ss"
    and made: "out_map (make_block family_of is) (zip (boundaries (length is) (0 # concat ss)) (tl (boundaries (length is) (0 # concat ss)) @ [length is])) = Ok all"
    using assms by (auto simp: split_at_barriers_def ok_iff Let_def)
  define bs where "bs = boundaries (length is) (0 # concat ss)"
  have bs: "bs \<noteq> []" "bs ! 0 = 0" "sorted_wrt (<) bs" "set bs = {i \<in> set (0 # concat ss). i < length is}"
    unfolding bs_def using assms(2) by (auto simp: boundaries_facts)
  let ?es = "tl bs @ [length is]"
  have len: "length all = length bs" and nth: "\<And>c. c < length bs \<Longrightarrow> make_block family_of is (bs ! c, ?es ! c) = Ok (all ! c)"
    using out_map_nth [OF made [folded bs_def]] bs(1) by auto
  have first: "bl_first (all ! c) = bs ! c" and until: "bl_end (all ! c) = ?es ! c"
    and start: "bl_start (all ! c) = in_offset (is ! (bs ! c))"
    and ends: "terminator_of family_of is (?es ! c) = Ok (bl_terminator (all ! c))" if "c < length bs" for c
    using nth [OF that] by (auto simp: make_block_Ok)
  have es: "?es ! c = (if Suc c < length bs then bs ! Suc c else length is)" if "c < length bs" for c
    using that by (auto simp: nth_append nth_tl)
  have below: "bs ! c < length is" if "c < length bs" for c using that bs(4) nth_mem by fastforce
  have inner: "condition_of family_of (is ! i) = None" if c: "c < length bs" "bs ! c \<le> i" "Suc i < ?es ! c" for c i
  proof (rule ccontr)
    assume br: "condition_of family_of (is ! i) \<noteq> None"
    have i: "Suc i < length is" using c es [OF c(1)] below [of "Suc c"] by (auto split: if_splits)
    then have s: "length ss = length is" "starts_of family_of False is i = Ok (ss ! i)" using out_map_nth [OF ss] by auto
    have "Suc i \<in> set (concat ss)" using starts_of_Ok [OF s(2) br i] s(1) i by (auto intro!: bexI [of _ "ss ! i"])
    then have "Suc i \<in> set bs" using bs(4) i by simp
    then obtain k where k: "k < length bs" "bs ! k = Suc i" by (auto simp: in_set_conv_nth)
    have above: "bs ! x < bs ! y" if "x < y" "y < length bs" for x y using bs(3) that by (simp add: sorted_wrt_iff_nth_less)
    have "c < k"
    proof (cases k c rule: linorder_cases)
      case less
      from above [OF less c(1)] show ?thesis using c(2) k(2) by simp
    qed (use c(2) k(2) in auto)
    then have "Suc c < length bs" "bs ! Suc c \<le> bs ! k" using k(1) above [of "Suc c" k] by (cases "Suc c = k"; simp)+
    then show False using c(3) es [OF c(1)] k(2) by simp
  qed
  have step: "bs ! c < ?es ! c \<and> ?es ! c \<le> length is" if "c < length bs" for c
    using that es [OF that] below [of c] below [of "Suc c"] bs(3) by (auto simp: sorted_wrt_iff_nth_less intro: less_imp_le)
  have ne: "all \<noteq> []" using len bs(1) by auto
  have last: "bl_end (last all) = length is"
  proof -
    obtain m where m: "length bs = Suc m" using bs(1) by (cases bs) auto
    then show ?thesis using until [of m] es [of m] ne len by (simp add: last_conv_nth)
  qed
  show ?thesis
    unfolding blocks_ok_def len
    using ne last first [of 0] bs(1,2) first until es start ends step inner by (auto simp: len)
qed

section \<open>The dispatch loop runs the guest's program\<close>

definition ends_closed :: "families \<Rightarrow> Instruction list \<Rightarrow> Block list \<Rightarrow> bool" where
  "ends_closed family_of is all \<longleftrightarrow> (\<forall>i < length is. is_end family_of (is ! i) \<longrightarrow> Suc i \<in> bl_end ` set all)"

lemma blockD:
  assumes "blocks_ok family_of is all" "c < length all"
  shows "bl_first (all ! c) < bl_end (all ! c)" "bl_end (all ! c) \<le> length is" "bl_start (all ! c) = in_offset (is ! bl_first (all ! c))"
    "terminator_of family_of is (bl_end (all ! c)) = Ok (bl_terminator (all ! c))"
    "bl_first (all ! c) \<le> i \<Longrightarrow> Suc i < bl_end (all ! c) \<Longrightarrow> condition_of family_of (is ! i) = None"
    "Suc c < length all \<Longrightarrow> bl_end (all ! c) = bl_first (all ! Suc c)"
  using assms unfolding blocks_ok_def by blast+

lemma blocks_ordered:
  assumes "blocks_ok family_of is all" "c < c'" "c' < length all"
  shows "bl_end (all ! c) \<le> bl_first (all ! c')"
  using assms(2,3)
proof (induction c')
  case (Suc c')
  have "bl_end (all ! c') = bl_first (all ! Suc c')" "bl_first (all ! c') < bl_end (all ! c')"
    using blockD(1,6) [OF assms(1), of c'] Suc.prems(2) by auto
  then show ?case using Suc by (cases "c = c'") auto
qed simp

lemma block_inside:
  assumes "blocks_ok family_of is all" "c < length all" "bl_first (all ! c) \<le> i" "Suc i < bl_end (all ! c)"
  shows "Suc i \<notin> bl_end ` set all"
proof
  assume "Suc i \<in> bl_end ` set all"
  then obtain c' where c': "c' < length all" "bl_end (all ! c') = Suc i" by (auto simp: in_set_conv_nth)
  have "bl_first (all ! c') < bl_end (all ! c')" using assms(1) c'(1) by (auto simp: blocks_ok_def)
  then show False
    using blocks_ordered [OF assms(1), of c c'] blocks_ordered [OF assms(1), of c' c] assms(2-4) c' by (cases c c' rule: linorder_cases) auto
qed

lemma block_at_Some:
  assumes "blocks_ok family_of is all" "block_at all offset = Some c"
  shows "c < length all" "in_offset (is ! bl_first (all ! c)) = offset" "bl_first (all ! c) < length is"
proof -
  show c: "c < length all" using position_Some assms(2) by (auto simp: block_at_def)
  then have "bl_start (all ! c) = in_offset (is ! bl_first (all ! c))" "bl_first (all ! c) < length is"
    using assms(1) by (auto simp: blocks_ok_def intro: less_le_trans)
  moreover have "bl_start (all ! c) = offset" using position_Some assms(2) by (auto simp: block_at_def)
  ultimately show "in_offset (is ! bl_first (all ! c)) = offset" "bl_first (all ! c) < length is" by auto
qed

lemma arm_index_Ok:
  assumes "blocks_ok family_of is all" "contiguous is" "arm_index all b offset = Ok c"
  shows "c < length all" "index_of is offset = Some (bl_first (all ! c))"
  using block_at_Some [OF assms(1)] assms(3) index_of_exact [OF assms(2)] by (auto simp: arm_index_def split: option.splits if_splits)

lemma fall_index:
  assumes "blocks_ok family_of is all" "contiguous is" "c < length all" "end_offset (is ! (bl_end (all ! c) - 1)) = Ok n" "arm_index all b n = Ok c'"
  shows "c' = Suc c \<and> bl_end (all ! c) = bl_first (all ! c')"
proof -
  let ?e = "bl_end (all ! c)"
  have e: "0 < ?e" "?e \<le> length is" using assms(1,3) by (auto simp: blocks_ok_def)
  have n: "n = in_offset (is ! (?e - 1)) + in_length (is ! (?e - 1))" using assms(4) by (auto simp: end_offset_def split: if_splits)
  note c' = arm_index_Ok [OF assms(1,2,5)]
  have at: "in_offset (is ! bl_first (all ! c')) = n" "bl_first (all ! c') < length is" using c'(2) index_of_exact [OF assms(2)] by auto
  have "?e < length is"
  proof (rule ccontr)
    assume "\<not> ?e < length is"
    then have "?e = length is" using e(2) by simp
    then have "bl_first (all ! c') \<le> ?e - 1" using at(2) by simp
    moreover have "0 < in_length (is ! (?e - 1))" using assms(2) e by (simp add: contiguous_def)
    moreover have "?e - 1 < length is" using e by simp
    ultimately show False using contiguous_mono [OF assms(2), of "bl_first (all ! c')" "?e - 1"] at(1) n
      by (cases "bl_first (all ! c') = ?e - 1") auto
  qed
  then have "n = in_offset (is ! ?e)" using assms(2) e n by (auto simp: contiguous_def elim!: allE [of _ "?e - 1"])
  then have first: "bl_first (all ! c') = ?e" using contiguous_inj [OF assms(2) at(2) \<open>?e < length is\<close>] at(1) by simp
  have "c' = Suc c"
  proof (cases c' "Suc c" rule: linorder_cases)
    case less
    then have "bl_first (all ! c') < bl_end (all ! c')" "bl_end (all ! c') \<le> bl_first (all ! c) \<or> c' = c"
      using assms(1,3) c'(1) blocks_ordered [OF assms(1), of c' c] by (auto simp: blocks_ok_def less_Suc_eq)
    moreover have "bl_first (all ! c) < ?e" using assms(1,3) by (auto simp: blocks_ok_def)
    ultimately show ?thesis using first by auto
  next
    case greater
    then have "bl_end (all ! Suc c) \<le> bl_first (all ! c')" using blocks_ordered [OF assms(1), of "Suc c" c'] c'(1) by simp
    moreover have "bl_first (all ! Suc c) < bl_end (all ! Suc c)" "bl_end (all ! c) = bl_first (all ! Suc c)"
      using blockD(1) [OF assms(1), of "Suc c"] blockD(6) [OF assms(1,3)] greater c'(1) by auto
    ultimately show ?thesis using first by simp
  qed simp
  then show ?thesis using first by simp
qed

lemma run_plain:
  assumes "\<And>j. a \<le> j \<Longrightarrow> j < b \<Longrightarrow> condition_of family_of (is ! j) = None \<and> \<not> is_end family_of (is ! j)" "a \<le> b" "b \<le> length is"
  shows "(flat_step family_of exec holds is ^^ (b - a)) (At a s) = At b (fold exec (take (b - a) (drop a is)) s)"
  using assms
proof (induction "b - a" arbitrary: a s)
  case (Suc n)
  then have a: "a < length is" "Suc a \<le> b" "n = b - Suc a" by auto
  have "take (b - a) (drop a is) = is ! a # take (b - Suc a) (drop (Suc a) is)"
    using a by (simp add: Cons_nth_drop_Suc [symmetric] Suc.hyps(2) [symmetric])
  moreover have "flat_step family_of exec holds is (At a s) = At (Suc a) (exec (is ! a) s)" using Suc.prems(1) [of a] a by simp
  ultimately show ?case
    using Suc.hyps(1) [OF a(3), of "exec (is ! a) s"] Suc.prems a
    by (simp add: Suc.hyps(2) [symmetric] funpow_Suc_right del: funpow.simps)
qed simp

text \<open>Where the flat machine stands when the loop's counter names an arm.\<close>

definition standing :: "Block list \<Rightarrow> nat \<Rightarrow> 's \<Rightarrow> 's flat" where
  "standing all c s = (if c < length all then At (bl_first (all ! c)) s else Stopped s)"

lemma block_code_split:
  assumes "blocks_ok family_of is all" "ends_closed family_of is all" "c < length all"
  defines "final \<equiv> is ! (bl_end (all ! c) - 1)"
  shows "block_code family_of is (all ! c) =
      take (bl_end (all ! c) - 1 - bl_first (all ! c)) (drop (bl_first (all ! c)) is) @ (if is_terminator family_of final then [] else [final])"
    and "bl_first (all ! c) \<le> j \<Longrightarrow> j < bl_end (all ! c) - 1 \<Longrightarrow> condition_of family_of (is ! j) = None \<and> \<not> is_end family_of (is ! j)"
proof -
  let ?a = "bl_first (all ! c)" let ?e = "bl_end (all ! c)"
  note b = blockD(1,2) [OF assms(1,3)]
  have plain: "condition_of family_of (is ! j) = None \<and> \<not> is_end family_of (is ! j)" if j: "?a \<le> j" "j < ?e - 1" for j
  proof -
    have "Suc j < ?e" using j by simp
    moreover have "j < length is" using j b by simp
    ultimately show ?thesis
      using blockD(5) [OF assms(1,3) j(1)] block_inside [OF assms(1,3) j(1)] assms(2) by (auto simp: ends_closed_def)
  qed
  then show "?a \<le> j \<Longrightarrow> j < ?e - 1 \<Longrightarrow> condition_of family_of (is ! j) = None \<and> \<not> is_end family_of (is ! j)" for j .
  have "\<forall>x \<in> set (take (?e - 1 - ?a) (drop ?a is)). \<not> is_terminator family_of x"
    using plain b by (auto simp: in_set_conv_nth is_terminator_def)
  moreover have "?e - ?a = Suc (?e - 1 - ?a)" using b by simp
  moreover have "take (Suc (?e - 1 - ?a)) (drop ?a is) = take (?e - 1 - ?a) (drop ?a is) @ [final]"
    using b by (subst take_Suc_conv_app_nth) (auto simp: final_def)
  ultimately show "block_code family_of is (all ! c) = take (?e - 1 - ?a) (drop ?a is) @ (if is_terminator family_of final then [] else [final])"
    by (simp add: block_code_def)
qed

lemma final_step:
  assumes "blocks_ok family_of is all" "contiguous is" "c < length all" "successor is (all ! c) all (length all) = Ok n"
    "bl_end (all ! c) = Suc k" "is ! k = final"
  shows "\<exists>m > 0. (flat_step family_of exec holds is ^^ m) (At k s) =
    standing all (next_counter holds n (if is_terminator family_of final then s else exec final s))
      (if is_terminator family_of final then s else exec final s)"
proof -
  note b = blockD [OF assms(1,3)]
  have k: "k < length is" "bl_end (all ! c) - 1 = k" using b(2) assms(5) by auto
  have tm: "terminator_of family_of is (Suc k) = Ok (bl_terminator (all ! c))" using b(4) assms(5) by simp
  have at: "c' < length all \<and> index_of is t = Some (bl_first (all ! c'))" if "arm_index all (all ! c) t = Ok c'" for t c'
    using arm_index_Ok [OF assms(1,2) that] by simp
  have fall: "Suc k = bl_first (all ! c')" "c' < length all" if "end_offset final = Ok x" "arm_index all (all ! c) x = Ok c'" for x c'
    using fall_index [OF assms(1,2,3), of x "all ! c" c'] arm_index_Ok(1) [OF assms(1,2) that(2)] that k(2) assms(5,6) by auto
  show ?thesis
  proof (cases "condition_of family_of final")
    case None
    show ?thesis
    proof (cases "is_end family_of final \<or> Suc k = length is")
      case True
      then have "bl_terminator (all ! c) = End_here" using tm assms(6) None by (auto simp: terminator_of_def Let_def split: if_splits)
      then have n: "n = Goes (length all)" using assms(4) by (simp add: successor_def)
      show ?thesis
      proof (cases "is_end family_of final")
        case True
        then show ?thesis using n k(1) None assms(6)
          by (intro exI [of _ 1]) (simp add: standing_def next_counter_def is_terminator_def)
      next
        case False
        then have "Suc k = length is" using \<open>is_end family_of final \<or> Suc k = length is\<close> by simp
        then show ?thesis using n None False assms(6)
          by (intro exI [of _ 2]) (simp add: standing_def next_counter_def is_terminator_def numeral_2_eq_2)
      qed
    next
      case False
      then obtain x where x: "end_offset final = Ok x" "bl_terminator (all ! c) = Fallthrough x"
        using tm assms(6) None by (auto simp: terminator_of_def Let_def ok_iff)
      then obtain c' where "n = Goes c'" "arm_index all (all ! c) x = Ok c'" using assms(4) by (auto simp: successor_def ok_iff)
      then show ?thesis using fall [OF x(1)] k(1) None False assms(6)
        by (intro exI [of _ 1]) (simp add: standing_def next_counter_def is_terminator_def)
    qed
  next
    case (Some cond)
    then have tmr: "is_terminator family_of final" by (simp add: is_terminator_def)
    show ?thesis
    proof (cases "cond = Always")
      case True
      then obtain x where x: "branch_target final = Ok x" "bl_terminator (all ! c) = Jump_to x"
        using tm assms(6) Some by (auto simp: terminator_of_def Let_def ok_iff)
      then obtain c' where "n = Goes c'" "arm_index all (all ! c) x = Ok c'" using assms(4) by (auto simp: successor_def ok_iff)
      then show ?thesis using at x(1) k(1) Some True assms(6) tmr
        by (intro exI [of _ 1]) (simp add: standing_def next_counter_def goto_def)
    next
      case False
      then obtain x y where x: "branch_target final = Ok x" "end_offset final = Ok y" "bl_terminator (all ! c) = Branch_to x y"
        using tm assms(6) Some by (cases cond) (auto simp: terminator_of_def Let_def ok_iff)
      have "map_of BRANCHES (in_opcode final) = Some cond" using Some by (auto simp: condition_of_def branch_condition_def split: option.splits if_splits)
      then obtain c1 c2 where "n = Chooses cond c1 c2" "arm_index all (all ! c) x = Ok c1" "arm_index all (all ! c) y = Ok c2"
        using assms(4,6) x(3) k(2) False by (cases cond) (auto simp: successor_def ok_iff)
      then show ?thesis using at [of x c1] fall [OF x(2), of c2] x(1) k(1) Some False assms(6) tmr
        by (intro exI [of _ 1], cases cond) (simp_all add: standing_def next_counter_def goto_def)
    qed
  qed
qed

definition arms_of :: "families \<Rightarrow> Instruction list \<Rightarrow> Block list \<Rightarrow> Arm list \<Rightarrow> bool" where
  "arms_of family_of is all arms \<longleftrightarrow>
     length arms = length all \<and>
     (\<forall>c < length all. successor is (all ! c) all (length all) = Ok (arm_next (arms ! c)) \<and>
        arm_code (arms ! c) = block_code family_of is (all ! c) \<and> arm_capped (arms ! c) = jumps_back (all ! c) all c)"

lemma emit_dispatch_Ok:
  assumes "emit_dispatch family_of is = Ok arms" "is \<noteq> []"
  shows "\<exists>all. blocks_ok family_of is all \<and> split_at_barriers is family_of False = Ok all \<and> arms_of family_of is all arms"
proof -
  obtain all where all: "split_at_barriers is family_of False = Ok all" "out_map (emit_arm family_of is all) [0..<length all] = Ok arms"
    using assms(1) by (auto simp: emit_dispatch_def ok_iff split: if_splits)
  have len: "length arms = length all" and each: "\<forall>c < length all. emit_arm family_of is all c = Ok (arms ! c)"
    using out_map_nth [OF all(2)] by auto
  have "arms_of family_of is all arms" unfolding arms_of_def
  proof (intro conjI len allI impI)
    fix c assume "c < length all"
    with each obtain x where "successor is (all ! c) all (length all) = Ok x"
      "arms ! c = \<lparr>arm_code = block_code family_of is (all ! c), arm_next = x, arm_capped = jumps_back (all ! c) all c\<rparr>"
      by (auto simp: emit_arm_def ok_iff)
    then show "successor is (all ! c) all (length all) = Ok (arm_next (arms ! c))"
      "arm_code (arms ! c) = block_code family_of is (all ! c)" "arm_capped (arms ! c) = jumps_back (all ! c) all c"
      by simp_all
  qed
  then show ?thesis using split_blocks_ok [OF all(1) assms(2)] all(1) by blast
qed

lemma run_arm_free:
  assumes "wv_counter v < length arms"
  shows "wv_state (run_arm exec holds None arms v) = fold exec (arm_code (arms ! wv_counter v)) (wv_state v)"
    "wv_counter (run_arm exec holds None arms v) =
       next_counter holds (arm_next (arms ! wv_counter v)) (fold exec (arm_code (arms ! wv_counter v)) (wv_state v))"
  using assms by (simp_all add: run_arm_def Let_def)

lemma arm_simulates:
  assumes "blocks_ok family_of is all" "contiguous is" "ends_closed family_of is all" "wv_counter v < length all" "arms_of family_of is all arms"
  shows "\<exists>m > 0. (flat_step family_of exec holds is ^^ m) (standing all (wv_counter v) (wv_state v)) =
    standing all (wv_counter (run_arm exec holds None arms v)) (wv_state (run_arm exec holds None arms v))"
proof -
  define c s where "c = wv_counter v" and "s = wv_state v"
  have c: "c < length all" "c < length arms" using assms(4,5) by (auto simp: c_def arms_of_def)
  have arm: "successor is (all ! c) all (length all) = Ok (arm_next (arms ! c))" "arm_code (arms ! c) = block_code family_of is (all ! c)"
    using assms(5) c(1) by (auto simp: arms_of_def)
  note b = blockD(1,2) [OF assms(1) c(1)] note code = block_code_split [OF assms(1,3) c(1)]
  obtain k where k: "bl_end (all ! c) = Suc k" using b(1) by (cases "bl_end (all ! c)") auto
  define a where "a = bl_first (all ! c)"
  define s1 where "s1 = fold exec (take (k - a) (drop a is)) s"
  define s2 where "s2 = (if is_terminator family_of (is ! k) then s1 else exec (is ! k) s1)"
  have plain: "(flat_step family_of exec holds is ^^ (k - a)) (At a s) = At k s1"
    unfolding s1_def by (rule run_plain) (use code(2) b k in \<open>auto simp: a_def\<close>)
  obtain m where m: "0 < m" "(flat_step family_of exec holds is ^^ m) (At k s1) = standing all (next_counter holds (arm_next (arms ! c)) s2) s2"
    using final_step [OF assms(1,2) c(1) arm(1) k refl, of exec holds s1] unfolding s2_def by blast
  have "fold exec (arm_code (arms ! c)) s = s2" unfolding arm(2) code(1) s2_def s1_def a_def using k by simp
  then have new: "wv_state (run_arm exec holds None arms v) = s2" "wv_counter (run_arm exec holds None arms v) = next_counter holds (arm_next (arms ! c)) s2"
    using run_arm_free [of v arms exec holds] c(2) by (simp_all add: c_def s_def)
  have "(flat_step family_of exec holds is ^^ (m + (k - a))) (standing all c s) = standing all (next_counter holds (arm_next (arms ! c)) s2) s2"
    using plain m(2) c(1) by (simp add: funpow_add standing_def a_def)
  then show ?thesis using m(1) unfolding new c_def [symmetric] s_def [symmetric] by (intro exI [of _ "m + (k - a)"]) simp
qed

lemma funpow_split: "m \<le> k \<Longrightarrow> (f ^^ k) x = (f ^^ (k - m)) ((f ^^ m) x)"
  using funpow_add [of "k - m" m f] by simp

lemma funpow_stays: "g v = v \<Longrightarrow> (g ^^ k) v = v"
  by (induction k) auto

text \<open>A machine that makes several steps of another at a time comes to the same ends.\<close>

lemma coarse_run:
  assumes sim: "\<And>v. \<not> over v \<Longrightarrow> \<exists>m > 0. (f ^^ m) (st v) = st (g v)"
    and still: "\<And>v. over v \<Longrightarrow> g v = v" and fixed: "f x = x" and running: "\<And>v. \<not> over v \<Longrightarrow> st v \<noteq> x"
    and over: "\<And>v. over v \<Longrightarrow> f (st v) = st v"
  shows "(\<exists>k. (f ^^ k) (st v) = x) \<longleftrightarrow> (\<exists>k. over ((g ^^ k) v) \<and> st ((g ^^ k) v) = x)"
proof
  show "\<exists>k. over ((g ^^ k) v) \<and> st ((g ^^ k) v) = x" if "\<exists>k. (f ^^ k) (st v) = x"
  proof -
    have "\<exists>j. over ((g ^^ j) v) \<and> st ((g ^^ j) v) = x" if "(f ^^ k) (st v) = x" for k v
      using that
    proof (induction k arbitrary: v rule: less_induct)
      case (less k)
      show ?case
      proof (cases "over v")
        case True
        then show ?thesis using less.prems funpow_stays [of f "st v" k, OF over [OF True]] by (intro exI [of _ 0]) simp
      next
        case False
        obtain m where m: "0 < m" "(f ^^ m) (st v) = st (g v)" using sim [OF False] by blast
        have "0 < k" using less.prems running [OF False] by (cases k) auto
        have "\<exists>k' < k. (f ^^ k') (st (g v)) = x"
        proof (cases "m \<le> k")
          case True
          then show ?thesis using less.prems m funpow_split [OF True, of f "st v"] by (intro exI [of _ "k - m"]) auto
        next
          case False
          then have "st (g v) = x" using less.prems m funpow_split [of k m f "st v"] funpow_stays [of f x, OF fixed] by simp
          then show ?thesis using \<open>0 < k\<close> by (intro exI [of _ 0]) simp
        qed
        then show ?thesis using less.IH [of _ "g v"] by (metis funpow_swap1 funpow.simps(2) comp_apply)
      qed
    qed
    then show ?thesis using that by blast
  qed
  show "\<exists>k. (f ^^ k) (st v) = x" if "\<exists>k. over ((g ^^ k) v) \<and> st ((g ^^ k) v) = x"
  proof -
    have "\<exists>k. (f ^^ k) (st v) = st ((g ^^ j) v)" for j v
    proof (induction j arbitrary: v)
      case (Suc j)
      show ?case
      proof (cases "over v")
        case True
        then have "(g ^^ Suc j) v = v" using funpow_stays [of g v, OF still [OF True]] by blast
        then show ?thesis by (intro exI [of _ 0]) simp
      next
        case False
        then show ?thesis using sim [OF False] Suc.IH [of "g v"] by (metis funpow_add comp_apply funpow_swap1 funpow.simps(2))
      qed
    qed (intro exI [of _ 0], simp)
    then show ?thesis using that by metis
  qed
qed


text \<open>Programs of plain instructions, branches and ends, with the families of their encodings.\<close>

definition example_instruction :: "nat \<Rightarrow> nat \<Rightarrow> dword32 \<Rightarrow> Operand list \<Rightarrow> Instruction" where
  "example_instruction offset enc oc operands =
     \<lparr>in_offset = offset, in_length = 4, in_word = 0, in_second_word = None, in_words = [0], in_encoding = Some enc,
      in_opcode = oc, in_operands = operands, in_operands_decoded = True\<rparr>"

definition example_families :: families where
  "example_families i = (if in_encoding i = Some 0 then Some ''SOPP'' else Some ''VOP1'')"

definition skipping_program :: "Instruction list" where
  "skipping_program = [example_instruction 0 1 1 [], example_instruction 4 0 8 [Immediate 1], example_instruction 8 1 2 [],
     example_instruction 12 0 1 []]"

definition skipping_arms :: "Arm list" where
  "skipping_arms = [\<lparr>arm_code = [example_instruction 0 1 1 []], arm_next = Chooses ExecutionMaskZero 2 1, arm_capped = False\<rparr>,
     \<lparr>arm_code = [example_instruction 8 1 2 []], arm_next = Goes 2, arm_capped = False\<rparr>,
     \<lparr>arm_code = [], arm_next = Goes 3, arm_capped = False\<rparr>]"

lemma skipping_facts:
  "emit_dispatch example_families skipping_program = Ok skipping_arms" "skipping_program \<noteq> []" "contiguous skipping_program"
proof -
  show "emit_dispatch example_families skipping_program = Ok skipping_arms" "skipping_program \<noteq> []" by code_simp+
  show "contiguous skipping_program"
    by (auto simp: contiguous_def skipping_program_def example_instruction_def nth_Cons split: nat.splits)
qed


section \<open>A budget ends every loop\<close>

lemma arms_forward:
  assumes "blocks_ok family_of is all" "contiguous is" "arms_of family_of is all arms" "c < length all"
  shows "next_counter holds (arm_next (arms ! c)) s \<le> length all"
    "\<not> arm_capped (arms ! c) \<Longrightarrow> c < next_counter holds (arm_next (arms ! c)) s"
proof -
  let ?b = "all ! c"
  have arm: "successor is ?b all (length all) = Ok (arm_next (arms ! c))" "arm_capped (arms ! c) = jumps_back ?b all c"
    using assms(3,4) by (auto simp: arms_of_def)
  have tm: "terminator_of family_of is (bl_end ?b) = Ok (bl_terminator ?b)" using blockD(4) [OF assms(1,4)] .
  have at: "i < length all" "block_at all t = Some i" if "arm_index all ?b t = Ok i" for t i
    using arm_index_Ok(1) [OF assms(1,2) that] that by (auto simp: arm_index_def split: option.splits if_splits)
  have fall: "i = Suc c" if "end_offset (is ! (bl_end ?b - 1)) = Ok x" "arm_index all ?b x = Ok i" for x i
    using fall_index [OF assms(1,2,4) that] by simp
  have "next_counter holds (arm_next (arms ! c)) s \<le> length all \<and> (\<not> arm_capped (arms ! c) \<longrightarrow> c < next_counter holds (arm_next (arms ! c)) s)"
  proof (cases "bl_terminator ?b")
    case End_here
    then have "arm_next (arms ! c) = Goes (length all)" using arm(1) by (simp add: successor_def)
    then show ?thesis using assms(4) by (simp add: next_counter_def)
  next
    case (Jump_to x)
    then obtain i where "arm_next (arms ! c) = Goes i" "arm_index all ?b x = Ok i" using arm(1) by (fastforce simp: successor_def ok_iff)
    then show ?thesis using at arm(2) Jump_to by (auto simp: jumps_back_def next_counter_def intro: less_imp_le)
  next
    case (Fallthrough x)
    then obtain i where i: "arm_next (arms ! c) = Goes i" "arm_index all ?b x = Ok i" using arm(1) by (fastforce simp: successor_def ok_iff)
    have "end_offset (is ! (bl_end ?b - 1)) = Ok x"
      using tm Fallthrough by (auto simp: terminator_of_def Let_def ok_iff split: option.splits if_splits Condition.splits)
    then show ?thesis using fall i at(1) [OF i(2)] by (auto simp: next_counter_def)
  next
    case (Branch_to x y)
    obtain i j where ij: "arm_index all ?b x = Ok i" "arm_index all ?b y = Ok j"
      and rest: "successor is ?b all (length all) = (case map_of BRANCHES (in_opcode (is ! (bl_end ?b - 1))) of
          None \<Rightarrow> Err (Unsupported (in_offset (is ! (bl_end ?b - 1)))) | Some Always \<Rightarrow> Err (Unsupported (in_offset (is ! (bl_end ?b - 1))))
        | Some cond \<Rightarrow> Ok (Chooses cond i j))"
      using arm(1) Branch_to by (auto simp: successor_def ok_iff)
    obtain cond where "map_of BRANCHES (in_opcode (is ! (bl_end ?b - 1))) = Some cond" "cond \<noteq> Always"
      using rest arm(1) by (auto split: option.splits Condition.splits)
    then have i: "arm_next (arms ! c) = Chooses cond i j" "arm_index all ?b x = Ok i" "arm_index all ?b y = Ok j"
      using rest arm(1) ij by (cases cond; simp)+
    have "end_offset (is ! (bl_end ?b - 1)) = Ok y"
      using tm Branch_to by (auto simp: terminator_of_def Let_def ok_iff split: option.splits if_splits Condition.splits)
    then have "j = Suc c" using fall i(3) by blast
    then show ?thesis using at [OF i(2)] at(1) [OF i(3)] arm(2) Branch_to i(1) by (auto simp: jumps_back_def next_counter_def)
  qed
  then show "next_counter holds (arm_next (arms ! c)) s \<le> length all"
    "\<not> arm_capped (arms ! c) \<Longrightarrow> c < next_counter holds (arm_next (arms ! c)) s" by auto
qed

definition left_to_run :: "nat \<Rightarrow> nat \<Rightarrow> 's wave \<Rightarrow> nat" where
  "left_to_run cap n v = (cap + 1 - wv_budget v) * (n + 1) + (n - wv_counter v)"

lemma run_arm_capped:
  assumes "blocks_ok family_of is all" "contiguous is" "arms_of family_of is all arms" "wv_counter v < length all" "wv_budget v \<le> cap"
    and u_def: "u = run_arm exec holds (Some cap) arms v"
  shows "wv_counter u = length all \<or> wv_counter u < length all \<and> wv_budget u \<le> cap \<and> left_to_run cap (length all) u < left_to_run cap (length all) v"
proof -
  have len: "length arms = length all" using assms(3) by (simp add: arms_of_def)
  let ?arm = "arms ! wv_counter v" let ?s = "fold exec (arm_code ?arm) (wv_state v)"
  define n where "n = next_counter holds (arm_next ?arm) ?s"
  note fwd = arms_forward [OF assms(1-4), of holds ?s, folded n_def]
  show ?thesis
  proof (cases "arm_capped ?arm \<and> n \<le> wv_counter v")
    case True
    then have u: "u = \<lparr>wv_counter = (if wv_budget v + 1 > cap then length arms else n), wv_budget = wv_budget v + 1, wv_state = ?s\<rparr>"
      using assms(4) len by (simp add: u_def run_arm_def Let_def n_def)
    show ?thesis
    proof (cases "wv_budget v + 1 > cap")
      case False
      then obtain r where r: "cap + 1 - wv_budget v = Suc r" "cap + 1 - (wv_budget v + 1) = r" by (cases "cap + 1 - wv_budget v") auto
      then show ?thesis using False True assms(4) by (auto simp: u left_to_run_def)
    qed (simp add: u len)
  next
    case False
    then have n: "wv_counter v < n" using fwd(2) by auto
    have u: "wv_counter u = n" "wv_budget u = wv_budget v"
      using False assms(4,5) len by (auto simp: u_def run_arm_def Let_def n_def)
    then show ?thesis using n fwd(1) assms(5) by (auto simp: left_to_run_def)
  qed
qed

lemma capped_run_ends:
  assumes "blocks_ok family_of is all" "contiguous is" "arms_of family_of is all arms" "wv_counter v \<le> length all"
    "wv_counter v < length all \<Longrightarrow> wv_budget v \<le> cap"
  shows "\<exists>k \<le> left_to_run cap (length all) v. wv_counter ((run_arm exec holds (Some cap) arms ^^ k) v) = length all"
  using assms(4,5)
proof (induction "left_to_run cap (length all) v" arbitrary: v rule: less_induct)
  case less
  show ?case
  proof (cases "wv_counter v < length all")
    case False
    then show ?thesis using less.prems(1) by (intro exI [of _ 0]) simp
  next
    case True
    let ?u = "run_arm exec holds (Some cap) arms v"
    have pos: "0 < left_to_run cap (length all) v" using True by (simp add: left_to_run_def)
    from run_arm_capped [OF assms(1-3) True less.prems(2) [OF True] refl] show ?thesis
    proof
      assume "wv_counter ?u = length all"
      then show ?thesis using pos by (intro exI [of _ 1]) simp
    next
      assume u: "wv_counter ?u < length all \<and> wv_budget ?u \<le> cap \<and> left_to_run cap (length all) ?u < left_to_run cap (length all) v"
      then obtain k where "k \<le> left_to_run cap (length all) ?u" "wv_counter ((run_arm exec holds (Some cap) arms ^^ k) ?u) = length all"
        using less.hyps [of ?u] by auto
      then show ?thesis using u by (intro exI [of _ "Suc k"]) (simp add: funpow_swap1)
    qed
  qed
qed

lemma run_arm_budget: "wv_budget v \<le> wv_budget (run_arm exec holds (Some cap) arms v)"
  by (simp add: run_arm_def Let_def)

lemma run_arm_uncut:
  assumes "wv_budget (run_arm exec holds (Some cap) arms v) \<le> cap" "wv_counter u = wv_counter v" "wv_state u = wv_state v"
  shows "wv_counter (run_arm exec holds (Some cap) arms v) = wv_counter (run_arm exec holds None arms u)"
    "wv_state (run_arm exec holds (Some cap) arms v) = wv_state (run_arm exec holds None arms u)"
  using assms by (auto simp: run_arm_def Let_def split: if_splits)

lemma capped_run_agrees:
  assumes "wv_budget ((run_arm exec holds (Some cap) arms ^^ k) v) \<le> cap"
  shows "wv_counter ((run_arm exec holds (Some cap) arms ^^ k) v) = wv_counter ((run_arm exec holds None arms ^^ k) v) \<and>
    wv_state ((run_arm exec holds (Some cap) arms ^^ k) v) = wv_state ((run_arm exec holds None arms ^^ k) v)"
  using assms
proof (induction k)
  case (Suc k)
  have "wv_budget ((run_arm exec holds (Some cap) arms ^^ k) v) \<le> cap"
    using Suc.prems run_arm_budget [of "(run_arm exec holds (Some cap) arms ^^ k) v" exec holds cap arms] by simp
  then show ?case using Suc run_arm_uncut [of exec holds cap arms "(run_arm exec holds (Some cap) arms ^^ k) v" "(run_arm exec holds None arms ^^ k) v"] by simp
qed simp

text \<open>C33. With a budget of jumps back the emitted loop ends, whatever the guest's program does: within as many arms as
  the budget and one more times the blocks and one more, and the blocks once again; and where it did not spend more than the budget it
  stands where the loop without a budget would.\<close>

theorem dispatch_ends:
  assumes "emit_dispatch family_of is = Ok arms" "is \<noteq> []" "contiguous is"
  shows "\<exists>k \<le> (cap + 1) * (length arms + 1) + length arms.
    let v = (run_arm exec holds (Some cap) arms ^^ k) \<lparr>wv_counter = 0, wv_budget = 0, wv_state = s\<rparr>;
        u = (run_arm exec holds None arms ^^ k) \<lparr>wv_counter = 0, wv_budget = 0, wv_state = s\<rparr>
    in wv_counter v = length arms \<and> (wv_budget v \<le> cap \<longrightarrow> wv_counter u = length arms \<and> wv_state u = wv_state v)"
proof -
  obtain all where all: "blocks_ok family_of is all" "arms_of family_of is all arms"
    using emit_dispatch_Ok [OF assms(1,2)] by blast
  then have len: "length arms = length all" by (simp add: arms_of_def)
  let ?v = "\<lparr>wv_counter = 0, wv_budget = 0, wv_state = s\<rparr>"
  obtain k where k: "k \<le> left_to_run cap (length all) ?v" "wv_counter ((run_arm exec holds (Some cap) arms ^^ k) ?v) = length all"
    using capped_run_ends [OF all(1) assms(3) all(2), where v = ?v and cap = cap and exec = exec and holds = holds] by auto
  then show ?thesis using capped_run_agrees [where exec = exec and holds = holds and cap = cap and arms = arms and k = k and v = ?v]
    by (intro exI [of _ k]) (auto simp: left_to_run_def len Let_def)
qed

theorem dispatch_ends_witness:
  "\<exists>k \<le> (2 + 1) * (3 + 1) + 3. wv_counter ((run_arm (\<lambda>i. (#) (in_opcode i)) (\<lambda>_ _. True) (Some 2) skipping_arms ^^ k)
     \<lparr>wv_counter = 0, wv_budget = 0, wv_state = []\<rparr>) = 3"
proof -
  have "length skipping_arms = 3" by (simp add: skipping_arms_def)
  then show ?thesis
    using dispatch_ends [OF skipping_facts, of 2 "\<lambda>i. (#) (in_opcode i)" "\<lambda>_ _. True" "[]"] by (auto simp: Let_def)
qed

section \<open>An end inside a block\<close>

definition padded_program :: "Instruction list" where
  "padded_program = [example_instruction 0 0 8 [Immediate 2], example_instruction 4 0 1 [], example_instruction 8 0 0 [],
     example_instruction 12 1 7 [], example_instruction 16 0 1 []]"


end
