(* ===== verification/Device_Table.thy ===== *)
theory Device_Table
  imports Prelude "HOL-Library.Product_Lexorder" "HOL-Library.Multiset" "HOL-Library.Code_Target_Nat"
begin

text \<open>
  The table a device-addressed dispatch turns guest addresses into device addresses with
  (\<^verbatim>\<open>orbistoun-translate/src/device_address.rs\<close>). It is an open-addressed hash table over chunks of guest
  memory, in 32-bit words: a header, then slots of four words, each a chunk number and the distance from
  the chunk's guest addresses to its device addresses. A lookup reads the four slots from a chunk's home
  and never wraps.

  Guest and device addresses are words of 64 bits, the table's words have 32. Slots and indices are
  numbers; a sum or a product that the source forms in 32 bits without a check panics when it does not
  fit, as does the end of a mapping that reaches the top of the address space.

  The lemmas show that a table as it is built finds every mapped address and nothing else, that pointing
  a chunk at a copy moves that chunk alone, and that the marks a dispatch leaves come back as the chunks
  they stand for.
\<close>

unbundle bit_operations_syntax

type_synonym word64 = "64 word"
type_synonym word32 = "32 word"

section \<open>The table\<close>

definition HEADER_WORDS :: nat where "HEADER_WORDS = 4"
definition SLOT_WORDS :: nat where "SLOT_WORDS = 4"
definition MARK_SINK_WORDS :: nat where "MARK_SINK_WORDS = 4"
definition PROBES :: nat where "PROBES = 4"
definition EMPTY :: word32 where "EMPTY = - 1"
definition CHUNK_HASH :: word32 where "CHUNK_HASH = 0x9e3779b1"
definition MOST_CHUNK_SHIFT :: nat where "MOST_CHUNK_SHIFT = 16"
definition LEAST_CHUNK_SHIFT :: nat where "LEAST_CHUNK_SHIFT = 12"
definition MOST_BITS :: nat where "MOST_BITS = 28"

lemmas table_consts = HEADER_WORDS_def SLOT_WORDS_def MARK_SINK_WORDS_def PROBES_def

record Mapped =
  mp_guest :: word64
  mp_len :: word64
  mp_device :: word64

datatype TableError = Overlap word64 word64 | TableMisaligned word64 word64 | TooLarge nat

record Table =
  tb_words :: "word32 list"
  tb_bits :: nat
  tb_shift :: nat

definition u32_index :: "nat \<Rightarrow> (TableError, nat) outcome" where
  "u32_index n = (if n < 2 ^ 32 then Ok n else Panic)"

definition index_word :: "'a list \<Rightarrow> nat \<Rightarrow> (TableError, 'a) outcome" where
  "index_word xs i = (if i < length xs then Ok (xs ! i) else Panic)"

definition low_half :: "word64 \<Rightarrow> word32" where "low_half w = ucast w"
definition high_half :: "word64 \<Rightarrow> word32" where "high_half w = ucast (drop_bit 32 w)"
definition from_halves :: "word32 \<Rightarrow> word32 \<Rightarrow> word64" where
  "from_halves lo hi = ucast lo OR push_bit 32 (ucast hi)"

text \<open>The slot a chunk hashes to.\<close>

definition chunk_slot :: "word64 \<Rightarrow> nat \<Rightarrow> nat" where
  "chunk_slot chunk bits =
     (let mixed = low_half chunk XOR high_half chunk
      in unat (drop_bit (32 - min (max bits 1) 31) (mixed * CHUNK_HASH)))"

text \<open>The first element a fallible test accepts, the test run on each element in turn.\<close>

fun find_out :: "('a \<Rightarrow> (TableError, bool) outcome) \<Rightarrow> 'a list \<Rightarrow> (TableError, 'a option) outcome" where
  "find_out p [] = Ok None"
| "find_out p (x # xs) = out_bind (p x) (\<lambda>b. if b then Ok (Some x) else find_out p xs)"

section \<open>Placing chunks\<close>

definition slot_count :: "nat \<Rightarrow> nat" where
  "slot_count bits = 2 ^ bits + PROBES - 1"

definition empty_words :: "nat \<Rightarrow> word32 list" where
  "empty_words bits =
     (let slots = slot_count bits
      in fold (\<lambda>slot ws. ws[HEADER_WORDS + slot * SLOT_WORDS + 1 := EMPTY]) [0..<slots]
           (replicate (HEADER_WORDS + slots * SLOT_WORDS) 0))"

definition slot_free :: "word32 list \<Rightarrow> nat \<Rightarrow> (TableError, bool) outcome" where
  "slot_free ws slot =
     out_bind (u32_index (HEADER_WORDS + slot * SLOT_WORDS + 1)) (\<lambda>at.
     out_bind (index_word ws at) (\<lambda>w. Ok (w = EMPTY)))"

fun copy_words :: "nat \<Rightarrow> 'a list \<Rightarrow> 'a list \<Rightarrow> 'a list" where
  "copy_words at [] ws = ws"
| "copy_words at (x # xs) ws = copy_words (at + 1) xs (ws[at := x])"

definition copy_from_slice :: "nat \<Rightarrow> 'a list \<Rightarrow> 'a list \<Rightarrow> (TableError, 'a list) outcome" where
  "copy_from_slice at xs ws = (if at + length xs \<le> length ws then Ok (copy_words at xs ws) else Panic)"

definition place_chunk :: "nat \<Rightarrow> word64 \<times> word64 \<Rightarrow> word32 list \<Rightarrow> (TableError, word32 list option) outcome" where
  "place_chunk bits cd ws =
     (let home = chunk_slot (fst cd) bits
      in out_bind (find_out (slot_free ws) [home..<home + PROBES]) (\<lambda>free.
         case free of
           None \<Rightarrow> Ok None
         | Some slot \<Rightarrow>
             out_bind (u32_index (HEADER_WORDS + slot * SLOT_WORDS)) (\<lambda>at.
             out_bind (copy_from_slice at
                 [low_half (fst cd), high_half (fst cd), low_half (snd cd), high_half (snd cd)] ws)
               (\<lambda>ws'. Ok (Some ws')))))"

fun place_from :: "nat \<Rightarrow> (word64 \<times> word64) list \<Rightarrow> word32 list \<Rightarrow> (TableError, word32 list option) outcome" where
  "place_from bits [] ws = Ok (Some ws)"
| "place_from bits (cd # cds) ws =
     out_bind (place_chunk bits cd ws) (\<lambda>r. case r of None \<Rightarrow> Ok None | Some ws' \<Rightarrow> place_from bits cds ws')"

definition place_chunks :: "(word64 \<times> word64) list \<Rightarrow> nat \<Rightarrow> (TableError, word32 list option) outcome" where
  "place_chunks cds bits = place_from bits cds (empty_words bits)"

section \<open>Building a table\<close>

definition trailing_zeros64 :: "word64 \<Rightarrow> nat" where
  "trailing_zeros64 w = length (takeWhile (\<lambda>i. \<not> bit w i) [0..<64])"

function next_power_from :: "nat \<Rightarrow> nat \<Rightarrow> nat" where
  "next_power_from p n = (if n \<le> p \<or> p = 0 then p else next_power_from (2 * p) n)"
  by pat_completeness auto
termination by (relation "measure (\<lambda>(p, n). n - p)") auto

declare next_power_from.simps [simp del]

definition next_power_of_two :: "nat \<Rightarrow> nat" where
  "next_power_of_two n = next_power_from 1 n"

fun coarsest :: "nat \<Rightarrow> Mapped list \<Rightarrow> (TableError, nat) outcome" where
  "coarsest shift [] = Ok shift"
| "coarsest shift (m # ms) =
     (let alignment = trailing_zeros64 (mp_guest m OR mp_len m)
      in if mp_len m = 0 \<or> alignment < LEAST_CHUNK_SHIFT then Err (TableMisaligned (mp_guest m) (mp_len m))
         else coarsest (min shift alignment) ms)"

definition saturating_add64 :: "word64 \<Rightarrow> word64 \<Rightarrow> word64" where
  "saturating_add64 a b = (if unat a + unat b < 2 ^ 64 then a + b else - 1)"

fun check_overlap :: "Mapped list \<Rightarrow> (TableError, unit) outcome" where
  "check_overlap (a # b # ms) =
     (if mp_guest b < saturating_add64 (mp_guest a) (mp_len a) then Err (Overlap (mp_guest a) (mp_guest b))
      else check_overlap (b # ms))"
| "check_overlap ms = Ok ()"

definition plain_add64 :: "word64 \<Rightarrow> word64 \<Rightarrow> (TableError, word64) outcome" where
  "plain_add64 a b = (if unat a + unat b < 2 ^ 64 then Ok (a + b) else Panic)"

definition mapping_chunks :: "nat \<Rightarrow> Mapped \<Rightarrow> (TableError, (word64 \<times> word64) list) outcome" where
  "mapping_chunks shift m =
     (let delta = mp_device m - mp_guest m;
          first = drop_bit shift (mp_guest m)
      in out_bind (plain_add64 (mp_guest m) (mp_len m)) (\<lambda>sum.
         Ok (map (\<lambda>c. (word_of_nat c, delta)) [unat first..<unat (drop_bit shift sum)])))"

function grow :: "nat \<Rightarrow> (word64 \<times> word64) list \<Rightarrow> nat \<Rightarrow> (TableError, Table) outcome" where
  "grow shift cds bits =
     (case place_chunks cds bits of
        Ok (Some ws) \<Rightarrow> Ok \<lparr>tb_words = ws, tb_bits = bits, tb_shift = shift\<rparr>
      | Ok None \<Rightarrow> if MOST_BITS < bits + 1 then Err (TooLarge (length cds)) else grow shift cds (bits + 1)
      | Err e \<Rightarrow> Err e
      | Panic \<Rightarrow> Panic)"
  by pat_completeness auto
termination by (relation "measure (\<lambda>(shift, cds, bits). MOST_BITS - bits)") (auto simp: MOST_BITS_def)

declare grow.simps [simp del]

definition first_bits :: "nat \<Rightarrow> nat" where
  "first_bits n = max (trailing_zeros64 (word_of_nat (next_power_of_two (max n 1 * 2)))) 1"

definition table_build :: "Mapped list \<Rightarrow> (TableError, Table) outcome" where
  "table_build mapped =
     (let sorted = sort_key mp_guest mapped
      in out_bind (coarsest MOST_CHUNK_SHIFT sorted) (\<lambda>shift.
         out_bind (check_overlap sorted) (\<lambda>_.
         out_bind (out_map (mapping_chunks shift) sorted) (\<lambda>css.
         let chunks = concat css in grow shift chunks (first_bits (length chunks))))))"

section \<open>Looking up\<close>

definition table_slots :: "Table \<Rightarrow> (TableError, nat) outcome" where
  "table_slots t = (if tb_bits t < 32 then u32_index (slot_count (tb_bits t)) else Panic)"

definition mark_words :: "Table \<Rightarrow> (TableError, nat) outcome" where
  "mark_words t = out_bind (table_slots t) (\<lambda>slots. u32_index (MARK_SINK_WORDS + 2 * slots))"

definition push_words :: "Table \<Rightarrow> word64 \<Rightarrow> word64 \<Rightarrow> bool \<Rightarrow> word32 list" where
  "push_words t location marks recording =
     [low_half location, high_half location, word_of_nat (tb_bits t), word_of_nat (tb_shift t),
      low_half marks, high_half marks, of_bool recording]"

definition slot_matches :: "Table \<Rightarrow> word64 \<Rightarrow> nat \<Rightarrow> (TableError, bool) outcome" where
  "slot_matches t chunk slot =
     out_bind (u32_index (HEADER_WORDS + slot * SLOT_WORDS)) (\<lambda>at.
     Ok (case get_range (tb_words t) at (at + 2) of
           Some entry \<Rightarrow> entry ! 1 \<noteq> EMPTY \<and> from_halves (entry ! 0) (entry ! 1) = chunk
         | None \<Rightarrow> False))"

definition slot_of :: "Table \<Rightarrow> word64 \<Rightarrow> (TableError, nat option) outcome" where
  "slot_of t guest =
     (let chunk = drop_bit (tb_shift t) guest; home = chunk_slot chunk (tb_bits t)
      in find_out (slot_matches t chunk) [home..<home + PROBES])"

definition table_redirect :: "Table \<Rightarrow> word64 \<Rightarrow> word64 \<Rightarrow> (TableError, Table \<times> bool) outcome" where
  "table_redirect t guest device =
     out_bind (slot_of t guest) (\<lambda>found. case found of
        None \<Rightarrow> Ok (t, False)
      | Some slot \<Rightarrow>
          (let base = push_bit (tb_shift t) (drop_bit (tb_shift t) guest); delta = device - base
           in out_bind (u32_index (HEADER_WORDS + slot * SLOT_WORDS + 2)) (\<lambda>at.
              out_bind (copy_from_slice at [low_half delta, high_half delta] (tb_words t)) (\<lambda>ws.
              Ok (t\<lparr>tb_words := ws\<rparr>, True)))))"

definition probe_entry :: "Table \<Rightarrow> word64 \<Rightarrow> word64 \<Rightarrow> nat \<Rightarrow> (TableError, word64 option) outcome" where
  "probe_entry t guest chunk slot =
     out_bind (u32_index (HEADER_WORDS + slot * SLOT_WORDS)) (\<lambda>at.
     Ok (case get_range (tb_words t) at (at + SLOT_WORDS) of
           None \<Rightarrow> None
         | Some entry \<Rightarrow>
             (let held = from_halves (entry ! 0) (entry ! 1); delta = from_halves (entry ! 2) (entry ! 3)
              in if entry ! 1 \<noteq> EMPTY \<and> held = chunk then Some (guest + delta) else None)))"

fun find_map_out :: "('a \<Rightarrow> (TableError, 'b option) outcome) \<Rightarrow> 'a list \<Rightarrow> (TableError, 'b option) outcome" where
  "find_map_out p [] = Ok None"
| "find_map_out p (x # xs) =
     out_bind (p x) (\<lambda>r. case r of Some y \<Rightarrow> Ok (Some y) | None \<Rightarrow> find_map_out p xs)"

definition table_lookup :: "Table \<Rightarrow> word64 \<Rightarrow> (TableError, word64 option) outcome" where
  "table_lookup t guest =
     (let chunk = drop_bit (tb_shift t) guest; home = chunk_slot chunk (tb_bits t)
      in find_map_out (\<lambda>probe. probe_entry t guest chunk (home + probe)) [0..<PROBES])"

section \<open>Marks\<close>

text \<open>
  Both readers walk marks with the slot each stands for, clear the marks that are set, and stop at a slot
  the table has no words for. The result is the marks as they leave them and the chunks they found.
\<close>

fun take_touched_from :: "Table \<Rightarrow> nat \<Rightarrow> word32 list \<Rightarrow> word64 list \<Rightarrow> (TableError, word32 list \<times> word64 list) outcome" where
  "take_touched_from t slot [] touched = Ok ([], touched)"
| "take_touched_from t slot (mark # marks) touched =
     (if mark = 0 then
        out_bind (take_touched_from t (slot + 1) marks touched) (\<lambda>(left, found). Ok (0 # left, found))
      else
        out_bind (u32_index (HEADER_WORDS + slot * SLOT_WORDS)) (\<lambda>at.
        case get_range (tb_words t) at (at + 2) of
          None \<Rightarrow> Ok (0 # marks, touched)
        | Some entry \<Rightarrow>
            out_bind (take_touched_from t (slot + 1) marks
                (if entry ! 1 \<noteq> EMPTY then touched @ [push_bit (tb_shift t) (from_halves (entry ! 0) (entry ! 1))]
                 else touched))
              (\<lambda>(left, found). Ok (0 # left, found))))"

definition take_touched :: "Table \<Rightarrow> word32 list \<Rightarrow> (TableError, word32 list \<times> word64 list) outcome" where
  "take_touched t marks =
     out_bind (table_slots t) (\<lambda>slots.
     out_bind (u32_index (MARK_SINK_WORDS + slots)) (\<lambda>start.
     out_bind (take_touched_from t 0 (drop start marks) []) (\<lambda>(left, found).
     Ok (take start marks @ left, sort found))))"

fun take_written_from ::
    "Table \<Rightarrow> nat \<Rightarrow> word32 list \<Rightarrow> (word64 \<times> word64) list \<Rightarrow> (TableError, word32 list \<times> (word64 \<times> word64) list) outcome" where
  "take_written_from t slot [] written = Ok ([], written)"
| "take_written_from t slot (mark # marks) written =
     (if mark = 0 then
        out_bind (take_written_from t (slot + 1) marks written) (\<lambda>(left, found). Ok (mark # left, found))
      else
        out_bind (u32_index (HEADER_WORDS + slot * SLOT_WORDS)) (\<lambda>at.
        case get_range (tb_words t) at (at + SLOT_WORDS) of
          None \<Rightarrow> Ok (0 # marks, written)
        | Some entry \<Rightarrow>
            out_bind (take_written_from t (slot + 1) marks
                (if entry ! 1 = EMPTY then written
                 else written @ [(push_bit (tb_shift t) (from_halves (entry ! 0) (entry ! 1)), push_bit (tb_shift t) 1)]))
              (\<lambda>(left, found). Ok (0 # left, found))))"

definition take_written :: "Table \<Rightarrow> word32 list \<Rightarrow> (TableError, word32 list \<times> (word64 \<times> word64) list) outcome" where
  "take_written t marks =
     (let sink = min MARK_SINK_WORDS (length marks)
      in out_bind (table_slots t) (\<lambda>slots.
         out_bind (take_written_from t 0 (take slots (drop sink marks)) []) (\<lambda>(left, found).
         Ok (replicate sink 0 @ left @ drop slots (drop sink marks), sort found))))"

section \<open>Words, halves and probes\<close>

lemma from_halves_split [simp]: "from_halves (low_half w) (high_half w) = w"
  unfolding from_halves_def low_half_def high_half_def
  by (rule bit_word_eqI) (auto simp: bit_simps not_less)

lemma unat_drop: "unat (drop_bit n w) = unat w div 2 ^ n"
  by (simp only: unat_drop_bit_eq) (simp add: drop_bit_eq_div)

lemma high_half_not_empty: "unat c < 2 ^ 52 \<Longrightarrow> high_half c \<noteq> EMPTY"
proof
  assume c: "unat c < 2 ^ 52" and "high_half c = EMPTY"
  then have "unat (high_half c) = 2 ^ 32 - 1" by (simp add: EMPTY_def unsigned_minus_1_eq_mask mask_eq_exp_minus_1)
  moreover have "unat (high_half c) \<le> unat c div 2 ^ 32"
    by (simp add: high_half_def unsigned_ucast_eq unat_drop take_bit_nat_less_eq_self)
  moreover have "unat c div 2 ^ 32 < 2 ^ 20"
    using c by (simp add: less_mult_imp_div_less)
  ultimately show False by simp
qed

lemma chunk_slot_less: "1 \<le> bits \<Longrightarrow> bits \<le> 31 \<Longrightarrow> chunk_slot c bits < 2 ^ bits"
proof -
  assume b: "1 \<le> bits" "bits \<le> 31"
  have "unat (drop_bit (32 - bits) w) < 2 ^ bits" for w :: word32
  proof -
    have "unat w < 2 ^ (32 - bits) * 2 ^ bits"
      using unsigned_less [of w] b by (simp flip: power_add)
    then show ?thesis
      by (simp add: unat_drop less_mult_imp_div_less mult.commute)
  qed
  with b show ?thesis by (simp add: chunk_slot_def Let_def min_def max_def)
qed

lemma find_out_pure:
  "(\<And>x. x \<in> set xs \<Longrightarrow> p x = Ok (q x)) \<Longrightarrow> find_out p xs = Ok (find q xs)"
  by (induction xs) auto

lemma find_map_out_pure:
  "(\<And>x. x \<in> set xs \<Longrightarrow> p x = Ok (q x)) \<Longrightarrow>
     find_map_out p xs = Ok (Option.bind (find (\<lambda>x. q x \<noteq> None) xs) q)"
  by (induction xs) (auto split: option.split)

lemma find_unique:
  assumes "\<And>x y. x \<in> set xs \<Longrightarrow> y \<in> set xs \<Longrightarrow> p x \<Longrightarrow> p y \<Longrightarrow> x = y" "x \<in> set xs" "p x"
  shows "find p xs = Some x"
  using assms by (metis find_None_iff2 find_Some_iff2 nth_mem option.exhaust)

section \<open>What the slots hold\<close>

text \<open>The chunk and the distance a slot holds, where it holds one.\<close>

definition entry_at :: "word32 list \<Rightarrow> nat \<Rightarrow> (word64 \<times> word64) option" where
  "entry_at ws slot =
     (let at = HEADER_WORDS + slot * SLOT_WORDS
      in if at + SLOT_WORDS \<le> length ws \<and> ws ! (at + 1) \<noteq> EMPTY
         then Some (from_halves (ws ! at) (ws ! (at + 1)), from_halves (ws ! (at + 2)) (ws ! (at + 3)))
         else None)"

text \<open>
  A table's words are well formed when there are as many as its slots need, every chunk lies among the
  slots its lookup reads, and no chunk lies in two.
\<close>

definition words_ok :: "nat \<Rightarrow> word32 list \<Rightarrow> bool" where
  "words_ok bits ws \<longleftrightarrow>
     1 \<le> bits \<and> bits \<le> MOST_BITS \<and> length ws = HEADER_WORDS + slot_count bits * SLOT_WORDS \<and>
     (\<forall>slot c d. entry_at ws slot = Some (c, d) \<longrightarrow> slot \<in> {chunk_slot c bits..<chunk_slot c bits + PROBES}) \<and>
     (\<forall>slot slot' c d d'. entry_at ws slot = Some (c, d) \<longrightarrow> entry_at ws slot' = Some (c, d') \<longrightarrow> slot = slot')"

lemma entry_at_fits: "entry_at ws slot = Some e \<Longrightarrow> HEADER_WORDS + slot * SLOT_WORDS + SLOT_WORDS \<le> length ws"
  by (simp add: entry_at_def Let_def split: if_splits)

lemma slot_in_words:
  assumes "words_ok bits ws" "slot < slot_count bits"
  shows "HEADER_WORDS + slot * SLOT_WORDS + SLOT_WORDS \<le> length ws" "length ws < 2 ^ 32"
proof -
  have "(2 :: nat) ^ bits \<le> 2 ^ 28"
    using assms(1) by (intro power_increasing) (auto simp: words_ok_def MOST_BITS_def)
  then show "length ws < 2 ^ 32"
    using assms(1) by (simp add: words_ok_def slot_count_def table_consts)
  show "HEADER_WORDS + slot * SLOT_WORDS + SLOT_WORDS \<le> length ws"
    using assms by (simp add: words_ok_def table_consts)
qed

lemma probe_in_table:
  "words_ok bits ws \<Longrightarrow> slot \<in> {chunk_slot c bits..<chunk_slot c bits + PROBES} \<Longrightarrow> slot < slot_count bits"
  using chunk_slot_less [of bits c] by (auto simp: words_ok_def slot_count_def PROBES_def MOST_BITS_def)

lemma entry_at_count: "words_ok bits ws \<Longrightarrow> entry_at ws slot = Some e \<Longrightarrow> slot < slot_count bits"
proof -
  assume "words_ok bits ws" "entry_at ws slot = Some e"
  then have "length ws = HEADER_WORDS + slot_count bits * SLOT_WORDS"
    "HEADER_WORDS + slot * SLOT_WORDS + SLOT_WORDS \<le> length ws"
    by (simp add: words_ok_def) (simp add: entry_at_fits \<open>entry_at ws slot = Some e\<close>)
  then show ?thesis by (simp add: table_consts)
qed

subsection \<open>Words as they start\<close>

lemma fold_empty_nth:
  "fold (\<lambda>slot ws. ws[HEADER_WORDS + slot * SLOT_WORDS + 1 := EMPTY]) [0..<n] ws0 = ws \<Longrightarrow>
     length ws = length ws0 \<and> (\<forall>slot < n. HEADER_WORDS + slot * SLOT_WORDS + 1 < length ws \<longrightarrow>
       ws ! (HEADER_WORDS + slot * SLOT_WORDS + 1) = EMPTY)"
  by (induction n arbitrary: ws) (auto simp: less_Suc_eq table_consts)

lemma length_empty_words: "length (empty_words bits) = HEADER_WORDS + slot_count bits * SLOT_WORDS"
  using fold_empty_nth [OF refl, of "slot_count bits"] by (simp add: empty_words_def Let_def)

lemma entry_at_empty [simp]: "entry_at (empty_words bits) slot = None"
proof -
  have "slot < slot_count bits \<Longrightarrow> empty_words bits ! (HEADER_WORDS + slot * SLOT_WORDS + 1) = EMPTY"
    using fold_empty_nth [OF refl, of "slot_count bits"]
    by (auto simp: empty_words_def Let_def table_consts)
  then show ?thesis
    by (auto simp: entry_at_def Let_def length_empty_words table_consts)
qed

lemma words_ok_empty: "1 \<le> bits \<Longrightarrow> bits \<le> MOST_BITS \<Longrightarrow> words_ok bits (empty_words bits)"
  by (simp add: words_ok_def length_empty_words)

subsection \<open>Writing a slot\<close>

lemma length_copy_words [simp]: "length (copy_words at xs ws) = length ws"
  by (induction at xs ws rule: copy_words.induct) auto

lemma copy_words_nth:
  "at + length xs \<le> length ws \<Longrightarrow> i < length ws \<Longrightarrow>
     copy_words at xs ws ! i = (if at \<le> i \<and> i < at + length xs then xs ! (i - at) else ws ! i)"
proof (induction at xs ws rule: copy_words.induct)
  case (2 at x xs ws)
  then show ?case
    by (auto simp: nth_list_update nth_Cons')
qed auto

lemma entry_at_write:
  assumes "HEADER_WORDS + slot * SLOT_WORDS + SLOT_WORDS \<le> length ws" "high_half c \<noteq> EMPTY"
  shows "entry_at (copy_words (HEADER_WORDS + slot * SLOT_WORDS) [low_half c, high_half c, low_half d, high_half d] ws) =
     (entry_at ws)(slot \<mapsto> (c, d))"
proof
  fix s
  show "entry_at (copy_words (HEADER_WORDS + slot * SLOT_WORDS)
      [low_half c, high_half c, low_half d, high_half d] ws) s = ((entry_at ws)(slot \<mapsto> (c, d))) s"
  proof (cases "s = slot")
    case True
    with assms show ?thesis
      by (simp add: entry_at_def Let_def table_consts copy_words_nth nth_Cons' del: copy_words.simps)
  next
    case False
    then have "s * 4 + 4 \<le> slot * 4 \<or> slot * 4 + 4 \<le> s * 4" by arith
    with assms False show ?thesis
      by (auto simp add: entry_at_def Let_def table_consts copy_words_nth simp del: copy_words.simps)
  qed
qed

lemma entry_at_move:
  assumes "entry_at ws slot = Some (c, d0)"
  shows "entry_at (copy_words (HEADER_WORDS + slot * SLOT_WORDS + 2) [low_half d, high_half d] ws) =
     (entry_at ws)(slot \<mapsto> (c, d))"
proof
  fix s
  have fit: "HEADER_WORDS + slot * SLOT_WORDS + SLOT_WORDS \<le> length ws"
    using assms by (simp add: entry_at_def Let_def split: if_splits)
  show "entry_at (copy_words (HEADER_WORDS + slot * SLOT_WORDS + 2) [low_half d, high_half d] ws) s =
      ((entry_at ws)(slot \<mapsto> (c, d))) s"
  proof (cases "s = slot")
    case True
    with assms fit show ?thesis
      by (auto simp add: entry_at_def Let_def table_consts copy_words_nth nth_Cons'
          simp del: copy_words.simps split: if_splits)
  next
    case False
    then have "s * 4 + 4 \<le> slot * 4 \<or> slot * 4 + 4 \<le> s * 4" by arith
    with fit False show ?thesis
      by (auto simp add: entry_at_def Let_def table_consts copy_words_nth simp del: copy_words.simps)
  qed
qed

subsection \<open>Placing\<close>

lemma slot_free_entry: "words_ok bits ws \<Longrightarrow> slot < slot_count bits \<Longrightarrow> slot_free ws slot = Ok (entry_at ws slot = None)"
  using slot_in_words [of bits ws slot]
  by (simp add: slot_free_def index_word_def u32_index_def entry_at_def Let_def table_consts)

lemma words_ok_insert:
  assumes "words_ok bits ws" "fst cd \<notin> fst ` ran (entry_at ws)" "entry_at ws slot = None"
    "slot \<in> {chunk_slot (fst cd) bits..<chunk_slot (fst cd) bits + PROBES}"
    "entry_at ws' = (entry_at ws)(slot \<mapsto> cd)" "length ws' = length ws"
  shows "words_ok bits ws'" "ran (entry_at ws') = insert cd (ran (entry_at ws))"
proof -
  have new: "entry_at ws s = Some (fst cd, d) \<Longrightarrow> False" for s d
    using assms(2) ranI [of "entry_at ws" s "(fst cd, d)"] by (metis fst_conv image_eqI)
  show "words_ok bits ws'"
    unfolding words_ok_def
  proof (intro conjI allI impI)
    fix s s' c d d'
    assume "entry_at ws' s = Some (c, d)" "entry_at ws' s' = Some (c, d')"
    with assms(1,5) new show "s = s'"
      by (auto simp: words_ok_def split: if_splits)
  qed (use assms in \<open>auto simp: words_ok_def split: if_splits\<close>)
  show "ran (entry_at ws') = insert cd (ran (entry_at ws))"
    using assms(3,5) by simp
qed

lemma place_chunk_result:
  assumes ok: "words_ok bits ws" and c: "high_half (fst cd) \<noteq> EMPTY" and new: "fst cd \<notin> fst ` ran (entry_at ws)"
  obtains "place_chunk bits cd ws = Ok None"
  | ws' where "place_chunk bits cd ws = Ok (Some ws')" "words_ok bits ws'"
      "ran (entry_at ws') = insert cd (ran (entry_at ws))"
proof -
  let ?probes = "[chunk_slot (fst cd) bits..<chunk_slot (fst cd) bits + PROBES]"
  have found: "find_out (slot_free ws) ?probes = Ok (find (\<lambda>s. entry_at ws s = None) ?probes)"
    using probe_in_table [OF ok] by (intro find_out_pure slot_free_entry [OF ok]) auto
  show thesis
  proof (cases "find (\<lambda>s. entry_at ws s = None) ?probes")
    case None
    with found show ?thesis by (intro that(1)) (simp add: place_chunk_def Let_def)
  next
    case (Some slot)
    then have slot: "entry_at ws slot = None" "slot \<in> {chunk_slot (fst cd) bits..<chunk_slot (fst cd) bits + PROBES}"
      by (auto simp: find_Some_iff intro: nth_mem)
    note count = probe_in_table [OF ok slot(2)]
    let ?ws = "copy_words (HEADER_WORDS + slot * SLOT_WORDS)
        [low_half (fst cd), high_half (fst cd), low_half (snd cd), high_half (snd cd)] ws"
    have "place_chunk bits cd ws = Ok (Some ?ws)"
      using found Some slot_in_words [OF ok count]
      by (simp add: place_chunk_def copy_from_slice_def u32_index_def Let_def SLOT_WORDS_def del: copy_words.simps)
    moreover have "entry_at ?ws = (entry_at ws)(slot \<mapsto> cd)"
      using entry_at_write [OF slot_in_words(1) [OF ok count] c] by simp
    ultimately show ?thesis
      using words_ok_insert [OF ok new slot] by (intro that(2)) auto
  qed
qed

lemma place_from_result:
  assumes "words_ok bits ws" "\<And>cd. cd \<in> set cds \<Longrightarrow> high_half (fst cd) \<noteq> EMPTY" "distinct (map fst cds)"
    "fst ` set cds \<inter> fst ` ran (entry_at ws) = {}"
  shows "place_from bits cds ws = Ok None \<or> (\<exists>ws'. place_from bits cds ws = Ok (Some ws') \<and> words_ok bits ws' \<and>
    ran (entry_at ws') = ran (entry_at ws) \<union> set cds)"
  using assms
proof (induction cds arbitrary: ws)
  case (Cons cd cds)
  have "high_half (fst cd) \<noteq> EMPTY" "fst cd \<notin> fst ` ran (entry_at ws)" using Cons.prems by auto
  with Cons.prems(1) show ?case
  proof (rule place_chunk_result)
    fix ws'
    assume 2: "place_chunk bits cd ws = Ok (Some ws')" "words_ok bits ws'" "ran (entry_at ws') = insert cd (ran (entry_at ws))"
    have "place_from bits cds ws' = Ok None \<or> (\<exists>ws''. place_from bits cds ws' = Ok (Some ws'') \<and> words_ok bits ws'' \<and>
        ran (entry_at ws'') = ran (entry_at ws') \<union> set cds)"
    proof (rule Cons.IH)
      show "high_half (fst cd') \<noteq> EMPTY" if "cd' \<in> set cds" for cd' using Cons.prems(2) that by simp
    qed (use Cons.prems(3,4) 2(2,3) in auto)
    with 2 show ?thesis by auto
  qed simp
qed simp

lemma place_chunks_result:
  assumes "1 \<le> bits" "bits \<le> MOST_BITS" "\<And>cd. cd \<in> set cds \<Longrightarrow> high_half (fst cd) \<noteq> EMPTY" "distinct (map fst cds)"
  shows "place_chunks cds bits = Ok None \<or> (\<exists>ws. place_chunks cds bits = Ok (Some ws) \<and> words_ok bits ws \<and>
    ran (entry_at ws) = set cds)"
  using place_from_result [OF words_ok_empty [OF assms(1,2)] assms(3,4)]
  by (simp add: place_chunks_def ran_def)

subsection \<open>Finding\<close>

text \<open>A table is well formed when its words are and every chunk in it is one a guest address has.\<close>

definition table_ok :: "Table \<Rightarrow> bool" where
  "table_ok t \<longleftrightarrow> words_ok (tb_bits t) (tb_words t) \<and>
     (\<forall>c \<in> fst ` ran (entry_at (tb_words t)). drop_bit (tb_shift t) (push_bit (tb_shift t) c) = c)"

lemma probe_entry_at:
  assumes "words_ok (tb_bits t) (tb_words t)" "slot < slot_count (tb_bits t)"
  shows "probe_entry t guest chunk slot = Ok (case entry_at (tb_words t) slot of
      Some (c, d) \<Rightarrow> if c = chunk then Some (guest + d) else None | None \<Rightarrow> None)"
  using slot_in_words [OF assms]
  by (auto simp: probe_entry_def get_range_def u32_index_def entry_at_def Let_def table_consts)

lemma slot_matches_at:
  assumes "words_ok (tb_bits t) (tb_words t)" "slot < slot_count (tb_bits t)"
  shows "slot_matches t chunk slot = Ok (case entry_at (tb_words t) slot of Some (c, d) \<Rightarrow> c = chunk | None \<Rightarrow> False)"
  using slot_in_words [OF assms]
  by (auto simp: slot_matches_def get_range_def u32_index_def entry_at_def Let_def table_consts)

lemma slot_of_result:
  assumes ok: "words_ok (tb_bits t) (tb_words t)"
  shows "entry_at (tb_words t) slot = Some (drop_bit (tb_shift t) guest, d) \<Longrightarrow> slot_of t guest = Ok (Some slot)"
    "(\<And>d. (drop_bit (tb_shift t) guest, d) \<notin> ran (entry_at (tb_words t))) \<Longrightarrow> slot_of t guest = Ok None"
proof -
  let ?chunk = "drop_bit (tb_shift t) guest"
  let ?home = "chunk_slot ?chunk (tb_bits t)"
  let ?q = "\<lambda>s. case entry_at (tb_words t) s of Some (c, d) \<Rightarrow> c = ?chunk | None \<Rightarrow> False"
  have pure: "slot_of t guest = Ok (find ?q [?home..<?home + PROBES])"
    unfolding slot_of_def Let_def
    using probe_in_table [OF ok] by (intro find_out_pure slot_matches_at [OF ok]) auto
  have q: "?q s \<longleftrightarrow> (\<exists>d. entry_at (tb_words t) s = Some (?chunk, d))" for s
    by (auto split: option.split)
  show "slot_of t guest = Ok (Some slot)" if at: "entry_at (tb_words t) slot = Some (?chunk, d)"
  proof -
    have "slot \<in> {?home..<?home + PROBES}" using ok at unfolding words_ok_def by blast
    moreover have "s = s'" if "?q s" "?q s'" for s s'
      using that ok unfolding q words_ok_def by blast
    ultimately have "find ?q [?home..<?home + PROBES] = Some slot"
      using at by (intro find_unique) (auto simp: q)
    with pure show ?thesis by simp
  qed
  show "slot_of t guest = Ok None" if "\<And>d. (?chunk, d) \<notin> ran (entry_at (tb_words t))"
    unfolding pure using that by (auto simp: find_None_iff q ran_def)
qed

lemma lookup_result:
  assumes ok: "words_ok (tb_bits t) (tb_words t)"
  shows "(drop_bit (tb_shift t) guest, d) \<in> ran (entry_at (tb_words t)) \<Longrightarrow> table_lookup t guest = Ok (Some (guest + d))"
    "(\<And>d. (drop_bit (tb_shift t) guest, d) \<notin> ran (entry_at (tb_words t))) \<Longrightarrow> table_lookup t guest = Ok None"
proof -
  let ?chunk = "drop_bit (tb_shift t) guest"
  let ?home = "chunk_slot ?chunk (tb_bits t)"
  let ?q = "\<lambda>p. case entry_at (tb_words t) (?home + p) of
      Some (c, d) \<Rightarrow> if c = ?chunk then Some (guest + d) else None | None \<Rightarrow> None"
  have pure: "table_lookup t guest = Ok (Option.bind (find (\<lambda>p. ?q p \<noteq> None) [0..<PROBES]) ?q)"
    unfolding table_lookup_def Let_def
    by (intro find_map_out_pure probe_entry_at [OF ok] probe_in_table [OF ok, of _ ?chunk]) auto
  have q: "?q p \<noteq> None \<longleftrightarrow> (\<exists>d. entry_at (tb_words t) (?home + p) = Some (?chunk, d))" for p
    by (auto split: option.split)
  show "table_lookup t guest = Ok (Some (guest + d))" if "(?chunk, d) \<in> ran (entry_at (tb_words t))"
  proof -
    from that obtain slot where at: "entry_at (tb_words t) slot = Some (?chunk, d)" by (auto simp: ran_def)
    then have "slot \<in> {?home..<?home + PROBES}" using ok unfolding words_ok_def by blast
    then obtain p where p: "slot = ?home + p" "p \<in> set [0..<PROBES]"
      by (metis add_less_cancel_left atLeastLessThan_iff atLeastLessThan_upt le_Suc_ex le0)
    moreover have "p = p'" if "?q p \<noteq> None" "?q p' \<noteq> None" for p p'
    proof -
      from that obtain d d' where "entry_at (tb_words t) (?home + p) = Some (?chunk, d)"
        "entry_at (tb_words t) (?home + p') = Some (?chunk, d')" unfolding q by blast
      with ok have "?home + p = ?home + p'" unfolding words_ok_def by blast
      then show ?thesis by simp
    qed
    ultimately have "find (\<lambda>p. ?q p \<noteq> None) [0..<PROBES] = Some p"
      using at by (intro find_unique) auto
    with pure at p show ?thesis by simp
  qed
  show "table_lookup t guest = Ok None" if none: "\<And>d. (?chunk, d) \<notin> ran (entry_at (tb_words t))"
  proof -
    have "\<not> ?q p \<noteq> None" for p unfolding q using none by (auto simp: ran_def)
    then have "find (\<lambda>p. ?q p \<noteq> None) [0..<PROBES] = None" by (simp only: find_None_iff) simp
    with pure show ?thesis by simp
  qed
qed

lemma redirect_result:
  assumes ok: "table_ok t"
  shows "(drop_bit (tb_shift t) guest, d) \<in> ran (entry_at (tb_words t)) \<Longrightarrow>
      \<exists>t' slot. table_redirect t guest device = Ok (t', True) \<and> table_ok t' \<and> tb_shift t' = tb_shift t \<and> tb_bits t' = tb_bits t \<and>
        entry_at (tb_words t) slot = Some (drop_bit (tb_shift t) guest, d) \<and>
        entry_at (tb_words t') = (entry_at (tb_words t))(slot \<mapsto>
          (drop_bit (tb_shift t) guest, device - push_bit (tb_shift t) (drop_bit (tb_shift t) guest)))"
    "(\<And>d. (drop_bit (tb_shift t) guest, d) \<notin> ran (entry_at (tb_words t))) \<Longrightarrow> table_redirect t guest device = Ok (t, False)"
proof -
  let ?chunk = "drop_bit (tb_shift t) guest"
  let ?delta = "device - push_bit (tb_shift t) ?chunk"
  have ws: "words_ok (tb_bits t) (tb_words t)" using ok by (simp add: table_ok_def)
  show "table_redirect t guest device = Ok (t, False)" if "\<And>d. (?chunk, d) \<notin> ran (entry_at (tb_words t))"
    using slot_of_result(2) [OF ws that] by (simp add: table_redirect_def)
  assume "(?chunk, d) \<in> ran (entry_at (tb_words t))"
  then obtain slot where at: "entry_at (tb_words t) slot = Some (?chunk, d)" by (auto simp: ran_def)
  note count = entry_at_count [OF ws at]
  let ?ws = "copy_words (HEADER_WORDS + slot * SLOT_WORDS + 2) [low_half ?delta, high_half ?delta] (tb_words t)"
  have run: "table_redirect t guest device = Ok (t\<lparr>tb_words := ?ws\<rparr>, True)"
    using slot_of_result(1) [OF ws at] slot_in_words [OF ws count]
    by (simp add: table_redirect_def copy_from_slice_def u32_index_def Let_def SLOT_WORDS_def del: copy_words.simps)
  have new: "entry_at ?ws = (entry_at (tb_words t))(slot \<mapsto> (?chunk, ?delta))"
    using at by (rule entry_at_move)
  have "words_ok (tb_bits t) ?ws"
    unfolding words_ok_def
  proof (intro conjI allI impI)
    fix s s' c d1 d2
    assume "entry_at ?ws s = Some (c, d1)" "entry_at ?ws s' = Some (c, d2)"
    with at new have "\<exists>d1. entry_at (tb_words t) s = Some (c, d1)" "\<exists>d2. entry_at (tb_words t) s' = Some (c, d2)"
      by (auto split: if_splits)
    with ws show "s = s'" unfolding words_ok_def by blast
  next
    fix s c d1
    assume "entry_at ?ws s = Some (c, d1)"
    with at new have "\<exists>d1. entry_at (tb_words t) s = Some (c, d1)" by (auto split: if_splits)
    with ws show "s \<in> {chunk_slot c (tb_bits t)..<chunk_slot c (tb_bits t) + PROBES}"
      unfolding words_ok_def by blast
  qed (use ws in \<open>simp_all add: words_ok_def del: copy_words.simps\<close>)
  moreover have "fst ` ran (entry_at ?ws) = fst ` ran (entry_at (tb_words t))"
  proof -
    have "fst ` ran (entry_at (tb_words t)) = fst ` ran ((entry_at (tb_words t))(slot \<mapsto> (?chunk, d)))"
      using at by (simp add: fun_upd_idem)
    also have "\<dots> = fst ` ran (entry_at ?ws)"
      unfolding new by (force simp: ran_def split: if_splits)
    finally show ?thesis ..
  qed
  ultimately have "table_ok (t\<lparr>tb_words := ?ws\<rparr>)"
    using ok by (simp add: table_ok_def del: copy_words.simps)
  with run new at show "\<exists>t' slot. table_redirect t guest device = Ok (t', True) \<and> table_ok t' \<and> tb_shift t' = tb_shift t \<and>
      tb_bits t' = tb_bits t \<and> entry_at (tb_words t) slot = Some (?chunk, d) \<and>
      entry_at (tb_words t') = (entry_at (tb_words t))(slot \<mapsto> (?chunk, ?delta))"
    by (intro exI [of _ "t\<lparr>tb_words := ?ws\<rparr>"] exI [of _ slot]) (simp del: copy_words.simps)
qed

section \<open>Mappings and their chunks\<close>

definition in_mapping :: "Mapped \<Rightarrow> word64 \<Rightarrow> bool" where
  "in_mapping m guest \<longleftrightarrow> unat (mp_guest m) \<le> unat guest \<and> unat guest < unat (mp_guest m) + unat (mp_len m)"

text \<open>Where a guest address lies on the device: at its offset in the mapping that holds it.\<close>

definition device_of :: "Mapped list \<Rightarrow> word64 \<Rightarrow> word64 option" where
  "device_of ms guest = map_option (\<lambda>m. mp_device m + (guest - mp_guest m)) (find (\<lambda>m. in_mapping m guest) ms)"

definition aligned_to :: "nat \<Rightarrow> Mapped \<Rightarrow> bool" where
  "aligned_to shift m \<longleftrightarrow> 2 ^ shift dvd unat (mp_guest m) \<and> 2 ^ shift dvd unat (mp_len m)"

lemma trailing_zeros64_bit: "i < trailing_zeros64 w \<Longrightarrow> \<not> bit w i"
proof -
  let ?ts = "takeWhile (\<lambda>i. \<not> bit w i) [0..<64]"
  assume "i < trailing_zeros64 w"
  then have i: "i < length ?ts" by (simp add: trailing_zeros64_def)
  then have "?ts ! i \<in> set ?ts" "?ts ! i = [0..<64] ! i" by (rule nth_mem, rule takeWhile_nth)
  moreover have "i < 64" using i length_takeWhile_le [of "\<lambda>i. \<not> bit w i" "[0..<64]"] by simp
  ultimately show ?thesis by (metis add_0 diff_zero nth_upt set_takeWhileD)
qed

lemma low_zeros_dvd: "(\<And>i. i < n \<Longrightarrow> \<not> bit w i) \<Longrightarrow> 2 ^ n dvd unat (w :: word64)"
  unfolding take_bit_eq_0_iff [symmetric]
  by (rule bit_eqI) (auto simp: bit_simps)

lemma trailing_zeros64_aligned:
  "shift \<le> trailing_zeros64 (mp_guest m OR mp_len m) \<Longrightarrow> aligned_to shift m"
  unfolding aligned_to_def
  using trailing_zeros64_bit [of _ "mp_guest m OR mp_len m"]
  by (intro conjI low_zeros_dvd) (auto simp: bit_or_iff)

lemma coarsest_Ok:
  "coarsest s ms = Ok shift \<Longrightarrow> shift \<le> s \<and> (LEAST_CHUNK_SHIFT \<le> s \<longrightarrow> LEAST_CHUNK_SHIFT \<le> shift) \<and>
     (\<forall>m \<in> set ms. mp_len m \<noteq> 0 \<and> aligned_to shift m)"
proof (induction s ms rule: coarsest.induct)
  case (2 s m ms)
  let ?a = "trailing_zeros64 (mp_guest m OR mp_len m)"
  have ok: "mp_len m \<noteq> 0" "LEAST_CHUNK_SHIFT \<le> ?a" "coarsest (min s ?a) ms = Ok shift"
    using 2(2) by (auto simp: Let_def split: if_splits)
  have "shift \<le> min s ?a \<and> (LEAST_CHUNK_SHIFT \<le> min s ?a \<longrightarrow> LEAST_CHUNK_SHIFT \<le> shift) \<and>
      (\<forall>m \<in> set ms. mp_len m \<noteq> 0 \<and> aligned_to shift m)"
    using 2(1) [OF refl _ ok(3)] ok(1,2) by auto
  with ok(1,2) trailing_zeros64_aligned [of shift m] show ?case by auto
qed simp

lemma aligned_below_top: "aligned_to shift m \<Longrightarrow> LEAST_CHUNK_SHIFT \<le> shift \<Longrightarrow> unat (mp_guest m) < 2 ^ 64 - 1"
proof -
  assume "aligned_to shift m" "LEAST_CHUNK_SHIFT \<le> shift"
  then have "2 ^ 1 dvd unat (mp_guest m)"
    by (metis aligned_to_def LEAST_CHUNK_SHIFT_def dvd_trans le_imp_power_dvd le_trans one_le_numeral)
  moreover have "unat (mp_guest m) < 2 ^ 64" using unsigned_less [of "mp_guest m"] by simp
  ultimately show ?thesis by (cases "unat (mp_guest m) = 2 ^ 64 - 1") auto
qed

definition ends_before :: "Mapped \<Rightarrow> Mapped \<Rightarrow> bool" where
  "ends_before a b \<longleftrightarrow> unat (mp_guest a) + unat (mp_len a) \<le> unat (mp_guest b)"

lemma saturating_le:
  assumes "unat g < 2 ^ 64 - 1"
  shows "g < saturating_add64 a b \<longleftrightarrow> unat g < unat a + unat b"
proof -
  have "unat (- 1 :: word64) = 2 ^ 64 - 1" by (simp add: unsigned_minus_1_eq_mask mask_eq_exp_minus_1)
  with assms show ?thesis
    by (auto simp: saturating_add64_def word_less_nat_alt unat_word_ariths)
qed

lemma check_overlap_Ok:
  assumes "\<And>m. m \<in> set ms \<Longrightarrow> unat (mp_guest m) < 2 ^ 64 - 1"
  shows "check_overlap ms = Ok () \<longleftrightarrow> sorted_wrt ends_before ms"
  using assms
proof (induction ms rule: check_overlap.induct)
  case (1 a b ms)
  have b: "unat (mp_guest b) < 2 ^ 64 - 1" using 1(2) [of b] by simp
  have over: "mp_guest b < saturating_add64 (mp_guest a) (mp_len a) \<longleftrightarrow> \<not> ends_before a b"
    by (simp add: saturating_le [OF b] ends_before_def not_le)
  have step: "check_overlap (a # b # ms) = Ok () \<longleftrightarrow> ends_before a b \<and> sorted_wrt ends_before (b # ms)"
    using 1(1) 1(2) over by simp
  have "ends_before a x" if "ends_before a b" "ends_before b x" for x
    using that by (simp add: ends_before_def)
  with step show ?case by auto
qed simp_all

text \<open>A mapping's chunks, where its end is a guest address.\<close>

definition chunk_list :: "nat \<Rightarrow> Mapped \<Rightarrow> (word64 \<times> word64) list" where
  "chunk_list shift m = map (\<lambda>c. (word_of_nat c, mp_device m - mp_guest m))
     [unat (mp_guest m) div 2 ^ shift..<(unat (mp_guest m) + unat (mp_len m)) div 2 ^ shift]"

definition ends_in_space :: "Mapped \<Rightarrow> bool" where
  "ends_in_space m \<longleftrightarrow> unat (mp_guest m) + unat (mp_len m) < 2 ^ 64"

lemma mapping_chunks_eq:
  "mapping_chunks shift m = (if ends_in_space m then Ok (chunk_list shift m) else Panic)"
  by (simp add: mapping_chunks_def plain_add64_def chunk_list_def ends_in_space_def Let_def unat_drop unat_word_ariths)

lemma out_map_chunks:
  "out_map (mapping_chunks shift) ms =
     (if list_all ends_in_space ms then Ok (map (chunk_list shift) ms) else Panic)"
  by (induction ms) (auto simp: mapping_chunks_eq)

lemma div_between:
  assumes "k dvd a" "k dvd b" "0 < (k :: nat)"
  shows "a div k \<le> g div k \<and> g div k < b div k \<longleftrightarrow> a \<le> g \<and> g < b"
  using assms by (auto elim!: dvdE simp: div_less_iff_less_mult less_eq_div_iff_mult_less_eq mult.commute)

lemma chunk_list_mem:
  assumes "aligned_to shift m" "ends_in_space m"
  shows "(drop_bit shift g, d) \<in> set (chunk_list shift m) \<longleftrightarrow> in_mapping m g \<and> d = mp_device m - mp_guest m"
proof -
  let ?a = "unat (mp_guest m)" and ?b = "unat (mp_guest m) + unat (mp_len m)" and ?k = "2 ^ shift :: nat"
  have "drop_bit shift g = word_of_nat c \<longleftrightarrow> c = unat g div ?k" if "c < ?b div ?k" for c
  proof -
    have "c < 2 ^ 64" using that assms(2) div_le_dividend [of ?b ?k] unfolding ends_in_space_def by linarith
    then have "unat (word_of_nat c :: word64) = c" by (simp add: unat_of_nat)
    then show ?thesis by (auto simp: word_unat_eq_iff unat_drop)
  qed
  then have "(drop_bit shift g, d) \<in> set (chunk_list shift m) \<longleftrightarrow>
      (?a div ?k \<le> unat g div ?k \<and> unat g div ?k < ?b div ?k) \<and> d = mp_device m - mp_guest m"
    unfolding chunk_list_def set_map set_upt image_iff Bex_def atLeastLessThan_iff by blast
  also have "?a div ?k \<le> unat g div ?k \<and> unat g div ?k < ?b div ?k \<longleftrightarrow> in_mapping m g"
    using assms(1) by (subst div_between) (auto simp: aligned_to_def in_mapping_def)
  finally show ?thesis .
qed

lemma chunk_list_range:
  assumes "e \<in> set (chunk_list shift m)" "ends_in_space m"
  shows "unat (fst e) \<in> {unat (mp_guest m) div 2 ^ shift..<(unat (mp_guest m) + unat (mp_len m)) div 2 ^ shift}"
proof -
  obtain c where c: "c \<in> {unat (mp_guest m) div 2 ^ shift..<(unat (mp_guest m) + unat (mp_len m)) div 2 ^ shift}"
    "fst e = word_of_nat c" using assms(1) by (auto simp: chunk_list_def)
  have "c < 2 ^ 64"
    using c(1) assms(2) div_le_dividend [of "unat (mp_guest m) + unat (mp_len m)" "2 ^ shift"]
    unfolding ends_in_space_def atLeastLessThan_iff by linarith
  with c show ?thesis by (simp add: unat_of_nat)
qed

lemma chunk_list_base:
  assumes "e \<in> set (chunk_list shift m)" "ends_in_space m"
  shows "drop_bit shift (push_bit shift (fst e)) = fst e"
proof -
  let ?b = "unat (mp_guest m) + unat (mp_len m)"
  have "unat (fst e) * 2 ^ shift < 2 ^ 64"
  proof -
    have "unat (fst e) \<le> ?b div 2 ^ shift" using chunk_list_range [OF assms] by simp
    then have "unat (fst e) * 2 ^ shift \<le> ?b div 2 ^ shift * 2 ^ shift" by (rule mult_le_mono1)
    also have "\<dots> \<le> ?b" by (rule div_times_less_eq_dividend)
    finally show ?thesis using assms(2) unfolding ends_in_space_def by linarith
  qed
  then have "unat (push_bit shift (fst e)) = unat (fst e) * 2 ^ shift"
    by (simp only: unsigned_push_bit_eq) (simp add: push_bit_eq_mult take_bit_nat_eq_self)
  then show ?thesis
    by (simp only: word_unat_eq_iff unat_drop) simp
qed

lemma chunks_increasing:
  assumes "sorted_wrt ends_before ms" "list_all ends_in_space ms"
  shows "sorted_wrt (<) (map (unat \<circ> fst) (concat (map (chunk_list shift) ms)))"
  using assms
proof (induction ms)
  case (Cons m ms)
  have "map (unat \<circ> fst) (chunk_list shift m) =
      [unat (mp_guest m) div 2 ^ shift..<(unat (mp_guest m) + unat (mp_len m)) div 2 ^ shift]"
  proof -
    have "c < 2 ^ 64" if "c < (unat (mp_guest m) + unat (mp_len m)) div 2 ^ shift" for c
      using that Cons.prems(2) div_le_dividend [of "unat (mp_guest m) + unat (mp_len m)" "2 ^ shift"]
      unfolding list.pred_inject ends_in_space_def by linarith
    then show ?thesis
      by (auto simp: chunk_list_def unat_of_nat intro!: map_idI)
  qed
  then have first: "sorted_wrt (<) (map (unat \<circ> fst) (chunk_list shift m))" by simp
  have "unat (fst e) < unat (fst e')" if e: "e \<in> set (chunk_list shift m)" "e' \<in> set (chunk_list shift m')" "m' \<in> set ms"
    for e e' m'
  proof -
    have "(unat (mp_guest m) + unat (mp_len m)) div 2 ^ shift \<le> unat (mp_guest m') div 2 ^ shift"
      using Cons.prems(1) e(3) by (auto simp: ends_before_def intro: div_le_mono)
    moreover have "ends_in_space m'" using Cons.prems(2) e(3) by (auto simp: list_all_iff)
    ultimately show ?thesis
      using chunk_list_range [OF e(1)] chunk_list_range [OF e(2)] Cons.prems(2) by simp
  qed
  with first Cons show ?case by (auto simp: sorted_wrt_append comp_def)
qed simp

text \<open>The chunks of an accepted list of mappings: each once, none of them an unused slot's.\<close>

definition good_chunks :: "(word64 \<times> word64) list \<Rightarrow> bool" where
  "good_chunks cds \<longleftrightarrow> distinct (map fst cds) \<and> (\<forall>cd \<in> set cds. high_half (fst cd) \<noteq> EMPTY)"

lemma good_chunks_concat:
  assumes "sorted_wrt ends_before ms" "list_all ends_in_space ms" "LEAST_CHUNK_SHIFT \<le> shift"
  shows "good_chunks (concat (map (chunk_list shift) ms))"
proof -
  let ?cds = "concat (map (chunk_list shift) ms)"
  have "distinct (map (unat \<circ> fst) ?cds)"
    using chunks_increasing [OF assms(1,2)] by (simp only: strict_sorted_iff)
  then have "distinct (map unat (map fst ?cds))" by simp
  then have "distinct (map fst ?cds)" by (rule distinct_map [THEN iffD1, THEN conjunct1])
  moreover have "high_half (fst cd) \<noteq> EMPTY" if cd: "cd \<in> set ?cds" for cd
  proof (rule high_half_not_empty)
    from cd obtain m where m: "m \<in> set ms" "cd \<in> set (chunk_list shift m)" by auto
    let ?b = "unat (mp_guest m) + unat (mp_len m)"
    have space: "ends_in_space m" using assms(2) m(1) by (auto simp: list_all_iff)
    have "unat (fst cd) < ?b div 2 ^ shift" using chunk_list_range [OF m(2) space] by simp
    also have "\<dots> \<le> ?b div 2 ^ LEAST_CHUNK_SHIFT"
      using assms(3) by (intro div_le_mono2 power_increasing) auto
    also have "\<dots> < 2 ^ 52" using space by (simp add: ends_in_space_def LEAST_CHUNK_SHIFT_def less_mult_imp_div_less)
    finally show "unat (fst cd) < 2 ^ 52" by simp
  qed
  ultimately show ?thesis by (simp add: good_chunks_def)
qed

section \<open>A table as it is built\<close>

lemma grow_Ok:
  assumes "grow shift cds bits = Ok t" "tb_bits t \<le> MOST_BITS" "1 \<le> bits" "good_chunks cds"
  shows "words_ok (tb_bits t) (tb_words t) \<and> tb_shift t = shift \<and> ran (entry_at (tb_words t)) = set cds"
  using assms
proof (induction shift cds bits rule: grow.induct)
  case (1 shift cds bits)
  consider (placed) ws where "place_chunks cds bits = Ok (Some ws)" "t = \<lparr>tb_words = ws, tb_bits = bits, tb_shift = shift\<rparr>"
    | (larger) "place_chunks cds bits = Ok None" "bits + 1 \<le> MOST_BITS" "grow shift cds (bits + 1) = Ok t"
    using 1(2) unfolding grow.simps [of shift cds bits]
    by (auto split: outcome.splits option.splits if_splits)
  then show ?case
  proof cases
    case placed
    with 1(3,4,5) place_chunks_result [of bits cds] show ?thesis by (auto simp: good_chunks_def)
  next
    case larger
    with 1(1) [OF _ _ _ larger(3) 1(3)] 1(5) show ?thesis by simp
  qed
qed

lemma build_Ok:
  assumes "table_build ms = Ok t" "tb_bits t \<le> MOST_BITS"
  shows "table_ok t" "\<And>m. m \<in> set ms \<Longrightarrow> aligned_to (tb_shift t) m \<and> ends_in_space m"
    "sorted_wrt ends_before (sort_key mp_guest ms)"
    "ran (entry_at (tb_words t)) = (\<Union>m \<in> set ms. set (chunk_list (tb_shift t) m))"
proof -
  let ?ms = "sort_key mp_guest ms"
  obtain shift css where run: "coarsest MOST_CHUNK_SHIFT ?ms = Ok shift" "check_overlap ?ms = Ok ()"
    "out_map (mapping_chunks shift) ?ms = Ok css" "grow shift (concat css) (first_bits (length (concat css))) = Ok t"
    using assms(1) by (auto simp: table_build_def Let_def out_bind_Ok)
  have shift: "LEAST_CHUNK_SHIFT \<le> shift" "shift \<le> MOST_CHUNK_SHIFT" and al: "\<And>m. m \<in> set ?ms \<Longrightarrow> aligned_to shift m"
    using coarsest_Ok [OF run(1)] by (auto simp: LEAST_CHUNK_SHIFT_def MOST_CHUNK_SHIFT_def)
  show ord: "sorted_wrt ends_before ?ms"
    using run(2) by (subst check_overlap_Ok [symmetric]) (use aligned_below_top [OF al shift(1)] in auto)
  have space: "list_all ends_in_space ?ms" and css: "css = map (chunk_list shift) ?ms"
    using run(3) by (auto simp: out_map_chunks split: if_splits)
  have t: "words_ok (tb_bits t) (tb_words t)" "tb_shift t = shift" "ran (entry_at (tb_words t)) = set (concat css)"
    using grow_Ok [OF run(4) assms(2) _ good_chunks_concat [OF ord space shift(1), folded css]]
    by (auto simp: first_bits_def)
  show "table_ok t"
    using t space css chunk_list_base unfolding table_ok_def by (fastforce simp: list_all_iff)
  show "m \<in> set ms \<Longrightarrow> aligned_to (tb_shift t) m \<and> ends_in_space m" for m
    using al space t(2) by (auto simp: list_all_iff)
  show "ran (entry_at (tb_words t)) = (\<Union>m \<in> set ms. set (chunk_list (tb_shift t) m))"
    using t css by simp
qed

lemma disjoint_mappings:
  assumes "sorted_wrt ends_before (sort_key mp_guest ms)" "m \<in> set ms" "m' \<in> set ms" "in_mapping m g" "in_mapping m' g"
  shows "m = m'"
proof -
  let ?ms = "sort_key mp_guest ms"
  obtain i j where ij: "i < length ?ms" "j < length ?ms" "m = ?ms ! i" "m' = ?ms ! j"
    using assms(2,3) by (metis in_set_conv_nth set_sort)
  have "\<not> i < j" "\<not> j < i"
    using sorted_wrt_nth_less [OF assms(1)] ij assms(4,5) by (fastforce simp: ends_before_def in_mapping_def)+
  then show ?thesis using ij by simp
qed

lemma device_of_mapping:
  assumes "sorted_wrt ends_before (sort_key mp_guest ms)" "m \<in> set ms" "in_mapping m g"
  shows "device_of ms g = Some (mp_device m + (g - mp_guest m))"
  using find_unique [of ms "\<lambda>m. in_mapping m g" m] disjoint_mappings [OF assms(1)] assms(2,3)
  by (auto simp: device_of_def)

lemma held_iff:
  assumes "table_build ms = Ok t" "tb_bits t \<le> MOST_BITS"
  shows "(drop_bit (tb_shift t) g, d) \<in> ran (entry_at (tb_words t)) \<longleftrightarrow>
    (\<exists>m \<in> set ms. in_mapping m g \<and> d = mp_device m - mp_guest m)"
  using build_Ok [OF assms] chunk_list_mem by auto

lemma lookup_built:
  assumes "table_build ms = Ok t" "tb_bits t \<le> MOST_BITS"
  shows "table_lookup t g = Ok (device_of ms g)"
proof -
  have ok: "words_ok (tb_bits t) (tb_words t)" using build_Ok(1) [OF assms] by (simp add: table_ok_def)
  show ?thesis
  proof (cases "\<exists>m \<in> set ms. in_mapping m g")
    case True
    then obtain m where m: "m \<in> set ms" "in_mapping m g" by blast
    have "table_lookup t g = Ok (Some (g + (mp_device m - mp_guest m)))"
      using m by (intro lookup_result(1) [OF ok]) (auto simp: held_iff [OF assms])
    with device_of_mapping [OF build_Ok(3) [OF assms] m] show ?thesis by (simp add: algebra_simps)
  next
    case False
    then have "find (\<lambda>m. in_mapping m g) ms = None" by (simp add: find_None_iff)
    with False lookup_result(2) [OF ok] held_iff [OF assms] show ?thesis by (auto simp: device_of_def)
  qed
qed

section \<open>Chunks pointed at copies\<close>

text \<open>Redirections made one after another, as the copies of chunks are entered in a table.\<close>

fun redirect_all :: "Table \<Rightarrow> (word64 \<times> word64) list \<Rightarrow> (TableError, Table) outcome" where
  "redirect_all t [] = Ok t"
| "redirect_all t (r # rs) = out_bind (table_redirect t (fst r) (snd r)) (\<lambda>(t', _). redirect_all t' rs)"

text \<open>
  Where a guest address is reached after the redirections: nowhere without a mapping, at its offset in the
  copy its chunk was last pointed at, else at its offset in its mapping.
\<close>

definition same_chunk :: "nat \<Rightarrow> word64 \<Rightarrow> word64 \<Rightarrow> bool" where
  "same_chunk shift a b \<longleftrightarrow> drop_bit shift a = drop_bit shift b"

definition chunk_base :: "nat \<Rightarrow> word64 \<Rightarrow> word64" where
  "chunk_base shift g = push_bit shift (drop_bit shift g)"

definition reached :: "nat \<Rightarrow> (word64 \<times> word64) list \<Rightarrow> word64 \<Rightarrow> word64 option \<Rightarrow> word64 option" where
  "reached shift rs g home =
     (case home of
        None \<Rightarrow> None
      | Some a \<Rightarrow> (case find (\<lambda>r. same_chunk shift (fst r) g) (rev rs) of
                    None \<Rightarrow> Some a
                  | Some r \<Rightarrow> Some (snd r + (g - chunk_base shift g))))"

lemma lookup_total: "table_ok t \<Longrightarrow> \<exists>a. table_lookup t g = Ok a"
  using lookup_result [of t g] by (cases "\<exists>d. (drop_bit (tb_shift t) g, d) \<in> ran (entry_at (tb_words t))") (auto simp: table_ok_def)

lemma lookup_None_iff:
  "table_ok t \<Longrightarrow> table_lookup t g = Ok None \<longleftrightarrow> (\<forall>d. (drop_bit (tb_shift t) g, d) \<notin> ran (entry_at (tb_words t)))"
  using lookup_result [of t g] by (auto simp: table_ok_def)

lemma redirect_lookup:
  assumes "table_ok t"
  shows "\<exists>t' held. table_redirect t r d = Ok (t', held) \<and> table_ok t' \<and> tb_shift t' = tb_shift t \<and> tb_bits t' = tb_bits t \<and>
    (held \<longleftrightarrow> table_lookup t r \<noteq> Ok None) \<and>
    (\<forall>g. table_lookup t' g = (if same_chunk (tb_shift t) r g \<and> held
       then Ok (Some (d + (g - chunk_base (tb_shift t) g))) else table_lookup t g))"
proof (cases "\<exists>d0. (drop_bit (tb_shift t) r, d0) \<in> ran (entry_at (tb_words t))")
  case False
  with redirect_result(2) [OF assms] lookup_None_iff [OF assms, of r] assms show ?thesis by auto
next
  case True
  let ?c = "drop_bit (tb_shift t) r"
  from True redirect_result(1) [OF assms] obtain d0 t' slot where t':
    "table_redirect t r d = Ok (t', True)" "table_ok t'" "tb_shift t' = tb_shift t" "tb_bits t' = tb_bits t"
    "entry_at (tb_words t) slot = Some (?c, d0)"
    "entry_at (tb_words t') = (entry_at (tb_words t))(slot \<mapsto> (?c, d - push_bit (tb_shift t) ?c))"
    by blast
  have ws: "words_ok (tb_bits t) (tb_words t)" "words_ok (tb_bits t') (tb_words t')"
    using assms t'(2) by (simp_all add: table_ok_def)
  have "table_lookup t' g = (if same_chunk (tb_shift t) r g
      then Ok (Some (d + (g - chunk_base (tb_shift t) g))) else table_lookup t g)" for g
  proof (cases "same_chunk (tb_shift t) r g")
    case same: True
    then have "(drop_bit (tb_shift t') g, d - chunk_base (tb_shift t) g) \<in> ran (entry_at (tb_words t'))"
      using t'(3,6) by (auto simp: same_chunk_def chunk_base_def ran_def)
    with lookup_result(1) [OF ws(2)] same show ?thesis by (simp add: algebra_simps)
  next
    case False
    have "(drop_bit (tb_shift t') g, e) \<in> ran (entry_at (tb_words t')) \<longleftrightarrow>
        (drop_bit (tb_shift t) g, e) \<in> ran (entry_at (tb_words t))" for e
    proof -
      have "entry_at (tb_words t) a = Some (drop_bit (tb_shift t) g, e) \<Longrightarrow> a \<noteq> slot" for a
        using False t'(5) by (auto simp: same_chunk_def)
      then show ?thesis using False t'(3,6) by (auto simp: same_chunk_def ran_def)
    qed
    with lookup_result [OF ws(1), of g] lookup_result [OF ws(2), of g] False show ?thesis
      by (cases "\<exists>e. (drop_bit (tb_shift t) g, e) \<in> ran (entry_at (tb_words t))") auto
  qed
  with t' True lookup_None_iff [OF assms, of r] show ?thesis by auto
qed

lemma find_snoc: "find p (xs @ [x]) = (case find p xs of None \<Rightarrow> if p x then Some x else None | Some y \<Rightarrow> Some y)"
  by (induction xs) auto

lemma redirect_all_lookup:
  assumes "table_ok t" "table_lookup t g = Ok home"
  shows "\<exists>t'. redirect_all t rs = Ok t' \<and> table_ok t' \<and> tb_shift t' = tb_shift t \<and> tb_bits t' = tb_bits t \<and>
    table_lookup t' g = Ok (reached (tb_shift t) rs g home)"
  using assms
proof (induction rs arbitrary: t home)
  case Nil
  then show ?case by (simp add: reached_def split: option.split)
next
  case (Cons r rs)
  obtain t1 held where t1: "table_redirect t (fst r) (snd r) = Ok (t1, held)" "table_ok t1" "tb_shift t1 = tb_shift t"
    "tb_bits t1 = tb_bits t" "held \<longleftrightarrow> table_lookup t (fst r) \<noteq> Ok None"
    "\<And>g. table_lookup t1 g = (if same_chunk (tb_shift t) (fst r) g \<and> held
       then Ok (Some (snd r + (g - chunk_base (tb_shift t) g))) else table_lookup t g)"
    using redirect_lookup [OF Cons.prems(1), of "fst r" "snd r"] by blast
  have same: "held \<longleftrightarrow> home \<noteq> None" if "same_chunk (tb_shift t) (fst r) g"
  proof -
    have "table_lookup t (fst r) = Ok None \<longleftrightarrow> table_lookup t g = Ok None"
      using that unfolding lookup_None_iff [OF Cons.prems(1)] same_chunk_def by simp
    then show ?thesis using t1(5) Cons.prems(2) by auto
  qed
  define home' where "home' = (if same_chunk (tb_shift t) (fst r) g \<and> held
       then Some (snd r + (g - chunk_base (tb_shift t) g)) else home)"
  have "table_lookup t1 g = Ok home'"
    using t1(6) Cons.prems(2) by (simp add: home'_def)
  from Cons.IH [OF t1(2) this] obtain t' where t': "redirect_all t1 rs = Ok t'" "table_ok t'" "tb_shift t' = tb_shift t"
    "tb_bits t' = tb_bits t" "table_lookup t' g = Ok (reached (tb_shift t) rs g home')"
    using t1(3,4) by auto
  have "reached (tb_shift t) rs g home' = reached (tb_shift t) (r # rs) g home"
    using same by (auto simp: reached_def home'_def find_snoc split: option.split)
  with t' t1(1) show ?case by auto
qed

text \<open>C35. A device-addressed dispatch reaches every guest address where it lies and no other. Once a table
  is built for the guest's mappings, and whatever chunks have since been pointed at copies, looking up any
  guest address answers nothing where no mapping holds it. Where a mapping does, it answers the address's
  place in the copy its chunk was last pointed at, and without one its place in the mapping on the device;
  no redirection disturbs another chunk, and no lookup runs out of the table's words.
\<close>

theorem lookup_reaches_guest:
  assumes "table_build ms = Ok t" "tb_bits t \<le> MOST_BITS"
  shows "\<exists>t'. redirect_all t rs = Ok t' \<and> table_lookup t' g = Ok (reached (tb_shift t) rs g (device_of ms g))"
  using redirect_all_lookup [OF build_Ok(1) [OF assms] lookup_built [OF assms]] by blast

definition example_mappings :: "Mapped list" where
  "example_mappings =
     [\<lparr>mp_guest = 0x50000, mp_len = 0x10000, mp_device = 0x900000\<rparr>,
      \<lparr>mp_guest = 0x20000, mp_len = 0x20000, mp_device = 0x700000\<rparr>]"

definition example_chunks :: "(word64 \<times> word64) list" where
  "example_chunks = [(2, 0x6e0000), (3, 0x6e0000), (5, 0x8b0000)]"

definition example_device_table :: Table where
  "example_device_table =
     \<lparr>tb_words = (case place_chunks example_chunks 3 of Ok (Some ws) \<Rightarrow> ws | _ \<Rightarrow> []), tb_bits = 3, tb_shift = 16\<rparr>"

lemma example_device_table_built: "table_build example_mappings = Ok example_device_table"
proof -
  let ?ms = "sort_key mp_guest example_mappings"
  have "coarsest MOST_CHUNK_SHIFT ?ms = Ok 16" "check_overlap ?ms = Ok ()"
    "map_outcome id concat (out_map (mapping_chunks 16) ?ms) = Ok example_chunks"
    "first_bits (length example_chunks) = 3"
    by code_simp+
  moreover have "grow 16 example_chunks 3 = Ok example_device_table"
  proof -
    have "place_chunks example_chunks 3 = Ok (Some (tb_words example_device_table))" by code_simp
    then obtain ws where "place_chunks example_chunks 3 = Ok (Some ws)" by blast
    then show ?thesis by (simp add: grow.simps [of 16] example_device_table_def)
  qed
  ultimately show ?thesis
    by (cases "out_map (mapping_chunks 16) ?ms") (simp_all add: table_build_def Let_def)
qed

lemma example_device_table_size: "tb_bits example_device_table \<le> MOST_BITS" "tb_shift example_device_table = 16"
  by (simp_all add: example_device_table_def MOST_BITS_def)

theorem lookup_reaches_guest_witness:
  "(\<exists>t'. redirect_all example_device_table [(0x3abcd, 0x1000), (0x38000, 0x2000)] = Ok t' \<and> table_lookup t' 0x30010 = Ok (Some 0x2010)) \<and>
   (\<exists>t'. redirect_all example_device_table [(0x3abcd, 0x1000)] = Ok t' \<and> table_lookup t' 0x50010 = Ok (Some 0x900010)) \<and>
   (\<exists>t'. redirect_all example_device_table [(0x3abcd, 0x1000)] = Ok t' \<and> table_lookup t' 0x40000 = Ok None)"
proof -
  have "reached (tb_shift example_device_table) [(0x3abcd, 0x1000), (0x38000, 0x2000)] 0x30010 (device_of example_mappings 0x30010) = Some 0x2010"
    "reached (tb_shift example_device_table) [(0x3abcd, 0x1000)] 0x50010 (device_of example_mappings 0x50010) = Some 0x900010"
    "reached (tb_shift example_device_table) [(0x3abcd, 0x1000)] 0x40000 (device_of example_mappings 0x40000) = None"
    unfolding example_device_table_size(2) by code_simp+
  then show ?thesis
    using lookup_reaches_guest [OF example_device_table_built example_device_table_size(1), of "[(0x3abcd, 0x1000), (0x38000, 0x2000)]" "0x30010"]
      lookup_reaches_guest [OF example_device_table_built example_device_table_size(1), of "[(0x3abcd, 0x1000)]" "0x50010"]
      lookup_reaches_guest [OF example_device_table_built example_device_table_size(1), of "[(0x3abcd, 0x1000)]" "0x40000"]
    by simp
qed

section \<open>What a dispatch marked\<close>

text \<open>The chunks of the slots whose marks are set, in slot order.\<close>

fun marked :: "Table \<Rightarrow> nat \<Rightarrow> word32 list \<Rightarrow> word64 list" where
  "marked t slot [] = []"
| "marked t slot (mark # marks) =
     (case entry_at (tb_words t) slot of
        Some e \<Rightarrow> if mark = 0 then [] else [push_bit (tb_shift t) (fst e)] | None \<Rightarrow> []) @ marked t (slot + 1) marks"

lemma entry_read:
  assumes "words_ok (tb_bits t) (tb_words t)" "slot < slot_count (tb_bits t)" "2 \<le> k" "k \<le> 4"
  obtains e where
    "get_range (tb_words t) (HEADER_WORDS + slot * SLOT_WORDS) (HEADER_WORDS + slot * SLOT_WORDS + k) = Some e"
    "u32_index (HEADER_WORDS + slot * SLOT_WORDS) = Ok (HEADER_WORDS + slot * SLOT_WORDS)"
    "map_option fst (entry_at (tb_words t) slot) = (if e ! 1 = EMPTY then None else Some (from_halves (e ! 0) (e ! 1)))"
  using that slot_in_words [OF assms(1,2)] assms(3,4)
  by (auto simp: get_range_def entry_at_def u32_index_def Let_def table_consts)

lemma take_written_from_result:
  assumes ok: "words_ok (tb_bits t) (tb_words t)" and "slot + length marks \<le> slot_count (tb_bits t)"
  shows "take_written_from t slot marks acc =
    Ok (replicate (length marks) 0, acc @ map (\<lambda>c. (c, push_bit (tb_shift t) 1)) (marked t slot marks))"
  using assms(2)
proof (induction marks arbitrary: slot acc)
  case (Cons mark marks)
  have "slot < slot_count (tb_bits t)" using Cons.prems by simp
  with ok obtain e where
    e: "get_range (tb_words t) (HEADER_WORDS + slot * SLOT_WORDS) (HEADER_WORDS + slot * SLOT_WORDS + SLOT_WORDS) = Some e"
      "u32_index (HEADER_WORDS + slot * SLOT_WORDS) = Ok (HEADER_WORDS + slot * SLOT_WORDS)"
      "map_option fst (entry_at (tb_words t) slot) = (if e ! 1 = EMPTY then None else Some (from_halves (e ! 0) (e ! 1)))"
    by (rule entry_read [of t slot SLOT_WORDS]) (simp_all add: SLOT_WORDS_def)
  have IH: "take_written_from t (slot + 1) marks acc' =
      Ok (replicate (length marks) 0, acc' @ map (\<lambda>c. (c, push_bit (tb_shift t) 1)) (marked t (slot + 1) marks))" for acc'
    using Cons by simp
  show ?case
    using e by (cases "mark = 0"; cases "entry_at (tb_words t) slot") (auto simp: IH [simplified] split: if_splits)
qed simp

lemma take_touched_from_result:
  assumes ok: "words_ok (tb_bits t) (tb_words t)" and "slot + length marks \<le> slot_count (tb_bits t)"
  shows "take_touched_from t slot marks acc = Ok (replicate (length marks) 0, acc @ marked t slot marks)"
  using assms(2)
proof (induction marks arbitrary: slot acc)
  case (Cons mark marks)
  have "slot < slot_count (tb_bits t)" using Cons.prems by simp
  with ok obtain e where
    e: "get_range (tb_words t) (HEADER_WORDS + slot * SLOT_WORDS) (HEADER_WORDS + slot * SLOT_WORDS + 2) = Some e"
      "u32_index (HEADER_WORDS + slot * SLOT_WORDS) = Ok (HEADER_WORDS + slot * SLOT_WORDS)"
      "map_option fst (entry_at (tb_words t) slot) = (if e ! 1 = EMPTY then None else Some (from_halves (e ! 0) (e ! 1)))"
    by (rule entry_read [of t slot 2]) simp_all
  have IH: "take_touched_from t (slot + 1) marks acc' = Ok (replicate (length marks) 0, acc' @ marked t (slot + 1) marks)" for acc'
    using Cons by simp
  show ?case
    using e by (cases "mark = 0"; cases "entry_at (tb_words t) slot") (auto simp: IH [simplified] split: if_splits)
qed simp

lemma marked_mem:
  "x \<in> set (marked t slot marks) \<longleftrightarrow>
     (\<exists>i < length marks. marks ! i \<noteq> 0 \<and> (\<exists>e. entry_at (tb_words t) (slot + i) = Some e \<and> x = push_bit (tb_shift t) (fst e)))"
proof (induction marks arbitrary: slot)
  case (Cons mark marks)
  show ?case
    using Cons [of "slot + 1"] by (cases "entry_at (tb_words t) slot") (auto simp: Ex_less_Suc2 split: option.split)
qed simp

lemma marked_base:
  assumes "table_ok t" "length marks = slot_count (tb_bits t)"
  shows "chunk_base (tb_shift t) g \<in> set (marked t 0 marks) \<longleftrightarrow> (\<exists>slot. slot_of t g = Ok (Some slot) \<and> marks ! slot \<noteq> 0)"
    (is "?mark \<longleftrightarrow> ?slot")
proof -
  have ws: "words_ok (tb_bits t) (tb_words t)" using assms(1) by (simp add: table_ok_def)
  have base: "chunk_base (tb_shift t) g = push_bit (tb_shift t) (fst e) \<longleftrightarrow> fst e = drop_bit (tb_shift t) g"
    if "entry_at (tb_words t) i = Some e" for i e
  proof -
    have "drop_bit (tb_shift t) (push_bit (tb_shift t) (fst e)) = fst e"
      using assms(1) that by (auto simp: table_ok_def intro: ranI)
    moreover have "drop_bit (tb_shift t) (chunk_base (tb_shift t) g) = drop_bit (tb_shift t) g"
      unfolding chunk_base_def by (rule bit_word_eqI) (auto simp: bit_simps dest: bit_imp_le_length)
    ultimately show ?thesis by (auto simp: chunk_base_def)
  qed
  have "?mark \<longleftrightarrow> (\<exists>i d. entry_at (tb_words t) i = Some (drop_bit (tb_shift t) g, d) \<and> marks ! i \<noteq> 0)"
    using entry_at_count [OF ws] assms(2) base by (fastforce simp: marked_mem)
  also have "\<dots> \<longleftrightarrow> ?slot"
    using slot_of_result(1) [OF ws, where guest = g] slot_of_result(2) [OF ws, where guest = g]
    by (cases "\<exists>d. (drop_bit (tb_shift t) g, d) \<in> ran (entry_at (tb_words t))") (fastforce simp: ran_def)+
  finally show ?thesis .
qed

lemma marked_distinct:
  assumes "table_ok t"
  shows "distinct (marked t slot marks)"
proof (induction marks arbitrary: slot)
  case (Cons mark marks)
  have "push_bit (tb_shift t) (fst e) \<notin> set (marked t (slot + 1) marks)" if e: "entry_at (tb_words t) slot = Some e" for e
  proof
    assume "push_bit (tb_shift t) (fst e) \<in> set (marked t (slot + 1) marks)"
    then obtain i e' where e': "entry_at (tb_words t) (slot + 1 + i) = Some e'"
      "push_bit (tb_shift t) (fst e) = push_bit (tb_shift t) (fst e')"
      by (auto simp: marked_mem)
    have "fst e = fst e'"
      using assms e e' unfolding table_ok_def by (metis imageI ranI)
    then have "slot = slot + 1 + i"
      using assms e e'(1) unfolding table_ok_def words_ok_def by (metis prod.collapse)
    then show False by simp
  qed
  with Cons show ?case by (auto split: option.split)
qed simp

lemma marked_is_chunk:
  assumes "table_ok t" "a \<in> set (marked t 0 marks)"
  shows "\<exists>g. a = chunk_base (tb_shift t) g"
proof -
  from assms(2) obtain i e where e: "entry_at (tb_words t) i = Some e" "a = push_bit (tb_shift t) (fst e)"
    by (auto simp: marked_mem)
  have "drop_bit (tb_shift t) a = fst e" using assms(1) e by (auto simp: table_ok_def intro: ranI)
  then show ?thesis using e(2) by (auto simp: chunk_base_def intro!: exI [of _ a])
qed

lemma slots_fit:
  assumes "words_ok (tb_bits t) (tb_words t)"
  shows "table_slots t = Ok (slot_count (tb_bits t))"
    "u32_index (MARK_SINK_WORDS + slot_count (tb_bits t)) = Ok (MARK_SINK_WORDS + slot_count (tb_bits t))"
    "mark_words t = Ok (MARK_SINK_WORDS + 2 * slot_count (tb_bits t))"
proof -
  have "(2 :: nat) ^ tb_bits t \<le> 2 ^ 28"
    using assms by (intro power_increasing) (auto simp: words_ok_def MOST_BITS_def)
  then show "table_slots t = Ok (slot_count (tb_bits t))"
    "u32_index (MARK_SINK_WORDS + slot_count (tb_bits t)) = Ok (MARK_SINK_WORDS + slot_count (tb_bits t))"
    "mark_words t = Ok (MARK_SINK_WORDS + 2 * slot_count (tb_bits t))"
    using assms by (simp_all add: table_slots_def mark_words_def u32_index_def slot_count_def table_consts words_ok_def MOST_BITS_def)
qed

text \<open>What a reader of marks answers: the chunks whose marks are set, once each, in order.\<close>

definition reports :: "Table \<Rightarrow> word32 list \<Rightarrow> word64 list \<Rightarrow> bool" where
  "reports t marks found \<longleftrightarrow>
     sorted found \<and> distinct found \<and>
     (\<forall>g. chunk_base (tb_shift t) g \<in> set found \<longleftrightarrow> (\<exists>slot. slot_of t g = Ok (Some slot) \<and> marks ! slot \<noteq> 0)) \<and>
     (\<forall>a \<in> set found. \<exists>g. a = chunk_base (tb_shift t) g)"

lemma sort_marked_reports:
  "table_ok t \<Longrightarrow> length marks = slot_count (tb_bits t) \<Longrightarrow> reports t marks (sort (marked t 0 marks))"
  using marked_base marked_distinct marked_is_chunk by (auto simp: reports_def)

lemma sort_map_pair:
  fixes xs :: "word64 list"
  shows "sort (map (\<lambda>c. (c, l :: word64)) xs) = map (\<lambda>c. (c, l)) (sort xs)"
proof (rule properties_for_sort)
  show "mset (map (\<lambda>c. (c, l)) (sort xs)) = mset (map (\<lambda>c. (c, l)) xs)"
    by simp
  show "sorted (map (\<lambda>c. (c, l)) (sort xs))"
    by (simp add: sorted_map sorted_wrt_mono_rel [of _ "(\<le>)"])
qed

text \<open>C36. The marks a dispatch leaves come back as the chunks it wrote and touched. Given the marks of a table
  as it was built, whatever chunks were since pointed at copies, reading the written ones answers, in order
  and once each, exactly the chunks whose slots were marked written, and leaves the sink and every written
  mark clear and the touched ones alone; reading the touched ones does the same for them.
\<close>

theorem marks_come_back:
  assumes "table_build ms = Ok t0" "tb_bits t0 \<le> MOST_BITS" "redirect_all t0 rs = Ok t" "mark_words t = Ok (length marks)"
  shows "\<exists>written touched. \<exists>n.
    take_written t marks = Ok (replicate (4 + n) 0 @ drop (4 + n) marks, map (\<lambda>a. (a, 2 ^ tb_shift t)) written) \<and>
    take_touched t marks = Ok (take (4 + n) marks @ replicate n 0, touched) \<and>
    reports t (take n (drop 4 marks)) written \<and> reports t (drop (4 + n) marks) touched"
proof -
  obtain t' where "redirect_all t0 rs = Ok t'" "table_ok t'"
    using redirect_all_lookup [OF build_Ok(1) [OF assms(1,2)] lookup_built [OF assms(1,2), of 0]] by blast
  with assms(3) have ok: "table_ok t" by simp
  then have ws: "words_ok (tb_bits t) (tb_words t)" by (simp add: table_ok_def)
  let ?n = "slot_count (tb_bits t)"
  let ?w = "take ?n (drop 4 marks)" and ?m = "drop (4 + ?n) marks"
  have len: "length marks = 4 + 2 * ?n" using slots_fit(3) [OF ws] assms(4) by (simp add: MARK_SINK_WORDS_def)
  have "take_written t marks = Ok (replicate (4 + ?n) 0 @ ?m, map (\<lambda>a. (a, 2 ^ tb_shift t)) (sort (marked t 0 ?w)))"
    using len take_written_from_result [OF ws, of 0 ?w "[]"] slots_fit [OF ws]
    unfolding replicate_add by (simp add: take_written_def MARK_SINK_WORDS_def sort_map_pair add.commute)
  moreover have "take_touched t marks = Ok (take (4 + ?n) marks @ replicate ?n 0, sort (marked t 0 ?m))"
    using len take_touched_from_result [OF ws, of 0 ?m "[]"] slots_fit [OF ws]
    by (simp add: take_touched_def MARK_SINK_WORDS_def)
  moreover have "reports t ?w (sort (marked t 0 ?w))" "reports t ?m (sort (marked t 0 ?m))"
    using len by (auto intro!: sort_marked_reports [OF ok])
  ultimately show ?thesis by blast
qed

definition example_marks :: "word32 list" where
  "example_marks = (replicate 26 0)[0 := 1, 5 := 7, 15 := 1]"

theorem marks_come_back_witness:
  "\<exists>written touched. \<exists>n.
    take_written example_device_table example_marks =
      Ok (replicate (4 + n) 0 @ drop (4 + n) example_marks, map (\<lambda>a. (a, 2 ^ tb_shift example_device_table)) written) \<and>
    take_touched example_device_table example_marks = Ok (take (4 + n) example_marks @ replicate n 0, touched) \<and>
    reports example_device_table (take n (drop 4 example_marks)) written \<and> reports example_device_table (drop (4 + n) example_marks) touched"
proof (rule marks_come_back)
  show "redirect_all example_device_table [] = Ok example_device_table" by simp
  show "mark_words example_device_table = Ok (length example_marks)"
    by (simp add: mark_words_def table_slots_def slot_count_def u32_index_def table_consts example_device_table_def example_marks_def)
qed (rule example_device_table_built example_device_table_size(1))+

section \<open>When a table is refused\<close>

definition mapping_usable :: "Mapped \<Rightarrow> bool" where
  "mapping_usable m \<longleftrightarrow> mp_len m \<noteq> 0 \<and> aligned_to LEAST_CHUNK_SHIFT m"

lemma aligned_trailing_zeros: "aligned_to n m \<Longrightarrow> n \<le> 64 \<Longrightarrow> n \<le> trailing_zeros64 (mp_guest m OR mp_len m)"
proof (rule ccontr)
  let ?w = "mp_guest m OR mp_len m"
  assume al: "aligned_to n m" and n: "n \<le> 64" "\<not> n \<le> trailing_zeros64 ?w"
  then have "trailing_zeros64 ?w < length [0..<64]" by simp
  then have "bit ?w ([0..<64] ! trailing_zeros64 ?w)"
    unfolding trailing_zeros64_def by (metis (no_types, lifting) nth_length_takeWhile)
  then have "bit ?w (trailing_zeros64 ?w)" using n by simp
  moreover have "\<not> bit v i" if "2 ^ n dvd unat v" "i < n" for v :: word64 and i
  proof -
    have "take_bit n (unat v) = 0" using that(1) by (simp add: take_bit_eq_0_iff)
    then have "\<not> bit (take_bit n (unat v)) i" by simp
    with that(2) show ?thesis by (auto simp: bit_simps dest: bit_imp_le_length)
  qed
  ultimately show False using al n by (auto simp: aligned_to_def bit_or_iff)
qed

lemma aligned_to_mono: "aligned_to n m \<Longrightarrow> k \<le> n \<Longrightarrow> aligned_to k m"
  unfolding aligned_to_def by (meson dvd_trans le_imp_power_dvd)

lemma coarsest_cases:
  assumes "LEAST_CHUNK_SHIFT \<le> s"
  obtains m where "coarsest s ms = Err (TableMisaligned (mp_guest m) (mp_len m))" "m \<in> set ms" "\<not> mapping_usable m"
  | shift where "coarsest s ms = Ok shift" "LEAST_CHUNK_SHIFT \<le> shift" "\<And>m. m \<in> set ms \<Longrightarrow> aligned_to shift m \<and> mapping_usable m"
proof (cases "\<exists>shift. coarsest s ms = Ok shift")
  case True
  then obtain shift where ok: "coarsest s ms = Ok shift" ..
  with coarsest_Ok [OF ok] assms show ?thesis
    by (intro that(2)) (auto simp: mapping_usable_def intro: aligned_to_mono)
next
  case False
  have "(\<exists>shift. coarsest s ms = Ok shift) \<or>
      (\<exists>m \<in> set ms. coarsest s ms = Err (TableMisaligned (mp_guest m) (mp_len m)) \<and> \<not> mapping_usable m)"
    by (induction s ms rule: coarsest.induct)
      (auto simp: Let_def mapping_usable_def LEAST_CHUNK_SHIFT_def dest: aligned_trailing_zeros)
  with False that(1) show ?thesis by blast
qed

lemma check_overlap_cases:
  assumes "\<And>m. m \<in> set ms \<Longrightarrow> unat (mp_guest m) < 2 ^ 64 - 1" "sorted (map mp_guest ms)"
  obtains "check_overlap ms = Ok ()" "sorted_wrt ends_before ms"
  | a b where "check_overlap ms = Err (Overlap (mp_guest a) (mp_guest b))" "{#a, b#} \<subseteq># mset ms" "mp_guest a \<le> mp_guest b"
      "unat (mp_guest b) < unat (mp_guest a) + unat (mp_len a)"
proof -
  have "check_overlap ms = Ok () \<or> (\<exists>a b. check_overlap ms = Err (Overlap (mp_guest a) (mp_guest b)) \<and> {#a, b#} \<subseteq># mset ms \<and>
      mp_guest a \<le> mp_guest b \<and> unat (mp_guest b) < unat (mp_guest a) + unat (mp_len a))"
    using assms
  proof (induction ms rule: check_overlap.induct)
    case (1 a b ms)
    show ?case
    proof (cases "mp_guest b < saturating_add64 (mp_guest a) (mp_len a)")
      case True
      with 1(2) [of b] have "unat (mp_guest b) < unat (mp_guest a) + unat (mp_len a)" by (simp add: saturating_le)
      moreover have "{#a, b#} \<subseteq># mset (a # b # ms)" by simp
      ultimately have "check_overlap (a # b # ms) = Err (Overlap (mp_guest a) (mp_guest b)) \<and> {#a, b#} \<subseteq># mset (a # b # ms) \<and>
          mp_guest a \<le> mp_guest b \<and> unat (mp_guest b) < unat (mp_guest a) + unat (mp_len a)"
        using True 1(3) by simp
      then show ?thesis by blast
    next
      case False
      have "mset (b # ms) \<subseteq># mset (a # b # ms)" by simp
      moreover have "check_overlap (a # b # ms) = check_overlap (b # ms)" using False by simp
      moreover have "sorted (map mp_guest (b # ms))" using 1(3) by simp
      moreover have "unat (mp_guest m) < 2 ^ 64 - 1" if "m \<in> set (b # ms)" for m using 1(2) [of m] that by simp
      ultimately show ?thesis
        using 1(1) [OF False] unfolding \<open>check_overlap (a # b # ms) = check_overlap (b # ms)\<close>
        by (blast intro: subset_mset.order_trans)
    qed
  qed simp_all
  with that check_overlap_Ok [OF assms(1)] show thesis by blast
qed

lemma pair_sorted_wrt: "sorted_wrt P xs \<Longrightarrow> {#a, b#} \<subseteq># mset xs \<Longrightarrow> P a b \<or> P b a"
proof (induction xs)
  case (Cons x xs)
  consider "x = a" "b \<in># mset xs" | "x = b" "a \<in># mset xs" | "{#a, b#} \<subseteq># mset xs"
  proof (cases "x = a")
    case True
    with Cons.prems(2) that(1) show ?thesis by (simp add: insert_subset_eq_iff)
  next
    case xa: False
    show ?thesis
    proof (cases "x = b")
      case True
      have "a \<in># mset (x # xs)" using Cons.prems(2) by (rule mset_subset_eqD) simp
      with True xa that(2) show ?thesis by simp
    next
      case False
      with xa Cons.prems(2) have "{#a, b#} \<subseteq># mset xs"
        by (auto simp: subseteq_mset_def split: if_splits)
      with that(3) show ?thesis .
    qed
  qed
  then show ?case using Cons by cases auto
qed simp

lemma length_chunk_list: "aligned_to shift m \<Longrightarrow> length (chunk_list shift m) = unat (mp_len m) div 2 ^ shift"
  by (auto simp: chunk_list_def aligned_to_def div_plus_div_distrib_dvd_left)

lemma length_chunks:
  assumes "\<And>m. m \<in> set ms \<Longrightarrow> aligned_to shift m" "LEAST_CHUNK_SHIFT \<le> shift"
  shows "length (concat (map (chunk_list shift) ms)) * 2 ^ LEAST_CHUNK_SHIFT \<le> (\<Sum>m\<leftarrow>ms. unat (mp_len m))"
  using assms(1)
proof (induction ms)
  case (Cons m ms)
  have "length (chunk_list shift m) * 2 ^ LEAST_CHUNK_SHIFT \<le> unat (mp_len m) div 2 ^ shift * 2 ^ shift"
    using Cons.prems length_chunk_list assms(2) by (auto intro!: mult_le_mono power_increasing)
  also have "\<dots> \<le> unat (mp_len m)" by (rule div_times_less_eq_dividend)
  finally show ?case using Cons by (simp add: algebra_simps)
qed simp

lemma next_power_from_result:
  "next_power_from (2 ^ k) n = 2 ^ j \<Longrightarrow> n \<le> 2 ^ b \<Longrightarrow> k \<le> b \<Longrightarrow> j \<le> b"
proof (induction "b - k" arbitrary: k)
  case 0
  then have "next_power_from (2 ^ k) n = 2 ^ k" by (simp add: next_power_from.simps)
  with 0 show ?case by simp
next
  case (Suc d)
  show ?case
  proof (cases "n \<le> 2 ^ k")
    case True
    then have "next_power_from (2 ^ k) n = 2 ^ k" by (simp add: next_power_from.simps)
    with Suc show ?thesis by simp
  next
    case False
    then have "next_power_from (2 ^ k) n = next_power_from (2 ^ (k + 1)) n" by (simp add: next_power_from.simps [of "2 ^ k"])
    with Suc(1) [of "k + 1"] Suc(2-) show ?thesis by simp
  qed
qed

lemma next_power_from_power: "\<exists>j. next_power_from (2 ^ k) n = 2 ^ j"
proof (induction "n - 2 ^ k" arbitrary: k rule: less_induct)
  case less
  show ?case
  proof (cases "n \<le> 2 ^ k")
    case True
    then show ?thesis by (auto simp: next_power_from.simps)
  next
    case False
    then have "next_power_from (2 ^ k) n = next_power_from (2 ^ (k + 1)) n" by (simp add: next_power_from.simps [of "2 ^ k"])
    moreover have "n - 2 ^ (k + 1) < n - 2 ^ k" using False by (intro diff_less_mono2) auto
    ultimately show ?thesis using less by metis
  qed
qed

lemma trailing_zeros64_power: "k < 64 \<Longrightarrow> trailing_zeros64 (2 ^ k) \<le> k"
proof (rule ccontr)
  assume "k < 64" "\<not> trailing_zeros64 (2 ^ k) \<le> k"
  then have "\<not> bit (2 ^ k :: word64) k" by (intro trailing_zeros64_bit) simp
  with \<open>k < 64\<close> show False by (simp add: bit_simps)
qed

lemma first_bits_le: "n \<le> 2 ^ 27 \<Longrightarrow> first_bits n \<le> MOST_BITS"
proof -
  assume n: "n \<le> 2 ^ 27"
  obtain j where j: "next_power_of_two (max n 1 * 2) = 2 ^ j"
    using next_power_from_power [of 0] by (auto simp: next_power_of_two_def)
  then have "j \<le> 28"
    using next_power_from_result [of 0 "max n 1 * 2" j 28] n by (simp add: next_power_of_two_def)
  with j trailing_zeros64_power [of j] show ?thesis by (simp add: first_bits_def MOST_BITS_def)
qed

lemma grow_outcome:
  assumes "1 \<le> bits" "bits \<le> MOST_BITS" "good_chunks cds"
  shows "(\<exists>t. grow shift cds bits = Ok t \<and> tb_bits t \<le> MOST_BITS) \<or> grow shift cds bits = Err (TooLarge (length cds))"
  using assms
proof (induction shift cds bits rule: grow.induct)
  case (1 shift cds bits)
  have "place_chunks cds bits = Ok None \<or> (\<exists>ws. place_chunks cds bits = Ok (Some ws))"
    using place_chunks_result [OF 1(2,3), of cds] 1(4) by (auto simp: good_chunks_def)
  then show ?case
  proof
    assume none: "place_chunks cds bits = Ok None"
    show ?thesis
    proof (cases "MOST_BITS < bits + 1")
      case True
      with none show ?thesis by (simp add: grow.simps [of shift cds bits])
    next
      case False
      with none 1(1) [OF none refl False] 1(4) show ?thesis by (simp add: grow.simps [of shift cds bits])
    qed
  next
    assume "\<exists>ws. place_chunks cds bits = Ok (Some ws)"
    with 1(3) show ?thesis by (auto simp: grow.simps [of shift cds bits])
  qed
qed



end
