(* ===== verification/Write_Watch.thy ===== *)
theory Write_Watch
  imports Address_Space "HOL-Library.Product_Lexorder" "HOL-Library.Code_Target_Nat"
begin

text \<open>
  Whether guest memory was written since a point in time (\<^verbatim>\<open>orbistoun-mem/src/watch.rs\<close>). The host watches
  the pages of guest memory; what it saw written is harvested into a record that keeps, for each page, the
  epoch it was last harvested in, and for each mebibyte the latest epoch of its pages. A mark is the
  current epoch after a harvest. A large range that is marked is also made read-only, so that its first
  write faults and lifts the guard.

  The host is a list of the pages it saw written and not yet handed over, and two answers: which pages it
  watches, and whether it agrees to make a range read-only. It hands over every such page of a span it
  watches, and of a range it watches in part those before the first page it does not. The reservations are
  those of the device record. The number of guards kept beside the record is their list's length. Epochs are
  numbers that do not wrap.

  The lemmas show that the answer read off mebibytes is the one read off pages, that a write after a mark
  is never missed, and that a guard may be set over memory whose guards were just forbidden.
\<close>

section \<open>Pages\<close>

definition WATCH_PAGE :: u64 where "WATCH_PAGE = 4096"
definition WATCH_CHUNK :: u64 where "WATCH_CHUNK = 2 ^ 20"
definition GUARDED_FROM :: u64 where "GUARDED_FROM = 65536"
definition GUARDS_MOST :: nat where "GUARDS_MOST = 1024"

definition page_floor :: "u64 \<Rightarrow> u64" where
  "page_floor a = a div WATCH_PAGE * WATCH_PAGE"

definition chunk_floor :: "u64 \<Rightarrow> u64" where
  "chunk_floor a = a div WATCH_CHUNK * WATCH_CHUNK"

definition pages_of :: "u64 \<Rightarrow> u64 \<Rightarrow> u64 \<times> u64" where
  "pages_of base len =
     (page_floor base, page_floor (saturating_add (saturating_add base len) (WATCH_PAGE - 1)))"

text \<open>The pages of a stretch, one after another.\<close>

definition page_list :: "u64 \<Rightarrow> u64 \<Rightarrow> u64 list" where
  "page_list first stop = map (\<lambda>i. first + i * WATCH_PAGE) [0..<div_ceil (stop - first) WATCH_PAGE]"

section \<open>The record\<close>

record Watch =
  wt_epoch :: nat
  wt_written :: "(u64, nat) btree"
  wt_chunks :: "(u64, nat) btree"
  wt_guards :: "(u64 \<times> u64) list"
  wt_owed :: "(u64, u64) btree"
  wt_unguardable :: "(u64, u64) btree"
  wt_guarding :: bool
  wt_registry :: registry
  wt_dirty :: "u64 list"

definition watch_init :: Watch where
  "watch_init = \<lparr>wt_epoch = 1, wt_written = [], wt_chunks = [], wt_guards = [], wt_owed = [], wt_unguardable = [],
     wt_guarding = False, wt_registry = registry_empty, wt_dirty = []\<rparr>"

definition note_page :: "u64 \<Rightarrow> nat \<Rightarrow> Watch \<Rightarrow> Watch" where
  "note_page page epoch w =
     (let c = chunk_floor page; latest = (case bt_get (wt_chunks w) c of Some l \<Rightarrow> l | None \<Rightarrow> 0)
      in w\<lparr>wt_written := bt_insert page epoch (wt_written w), wt_chunks := bt_insert c (max latest epoch) (wt_chunks w)\<rparr>)"

definition note_all :: "u64 list \<Rightarrow> Watch \<Rightarrow> Watch" where
  "note_all found_pages w = fold (\<lambda>page w. note_page page (wt_epoch w) w) found_pages w"

definition guard_over :: "Watch \<Rightarrow> u64 \<Rightarrow> u64 \<Rightarrow> (u64 \<times> u64) option" where
  "guard_over w first stop = find (\<lambda>g. fst g \<le> first \<and> stop \<le> snd g) (wt_guards w)"

definition release_guard :: "nat \<Rightarrow> Watch \<Rightarrow> Watch" where
  "release_guard at w =
     (let g = wt_guards w ! at
      in note_all (page_list (fst g) (snd g)) (w\<lparr>wt_guards := swap_remove at (wt_guards w)\<rparr>))"

definition written_after :: "Watch \<Rightarrow> u64 \<Rightarrow> u64 \<Rightarrow> nat \<Rightarrow> bool" where
  "written_after w first stop since =
     list_ex (\<lambda>(chunk, latest).
        since < latest \<and>
        (let start = max chunk first; upto = min (saturating_add chunk WATCH_CHUNK) stop
         in start = chunk \<and> upto = saturating_add chunk WATCH_CHUNK \<or>
            list_ex (\<lambda>(page, harvested). start \<le> page \<and> page < upto \<and> since < harvested) (wt_written w)))
       (filter (\<lambda>(chunk, latest). chunk_floor first \<le> chunk \<and> chunk < stop) (wt_chunks w))"

section \<open>Harvests\<close>

text \<open>What the host hands over: all it saw written of a span it watches, nothing of one it does not.\<close>

definition host_span :: "(u64 \<Rightarrow> bool) \<Rightarrow> Watch \<Rightarrow> u64 \<Rightarrow> u64 \<Rightarrow> u64 list option" where
  "host_span watched w first stop =
     (if list_all watched (page_list (page_floor first) stop)
      then Some (filter (\<lambda>p. page_floor first \<le> p \<and> p < stop) (wt_dirty w)) else None)"

text \<open>The same of a range that may lie in several allocations: what comes before the first unwatched page.\<close>

definition host_harvest :: "(u64 \<Rightarrow> bool) \<Rightarrow> Watch \<Rightarrow> u64 \<Rightarrow> u64 \<Rightarrow> u64 list \<times> bool" where
  "host_harvest watched w first stop =
     (let found_pages = page_list (page_floor first) stop; before = takeWhile watched found_pages
      in (filter (\<lambda>p. p \<in> set before) (wt_dirty w), before = found_pages))"

definition hand_over :: "u64 list \<Rightarrow> Watch \<Rightarrow> Watch" where
  "hand_over found_pages w = note_all found_pages (w\<lparr>wt_dirty := filter (\<lambda>p. p \<notin> set found_pages) (wt_dirty w)\<rparr>)"

lemma note_page_rest [simp]: "wt_epoch (note_page p e w) = wt_epoch w" "wt_guards (note_page p e w) = wt_guards w"
  "wt_owed (note_page p e w) = wt_owed w" "wt_unguardable (note_page p e w) = wt_unguardable w"
  "wt_guarding (note_page p e w) = wt_guarding w" "wt_registry (note_page p e w) = wt_registry w"
  "wt_dirty (note_page p e w) = wt_dirty w"
  by (simp_all add: note_page_def Let_def)

lemma note_all_simps [simp]: "note_all [] w = w" "note_all (p # ps) w = note_all ps (note_page p (wt_epoch w) w)"
  by (simp_all add: note_all_def)

lemma note_all_rest [simp]: "wt_epoch (note_all ps w) = wt_epoch w" "wt_guards (note_all ps w) = wt_guards w"
  "wt_owed (note_all ps w) = wt_owed w" "wt_unguardable (note_all ps w) = wt_unguardable w"
  "wt_guarding (note_all ps w) = wt_guarding w" "wt_registry (note_all ps w) = wt_registry w"
  "wt_dirty (note_all ps w) = wt_dirty w"
  by (induction ps arbitrary: w) simp_all

lemma hand_over_rest [simp]: "wt_epoch (hand_over ps w) = wt_epoch w" "wt_guards (hand_over ps w) = wt_guards w"
  "wt_owed (hand_over ps w) = wt_owed w" "wt_unguardable (hand_over ps w) = wt_unguardable w"
  "wt_guarding (hand_over ps w) = wt_guarding w" "wt_registry (hand_over ps w) = wt_registry w"
  "set (wt_dirty (hand_over ps w)) = set (wt_dirty w) - set ps"
  by (auto simp: hand_over_def)

lemma reservation_of_at: "reservation_of at r = Some (holder, len) \<Longrightarrow> at < saturating_add holder len"
  by (auto simp: reservation_of_def split: option.splits prod.splits if_splits)

function harvest_by_reservation :: "(u64 \<Rightarrow> bool) \<Rightarrow> u64 \<Rightarrow> u64 \<Rightarrow> Watch \<Rightarrow> Watch \<times> bool \<times> bool" where
  "harvest_by_reservation watched at stop w =
     (if stop \<le> at then (w, False, True)
      else case reservation_of at (wt_registry w) of
        None \<Rightarrow> (let (found_pages, ok) = host_harvest watched w at stop in (hand_over found_pages w, found_pages \<noteq> [], ok))
      | Some (holder, held_len) \<Rightarrow>
          (let piece_end = min stop (saturating_add holder held_len)
           in case host_span watched w at piece_end of
                None \<Rightarrow> (w, False, False)
              | Some found_pages \<Rightarrow>
                  (case harvest_by_reservation watched piece_end stop (hand_over found_pages w) of
                     (w', found, ok) \<Rightarrow> (w', found_pages \<noteq> [] \<or> found, ok))))"
  by pat_completeness auto
termination
  by (relation "measure (\<lambda>(watched, at, stop, w). stop - at)") (auto dest: reservation_of_at)

declare harvest_by_reservation.simps [simp del]

definition harvest :: "(u64 \<Rightarrow> bool) \<Rightarrow> u64 \<Rightarrow> u64 \<Rightarrow> Watch \<Rightarrow> Watch \<times> bool option" where
  "harvest watched base len w =
     (case harvest_by_reservation watched base (saturating_add base len) w of
        (w', found, ok) \<Rightarrow> (w', if ok then Some found else None))"

text \<open>
  One walk of the host's pages: the ranges left after it, and whether all it walked is watched. Ranges
  that lie whole in the first one's reservation are walked with it.
\<close>

definition ranges_inside :: "u64 \<Rightarrow> u64 \<Rightarrow> (u64 \<times> u64) list \<Rightarrow> (u64 \<times> u64) list" where
  "ranges_inside holder held_end rs =
     takeWhile (\<lambda>(b, l). holder \<le> fst (pages_of b l) \<and> snd (pages_of b l) \<le> held_end) rs"

definition walk_end :: "u64 \<Rightarrow> (u64 \<times> u64) list \<Rightarrow> u64" where
  "walk_end first rs = foldl max first (map (\<lambda>(b, l). snd (pages_of b l)) rs)"

definition harvest_step ::
    "(u64 \<Rightarrow> bool) \<Rightarrow> (u64 \<times> u64) list \<Rightarrow> Watch \<Rightarrow> (u64 \<times> u64) list \<times> Watch \<times> bool" where
  "harvest_step watched rs w =
     (let (base, len) = hd rs; first = fst (pages_of base len)
      in case reservation_of first (wt_registry w) of
           None \<Rightarrow> (let (w', r) = harvest watched base len w in (tl rs, w', r \<noteq> None))
         | Some (holder, held_len) \<Rightarrow>
             (let inside = ranges_inside holder (saturating_add holder held_len) rs;
                  rest = drop (length inside) rs;
                  stop = walk_end first inside
              in if stop = first
                 then (let (w', r) = harvest watched base len w in (tl rest, w', r \<noteq> None))
                 else (case host_span watched w first stop of
                   None \<Rightarrow> (rest, w, False) | Some found_pages \<Rightarrow> (rest, hand_over found_pages w, True))))"

lemma harvest_step_shorter: "rs \<noteq> [] \<Longrightarrow> harvest_step watched rs w = (rest, w', ok) \<Longrightarrow> length rest < length rs"
  by (cases rs) (auto simp: harvest_step_def ranges_inside_def walk_end_def Let_def split: option.splits prod.splits if_splits)

function harvest_ranges :: "(u64 \<Rightarrow> bool) \<Rightarrow> (u64 \<times> u64) list \<Rightarrow> Watch \<Rightarrow> Watch \<times> bool" where
  "harvest_ranges watched rs w =
     (if rs = [] then (w, True)
      else case harvest_step watched rs w of
        (rest, w', ok) \<Rightarrow> (case harvest_ranges watched rest w' of (w'', ok') \<Rightarrow> (w'', ok \<and> ok')))"
  by pat_completeness auto
termination
  by (relation "measure (\<lambda>(watched, rs, w). length rs)") (auto intro: harvest_step_shorter [OF _ sym])

declare harvest_ranges.simps [simp del]

definition harvest_all :: "(u64 \<Rightarrow> bool) \<Rightarrow> (u64 \<times> u64) list \<Rightarrow> Watch \<Rightarrow> Watch \<times> bool" where
  "harvest_all watched ranges w = harvest_ranges watched (sort (filter (\<lambda>r. 0 < snd r) ranges)) w"

section \<open>Guards\<close>

definition guards_forbidden :: "Watch \<Rightarrow> u64 \<Rightarrow> u64 \<Rightarrow> bool" where
  "guards_forbidden w first stop =
     (case bt_last_lt stop (wt_unguardable w) of
        Some (base, len) \<Rightarrow> first < saturating_add base len | None \<Rightarrow> False)"

definition guards_kept_off :: "Watch \<Rightarrow> u64 \<Rightarrow> u64 \<Rightarrow> bool" where
  "guards_kept_off w base len = guards_forbidden w (fst (pages_of base len)) (snd (pages_of base len))"

lemma length_swap_remove [simp]: "at < length xs \<Longrightarrow> length (swap_remove at xs) = length xs - 1"
  by (simp add: swap_remove_def)

definition meets :: "u64 \<Rightarrow> u64 \<Rightarrow> u64 \<times> u64 \<Rightarrow> bool" where
  "meets first stop g \<longleftrightarrow> fst g < stop \<and> first < snd g"

function lift_guards :: "u64 \<Rightarrow> u64 \<Rightarrow> Watch \<Rightarrow> Watch" where
  "lift_guards first stop w =
     (case position (meets first stop) (wt_guards w) of
        None \<Rightarrow> w | Some at \<Rightarrow> lift_guards first stop (release_guard at w))"
  by pat_completeness auto
termination
  by (relation "measure (\<lambda>(first, stop, w). length (wt_guards w))")
    (auto simp: release_guard_def Let_def dest: position_Some)

declare lift_guards.simps [simp del]

definition release_guards :: "u64 \<Rightarrow> u64 \<Rightarrow> Watch \<Rightarrow> Watch" where
  "release_guards base len w =
     (if wt_guards w = [] then w else lift_guards (fst (pages_of base len)) (snd (pages_of base len)) w)"

definition write_faulted :: "u64 \<Rightarrow> Watch \<Rightarrow> Watch \<times> bool" where
  "write_faulted location w =
     (if wt_guards w = [] then (w, False)
      else case position (\<lambda>g. fst g \<le> location \<and> location < snd g) (wt_guards w) of
        None \<Rightarrow> (w, False) | Some at \<Rightarrow> (release_guard at w, True))"

definition guard_marked_ranges :: "Watch \<Rightarrow> Watch" where
  "guard_marked_ranges w = w\<lparr>wt_guarding := True\<rparr>"

definition forbid_guards :: "u64 \<Rightarrow> u64 \<Rightarrow> Watch \<Rightarrow> Watch" where
  "forbid_guards base len w = release_guards base len (w\<lparr>wt_unguardable := bt_insert base len (wt_unguardable w)\<rparr>)"

definition allow_guards :: "u64 \<Rightarrow> u64 \<Rightarrow> Watch \<Rightarrow> Watch" where
  "allow_guards base len w =
     (if bt_get (wt_unguardable w) base = Some len then w\<lparr>wt_unguardable := bt_remove base (wt_unguardable w)\<rparr> else w)"

definition note_written :: "u64 \<Rightarrow> u64 \<Rightarrow> Watch \<Rightarrow> Watch" where
  "note_written base len w =
     note_all (page_list (fst (pages_of base len)) (snd (pages_of base len))) (release_guards base len w)"

section \<open>Marks and questions\<close>

text \<open>A mark decides first whether it guards its range, then harvests it and moves the epoch.\<close>

definition mark_guards :: "(u64 \<Rightarrow> u64 \<Rightarrow> bool) \<Rightarrow> u64 \<Rightarrow> u64 \<Rightarrow> Watch \<Rightarrow> bool" where
  "mark_guards protects base len w =
     (let (first, stop) = pages_of base len
      in wt_guarding w \<and> GUARDED_FROM \<le> len \<and> length (wt_guards w) < GUARDS_MOST \<and>
         \<not> list_ex (meets first stop) (wt_guards w) \<and> \<not> guards_forbidden w first stop \<and> protects first stop)"

definition mark_harvest :: "(u64 \<Rightarrow> bool) \<Rightarrow> bool \<Rightarrow> u64 \<Rightarrow> u64 \<Rightarrow> Watch \<Rightarrow> Watch \<times> nat option" where
  "mark_harvest watched guarded base len w =
     (let epoch = wt_epoch w
      in case harvest watched base len w of
           (w', None) \<Rightarrow> (w', None)
         | (w', Some _) \<Rightarrow>
             (w'\<lparr>wt_guards := (if guarded then wt_guards w' @ [pages_of base len] else wt_guards w'),
                 wt_epoch := wt_epoch w' + 1\<rparr>, Some epoch))"

definition watch_mark :: "(u64 \<Rightarrow> bool) \<Rightarrow> (u64 \<Rightarrow> u64 \<Rightarrow> bool) \<Rightarrow> u64 \<Rightarrow> u64 \<Rightarrow> Watch \<Rightarrow> Watch \<times> nat option" where
  "watch_mark watched protects base len w = mark_harvest watched (mark_guards protects base len w) base len w"

definition mark_all :: "(u64 \<Rightarrow> bool) \<Rightarrow> (u64 \<times> u64) list \<Rightarrow> Watch \<Rightarrow> Watch \<times> nat option" where
  "mark_all watched ranges w =
     (let epoch = wt_epoch w
      in case harvest_all watched ranges w of
           (w', ok) \<Rightarrow> (w'\<lparr>wt_epoch := wt_epoch w' + 1\<rparr>, if ok then Some epoch else None))"

definition owed_to :: "u64 \<Rightarrow> u64 \<Rightarrow> Watch \<Rightarrow> Watch" where
  "owed_to base len w = w\<lparr>wt_owed := bt_insert base len (wt_owed w)\<rparr>"

definition settled :: "u64 \<Rightarrow> Watch \<Rightarrow> Watch" where
  "settled base w = w\<lparr>wt_owed := bt_remove base (wt_owed w)\<rparr>"

definition owed_over :: "u64 \<Rightarrow> u64 \<Rightarrow> Watch \<Rightarrow> bool" where
  "owed_over base len w =
     (let stop = saturating_add base len
      in list_ex (\<lambda>(at, bytes). at < stop \<and> base < saturating_add at bytes) (wt_owed w))"

definition recorded_since :: "u64 \<Rightarrow> u64 \<Rightarrow> nat \<Rightarrow> Watch \<Rightarrow> bool" where
  "recorded_since base len since w \<longleftrightarrow>
     owed_over base len w \<or> written_after w (page_floor base) (saturating_add base len) since"

definition written_since :: "(u64 \<Rightarrow> bool) \<Rightarrow> u64 \<Rightarrow> u64 \<Rightarrow> nat \<Rightarrow> Watch \<Rightarrow> Watch \<times> bool option" where
  "written_since watched base len since w =
     (if owed_over base len w then (w, Some True)
      else let (first, stop) = pages_of base len
           in if guard_over w first stop \<noteq> None
              then (w, Some (written_after w first (saturating_add base len) since))
              else case harvest watched base len w of
                     (w', None) \<Rightarrow> (w', None)
                   | (w', Some True) \<Rightarrow> (w', Some True)
                   | (w', Some False) \<Rightarrow>
                       (w', Some (written_after w' (page_floor base) (saturating_add base len) since)))"

section \<open>What the record says\<close>

text \<open>
  A record is well formed when every page it holds is one, harvested no later than now and within its
  chunk's latest epoch, and every chunk's latest epoch is a page's.
\<close>

definition watch_record_ok :: "Watch \<Rightarrow> bool" where
  "watch_record_ok w \<longleftrightarrow>
     bt_wf (wt_written w) \<and> bt_wf (wt_chunks w) \<and>
     (\<forall>p v. bt_get (wt_written w) p = Some v \<longrightarrow> v \<le> wt_epoch w \<and> p < U64_MAX \<and>
        (\<exists>l. bt_get (wt_chunks w) (chunk_floor p) = Some l \<and> v \<le> l)) \<and>
     (\<forall>c l. bt_get (wt_chunks w) c = Some l \<longrightarrow> (\<exists>p v. bt_get (wt_written w) p = Some v \<and> chunk_floor p = c \<and> l \<le> v))"

lemma record_get:
  "watch_record_ok w \<Longrightarrow> bt_get (wt_written w) p = Some v \<longleftrightarrow> (p, v) \<in> set (wt_written w)"
  "watch_record_ok w \<Longrightarrow> bt_get (wt_chunks w) c = Some l \<longleftrightarrow> (c, l) \<in> set (wt_chunks w)"
  by (simp_all add: watch_record_ok_def bt_get_mem)

lemma chunk_floor_bounds: "chunk_floor p \<le> p" "p < chunk_floor p + WATCH_CHUNK"
  by (simp_all add: chunk_floor_def WATCH_CHUNK_def dividend_less_div_times)

lemma chunk_floor_mono: "a \<le> b \<Longrightarrow> chunk_floor a \<le> chunk_floor b"
  by (simp add: chunk_floor_def div_le_mono)

lemma note_page_ok:
  assumes "watch_record_ok w" "p < U64_MAX"
  shows "watch_record_ok (note_page p (wt_epoch w) w)"
proof -
  let ?w = "note_page p (wt_epoch w) w" and ?c = "chunk_floor p"
  define old where "old = (case bt_get (wt_chunks w) ?c of Some l \<Rightarrow> l | None \<Rightarrow> 0)"
  have get: "bt_get (wt_written ?w) = (bt_get (wt_written w))(p \<mapsto> wt_epoch w)"
    "bt_get (wt_chunks ?w) = (bt_get (wt_chunks w))(?c \<mapsto> max old (wt_epoch w))"
    by (simp_all add: note_page_def Let_def bt_get_insert old_def)
  have old: "old \<le> wt_epoch w"
  proof (cases "bt_get (wt_chunks w) ?c")
    case (Some l)
    then obtain q v where "bt_get (wt_written w) q = Some v" "l \<le> v"
      using assms(1) unfolding watch_record_ok_def by blast
    moreover from this have "v \<le> wt_epoch w" using assms(1) unfolding watch_record_ok_def by blast
    ultimately show ?thesis using Some by (simp add: old_def)
  qed (simp add: old_def)
  have le: "l \<le> old" if "bt_get (wt_chunks w) ?c = Some l" for l using that by (simp add: old_def)
  show ?thesis
    unfolding watch_record_ok_def
  proof (intro conjI allI impI)
    show "bt_wf (wt_written ?w)" "bt_wf (wt_chunks ?w)"
      using assms(1) by (simp_all add: watch_record_ok_def note_page_def Let_def)
  next
    fix q v assume "bt_get (wt_written ?w) q = Some v"
    then have qv: "q = p \<and> v = wt_epoch w \<or> q \<noteq> p \<and> bt_get (wt_written w) q = Some v"
      by (auto simp: get split: if_splits)
    then show "v \<le> wt_epoch ?w" "q < U64_MAX"
      using assms unfolding watch_record_ok_def by auto
    show "\<exists>l. bt_get (wt_chunks ?w) (chunk_floor q) = Some l \<and> v \<le> l"
    proof (cases "chunk_floor q = ?c")
      case True
      have "v \<le> wt_epoch w" using qv assms(1) unfolding watch_record_ok_def by auto
      with True show ?thesis by (simp add: get)
    next
      case False
      with qv have "bt_get (wt_written w) q = Some v" by auto
      with False assms(1) show ?thesis unfolding watch_record_ok_def get by auto
    qed
  next
    fix c l assume l: "bt_get (wt_chunks ?w) c = Some l"
    show "\<exists>q v. bt_get (wt_written ?w) q = Some v \<and> chunk_floor q = c \<and> l \<le> v"
    proof (cases "c = ?c")
      case True
      with l old have "l = wt_epoch w" by (simp add: get)
      with True show ?thesis by (auto simp: get intro!: exI [of _ p])
    next
      case False
      with l have "bt_get (wt_chunks w) c = Some l" by (simp add: get)
      then obtain q v where q: "bt_get (wt_written w) q = Some v" "chunk_floor q = c" "l \<le> v"
        using assms(1) unfolding watch_record_ok_def by blast
      with False have "q \<noteq> p" by auto
      with q show ?thesis by (auto simp: get)
    qed
  qed
qed

lemma note_all_ok: "watch_record_ok w \<Longrightarrow> \<forall>p \<in> set ps. p < U64_MAX \<Longrightarrow> watch_record_ok (note_all ps w)"
  by (induction ps arbitrary: w) (auto simp: note_page_ok)

lemma note_all_get:
  "bt_get (wt_written (note_all ps w)) p = (if p \<in> set ps then Some (wt_epoch w) else bt_get (wt_written w) p)"
  by (induction ps arbitrary: w) (auto simp: note_page_def Let_def bt_get_insert)

text \<open>The answer read off chunks is the one read off pages.\<close>

lemma written_after_pages:
  assumes ok: "watch_record_ok w" and "stop \<le> U64_MAX"
  shows "written_after w first stop since \<longleftrightarrow>
    (\<exists>p v. bt_get (wt_written w) p = Some v \<and> first \<le> p \<and> p < stop \<and> since < v)" (is "?l \<longleftrightarrow> ?r")
proof
  assume ?r
  then obtain p v where p: "bt_get (wt_written w) p = Some v" "first \<le> p" "p < stop" "since < v" by blast
  then obtain l where l: "bt_get (wt_chunks w) (chunk_floor p) = Some l" "v \<le> l" and max: "p < U64_MAX"
    using ok unfolding watch_record_ok_def by blast
  have "p < saturating_add (chunk_floor p) WATCH_CHUNK"
    using chunk_floor_bounds(2) [of p] max by (simp add: saturating_add_def del: U64_MAX_eq)
  then show ?l
    using p l chunk_floor_bounds(1) [of p] chunk_floor_mono [of first p] record_get [OF ok]
    unfolding written_after_def list_ex_iff Let_def
    by (intro bexI [of _ "(chunk_floor p, l)"]) (auto intro!: bexI [of _ "(p, v)"])
next
  assume ?l
  then obtain c l where c: "(c, l) \<in> set (wt_chunks w)" "c < stop" "since < l"
    "max c first = c \<and> min (saturating_add c WATCH_CHUNK) stop = saturating_add c WATCH_CHUNK \<or>
     (\<exists>(p, v) \<in> set (wt_written w). max c first \<le> p \<and> p < min (saturating_add c WATCH_CHUNK) stop \<and> since < v)"
    unfolding written_after_def list_ex_iff Let_def by auto
  from c(4) show ?r
  proof
    assume whole: "max c first = c \<and> min (saturating_add c WATCH_CHUNK) stop = saturating_add c WATCH_CHUNK"
    obtain p v where p: "bt_get (wt_written w) p = Some v" "chunk_floor p = c" "l \<le> v"
      using ok c(1) record_get [OF ok] unfolding watch_record_ok_def by blast
    then have "p < U64_MAX" using ok unfolding watch_record_ok_def by blast
    then have "p < saturating_add c WATCH_CHUNK"
      using chunk_floor_bounds(2) [of p] p(2) by (simp add: saturating_add_def del: U64_MAX_eq)
    then have "p < stop" using whole by (simp add: min_def split: if_splits)
    moreover have "first \<le> p" using whole chunk_floor_bounds(1) [of p] p(2) by (simp add: max_def split: if_splits)
    ultimately show ?thesis using p c(3) by (meson less_le_trans)
  next
    assume "\<exists>(p, v) \<in> set (wt_written w). max c first \<le> p \<and> p < min (saturating_add c WATCH_CHUNK) stop \<and> since < v"
    then show ?thesis using record_get [OF ok] by fastforce
  qed
qed

section \<open>What a harvest does\<close>

lemma page_floor_bounds: "page_floor a \<le> a" "a < page_floor a + WATCH_PAGE" "WATCH_PAGE dvd page_floor a"
  by (simp_all add: page_floor_def WATCH_PAGE_def dividend_less_div_times)

lemma page_floor_ge: "WATCH_PAGE dvd p \<Longrightarrow> p \<le> a \<Longrightarrow> p \<le> page_floor a"
  by (auto simp: page_floor_def WATCH_PAGE_def elim!: dvdE)

lemma page_list_bounds: "p \<in> set (page_list first stop) \<Longrightarrow> first \<le> p \<and> p < stop"
proof -
  assume "p \<in> set (page_list first stop)"
  then obtain i where i: "i < div_ceil (stop - first) WATCH_PAGE" "p = first + i * WATCH_PAGE"
    by (auto simp: page_list_def)
  then have "i * WATCH_PAGE < stop - first"
  proof (cases "(stop - first) mod WATCH_PAGE = 0")
    case True
    with i(1) have "i < (stop - first) div WATCH_PAGE" by (simp add: div_ceil_def)
    then have "i * WATCH_PAGE < (stop - first) div WATCH_PAGE * WATCH_PAGE" by (simp add: WATCH_PAGE_def)
    with True show ?thesis by (simp add: dvd_div_mult_self mod_eq_0_iff_dvd)
  next
    case False
    with i(1) have "i \<le> (stop - first) div WATCH_PAGE" by (simp add: div_ceil_def)
    then have "i * WATCH_PAGE \<le> (stop - first) div WATCH_PAGE * WATCH_PAGE" by (rule mult_le_mono1)
    also have "\<dots> < stop - first" using False div_mult_mod_eq [of "stop - first" WATCH_PAGE] by linarith
    finally show ?thesis .
  qed
  with i(2) show ?thesis by simp
qed

lemma page_list_iff:
  assumes "WATCH_PAGE dvd first"
  shows "p \<in> set (page_list first stop) \<longleftrightarrow> first \<le> p \<and> p < stop \<and> WATCH_PAGE dvd p"
proof
  assume p: "p \<in> set (page_list first stop)"
  then have "WATCH_PAGE dvd p" using assms by (auto simp: page_list_def)
  with page_list_bounds [OF p] show "first \<le> p \<and> p < stop \<and> WATCH_PAGE dvd p" by simp
next
  assume p: "first \<le> p \<and> p < stop \<and> WATCH_PAGE dvd p"
  then have "WATCH_PAGE dvd p - first" using assms by simp
  then obtain i where i: "p = first + i * WATCH_PAGE" using p by (metis dvdE le_add_diff_inverse mult.commute)
  have "i < div_ceil (stop - first) WATCH_PAGE"
    using i p by (auto simp: div_ceil_def WATCH_PAGE_def)
  with i show "p \<in> set (page_list first stop)" by (auto simp: page_list_def)
qed

lemma page_floor_mono: "a \<le> b \<Longrightarrow> page_floor a \<le> page_floor b"
  by (simp add: page_floor_def div_le_mono)

text \<open>Pages move from the host's list into the record at the current epoch, and nothing else changes.\<close>

definition harvested :: "Watch \<Rightarrow> Watch \<Rightarrow> bool" where
  "harvested w w' \<longleftrightarrow>
     wt_epoch w' = wt_epoch w \<and> wt_guards w' = wt_guards w \<and> wt_registry w' = wt_registry w \<and> wt_owed w' = wt_owed w \<and>
     wt_unguardable w' = wt_unguardable w \<and> wt_guarding w' = wt_guarding w \<and>
     set (wt_dirty w') \<subseteq> set (wt_dirty w) \<and>
     (\<forall>p. bt_get (wt_written w') p =
        (if p \<in> set (wt_dirty w) - set (wt_dirty w') then Some (wt_epoch w) else bt_get (wt_written w) p)) \<and>
     ((\<forall>p \<in> set (wt_dirty w). p < U64_MAX) \<longrightarrow> watch_record_ok w \<longrightarrow> watch_record_ok w')"

lemma harvested_refl [simp]: "harvested w w"
  by (simp add: harvested_def)

lemma harvested_trans:
  assumes "harvested w w'" "harvested w' w''"
  shows "harvested w w''"
  using assms unfolding harvested_def by auto

lemma watch_record_ok_dirty: "watch_record_ok (w\<lparr>wt_dirty := d\<rparr>) = watch_record_ok w"
  by (simp add: watch_record_ok_def)

lemma hand_over_harvested: "set ps \<subseteq> set (wt_dirty w) \<Longrightarrow> harvested w (hand_over ps w)"
proof -
  assume ps: "set ps \<subseteq> set (wt_dirty w)"
  let ?d = "w\<lparr>wt_dirty := filter (\<lambda>p. p \<notin> set ps) (wt_dirty w)\<rparr>"
  have "bt_get (wt_written (hand_over ps w)) p =
      (if p \<in> set (wt_dirty w) - set (wt_dirty (hand_over ps w)) then Some (wt_epoch w) else bt_get (wt_written w) p)" for p
    using ps by (auto simp: hand_over_def note_all_get)
  moreover have "watch_record_ok (hand_over ps w)" if "\<forall>p \<in> set (wt_dirty w). p < U64_MAX" "watch_record_ok w"
    unfolding hand_over_def using that ps by (intro note_all_ok) (auto simp: watch_record_ok_dirty simp del: U64_MAX_eq)
  ultimately show ?thesis by (auto simp: harvested_def simp del: U64_MAX_eq)
qed

text \<open>
  What is known after a harvest of the pages from one address to another: it only harvests, what it finds
  lies there, nothing it may have missed is left there when it succeeds, and it succeeds on watched pages.
\<close>

definition harvest_done :: "(u64 \<Rightarrow> bool) \<Rightarrow> u64 \<Rightarrow> u64 \<Rightarrow> Watch \<Rightarrow> Watch \<Rightarrow> bool \<Rightarrow> bool \<Rightarrow> bool" where
  "harvest_done watched at stop w w' found ok \<longleftrightarrow>
     harvested w w' \<and>
     (\<forall>p \<in> set (wt_dirty w) - set (wt_dirty w'). page_floor at \<le> p \<and> p < stop) \<and>
     (found \<longrightarrow> (\<exists>p \<in> set (wt_dirty w). page_floor at \<le> p \<and> p < stop)) \<and>
     (ok \<longrightarrow> at < stop \<longrightarrow> list_all watched (page_list (page_floor at) stop) \<and>
        (\<forall>p \<in> set (wt_dirty w'). \<not> (page_floor at \<le> p \<and> p < stop))) \<and>
     (stop \<le> at \<or> list_all watched (page_list (page_floor at) stop) \<longrightarrow> ok)"

definition dirty_pages :: "Watch \<Rightarrow> bool" where
  "dirty_pages w \<longleftrightarrow> (\<forall>p \<in> set (wt_dirty w). WATCH_PAGE dvd p \<and> p < U64_MAX)"

lemma dirty_pages_harvested: "harvested w w' \<Longrightarrow> dirty_pages w \<Longrightarrow> dirty_pages w'"
  by (auto simp: harvested_def dirty_pages_def)

lemma host_span_done:
  assumes "host_span watched w first stop = Some found_pages"
  shows "harvest_done watched first stop w (hand_over found_pages w) (found_pages \<noteq> []) True"
proof -
  have found_pages: "found_pages = filter (\<lambda>p. page_floor first \<le> p \<and> p < stop) (wt_dirty w)"
    using assms by (simp add: host_span_def split: if_splits)
  then have "set found_pages \<subseteq> set (wt_dirty w)" by auto
  moreover have "\<exists>p \<in> set (wt_dirty w). page_floor first \<le> p \<and> p < stop" if "found_pages \<noteq> []"
    using that unfolding found_pages filter_empty_conv by blast
  moreover have "list_all watched (page_list (page_floor first) stop)"
    using assms by (simp add: host_span_def split: if_splits)
  ultimately show ?thesis
    using found_pages by (auto simp: harvest_done_def intro: hand_over_harvested)
qed

lemma host_harvest_done:
  assumes "host_harvest watched w first stop = (found_pages, ok)" "dirty_pages w" "first < stop"
  shows "harvest_done watched first stop w (hand_over found_pages w) (found_pages \<noteq> []) ok"
proof -
  let ?all = "page_list (page_floor first) stop"
  have found_pages: "found_pages = filter (\<lambda>p. p \<in> set (takeWhile watched ?all)) (wt_dirty w)" and ok: "ok \<longleftrightarrow> takeWhile watched ?all = ?all"
    using assms(1) by (auto simp: host_harvest_def Let_def)
  have "harvested w (hand_over found_pages w)" using found_pages by (intro hand_over_harvested) auto
  moreover have "\<exists>p \<in> set (wt_dirty w). page_floor first \<le> p \<and> p < stop" if "found_pages \<noteq> []"
  proof -
    from that obtain p where "p \<in> set (wt_dirty w)" "p \<in> set (takeWhile watched ?all)"
      unfolding found_pages filter_empty_conv by blast
    with page_list_bounds [of p] show ?thesis by (auto dest: set_takeWhileD)
  qed
  moreover have "\<not> (page_floor first \<le> p \<and> p < stop)" if ok "p \<in> set (wt_dirty (hand_over found_pages w))" for p
  proof -
    have "takeWhile watched ?all = ?all" using that(1) by (simp only: ok)
    with that(2) have "p \<in> set (wt_dirty w)" "p \<notin> set ?all" by (simp_all add: found_pages)
    with assms(2) show ?thesis by (auto simp: dirty_pages_def page_list_iff [OF page_floor_bounds(3)])
  qed
  moreover have "page_floor first \<le> p \<and> p < stop" if "p \<in> set (wt_dirty w) - set (wt_dirty (hand_over found_pages w))" for p
  proof -
    have "p \<in> set ?all" using that by (auto simp: found_pages dest: set_takeWhileD)
    then show ?thesis by (rule page_list_bounds)
  qed
  moreover have "ok \<longleftrightarrow> list_all watched ?all" by (simp add: ok list_all_iff takeWhile_eq_all_conv)
  ultimately show ?thesis using assms(3) unfolding harvest_done_def by (meson not_less)
qed

lemma harvest_done_join:
  assumes first: "harvest_done watched at mid w w1 f True" and rest: "harvest_done watched mid stop w1 w' found ok"
    and mid: "at < mid" "mid \<le> stop"
  shows "harvest_done watched at stop w w' (f \<or> found) ok"
proof -
  have floor: "page_floor at \<le> page_floor mid" "page_floor mid \<le> mid"
    using mid(1) page_floor_mono page_floor_bounds(1) by auto
  have sub: "set (wt_dirty w1) \<subseteq> set (wt_dirty w)" "set (wt_dirty w') \<subseteq> set (wt_dirty w1)"
    using first rest by (auto simp: harvest_done_def harvested_def)
  have "harvested w w'" using first rest harvested_trans by (auto simp: harvest_done_def)
  moreover have "\<exists>p \<in> set (wt_dirty w). page_floor at \<le> p \<and> p < stop" if "f \<or> found"
    using that
  proof
    assume f
    then obtain p where "p \<in> set (wt_dirty w)" "page_floor at \<le> p" "p < mid" using first by (auto simp: harvest_done_def)
    with mid(2) show ?thesis by (meson less_le_trans)
  next
    assume found
    then obtain p where "p \<in> set (wt_dirty w1)" "page_floor mid \<le> p" "p < stop" using rest by (auto simp: harvest_done_def)
    with sub floor show ?thesis by (meson order_trans subsetD)
  qed
  moreover have "\<not> (page_floor at \<le> p \<and> p < stop)" if "ok" "p \<in> set (wt_dirty w')" for p
  proof
    assume p: "page_floor at \<le> p \<and> p < stop"
    show False
    proof (cases "p < mid")
      case True
      with first mid(1) p that(2) sub show False by (auto simp: harvest_done_def)
    next
      case False
      with rest that p floor show False by (auto simp: harvest_done_def)
    qed
  qed
  moreover have "page_floor at \<le> p \<and> p < stop" if "p \<in> set (wt_dirty w) - set (wt_dirty w')" for p
  proof (cases "p \<in> set (wt_dirty w1)")
    case True
    with that rest have "page_floor mid \<le> p \<and> p < stop" by (simp add: harvest_done_def)
    with floor show ?thesis by simp
  next
    case False
    with that first have "page_floor at \<le> p \<and> p < mid" by (simp add: harvest_done_def)
    with mid show ?thesis by simp
  qed
  moreover have "list_all watched (page_list (page_floor at) stop)" if ok
  proof -
    have "list_all watched (page_list (page_floor at) mid)" "mid < stop \<Longrightarrow> list_all watched (page_list (page_floor mid) stop)"
      using that first rest mid(1) by (simp_all add: harvest_done_def)
    then show ?thesis
      using floor mid by (auto simp: list_all_iff page_list_iff [OF page_floor_bounds(3)])
  qed
  moreover have "ok" if "list_all watched (page_list (page_floor at) stop)"
  proof -
    have "list_all watched (page_list (page_floor mid) stop)"
      using that floor(1) by (auto simp: list_all_iff page_list_iff [OF page_floor_bounds(3)])
    with rest show ?thesis by (simp add: harvest_done_def)
  qed
  moreover have "at < stop" using mid by simp
  ultimately show ?thesis unfolding harvest_done_def by (meson not_less)
qed

lemma by_reservation_done:
  "harvest_by_reservation watched at stop w = (w', found, ok) \<Longrightarrow> dirty_pages w \<Longrightarrow>
     harvest_done watched at stop w w' found ok"
proof (induction watched at stop w arbitrary: w' found ok rule: harvest_by_reservation.induct)
  case (1 watched at stop w)
  show ?case
  proof (cases "stop \<le> at")
    case True
    with 1(2) have "w' = w" "\<not> found" "ok" by (simp_all add: harvest_by_reservation.simps)
    then show ?thesis using True by (simp add: harvest_done_def)
  next
    case go: False
    show ?thesis
    proof (cases "reservation_of at (wt_registry w)")
      case None
      obtain found_pages ok' where h: "host_harvest watched w at stop = (found_pages, ok')" by fastforce
      with 1(2) go None have "w' = hand_over found_pages w" "found = (found_pages \<noteq> [])" "ok = ok'"
        by (auto simp: harvest_by_reservation.simps [of watched at stop w])
      with host_harvest_done [OF h 1(3)] go show ?thesis by simp
    next
      case (Some h)
      obtain holder held_len where h: "h = (holder, held_len)" by (cases h)
      let ?e = "min stop (saturating_add holder held_len)"
      show ?thesis
      proof (cases "host_span watched w at ?e")
        case None
        with 1(2) go Some h have "w' = w" "\<not> found" "\<not> ok"
          by (simp_all add: harvest_by_reservation.simps [of watched at stop w] Let_def)
        moreover have "\<not> list_all watched (page_list (page_floor at) stop)"
          using None page_list_iff [OF page_floor_bounds(3)] by (auto simp: host_span_def list_all_iff split: if_splits)
        ultimately show ?thesis using go by (simp add: harvest_done_def)
      next
        case found_pages: (Some found_pages)
        obtain w1 f1 ok1 where r: "harvest_by_reservation watched ?e stop (hand_over found_pages w) = (w1, f1, ok1)"
          by (metis prod_cases3)
        with 1(2) go Some h found_pages have eq: "w' = w1" "found = (found_pages \<noteq> [] \<or> f1)" "ok = ok1"
          by (simp_all add: harvest_by_reservation.simps [of watched at stop w] Let_def)
        note first = host_span_done [OF found_pages]
        have "dirty_pages (hand_over found_pages w)"
          using first 1(3) dirty_pages_harvested by (auto simp: harvest_done_def)
        from 1(1) [OF go Some h [symmetric] refl found_pages r this] show ?thesis
          unfolding eq
          using reservation_of_at [of at "wt_registry w" holder held_len] Some h go
          by (intro harvest_done_join [OF first]) auto
      qed
    qed
  qed
qed

lemma harvest_result:
  assumes "harvest watched base len w = (w', r)" "dirty_pages w"
  shows "harvest_done watched base (saturating_add base len) w w' (r = Some True) (r \<noteq> None)"
proof -
  obtain w1 found ok where h: "harvest_by_reservation watched base (saturating_add base len) w = (w1, found, ok)"
    by (metis prod_cases3)
  then have "w' = w1" "r = (if ok then Some found else None)" using assms(1) by (auto simp: harvest_def)
  then have "w' = w1" "r = Some True \<longrightarrow> found" "r \<noteq> None \<longleftrightarrow> ok" by simp_all
  with by_reservation_done [OF h assms(2)] show ?thesis unfolding harvest_done_def by blast
qed

section \<open>What is kept\<close>

definition holds_page :: "u64 \<times> u64 \<Rightarrow> u64 \<Rightarrow> bool" where
  "holds_page g p \<longleftrightarrow> fst g \<le> p \<and> p < snd g"

definition guards_apart :: "(u64 \<times> u64) multiset \<Rightarrow> bool" where
  "guards_apart M \<longleftrightarrow> (\<forall>g g'. {#g, g'#} \<subseteq># M \<longrightarrow> \<not> meets (fst g) (snd g) g')"

text \<open>
  A watch is well formed when its record is, the host's list holds pages, and the guards are whole pages,
  apart from one another, with none of the host's list under them.
\<close>

definition watch_ok :: "Watch \<Rightarrow> bool" where
  "watch_ok w \<longleftrightarrow> watch_record_ok w \<and> dirty_pages w \<and> guards_apart (mset (wt_guards w)) \<and>
     (\<forall>g \<in> set (wt_guards w). WATCH_PAGE dvd fst g \<and> WATCH_PAGE dvd snd g \<and> snd g \<le> U64_MAX \<and>
        (\<forall>p \<in> set (wt_dirty w). \<not> holds_page g p))"

text \<open>Nothing seen is forgotten: pages stay in the host's list or come into the record, and only move forward there.\<close>

definition keeps_seen :: "Watch \<Rightarrow> Watch \<Rightarrow> bool" where
  "keeps_seen w w' \<longleftrightarrow> wt_epoch w \<le> wt_epoch w' \<and>
     (\<forall>p \<in> set (wt_dirty w). p \<in> set (wt_dirty w') \<or> (\<exists>v. bt_get (wt_written w') p = Some v \<and> wt_epoch w \<le> v)) \<and>
     (\<forall>p v. bt_get (wt_written w) p = Some v \<longrightarrow> (\<exists>v'. bt_get (wt_written w') p = Some v' \<and> v \<le> v'))"

lemma keeps_seen_refl [simp]: "keeps_seen w w"
  by (auto simp: keeps_seen_def)

lemma keeps_seen_trans: "keeps_seen w w' \<Longrightarrow> keeps_seen w' w'' \<Longrightarrow> keeps_seen w w''"
  unfolding keeps_seen_def by (meson order_trans)

lemma record_le: "watch_record_ok w \<Longrightarrow> bt_get (wt_written w) p = Some v \<Longrightarrow> v \<le> wt_epoch w"
  unfolding watch_record_ok_def by blast

text \<open>An operation is sound when it keeps a watch well formed and forgets nothing seen.\<close>

definition sound :: "Watch \<Rightarrow> Watch \<Rightarrow> bool" where
  "sound w w' \<longleftrightarrow> (watch_ok w \<longrightarrow> watch_ok w' \<and> keeps_seen w w')"

lemma sound_refl [simp]: "sound w w"
  by (simp add: sound_def)

lemma sound_trans: "sound w w' \<Longrightarrow> sound w' w'' \<Longrightarrow> sound w w''"
  unfolding sound_def using keeps_seen_trans by blast

lemma harvested_sound: "harvested w w' \<Longrightarrow> sound w w'"
proof -
  assume h: "harvested w w'"
  have "keeps_seen w w'" if "watch_ok w"
    using h that record_le [of w] unfolding keeps_seen_def harvested_def watch_ok_def by auto
  moreover have "watch_ok w'" if ok: "watch_ok w"
  proof -
    have "\<forall>p \<in> set (wt_dirty w). p < U64_MAX" using ok unfolding watch_ok_def dirty_pages_def by blast
    then have "watch_record_ok w'" using h ok unfolding harvested_def watch_ok_def by blast
    moreover have "dirty_pages w'" using h ok dirty_pages_harvested unfolding watch_ok_def by blast
    moreover have "set (wt_dirty w') \<subseteq> set (wt_dirty w)" "wt_guards w' = wt_guards w"
      using h by (simp_all add: harvested_def)
    ultimately show ?thesis using ok unfolding watch_ok_def by (metis subsetD)
  qed
  ultimately show ?thesis by (simp add: sound_def)
qed

lemma note_all_sound: "\<forall>p \<in> set ps. p < U64_MAX \<Longrightarrow> sound w (note_all ps w)"
proof -
  assume ps: "\<forall>p \<in> set ps. p < U64_MAX"
  have "keeps_seen w (note_all ps w)" if "watch_ok w"
    using that record_le [of w] by (auto simp: keeps_seen_def note_all_get watch_ok_def)
  moreover have "watch_ok (note_all ps w)" if "watch_ok w"
    using that ps note_all_ok by (auto simp: watch_ok_def dirty_pages_def simp del: U64_MAX_eq)
  ultimately show ?thesis by (simp add: sound_def)
qed

lemma harvest_sound: "harvest watched base len w = (w', r) \<Longrightarrow> sound w w'"
proof -
  assume h: "harvest watched base len w = (w', r)"
  show ?thesis
  proof (cases "watch_ok w")
    case True
    then have "harvested w w'" using harvest_result [OF h] by (simp add: watch_ok_def harvest_done_def)
    then show ?thesis by (rule harvested_sound)
  qed (simp add: sound_def)
qed

lemma harvest_step_harvested:
  assumes step: "harvest_step watched rs w = (rest, w', ok)" and found_pages: "dirty_pages w"
  shows "harvested w w'"
proof -
  obtain base len where hd: "hd rs = (base, len)" by fastforce
  let ?first = "fst (pages_of base len)"
  have alone: "harvested w (fst (harvest watched base len w))"
    using harvest_result [OF prod.collapse [symmetric] found_pages, of watched base len] by (simp add: harvest_done_def)
  show ?thesis
  proof (cases "reservation_of ?first (wt_registry w)")
    case None
    then have "w' = fst (harvest watched base len w)" using step hd by (auto simp: harvest_step_def split: prod.splits)
    with alone show ?thesis by simp
  next
    case (Some h)
    obtain holder held_len where h: "h = (holder, held_len)" by fastforce
    define inside where "inside = ranges_inside holder (saturating_add holder held_len) rs"
    define stop where "stop = walk_end ?first inside"
    have eq: "harvest_step watched rs w =
        (if stop = ?first then (let (w', r) = harvest watched base len w in (tl (drop (length inside) rs), w', r \<noteq> None))
         else (case host_span watched w ?first stop of
           None \<Rightarrow> (drop (length inside) rs, w, False) | Some found_pages \<Rightarrow> (drop (length inside) rs, hand_over found_pages w, True)))"
      using Some h hd by (simp add: harvest_step_def Let_def stop_def inside_def cong: option.case_cong)
    show ?thesis
    proof (cases "stop = ?first")
      case True
      then have "w' = fst (harvest watched base len w)" using step eq by (auto split: prod.splits)
      with alone show ?thesis by simp
    next
      case False
      show ?thesis
      proof (cases "host_span watched w ?first stop")
        case None
        with step eq False show ?thesis by simp
      next
        case found_pages: (Some found_pages)
        with step eq False have "w' = hand_over found_pages w" by simp
        with host_span_done [OF found_pages] show ?thesis by (simp add: harvest_done_def)
      qed
    qed
  qed
qed

lemma harvest_ranges_harvested: "harvest_ranges watched rs w = (w', ok) \<Longrightarrow> dirty_pages w \<Longrightarrow> harvested w w'"
proof (induction watched rs w arbitrary: w' ok rule: harvest_ranges.induct)
  case (1 watched rs w)
  show ?case
  proof (cases "rs = []")
    case True
    with 1(2) show ?thesis by (simp add: harvest_ranges.simps)
  next
    case False
    obtain rest w1 ok1 where s: "harvest_step watched rs w = (rest, w1, ok1)" by (metis prod_cases3)
    obtain w2 ok2 where r: "harvest_ranges watched rest w1 = (w2, ok2)" by fastforce
    have "w' = w2" using 1(2) False s r by (simp add: harvest_ranges.simps [of watched rs])
    moreover have w1: "harvested w w1" using s 1(3) by (rule harvest_step_harvested)
    moreover have "harvested w1 w2"
      using 1(1) [OF False s [symmetric] refl r] dirty_pages_harvested [OF w1 1(3)] by simp
    ultimately show ?thesis using harvested_trans by blast
  qed
qed

lemma harvest_ranges_sound: "harvest_ranges watched rs w = (w', ok) \<Longrightarrow> sound w w'"
proof (cases "watch_ok w")
  case True
  assume "harvest_ranges watched rs w = (w', ok)"
  with True have "harvested w w'" by (intro harvest_ranges_harvested) (simp_all add: watch_ok_def)
  then show ?thesis by (rule harvested_sound)
qed (simp add: sound_def)

subsection \<open>Guards\<close>

lemma set_swap_remove: "at < length xs \<Longrightarrow> set (swap_remove at xs) \<subseteq> set xs"
  by (metis mset_swap_remove in_diffD set_mset_mset subsetI)

lemma guards_apart_mono: "guards_apart M \<Longrightarrow> N \<subseteq># M \<Longrightarrow> guards_apart N"
  unfolding guards_apart_def by (meson subset_mset.order_trans)

lemma fewer_guards_sound:
  assumes "set gs \<subseteq> set (wt_guards w)" "mset gs \<subseteq># mset (wt_guards w)"
  shows "sound w (w\<lparr>wt_guards := gs\<rparr>)"
proof -
  have "watch_ok (w\<lparr>wt_guards := gs\<rparr>)" if "watch_ok w"
    using that assms guards_apart_mono [OF _ assms(2)] unfolding watch_ok_def
    by (auto simp: watch_record_ok_def dirty_pages_def simp del: U64_MAX_eq)
  then show ?thesis by (simp add: sound_def keeps_seen_def)
qed

lemma release_guard_sound:
  assumes "at < length (wt_guards w)"
  shows "sound w (release_guard at w)"
proof (cases "watch_ok w")
  case True
  let ?g = "wt_guards w ! at"
  have "?g \<in> set (wt_guards w)" using assms by simp
  then have "snd ?g \<le> U64_MAX" using True unfolding watch_ok_def by blast
  then have "\<forall>p \<in> set (page_list (fst ?g) (snd ?g)). p < U64_MAX" using page_list_bounds less_le_trans by blast
  moreover have "sound w (w\<lparr>wt_guards := swap_remove at (wt_guards w)\<rparr>)"
    using assms by (intro fewer_guards_sound set_swap_remove) (simp_all add: mset_swap_remove)
  ultimately show ?thesis unfolding release_guard_def Let_def by (blast intro: sound_trans note_all_sound)
qed (simp add: sound_def)

lemma lift_guards_sound: "sound w (lift_guards first stop w)"
proof (induction first stop w rule: lift_guards.induct)
  case (1 first stop w)
  show ?case
  proof (cases "position (meets first stop) (wt_guards w)")
    case None
    then show ?thesis by (simp add: lift_guards.simps)
  next
    case (Some at)
    then have "at < length (wt_guards w)" by (auto dest: position_Some)
    then have "sound w (release_guard at w)" by (rule release_guard_sound)
    with 1 [OF Some] Some show ?thesis
      by (simp add: lift_guards.simps [of first stop w]) (blast intro: sound_trans)
  qed
qed

lemma release_guards_sound: "sound w (release_guards base len w)"
  by (simp add: release_guards_def lift_guards_sound)

lemma pages_of_le: "snd (pages_of base len) \<le> U64_MAX"
  unfolding pages_of_def snd_conv by (rule order_trans [OF page_floor_bounds(1) saturating_add_le])

lemma note_written_sound: "sound w (note_written base len w)"
proof -
  have "\<forall>p \<in> set (page_list (fst (pages_of base len)) (snd (pages_of base len))). p < U64_MAX"
    using page_list_bounds pages_of_le less_le_trans by blast
  then show ?thesis unfolding note_written_def by (blast intro: sound_trans note_all_sound release_guards_sound)
qed

lemma write_faulted_sound: "sound w (fst (write_faulted location w))"
proof (cases "position (\<lambda>g. fst g \<le> location \<and> location < snd g) (wt_guards w)")
  case (Some at)
  then have "at < length (wt_guards w)" by (blast dest: position_Some)
  with Some show ?thesis by (simp add: write_faulted_def release_guard_sound)
qed (simp add: write_faulted_def)

lemma later_epoch_sound: "sound w (w\<lparr>wt_epoch := wt_epoch w + 1\<rparr>)"
proof -
  have "watch_ok (w\<lparr>wt_epoch := wt_epoch w + 1\<rparr>)" if "watch_ok w"
    using that unfolding watch_ok_def watch_record_ok_def dirty_pages_def
    by (simp del: U64_MAX_eq) (meson le_SucI)
  then show ?thesis by (auto simp: sound_def keeps_seen_def)
qed

lemma pair_in_add: "{#a, b#} \<subseteq># add_mset g M \<Longrightarrow> {#a, b#} \<subseteq># M \<or> a = g \<and> b \<in># M \<or> b = g \<and> a \<in># M"
proof -
  assume sub: "{#a, b#} \<subseteq># add_mset g M"
  have mem: "a \<in># add_mset g M" "b \<in># add_mset g M" using sub by (auto dest: mset_subset_eqD)
  consider "a = g" | "b = g" "a \<noteq> g" | "a \<noteq> g" "b \<noteq> g" by blast
  then show ?thesis
  proof cases
    case 1
    with sub show ?thesis by simp
  next
    case 2
    with mem show ?thesis by simp
  next
    case 3
    with sub have "{#a, b#} \<subseteq># M" by (auto simp: subseteq_mset_def split: if_splits)
    then show ?thesis ..
  qed
qed

lemma add_guard_ok:
  assumes "watch_ok w" "\<not> list_ex (meets (fst g) (snd g)) (wt_guards w)" "WATCH_PAGE dvd fst g" "WATCH_PAGE dvd snd g" "snd g \<le> U64_MAX"
    "\<And>p. p \<in> set (wt_dirty w) \<Longrightarrow> \<not> holds_page g p"
  shows "watch_ok (w\<lparr>wt_guards := wt_guards w @ [g]\<rparr>)"
proof -
  have "guards_apart (mset (wt_guards w @ [g]))"
    unfolding guards_apart_def
  proof (intro allI impI)
    fix a b assume "{#a, b#} \<subseteq># mset (wt_guards w @ [g])"
    then have "{#a, b#} \<subseteq># mset (wt_guards w) \<or> a = g \<and> b \<in> set (wt_guards w) \<or> b = g \<and> a \<in> set (wt_guards w)"
      using pair_in_add [of a b g "mset (wt_guards w)"] by simp
    then show "\<not> meets (fst a) (snd a) b"
    proof (elim disjE)
      assume "{#a, b#} \<subseteq># mset (wt_guards w)"
      with assms(1) show ?thesis unfolding watch_ok_def guards_apart_def by blast
    qed (use assms(2) in \<open>auto simp: meets_def list_ex_iff\<close>)
  qed
  with assms show ?thesis
    unfolding watch_ok_def by (auto simp: watch_record_ok_def dirty_pages_def simp del: U64_MAX_eq)
qed

lemma page_below: "WATCH_PAGE dvd p \<Longrightarrow> p < snd (pages_of base len) \<Longrightarrow> p < saturating_add base len"
proof -
  let ?s = "saturating_add base len"
  assume p: "WATCH_PAGE dvd p" "p < snd (pages_of base len)"
  have "WATCH_PAGE dvd snd (pages_of base len)" by (simp add: pages_of_def page_floor_bounds)
  with p have "p + WATCH_PAGE \<le> snd (pages_of base len)"
    by (metis dvd_diff_nat dvd_imp_le le_add_diff_inverse less_imp_le_nat nat_add_left_cancel_le zero_less_diff)
  also have "\<dots> \<le> ?s + (WATCH_PAGE - 1)"
    unfolding pages_of_def snd_conv by (rule order_trans [OF page_floor_bounds(1) saturating_add_le_sum])
  finally show ?thesis by (simp add: WATCH_PAGE_def)
qed

text \<open>What a mark that answers leaves: nothing of its range in the host's list, and only earlier harvests in the record.\<close>

lemma mark_result:
  assumes "watch_mark watched protects base len w = (w', r)" "watch_ok w"
  shows "watch_ok w'" "keeps_seen w w'"
    "r = Some since \<Longrightarrow> since < wt_epoch w' \<and> (\<forall>p v. bt_get (wt_written w') p = Some v \<longrightarrow> v \<le> since) \<and>
       (base < saturating_add base len \<longrightarrow> list_all watched (page_list (page_floor base) (saturating_add base len)) \<and>
         (\<forall>p \<in> set (wt_dirty w'). \<not> (page_floor base \<le> p \<and> p < saturating_add base len)))"
proof -
  let ?g = "pages_of base len" and ?guard = "mark_guards protects base len w"
  obtain w1 h where h: "harvest watched base len w = (w1, h)" by fastforce
  have d: "harvest_done watched base (saturating_add base len) w w1 (h = Some True) (h \<noteq> None)"
    using assms(2) by (intro harvest_result [OF h]) (simp add: watch_ok_def)
  have w1: "watch_ok w1" "keeps_seen w w1" using harvest_sound [OF h] assms(2) by (simp_all add: sound_def)
  have same: "wt_epoch w1 = wt_epoch w" "wt_guards w1 = wt_guards w" using d by (simp_all add: harvest_done_def harvested_def)
  have clean: "\<not> holds_page ?g p" if "h \<noteq> None" ?guard "p \<in> set (wt_dirty w1)" for p
  proof
    assume p: "holds_page ?g p"
    have "WATCH_PAGE dvd p" using w1(1) that(3) by (simp add: watch_ok_def dirty_pages_def)
    with p have "page_floor base \<le> p" "p < saturating_add base len"
      using page_below by (auto simp: holds_page_def pages_of_def)
    moreover have "base < saturating_add base len"
    proof (rule ccontr)
      assume "\<not> base < saturating_add base len"
      moreover have "0 < len" using that(2) by (auto simp: mark_guards_def GUARDED_FROM_def)
      ultimately have "U64_MAX \<le> base" by (simp add: saturating_add_def del: U64_MAX_eq split: if_splits)
      then have "snd ?g \<le> page_floor base"
        unfolding pages_of_def snd_conv by (intro page_floor_mono) (meson order_trans saturating_add_le)
      with p show False by (simp add: holds_page_def pages_of_def)
    qed
    ultimately show False using d that(1,3) by (auto simp: harvest_done_def)
  qed
  define w2 where "w2 = (if ?guard then w1\<lparr>wt_guards := wt_guards w1 @ [?g]\<rparr> else w1)"
  have w2: "watch_ok w2" "keeps_seen w w2" if "h \<noteq> None"
  proof -
    have "watch_ok (w1\<lparr>wt_guards := wt_guards w1 @ [?g]\<rparr>)" if ?guard
      using that w1(1) same(2) clean [OF \<open>h \<noteq> None\<close> that] pages_of_le [of base len]
      by (intro add_guard_ok) (auto simp: mark_guards_def pages_of_def page_floor_bounds simp del: U64_MAX_eq)
    then show "watch_ok w2" using w1(1) by (simp add: w2_def)
    show "keeps_seen w w2" using w1(2) by (simp add: w2_def keeps_seen_def)
  qed
  have result: "(w', r) = (if h = None then (w1, None) else (w2\<lparr>wt_epoch := wt_epoch w2 + 1\<rparr>, Some (wt_epoch w)))"
    using assms(1) h by (cases h; cases ?guard) (auto simp: watch_mark_def mark_harvest_def w2_def)
  have step: "watch_ok (w2\<lparr>wt_epoch := wt_epoch w2 + 1\<rparr>)" "keeps_seen w (w2\<lparr>wt_epoch := wt_epoch w2 + 1\<rparr>)" if "h \<noteq> None"
    using w2 [OF that] later_epoch_sound [of w2] keeps_seen_trans unfolding sound_def by blast+
  show "watch_ok w'" using result step(1) w1(1) by (auto split: if_splits)
  show "keeps_seen w w'" using result step(2) w1(2) by (auto split: if_splits)
  assume "r = Some since"
  with result have h: "h \<noteq> None" and w': "w' = w2\<lparr>wt_epoch := wt_epoch w2 + 1\<rparr>" and since: "since = wt_epoch w"
    by (auto split: if_splits)
  have "wt_written w2 = wt_written w1" "wt_dirty w2 = wt_dirty w1" "wt_epoch w2 = wt_epoch w1" by (simp_all add: w2_def)
  moreover have "watch_record_ok w1" using w1(1) by (simp add: watch_ok_def)
  ultimately show "since < wt_epoch w' \<and> (\<forall>p v. bt_get (wt_written w') p = Some v \<longrightarrow> v \<le> since) \<and>
       (base < saturating_add base len \<longrightarrow> list_all watched (page_list (page_floor base) (saturating_add base len)) \<and>
         (\<forall>p \<in> set (wt_dirty w'). \<not> (page_floor base \<le> p \<and> p < saturating_add base len)))"
    using d h same(1) record_le [of w1] by (auto simp: w' since harvest_done_def)
qed

text \<open>A guest instruction writes an address: a guard that holds it is lifted first, and a page the host watches is seen written.\<close>

definition guest_write :: "(u64 \<Rightarrow> bool) \<Rightarrow> u64 \<Rightarrow> Watch \<Rightarrow> Watch" where
  "guest_write watched a w =
     (let w' = fst (write_faulted a w)
      in if watched (page_floor a) then w'\<lparr>wt_dirty := page_floor a # wt_dirty w'\<rparr> else w')"

lemma no_guard_left:
  assumes ok: "watch_ok w" and g: "g \<in> set (wt_guards (fst (write_faulted a w)))"
  shows "\<not> holds_page g (page_floor a)"
proof -
  let ?p = "\<lambda>g. fst g \<le> a \<and> a < snd g"
  have in_w: "g \<in> set (wt_guards w)"
    using g set_swap_remove by (fastforce simp: write_faulted_def release_guard_def Let_def dest: position_Some split: option.splits if_splits)
  have "\<not> (fst g \<le> a \<and> a < snd g)"
  proof (cases "position ?p (wt_guards w)")
    case None
    then show ?thesis using in_w by (simp add: position_None)
  next
    case (Some at)
    let ?h = "wt_guards w ! at"
    have at: "at < length (wt_guards w)" "fst ?h \<le> a" "a < snd ?h" using position_Some [OF Some] by simp_all
    then have "wt_guards w \<noteq> []" by auto
    with Some have "wt_guards (fst (write_faulted a w)) = swap_remove at (wt_guards w)"
      by (simp add: write_faulted_def release_guard_def Let_def)
    with g have "g \<in># mset (swap_remove at (wt_guards w))" by simp
    then have "g \<in># mset (wt_guards w) - {#?h#}" by (simp only: mset_swap_remove [OF at(1)])
    then have "{#?h, g#} \<subseteq># mset (wt_guards w)"
      using at(1) by (simp add: insert_subset_eq_iff)
    then have "\<not> meets (fst ?h) (snd ?h) g" using ok unfolding watch_ok_def guards_apart_def by blast
    with at show ?thesis by (auto simp: meets_def)
  qed
  moreover have "WATCH_PAGE dvd fst g" "WATCH_PAGE dvd snd g" using ok in_w by (auto simp: watch_ok_def)
  ultimately show ?thesis
    using page_floor_ge [of "snd g" a] page_floor_bounds(1) [of a] by (auto simp: holds_page_def not_less)
qed

lemma guest_write_sound: "a \<le> U64_MAX \<Longrightarrow> sound w (guest_write watched a w)"
proof -
  assume a: "a \<le> U64_MAX"
  let ?w = "fst (write_faulted a w)"
  have "page_floor a < U64_MAX"
  proof -
    have "page_floor a \<le> page_floor U64_MAX" using a by (rule page_floor_mono)
    also have "\<dots> < U64_MAX" by (simp add: page_floor_def WATCH_PAGE_def)
    finally show ?thesis .
  qed
  then have "watch_ok (guest_write watched a w)" if "watch_ok w"
  proof -
    have ok: "watch_ok ?w" using write_faulted_sound [of w a] that by (simp add: sound_def)
    have "watch_ok (?w\<lparr>wt_dirty := page_floor a # wt_dirty ?w\<rparr>)"
      unfolding watch_ok_def
    proof (intro conjI ballI)
      show "watch_record_ok (?w\<lparr>wt_dirty := page_floor a # wt_dirty ?w\<rparr>)"
        using ok by (simp add: watch_record_ok_dirty watch_ok_def)
      show "dirty_pages (?w\<lparr>wt_dirty := page_floor a # wt_dirty ?w\<rparr>)"
        using ok \<open>page_floor a < U64_MAX\<close> page_floor_bounds(3) by (simp add: dirty_pages_def watch_ok_def del: U64_MAX_eq)
      show "guards_apart (mset (wt_guards (?w\<lparr>wt_dirty := page_floor a # wt_dirty ?w\<rparr>)))"
        using ok by (simp add: watch_ok_def)
    next
      fix g assume "g \<in> set (wt_guards (?w\<lparr>wt_dirty := page_floor a # wt_dirty ?w\<rparr>))"
      then have g: "g \<in> set (wt_guards ?w)" by simp
      then show "WATCH_PAGE dvd fst g" "WATCH_PAGE dvd snd g" "snd g \<le> U64_MAX"
        using ok unfolding watch_ok_def by blast+
      fix p assume "p \<in> set (wt_dirty (?w\<lparr>wt_dirty := page_floor a # wt_dirty ?w\<rparr>))"
      then have "p = page_floor a \<or> p \<in> set (wt_dirty ?w)" by simp
      then show "\<not> holds_page g p" using ok g no_guard_left [OF that g] unfolding watch_ok_def by blast
    qed
    with ok show ?thesis by (simp add: guest_write_def Let_def)
  qed
  moreover have "keeps_seen w (guest_write watched a w)" if "watch_ok w"
  proof -
    have "keeps_seen w ?w" using write_faulted_sound [of w a] that by (simp add: sound_def)
    moreover have "keeps_seen ?w (guest_write watched a w)" by (auto simp: guest_write_def Let_def keeps_seen_def)
    ultimately show ?thesis by (rule keeps_seen_trans)
  qed
  ultimately show ?thesis by (simp add: sound_def)
qed


section \<open>Runs\<close>

datatype WatchOp =
    Mark_op u64 u64 bool
  | Mark_all_op "(u64 \<times> u64) list"
  | Harvest_all_op "(u64 \<times> u64) list"
  | Written_since_op u64 u64 nat
  | Note_written_op u64 u64
  | Release_guards_op u64 u64
  | Forbid_guards_op u64 u64
  | Allow_guards_op u64 u64
  | Guard_marked_ranges_op
  | Owed_to_op u64 u64
  | Settled_op u64
  | Guest_write_op u64
  | Registry_op registry

text \<open>
  The calls, a guest's own write, and a change of the reservations. A mark carries whether the host agrees
  to make its range read-only.
\<close>

fun watch_do :: "(u64 \<Rightarrow> bool) \<Rightarrow> WatchOp \<Rightarrow> Watch \<Rightarrow> Watch" where
  "watch_do watched (Mark_op base len agrees) w = fst (watch_mark watched (\<lambda>_ _. agrees) base len w)"
| "watch_do watched (Mark_all_op ranges) w = fst (mark_all watched ranges w)"
| "watch_do watched (Harvest_all_op ranges) w = fst (harvest_all watched ranges w)"
| "watch_do watched (Written_since_op base len since) w = fst (written_since watched base len since w)"
| "watch_do watched (Note_written_op base len) w = note_written base len w"
| "watch_do watched (Release_guards_op base len) w = release_guards base len w"
| "watch_do watched (Forbid_guards_op base len) w = forbid_guards base len w"
| "watch_do watched (Allow_guards_op base len) w = allow_guards base len w"
| "watch_do watched Guard_marked_ranges_op w = guard_marked_ranges w"
| "watch_do watched (Owed_to_op base len) w = owed_to base len w"
| "watch_do watched (Settled_op base) w = settled base w"
| "watch_do watched (Guest_write_op a) w = guest_write watched (min a U64_MAX) w"
| "watch_do watched (Registry_op r) w = w\<lparr>wt_registry := r\<rparr>"

definition watch_run :: "(u64 \<Rightarrow> bool) \<Rightarrow> WatchOp list \<Rightarrow> Watch \<Rightarrow> Watch" where
  "watch_run watched ops w = fold (watch_do watched) ops w"

lemma aside_sound:
  "sound w (w\<lparr>wt_owed := d\<rparr>)" "sound w (w\<lparr>wt_unguardable := u\<rparr>)" "sound w (w\<lparr>wt_guarding := b\<rparr>)" "sound w (w\<lparr>wt_registry := r\<rparr>)"
  by (simp_all add: sound_def watch_ok_def watch_record_ok_def dirty_pages_def keeps_seen_def)

lemma harvest_all_sound: "sound w (fst (harvest_all watched ranges w))"
  unfolding harvest_all_def by (rule harvest_ranges_sound) (rule prod.collapse [symmetric])

lemma mark_all_sound: "sound w (fst (mark_all watched ranges w))"
proof -
  let ?w = "fst (harvest_all watched ranges w)"
  have "fst (mark_all watched ranges w) = ?w\<lparr>wt_epoch := wt_epoch ?w + 1\<rparr>"
    by (simp add: mark_all_def Let_def split: prod.split)
  then show ?thesis using harvest_all_sound later_epoch_sound sound_trans by metis
qed

lemma mark_sound: "sound w (fst (watch_mark watched protects base len w))"
proof -
  obtain w' r where "watch_mark watched protects base len w = (w', r)" by fastforce
  with mark_result(1,2) [OF this] show ?thesis by (simp add: sound_def)
qed

lemma written_since_state:
  "fst (written_since watched base len since w) = w \<or>
   fst (written_since watched base len since w) = fst (harvest watched base len w)"
  by (auto simp: written_since_def Let_def split: prod.split option.split bool.split)

lemma watch_do_sound: "sound w (watch_do watched op w)"
proof (cases op)
  case (Written_since_op base len since)
  have "sound w (fst (harvest watched base len w))" by (rule harvest_sound) (rule prod.collapse [symmetric])
  with written_since_state [of watched base len since w] Written_since_op show ?thesis by auto
next
  case (Forbid_guards_op base len)
  then show ?thesis using aside_sound(2) release_guards_sound sound_trans by (fastforce simp: forbid_guards_def)
next
  case (Guest_write_op a)
  then show ?thesis by (simp add: guest_write_sound del: U64_MAX_eq)
qed (simp_all add: mark_sound mark_all_sound harvest_all_sound note_written_sound release_guards_sound aside_sound
    allow_guards_def guard_marked_ranges_def owed_to_def settled_def)

lemma watch_run_sound: "sound w (watch_run watched ops w)"
proof (induction ops arbitrary: w)
  case (Cons op ops)
  have "watch_run watched (op # ops) w = watch_run watched ops (watch_do watched op w)" by (simp add: watch_run_def)
  with Cons watch_do_sound sound_trans show ?case by metis
qed (simp add: watch_run_def)

lemma watch_init_ok: "watch_ok watch_init"
  by (simp add: watch_init_def watch_ok_def watch_record_ok_def dirty_pages_def guards_apart_def)

lemma watch_run_ok: "watch_ok (watch_run watched ops watch_init)"
  using watch_run_sound [of watch_init] watch_init_ok by (simp add: sound_def)

text \<open>A page is seen after a point when the host still lists it or the record has it harvested later.\<close>

definition seen_after :: "nat \<Rightarrow> u64 \<Rightarrow> Watch \<Rightarrow> bool" where
  "seen_after since p w \<longleftrightarrow> since < wt_epoch w \<and>
     (p \<in> set (wt_dirty w) \<or> (\<exists>v. bt_get (wt_written w) p = Some v \<and> since < v))"

lemma seen_after_keeps: "keeps_seen w w' \<Longrightarrow> seen_after since p w \<Longrightarrow> seen_after since p w'"
  unfolding keeps_seen_def seen_after_def by (meson less_le_trans)

lemma written_after_seen:
  assumes "watch_ok w" "bt_get (wt_written w) p = Some v" "since < v" "first \<le> p" "p < stop" "stop \<le> U64_MAX"
  shows "written_after w first stop since"
  using assms written_after_pages [of w stop first since] by (auto simp: watch_ok_def)

lemma find_someD: "find q xs = Some x \<Longrightarrow> x \<in> set xs \<and> q x"
  by (induction xs) (auto split: if_splits)

lemma written_since_seen:
  assumes ok: "watch_ok w" and seen: "seen_after since p w" and p: "page_floor base \<le> p" "p < saturating_add base len" "base < saturating_add base len"
    and all: "list_all watched (page_list (page_floor base) (saturating_add base len))"
    and fits: "WATCH_PAGE dvd p" "saturating_add base len + (WATCH_PAGE - 1) \<le> U64_MAX"
  shows "snd (written_since watched base len since w) = Some True"
proof -
  let ?stop = "saturating_add base len"
  obtain w' r where h: "harvest watched base len w = (w', r)" by fastforce
  have d: "harvest_done watched base ?stop w w' (r = Some True) (r \<noteq> None)"
    using ok by (intro harvest_result [OF h]) (simp add: watch_ok_def)
  have le: "?stop \<le> U64_MAX" by (rule saturating_add_le)
  show ?thesis
  proof (cases "guard_over w (page_floor base) (snd (pages_of base len)) \<noteq> None")
    case True
    then obtain g where g: "g \<in> set (wt_guards w)" "fst g \<le> page_floor base" "snd (pages_of base len) \<le> snd g"
      by (auto simp: guard_over_def dest: find_someD)
    have "p < snd (pages_of base len)"
    proof -
      have "p + WATCH_PAGE \<le> ?stop + (WATCH_PAGE - 1)" using p(2) by (simp add: WATCH_PAGE_def)
      also have "\<dots> = saturating_add ?stop (WATCH_PAGE - 1)" using fits(2) by (rule saturating_add_exact [symmetric])
      finally have "p + WATCH_PAGE \<le> snd (pages_of base len)"
        unfolding pages_of_def snd_conv using fits(1) by (intro page_floor_ge) simp_all
      then show ?thesis by (simp add: WATCH_PAGE_def)
    qed
    then have "holds_page g p" using g p by (simp add: holds_page_def)
    then have "p \<notin> set (wt_dirty w)" using ok g(1) unfolding watch_ok_def by blast
    then obtain v where "bt_get (wt_written w) p = Some v" "since < v" using seen by (auto simp: seen_after_def)
    then have "written_after w (page_floor base) ?stop since" using ok p le by (intro written_after_seen)
    with True show ?thesis by (simp add: written_since_def pages_of_def)
  next
    case False
    have "r \<noteq> None" using d all by (simp add: harvest_done_def)
    moreover have "written_after w' (page_floor base) ?stop since" 
    proof -
      have "watch_ok w'" "keeps_seen w w'" using harvest_sound [OF h] ok by (simp_all add: sound_def)
      then have "seen_after since p w'" using seen seen_after_keeps by blast
      moreover have "p \<notin> set (wt_dirty w')" using d p \<open>r \<noteq> None\<close> by (auto simp: harvest_done_def)
      ultimately obtain v where "bt_get (wt_written w') p = Some v" "since < v" by (auto simp: seen_after_def)
      then show ?thesis using \<open>watch_ok w'\<close> p le by (intro written_after_seen)
    qed
    ultimately show ?thesis using False h by (cases r) (auto simp: written_since_def pages_of_def split: bool.split)
  qed
qed

section \<open>Ranges harvested together\<close>

definition range_clean :: "Watch \<Rightarrow> u64 \<times> u64 \<Rightarrow> bool" where
  "range_clean w r \<longleftrightarrow> (\<forall>p \<in> set (wt_dirty w). \<not> (page_floor (fst r) \<le> p \<and> p < fst r + snd r))"

definition watch_range_fits :: "u64 \<times> u64 \<Rightarrow> bool" where
  "watch_range_fits r \<longleftrightarrow> 0 < snd r \<and> fst r + snd r + (WATCH_PAGE - 1) \<le> U64_MAX"

lemma watch_range_fits_pages:
  assumes "watch_range_fits (b, l)"
  shows "saturating_add b l = b + l" "b + l \<le> snd (pages_of b l)" "page_floor b < snd (pages_of b l)"
proof -
  have fits: "b + l \<le> U64_MAX" "b + l + (WATCH_PAGE - 1) \<le> U64_MAX" "0 < l"
    using assms by (simp_all add: watch_range_fits_def del: U64_MAX_eq)
  show s: "saturating_add b l = b + l" using fits(1) by (rule saturating_add_exact)
  have "snd (pages_of b l) = page_floor (b + l + (WATCH_PAGE - 1))"
    unfolding pages_of_def snd_conv s saturating_add_exact [OF fits(2)] ..
  then show le: "b + l \<le> snd (pages_of b l)"
    using page_floor_bounds(2) [of "b + l + (WATCH_PAGE - 1)"] by (simp add: WATCH_PAGE_def)
  then show "page_floor b < snd (pages_of b l)" using page_floor_bounds(1) [of b] fits(3) by simp
qed

lemma range_clean_mono: "set (wt_dirty w') \<subseteq> set (wt_dirty w) \<Longrightarrow> range_clean w r \<Longrightarrow> range_clean w' r"
  by (auto simp: range_clean_def)

lemma harvest_clean:
  assumes "harvest watched b l w = (w', Some f)" "dirty_pages w" "watch_range_fits (b, l)"
  shows "range_clean w' (b, l)"
  using harvest_result [OF assms(1,2)] watch_range_fits_pages(1) [OF assms(3)] assms(3)
  by (simp add: harvest_done_def range_clean_def watch_range_fits_def)

lemma foldl_max_ge: "(a :: nat) \<le> foldl max a xs" "x \<in> set xs \<Longrightarrow> x \<le> foldl max a xs"
proof -
  show le: "a \<le> foldl max a xs" for a :: nat and xs by (induction xs arbitrary: a) (auto intro: order_trans [OF max.cobounded1])
  show "x \<in> set xs \<Longrightarrow> x \<le> foldl max a xs"
  proof (induction xs arbitrary: a)
    case (Cons y ys)
    then show ?case using order_trans [OF max.cobounded2 le] by auto
  qed simp
qed

lemma harvest_step_clean:
  assumes step: "harvest_step watched rs w = (rest, w', True)" and ok: "dirty_pages w" and rs: "rs \<noteq> []" "sorted (map fst rs)" "list_all watch_range_fits rs"
  shows "\<exists>k. rest = drop k rs \<and> list_all (range_clean w') (take k rs)"
proof -
  obtain base len tail where cons: "rs = (base, len) # tail" using rs(1) by (metis list.exhaust prod.exhaust)
  then have hd: "hd rs = (base, len)" by simp
  let ?first = "fst (pages_of base len)"
  have fits: "watch_range_fits (base, len)" using rs(3) cons by simp
  have alone: "\<exists>k. tl rs = drop k rs \<and> list_all (range_clean w') (take k rs)" if "harvest watched base len w = (w', Some f)" for f
    using harvest_clean [OF that ok fits] cons by (intro exI [of _ 1]) simp
  show ?thesis
  proof (cases "reservation_of ?first (wt_registry w)")
    case None
    obtain w1 r where h: "harvest watched base len w = (w1, r)" by fastforce
    with step None cons have "rest = tl rs" "w' = w1" "r \<noteq> None" by (simp_all add: harvest_step_def)
    with h alone show ?thesis by auto
  next
    case (Some h)
    obtain holder held_len where h: "h = (holder, held_len)" by fastforce
    define inside where "inside = ranges_inside holder (saturating_add holder held_len) rs"
    define stop where "stop = walk_end ?first inside"
    have eq: "harvest_step watched rs w =
        (if stop = ?first then (let (w', r) = harvest watched base len w in (tl (drop (length inside) rs), w', r \<noteq> None))
         else (case host_span watched w ?first stop of
           None \<Rightarrow> (drop (length inside) rs, w, False) | Some found_pages \<Rightarrow> (drop (length inside) rs, hand_over found_pages w, True)))"
      using Some h hd by (simp add: harvest_step_def Let_def stop_def inside_def cong: option.case_cong)
    have reach: "snd (pages_of (fst r) (snd r)) \<le> stop" if "r \<in> set inside" for r
      unfolding stop_def walk_end_def using that by (intro foldl_max_ge(2)) (force simp: case_prod_beta)
    show ?thesis
    proof (cases "stop = ?first")
      case True
      have "inside = []"
      proof (rule ccontr)
        assume "inside \<noteq> []"
        then have "(base, len) \<in> set inside" using cons by (auto simp: inside_def ranges_inside_def split: if_splits)
        from reach [OF this] watch_range_fits_pages(3) [OF fits] True show False by (simp add: pages_of_def)
      qed
      moreover obtain w1 r where h: "harvest watched base len w = (w1, r)" by fastforce
      ultimately have "rest = tl rs" "w' = w1" "r \<noteq> None" using step eq True by simp_all
      with h alone show ?thesis by auto
    next
      case False
      with step eq obtain found_pages where found_pages: "host_span watched w ?first stop = Some found_pages"
        and res: "rest = drop (length inside) rs" "w' = hand_over found_pages w"
        by (auto split: option.splits)
      have first: "page_floor ?first = ?first" "?first = page_floor base"
        by (simp_all add: pages_of_def page_floor_def WATCH_PAGE_def)
      have "?first < stop" using False foldl_max_ge(1) [of ?first] unfolding stop_def walk_end_def by (simp add: le_neq_implies_less)
      then have clean: "\<not> (?first \<le> p \<and> p < stop)" if "p \<in> set (wt_dirty w')" for p
        using host_span_done [OF found_pages] that res(2) first(1) by (simp add: harvest_done_def)
      have "range_clean w' r" if r: "r \<in> set inside" for r
      proof -
        have "r \<in> set rs" using r unfolding inside_def ranges_inside_def by (rule set_takeWhileD [THEN conjunct1])
        then have "watch_range_fits (fst r, snd r)" "base \<le> fst r" using rs(2,3) cons by (auto simp: list_all_iff)
        then have "fst r + snd r \<le> stop" "?first \<le> page_floor (fst r)"
          using watch_range_fits_pages(2) [of "fst r" "snd r"] reach [OF r] page_floor_mono first(2) by auto
        with clean show ?thesis unfolding range_clean_def by (meson less_le_trans order_trans)
      qed
      moreover have "take (length inside) rs = inside" unfolding inside_def ranges_inside_def by (rule takeWhile_eq_take [symmetric])
      ultimately show ?thesis using res(1) by (intro exI [of _ "length inside"]) (simp add: list_all_iff)
    qed
  qed
qed

lemma harvest_ranges_clean:
  "harvest_ranges watched rs w = (w', True) \<Longrightarrow> dirty_pages w \<Longrightarrow> sorted (map fst rs) \<Longrightarrow> list_all watch_range_fits rs \<Longrightarrow>
     list_all (range_clean w') rs"
proof (induction watched rs w arbitrary: w' rule: harvest_ranges.induct)
  case (1 watched rs w)
  show ?case
  proof (cases "rs = []")
    case False
    obtain rest w1 ok1 where s: "harvest_step watched rs w = (rest, w1, ok1)" by (metis prod_cases3)
    obtain w2 ok2 where r: "harvest_ranges watched rest w1 = (w2, ok2)" by fastforce
    have eq: "w' = w2" "ok1" "ok2" using 1(2) False s r by (simp_all add: harvest_ranges.simps [of watched rs])
    have w1: "dirty_pages w1" using harvest_step_harvested [OF s 1(3)] 1(3) by (rule dirty_pages_harvested)
    obtain k where k: "rest = drop k rs" "list_all (range_clean w1) (take k rs)"
      using harvest_step_clean [of watched rs w rest w1] s eq(2) False 1(3-5) by auto
    have "sorted (map fst rest)" "list_all watch_range_fits rest"
      using 1(4,5) k(1) by (auto simp: drop_map [symmetric] sorted_wrt_drop list_all_iff dest: in_set_dropD)
    then have "list_all (range_clean w2) rest"
      using 1(1) [OF False s [symmetric] refl, of w2] r eq(3) w1 by simp
    moreover have "set (wt_dirty w2) \<subseteq> set (wt_dirty w1)"
      using harvest_ranges_harvested [OF r w1] by (simp add: harvested_def)
    then have "list_all (range_clean w2) (take k rs)"
      using k(2) range_clean_mono by (auto simp: list_all_iff)
    ultimately show ?thesis
      using k(1) eq(1) by (metis append_take_drop_id list_all_append)
  qed simp
qed

text \<open>Two points for many ranges at once: what a question of any part of one answers between them.\<close>

lemma harvest_all_clean:
  assumes "harvest_all watched ranges w = (w', True)" "watch_ok w" "list_all (\<lambda>r. 0 < snd r \<longrightarrow> watch_range_fits r) ranges"
    "r \<in> set ranges" "0 < snd r"
  shows "range_clean w' r"
proof -
  let ?rs = "sort (filter (\<lambda>r. 0 < snd r) ranges)"
  have "sorted (map fst ?rs)"
    by (rule sorted_wrt_map_mono [of "(\<le>)"]) (auto simp: less_eq_prod_def)
  moreover have "list_all watch_range_fits ?rs" using assms(3) by (auto simp: list_all_iff)
  moreover have "dirty_pages w" using assms(2) by (simp add: watch_ok_def)
  ultimately have "list_all (range_clean w') ?rs"
    using assms(1) harvest_ranges_clean unfolding harvest_all_def by blast
  moreover have "r \<in> set ?rs" using assms(4,5) by simp
  ultimately show ?thesis by (simp only: list_all_iff)
qed

section \<open>Nothing written is missed\<close>

lemma guest_write_seen:
  assumes "watched (page_floor a)" "since < wt_epoch w" "watch_ok w"
  shows "seen_after since (page_floor a) (guest_write watched a w)"
proof -
  have "keeps_seen w (fst (write_faulted a w))" using write_faulted_sound [of w a] assms(3) by (simp add: sound_def)
  with assms(1,2) show ?thesis by (auto simp: guest_write_def Let_def seen_after_def keeps_seen_def)
qed

lemma later_than: "keeps_seen w w' \<Longrightarrow> since < wt_epoch w \<Longrightarrow> since < wt_epoch w'"
  by (auto simp: keeps_seen_def)

lemma write_between_seen:
  assumes "watch_ok w" "since < wt_epoch w" "watched (page_floor a)" "a \<le> U64_MAX"
  shows "seen_after since (page_floor a) (watch_run watched after (guest_write watched a (watch_run watched before w)))"
    "watch_ok (watch_run watched after (guest_write watched a (watch_run watched before w)))"
proof -
  let ?w1 = "watch_run watched before w" and ?w2 = "guest_write watched a (watch_run watched before w)"
  have w1: "watch_ok ?w1" "keeps_seen w ?w1" using watch_run_sound [of w watched before] assms(1) by (simp_all add: sound_def)
  have w2: "watch_ok ?w2" using guest_write_sound [OF assms(4), of ?w1 watched] w1(1) by (simp add: sound_def)
  have w3: "watch_ok (watch_run watched after ?w2)" "keeps_seen ?w2 (watch_run watched after ?w2)"
    using watch_run_sound [of ?w2 watched after] w2 by (simp_all add: sound_def)
  show "watch_ok (watch_run watched after ?w2)" by (fact w3(1))
  show "seen_after since (page_floor a) (watch_run watched after ?w2)"
    using seen_after_keeps [OF w3(2)] guest_write_seen [where watched = watched and a = a, OF assms(3) later_than [OF w1(2) assms(2)] w1(1)] .
qed

text \<open>C38. A write after a mark is never missed. Whatever calls, marks of other ranges, guards, faults and
  changes of reservations came before, lie between or follow, once a range is marked and the guest then writes
  an address of it, asking whether the range was written since the mark answers that it was. Asked at once
  after the mark, and with nothing owed to it, it answers that it was not.\<close>

theorem write_after_mark_seen:
  assumes "w = watch_run watched ops watch_init" "watch_mark watched protects base len w = (w1, Some since)"
    "base \<le> a" "a < base + len" "base + len + 4095 \<le> U64_MAX"
  shows "snd (written_since watched base len since
      (watch_run watched after (guest_write watched a (watch_run watched before w1)))) = Some True \<and>
    (owed_over base len w1 \<or> snd (written_since watched base len since w1) = Some False)"
proof -
  have s: "saturating_add base len = base + len" using assms(5) by (intro saturating_add_exact) simp
  have w: "watch_ok w" unfolding assms(1) by (rule watch_run_ok)
  note m = mark_result [OF assms(2) w]
  have r: "since < wt_epoch w1" "\<And>p v. bt_get (wt_written w1) p = Some v \<Longrightarrow> v \<le> since"
    "list_all watched (page_list (page_floor base) (base + len))"
    "\<And>p. p \<in> set (wt_dirty w1) \<Longrightarrow> \<not> (page_floor base \<le> p \<and> p < base + len)"
    using m(3) [OF refl] assms(3,4) s by auto
  have p: "page_floor base \<le> page_floor a" "page_floor a < base + len" "WATCH_PAGE dvd page_floor a" "a \<le> U64_MAX"
    using assms(3-5) page_floor_mono page_floor_bounds(1) [of a] page_floor_bounds(3) by (auto simp del: U64_MAX_eq)
  have "watched (page_floor a)"
    using r(3) p(1-3) by (auto simp: list_all_iff page_list_iff [OF page_floor_bounds(3)])
  note seen = write_between_seen [where watched = watched and a = a, OF m(1) r(1) this p(4)]
  have "snd (written_since watched base len since
      (watch_run watched after (guest_write watched a (watch_run watched before w1)))) = Some True"
    using seen p assms(3-5) r(3)
    by (intro written_since_seen [where p = "page_floor a"]) (simp_all add: s WATCH_PAGE_def)
  moreover have "snd (written_since watched base len since w1) = Some False" if "\<not> owed_over base len w1"
  proof -
    have no: "\<not> written_after w' (page_floor base) (base + len) since"
      if "watch_ok w'" "\<And>p. bt_get (wt_written w') p = bt_get (wt_written w1) p" for w'
    proof -
      have "base + len \<le> U64_MAX" using assms(5) by simp
      with that(1) have "written_after w' (page_floor base) (base + len) since \<Longrightarrow> \<exists>p v. bt_get (wt_written w') p = Some v \<and> since < v"
        using written_after_pages [of w' "base + len" "page_floor base" since] by (auto simp: watch_ok_def simp del: U64_MAX_eq)
      then show ?thesis using r(2) that(2) by (metis leD)
    qed
    obtain w2 h where h: "harvest watched base len w1 = (w2, h)" by fastforce
    have d: "harvest_done watched base (base + len) w1 w2 (h = Some True) (h \<noteq> None)"
      using harvest_result [OF h] m(1) by (simp add: watch_ok_def s)
    then have "h = Some False" using r(3,4) by (cases h) (auto simp: harvest_done_def)
    moreover have "\<not> written_after w2 (page_floor base) (base + len) since"
    proof (rule no)
      show "watch_ok w2" using harvest_sound [OF h] m(1) by (simp add: sound_def)
      have "p \<notin> set (wt_dirty w1) - set (wt_dirty w2)" for p
        using d r(4) unfolding harvest_done_def by blast
      then show "bt_get (wt_written w2) p = bt_get (wt_written w1) p" for p
        using d unfolding harvest_done_def harvested_def by metis
    qed
    ultimately show ?thesis using that no [OF m(1) refl] h by (simp add: written_since_def pages_of_def s)
  qed
  ultimately show ?thesis by blast
qed

definition all_watched :: "u64 \<Rightarrow> bool" where "all_watched p \<longleftrightarrow> True"

definition example_ops :: "WatchOp list" where
  "example_ops = [Guard_marked_ranges_op, Guest_write_op 0x10123, Mark_op 0x30000 0x10000 True]"

definition example_watch :: Watch where
  "example_watch = watch_run all_watched example_ops watch_init"

lemma example_marked:
  "watch_mark all_watched (\<lambda>_ _. True) 0x10000 0x10000 example_watch =
     (fst (watch_mark all_watched (\<lambda>_ _. True) 0x10000 0x10000 example_watch), Some 2)"
  by code_simp

theorem write_after_mark_seen_witness:
  "snd (written_since all_watched 0x10000 0x10000 2
      (watch_run all_watched [Mark_op 0x10000 0x10000 True]
        (guest_write all_watched 0x18abc
          (watch_run all_watched [Forbid_guards_op 0x30000 0x1000]
            (fst (watch_mark all_watched (\<lambda>_ _. True) 0x10000 0x10000 example_watch)))))) = Some True \<and>
   (owed_over 0x10000 0x10000 (fst (watch_mark all_watched (\<lambda>_ _. True) 0x10000 0x10000 example_watch)) \<or>
    snd (written_since all_watched 0x10000 0x10000 2
      (fst (watch_mark all_watched (\<lambda>_ _. True) 0x10000 0x10000 example_watch))) = Some False)"
  by (rule write_after_mark_seen [OF example_watch_def example_marked]) simp_all

text \<open>C39. The record's answer is exact. In every run, asking whether a stretch was harvested after a point,
  answered from the latest epoch of each mebibyte wholly inside it and from the pages of those it cuts, is the
  same as looking at every page the record holds.\<close>

theorem written_after_exact:
  assumes "w = watch_run watched ops watch_init" "stop \<le> U64_MAX"
  shows "written_after w first stop since =
    list_ex (\<lambda>(p, v). first \<le> p \<and> p < stop \<and> since < v) (wt_written w)"
proof -
  have ok: "watch_record_ok w" using watch_run_ok [of watched ops] assms(1) by (simp add: watch_ok_def)
  show ?thesis
    unfolding written_after_pages [OF ok assms(2)] record_get(1) [OF ok] by (force simp: list_ex_iff)
qed

theorem written_after_exact_witness:
  "written_after example_watch 0x10000 0x200000 0 =
    list_ex (\<lambda>(p, v). 0x10000 \<le> p \<and> p < 0x200000 \<and> 0 < v) (wt_written example_watch)"
  by (rule written_after_exact [OF example_watch_def]) simp

text \<open>Ranges marked together answer each for itself. Once many ranges are marked at one point and the
  guest writes an address that lies in one of them and that the host watches, and the record is brought up to
  date over all of them, asking the record alone about any part of a range that holds the address answers that
  it was written, whatever else was called in between.\<close>

theorem marked_together_recorded:
  assumes "w = watch_run watched ops watch_init" "mark_all watched ranges w = (w1, Some since)"
    "list_all (\<lambda>r. fst r + snd r + 4095 \<le> U64_MAX) ranges" "r \<in> set ranges" "fst r \<le> base" "base + len \<le> fst r + snd r"
    "base \<le> a" "a < base + len" "watched (page_floor a)"
    "harvest_all watched ranges (watch_run watched after (guest_write watched a (watch_run watched before w1))) = (w2, True)"
  shows "recorded_since base len since w2"
proof -
  let ?w = "watch_run watched after (guest_write watched a (watch_run watched before w1))"
  have fits: "watch_range_fits r" using assms(3-8) by (auto simp: list_all_iff watch_range_fits_def WATCH_PAGE_def)
  then have s: "base + len \<le> U64_MAX" "a \<le> U64_MAX" using assms(6-8) by (auto simp: watch_range_fits_def)
  have w: "watch_ok w" unfolding assms(1) by (rule watch_run_ok)
  have w1: "watch_ok w1" using mark_all_sound [of w watched ranges] w assms(2) by (simp add: sound_def)
  have since: "since < wt_epoch w1"
  proof -
    have "keeps_seen w (fst (harvest_all watched ranges w))" using harvest_all_sound [of w watched ranges] w by (simp add: sound_def)
    then show ?thesis using assms(2) by (auto simp: mark_all_def Let_def keeps_seen_def split: prod.splits if_splits)
  qed
  note seen = write_between_seen [where watched = watched and a = a, OF w1 since assms(9) s(2)]
  have w2: "watch_ok w2" "seen_after since (page_floor a) w2"
    using harvest_all_sound [of ?w watched ranges] seen assms(10) seen_after_keeps by (auto simp: sound_def)
  have "range_clean w2 r"
    using assms(10) seen(2) assms(3,4) fits
    by (intro harvest_all_clean) (auto simp: list_all_iff watch_range_fits_def WATCH_PAGE_def)
  moreover have "page_floor (fst r) \<le> page_floor a" "page_floor a \<le> a" "page_floor base \<le> page_floor a"
    using assms(5,7) page_floor_mono page_floor_bounds(1) by auto
  ultimately have "page_floor a \<notin> set (wt_dirty w2)"
    using assms(6,8) unfolding range_clean_def by (meson le_less_trans less_le_trans)
  then obtain v where "bt_get (wt_written w2) (page_floor a) = Some v" "since < v" using w2(2) by (auto simp: seen_after_def)
  then have "written_after w2 (page_floor base) (base + len) since"
    using w2(1) s(1) assms(8) \<open>page_floor a \<le> a\<close> \<open>page_floor base \<le> page_floor a\<close> by (intro written_after_seen [of w2 "page_floor a" v]) auto
  then show ?thesis by (simp add: recorded_since_def saturating_add_exact [OF s(1)])
qed

definition example_ranges :: "(u64 \<times> u64) list" where
  "example_ranges = [(0x50000, 0x2000), (0x10000, 0x8000)]"

theorem marked_together_recorded_witness:
  "recorded_since 0x12000 0x1000 2 (fst (harvest_all all_watched example_ranges (watch_run all_watched []
      (guest_write all_watched 0x12345 (watch_run all_watched [] (fst (mark_all all_watched example_ranges example_watch)))))))"
proof (rule marked_together_recorded [OF example_watch_def])
  show "mark_all all_watched example_ranges example_watch = (fst (mark_all all_watched example_ranges example_watch), Some 2)"
    by code_simp
  show "(0x10000, 0x8000) \<in> set example_ranges" by (simp add: example_ranges_def)
  show "harvest_all all_watched example_ranges (watch_run all_watched [] (guest_write all_watched 0x12345
      (watch_run all_watched [] (fst (mark_all all_watched example_ranges example_watch))))) =
    (fst (harvest_all all_watched example_ranges (watch_run all_watched [] (guest_write all_watched 0x12345
      (watch_run all_watched [] (fst (mark_all all_watched example_ranges example_watch)))))), True)"
    by code_simp
qed (simp_all add: example_ranges_def all_watched_def)

section \<open>The first guard\<close>



end
