(* ===== verification/Spec2Isabelle.thy ===== *)
theory Spec2Isabelle
  imports Guest_Core Memory_Pool Guest_Sync Sync_Waits Event_Queue Module_Link Link_Plan Process_Stack Command_Work
    Guest_Paths Shader_Blocks Device_Table Write_Watch
begin

text \<open>
  A verification library for Orbistoun, which runs console programs on a host machine by loading
  their modules, placing their memory at the addresses they expect and answering their system calls.

  \<^bold>\<open>Parts.\<close> The development follows the crates that carry guest state:

  \<^item> \<^verbatim>\<open>Prelude\<close> holds the machine integers of the source (checked, wrapping and saturating operations
    on 64-bit words), the outcome type of calls that may panic, little-endian bytes and the
    collections of simplification rules. \<^verbatim>\<open>Ordered_Map\<close> is \<^verbatim>\<open>BTreeMap\<close> as a sorted association list,
    with the range queries the source uses.

  \<^item> \<^verbatim>\<open>Guest_Core\<close> models \<^verbatim>\<open>orbistoun-core\<close>: the error codes of \<^verbatim>\<open>error.rs\<close>, the handles of
    \<^verbatim>\<open>handle.rs\<close>, and the blocks of \<^verbatim>\<open>orbistoun-mem/src/blocks.rs\<close>.

  \<^item> \<^verbatim>\<open>Device_Mappings\<close> (\<^verbatim>\<open>orbistoun-mem/src/mappings.rs\<close>), \<^verbatim>\<open>Address_Space\<close>
    (\<^verbatim>\<open>orbistoun-mem/src/lib.rs\<close>, \<^verbatim>\<open>platform.rs\<close>) and \<^verbatim>\<open>Guest_Memory\<close> (\<^verbatim>\<open>guest.rs\<close>) are guest memory: the
    regions a guest owns, what a device may read, and the bytes. What the host answers to a
    reservation or a change of protection is an argument. \<^verbatim>\<open>Write_Watch\<close> (\<^verbatim>\<open>watch.rs\<close>) is the record of what was
    written since a point: marks, guards, harvests of the host's write watch over the device record's
    reservations, and the questions asked of it.

  \<^item> \<^verbatim>\<open>Direct_Memory\<close> (\<^verbatim>\<open>orbistoun-kernel/src/direct.rs\<close>) is the physical memory a title allocates
    from; \<^verbatim>\<open>Kernel_Memory\<close> (\<^verbatim>\<open>lib.rs\<close>, \<^verbatim>\<open>quarantine.rs\<close>) the calls that allocate, map, unmap and release
    it over one kernel state; \<^verbatim>\<open>Memory_Pool\<close> (\<^verbatim>\<open>pool.rs\<close>) the pools on top of them.

  \<^item> \<^verbatim>\<open>Monitor\<close> is the shape of every blocking object of \<^verbatim>\<open>orbistoun-kernel/src/sync.rs\<close>: a state under
    a host lock, a host condition variable, and threads whose calls are taken a turn at a time, a
    turn being what a thread does from taking the lock to giving it up. The relation
    \<^const>\<open>runs\<close> interleaves the turns of any number of threads, with wakes given to any
    sleeper the host chooses and spurious wakes. Its two locales, one for objects that wake every
    sleeper and one for objects that hand over to one, give the lemmas that no wake is lost.
    \<^verbatim>\<open>Guest_Sync\<close> (locks, semaphores, condition variables, read-write locks) and \<^verbatim>\<open>Sync_Waits\<close>
    (barriers, event flags, waits on an address) interpret them on the code's own turns, and
    \<^verbatim>\<open>Event_Queue\<close> (\<^verbatim>\<open>equeue.rs\<close>) does so for the queues of events.

  \<^item> \<^verbatim>\<open>Elf_Container\<close> and \<^verbatim>\<open>Elf_Symbols\<close> are \<^verbatim>\<open>orbistoun-elf\<close>: the bare and wrapped containers, program headers
    and segment bytes (\<^verbatim>\<open>lib.rs\<close>, \<^verbatim>\<open>wrapper.rs\<close>), then the dynamic table, symbols, relocations, process
    parameters and section names (\<^verbatim>\<open>dynamic.rs\<close>, \<^verbatim>\<open>reloc.rs\<close>, \<^verbatim>\<open>procparam.rs\<close>, \<^verbatim>\<open>sections.rs\<close>). The package
    of known symbol names is an argument.

  \<^item> The loader, \<^verbatim>\<open>orbistoun-loader\<close>: \<^verbatim>\<open>Host_Rewrite\<close> (\<^verbatim>\<open>rewrite.rs\<close>) plans the replacement of instructions a host
    lacks, over an instruction decoder that is an argument; \<^verbatim>\<open>Module_Image\<close> (\<^verbatim>\<open>image.rs\<close>, \<^verbatim>\<open>tls.rs\<close>) places a
    module and lays out its thread-local block; \<^verbatim>\<open>Module_Link\<close> (\<^verbatim>\<open>relocate.rs\<close>, \<^verbatim>\<open>protect.rs\<close>) resolves imports,
    applies relocations and protects pages, with the resolvers' contracts as locales; \<^verbatim>\<open>Link_Plan\<close>
    (\<^verbatim>\<open>plan.rs\<close>) compares link plans; \<^verbatim>\<open>Process_Stack\<close> (\<^verbatim>\<open>process.rs\<close>, \<^verbatim>\<open>unwind.rs\<close>) builds the initial stack.

  \<^item> The command stream of \<^verbatim>\<open>orbistoun-gpu\<close>: \<^verbatim>\<open>Packet_Stream\<close> (\<^verbatim>\<open>packet.rs\<close>) walks and builds packets;
    \<^verbatim>\<open>Stream_Shape\<close> (\<^verbatim>\<open>cp.rs\<close>, \<^verbatim>\<open>cp/whole.rs\<close>, \<^verbatim>\<open>agc_driver.rs\<close>) finds draw segments and expands called
    buffers; \<^verbatim>\<open>Command_Processor\<close> (\<^verbatim>\<open>cp.rs\<close>, \<^verbatim>\<open>cp/indirect_draw.rs\<close>, \<^verbatim>\<open>streamout.rs\<close>) is every packet the command
    processor carries out, over a record of the memory's functions; \<^verbatim>\<open>Command_Work\<close> states what such a
    memory promises as locales, shows that guest memory keeps it, and what follows.

  \<^item> \<^verbatim>\<open>Guest_Paths\<close> (\<^verbatim>\<open>orbistoun-fs/src/mount.rs\<close>) is the mount table: layers over a guest prefix, writable
    prefixes, hidden paths and every resolver of a guest path, over a disk that is a map from host paths
    to nodes without links.

  \<^item> Shaders: \<^verbatim>\<open>Shader_Tables\<close> (\<^verbatim>\<open>orbistoun-shader/src/encoding.rs\<close>, \<^verbatim>\<open>operand.rs\<close>, \<^verbatim>\<open>mnemonics.rs\<close>, \<^verbatim>\<open>formats.rs\<close>) is the
    tables an instruction is read with, \<^verbatim>\<open>Shader_Decode\<close> (\<^verbatim>\<open>decode.rs\<close>) the walk of a binary, and \<^verbatim>\<open>Shader_Blocks\<close>
    (\<^verbatim>\<open>orbistoun-translate/src/blocks.rs\<close>, \<^verbatim>\<open>control.rs\<close>) the split into blocks and the dispatch loop they are
    emitted as, with what an instruction does to a wave as an argument.

  \<^item> \<^verbatim>\<open>Device_Table\<close> (\<^verbatim>\<open>orbistoun-translate/src/device_address.rs\<close>) is the hash table a dispatch turns guest
    addresses into device addresses with: its building from the guest's mappings, its lookup, the chunks
    pointed at copies, and the marks a dispatch leaves.

  \<^bold>\<open>What is shown.\<close> For memory: the invariants of the address space, the device record, the physical
  map, the kernel calls and the pools through every sequence of calls and host answers; that searches
  for room answer the least place that fits and fail only when there is none; that an operation
  changes exactly what it should; that releases undo what they release; and where a refused call
  leaks; that no write after a mark is missed, that the record's answer is the one its pages give, and that
  the first guard is set before anyone can know of it. For synchronisation: exclusion, conservation of counts and wakes, that nobody sleeps through
  what it waits for, that the read-write lock refines its abstract specification, and two runs in
  which a wake is taken by a thread it was not meant for. For event queues: that the ready list and
  the registrations agree, that a scan delivers in order what was ready, and that an event's bytes
  read back. For modules: that reading a parsed file stays in it and does not panic outside the symbol
  walk, that every named symbol is an import or an export, that placing and relocating write only
  inside the image and make the writes they record, that pages get exactly the access their segments
  ask for, and that the initial stack reads back as what it was built from. For command streams: that a
  walk covers its buffer, that built commands walk back to themselves, that draws are split exactly at
  memory work, that the processor's own commands change only the spans read off the stream, that a wait
  polls without effect, and that a built release lands. For paths: that none leaves its mount, that the most
  specific mount answers, and that writing touches the top layer alone. For shaders: that loaded tables are
  well formed and read a word as the most specific family, that a walk ends and covers its buffer, that what
  follows a program does not matter, and that the emitted loop runs the guest's program and ends within its
  budget, together with the program for which it does not. For device addresses: that a table finds every
  mapped address at its place and no other, whatever chunks were moved to copies, that it is refused only for
  a fault of its mappings, and that marks come back as the chunks they stand for. Error paths are shown too: where a sum
  overflows, a record hides part of what it keeps, or a span is left out.

  \<^bold>\<open>Bounds.\<close> Loops of the source are recursions with termination proofs. A placement tried again
  after a conflict is tried \<^const>\<open>CONFLICT_RETRIES\<close> times and called buffers are followed
  \<^const>\<open>MAX_INDIRECT_DEPTH\<close> deep, as the source does; no other fuel is used. A plain sum of the source that
  does not fit is a panic, as in a checked build. Counters the source keeps in 32 or 64 bits are natural numbers where a run would need that
  many calls or threads to wrap them, and words elsewhere. Host locks are never poisoned: a thread
  does not panic inside the sections modelled, so the branches that answer for a poisoned lock are
  not taken.

  \<^bold>\<open>Not modelled.\<close> What shader instructions compute, the structured form of a shader's flow and drawing, which the command processor hands on and which are
  arguments here; fills, copies and frames the driver puts off; audio and video, the host back ends and
  the front ends; the machine code of thunks and context switches; host threads, page faults and file
  access; hashes (link-plan digests, symbol names), which are arguments or left out; and most records
  kept only for reports.
\<close>

end
